(* ===== verification/Sinter_Prelude.thy ===== *)
theory Sinter_Prelude
  imports Main "HOL-Library.Word" "HOL-Library.AList"
begin

text \<open>
  Shared vocabulary of the development: bytes, the error monad that stands for exceptions,
  big-endian integers as \<open>DataView\<close> and \<open>Buffer\<close> read and write them, the insertion-ordered
  \<open>Set\<close> of JavaScript, and the list lemmas the components use.
\<close>

named_theorems result_simps "equations that run the error monad"

type_synonym u8 = "8 word"
type_synonym bytes = "u8 list"

section \<open>Exceptions as values\<close>

text \<open>
  A function of the source that may throw returns \<open>'e + 'a\<close>: \<open>Inl e\<close> is the thrown error,
  \<open>Inr x\<close> the returned value. \<open>bindR\<close> is sequencing (the second computation does not run
  after a throw), \<open>mapR\<close> is \<open>Array.prototype.map\<close> with a callback that may throw.
\<close>

definition bindR :: "'e + 'a \<Rightarrow> ('a \<Rightarrow> 'e + 'b) \<Rightarrow> 'e + 'b" where
  "bindR m f = (case m of Inl e \<Rightarrow> Inl e | Inr x \<Rightarrow> f x)"

fun mapR :: "('a \<Rightarrow> 'e + 'b) \<Rightarrow> 'a list \<Rightarrow> 'e + 'b list" where
  "mapR f [] = Inr []"
| "mapR f (x # xs) = bindR (f x) (\<lambda>y. bindR (mapR f xs) (\<lambda>ys. Inr (y # ys)))"

definition mapErr :: "('e \<Rightarrow> 'f) \<Rightarrow> 'e + 'a \<Rightarrow> 'f + 'a" where
  "mapErr g m = (case m of Inl e \<Rightarrow> Inl (g e) | Inr x \<Rightarrow> Inr x)"

definition isErr :: "'e + 'a \<Rightarrow> bool" where
  "isErr m \<longleftrightarrow> (case m of Inl _ \<Rightarrow> True | Inr _ \<Rightarrow> False)"

lemma bindR_simps [simp, result_simps]:
  "bindR (Inl e) f = Inl e"
  "bindR (Inr x) f = f x"
  by (simp_all add: bindR_def)

lemma bindR_eq_Inr [simp]:
  "bindR m f = Inr y \<longleftrightarrow> (\<exists>x. m = Inr x \<and> f x = Inr y)"
  by (cases m) simp_all

lemma bindR_eq_Inl:
  "bindR m f = Inl e \<longleftrightarrow> m = Inl e \<or> (\<exists>x. m = Inr x \<and> f x = Inl e)"
  by (cases m) simp_all

lemma bindR_assoc:
  "bindR (bindR m f) g = bindR m (\<lambda>x. bindR (f x) g)"
  by (cases m) simp_all

lemma bindR_cong [fundef_cong]:
  "m = m' \<Longrightarrow> (\<And>x. m' = Inr x \<Longrightarrow> f x = f' x) \<Longrightarrow> bindR m f = bindR m' f'"
  by (cases m') simp_all

lemma mapErr_simps [simp, result_simps]:
  "mapErr g (Inl e) = Inl (g e)"
  "mapErr g (Inr x) = Inr x"
  by (simp_all add: mapErr_def)

lemma mapErr_eq_Inr [simp]: "mapErr g m = Inr y \<longleftrightarrow> m = Inr y"
  by (cases m) simp_all

lemma mapErr_eq_Inl [simp]: "mapErr g m = Inl e \<longleftrightarrow> (\<exists>e'. m = Inl e' \<and> e = g e')"
  by (cases m) auto

lemma isErr_simps [simp, result_simps]: "isErr (Inl e)" "\<not> isErr (Inr x)"
  by (simp_all add: isErr_def)

lemma not_isErr: "\<not> isErr m \<longleftrightarrow> (\<exists>x. m = Inr x)"
  by (cases m) simp_all

lemma mapR_cong [fundef_cong]:
  "xs = ys \<Longrightarrow> (\<And>x. x \<in> set ys \<Longrightarrow> f x = g x) \<Longrightarrow> mapR f xs = mapR g ys"
  by (induction xs arbitrary: ys) auto

lemma mapR_Inr_list_all2:
  "mapR f xs = Inr ys \<longleftrightarrow> list_all2 (\<lambda>x y. f x = Inr y) xs ys"
proof (induction xs arbitrary: ys)
  case (Cons x xs)
  show ?case by (cases ys) (auto simp: Cons.IH)
qed auto

lemma mapR_Inr_length: "mapR f xs = Inr ys \<Longrightarrow> length ys = length xs"
  by (auto simp: mapR_Inr_list_all2 dest: list_all2_lengthD)

lemma mapR_Inr_all: "mapR f xs = Inr ys \<Longrightarrow> x \<in> set xs \<Longrightarrow> \<exists>y \<in> set ys. f x = Inr y"
  by (induction xs arbitrary: ys) auto

lemma mapR_total:
  "(\<And>x. x \<in> set xs \<Longrightarrow> \<exists>y. f x = Inr y) \<Longrightarrow> \<exists>ys. mapR f xs = Inr ys"
  by (induction xs) auto

lemma mapR_append:
  "mapR f (xs @ ys) = bindR (mapR f xs) (\<lambda>a. bindR (mapR f ys) (\<lambda>b. Inr (a @ b)))"
  by (induction xs) (auto simp: bindR_def split: sum.splits)

section \<open>Big-endian integers\<close>

text \<open>
  \<open>be_bytes n v\<close> are the \<open>n\<close> bytes \<open>setUint8\<close>, \<open>setUint16\<close>, \<open>setUint32\<close> and \<open>setBigUint64\<close>
  store for \<open>v\<close> (only the low \<open>8 * n\<close> bits are kept), \<open>be_nat\<close> is what the matching getters
  return. The signed getters and setters go through two's complement.
\<close>

primrec be_bytes :: "nat \<Rightarrow> nat \<Rightarrow> bytes" where
  "be_bytes 0 v = []"
| "be_bytes (Suc n) v = of_nat (v div 256 ^ n) # be_bytes n v"

definition byte1 :: "nat \<Rightarrow> bytes" where
  "byte1 v = [of_nat v]"

definition be_nat :: "bytes \<Rightarrow> nat" where
  "be_nat bs = foldl (\<lambda>acc b. acc * 256 + unat b) 0 bs"

definition to_signed :: "nat \<Rightarrow> nat \<Rightarrow> int" where
  "to_signed w n = (if n < 2 ^ (w - 1) then int n else int n - 2 ^ w)"

definition of_signed :: "nat \<Rightarrow> int \<Rightarrow> nat" where
  "of_signed w i = nat (i mod 2 ^ w)"

lemma length_be_bytes [simp]: "length (be_bytes n v) = n"
  by (induction n) simp_all

lemma foldl_be: "foldl (\<lambda>acc b. acc * 256 + unat (b :: u8)) a bs = a * 256 ^ length bs + be_nat bs"
proof (induction bs arbitrary: a)
  case Nil
  then show ?case by (simp add: be_nat_def)
next
  case (Cons b bs)
  have "be_nat (b # bs) = unat b * 256 ^ length bs + be_nat bs"
    using Cons.IH[of "unat b"] by (simp add: be_nat_def)
  then show ?case using Cons.IH[of "a * 256 + unat b"] by (simp add: algebra_simps)
qed

lemma be_nat_simps [simp]:
  "be_nat [] = 0"
  "be_nat (b # bs) = unat b * 256 ^ length bs + be_nat bs"
proof -
  show "be_nat [] = 0" by (simp add: be_nat_def)
  show "be_nat (b # bs) = unat b * 256 ^ length bs + be_nat bs"
    using foldl_be[of "unat b" bs] by (simp add: be_nat_def)
qed

lemma be_nat_append: "be_nat (xs @ ys) = be_nat xs * 256 ^ length ys + be_nat ys"
  by (induction xs) (simp_all add: algebra_simps power_add)

lemma unat_u8_less [simp]: "unat (b :: u8) < 256"
  using unsigned_less[of b, where ?'a = nat] by simp

lemma be_nat_less: "be_nat bs < 256 ^ length bs"
proof (induction bs)
  case (Cons b bs)
  have "unat b * 256 ^ length bs + be_nat bs < Suc (unat b) * 256 ^ length bs"
    using Cons.IH by simp
  also have "\<dots> \<le> 256 * 256 ^ length bs"
    using unat_u8_less[of b] by (intro mult_le_mono1) linarith
  finally show ?case by simp
qed simp

lemma be_nat_be_bytes_mod: "be_nat (be_bytes n v) = v mod 256 ^ n"
proof (induction n)
  case (Suc n)
  have "unat (of_nat (v div 256 ^ n) :: u8) = v div 256 ^ n mod 256"
    by (simp add: unat_of_nat)
  then show ?case
    using Suc.IH mod_mult2_eq[of v "256 ^ n" 256] by (simp add: mult.commute)
qed (simp add: be_nat_def)

lemma be_nat_be_bytes [simp]: "v < 256 ^ n \<Longrightarrow> be_nat (be_bytes n v) = v"
  by (simp add: be_nat_be_bytes_mod)

lemma be_bytes_add_high: "be_bytes n (a * 256 ^ n + v) = be_bytes n v"
proof (induction n arbitrary: a)
  case (Suc n)
  have "be_bytes n (a * 256 ^ Suc n + v) = be_bytes n ((a * 256) * 256 ^ n + v)"
    by (simp add: algebra_simps)
  also have "\<dots> = be_bytes n v" by (rule Suc.IH)
  finally have tl: "be_bytes n (a * 256 ^ Suc n + v) = be_bytes n v" .
  have "(a * 256 ^ Suc n + v) div 256 ^ n = a * 256 + v div 256 ^ n"
    using div_mult_self3[of "256 ^ n" "a * 256" v] by (simp add: algebra_simps)
  moreover have "of_nat (a * 256 + v div 256 ^ n) = (of_nat (v div 256 ^ n) :: u8)"
    by (simp only: word_unat_eq_iff unat_of_nat) simp
  ultimately show ?case using tl by simp
qed simp

lemma be_bytes_be_nat [simp]: "be_bytes (length bs) (be_nat bs) = bs"
proof (induction bs)
  case (Cons b bs)
  have "(unat b * 256 ^ length bs + be_nat bs) div 256 ^ length bs = unat b"
    using be_nat_less[of bs] by simp
  then show ?case using Cons.IH by (simp add: be_bytes_add_high)
qed simp

lemma length_byte1 [simp]: "length (byte1 v) = 1"
  by (simp add: byte1_def)

lemma be_nat_byte1 [simp]: "v < 256 \<Longrightarrow> be_nat (byte1 v) = v"
  by (simp add: byte1_def unat_of_nat)

declare be_bytes.simps(2) [simp del]

lemma be_bytes_inj: "v < 256 ^ n \<Longrightarrow> w < 256 ^ n \<Longrightarrow> be_bytes n v = be_bytes n w \<Longrightarrow> v = w"
  by (metis be_nat_be_bytes)

lemma of_signed_less: "of_signed w i < 2 ^ w"
proof -
  have "i mod 2 ^ w < 2 ^ w" by simp
  then show ?thesis unfolding of_signed_def
    by (metis nat_less_iff of_nat_numeral of_nat_power pos_mod_sign zero_less_numeral zero_less_power)
qed

lemma to_signed_of_signed:
  assumes "0 < w" and "- (2 ^ (w - 1)) \<le> i" and "i < 2 ^ (w - 1)"
  shows "to_signed w (of_signed w i) = i"
proof -
  obtain k where w: "w = Suc k" using assms(1) gr0_implies_Suc by blast
  show ?thesis
  proof (cases "0 \<le> i")
    case True
    with assms(3) w have "i mod 2 ^ w = i" by (intro mod_pos_pos_trivial) auto
    with True assms(3) w show ?thesis by (auto simp: to_signed_def of_signed_def nat_less_iff)
  next
    case False
    with assms w have "(i + 2 ^ w) mod 2 ^ w = i + 2 ^ w" by (intro mod_pos_pos_trivial) auto
    then have m: "i mod 2 ^ w = i + 2 ^ w" by simp
    with assms w False have "\<not> nat (i + 2 ^ w) < 2 ^ k" by (simp add: nat_less_iff)
    with m assms w False show ?thesis by (simp add: to_signed_def of_signed_def)
  qed
qed

lemma to_signed_bounds:
  assumes "0 < w" and "n < 2 ^ w"
  shows "- (2 ^ (w - 1)) \<le> to_signed w n" and "to_signed w n < 2 ^ (w - 1)"
proof -
  obtain k where w: "w = Suc k" using assms(1) gr0_implies_Suc by blast
  have n: "int n < 2 ^ w" using assms(2) by (metis of_nat_less_iff of_nat_numeral of_nat_power)
  have i: "n < 2 ^ k \<longleftrightarrow> int n < 2 ^ k" by (metis of_nat_less_iff of_nat_numeral of_nat_power)
  show "- (2 ^ (w - 1)) \<le> to_signed w n" using i by (auto simp: to_signed_def w intro: order_trans[of _ 0])
  show "to_signed w n < 2 ^ (w - 1)" using n i by (auto simp: to_signed_def w)
qed

section \<open>Insertion-ordered sets and maps\<close>

text \<open>
  A JavaScript \<open>Map\<close> iterates in insertion order and a \<open>set\<close> on a present key keeps its
  place: that is an association list with \<^const>\<open>AList.update\<close> and \<^const>\<open>AList.delete\<close>.
  A \<open>Set\<close> is the list of its elements in insertion order.
\<close>

definition set_add :: "'a \<Rightarrow> 'a list \<Rightarrow> 'a list" where
  "set_add x xs = (if x \<in> set xs then xs else xs @ [x])"

lemma set_set_add [simp]: "set (set_add x xs) = insert x (set xs)"
  by (auto simp: set_add_def)

lemma distinct_set_add [simp]: "distinct xs \<Longrightarrow> distinct (set_add x xs)"
  by (simp add: set_add_def)

lemma map_of_update [simp]: "map_of (AList.update k v m) = (map_of m)(k \<mapsto> v)"
  by (simp add: update_conv fun_eq_iff)

lemma map_of_delete [simp]: "map_of (AList.delete k m) = (map_of m)(k := None)"
  by (simp add: delete_conv fun_eq_iff)

lemma map_fst_update:
  "map fst (AList.update k v m) =
     (if k \<in> fst ` set m then map fst m else map fst m @ [k])"
  by (induction m) auto

lemma map_fst_delete: "map fst (AList.delete k m) = filter (\<lambda>x. x \<noteq> k) (map fst m)"
  by (induction m) auto

lemma distinct_keys_update [simp]:
  "distinct (map fst m) \<Longrightarrow> distinct (map fst (AList.update k v m))"
  by (auto simp: map_fst_update)

lemma distinct_keys_delete [simp]:
  "distinct (map fst m) \<Longrightarrow> distinct (map fst (AList.delete k m))"
  by (simp add: map_fst_delete)

lemma delete_notin [simp]: "k \<notin> fst ` set m \<Longrightarrow> AList.delete k m = m"
  by (induction m) auto

lemma update_notin: "k \<notin> fst ` set m \<Longrightarrow> AList.update k v m = m @ [(k, v)]"
  by (induction m) auto

end
