(* ===== verification/Binary_IO.thy ===== *)
theory Binary_IO
  imports Sinter_Prelude
begin

text \<open>
  \<open>packages/protocol/src/binary-writer.ts\<close>, \<open>binary-reader.ts\<close>, \<open>errors.ts\<close> and the sizes of
  \<open>constants.ts\<close>. The writer is its growing buffer and its length; a failed operation leaves
  the writer as it was, because the capacity is checked first. The reader is its data and an
  offset. The locale \<open>byte_sink\<close> is what the encoder relies on: a bounded sink that appends.
\<close>

datatype protocol_error =
    InvalidMagic | UnsupportedVersion | InvalidMessageKind | InvalidFlags | InvalidRequestId
  | InvalidPayload | PayloadTooLarge | IncompleteFrame | PayloadLengthMismatch
  | InvalidDocumentValue | IntegerOutOfRange | InvalidDate | DocumentTooDeep | CyclicDocument
  | UnexpectedEnd | UnknownValueTag | InvalidUtf8 | DuplicateDocumentKey | TrailingData
  | InvalidMessagePayload

definition MAX_PAYLOAD_SIZE :: nat where
  "MAX_PAYLOAD_SIZE = 16 * 1024 * 1024"

section \<open>BinaryWriter\<close>

record binary_writer =
  bw_buffer :: bytes
  bw_length :: nat

definition INITIAL_CAPACITY :: nat where
  "INITIAL_CAPACITY = 256"

definition new_writer :: binary_writer where
  "new_writer = \<lparr>bw_buffer = replicate INITIAL_CAPACITY 0, bw_length = 0\<rparr>"

definition ensureCapacity :: "binary_writer \<Rightarrow> nat \<Rightarrow> protocol_error + binary_writer" where
  "ensureCapacity w additionalBytes =
     (let requiredCapacity = bw_length w + additionalBytes in
      if MAX_PAYLOAD_SIZE < requiredCapacity then Inl PayloadTooLarge
      else if requiredCapacity \<le> length (bw_buffer w) then Inr w
      else
        (let nextCapacity = min MAX_PAYLOAD_SIZE (max requiredCapacity (length (bw_buffer w) * 2))
         in Inr (w\<lparr>bw_buffer := bw_buffer w @ replicate (nextCapacity - length (bw_buffer w)) 0\<rparr>)))"

definition buffer_set :: "bytes \<Rightarrow> nat \<Rightarrow> bytes \<Rightarrow> bytes" where
  "buffer_set buf pos bs = take pos buf @ bs @ drop (pos + length bs) buf"

definition writeBytes :: "binary_writer \<Rightarrow> bytes \<Rightarrow> protocol_error + binary_writer" where
  "writeBytes w bs =
     bindR (ensureCapacity w (length bs)) (\<lambda>w'.
       Inr (w'\<lparr>bw_buffer := buffer_set (bw_buffer w') (bw_length w') bs,
               bw_length := bw_length w' + length bs\<rparr>))"

definition writeUint8 :: "binary_writer \<Rightarrow> nat \<Rightarrow> protocol_error + binary_writer" where
  "writeUint8 w v = writeBytes w (byte1 v)"

definition writeInt32 :: "binary_writer \<Rightarrow> int \<Rightarrow> protocol_error + binary_writer" where
  "writeInt32 w v = writeBytes w (be_bytes 4 (of_signed 32 v))"

definition writeUint32 :: "binary_writer \<Rightarrow> nat \<Rightarrow> protocol_error + binary_writer" where
  "writeUint32 w v = writeBytes w (be_bytes 4 v)"

definition writeBigInt64 :: "binary_writer \<Rightarrow> int \<Rightarrow> protocol_error + binary_writer" where
  "writeBigInt64 w v = writeBytes w (be_bytes 8 (of_signed 64 v))"

definition writeFloat64 :: "binary_writer \<Rightarrow> 64 word \<Rightarrow> protocol_error + binary_writer" where
  "writeFloat64 w v = writeBytes w (be_bytes 8 (unat v))"

definition writeBigUint64 :: "binary_writer \<Rightarrow> nat \<Rightarrow> protocol_error + binary_writer" where
  "writeBigUint64 w v = writeBytes w (be_bytes 8 v)"

definition finish :: "binary_writer \<Rightarrow> bytes" where
  "finish w = take (bw_length w) (bw_buffer w)"

definition writer_inv :: "binary_writer \<Rightarrow> bool" where
  "writer_inv w \<longleftrightarrow> bw_length w \<le> length (bw_buffer w) \<and> length (bw_buffer w) \<le> MAX_PAYLOAD_SIZE"

section \<open>BinaryReader\<close>

record binary_reader =
  br_data :: bytes
  br_offset :: nat

definition new_reader :: "bytes \<Rightarrow> binary_reader" where
  "new_reader bs = \<lparr>br_data = bs, br_offset = 0\<rparr>"

definition remaining :: "binary_reader \<Rightarrow> nat" where
  "remaining r = length (br_data r) - br_offset r"

definition readBytes :: "binary_reader \<Rightarrow> nat \<Rightarrow> protocol_error + bytes \<times> binary_reader" where
  "readBytes r n =
     (if remaining r < n then Inl UnexpectedEnd
      else Inr (take n (drop (br_offset r) (br_data r)), r\<lparr>br_offset := br_offset r + n\<rparr>))"

definition readUint8 :: "binary_reader \<Rightarrow> protocol_error + nat \<times> binary_reader" where
  "readUint8 r = bindR (readBytes r 1) (\<lambda>(bs, r'). Inr (be_nat bs, r'))"

definition readInt32 :: "binary_reader \<Rightarrow> protocol_error + int \<times> binary_reader" where
  "readInt32 r = bindR (readBytes r 4) (\<lambda>(bs, r'). Inr (to_signed 32 (be_nat bs), r'))"

definition readUint32 :: "binary_reader \<Rightarrow> protocol_error + nat \<times> binary_reader" where
  "readUint32 r = bindR (readBytes r 4) (\<lambda>(bs, r'). Inr (be_nat bs, r'))"

definition readBigInt64 :: "binary_reader \<Rightarrow> protocol_error + int \<times> binary_reader" where
  "readBigInt64 r = bindR (readBytes r 8) (\<lambda>(bs, r'). Inr (to_signed 64 (be_nat bs), r'))"

definition readFloat64 :: "binary_reader \<Rightarrow> protocol_error + 64 word \<times> binary_reader" where
  "readFloat64 r = bindR (readBytes r 8) (\<lambda>(bs, r'). Inr (of_nat (be_nat bs), r'))"

section \<open>A bounded byte sink\<close>

locale byte_sink =
  fixes put :: "'s \<Rightarrow> bytes \<Rightarrow> 'e + 's"
    and contents :: "'s \<Rightarrow> bytes"
    and invar :: "'s \<Rightarrow> bool"
    and limit :: nat
  assumes bounded: "invar s \<Longrightarrow> length (contents s) \<le> limit"
    and put_fits: "invar s \<Longrightarrow> length (contents s) + length bs \<le> limit \<Longrightarrow>
      \<exists>s'. put s bs = Inr s' \<and> invar s' \<and> contents s' = contents s @ bs"
    and put_full: "invar s \<Longrightarrow> limit < length (contents s) + length bs \<Longrightarrow> isErr (put s bs)"
begin

text \<open>A step that behaves like one \<open>put\<close> of \<open>bs\<close>: it succeeds exactly when the bytes fit.\<close>

definition emits :: "('s \<Rightarrow> 'e + 's) \<Rightarrow> bytes \<Rightarrow> bool" where
  "emits step bs \<longleftrightarrow> (\<forall>s. invar s \<longrightarrow>
     (length (contents s) + length bs \<le> limit \<longrightarrow>
        (\<exists>s'. step s = Inr s' \<and> invar s' \<and> contents s' = contents s @ bs)) \<and>
     (limit < length (contents s) + length bs \<longrightarrow> isErr (step s)))"

lemma emits_fits:
  assumes "emits f bs" and "invar s" and "length (contents s) + length bs \<le> limit"
  shows "\<exists>s'. f s = Inr s' \<and> invar s' \<and> contents s' = contents s @ bs"
  using assms unfolding emits_def by blast

lemma emits_full: "emits f bs \<Longrightarrow> invar s \<Longrightarrow> limit < length (contents s) + length bs \<Longrightarrow> isErr (f s)"
  unfolding emits_def by blast

lemma emits_Inr:
  assumes "emits f bs" and "invar s" and "f s = Inr s'"
  shows "invar s' \<and> contents s' = contents s @ bs \<and> length (contents s) + length bs \<le> limit"
  using assms emits_fits[of f bs s] emits_full[of f bs s] isErr_simps(2)[of s']
  by (metis leI sum.inject(2))

lemma emits_put: "emits (\<lambda>s. put s bs) bs"
  using put_fits put_full unfolding emits_def by blast

lemma emits_nil: "emits Inr []"
  using bounded by (auto simp: emits_def) (metis leD)

lemma emits_seq:
  assumes f: "emits f as" and g: "emits g bs"
  shows "emits (\<lambda>s. bindR (f s) g) (as @ bs)"
  unfolding emits_def
proof (intro allI impI conjI)
  fix s assume s: "invar s"
  {
    assume fit: "length (contents s) + length (as @ bs) \<le> limit"
    then obtain t where t: "f s = Inr t" "invar t" "contents t = contents s @ as"
      using emits_fits[OF f s] by auto
    with fit emits_fits[OF g t(2)]
    show "\<exists>s'. bindR (f s) g = Inr s' \<and> invar s' \<and> contents s' = contents s @ as @ bs" by auto
  next
    assume full: "limit < length (contents s) + length (as @ bs)"
    show "isErr (bindR (f s) g)"
    proof (cases "f s")
      case (Inr t)
      then have "invar t" "contents t = contents s @ as" using emits_Inr[OF f s] by auto
      with full emits_full[OF g] Inr show ?thesis by simp
    qed simp
  }
qed

end

section \<open>Lemmas\<close>

lemma MAX_PAYLOAD_SIZE_less: "MAX_PAYLOAD_SIZE < 2 ^ 32"
  by (simp add: MAX_PAYLOAD_SIZE_def)

lemma writer_inv_new: "writer_inv new_writer"
  by (simp add: writer_inv_def new_writer_def INITIAL_CAPACITY_def MAX_PAYLOAD_SIZE_def)

lemma finish_new [simp]: "finish new_writer = []"
  by (simp add: finish_def new_writer_def)

lemma length_finish: "writer_inv w \<Longrightarrow> length (finish w) = bw_length w"
  by (simp add: writer_inv_def finish_def)

lemma finish_bounded: "writer_inv w \<Longrightarrow> length (finish w) \<le> MAX_PAYLOAD_SIZE"
  by (auto simp: writer_inv_def finish_def)

lemma ensureCapacity_fits:
  assumes "writer_inv w" and "bw_length w + n \<le> MAX_PAYLOAD_SIZE"
  shows "\<exists>w'. ensureCapacity w n = Inr w' \<and> writer_inv w' \<and> finish w' = finish w
      \<and> bw_length w' = bw_length w \<and> bw_length w + n \<le> length (bw_buffer w')"
  using assms
  by (auto simp: ensureCapacity_def Let_def writer_inv_def finish_def)

lemma writeBytes_fits:
  assumes "writer_inv w" and "length (finish w) + length bs \<le> MAX_PAYLOAD_SIZE"
  shows "\<exists>w'. writeBytes w bs = Inr w' \<and> writer_inv w' \<and> finish w' = finish w @ bs"
proof -
  obtain v where v: "ensureCapacity w (length bs) = Inr v" "writer_inv v" "finish v = finish w"
      "bw_length v = bw_length w" "bw_length w + length bs \<le> length (bw_buffer v)"
    using ensureCapacity_fits[OF assms(1), of "length bs"] assms(2) length_finish[OF assms(1)] by auto
  define w' where "w' = v\<lparr>bw_buffer := buffer_set (bw_buffer v) (bw_length v) bs,
      bw_length := bw_length v + length bs\<rparr>"
  have "length (bw_buffer w') = length (bw_buffer v)"
    using v(4,5) by (simp add: w'_def buffer_set_def)
  then have "writer_inv w'" using v by (simp add: w'_def writer_inv_def)
  moreover have "finish w' = finish v @ bs"
    using v(4,5) by (simp add: w'_def finish_def buffer_set_def)
  ultimately show ?thesis using v(1,3) by (simp add: writeBytes_def w'_def)
qed

lemma writeBytes_full:
  "writer_inv w \<Longrightarrow> MAX_PAYLOAD_SIZE < length (finish w) + length bs \<Longrightarrow> writeBytes w bs = Inl PayloadTooLarge"
  by (simp add: writeBytes_def ensureCapacity_def length_finish)

interpretation bw: byte_sink writeBytes finish writer_inv MAX_PAYLOAD_SIZE
  by unfold_locales (simp_all add: writeBytes_fits writeBytes_full finish_bounded)

text \<open>What is left to read.\<close>

definition unread :: "binary_reader \<Rightarrow> bytes" where
  "unread r = drop (br_offset r) (br_data r)"

definition advance :: "binary_reader \<Rightarrow> nat \<Rightarrow> binary_reader" where
  "advance r n = r\<lparr>br_offset := br_offset r + n\<rparr>"

lemma advance_add [simp]: "advance (advance r m) n = advance r (m + n)"
  by (simp add: advance_def)

lemma advance_0 [simp]: "advance r 0 = r"
  by (simp add: advance_def)

lemma unread_advance [simp]: "unread (advance r n) = drop n (unread r)"
  by (simp add: unread_def advance_def add.commute)

lemma remaining_unread: "remaining r = length (unread r)"
  by (simp add: remaining_def unread_def)

lemma unread_new [simp]: "unread (new_reader bs) = bs"
  by (simp add: unread_def new_reader_def)

lemma readBytes_unread:
  "unread r = bs @ rest \<Longrightarrow> length bs = n \<Longrightarrow> readBytes r n = Inr (bs, advance r n)"
  by (simp add: readBytes_def remaining_unread advance_def flip: unread_def)

lemma readBytes_Inr:
  "readBytes r n = Inr (bs, r') \<longleftrightarrow>
     n \<le> length (unread r) \<and> bs = take n (unread r) \<and> r' = advance r n"
  by (auto simp: readBytes_def remaining_unread unread_def advance_def split: if_splits)

lemma readUint8_unread:
  "unread r = byte1 v @ rest \<Longrightarrow> v < 256 \<Longrightarrow> readUint8 r = Inr (v, advance r 1)"
  using readBytes_unread[of r "byte1 v" rest 1] by (simp add: readUint8_def)

lemma readUint32_unread:
  "unread r = be_bytes 4 v @ rest \<Longrightarrow> v < 2 ^ 32 \<Longrightarrow> readUint32 r = Inr (v, advance r 4)"
  using readBytes_unread[of r "be_bytes 4 v" rest 4] by (simp add: readUint32_def)

lemma readInt32_unread:
  "unread r = be_bytes 4 (of_signed 32 i) @ rest \<Longrightarrow> - (2 ^ 31) \<le> i \<Longrightarrow> i < 2 ^ 31 \<Longrightarrow>
   readInt32 r = Inr (i, advance r 4)"
  using readBytes_unread[of r "be_bytes 4 (of_signed 32 i)" rest 4] of_signed_less[of 32 i]
    to_signed_of_signed[of 32 i]
  by (simp add: readInt32_def)

lemma readBigInt64_unread:
  "unread r = be_bytes 8 (of_signed 64 i) @ rest \<Longrightarrow> - (2 ^ 63) \<le> i \<Longrightarrow> i < 2 ^ 63 \<Longrightarrow>
   readBigInt64 r = Inr (i, advance r 8)"
  using readBytes_unread[of r "be_bytes 8 (of_signed 64 i)" rest 8] of_signed_less[of 64 i]
    to_signed_of_signed[of 64 i]
  by (simp add: readBigInt64_def)

lemma readFloat64_unread:
  "unread r = be_bytes 8 (unat w) @ rest \<Longrightarrow> readFloat64 r = Inr (w, advance r 8)"
  using readBytes_unread[of r "be_bytes 8 (unat w)" rest 8] unsigned_less[of w, where ?'a = nat]
  by (simp add: readFloat64_def)

end
