(* ===== verification/Js_Number.thy ===== *)
theory Js_Number
  imports Sinter_Prelude "HOL-Library.Log_Nat"
begin

text \<open>
  JavaScript numbers. A value of type \<open>number\<close> is an IEEE 754 binary64 datum and is
  represented by its bit pattern, a \<open>64 word\<close>; \<open>NaN\<close> has one representative, the canonical
  quiet pattern. Every finite datum is an integer multiple of \<open>2 ^ -1074\<close>, so its exact value
  is the integer \<open>num_scaled\<close>; comparisons, integer tests, conversions from integers and the
  rounded addition of the language are computed on that integer.
\<close>

type_synonym js_number = "64 word"

section \<open>Bit patterns and exact values\<close>

definition num_neg :: "js_number \<Rightarrow> bool" where
  "num_neg w \<longleftrightarrow> 2 ^ 63 \<le> unat w"

definition num_mag :: "js_number \<Rightarrow> nat" where
  "num_mag w = unat w mod 2 ^ 63"

definition inf_mag :: nat where
  "inf_mag = 2047 * 2 ^ 52"

definition canonical_nan :: js_number where
  "canonical_nan = 0x7ff8000000000000"

definition isNaN :: "js_number \<Rightarrow> bool" where
  "isNaN w \<longleftrightarrow> inf_mag < num_mag w"

definition isFinite :: "js_number \<Rightarrow> bool" where
  "isFinite w \<longleftrightarrow> num_mag w < inf_mag"

definition neg_zero :: js_number where
  "neg_zero = 0x8000000000000000"

definition scaled_mag :: "nat \<Rightarrow> nat" where
  "scaled_mag b =
     (let e = b div 2 ^ 52; m = b mod 2 ^ 52
      in if e = 0 then m else (2 ^ 52 + m) * 2 ^ (e - 1))"

definition num_scaled :: "js_number \<Rightarrow> int" where
  "num_scaled w = (if num_neg w then - int (scaled_mag (num_mag w)) else int (scaled_mag (num_mag w)))"

definition num_unit :: int where
  "num_unit = 2 ^ 1074"

definition isInteger :: "js_number \<Rightarrow> bool" where
  "isInteger w \<longleftrightarrow> isFinite w \<and> num_scaled w mod num_unit = 0"

definition num_int :: "js_number \<Rightarrow> int" where
  "num_int w = num_scaled w div num_unit"

definition MAX_SAFE_INTEGER :: int where
  "MAX_SAFE_INTEGER = 2 ^ 53 - 1"

definition isSafeInteger :: "js_number \<Rightarrow> bool" where
  "isSafeInteger w \<longleftrightarrow> isInteger w \<and> \<bar>num_int w\<bar> \<le> MAX_SAFE_INTEGER"

section \<open>Rounding\<close>

text \<open>
  \<open>round_mag s\<close> is the magnitude pattern nearest to \<open>s * 2 ^ -1074\<close>, ties to even. With
  \<open>e\<close> binary digits dropped and quotient \<open>q < 2 ^ 53\<close>, exponent and significand together are
  \<open>e * 2 ^ 52 + q\<close>: a carry out of the significand lands in the exponent field.
\<close>

definition round_mag :: "nat \<Rightarrow> nat" where
  "round_mag s =
     (let e = floorlog 2 s - 53; q = s div 2 ^ e; r = s mod 2 ^ e;
          q' = (if 2 ^ e < 2 * r \<or> (2 ^ e = 2 * r \<and> odd q) then q + 1 else q)
      in min inf_mag (e * 2 ^ 52 + q'))"

definition num_of_sign_mag :: "bool \<Rightarrow> nat \<Rightarrow> js_number" where
  "num_of_sign_mag neg m = of_nat (if neg then 2 ^ 63 + m else m)"

definition num_of_scaled :: "int \<Rightarrow> js_number" where
  "num_of_scaled s = num_of_sign_mag (s < 0) (round_mag (nat \<bar>s\<bar>))"

definition num_of_int :: "int \<Rightarrow> js_number" where
  "num_of_int i = num_of_scaled (i * num_unit)"

definition num_add :: "js_number \<Rightarrow> js_number \<Rightarrow> js_number" where
  "num_add a b =
     (if isNaN a \<or> isNaN b then canonical_nan
      else if \<not> isFinite a then
        (if isFinite b \<or> num_neg a = num_neg b then a else canonical_nan)
      else if \<not> isFinite b then b
      else if num_scaled a = 0 \<and> num_scaled b = 0 \<and> num_neg a \<and> num_neg b then neg_zero
      else num_of_scaled (num_scaled a + num_scaled b))"

section \<open>Order\<close>

text \<open>
  The scaled value of an infinity, \<open>2 ^ 2098\<close>, lies beyond every finite one, so \<open>num_less\<close>
  is the language's \<open><\<close>. Against a bigint the infinities are compared by sign.
\<close>

definition num_less :: "js_number \<Rightarrow> js_number \<Rightarrow> bool" where
  "num_less a b \<longleftrightarrow> \<not> isNaN a \<and> \<not> isNaN b \<and> num_scaled a < num_scaled b"

definition num_less_bigint :: "js_number \<Rightarrow> int \<Rightarrow> bool" where
  "num_less_bigint a i \<longleftrightarrow> \<not> isNaN a \<and>
     (if isFinite a then num_scaled a < i * num_unit else num_neg a)"

definition bigint_less_num :: "int \<Rightarrow> js_number \<Rightarrow> bool" where
  "bigint_less_num i a \<longleftrightarrow> \<not> isNaN a \<and>
     (if isFinite a then i * num_unit < num_scaled a else \<not> num_neg a)"

text \<open>A number as the model stores it: \<open>NaN\<close> only in its canonical form.\<close>

definition canonical_num :: "js_number \<Rightarrow> js_number" where
  "canonical_num w = (if isNaN w then canonical_nan else w)"

definition wf_num :: "js_number \<Rightarrow> bool" where
  "wf_num w \<longleftrightarrow> (isNaN w \<longrightarrow> w = canonical_nan)"

section \<open>Lemmas\<close>

lemma unat_js_number_less: "unat (w :: js_number) < 2 ^ 64"
  using unsigned_less[of w, where ?'a = nat] by simp

lemma num_mag_less: "num_mag w < 2 ^ 63"
  by (simp add: num_mag_def)

lemma unat_sign_mag: "unat w = (if num_neg w then 2 ^ 63 + num_mag w else num_mag w)"
  using unat_js_number_less[of w] by (simp add: num_neg_def num_mag_def le_mod_geq)

lemma num_of_sign_mag_id: "num_of_sign_mag (num_neg w) (num_mag w) = w"
  by (simp add: num_of_sign_mag_def flip: unat_sign_mag)

lemma sign_mag_of:
  assumes "m < 2 ^ 63"
  shows "num_mag (num_of_sign_mag neg m) = m" and "num_neg (num_of_sign_mag neg m) = neg"
proof -
  have "unat (num_of_sign_mag neg m) = (if neg then 2 ^ 63 + m else m)"
    using assms by (simp add: num_of_sign_mag_def unat_of_nat)
  then show "num_mag (num_of_sign_mag neg m) = m" and "num_neg (num_of_sign_mag neg m) = neg"
    using assms by (auto simp: num_mag_def num_neg_def)
qed

lemma isNaN_canonical [simp]: "isNaN canonical_nan"
  by (simp add: isNaN_def canonical_nan_def inf_mag_def num_mag_def)

lemma isFinite_not_isNaN: "isFinite w \<Longrightarrow> \<not> isNaN w"
  by (simp add: isFinite_def isNaN_def)

lemma wf_canonical_num [simp]: "wf_num (canonical_num w)"
  by (simp add: wf_num_def canonical_num_def)

lemma canonical_num_id: "wf_num w \<Longrightarrow> canonical_num w = w"
  by (auto simp: wf_num_def canonical_num_def)

lemma floorlog_between: "2 ^ k \<le> s \<Longrightarrow> s < 2 ^ Suc k \<Longrightarrow> floorlog 2 s = Suc k"
  by (intro antisym floorlog_leI floorlog_ge_SucI) auto

lemma floorlog_small: "s < 2 ^ 53 \<Longrightarrow> floorlog 2 s \<le> 53"
  by (simp add: floorlog_leI)

lemma floorlog_shift:
  assumes "2 ^ 52 \<le> q" and "q < 2 ^ 53"
  shows "floorlog 2 (q * 2 ^ e) = 53 + e"
proof -
  have "2 ^ (52 + e) \<le> q * 2 ^ e" using assms(1) by (simp add: power_add)
  moreover have "q * 2 ^ e < 2 ^ Suc (52 + e)" using assms(2) by (simp add: power_add)
  ultimately show ?thesis using floorlog_between by fastforce
qed

lemma round_mag_exact:
  assumes "q < 2 ^ 53" and "e = 0 \<or> 2 ^ 52 \<le> q" and "e * 2 ^ 52 + q < inf_mag"
  shows "round_mag (q * 2 ^ e) = e * 2 ^ 52 + q"
proof -
  have "floorlog 2 (q * 2 ^ e) - 53 = e"
    using assms(1,2) floorlog_shift[of q e] floorlog_small[of q] by auto
  then show ?thesis using assms(3) by (simp add: round_mag_def Let_def)
qed

text \<open>Rounding the exact value of a finite pattern gives the pattern back.\<close>

lemma round_scaled_mag:
  assumes "b < inf_mag"
  shows "round_mag (scaled_mag b) = b"
proof -
  define e m where "e = b div 2 ^ 52" and "m = b mod 2 ^ 52"
  have b: "b = e * 2 ^ 52 + m" and m: "m < 2 ^ 52" by (simp_all add: e_def m_def)
  show ?thesis
  proof (cases "e = 0")
    case True
    then have "scaled_mag b = m * 2 ^ 0" unfolding scaled_mag_def e_def m_def by (simp add: Let_def)
    moreover have "round_mag (m * 2 ^ 0) = 0 * 2 ^ 52 + m"
      using m assms b True by (intro round_mag_exact) auto
    ultimately show ?thesis using b True by simp
  next
    case False
    then obtain k where k: "e = Suc k" by (cases e) auto
    then have "scaled_mag b = (2 ^ 52 + m) * 2 ^ k"
      unfolding scaled_mag_def e_def m_def by (simp add: Let_def)
    moreover have "round_mag ((2 ^ 52 + m) * 2 ^ k) = k * 2 ^ 52 + (2 ^ 52 + m)"
      using m assms b k by (intro round_mag_exact) auto
    ultimately show ?thesis using b k by simp
  qed
qed

lemma scaled_mag_pos: "0 < b \<Longrightarrow> 0 < scaled_mag b"
  by (auto simp: scaled_mag_def Let_def intro!: Nat.gr0I)

lemma scaled_mag_0 [simp]: "scaled_mag 0 = 0"
  by (simp add: scaled_mag_def)

lemma num_of_scaled_num_scaled:
  assumes "isFinite w" and "w \<noteq> neg_zero"
  shows "num_of_scaled (num_scaled w) = w"
proof (cases "num_mag w = 0")
  case True
  with assms(2) have "\<not> num_neg w"
    using unat_sign_mag[of w] by (auto simp: neg_zero_def word_unat_eq_iff split: if_splits)
  with True have "w = 0" using unat_sign_mag[of w] by (simp add: word_unat_eq_iff)
  then show ?thesis
    by (simp add: num_scaled_def num_mag_def num_of_scaled_def num_of_sign_mag_def round_mag_def
        floorlog_def)
next
  case False
  have r: "round_mag (scaled_mag (num_mag w)) = num_mag w"
    using assms(1) by (simp add: isFinite_def round_scaled_mag)
  have "0 < scaled_mag (num_mag w)" using False scaled_mag_pos by simp
  then have "num_scaled w < 0 \<longleftrightarrow> num_neg w" by (auto simp: num_scaled_def)
  moreover have "nat \<bar>num_scaled w\<bar> = scaled_mag (num_mag w)" by (simp add: num_scaled_def)
  ultimately show ?thesis
    using r num_of_sign_mag_id[of w] by (simp add: num_of_scaled_def)
qed

text \<open>An integer-valued number is recovered from its integer value.\<close>

lemma num_of_int_num_int:
  assumes "isInteger w" and "w \<noteq> neg_zero"
  shows "num_of_int (num_int w) = w"
proof -
  have "num_int w * num_unit = num_scaled w"
    using assms(1) by (auto simp: isInteger_def num_int_def dvd_eq_mod_eq_0[symmetric])
  with assms show ?thesis
    by (simp add: num_of_int_def isInteger_def num_of_scaled_num_scaled)
qed

text \<open>Integers below 2^53 in magnitude are converted exactly.\<close>

lemma scaled_mag_normal:
  assumes "2 ^ 52 \<le> q" and "q < 2 ^ 53"
  shows "scaled_mag (e * 2 ^ 52 + q) = q * 2 ^ e"
proof -
  obtain m where m: "q = 2 ^ 52 + m" using assms(1) le_Suc_ex by blast
  then have "m < 2 ^ 52" using assms(2) by simp
  then have "(e * 2 ^ 52 + q) div 2 ^ 52 = Suc e" "(e * 2 ^ 52 + q) mod 2 ^ 52 = m"
    unfolding m by simp_all
  then show ?thesis unfolding scaled_mag_def Let_def m by simp
qed

lemma num_of_int_pos:
  assumes "0 < n" and "n < 2 ^ 53"
  obtains b where "round_mag (n * 2 ^ 1074) = b" "scaled_mag b = n * 2 ^ 1074" "b < inf_mag" "0 < b"
proof -
  define k where "k = floorlog 2 n"
  have k: "0 < k" "k \<le> 53" using assms floorlog_small[of n] by (auto simp: k_def floorlog_def)
  have n: "2 ^ (k - 1) \<le> n" "n < 2 ^ k" using floorlog_bounds[of n 2] assms(1) by (simp_all add: k_def)
  define q e where "q = n * 2 ^ (53 - k)" and "e = 1021 + k"
  have "2 ^ (k - 1) * 2 ^ (53 - k) \<le> q" "q < 2 ^ k * 2 ^ (53 - k)" using n by (simp_all add: q_def)
  then have q: "2 ^ 52 \<le> q" "q < 2 ^ 53" using k by (simp_all flip: power_add)
  have eq: "n * 2 ^ 1074 = q * 2 ^ e" using k by (simp add: q_def e_def flip: power_add)
  have lt: "e * 2 ^ 52 + q < inf_mag"
  proof -
    have "e * 2 ^ 52 + q < 1074 * 2 ^ 52 + 2 ^ 53" using k q by (intro add_le_less_mono) (auto simp: e_def)
    then show ?thesis by (simp add: inf_mag_def)
  qed
  show ?thesis
    using that[of "e * 2 ^ 52 + q"] round_mag_exact[of q e] scaled_mag_normal[OF q] q lt eq by simp
qed

lemma num_of_int_exact:
  assumes "\<bar>i\<bar> < 2 ^ 53"
  shows "isInteger (num_of_int i)" and "num_int (num_of_int i) = i" and "num_of_int i \<noteq> neg_zero"
proof -
  have "num_scaled (num_of_int i) = i * num_unit \<and> isFinite (num_of_int i) \<and> num_of_int i \<noteq> neg_zero"
  proof (cases "i = 0")
    case True
    then show ?thesis
      by (simp add: num_of_int_def num_of_scaled_def num_of_sign_mag_def round_mag_def floorlog_def
          num_scaled_def num_mag_def isFinite_def inf_mag_def neg_zero_def)
  next
    case False
    define n where "n = nat \<bar>i\<bar>"
    have n: "0 < n" "n < 2 ^ 53" using False assms by (auto simp: n_def nat_less_iff)
    from n obtain b where b: "round_mag (n * 2 ^ 1074) = b" "scaled_mag b = n * 2 ^ 1074" "b < inf_mag" "0 < b"
      by (rule num_of_int_pos)
    have "nat \<bar>i * num_unit\<bar> = n * 2 ^ 1074"
      by (simp add: n_def num_unit_def abs_mult nat_mult_distrib nat_power_eq)
    moreover have "i * num_unit < 0 \<longleftrightarrow> i < 0" by (simp add: num_unit_def mult_less_0_iff)
    ultimately have w: "num_of_int i = num_of_sign_mag (i < 0) b"
      by (simp only: num_of_int_def num_of_scaled_def b(1))
    have "b < 2 ^ 63" using b(3) by (simp add: inf_mag_def)
    note sm = sign_mag_of[OF this, of "i < 0"]
    have "num_scaled (num_of_int i) = (if i < 0 then - int (n * 2 ^ 1074) else int (n * 2 ^ 1074))"
      by (simp only: num_scaled_def w sm b(2))
    also have "\<dots> = i * num_unit" by (simp add: n_def num_unit_def)
    finally have "num_scaled (num_of_int i) = i * num_unit" .
    moreover have "num_of_int i \<noteq> neg_zero"
      using sm(1) b(4) w by (auto simp: neg_zero_def num_mag_def)
    ultimately show ?thesis using sm(1) b(3) w by (simp add: isFinite_def)
  qed
  then show "isInteger (num_of_int i)" "num_int (num_of_int i) = i" "num_of_int i \<noteq> neg_zero"
    by (simp_all add: isInteger_def num_int_def num_unit_def)
qed

text \<open>Every finite number lies between the scaled values of the two infinities.\<close>

lemma scaled_mag_inf: "scaled_mag inf_mag = 2 ^ 2098"
proof -
  have "inf_mag div 2 ^ 52 = 2047" "inf_mag mod 2 ^ 52 = 0" unfolding inf_mag_def by simp_all
  then have "scaled_mag inf_mag = 2 ^ 52 * 2 ^ 2046" unfolding scaled_mag_def Let_def by simp
  then show ?thesis by (simp only: power_add[symmetric]) simp
qed

lemma scaled_mag_finite:
  assumes "b < inf_mag"
  shows "scaled_mag b < 2 ^ 2098"
proof -
  define e m where "e = b div 2 ^ 52" and "m = b mod 2 ^ 52"
  have m: "m < 2 ^ 52" by (simp add: m_def)
  have e: "e < 2047" using assms unfolding e_def inf_mag_def by (intro less_mult_imp_div_less) simp
  have s: "scaled_mag b = (if e = 0 then m else (2 ^ 52 + m) * 2 ^ (e - 1))"
    by (simp add: scaled_mag_def Let_def e_def m_def)
  have "scaled_mag b \<le> (2 ^ 52 + m) * 2 ^ (e - 1)" unfolding s by simp
  also have "\<dots> < 2 ^ 53 * 2 ^ (e - 1)" using m by simp
  also have "\<dots> \<le> 2 ^ 53 * 2 ^ 2045" using e by (intro mult_le_mono2 power_increasing) simp_all
  also have "\<dots> = 2 ^ 2098" by (simp only: power_add[symmetric]) simp
  finally show ?thesis .
qed

lemma num_scaled_finite: "isFinite w \<Longrightarrow> - (2 ^ 2098) < num_scaled w \<and> num_scaled w < 2 ^ 2098"
proof -
  assume "isFinite w"
  then have "int (scaled_mag (num_mag w)) < int (2 ^ 2098)"
    using scaled_mag_finite[of "num_mag w"] by (simp only: isFinite_def of_nat_less_iff)
  then have "int (scaled_mag (num_mag w)) < 2 ^ 2098" by (simp only: of_nat_power of_nat_numeral)
  then show ?thesis unfolding num_scaled_def by (smt (verit) of_nat_0_le_iff)
qed

lemma num_scaled_inf:
  "\<not> isFinite w \<Longrightarrow> \<not> isNaN w \<Longrightarrow> num_scaled w = (if num_neg w then - (2 ^ 2098) else 2 ^ 2098)"
proof -
  assume "\<not> isFinite w" "\<not> isNaN w"
  then have "num_mag w = inf_mag" by (simp add: isFinite_def isNaN_def)
  then have "int (scaled_mag (num_mag w)) = 2 ^ 2098" by (simp only: scaled_mag_inf of_nat_power of_nat_numeral)
  then show ?thesis unfolding num_scaled_def by (simp only:)
qed

end
