(* ===== verification/Frame.thy ===== *)
theory Frame
  imports Binary_IO Js_Number
begin

text \<open>
  \<open>packages/protocol/src/constants.ts\<close>, \<open>frame.ts\<close> and \<open>request-id.ts\<close>: the 16-byte header in
  front of every payload, and the generator of request identifiers. The fields of a frame to
  be sent are numbers of the caller and are validated at run time; a payload is a byte array by
  its type, so the \<open>instanceof\<close> test of \<open>validatePayload\<close> never fails here.
\<close>

definition PROTOCOL_MAGIC :: bytes where
  "PROTOCOL_MAGIC = [0x53, 0x4e, 0x54, 0x52]"

definition PROTOCOL_VERSION :: nat where "PROTOCOL_VERSION = 1"
definition FRAME_HEADER_SIZE :: nat where "FRAME_HEADER_SIZE = 16"
definition MIN_REQUEST_ID :: nat where "MIN_REQUEST_ID = 1"
definition MAX_REQUEST_ID :: nat where "MAX_REQUEST_ID = 0xffffffff"

datatype message_kind =
  KHandshake | KPing | KCommand | KResult | KStreamItem | KStreamEnd | KError

primrec kind_code :: "message_kind \<Rightarrow> nat" where
  "kind_code KHandshake = 0x01"
| "kind_code KPing = 0x02"
| "kind_code KCommand = 0x03"
| "kind_code KResult = 0x04"
| "kind_code KStreamItem = 0x05"
| "kind_code KStreamEnd = 0x06"
| "kind_code KError = 0x07"

definition message_kinds :: "message_kind list" where
  "message_kinds = [KHandshake, KPing, KCommand, KResult, KStreamItem, KStreamEnd, KError]"

definition FlagNone :: int where "FlagNone = 0"
definition FlagMore :: int where "FlagMore = 1"
definition SUPPORTED_FRAME_FLAGS :: int where "SUPPORTED_FRAME_FLAGS = FlagMore"

definition OffsetMagic :: nat where "OffsetMagic = 0"
definition OffsetVersion :: nat where "OffsetVersion = 4"
definition OffsetKind :: nat where "OffsetKind = 6"
definition OffsetFlags :: nat where "OffsetFlags = 7"
definition OffsetRequestId :: nat where "OffsetRequestId = 8"
definition OffsetPayloadLength :: nat where "OffsetPayloadLength = 12"

lemmas frame_offsets = OffsetMagic_def OffsetVersion_def OffsetKind_def OffsetFlags_def
  OffsetRequestId_def OffsetPayloadLength_def FRAME_HEADER_SIZE_def

record frame_input =
  fi_kind :: js_number
  fi_requestId :: js_number
  fi_payload :: bytes
  fi_flags :: "js_number option"

record frame_header =
  fh_version :: nat
  fh_kind :: message_kind
  fh_flags :: nat
  fh_requestId :: nat
  fh_payloadLength :: nat

record frame =
  fr_version :: nat
  fr_kind :: message_kind
  fr_flags :: nat
  fr_requestId :: nat
  fr_payload :: bytes

section \<open>Validation\<close>

definition message_kind_of :: "js_number \<Rightarrow> message_kind option" where
  "message_kind_of v = find (\<lambda>k. v = num_of_int (int (kind_code k))) message_kinds"

definition validateMessageKind :: "js_number \<Rightarrow> protocol_error + message_kind" where
  "validateMessageKind v =
     (case message_kind_of v of None \<Rightarrow> Inl InvalidMessageKind | Some k \<Rightarrow> Inr k)"

definition validateFlags :: "js_number \<Rightarrow> protocol_error + unit" where
  "validateFlags flags =
     (let validByte = isInteger flags \<and> 0 \<le> num_int flags \<and> num_int flags \<le> 0xff in
      if \<not> validByte \<or> and (num_int flags) (not SUPPORTED_FRAME_FLAGS) \<noteq> 0
      then Inl InvalidFlags else Inr ())"

definition validateRequestId :: "js_number \<Rightarrow> protocol_error + unit" where
  "validateRequestId v =
     (if \<not> isInteger v \<or> num_int v < 0 \<or> int MAX_REQUEST_ID < num_int v
      then Inl InvalidRequestId else Inr ())"

definition validatePayload :: "bytes \<Rightarrow> protocol_error + unit" where
  "validatePayload payload =
     (if MAX_PAYLOAD_SIZE < length payload then Inl PayloadTooLarge else Inr ())"

definition validateMagic :: "bytes \<Rightarrow> protocol_error + unit" where
  "validateMagic data =
     (if list_all (\<lambda>i. OffsetMagic + i < length data \<and> data ! (OffsetMagic + i) = PROTOCOL_MAGIC ! i)
           [0..<length PROTOCOL_MAGIC]
      then Inr () else Inl InvalidMagic)"

section \<open>Frames\<close>

definition encodeFrame :: "frame_input \<Rightarrow> protocol_error + bytes" where
  "encodeFrame input =
     bindR (validateMessageKind (fi_kind input)) (\<lambda>_.
     bindR (validateRequestId (fi_requestId input)) (\<lambda>_.
     bindR (validateFlags (case fi_flags input of None \<Rightarrow> num_of_int FlagNone | Some f \<Rightarrow> f)) (\<lambda>_.
     bindR (validatePayload (fi_payload input)) (\<lambda>_.
       let flags = (case fi_flags input of None \<Rightarrow> num_of_int FlagNone | Some f \<Rightarrow> f);
           frame = replicate (FRAME_HEADER_SIZE + length (fi_payload input)) 0;
           frame = buffer_set frame OffsetMagic PROTOCOL_MAGIC;
           frame = buffer_set frame OffsetVersion (be_bytes 2 PROTOCOL_VERSION);
           frame = buffer_set frame OffsetKind (byte1 (nat (num_int (fi_kind input))));
           frame = buffer_set frame OffsetFlags (byte1 (nat (num_int flags)));
           frame = buffer_set frame OffsetRequestId (be_bytes 4 (nat (num_int (fi_requestId input))));
           frame = buffer_set frame OffsetPayloadLength (be_bytes 4 (length (fi_payload input)));
           frame = buffer_set frame FRAME_HEADER_SIZE (fi_payload input)
       in Inr frame))))"

definition get_uint :: "bytes \<Rightarrow> nat \<Rightarrow> nat \<Rightarrow> nat" where
  "get_uint data offset n = be_nat (take n (drop offset data))"

definition readFrameHeader :: "bytes \<Rightarrow> protocol_error + frame_header" where
  "readFrameHeader data =
     (if length data < FRAME_HEADER_SIZE then Inl IncompleteFrame
      else bindR (validateMagic data) (\<lambda>_.
        let version = get_uint data OffsetVersion 2;
            kind = get_uint data OffsetKind 1;
            flags = get_uint data OffsetFlags 1;
            requestId = get_uint data OffsetRequestId 4;
            payloadLength = get_uint data OffsetPayloadLength 4
        in if version \<noteq> PROTOCOL_VERSION then Inl UnsupportedVersion
           else bindR (validateMessageKind (num_of_int (int kind))) (\<lambda>k.
                bindR (validateFlags (num_of_int (int flags))) (\<lambda>_.
                  if MAX_PAYLOAD_SIZE < payloadLength then Inl PayloadTooLarge
                  else Inr \<lparr>fh_version = version, fh_kind = k, fh_flags = flags,
                            fh_requestId = requestId, fh_payloadLength = payloadLength\<rparr>))))"

definition decodeFrame :: "bytes \<Rightarrow> protocol_error + frame" where
  "decodeFrame data =
     bindR (readFrameHeader data) (\<lambda>header.
       let expectedLength = FRAME_HEADER_SIZE + fh_payloadLength header in
       if length data < expectedLength then Inl IncompleteFrame
       else if expectedLength < length data then Inl PayloadLengthMismatch
       else Inr \<lparr>fr_version = fh_version header, fr_kind = fh_kind header,
                 fr_flags = fh_flags header, fr_requestId = fh_requestId header,
                 fr_payload = drop FRAME_HEADER_SIZE data\<rparr>)"

definition getFrameLength :: "bytes \<Rightarrow> protocol_error + nat" where
  "getFrameLength data =
     bindR (readFrameHeader data) (\<lambda>header. Inr (FRAME_HEADER_SIZE + fh_payloadLength header))"

section \<open>Request identifiers\<close>

record request_id_generator =
  rg_current :: nat

definition new_generator :: "js_number \<Rightarrow> protocol_error + request_id_generator" where
  "new_generator v =
     (if \<not> isInteger v \<or> num_int v < int MIN_REQUEST_ID \<or> int MAX_REQUEST_ID < num_int v
      then Inl InvalidRequestId else Inr \<lparr>rg_current = nat (num_int v)\<rparr>)"

definition next_id :: "request_id_generator \<Rightarrow> nat \<times> request_id_generator" where
  "next_id g =
     (let requestId = rg_current g in
      (requestId, g\<lparr>rg_current := (if requestId = MAX_REQUEST_ID then MIN_REQUEST_ID else requestId + 1)\<rparr>))"

definition generator_inv :: "request_id_generator \<Rightarrow> bool" where
  "generator_inv g \<longleftrightarrow> MIN_REQUEST_ID \<le> rg_current g \<and> rg_current g \<le> MAX_REQUEST_ID"

primrec next_ids :: "nat \<Rightarrow> request_id_generator \<Rightarrow> nat list" where
  "next_ids 0 g = []"
| "next_ids (Suc n) g = (let (i, g') = next_id g in i # next_ids n g')"

section \<open>The layout of a frame\<close>

definition header_bytes :: "message_kind \<Rightarrow> nat \<Rightarrow> nat \<Rightarrow> nat \<Rightarrow> bytes" where
  "header_bytes k flags requestId len =
     PROTOCOL_MAGIC @ be_bytes 2 PROTOCOL_VERSION @ byte1 (kind_code k) @ byte1 flags @
     be_bytes 4 requestId @ be_bytes 4 len"

lemma length_header_bytes [simp]: "length (header_bytes k f r n) = FRAME_HEADER_SIZE"
  by (simp add: header_bytes_def PROTOCOL_MAGIC_def FRAME_HEADER_SIZE_def)

lemma num_int_small:
  assumes "n < 2 ^ 53"
  shows "num_int (num_of_int (int n)) = int n" and "isInteger (num_of_int (int n))"
proof -
  have "\<bar>int n\<bar> < 2 ^ 53" using assms by (metis abs_of_nat of_nat_less_iff of_nat_numeral of_nat_power)
  then show "num_int (num_of_int (int n)) = int n" "isInteger (num_of_int (int n))"
    by (simp_all add: num_of_int_exact)
qed

lemma num_of_int_small_inj: "m < 2 ^ 53 \<Longrightarrow> n < 2 ^ 53 \<Longrightarrow> num_of_int (int m) = num_of_int (int n) \<longleftrightarrow> m = n"
  by (metis num_int_small(1) of_nat_eq_iff)

lemma kind_code_bounds: "kind_code k < 8"
  by (cases k) simp_all

lemma kind_code_inj [simp]: "kind_code a = kind_code b \<longleftrightarrow> a = b"
  by (cases a; cases b) simp_all

lemma message_kinds_complete [simp]: "k \<in> set message_kinds"
  by (cases k) (simp_all add: message_kinds_def)

lemma validateMessageKind_eq: "validateMessageKind v = Inr k \<longleftrightarrow> v = num_of_int (int (kind_code k))"
proof -
  have "message_kind_of v = Some k \<longleftrightarrow> v = num_of_int (int (kind_code k))"
  proof
    assume "message_kind_of v = Some k"
    then show "v = num_of_int (int (kind_code k))" by (auto simp: message_kind_of_def find_Some_iff)
  next
    assume v: "v = num_of_int (int (kind_code k))"
    have "kind_code a < 2 ^ 53" for a using kind_code_bounds[of a] by simp
    then have "(\<lambda>a. v = num_of_int (int (kind_code a))) = (\<lambda>a. a = k)"
      using num_of_int_small_inj v by (auto simp: fun_eq_iff)
    then show "message_kind_of v = Some k"
      by (cases k) (simp_all add: message_kind_of_def message_kinds_def)
  qed
  then show ?thesis by (auto simp: validateMessageKind_def split: option.splits)
qed

lemma validateMessageKind_byte:
  "n < 256 \<Longrightarrow> validateMessageKind (num_of_int (int n)) = Inr k \<longleftrightarrow> n = kind_code k"
  using num_of_int_small_inj[of n "kind_code k"] kind_code_bounds[of k] by (simp add: validateMessageKind_eq)

lemma supported_flags: "and i (not SUPPORTED_FRAME_FLAGS) = 0 \<longleftrightarrow> i \<in> {0, 1}"
proof
  assume "and i (not SUPPORTED_FRAME_FLAGS) = 0"
  then have "and i (not 1) = 0" by (simp add: SUPPORTED_FRAME_FLAGS_def FlagMore_def)
  moreover have "i = or (and i 1) (and i (not 1))"
    by (simp flip: bit.conj_disj_distrib)
  ultimately have "i = i mod 2" by (simp add: and_one_eq)
  then show "i \<in> {0, 1}" by (metis insertCI mod2_eq_if)
next
  assume "i \<in> {0, 1}"
  then show "and i (not SUPPORTED_FRAME_FLAGS) = 0" by (auto simp: SUPPORTED_FRAME_FLAGS_def FlagMore_def)
qed

lemma validateFlags_eq: "validateFlags v = Inr u \<longleftrightarrow> isInteger v \<and> num_int v \<in> {0, 1}"
  by (auto simp: validateFlags_def Let_def supported_flags)

lemma validateFlags_byte: "n < 256 \<Longrightarrow> validateFlags (num_of_int (int n)) = Inr u \<longleftrightarrow> n \<le> 1"
  using num_int_small[of n] by (auto simp: validateFlags_eq)

lemma validateRequestId_eq:
  "validateRequestId v = Inr u \<longleftrightarrow> isInteger v \<and> 0 \<le> num_int v \<and> num_int v \<le> int MAX_REQUEST_ID"
  by (auto simp: validateRequestId_def)

lemma length_PROTOCOL_MAGIC: "length PROTOCOL_MAGIC = 4"
  by (simp add: PROTOCOL_MAGIC_def)

lemma validateMagic_eq: "4 \<le> length data \<Longrightarrow> validateMagic data = Inr u \<longleftrightarrow> take 4 data = PROTOCOL_MAGIC"
proof -
  assume len: "4 \<le> length data"
  have "take 4 data = PROTOCOL_MAGIC \<longleftrightarrow> (\<forall>i < 4. data ! i = PROTOCOL_MAGIC ! i)"
    using len by (auto simp: list_eq_iff_nth_eq length_PROTOCOL_MAGIC)
  also have "\<dots> \<longleftrightarrow> list_all (\<lambda>i. i < length data \<and> data ! i = PROTOCOL_MAGIC ! i) [0..<length PROTOCOL_MAGIC]"
    using len by (auto simp: list_all_iff length_PROTOCOL_MAGIC)
  finally show ?thesis by (simp add: validateMagic_def OffsetMagic_def)
qed

text \<open>What \<open>encodeFrame\<close> accepts, and the bytes it builds in place.\<close>

definition flags_of :: "frame_input \<Rightarrow> js_number" where
  "flags_of input = (case fi_flags input of None \<Rightarrow> num_of_int FlagNone | Some f \<Rightarrow> f)"

definition frame_ok :: "frame_input \<Rightarrow> message_kind \<Rightarrow> bool" where
  "frame_ok input k \<longleftrightarrow> fi_kind input = num_of_int (int (kind_code k)) \<and>
     isInteger (fi_requestId input) \<and> 0 \<le> num_int (fi_requestId input) \<and>
     num_int (fi_requestId input) \<le> int MAX_REQUEST_ID \<and>
     isInteger (flags_of input) \<and> num_int (flags_of input) \<in> {0, 1} \<and>
     length (fi_payload input) \<le> MAX_PAYLOAD_SIZE"

lemma buffer_set_replicate:
  assumes "length xs = n" and "length bs = m"
  shows "buffer_set (xs @ replicate (m + k) 0) n bs = (xs @ bs) @ replicate k 0"
  using assms by (simp add: buffer_set_def)

lemma frame_layout:
  assumes "length a = 4" "length b = 2" "length c = 1" "length d = 1" "length e = 4" "length f = 4"
  shows "buffer_set (buffer_set (buffer_set (buffer_set (buffer_set (buffer_set (buffer_set
     (replicate (16 + length p) 0) 0 a) 4 b) 6 c) 7 d) 8 e) 12 f) 16 p = a @ b @ c @ d @ e @ f @ p"
proof -
  note r = buffer_set_replicate
  have "buffer_set (replicate (16 + length p) 0) 0 a = a @ replicate (12 + length p) 0"
    using r[of "[]" 0 a 4 "12 + length p"] assms by simp
  moreover have "buffer_set (a @ replicate (12 + length p) 0) 4 b = (a @ b) @ replicate (10 + length p) 0"
    using r[of a 4 b 2 "10 + length p"] assms by simp
  moreover have "buffer_set ((a @ b) @ replicate (10 + length p) 0) 6 c = (a @ b @ c) @ replicate (9 + length p) 0"
    using r[of "a @ b" 6 c 1 "9 + length p"] assms by simp
  moreover have "buffer_set ((a @ b @ c) @ replicate (9 + length p) 0) 7 d =
      (a @ b @ c @ d) @ replicate (8 + length p) 0"
    using r[of "a @ b @ c" 7 d 1 "8 + length p"] assms by simp
  moreover have "buffer_set ((a @ b @ c @ d) @ replicate (8 + length p) 0) 8 e =
      (a @ b @ c @ d @ e) @ replicate (4 + length p) 0"
    using r[of "a @ b @ c @ d" 8 e 4 "4 + length p"] assms by simp
  moreover have "buffer_set ((a @ b @ c @ d @ e) @ replicate (4 + length p) 0) 12 f =
      (a @ b @ c @ d @ e @ f) @ replicate (length p) 0"
    using r[of "a @ b @ c @ d @ e" 12 f 4 "length p"] assms by simp
  moreover have "buffer_set ((a @ b @ c @ d @ e @ f) @ replicate (length p) 0) 16 p = a @ b @ c @ d @ e @ f @ p"
    using r[of "a @ b @ c @ d @ e @ f" 16 p "length p" 0] assms by simp
  ultimately show ?thesis by (simp only:)
qed

lemma encodeFrame_eq:
  "encodeFrame input = Inr bs \<longleftrightarrow>
     (\<exists>k. frame_ok input k \<and>
        bs = header_bytes k (nat (num_int (flags_of input))) (nat (num_int (fi_requestId input)))
               (length (fi_payload input)) @ fi_payload input)"
proof -
  have lay: "buffer_set (buffer_set (buffer_set (buffer_set (buffer_set (buffer_set (buffer_set
     (replicate (16 + length p) 0) 0 PROTOCOL_MAGIC) 4 (be_bytes 2 v)) 6 (byte1 c)) 7 (byte1 d)) 8 (be_bytes 4 e))
       12 (be_bytes 4 f)) 16 p = PROTOCOL_MAGIC @ be_bytes 2 v @ byte1 c @ byte1 d @ be_bytes 4 e @ be_bytes 4 f @ p"
    for p v c d e f by (rule frame_layout) (simp_all add: PROTOCOL_MAGIC_def)
  have code: "num_int (num_of_int (int (kind_code k))) = int (kind_code k)" for k
    using num_int_small(1)[of "kind_code k"] kind_code_bounds[of k] by simp
  show ?thesis
    unfolding encodeFrame_def flags_of_def[symmetric] bindR_eq_Inr validateMessageKind_eq validateRequestId_eq
      validateFlags_eq validatePayload_def frame_ok_def header_bytes_def Let_def frame_offsets lay
    by (auto simp: code)
qed

section \<open>Reading what was written\<close>

definition header_ok :: "frame_header \<Rightarrow> bool" where
  "header_ok h \<longleftrightarrow> fh_version h = PROTOCOL_VERSION \<and> fh_flags h \<le> 1 \<and> fh_requestId h \<le> MAX_REQUEST_ID \<and>
     fh_payloadLength h \<le> MAX_PAYLOAD_SIZE"

lemma split6:
  assumes "16 \<le> length xs"
  shows "take 16 xs = take 4 xs @ take 2 (drop 4 xs) @ take 1 (drop 6 xs) @ take 1 (drop 7 xs) @
    take 4 (drop 8 xs) @ take 4 (drop 12 xs)"
proof -
  have "take 16 xs = take (4 + (2 + (1 + (1 + (4 + 4))))) xs" by simp
  also have "\<dots> = take 4 xs @ take 2 (drop 4 xs) @ take 1 (drop 6 xs) @ take 1 (drop 7 xs) @
    take 4 (drop 8 xs) @ take 4 (drop 12 xs)"
    by (simp only: take_add drop_drop) simp
  finally show ?thesis .
qed

lemma bytes_of_be_nat: "length bs = n \<Longrightarrow> v < 256 ^ n \<Longrightarrow> be_nat bs = v \<longleftrightarrow> bs = be_bytes n v"
  by (metis be_bytes_be_nat be_nat_be_bytes)

lemma byte1_be_bytes: "byte1 v = be_bytes 1 v"
  by (simp add: byte1_def be_bytes.simps)

lemma append6_eq:
  assumes "length a1 = length b1" "length a2 = length b2" "length a3 = length b3" "length a4 = length b4"
    "length a5 = length b5"
  shows "a1 @ a2 @ a3 @ a4 @ a5 @ a6 = b1 @ b2 @ b3 @ b4 @ b5 @ b6 \<longleftrightarrow>
    a1 = b1 \<and> a2 = b2 \<and> a3 = b3 \<and> a4 = b4 \<and> a5 = b5 \<and> a6 = b6"
  using assms by simp

lemma header_bytes_eq:
  assumes "16 \<le> length data" "f \<le> 1" "r \<le> MAX_REQUEST_ID" "n \<le> MAX_PAYLOAD_SIZE"
  shows "take 16 data = header_bytes k f r n \<longleftrightarrow>
    take 4 data = PROTOCOL_MAGIC \<and> get_uint data OffsetVersion 2 = PROTOCOL_VERSION \<and>
    get_uint data OffsetKind 1 = kind_code k \<and> get_uint data OffsetFlags 1 = f \<and>
    get_uint data OffsetRequestId 4 = r \<and> get_uint data OffsetPayloadLength 4 = n"
proof -
  have len: "length (take 4 data) = 4" "length (take 2 (drop 4 data)) = 2" "length (take 1 (drop 6 data)) = 1"
    "length (take 1 (drop 7 data)) = 1" "length (take 4 (drop 8 data)) = 4" "length (take 4 (drop 12 data)) = 4"
    using assms(1) by auto
  have "take 16 data = header_bytes k f r n \<longleftrightarrow>
    take 4 data = PROTOCOL_MAGIC \<and> take 2 (drop 4 data) = be_bytes 2 PROTOCOL_VERSION \<and>
    take 1 (drop 6 data) = be_bytes 1 (kind_code k) \<and> take 1 (drop 7 data) = be_bytes 1 f \<and>
    take 4 (drop 8 data) = be_bytes 4 r \<and> take 4 (drop 12 data) = be_bytes 4 n"
    unfolding split6[OF assms(1)] header_bytes_def byte1_be_bytes
    by (rule append6_eq) (simp_all only: len length_PROTOCOL_MAGIC length_be_bytes)
  moreover have "get_uint data OffsetVersion 2 = PROTOCOL_VERSION \<longleftrightarrow> take 2 (drop 4 data) = be_bytes 2 PROTOCOL_VERSION"
    unfolding get_uint_def OffsetVersion_def by (rule bytes_of_be_nat[OF len(2)]) (simp add: PROTOCOL_VERSION_def)
  moreover have "get_uint data OffsetKind 1 = kind_code k \<longleftrightarrow> take 1 (drop 6 data) = be_bytes 1 (kind_code k)"
    unfolding get_uint_def OffsetKind_def
    by (rule bytes_of_be_nat[OF len(3)]) (use kind_code_bounds[of k] in simp)
  moreover have "get_uint data OffsetFlags 1 = f \<longleftrightarrow> take 1 (drop 7 data) = be_bytes 1 f"
    unfolding get_uint_def OffsetFlags_def by (rule bytes_of_be_nat[OF len(4)]) (use assms(2) in simp)
  moreover have "get_uint data OffsetRequestId 4 = r \<longleftrightarrow> take 4 (drop 8 data) = be_bytes 4 r"
    unfolding get_uint_def OffsetRequestId_def
    by (rule bytes_of_be_nat[OF len(5)]) (use assms(3) in \<open>simp add: MAX_REQUEST_ID_def\<close>)
  moreover have "get_uint data OffsetPayloadLength 4 = n \<longleftrightarrow> take 4 (drop 12 data) = be_bytes 4 n"
    unfolding get_uint_def OffsetPayloadLength_def
    by (rule bytes_of_be_nat[OF len(6)]) (use assms(4) in \<open>simp add: MAX_PAYLOAD_SIZE_def\<close>)
  ultimately show ?thesis by (simp only:)
qed

lemma get_uint_less: "get_uint data p n < 256 ^ n"
proof -
  have "be_nat (take n (drop p data)) < 256 ^ length (take n (drop p data))" by (rule be_nat_less)
  also have "\<dots> \<le> 256 ^ n" by (intro power_increasing) simp_all
  finally show ?thesis by (simp add: get_uint_def)
qed

lemma readFrameHeader_eq:
  "readFrameHeader data = Inr h \<longleftrightarrow> 16 \<le> length data \<and> header_ok h \<and>
     take 16 data = header_bytes (fh_kind h) (fh_flags h) (fh_requestId h) (fh_payloadLength h)"
proof (cases "16 \<le> length data")
  case True
  have small: "get_uint data OffsetKind 1 < 256" "get_uint data OffsetFlags 1 < 256"
      "get_uint data OffsetRequestId 4 \<le> MAX_REQUEST_ID"
    using get_uint_less[of data OffsetKind 1] get_uint_less[of data OffsetFlags 1]
      get_uint_less[of data OffsetRequestId 4] by (simp_all add: MAX_REQUEST_ID_def)
  have "readFrameHeader data = Inr h \<longleftrightarrow> take 4 data = PROTOCOL_MAGIC \<and>
      get_uint data OffsetVersion 2 = PROTOCOL_VERSION \<and> get_uint data OffsetKind 1 = kind_code (fh_kind h) \<and>
      get_uint data OffsetFlags 1 \<le> 1 \<and> get_uint data OffsetPayloadLength 4 \<le> MAX_PAYLOAD_SIZE \<and>
      h = \<lparr>fh_version = PROTOCOL_VERSION, fh_kind = fh_kind h, fh_flags = get_uint data OffsetFlags 1,
           fh_requestId = get_uint data OffsetRequestId 4, fh_payloadLength = get_uint data OffsetPayloadLength 4\<rparr>"
    using True validateMagic_eq[of data] validateMessageKind_byte[OF small(1)] validateFlags_byte[OF small(2)]
    by (cases h) (auto simp: readFrameHeader_def Let_def FRAME_HEADER_SIZE_def)
  also have "\<dots> \<longleftrightarrow> header_ok h \<and>
      take 16 data = header_bytes (fh_kind h) (fh_flags h) (fh_requestId h) (fh_payloadLength h)"
    using small(3) header_bytes_eq[OF True, of "fh_flags h" "fh_requestId h" "fh_payloadLength h" "fh_kind h"]
    by (cases h) (auto simp: header_ok_def)
  finally show ?thesis using True by simp
qed (simp add: readFrameHeader_def FRAME_HEADER_SIZE_def)

lemma readFrameHeader_append:
  assumes "16 \<le> length a"
  shows "readFrameHeader (a @ b) = readFrameHeader a"
proof -
  have "validateMagic (a @ b) = validateMagic a"
    using assms unfolding validateMagic_def
    by (intro if_cong list_all_cong) (auto simp: OffsetMagic_def length_PROTOCOL_MAGIC nth_append)
  with assms show ?thesis by (simp add: readFrameHeader_def get_uint_def frame_offsets)
qed

definition frame_bytes :: "frame \<Rightarrow> bytes" where
  "frame_bytes fr = header_bytes (fr_kind fr) (fr_flags fr) (fr_requestId fr) (length (fr_payload fr)) @ fr_payload fr"

definition wf_frame :: "frame \<Rightarrow> bool" where
  "wf_frame fr \<longleftrightarrow> fr_version fr = PROTOCOL_VERSION \<and> fr_flags fr \<le> 1 \<and> fr_requestId fr \<le> MAX_REQUEST_ID \<and>
     length (fr_payload fr) \<le> MAX_PAYLOAD_SIZE"

lemma decodeFrame_eq: "decodeFrame data = Inr fr \<longleftrightarrow> wf_frame fr \<and> data = frame_bytes fr"
proof
  assume "decodeFrame data = Inr fr"
  then obtain h where h: "readFrameHeader data = Inr h" "length data = 16 + fh_payloadLength h"
    "fr = \<lparr>fr_version = fh_version h, fr_kind = fh_kind h, fr_flags = fh_flags h,
           fr_requestId = fh_requestId h, fr_payload = drop 16 data\<rparr>"
    by (auto simp: decodeFrame_def Let_def FRAME_HEADER_SIZE_def split: if_splits)
  from h(1,2) have t: "header_ok h"
    "take 16 data = header_bytes (fh_kind h) (fh_flags h) (fh_requestId h) (length (drop 16 data))"
    by (simp_all add: readFrameHeader_eq)
  then show "wf_frame fr \<and> data = frame_bytes fr"
    using h(2,3) append_take_drop_id[of 16 data] by (simp add: wf_frame_def header_ok_def frame_bytes_def)
next
  assume a: "wf_frame fr \<and> data = frame_bytes fr"
  define h where "h = \<lparr>fh_version = fr_version fr, fh_kind = fr_kind fr, fh_flags = fr_flags fr,
    fh_requestId = fr_requestId fr, fh_payloadLength = length (fr_payload fr)\<rparr>"
  have l: "length (header_bytes k f r n) = 16" for k f r n by (simp add: FRAME_HEADER_SIZE_def)
  have "readFrameHeader data = Inr h"
    using a l by (simp add: readFrameHeader_eq h_def frame_bytes_def wf_frame_def header_ok_def FRAME_HEADER_SIZE_def)
  then show "decodeFrame data = Inr fr"
    using a by (simp add: decodeFrame_def h_def Let_def frame_bytes_def FRAME_HEADER_SIZE_def)
qed

lemma getFrameLength_append: "16 \<le> length a \<Longrightarrow> getFrameLength (a @ b) = getFrameLength a"
  by (simp add: getFrameLength_def readFrameHeader_append)

lemma getFrameLength_frame_bytes:
  assumes "wf_frame fr"
  shows "getFrameLength (frame_bytes fr @ rest) = Inr (length (frame_bytes fr))"
proof -
  have "decodeFrame (frame_bytes fr) = Inr fr" using assms by (simp add: decodeFrame_eq)
  then have "getFrameLength (frame_bytes fr) = Inr (length (frame_bytes fr))"
    by (auto simp: decodeFrame_def getFrameLength_def Let_def split: if_splits)
  moreover have "16 \<le> length (frame_bytes fr)" by (simp add: frame_bytes_def FRAME_HEADER_SIZE_def)
  ultimately show ?thesis by (simp add: getFrameLength_append)
qed

lemma getFrameLength_bounds:
  "getFrameLength data = Inr n \<Longrightarrow> 16 \<le> n \<and> n \<le> 16 + MAX_PAYLOAD_SIZE"
  by (auto simp: getFrameLength_def readFrameHeader_eq header_ok_def FRAME_HEADER_SIZE_def)

text \<open>\<open>encodeFrame\<close> builds a well-formed frame and \<open>decodeFrame\<close> reads it back.\<close>

definition frame_of_input :: "frame_input \<Rightarrow> message_kind \<Rightarrow> frame" where
  "frame_of_input input k = \<lparr>fr_version = PROTOCOL_VERSION, fr_kind = k, fr_flags = nat (num_int (flags_of input)),
     fr_requestId = nat (num_int (fi_requestId input)), fr_payload = fi_payload input\<rparr>"

lemma encodeFrame_frame_bytes:
  "encodeFrame input = Inr bs \<longleftrightarrow> (\<exists>k. frame_ok input k \<and> bs = frame_bytes (frame_of_input input k))"
  by (simp add: encodeFrame_eq frame_bytes_def frame_of_input_def)

lemma wf_frame_of_input: "frame_ok input k \<Longrightarrow> wf_frame (frame_of_input input k)"
  by (auto simp: wf_frame_def frame_of_input_def frame_ok_def)

lemma decodeFrame_encodeFrame:
  assumes "encodeFrame input = Inr bs"
  shows "\<exists>k. frame_ok input k \<and> decodeFrame bs = Inr (frame_of_input input k)"
  using assms by (auto simp: encodeFrame_frame_bytes decodeFrame_eq wf_frame_of_input)

section \<open>The request-id generator\<close>

lemma generator_inv_next: "generator_inv g \<Longrightarrow> generator_inv (snd (next_id g))"
  by (auto simp: generator_inv_def next_id_def Let_def MIN_REQUEST_ID_def MAX_REQUEST_ID_def)

text \<open>The ids handed out are consecutive modulo \<open>MAX_REQUEST_ID\<close>, never 0.\<close>

lemma next_ids_nth:
  "generator_inv g \<Longrightarrow> i < n \<Longrightarrow>
   next_ids n g ! i = (rg_current g - 1 + i) mod MAX_REQUEST_ID + 1"
proof (induction n arbitrary: g i)
  case (Suc n)
  show ?case
  proof (cases i)
    case 0
    have "1 \<le> rg_current g" "rg_current g - 1 < MAX_REQUEST_ID"
      using Suc.prems(1) by (auto simp: generator_inv_def MIN_REQUEST_ID_def MAX_REQUEST_ID_def)
    with 0 show ?thesis by (simp add: next_id_def Let_def)
  next
    case (Suc j)
    let ?c = "rg_current (snd (next_id g))"
    have c: "(?c - 1) mod MAX_REQUEST_ID = (rg_current g - 1 + 1) mod MAX_REQUEST_ID"
      using Suc.prems(1) by (auto simp: next_id_def Let_def generator_inv_def MIN_REQUEST_ID_def MAX_REQUEST_ID_def)
    have "next_ids (Suc n) g ! i = (?c - 1 + j) mod MAX_REQUEST_ID + 1"
      using Suc.IH[OF generator_inv_next[OF Suc.prems(1)], of j] Suc.prems(2) Suc
      by (simp add: case_prod_beta)
    also have "(?c - 1 + j) mod MAX_REQUEST_ID = (rg_current g - 1 + 1 + j) mod MAX_REQUEST_ID"
      using c by (metis mod_add_left_eq)
    finally show ?thesis using Suc by simp
  qed
qed simp

lemma length_next_ids [simp]: "length (next_ids n g) = n"
  by (induction n arbitrary: g) (simp_all add: case_prod_beta)

lemma next_ids_distinct:
  assumes "generator_inv g" and "n \<le> MAX_REQUEST_ID"
  shows "distinct (next_ids n g)" and "set (next_ids n g) \<subseteq> {MIN_REQUEST_ID..MAX_REQUEST_ID}"
proof -
  have le: "i = j" if "i \<le> j" "(c + i) mod m = (c + j) mod m" "j < m" for c i j m :: nat
  proof -
    have "m dvd j - i" using that mod_eq_dvd_iff_nat[of "c + i" "c + j" m] by simp
    then have "j - i = 0" using that(3) nat_dvd_not_less[of "j - i" m] by force
    with that(1) show ?thesis by simp
  qed
  have inj: "i = j" if "(c + i) mod m = (c + j) mod m" "i < m" "j < m" for c i j m :: nat
    using that le[of i j] le[of j i] by (metis nat_le_linear)
  show "distinct (next_ids n g)"
    unfolding distinct_conv_nth length_next_ids
  proof (intro allI impI)
    fix i j assume ij: "i < n" "j < n" "i \<noteq> j"
    then have "(rg_current g - 1 + i) mod MAX_REQUEST_ID \<noteq> (rg_current g - 1 + j) mod MAX_REQUEST_ID"
      using inj[of "rg_current g - 1" i MAX_REQUEST_ID j] assms(2) by fastforce
    then show "next_ids n g ! i \<noteq> next_ids n g ! j" using assms(1) ij by (simp add: next_ids_nth)
  qed
  show "set (next_ids n g) \<subseteq> {MIN_REQUEST_ID..MAX_REQUEST_ID}"
  proof
    fix x assume "x \<in> set (next_ids n g)"
    then obtain i where "x = (rg_current g - 1 + i) mod MAX_REQUEST_ID + 1"
      using assms(1) by (auto simp: in_set_conv_nth next_ids_nth)
    moreover have "0 < MAX_REQUEST_ID" by (simp add: MAX_REQUEST_ID_def)
    ultimately show "x \<in> {MIN_REQUEST_ID..MAX_REQUEST_ID}"
      using mod_less_divisor[of MAX_REQUEST_ID "rg_current g - 1 + i"] by (simp add: MIN_REQUEST_ID_def Suc_le_eq)
  qed
qed

section \<open>Properties\<close>


text \<open>C33: request ids are never 0, stay within 32 bits across the wrap-around, and \<open>2 ^ 32 - 1\<close>
  consecutive ones are pairwise different.\<close>

theorem request_ids_distinct:
  assumes "new_generator v = Inr g" and "n \<le> MAX_REQUEST_ID"
  shows "distinct (next_ids n g) \<and> set (next_ids n g) \<subseteq> {MIN_REQUEST_ID..MAX_REQUEST_ID}"
proof -
  have "generator_inv g" using assms(1)
    by (auto simp: new_generator_def generator_inv_def MIN_REQUEST_ID_def le_nat_iff nat_le_iff split: if_splits)
  then show ?thesis using next_ids_distinct assms(2) by blast
qed

theorem request_ids_distinct_witness:
  "distinct (next_ids 3 \<lparr>rg_current = MAX_REQUEST_ID\<rparr>) \<and> next_ids 3 \<lparr>rg_current = MAX_REQUEST_ID\<rparr> = [MAX_REQUEST_ID, 1, 2]"
proof -
  have i: "isInteger (num_of_int (int MAX_REQUEST_ID))" "num_int (num_of_int (int MAX_REQUEST_ID)) = int MAX_REQUEST_ID"
    using num_int_small[of MAX_REQUEST_ID] by (simp_all add: MAX_REQUEST_ID_def)
  have "new_generator (num_of_int (int MAX_REQUEST_ID)) = Inr \<lparr>rg_current = MAX_REQUEST_ID\<rparr>"
    unfolding new_generator_def i(2) using i(1) by (simp add: MIN_REQUEST_ID_def MAX_REQUEST_ID_def)
  from request_ids_distinct[OF this, of 3] show ?thesis
    by (simp add: numeral_3_eq_3 next_id_def MIN_REQUEST_ID_def MAX_REQUEST_ID_def)
qed

end
