(* ===== verification/Js_String.thy ===== *)
theory Js_String
  imports Sinter_Prelude
begin

text \<open>
  JavaScript strings: sequences of UTF-16 code units, with what the code uses of them.
  \<open>TextEncoder.encode\<close> is \<open>text_encode\<close>, \<open>new TextDecoder("utf-8", { fatal: true }).decode\<close>
  is \<open>text_decode\<close>: it refuses ill-formed input and, since \<open>ignoreBOM\<close> is left at its
  default, drops one leading byte order mark.
\<close>

type_synonym js_string = "16 word list"

definition js :: "string \<Rightarrow> js_string" where
  "js s = map of_char s"

definition is_high :: "16 word \<Rightarrow> bool" where
  "is_high u \<longleftrightarrow> 0xD800 \<le> u \<and> u \<le> 0xDBFF"

definition is_low :: "16 word \<Rightarrow> bool" where
  "is_low u \<longleftrightarrow> 0xDC00 \<le> u \<and> u \<le> 0xDFFF"

definition surrogate_pair :: "16 word \<Rightarrow> 16 word \<Rightarrow> nat" where
  "surrogate_pair u v = 0x10000 + (unat u - 0xD800) * 1024 + (unat v - 0xDC00)"

fun isWellFormed :: "js_string \<Rightarrow> bool" where
  "isWellFormed [] = True"
| "isWellFormed (u # us) =
     (if is_high u then (case us of [] \<Rightarrow> False | v # vs \<Rightarrow> is_low v \<and> isWellFormed vs)
      else \<not> is_low u \<and> isWellFormed us)"

text \<open>The Unicode scalar values of a string; a lone surrogate reads as U+FFFD.\<close>

fun scalar_values :: "js_string \<Rightarrow> nat list" where
  "scalar_values [] = []"
| "scalar_values (u # us) =
     (if is_high u then
        (case us of [] \<Rightarrow> [0xFFFD]
         | v # vs \<Rightarrow> if is_low v then surrogate_pair u v # scalar_values vs
                    else 0xFFFD # scalar_values us)
      else if is_low u then 0xFFFD # scalar_values us
      else unat u # scalar_values us)"

definition units_of :: "nat \<Rightarrow> js_string" where
  "units_of cp =
     (if cp < 0x10000 then [of_nat cp]
      else [of_nat (0xD800 + (cp - 0x10000) div 1024), of_nat (0xDC00 + (cp - 0x10000) mod 1024)])"

definition is_scalar :: "nat \<Rightarrow> bool" where
  "is_scalar cp \<longleftrightarrow> cp < 0xD800 \<or> (0xE000 \<le> cp \<and> cp < 0x110000)"

section \<open>UTF-8\<close>

definition utf8_bytes :: "nat \<Rightarrow> bytes" where
  "utf8_bytes cp =
     (if cp < 0x80 then [of_nat cp]
      else if cp < 0x800 then [of_nat (0xC0 + cp div 64), of_nat (0x80 + cp mod 64)]
      else if cp < 0x10000 then
        [of_nat (0xE0 + cp div 4096), of_nat (0x80 + cp div 64 mod 64), of_nat (0x80 + cp mod 64)]
      else
        [of_nat (0xF0 + cp div 262144), of_nat (0x80 + cp div 4096 mod 64),
         of_nat (0x80 + cp div 64 mod 64), of_nat (0x80 + cp mod 64)])"

definition is_cont :: "u8 \<Rightarrow> bool" where
  "is_cont b \<longleftrightarrow> unat b div 64 = 2"

definition cont_bits :: "u8 \<Rightarrow> nat" where
  "cont_bits b = unat b mod 64"

text \<open>
  A lead byte \<open>C2..DF\<close>, \<open>E0..EF\<close> or \<open>F0..F4\<close> takes one, two or three continuation bytes;
  overlong forms, surrogates and values past U+10FFFF are refused.
\<close>

fun utf8_decode :: "bytes \<Rightarrow> nat list option" where
  "utf8_decode [] = Some []"
| "utf8_decode (b # bs) =
     (let n = unat b in
      if n < 0x80 then map_option (Cons n) (utf8_decode bs)
      else if 0xC2 \<le> n \<and> n < 0xE0 then
        (case bs of
           c # rest \<Rightarrow> if is_cont c
             then map_option (Cons ((n - 0xC0) * 64 + cont_bits c)) (utf8_decode rest) else None
         | [] \<Rightarrow> None)
      else if 0xE0 \<le> n \<and> n < 0xF0 then
        (case bs of
           c # d # rest \<Rightarrow>
             (let cp = (n - 0xE0) * 4096 + cont_bits c * 64 + cont_bits d
              in if is_cont c \<and> is_cont d \<and> 0x800 \<le> cp \<and> is_scalar cp
                 then map_option (Cons cp) (utf8_decode rest) else None)
         | _ \<Rightarrow> None)
      else if 0xF0 \<le> n \<and> n < 0xF5 then
        (case bs of
           c # d # e # rest \<Rightarrow>
             (let cp = (n - 0xF0) * 262144 + cont_bits c * 4096 + cont_bits d * 64 + cont_bits e
              in if is_cont c \<and> is_cont d \<and> is_cont e \<and> 0x10000 \<le> cp \<and> is_scalar cp
                 then map_option (Cons cp) (utf8_decode rest) else None)
         | _ \<Rightarrow> None)
      else None)"

definition bom :: bytes where
  "bom = [0xEF, 0xBB, 0xBF]"

definition text_encode :: "js_string \<Rightarrow> bytes" where
  "text_encode s = concat (map utf8_bytes (scalar_values s))"

definition text_decode :: "bytes \<Rightarrow> js_string option" where
  "text_decode bs =
     map_option (\<lambda>cps. concat (map units_of cps))
       (utf8_decode (if take 3 bs = bom then drop 3 bs else bs))"

section \<open>Other string operations\<close>

fun list_less :: "'a::linorder list \<Rightarrow> 'a list \<Rightarrow> bool" where
  "list_less [] ys = (ys \<noteq> [])"
| "list_less (x # xs) [] = False"
| "list_less (x # xs) (y # ys) = (x < y \<or> (x = y \<and> list_less xs ys))"

fun split_on :: "'a \<Rightarrow> 'a list \<Rightarrow> 'a list list" where
  "split_on c [] = [[]]"
| "split_on c (x # xs) =
     (if x = c then [] # split_on c xs
      else (case split_on c xs of [] \<Rightarrow> [[x]] | y # ys \<Rightarrow> (x # y) # ys))"

definition split_path :: "js_string \<Rightarrow> js_string list" where
  "split_path path = split_on 0x2E path"

definition starts_dollar :: "js_string \<Rightarrow> bool" where
  "starts_dollar s \<longleftrightarrow> (case s of [] \<Rightarrow> False | c # _ \<Rightarrow> c = 0x24)"

fun starts_with :: "'a list \<Rightarrow> 'a list \<Rightarrow> bool" where
  "starts_with [] s = True"
| "starts_with (p # ps) [] = False"
| "starts_with (p # ps) (c # cs) = (p = c \<and> starts_with ps cs)"

section \<open>Lemmas\<close>

subsection \<open>UTF-16\<close>

lemma unat_u16_less [simp]: "unat (u :: 16 word) < 65536"
  using unsigned_less[of u, where ?'a = nat] by simp

lemma is_high_unat: "is_high u \<longleftrightarrow> 0xD800 \<le> unat u \<and> unat u < 0xDC00"
  by (auto simp: is_high_def word_le_nat_alt)

lemma is_low_unat: "is_low u \<longleftrightarrow> 0xDC00 \<le> unat u \<and> unat u < 0xE000"
  by (auto simp: is_low_def word_le_nat_alt)

lemma units_of_surrogate_pair:
  assumes "is_high u" and "is_low v"
  shows "units_of (surrogate_pair u v) = [u, v]"
proof -
  obtain a b where a: "unat u = 0xD800 + a" "a < 1024" and b: "unat v = 0xDC00 + b" "b < 1024"
    using assms le_Suc_ex[of "0xD800" "unat u"] le_Suc_ex[of "0xDC00" "unat v"]
    by (auto simp: is_high_unat is_low_unat)
  have "surrogate_pair u v = 0x10000 + (a * 1024 + b)" by (simp add: surrogate_pair_def a b)
  moreover have "(a * 1024 + b) div 1024 = a" "(a * 1024 + b) mod 1024 = b" using b by simp_all
  ultimately have "units_of (surrogate_pair u v) = [of_nat (0xD800 + a), of_nat (0xDC00 + b)]"
    by (simp add: units_of_def)
  also have "\<dots> = [u, v]" by (simp only: a(1)[symmetric] b(1)[symmetric]) simp
  finally show ?thesis .
qed

lemma is_scalar_surrogate_pair:
  "is_high u \<Longrightarrow> is_low v \<Longrightarrow> is_scalar (surrogate_pair u v) \<and> 0x10000 \<le> surrogate_pair u v"
  by (auto simp: is_high_unat is_low_unat is_scalar_def surrogate_pair_def)

lemma units_of_unit: "units_of (unat u) = [u]"
  by (simp add: units_of_def)

lemma concat_units_of:
  "isWellFormed s \<Longrightarrow> concat (map units_of (scalar_values s)) = s"
proof (induction s rule: isWellFormed.induct)
  case (2 u us)
  show ?case
  proof (cases "is_high u")
    case True
    with "2.prems" obtain v vs where us: "us = v # vs" "is_low v" "isWellFormed vs"
      by (auto split: list.splits)
    with True "2.IH"(1)[OF True us(1)] show ?thesis by (simp add: units_of_surrogate_pair)
  next
    case False
    with "2.prems" "2.IH"(2)[OF False] show ?thesis by (simp add: units_of_unit)
  qed
qed simp

lemma scalar_values_scalar: "cp \<in> set (scalar_values s) \<Longrightarrow> is_scalar cp"
proof (induction s rule: scalar_values.induct)
  case (2 u us)
  show ?case
  proof (cases "is_high u")
    case True
    show ?thesis
    proof (cases us)
      case Nil
      with True "2.prems" show ?thesis by (simp add: is_scalar_def)
    next
      case (Cons v vs)
      with True "2.prems" "2.IH"(1,2)[OF True Cons] show ?thesis
        using is_scalar_surrogate_pair[OF True, of v]
        by (auto split: if_splits simp: is_scalar_def[of "0xFFFD"])
    qed
  next
    case False
    have "is_scalar (unat u)" if "\<not> is_low u"
      using False that unat_u16_less[of u] unfolding is_scalar_def is_high_unat is_low_unat by linarith
    with False "2.prems" "2.IH"(3,4)[OF False] show ?thesis
      by (auto split: if_splits simp: is_scalar_def[of "0xFFFD"])
  qed
qed simp

subsection \<open>UTF-8\<close>

lemma unat_u8_of_nat: "n < 256 \<Longrightarrow> unat (of_nat n :: u8) = n"
  by (simp add: unat_of_nat)

lemma cont_byte:
  "m < 64 \<Longrightarrow> is_cont (of_nat (0x80 + m)) \<and> cont_bits (of_nat (0x80 + m)) = m"
proof -
  assume "m < 64"
  then have "unat (of_nat (0x80 + m) :: u8) = m + 2 * 64"
    by (subst unat_u8_of_nat) auto
  with \<open>m < 64\<close> show ?thesis
    by (simp only: is_cont_def cont_bits_def div_mult_self1 mod_mult_self1) simp
qed

lemma digits64:
  fixes cp :: nat
  shows "cp div 64 * 64 + cp mod 64 = cp"
    and "cp div 4096 * 4096 + cp div 64 mod 64 * 64 + cp mod 64 = cp"
    and "cp div 262144 * 262144 + cp div 4096 mod 64 * 4096 + cp div 64 mod 64 * 64 + cp mod 64 = cp"
proof -
  have d1: "cp div 4096 = cp div 64 div 64" and d2: "cp div 262144 = cp div 64 div 64 div 64"
    by (simp_all add: div_mult2_eq[symmetric])
  show "cp div 64 * 64 + cp mod 64 = cp" by simp
  show "cp div 4096 * 4096 + cp div 64 mod 64 * 64 + cp mod 64 = cp"
    unfolding d1 using div_mult_mod_eq[of cp 64] div_mult_mod_eq[of "cp div 64" 64] by linarith
  show "cp div 262144 * 262144 + cp div 4096 mod 64 * 4096 + cp div 64 mod 64 * 64 + cp mod 64 = cp"
    unfolding d1 d2 using div_mult_mod_eq[of cp 64] div_mult_mod_eq[of "cp div 64" 64]
      div_mult_mod_eq[of "cp div 64 div 64" 64] by linarith
qed

lemma utf8_decode_bytes:
  assumes "is_scalar cp"
  shows "utf8_decode (utf8_bytes cp @ rest) = map_option (Cons cp) (utf8_decode rest)"
proof -
  consider "cp < 0x80" | "0x80 \<le> cp" "cp < 0x800" | "0x800 \<le> cp" "cp < 0x10000"
    | "0x10000 \<le> cp" "cp < 0x110000"
    using assms by (fastforce simp: is_scalar_def)
  then show ?thesis
  proof cases
    case 1
    then show ?thesis by (simp add: utf8_bytes_def unat_u8_of_nat)
  next
    case 2
    define lead where "lead = 0xC0 + cp div 64"
    have l: "0xC2 \<le> lead" "lead < 0xE0" using 2 by (auto simp: lead_def)
    then have u: "unat (of_nat lead :: u8) = lead" by (intro unat_u8_of_nat) linarith
    have e: "utf8_bytes cp = [of_nat lead, of_nat (0x80 + cp mod 64)]"
      using 2 by (simp add: utf8_bytes_def lead_def)
    have "(lead - 0xC0) * 64 + cp mod 64 = cp" by (simp add: lead_def)
    with l u show ?thesis
      by (simp add: e Let_def cont_byte del: of_nat_add)
  next
    case 3
    define lead where "lead = 0xE0 + cp div 4096"
    have l: "0xE0 \<le> lead" "lead < 0xF0" using 3 by (auto simp: lead_def)
    then have u: "unat (of_nat lead :: u8) = lead" by (intro unat_u8_of_nat) linarith
    have e: "utf8_bytes cp = [of_nat lead, of_nat (0x80 + cp div 64 mod 64), of_nat (0x80 + cp mod 64)]"
      using 3 by (simp add: utf8_bytes_def lead_def)
    have "(lead - 0xE0) * 4096 + cp div 64 mod 64 * 64 + cp mod 64 = cp"
      using digits64(2)[of cp] by (simp add: lead_def)
    with l u 3 assms show ?thesis
      by (simp add: e Let_def cont_byte del: of_nat_add)
  next
    case 4
    define lead where "lead = 0xF0 + cp div 262144"
    have l: "0xF0 \<le> lead" "lead < 0xF5" using 4 by (auto simp: lead_def)
    then have u: "unat (of_nat lead :: u8) = lead" by (intro unat_u8_of_nat) linarith
    have e: "utf8_bytes cp = [of_nat lead, of_nat (0x80 + cp div 4096 mod 64),
        of_nat (0x80 + cp div 64 mod 64), of_nat (0x80 + cp mod 64)]"
      using 4 by (simp add: utf8_bytes_def lead_def)
    have "(lead - 0xF0) * 262144 + cp div 4096 mod 64 * 4096 + cp div 64 mod 64 * 64 + cp mod 64 = cp"
      using digits64(3)[of cp] by (simp add: lead_def)
    with l u 4 assms show ?thesis
      by (simp add: e Let_def cont_byte del: of_nat_add)
  qed
qed

lemma utf8_decode_concat:
  "(\<And>cp. cp \<in> set cps \<Longrightarrow> is_scalar cp) \<Longrightarrow> utf8_decode (concat (map utf8_bytes cps)) = Some cps"
  by (induction cps) (simp_all add: utf8_decode_bytes)

lemma utf8_decode_text_encode: "utf8_decode (text_encode s) = Some (scalar_values s)"
  unfolding text_encode_def by (rule utf8_decode_concat) (rule scalar_values_scalar)

lemma utf8_bytes_bom: "utf8_bytes 0xFEFF = bom"
  by (simp add: utf8_bytes_def bom_def)

lemma text_encode_starts_bom:
  assumes "take 3 (text_encode s) = bom" and "isWellFormed s"
  shows "\<exists>t. s = 0xFEFF # t"
proof -
  obtain rest where "text_encode s = utf8_bytes 0xFEFF @ rest"
    using assms(1) utf8_bytes_bom by (metis append_take_drop_id)
  then have "Some (scalar_values s) = map_option (Cons 0xFEFF) (utf8_decode rest)"
    using utf8_decode_text_encode[of s] utf8_decode_bytes[where cp = "0xFEFF" and rest = rest]
    by (simp only: is_scalar_def) auto
  then obtain cps where "scalar_values s = 0xFEFF # cps"
    by (cases "utf8_decode rest") auto
  then have "s = units_of 0xFEFF @ concat (map units_of cps)"
    using concat_units_of[OF assms(2)] by simp
  then show ?thesis by (simp add: units_of_def)
qed

lemma text_decode_encode:
  assumes "isWellFormed s" and "\<nexists>t. s = 0xFEFF # t"
  shows "text_decode (text_encode s) = Some s"
proof -
  have "take 3 (text_encode s) \<noteq> bom" using assms text_encode_starts_bom by blast
  then show ?thesis
    using concat_units_of[OF assms(1)] by (simp add: text_decode_def utf8_decode_text_encode)
qed

lemma text_decode_encode_bom:
  assumes "isWellFormed s"
  shows "text_decode (text_encode (0xFEFF # s)) = Some s"
proof -
  have hl: "\<not> is_high 0xFEFF" "\<not> is_low 0xFEFF" by (simp_all add: is_high_def is_low_def)
  have "text_encode (0xFEFF # s) = bom @ text_encode s"
    using hl utf8_bytes_bom by (simp add: text_encode_def)
  then show ?thesis
    using concat_units_of[OF assms]
    by (simp add: text_decode_def utf8_decode_text_encode bom_def)
qed

lemma text_encode_inj:
  assumes "isWellFormed s" and "isWellFormed t" and "text_encode s = text_encode t"
  shows "s = t"
proof -
  have "scalar_values s = scalar_values t"
    using assms(3) utf8_decode_text_encode by (metis option.inject)
  then show ?thesis using assms(1,2) concat_units_of by metis
qed

text \<open>What the decoder returns is well formed and encodes to no more bytes than were read.\<close>

lemma units_of_cases:
  assumes "is_scalar cp"
  obtains (bmp) u where "units_of cp = [u]" "\<not> is_high u" "\<not> is_low u" "unat u = cp"
  | (pair) u v where "units_of cp = [u, v]" "is_high u" "is_low v" "surrogate_pair u v = cp"
proof (cases "cp < 0x10000")
  case True
  then have "unat (of_nat cp :: 16 word) = cp" by (simp add: unat_of_nat)
  with True assms bmp[of "of_nat cp"] show ?thesis
    by (auto simp: units_of_def is_high_unat is_low_unat is_scalar_def)
next
  case False
  define a b where "a = (cp - 0x10000) div 1024" and "b = (cp - 0x10000) mod 1024"
  have ab: "a < 1024" "b < 1024" "cp = 0x10000 + a * 1024 + b"
    using False assms by (auto simp: a_def b_def is_scalar_def)
  have u: "unat (of_nat (0xD800 + a) :: 16 word) = 0xD800 + a"
    and v: "unat (of_nat (0xDC00 + b) :: 16 word) = 0xDC00 + b"
    using ab by (simp_all add: unat_of_nat del: of_nat_add)
  have "units_of cp = [of_nat (0xD800 + a), of_nat (0xDC00 + b)]"
    using False unfolding units_of_def a_def b_def by simp
  then show ?thesis
    by (rule pair) (simp_all only: is_high_unat is_low_unat surrogate_pair_def u v, use ab in simp_all)
qed

lemma isWellFormed_units:
  "(\<And>cp. cp \<in> set cps \<Longrightarrow> is_scalar cp) \<Longrightarrow> isWellFormed (concat (map units_of cps))"
proof (induction cps)
  case (Cons cp cps)
  then have "is_scalar cp" by simp
  then show ?case by (cases rule: units_of_cases) (use Cons in simp_all)
qed simp

lemma scalar_values_units:
  "(\<And>cp. cp \<in> set cps \<Longrightarrow> is_scalar cp) \<Longrightarrow> scalar_values (concat (map units_of cps)) = cps"
proof (induction cps)
  case (Cons cp cps)
  then have "is_scalar cp" by simp
  then show ?case by (cases rule: units_of_cases) (use Cons in simp_all)
qed simp

lemma utf8_decode_sound:
  "utf8_decode bs = Some cps \<Longrightarrow>
   (\<forall>cp \<in> set cps. is_scalar cp) \<and> length (concat (map utf8_bytes cps)) = length bs"
proof (induction bs arbitrary: cps rule: utf8_decode.induct)
  case (2 b bs)
  let ?n = "unat b"
  have nb: "cont_bits c < 64" for c by (simp add: cont_bits_def)
  consider "?n < 0x80" | "\<not> ?n < 0x80" "0xC2 \<le> ?n \<and> ?n < 0xE0"
    | "\<not> ?n < 0x80" "\<not> (0xC2 \<le> ?n \<and> ?n < 0xE0)" "0xE0 \<le> ?n \<and> ?n < 0xF0"
    | "\<not> ?n < 0x80" "\<not> (0xC2 \<le> ?n \<and> ?n < 0xE0)" "\<not> (0xE0 \<le> ?n \<and> ?n < 0xF0)" "0xF0 \<le> ?n \<and> ?n < 0xF5"
    | "\<not> ?n < 0x80" "\<not> (0xC2 \<le> ?n \<and> ?n < 0xE0)" "\<not> (0xE0 \<le> ?n \<and> ?n < 0xF0)" "\<not> (0xF0 \<le> ?n \<and> ?n < 0xF5)"
    by blast
  then show ?case
  proof cases
    case 1
    with "2.prems" obtain r where "cps = ?n # r" "utf8_decode bs = Some r" by (auto simp: Let_def)
    with "2.IH"(1)[OF refl 1] 1 show ?thesis by (simp add: utf8_bytes_def is_scalar_def)
  next
    case c: 2
    with "2.prems" obtain x rest r where r: "bs = x # rest" "utf8_decode rest = Some r"
        "cps = ((?n - 0xC0) * 64 + cont_bits x) # r" "is_cont x"
      by (auto simp: Let_def split: list.splits if_splits)
    define cp where "cp = (?n - 0xC0) * 64 + cont_bits x"
    have "0x80 \<le> cp" "cp < 0x800" using c nb[of x] unfolding cp_def by linarith+
    with "2.IH"(2)[OF refl c r(1,4)] r show ?thesis
      by (simp add: utf8_bytes_def is_scalar_def flip: cp_def)
  next
    case c: 3
    with "2.prems" obtain x y rest r cp where r: "bs = x # y # rest" "utf8_decode rest = Some r"
        "cps = cp # r" "is_cont x \<and> is_cont y \<and> 0x800 \<le> cp \<and> is_scalar cp"
        "cp = (?n - 0xE0) * 4096 + cont_bits x * 64 + cont_bits y"
      by (auto simp: Let_def split: list.splits if_splits)
    have "cp < 0x10000" using c nb[of x] nb[of y] r(5) by linarith
    with "2.IH"(3)[OF refl c r(1) refl r(5)] r show ?thesis by (simp add: utf8_bytes_def)
  next
    case c: 4
    with "2.prems" obtain x y z rest r cp where r: "bs = x # y # z # rest" "utf8_decode rest = Some r"
        "cps = cp # r" "is_cont x \<and> is_cont y \<and> is_cont z \<and> 0x10000 \<le> cp \<and> is_scalar cp"
        "cp = (?n - 0xF0) * 262144 + cont_bits x * 4096 + cont_bits y * 64 + cont_bits z"
      by (auto simp: Let_def split: list.splits if_splits)
    with "2.IH"(4)[OF refl c r(1) refl refl r(5)] show ?thesis by (simp add: utf8_bytes_def)
  next
    case 5
    with "2.prems" show ?thesis by (simp add: Let_def)
  qed
qed simp

lemma text_decode_sound:
  assumes "text_decode bs = Some s"
  shows "isWellFormed s" and "length (text_encode s) \<le> length bs"
proof -
  obtain bs' cps where d: "utf8_decode bs' = Some cps" "s = concat (map units_of cps)" "length bs' \<le> length bs"
    using assms by (auto simp: text_decode_def split: if_splits)
  note u = utf8_decode_sound[OF d(1)]
  show "isWellFormed s" using u d(2) by (simp add: isWellFormed_units)
  have "scalar_values s = cps" using u d(2) by (simp add: scalar_values_units)
  with u d(3) show "length (text_encode s) \<le> length bs" by (simp add: text_encode_def)
qed

subsection \<open>Lexicographic order\<close>

lemma list_less_irrefl [simp]: "\<not> list_less xs xs"
  by (induction xs) auto

lemma list_less_Nil2 [simp]: "\<not> list_less xs []"
  by (cases xs) auto

lemma list_less_trans: "list_less xs ys \<Longrightarrow> list_less ys zs \<Longrightarrow> list_less xs zs"
proof (induction xs ys arbitrary: zs rule: list_less.induct)
  case (1 ys)
  then show ?case by (cases zs; cases ys) auto
next
  case (3 x xs y ys)
  then show ?case by (cases zs) auto
qed simp

lemma list_less_linear: "list_less xs ys \<or> xs = ys \<or> list_less ys xs"
proof (induction xs ys rule: list_less.induct)
  case (1 ys)
  then show ?case by (cases ys) auto
qed auto

lemma list_less_asym: "list_less xs ys \<Longrightarrow> \<not> list_less ys xs"
  using list_less_trans list_less_irrefl by blast

lemma split_on_nonempty [simp]: "split_on c xs \<noteq> []"
  by (induction xs) (auto split: list.splits)

lemma split_path_nonempty [simp]: "split_path p \<noteq> []"
  by (simp add: split_path_def)

end
