(* ===== verification/Comparator.thy ===== *)
theory Comparator
  imports Main "HOL-Library.Multiset"
begin

text \<open>
  Sorting and searching with a comparator that returns a negative, zero or positive number.
  \<open>sort_by\<close> is \<open>Array.prototype.sort\<close>, a stable sort. The locale \<open>comparator\<close> is the contract a
  comparator has to keep on the values it meets; under it a sorted array is really sorted,
  equal elements keep their order, and the two binary searches of the ordered index find
  the borders of the block of equal elements.
\<close>

fun insert_by :: "('a \<Rightarrow> 'a \<Rightarrow> int) \<Rightarrow> 'a \<Rightarrow> 'a list \<Rightarrow> 'a list" where
  "insert_by cmp x [] = [x]"
| "insert_by cmp x (y # ys) = (if cmp x y \<le> 0 then x # y # ys else y # insert_by cmp x ys)"

definition sort_by :: "('a \<Rightarrow> 'a \<Rightarrow> int) \<Rightarrow> 'a list \<Rightarrow> 'a list" where
  "sort_by cmp xs = foldr (insert_by cmp) xs []"

text \<open>
  The loop both binary searches share: halve \<open>[low, high)\<close>, keeping the right half while the
  probe answers \<open>True\<close>.
\<close>

function bisect :: "(nat \<Rightarrow> bool) \<Rightarrow> nat \<Rightarrow> nat \<Rightarrow> nat" where
  "bisect below low high =
     (if low < high then
        (let middle = (low + high) div 2
         in if below middle then bisect below (middle + 1) high else bisect below low middle)
      else low)"
  by pat_completeness auto
termination
  by (relation "measure (\<lambda>(below, low, high). high - low)") auto

declare bisect.simps [simp del]

section \<open>Facts that need no contract\<close>

lemma set_insert_by [simp]: "set (insert_by cmp x ys) = insert x (set ys)"
  by (induction ys) auto

lemma sort_by_simps [simp]:
  "sort_by cmp [] = []"
  "sort_by cmp (x # xs) = insert_by cmp x (sort_by cmp xs)"
  by (simp_all add: sort_by_def)

lemma set_sort_by [simp]: "set (sort_by cmp xs) = set xs"
  by (induction xs) simp_all

lemma mset_insert_by: "mset (insert_by cmp x ys) = add_mset x (mset ys)"
  by (induction ys) auto

lemma mset_sort_by [simp]: "mset (sort_by cmp xs) = mset xs"
  by (induction xs) (simp_all add: mset_insert_by)

lemma length_sort_by [simp]: "length (sort_by cmp xs) = length xs"
  by (metis mset_sort_by size_mset)

lemma size_list_insert_by: "size_list f (insert_by cmp x ys) = f x + size_list f ys + 1"
  by (induction ys) auto

lemma size_list_sort_by [termination_simp, simp]: "size_list f (sort_by cmp xs) = size_list f xs"
  by (induction xs) (simp_all add: size_list_insert_by)

lemma map_insert_by:
  assumes "\<And>a b. cmp' (g a) (g b) = cmp a b"
  shows "map g (insert_by cmp x ys) = insert_by cmp' (g x) (map g ys)"
  by (induction ys) (simp_all add: assms)

lemma map_sort_by:
  assumes "\<And>a b. cmp' (g a) (g b) = cmp a b"
  shows "map g (sort_by cmp xs) = sort_by cmp' (map g xs)"
  by (induction xs) (simp_all add: map_insert_by[of cmp' g cmp, OF assms])

lemma bisect_bounds: "low \<le> high \<Longrightarrow> low \<le> bisect below low high \<and> bisect below low high \<le> high"
proof (induction below low high rule: bisect.induct)
  case (1 below low high)
  show ?case
  proof (cases "low < high")
    case True
    then have "low \<le> (low + high) div 2" "(low + high) div 2 < high" by auto
    with True "1.IH" show ?thesis
      by (subst (1 2) bisect.simps) (fastforce simp: Let_def)
  next
    case False
    then have "bisect below low high = low" by (simp add: bisect.simps[of below low high])
    with "1.prems" show ?thesis by simp
  qed
qed

text \<open>Where the probe is an initial segment, the search returns its length.\<close>

lemma bisect_prefix:
  assumes "low \<le> n" and "n \<le> high" and "\<And>i. low \<le> i \<Longrightarrow> i < high \<Longrightarrow> below i \<longleftrightarrow> i < n"
  shows "bisect below low high = n"
  using assms
proof (induction below low high rule: bisect.induct)
  case (1 below low high)
  show ?case
  proof (cases "low < high")
    case True
    define middle where "middle = (low + high) div 2"
    have m: "low \<le> middle" "middle < high" using True by (auto simp: middle_def)
    show ?thesis
    proof (cases "below middle")
      case b: True
      then have "middle < n" using "1.prems"(3) m by simp
      moreover have "bisect below (middle + 1) high = n"
        using "1.prems" m b \<open>middle < n\<close> by (intro "1.IH"(1)[OF True middle_def]) auto
      ultimately show ?thesis using True b by (simp add: bisect.simps[of below low high] middle_def)
    next
      case b: False
      then have "n \<le> middle" using "1.prems"(3) m by (meson not_less)
      moreover have "bisect below low middle = n"
        using "1.prems" m b \<open>n \<le> middle\<close> by (intro "1.IH"(2)[OF True middle_def]) auto
      ultimately show ?thesis using True b by (simp add: bisect.simps[of below low high] middle_def)
    qed
  next
    case False
    then have "bisect below low high = low" by (simp add: bisect.simps[of below low high])
    with False "1.prems" show ?thesis by simp
  qed
qed

section \<open>The comparator contract\<close>

locale comparator =
  fixes cmp :: "'a \<Rightarrow> 'a \<Rightarrow> int" and carrier :: "'a \<Rightarrow> bool"
  assumes cmp_flip: "carrier x \<Longrightarrow> carrier y \<Longrightarrow> cmp x y < 0 \<longleftrightarrow> 0 < cmp y x"
    and cmp_trans: "carrier x \<Longrightarrow> carrier y \<Longrightarrow> carrier z \<Longrightarrow> cmp x y \<le> 0 \<Longrightarrow> cmp y z \<le> 0 \<Longrightarrow> cmp x z \<le> 0"
begin

lemma cmp_refl: "carrier x \<Longrightarrow> cmp x x = 0"
  using cmp_flip[of x x] by linarith

lemma cmp_le_flip: "carrier x \<Longrightarrow> carrier y \<Longrightarrow> cmp x y \<le> 0 \<longleftrightarrow> 0 \<le> cmp y x"
  using cmp_flip[of x y] cmp_flip[of y x] by linarith

lemma cmp_zero_flip: "carrier x \<Longrightarrow> carrier y \<Longrightarrow> cmp x y = 0 \<longleftrightarrow> cmp y x = 0"
  using cmp_flip[of x y] cmp_flip[of y x] by linarith

lemma cmp_less_le_trans:
  assumes "carrier x" "carrier y" "carrier z" "cmp x y < 0" "cmp y z \<le> 0"
  shows "cmp x z < 0"
proof (rule ccontr)
  assume "\<not> cmp x z < 0"
  then have "cmp z x \<le> 0" using cmp_le_flip[of z x] assms by simp
  then have "cmp y x \<le> 0" using cmp_trans[of y z x] assms by simp
  then show False using cmp_flip[of x y] assms by simp
qed

lemma cmp_le_less_trans:
  assumes "carrier x" "carrier y" "carrier z" "cmp x y \<le> 0" "cmp y z < 0"
  shows "cmp x z < 0"
proof (rule ccontr)
  assume "\<not> cmp x z < 0"
  then have "cmp z x \<le> 0" using cmp_le_flip[of z x] assms by simp
  then have "cmp z y \<le> 0" using cmp_trans[of z x y] assms by simp
  then show False using cmp_flip[of y z] assms by simp
qed

lemma sorted_insert_by:
  assumes "carrier x" and "\<forall>y \<in> set ys. carrier y" and "sorted_wrt (\<lambda>a b. cmp a b \<le> 0) ys"
  shows "sorted_wrt (\<lambda>a b. cmp a b \<le> 0) (insert_by cmp x ys)"
  using assms
proof (induction ys)
  case (Cons y ys)
  show ?case
  proof (cases "cmp x y \<le> 0")
    case True
    with Cons.prems show ?thesis by (auto intro: cmp_trans[of x y])
  next
    case False
    then have "cmp y x \<le> 0" using Cons.prems cmp_flip[of y x] by simp
    with False Cons show ?thesis by auto
  qed
qed simp

lemma sorted_sort_by:
  "\<forall>x \<in> set xs. carrier x \<Longrightarrow> sorted_wrt (\<lambda>a b. cmp a b \<le> 0) (sort_by cmp xs)"
  by (induction xs) (simp_all add: sorted_insert_by)

lemma insert_by_sorted_id:
  "sorted_wrt (\<lambda>a b. cmp a b \<le> 0) (x # xs) \<Longrightarrow> insert_by cmp x xs = x # xs"
  by (cases xs) auto

lemma sort_by_sorted_id: "sorted_wrt (\<lambda>a b. cmp a b \<le> 0) xs \<Longrightarrow> sort_by cmp xs = xs"
proof (induction xs)
  case (Cons x xs)
  then have "sort_by cmp xs = xs" by simp
  with Cons.prems show ?case using insert_by_sorted_id by simp
qed simp

lemma sorted_mset_unique:
  assumes "sorted_wrt (\<lambda>a b. cmp a b \<le> 0) xs" "sorted_wrt (\<lambda>a b. cmp a b \<le> 0) ys" "mset xs = mset ys"
    and "\<forall>x \<in> set xs. carrier x" "\<And>x y. x \<in> set xs \<Longrightarrow> y \<in> set xs \<Longrightarrow> cmp x y = 0 \<Longrightarrow> x = y"
  shows "xs = ys"
  using assms
proof (induction xs arbitrary: ys)
  case (Cons x xs)
  then obtain y ys' where ys: "ys = y # ys'" by (cases ys) auto
  have sets: "set ys = set (x # xs)" using Cons.prems(3) by (metis set_mset_mset)
  have "cmp y x \<le> 0"
    using sets Cons.prems(2,4) ys cmp_refl[of x] by (cases "x = y") auto
  moreover have "cmp x y \<le> 0"
    using sets Cons.prems(1,4) ys cmp_refl[of x] by (cases "x = y") auto
  moreover have "carrier x" "carrier y" using Cons.prems(4) sets ys by (auto simp: set_eq_iff)
  ultimately have "cmp x y = 0" using cmp_le_flip[of y x] by auto
  then have "x = y" using Cons.prems(5)[of x y] sets ys by auto
  with Cons.prems ys have "xs = ys'" by (intro Cons.IH) auto
  with \<open>x = y\<close> ys show ?case by simp
qed simp

lemma sort_by_mset_eq:
  assumes "mset xs = mset ys" and "\<forall>x \<in> set xs. carrier x"
    and "\<And>x y. x \<in> set xs \<Longrightarrow> y \<in> set xs \<Longrightarrow> cmp x y = 0 \<Longrightarrow> x = y"
  shows "sort_by cmp xs = sort_by cmp ys"
proof -
  have "set xs = set ys" using assms(1) by (metis set_mset_mset)
  with assms show ?thesis
    by (intro sorted_mset_unique) (auto intro!: sorted_sort_by)
qed

text \<open>Stability: the elements equal to a given one keep their relative order.\<close>

lemma filter_insert_by:
  assumes "carrier p" "carrier x" "\<forall>y \<in> set ys. carrier y"
  shows "filter (\<lambda>y. cmp p y = 0) (insert_by cmp x ys) = filter (\<lambda>y. cmp p y = 0) (x # ys)"
  using assms
proof (induction ys)
  case (Cons y ys)
  have "\<not> (cmp p x = 0 \<and> cmp p y = 0)" if "\<not> cmp x y \<le> 0"
  proof
    assume "cmp p x = 0 \<and> cmp p y = 0"
    then have "cmp x p \<le> 0" "cmp p y \<le> 0" using Cons.prems cmp_zero_flip[of p x] by auto
    then show False using that Cons.prems cmp_trans[of x p y] by auto
  qed
  with Cons show ?case by auto
qed simp

lemma sort_by_stable:
  "carrier p \<Longrightarrow> \<forall>x \<in> set xs. carrier x \<Longrightarrow>
   filter (\<lambda>y. cmp p y = 0) (sort_by cmp xs) = filter (\<lambda>y. cmp p y = 0) xs"
  by (induction xs) (simp_all add: filter_insert_by)

text \<open>On a sorted array each search returns the number of elements below the bound.\<close>

lemma sorted_prefix_less:
  assumes "\<forall>x \<in> set xs. carrier x" "carrier v" "sorted_wrt (\<lambda>a b. cmp a b \<le> 0) xs" "i < length xs"
  shows "cmp (xs ! i) v < 0 \<longleftrightarrow> i < length (filter (\<lambda>x. cmp x v < 0) xs)"
  using assms
proof (induction xs arbitrary: i)
  case (Cons x xs)
  show ?case
  proof (cases "cmp x v < 0")
    case True
    with Cons show ?thesis by (cases i) auto
  next
    case False
    have "\<not> cmp y v < 0" if "y \<in> set (x # xs)" for y
      using False that Cons.prems cmp_le_less_trans[of x y v] by auto
    then have "filter (\<lambda>x. cmp x v < 0) (x # xs) = []" by (auto simp: filter_empty_conv)
    moreover have "(x # xs) ! i \<in> set (x # xs)" using Cons.prems(4) nth_mem by blast
    ultimately show ?thesis using \<open>\<And>y. y \<in> set (x # xs) \<Longrightarrow> \<not> cmp y v < 0\<close> by simp
  qed
qed simp

lemma sorted_prefix_le:
  assumes "\<forall>x \<in> set xs. carrier x" "carrier v" "sorted_wrt (\<lambda>a b. cmp a b \<le> 0) xs" "i < length xs"
  shows "cmp (xs ! i) v \<le> 0 \<longleftrightarrow> i < length (filter (\<lambda>x. cmp x v \<le> 0) xs)"
  using assms
proof (induction xs arbitrary: i)
  case (Cons x xs)
  show ?case
  proof (cases "cmp x v \<le> 0")
    case True
    with Cons show ?thesis by (cases i) auto
  next
    case False
    have "\<not> cmp y v \<le> 0" if "y \<in> set (x # xs)" for y
      using False that Cons.prems cmp_trans[of x y v] by auto
    then have "filter (\<lambda>x. cmp x v \<le> 0) (x # xs) = []" by (auto simp: filter_empty_conv)
    moreover have "(x # xs) ! i \<in> set (x # xs)" using Cons.prems(4) nth_mem by blast
    ultimately show ?thesis using \<open>\<And>y. y \<in> set (x # xs) \<Longrightarrow> \<not> cmp y v \<le> 0\<close> by simp
  qed
qed simp

lemma bisect_less:
  assumes "\<forall>x \<in> set xs. carrier x" "carrier v" "sorted_wrt (\<lambda>a b. cmp a b \<le> 0) xs"
  shows "bisect (\<lambda>i. cmp (xs ! i) v < 0) 0 (length xs) = length (filter (\<lambda>x. cmp x v < 0) xs)"
  by (rule bisect_prefix) (auto simp: sorted_prefix_less[OF assms])

lemma bisect_le:
  assumes "\<forall>x \<in> set xs. carrier x" "carrier v" "sorted_wrt (\<lambda>a b. cmp a b \<le> 0) xs"
  shows "bisect (\<lambda>i. cmp (xs ! i) v \<le> 0) 0 (length xs) = length (filter (\<lambda>x. cmp x v \<le> 0) xs)"
  by (rule bisect_prefix) (auto simp: sorted_prefix_le[OF assms])

end

end
