(* ===== verification/Js_Document.thy ===== *)
theory Js_Document
  imports Js_Number Js_String Comparator
begin

text \<open>
  The value model of \<open>packages/protocol/src/document.ts\<close>. A document is the list of an
  object's own properties in the order \<open>Object.keys\<close> enumerates them: array-index keys first,
  ascending, then the others in insertion order. \<open>DOther\<close> stands for the values outside the
  \<open>DocumentValue\<close> type that the run-time checks refuse (\<open>undefined\<close>, functions, symbols). A
  \<open>Date\<close> is its time value in milliseconds, \<open>None\<close> for an invalid one.
\<close>

datatype doc_value =
    DNull
  | DBool bool
  | DNumber js_number
  | DBigInt int
  | DString js_string
  | DDate "int option"
  | DBinary bytes
  | DCustomId bytes
  | DArray "doc_value list"
  | DDocument "(js_string \<times> doc_value) list"
  | DOther

type_synonym document = "(js_string \<times> doc_value) list"

section \<open>Object properties\<close>

definition digit_of :: "16 word \<Rightarrow> nat option" where
  "digit_of u = (if 0x30 \<le> u \<and> u \<le> 0x39 then Some (unat u - 0x30) else None)"

fun digits_value :: "nat \<Rightarrow> js_string \<Rightarrow> nat option" where
  "digits_value acc [] = Some acc"
| "digits_value acc (u # us) =
     (case digit_of u of None \<Rightarrow> None | Some d \<Rightarrow> digits_value (acc * 10 + d) us)"

definition array_index :: "js_string \<Rightarrow> nat option" where
  "array_index s =
     (if s = [] \<or> (hd s = 0x30 \<and> s \<noteq> [0x30]) then None
      else (case digits_value 0 s of None \<Rightarrow> None
            | Some n \<Rightarrow> if n < 2 ^ 32 - 1 then Some n else None))"

fun insert_index :: "nat \<Rightarrow> js_string \<times> 'v \<Rightarrow> (js_string \<times> 'v) list \<Rightarrow> (js_string \<times> 'v) list" where
  "insert_index n kv [] = [kv]"
| "insert_index n kv (p # ps) =
     (case array_index (fst p) of
        None \<Rightarrow> kv # p # ps
      | Some m \<Rightarrow> if m < n then p # insert_index n kv ps else kv # p # ps)"

definition obj_set :: "js_string \<Rightarrow> 'v \<Rightarrow> (js_string \<times> 'v) list \<Rightarrow> (js_string \<times> 'v) list" where
  "obj_set k v d =
     (if k \<in> fst ` set d then AList.update k v d
      else (case array_index k of None \<Rightarrow> d @ [(k, v)] | Some n \<Rightarrow> insert_index n (k, v) d))"

definition hasOwn :: "(js_string \<times> 'v) list \<Rightarrow> js_string \<Rightarrow> bool" where
  "hasOwn d k \<longleftrightarrow> k \<in> fst ` set d"

definition isPlainDocument :: "doc_value \<Rightarrow> bool" where
  "isPlainDocument v = (case v of DDocument _ \<Rightarrow> True | _ \<Rightarrow> False)"

definition isArray :: "doc_value \<Rightarrow> bool" where
  "isArray v = (case v of DArray _ \<Rightarrow> True | _ \<Rightarrow> False)"

definition isCustomId :: "doc_value \<Rightarrow> bool" where
  "isCustomId v = (case v of DCustomId _ \<Rightarrow> True | _ \<Rightarrow> False)"

section \<open>Well-typed values\<close>

text \<open>What the run-time system guarantees of a value: distinct own keys, ids of 16 bytes,
  time values within the range of \<open>Date\<close>.\<close>

definition MAX_TIME :: int where
  "MAX_TIME = 8640000000000000"

fun wf_value :: "doc_value \<Rightarrow> bool" where
  "wf_value (DNumber w) = wf_num w"
| "wf_value (DDate t) = (case t of None \<Rightarrow> True | Some ms \<Rightarrow> \<bar>ms\<bar> \<le> MAX_TIME)"
| "wf_value (DCustomId bs) = (length bs = 16)"
| "wf_value (DArray vs) = list_all wf_value vs"
| "wf_value (DDocument fs) = (distinct (map fst fs) \<and> list_all (\<lambda>p. wf_value (snd p)) fs)"
| "wf_value _ = True"

section \<open>Lemmas\<close>

subsection \<open>Objects\<close>

lemma set_insert_index [simp]: "set (insert_index n kv d) = insert kv (set d)"
  by (induction d) (auto split: option.splits)

lemma distinct_insert_index:
  "fst kv \<notin> fst ` set d \<Longrightarrow> distinct (map fst d) \<Longrightarrow> distinct (map fst (insert_index n kv d))"
  by (induction d) (auto split: option.splits)

lemma map_of_insert_index:
  "k \<notin> fst ` set d \<Longrightarrow> map_of (insert_index n (k, v) d) = (map_of d)(k \<mapsto> v)"
  by (induction d) (auto split: option.splits simp: fun_eq_iff)

lemma distinct_obj_set [simp]: "distinct (map fst d) \<Longrightarrow> distinct (map fst (obj_set k v d))"
  by (auto simp: obj_set_def distinct_insert_index split: option.splits)

lemma map_of_append_new: "k \<notin> fst ` set d \<Longrightarrow> map_of (d @ [(k, v)]) = (map_of d)(k \<mapsto> v)"
  by (auto simp: fun_eq_iff map_add_def split: option.splits dest: map_of_SomeD)
     (metis image_eqI fst_conv map_of_SomeD)

lemma map_of_obj_set [simp]: "map_of (obj_set k v d) = (map_of d)(k \<mapsto> v)"
  by (simp add: obj_set_def map_of_insert_index map_of_append_new del: map_of_append split: option.splits)

lemma fst_set_obj_set [simp]: "fst ` set (obj_set k v d) = insert k (fst ` set d)"
  by (metis dom_fun_upd dom_map_of_conv_image_fst map_of_obj_set option.discI)

lemma hasOwn_map_of: "hasOwn d k \<longleftrightarrow> map_of d k \<noteq> None"
  by (simp add: hasOwn_def map_of_eq_None_iff)

lemma set_alist_update: "set (AList.update k v d) \<subseteq> insert (k, v) (set d)"
  by (induction d) auto

lemma set_obj_set_subset: "set (obj_set k v d) \<subseteq> insert (k, v) (set d)"
  using set_alist_update[of k v d] by (auto simp: obj_set_def split: option.splits if_splits)

lemma wf_value_DDocument_get:
  "wf_value (DDocument d) \<Longrightarrow> map_of d k = Some v \<Longrightarrow> wf_value v"
  by (auto simp: list_all_iff dest!: map_of_SomeD)

lemma wf_value_obj_set:
  "wf_value (DDocument d) \<Longrightarrow> wf_value v \<Longrightarrow> wf_value (DDocument (obj_set k v d))"
  using set_obj_set_subset[of k v d] by (auto simp: list_all_iff)

end
