(* ===== verification/Document_Codec.thy ===== *)
theory Document_Codec
  imports Binary_IO Js_Document
begin

text \<open>
  \<open>packages/protocol/src/document-encoder.ts\<close> and \<open>document-decoder.ts\<close>. A model value is a
  finite tree, so the encoder's check for cyclic references (\<open>activeContainers\<close>) never fires
  on it and is not part of the model. \<open>enc_bytes\<close> and \<open>encodable\<close> are the abstract
  specification of the encoder: which bytes a value has, and for which values there are any.
\<close>

definition MAX_DOCUMENT_DEPTH :: nat where
  "MAX_DOCUMENT_DEPTH = 100"

definition MIN_INT32 :: int where "MIN_INT32 = - 0x80000000"
definition MAX_INT32 :: int where "MAX_INT32 = 0x7fffffff"
definition MIN_INT64 :: int where "MIN_INT64 = - (2 ^ 63)"
definition MAX_INT64 :: int where "MAX_INT64 = 2 ^ 63 - 1"

definition TagNull :: nat where "TagNull = 0x00"
definition TagFalse :: nat where "TagFalse = 0x01"
definition TagTrue :: nat where "TagTrue = 0x02"
definition TagInt32 :: nat where "TagInt32 = 0x03"
definition TagInt64 :: nat where "TagInt64 = 0x04"
definition TagFloat64 :: nat where "TagFloat64 = 0x05"
definition TagBigInt64 :: nat where "TagBigInt64 = 0x06"
definition TagString :: nat where "TagString = 0x07"
definition TagBinary :: nat where "TagBinary = 0x08"
definition TagDateTime :: nat where "TagDateTime = 0x09"
definition TagArray :: nat where "TagArray = 0x0a"
definition TagDocument :: nat where "TagDocument = 0x0b"
definition TagCustomId :: nat where "TagCustomId = 0x0c"

lemmas tag_defs = TagNull_def TagFalse_def TagTrue_def TagInt32_def TagInt64_def TagFloat64_def
  TagBigInt64_def TagString_def TagBinary_def TagDateTime_def TagArray_def TagDocument_def
  TagCustomId_def

section \<open>The encoder\<close>

definition encodeString :: "js_string \<Rightarrow> protocol_error + bytes" where
  "encodeString s = (if isWellFormed s then Inr (text_encode s) else Inl InvalidDocumentValue)"

fun compareBytes :: "bytes \<Rightarrow> bytes \<Rightarrow> int" where
  "compareBytes (x # xs) (y # ys) =
     (let difference = int (unat x) - int (unat y)
      in if difference \<noteq> 0 then difference else compareBytes xs ys)"
| "compareBytes xs ys = int (length xs) - int (length ys)"

definition compare_keys :: "js_string \<times> 'v \<Rightarrow> js_string \<times> 'w \<Rightarrow> int" where
  "compare_keys left right = compareBytes (text_encode (fst left)) (text_encode (fst right))"

definition writeLengthPrefixedBytes ::
  "binary_writer \<Rightarrow> bytes \<Rightarrow> protocol_error + binary_writer" where
  "writeLengthPrefixedBytes w bs = bindR (writeUint32 w (length bs)) (\<lambda>w. writeBytes w bs)"

definition writeNumber :: "binary_writer \<Rightarrow> js_number \<Rightarrow> protocol_error + binary_writer" where
  "writeNumber w n =
     (if isNaN n then bindR (writeUint8 w TagFloat64) (\<lambda>w. writeBigUint64 w (unat canonical_nan))
      else if isInteger n \<and> n \<noteq> neg_zero \<and> MIN_INT32 \<le> num_int n \<and> num_int n \<le> MAX_INT32
      then bindR (writeUint8 w TagInt32) (\<lambda>w. writeInt32 w (num_int n))
      else if isSafeInteger n \<and> n \<noteq> neg_zero
      then bindR (writeUint8 w TagInt64) (\<lambda>w. writeBigInt64 w (num_int n))
      else bindR (writeUint8 w TagFloat64) (\<lambda>w. writeFloat64 w n))"

definition writeBigInt :: "binary_writer \<Rightarrow> int \<Rightarrow> protocol_error + binary_writer" where
  "writeBigInt w i =
     (if i < MIN_INT64 \<or> MAX_INT64 < i then Inl IntegerOutOfRange
      else bindR (writeUint8 w TagBigInt64) (\<lambda>w. writeBigInt64 w i))"

definition writeDate :: "binary_writer \<Rightarrow> int option \<Rightarrow> protocol_error + binary_writer" where
  "writeDate w t =
     (case t of None \<Rightarrow> Inl InvalidDate
      | Some ms \<Rightarrow> bindR (writeUint8 w TagDateTime) (\<lambda>w. writeBigInt64 w ms))"

text \<open>
  \<open>writeDocument\<close> first encodes every key (which is where an ill-formed key is refused), sorts
  the fields by encoded key and then writes them.
\<close>

fun writeValue :: "binary_writer \<Rightarrow> doc_value \<Rightarrow> nat \<Rightarrow> protocol_error + binary_writer"
  and writeItems :: "binary_writer \<Rightarrow> doc_value list \<Rightarrow> nat \<Rightarrow> protocol_error + binary_writer"
  and writeFields ::
    "binary_writer \<Rightarrow> (js_string \<times> doc_value) list \<Rightarrow> nat \<Rightarrow> protocol_error + binary_writer"
where
  "writeValue w v depth =
     (if MAX_DOCUMENT_DEPTH < depth then Inl DocumentTooDeep
      else case v of
        DNull \<Rightarrow> writeUint8 w TagNull
      | DBool b \<Rightarrow> writeUint8 w (if b then TagTrue else TagFalse)
      | DNumber n \<Rightarrow> writeNumber w n
      | DBigInt i \<Rightarrow> writeBigInt w i
      | DString s \<Rightarrow> bindR (writeUint8 w TagString) (\<lambda>w.
          bindR (encodeString s) (\<lambda>bs. writeLengthPrefixedBytes w bs))
      | DDate t \<Rightarrow> writeDate w t
      | DBinary bs \<Rightarrow> bindR (writeUint8 w TagBinary) (\<lambda>w. writeLengthPrefixedBytes w bs)
      | DCustomId bs \<Rightarrow> bindR (writeUint8 w TagCustomId) (\<lambda>w. writeBytes w bs)
      | DArray vs \<Rightarrow> bindR (writeUint8 w TagArray) (\<lambda>w.
          bindR (writeUint32 w (length vs)) (\<lambda>w. writeItems w vs depth))
      | DDocument fs \<Rightarrow> bindR (mapR (\<lambda>p. encodeString (fst p)) fs) (\<lambda>_.
          bindR (writeUint8 w TagDocument) (\<lambda>w.
          bindR (writeUint32 w (length fs)) (\<lambda>w.
            writeFields w (sort_by compare_keys fs) depth)))
      | DOther \<Rightarrow> Inl InvalidDocumentValue)"
| "writeItems w [] depth = Inr w"
| "writeItems w (v # vs) depth =
     bindR (writeValue w v (depth + 1)) (\<lambda>w. writeItems w vs depth)"
| "writeFields w [] depth = Inr w"
| "writeFields w ((k, v) # fs) depth =
     bindR (writeLengthPrefixedBytes w (text_encode k)) (\<lambda>w.
     bindR (writeValue w v (depth + 1)) (\<lambda>w. writeFields w fs depth))"

definition encodeDocumentValue :: "doc_value \<Rightarrow> protocol_error + bytes" where
  "encodeDocumentValue v = bindR (writeValue new_writer v 0) (\<lambda>w. Inr (finish w))"

definition encodeDocument :: "document \<Rightarrow> protocol_error + bytes" where
  "encodeDocument d = encodeDocumentValue (DDocument d)"


section \<open>The decoder\<close>

definition readLengthPrefixedBytes ::
  "binary_reader \<Rightarrow> protocol_error + bytes \<times> binary_reader" where
  "readLengthPrefixedBytes r = bindR (readUint32 r) (\<lambda>(n, r). readBytes r n)"

definition readString :: "binary_reader \<Rightarrow> protocol_error + js_string \<times> binary_reader" where
  "readString r =
     bindR (readLengthPrefixedBytes r) (\<lambda>(bs, r).
       case text_decode bs of None \<Rightarrow> Inl InvalidUtf8 | Some s \<Rightarrow> Inr (s, r))"

definition readInt64 :: "binary_reader \<Rightarrow> protocol_error + js_number \<times> binary_reader" where
  "readInt64 r =
     bindR (readBigInt64 r) (\<lambda>(i, r).
       if i < - MAX_SAFE_INTEGER \<or> MAX_SAFE_INTEGER < i then Inl IntegerOutOfRange
       else Inr (num_of_int i, r))"

text \<open>
  \<open>new Date(Number(ms))\<close> is invalid past 8.64e15 milliseconds. \<open>Number\<close> is exact up to
  2^53 and keeps every larger magnitude above that limit, so the bound is tested on \<open>ms\<close>.
\<close>

definition readDate :: "binary_reader \<Rightarrow> protocol_error + int \<times> binary_reader" where
  "readDate r =
     bindR (readBigInt64 r) (\<lambda>(ms, r).
       if MAX_TIME < \<bar>ms\<bar> then Inl InvalidDate else Inr (ms, r))"

function (sequential)
  readValue :: "binary_reader \<Rightarrow> nat \<Rightarrow> protocol_error + doc_value \<times> binary_reader"
  and readItems ::
    "binary_reader \<Rightarrow> nat \<Rightarrow> nat \<Rightarrow> protocol_error + doc_value list \<times> binary_reader"
  and readFields ::
    "binary_reader \<Rightarrow> nat \<Rightarrow> nat \<Rightarrow> document \<Rightarrow> protocol_error + document \<times> binary_reader"
where
  "readValue r depth =
     (if MAX_DOCUMENT_DEPTH < depth then Inl DocumentTooDeep
      else bindR (readUint8 r) (\<lambda>(tag, r).
        if tag = TagNull then Inr (DNull, r)
        else if tag = TagFalse then Inr (DBool False, r)
        else if tag = TagTrue then Inr (DBool True, r)
        else if tag = TagInt32 then
          bindR (readInt32 r) (\<lambda>(i, r). Inr (DNumber (num_of_int i), r))
        else if tag = TagInt64 then bindR (readInt64 r) (\<lambda>(n, r). Inr (DNumber n, r))
        else if tag = TagFloat64 then
          bindR (readFloat64 r) (\<lambda>(n, r). Inr (DNumber (canonical_num n), r))
        else if tag = TagBigInt64 then bindR (readBigInt64 r) (\<lambda>(i, r). Inr (DBigInt i, r))
        else if tag = TagString then bindR (readString r) (\<lambda>(s, r). Inr (DString s, r))
        else if tag = TagBinary then
          bindR (readLengthPrefixedBytes r) (\<lambda>(bs, r). Inr (DBinary bs, r))
        else if tag = TagDateTime then bindR (readDate r) (\<lambda>(ms, r). Inr (DDate (Some ms), r))
        else if tag = TagCustomId then bindR (readBytes r 16) (\<lambda>(bs, r). Inr (DCustomId bs, r))
        else if tag = TagArray then
          bindR (readUint32 r) (\<lambda>(n, r).
          bindR (readItems r depth n) (\<lambda>(vs, r). Inr (DArray vs, r)))
        else if tag = TagDocument then
          bindR (readUint32 r) (\<lambda>(n, r).
          bindR (readFields r depth n []) (\<lambda>(d, r). Inr (DDocument d, r)))
        else Inl UnknownValueTag))"
| "readItems r depth 0 = Inr ([], r)"
| "readItems r depth (Suc n) =
     bindR (readValue r (depth + 1)) (\<lambda>(v, r).
     bindR (readItems r depth n) (\<lambda>(vs, r). Inr (v # vs, r)))"
| "readFields r depth 0 d = Inr (d, r)"
| "readFields r depth (Suc n) d =
     bindR (readString r) (\<lambda>(k, r).
       if hasOwn d k then Inl DuplicateDocumentKey
       else bindR (readValue r (depth + 1)) (\<lambda>(v, r).
         readFields r depth n (obj_set k v d)))"
  by pat_completeness auto
termination
  by (relation "inv_image (less_than <*lex*> less_than)
      (\<lambda>x. case x of Inl (r, depth) \<Rightarrow> (101 - depth, 0)
                   | Inr (Inl (r, depth, n)) \<Rightarrow> (100 - depth, n + 1)
                   | Inr (Inr (r, depth, n, d)) \<Rightarrow> (100 - depth, n + 1))")
     (auto simp: MAX_DOCUMENT_DEPTH_def)

declare writeValue.simps [simp del] readValue.simps [simp del]

definition decodeDocumentValue :: "bytes \<Rightarrow> protocol_error + doc_value" where
  "decodeDocumentValue payload =
     (if MAX_PAYLOAD_SIZE < length payload then Inl PayloadTooLarge
      else bindR (readValue (new_reader payload) 0) (\<lambda>(v, r).
        if remaining r \<noteq> 0 then Inl TrailingData else Inr v))"

definition decodeDocument :: "bytes \<Rightarrow> protocol_error + document" where
  "decodeDocument payload =
     bindR (decodeDocumentValue payload) (\<lambda>v.
       case v of DDocument d \<Rightarrow> Inr d | _ \<Rightarrow> Inl InvalidDocumentValue)"

section \<open>Abstract specification\<close>

definition enc_number :: "js_number \<Rightarrow> bytes" where
  "enc_number n =
     (if isNaN n then byte1 TagFloat64 @ be_bytes 8 (unat canonical_nan)
      else if isInteger n \<and> n \<noteq> neg_zero \<and> MIN_INT32 \<le> num_int n \<and> num_int n \<le> MAX_INT32
      then byte1 TagInt32 @ be_bytes 4 (of_signed 32 (num_int n))
      else if isSafeInteger n \<and> n \<noteq> neg_zero
      then byte1 TagInt64 @ be_bytes 8 (of_signed 64 (num_int n))
      else byte1 TagFloat64 @ be_bytes 8 (unat n))"

definition enc_prefixed :: "bytes \<Rightarrow> bytes" where
  "enc_prefixed bs = be_bytes 4 (length bs) @ bs"

fun enc_bytes :: "doc_value \<Rightarrow> bytes" where
  "enc_bytes DNull = byte1 TagNull"
| "enc_bytes (DBool b) = byte1 (if b then TagTrue else TagFalse)"
| "enc_bytes (DNumber n) = enc_number n"
| "enc_bytes (DBigInt i) = byte1 TagBigInt64 @ be_bytes 8 (of_signed 64 i)"
| "enc_bytes (DString s) = byte1 TagString @ enc_prefixed (text_encode s)"
| "enc_bytes (DDate t) = byte1 TagDateTime @ be_bytes 8 (of_signed 64 (case t of None \<Rightarrow> 0 | Some ms \<Rightarrow> ms))"
| "enc_bytes (DBinary bs) = byte1 TagBinary @ enc_prefixed bs"
| "enc_bytes (DCustomId bs) = byte1 TagCustomId @ bs"
| "enc_bytes (DArray vs) = byte1 TagArray @ be_bytes 4 (length vs) @ concat (map enc_bytes vs)"
| "enc_bytes (DDocument fs) = byte1 TagDocument @ be_bytes 4 (length fs) @
     concat (map (\<lambda>p. enc_prefixed (text_encode (fst p)) @ snd p)
       (sort_by compare_keys (map (\<lambda>p. (fst p, enc_bytes (snd p))) fs)))"
| "enc_bytes DOther = []"

fun encodable :: "nat \<Rightarrow> doc_value \<Rightarrow> bool" where
  "encodable depth (DArray vs) =
     (depth \<le> MAX_DOCUMENT_DEPTH \<and> list_all (encodable (depth + 1)) vs)"
| "encodable depth (DDocument fs) =
     (depth \<le> MAX_DOCUMENT_DEPTH \<and>
      list_all (\<lambda>p. isWellFormed (fst p) \<and> encodable (depth + 1) (snd p)) fs)"
| "encodable depth (DBigInt i) = (depth \<le> MAX_DOCUMENT_DEPTH \<and> MIN_INT64 \<le> i \<and> i \<le> MAX_INT64)"
| "encodable depth (DString s) = (depth \<le> MAX_DOCUMENT_DEPTH \<and> isWellFormed s)"
| "encodable depth (DDate t) = (depth \<le> MAX_DOCUMENT_DEPTH \<and> t \<noteq> None)"
| "encodable depth DOther = False"
| "encodable depth _ = (depth \<le> MAX_DOCUMENT_DEPTH)"

text \<open>
  What a decoder makes of the encoding of \<open>v\<close>: every document with its keys in the order of
  their encodings (array-index keys first, as in any object), \<open>NaN\<close> in its one form.
\<close>

fun canon :: "doc_value \<Rightarrow> doc_value" where
  "canon (DNumber n) = DNumber (canonical_num n)"
| "canon (DArray vs) = DArray (map canon vs)"
| "canon (DDocument fs) = DDocument (foldl (\<lambda>d p. obj_set (fst p) (snd p) d) []
     (sort_by compare_keys (map (\<lambda>p. (fst p, canon (snd p))) fs)))"
| "canon v = v"

text \<open>No string and no key of the value starts with U+FEFF, which the decoder would drop.\<close>

definition bom_free_string :: "js_string \<Rightarrow> bool" where
  "bom_free_string s \<longleftrightarrow> (case s of [] \<Rightarrow> True | u # _ \<Rightarrow> u \<noteq> 0xFEFF)"

fun bom_free :: "doc_value \<Rightarrow> bool" where
  "bom_free (DString s) = bom_free_string s"
| "bom_free (DArray vs) = list_all bom_free vs"
| "bom_free (DDocument fs) = list_all (\<lambda>p. bom_free_string (fst p) \<and> bom_free (snd p)) fs"
| "bom_free _ = True"

section \<open>The encoder meets its specification\<close>

lemma emits_scalars:
  "bw.emits (\<lambda>w. writeUint8 w n) (byte1 n)"
  "bw.emits (\<lambda>w. writeUint32 w n) (be_bytes 4 n)"
  "bw.emits (\<lambda>w. writeInt32 w i) (be_bytes 4 (of_signed 32 i))"
  "bw.emits (\<lambda>w. writeBigInt64 w i) (be_bytes 8 (of_signed 64 i))"
  "bw.emits (\<lambda>w. writeBigUint64 w n) (be_bytes 8 n)"
  "bw.emits (\<lambda>w. writeFloat64 w x) (be_bytes 8 (unat x))"
  "bw.emits (\<lambda>w. writeBytes w bs) bs"
  unfolding writeUint8_def writeUint32_def writeInt32_def writeBigInt64_def writeBigUint64_def
    writeFloat64_def by (rule bw.emits_put)+

lemma emits_prefixed: "bw.emits (\<lambda>w. writeLengthPrefixedBytes w bs) (enc_prefixed bs)"
  unfolding writeLengthPrefixedBytes_def enc_prefixed_def by (intro bw.emits_seq emits_scalars)

lemma emits_number: "bw.emits (\<lambda>w. writeNumber w n) (enc_number n)"
  unfolding writeNumber_def enc_number_def by (auto intro!: bw.emits_seq emits_scalars)

lemma emits_items:
  "(\<And>v. v \<in> set vs \<Longrightarrow> bw.emits (\<lambda>w. writeValue w v (Suc depth)) (enc_bytes v)) \<Longrightarrow>
   bw.emits (\<lambda>w. writeItems w vs depth) (concat (map enc_bytes vs))"
  by (induction vs) (auto intro!: bw.emits_seq bw.emits_nil)

definition enc_field :: "js_string \<times> doc_value \<Rightarrow> bytes" where
  "enc_field p = enc_prefixed (text_encode (fst p)) @ enc_bytes (snd p)"

lemma emits_fields:
  "(\<And>p. p \<in> set fs \<Longrightarrow> bw.emits (\<lambda>w. writeValue w (snd p) (Suc depth)) (enc_bytes (snd p))) \<Longrightarrow>
   bw.emits (\<lambda>w. writeFields w fs depth) (concat (map enc_field fs))"
proof (induction fs)
  case Nil
  then show ?case by (simp add: bw.emits_nil)
next
  case (Cons p fs)
  obtain k v where p: "p = (k, v)" by fastforce
  have "bw.emits (\<lambda>w. writeFields w (p # fs) depth)
     (enc_prefixed (text_encode k) @ enc_bytes v @ concat (map enc_field fs))"
    using Cons.IH Cons.prems[of p] Cons.prems by (auto simp: p intro!: bw.emits_seq emits_prefixed)
  then show ?case by (simp add: p enc_field_def[of "(k, v)"])
qed

lemma sort_encoded_fields:
  "sort_by compare_keys (map (\<lambda>p. (fst p, f (snd p))) fs) =
   map (\<lambda>p. (fst p, f (snd p))) (sort_by compare_keys fs)"
  by (rule map_sort_by[symmetric]) (simp add: compare_keys_def)

lemma enc_bytes_DDocument:
  "enc_bytes (DDocument fs) = byte1 TagDocument @ be_bytes 4 (length fs) @
     concat (map enc_field (sort_by compare_keys fs))"
  by (simp add: sort_encoded_fields comp_def enc_field_def[abs_def])

lemma mapR_encodeString:
  "list_all (\<lambda>p. isWellFormed (fst p)) fs \<Longrightarrow> \<exists>ys. mapR (\<lambda>p. encodeString (fst p)) fs = Inr ys"
  by (rule mapR_total) (simp add: encodeString_def list_all_iff)

lemma writeValue_emits:
  "encodable depth v \<Longrightarrow> bw.emits (\<lambda>w. writeValue w v depth) (enc_bytes v)"
proof (induction v arbitrary: depth rule: enc_bytes.induct)
  case (9 vs)
  then have "bw.emits (\<lambda>w. writeItems w vs depth) (concat (map enc_bytes vs))"
    by (intro emits_items) (auto simp: list_all_iff)
  with "9.prems" show ?case
    by (auto simp: writeValue.simps intro!: bw.emits_seq emits_scalars)
next
  case (10 fs)
  have "bw.emits (\<lambda>w. writeFields w (sort_by compare_keys fs) depth)
      (concat (map enc_field (sort_by compare_keys fs)))"
    using "10.prems" by (intro emits_fields) (auto intro!: "10.IH" simp: list_all_iff)
  moreover obtain ys where "mapR (\<lambda>p. encodeString (fst p)) fs = Inr ys"
    using "10.prems" mapR_encodeString[of fs] by (auto simp: list_all_iff)
  ultimately show ?case
    using "10.prems" unfolding enc_bytes_DDocument
    by (auto simp: writeValue.simps intro!: bw.emits_seq emits_scalars)
qed (auto simp: writeValue.simps writeBigInt_def writeDate_def encodeString_def
      intro!: bw.emits_seq emits_scalars emits_number emits_prefixed)

lemma isErr_bindR: "(\<And>x. m = Inr x \<Longrightarrow> isErr (f x)) \<Longrightarrow> isErr (bindR m f)"
  by (cases m) simp_all

lemma isErr_bindR_first: "isErr m \<Longrightarrow> isErr (bindR m f)"
  by (cases m) simp_all

lemma writeItems_isErr:
  "v \<in> set vs \<Longrightarrow> (\<And>w. isErr (writeValue w v (Suc depth))) \<Longrightarrow> isErr (writeItems w vs depth)"
  by (induction vs arbitrary: w) (auto intro: isErr_bindR isErr_bindR_first)

lemma writeFields_isErr:
  "p \<in> set fs \<Longrightarrow> (\<And>w. isErr (writeValue w (snd p) (Suc depth))) \<Longrightarrow> isErr (writeFields w fs depth)"
proof (induction fs arbitrary: w)
  case (Cons q fs)
  show ?case
  proof (cases "p = q")
    case True
    have "isErr (bindR (writeValue w' (snd q) (Suc depth)) f)" for w' f
      using Cons.prems(2) True by (simp add: isErr_bindR_first)
    then show ?thesis by (cases q) (auto intro: isErr_bindR)
  next
    case False
    with Cons.prems(1) have "p \<in> set fs" by simp
    with Cons.IH Cons.prems(2) have "isErr (writeFields w' fs depth)" for w' by blast
    then show ?thesis by (cases q) (auto intro!: isErr_bindR)
  qed
qed simp

lemma writeValue_isErr: "\<not> encodable depth v \<Longrightarrow> isErr (writeValue w v depth)"
proof (induction v arbitrary: depth w rule: enc_bytes.induct)
  case (9 vs)
  show ?case
  proof (cases "MAX_DOCUMENT_DEPTH < depth")
    case False
    with "9.prems" obtain v where "v \<in> set vs" "\<not> encodable (Suc depth) v"
      by (auto simp: list_all_iff)
    with "9.IH" have "isErr (writeItems w vs depth)" for w by (blast intro: writeItems_isErr)
    with False show ?thesis by (auto simp: writeValue.simps intro!: isErr_bindR)
  qed (simp add: writeValue.simps)
next
  case (10 fs)
  show ?case
  proof (cases "MAX_DOCUMENT_DEPTH < depth")
    case False
    with "10.prems" obtain p where p: "p \<in> set fs" "isWellFormed (fst p) \<longrightarrow> \<not> encodable (Suc depth) (snd p)"
      by (auto simp: list_all_iff)
    have "isErr (writeFields w (sort_by compare_keys fs) depth)"
      if "mapR (\<lambda>p. encodeString (fst p)) fs = Inr ys" for w ys
    proof -
      have "isWellFormed (fst p)"
        using mapR_Inr_all[OF that p(1)] by (auto simp: encodeString_def split: if_splits)
      with p "10.IH"[of p] show ?thesis by (intro writeFields_isErr[of p]) auto
    qed
    with False show ?thesis by (auto simp: writeValue.simps intro!: isErr_bindR)
  qed (simp add: writeValue.simps)
qed (auto simp: writeValue.simps writeBigInt_def writeDate_def encodeString_def
      intro!: isErr_bindR)

text \<open>The encoder against its specification, on every input.\<close>

lemma encodeDocumentValue_Inr:
  "encodeDocumentValue v = Inr bs \<longleftrightarrow>
     encodable 0 v \<and> length (enc_bytes v) \<le> MAX_PAYLOAD_SIZE \<and> bs = enc_bytes v"
proof (cases "encodable 0 v")
  case True
  note e = writeValue_emits[OF True]
  show ?thesis
  proof (cases "length (enc_bytes v) \<le> MAX_PAYLOAD_SIZE")
    case fits: True
    with bw.emits_fits[OF e writer_inv_new] True show ?thesis
      by (auto simp: encodeDocumentValue_def)
  next
    case False
    with bw.emits_full[OF e writer_inv_new] have "isErr (writeValue new_writer v 0)" by simp
    with False show ?thesis
      by (cases "writeValue new_writer v 0") (auto simp: encodeDocumentValue_def)
  qed
next
  case False
  then have "isErr (writeValue new_writer v 0)" by (rule writeValue_isErr)
  with False show ?thesis
    by (cases "writeValue new_writer v 0") (auto simp: encodeDocumentValue_def)
qed

lemma encodeDocumentValue_isErr:
  "isErr (encodeDocumentValue v) \<longleftrightarrow>
     \<not> encodable 0 v \<or> MAX_PAYLOAD_SIZE < length (enc_bytes v)"
proof -
  have "(\<exists>bs. encodeDocumentValue v = Inr bs) \<longleftrightarrow>
      encodable 0 v \<and> length (enc_bytes v) \<le> MAX_PAYLOAD_SIZE"
    unfolding encodeDocumentValue_Inr by blast
  then show ?thesis using not_isErr[of "encodeDocumentValue v"] by (simp add: not_le) linarith
qed

section \<open>Reading back what was written\<close>

lemma readLengthPrefixedBytes_unread:
  assumes "unread r = enc_prefixed bs @ rest" and "length bs < 2 ^ 32"
  shows "readLengthPrefixedBytes r = Inr (bs, advance r (length (enc_prefixed bs)))"
proof -
  have u: "unread r = be_bytes 4 (length bs) @ bs @ rest" using assms(1) by (simp add: enc_prefixed_def)
  have "readUint32 r = Inr (length bs, advance r 4)" by (rule readUint32_unread[OF u assms(2)])
  moreover have "readBytes (advance r 4) (length bs) = Inr (bs, advance (advance r 4) (length bs))"
    by (rule readBytes_unread) (simp_all add: u)
  ultimately show ?thesis by (simp add: readLengthPrefixedBytes_def enc_prefixed_def)
qed

lemma bom_free_string_iff: "bom_free_string s \<longleftrightarrow> (\<nexists>t. s = 0xFEFF # t)"
  by (cases s) (auto simp: bom_free_string_def)

lemma readString_unread:
  assumes "unread r = enc_prefixed (text_encode s) @ rest" and "length (text_encode s) < 2 ^ 32"
    and "isWellFormed s" and "bom_free_string s"
  shows "readString r = Inr (s, advance r (length (enc_prefixed (text_encode s))))"
  using readLengthPrefixedBytes_unread[OF assms(1,2)] text_decode_encode[OF assms(3)] assms(4)
  by (simp add: readString_def bom_free_string_iff)

lemma readValue_tag:
  assumes "unread r = byte1 tag @ rest" and "tag < 256" and "depth \<le> MAX_DOCUMENT_DEPTH"
  shows "readUint8 r = Inr (tag, advance r 1)" and "unread (advance r 1) = rest"
    and "\<not> MAX_DOCUMENT_DEPTH < depth"
  using readUint8_unread[OF assms(1,2)] assms by simp_all

lemma not_nan_integer: "isInteger n \<Longrightarrow> \<not> isNaN n"
  by (simp add: isInteger_def isFinite_not_isNaN)

lemma readValue_number:
  assumes "unread r = enc_number n @ rest" and "depth \<le> MAX_DOCUMENT_DEPTH"
  shows "readValue r depth = Inr (DNumber (canonical_num n), advance r (length (enc_number n)))"
proof -
  consider (nan) "isNaN n"
    | (int32) "\<not> isNaN n" "isInteger n" "n \<noteq> neg_zero" "MIN_INT32 \<le> num_int n" "num_int n \<le> MAX_INT32"
    | (int64) "\<not> isNaN n" "\<not> (isInteger n \<and> n \<noteq> neg_zero \<and> MIN_INT32 \<le> num_int n \<and> num_int n \<le> MAX_INT32)"
        "isSafeInteger n" "n \<noteq> neg_zero"
    | (flt) "\<not> isNaN n" "\<not> (isInteger n \<and> n \<noteq> neg_zero \<and> MIN_INT32 \<le> num_int n \<and> num_int n \<le> MAX_INT32)"
        "\<not> (isSafeInteger n \<and> n \<noteq> neg_zero)"
    by blast
  then show ?thesis
  proof cases
    case nan
    then have e: "enc_number n = byte1 TagFloat64 @ be_bytes 8 (unat canonical_nan)"
      by (simp add: enc_number_def)
    have u: "unread r = byte1 TagFloat64 @ be_bytes 8 (unat canonical_nan) @ rest"
      using assms(1) e by simp
    note t = readValue_tag[OF u _ assms(2)]
    have "readFloat64 (advance r 1) = Inr (canonical_nan, advance (advance r 1) 8)"
      by (rule readFloat64_unread) (use t in \<open>simp add: tag_defs\<close>)
    with t nan show ?thesis by (simp add: readValue.simps e tag_defs canonical_num_def)
  next
    case int32
    then have e: "enc_number n = byte1 TagInt32 @ be_bytes 4 (of_signed 32 (num_int n))"
      by (simp add: enc_number_def)
    have u: "unread r = byte1 TagInt32 @ be_bytes 4 (of_signed 32 (num_int n)) @ rest"
      using assms(1) e by simp
    note t = readValue_tag[OF u _ assms(2)]
    have "readInt32 (advance r 1) = Inr (num_int n, advance (advance r 1) 4)"
      by (rule readInt32_unread) (use t int32 in \<open>simp_all add: tag_defs MIN_INT32_def MAX_INT32_def\<close>)
    with t int32 num_of_int_num_int[of n] show ?thesis
      by (simp add: readValue.simps e tag_defs canonical_num_def)
  next
    case int64
    then have e: "enc_number n = byte1 TagInt64 @ be_bytes 8 (of_signed 64 (num_int n))"
      by (auto simp: enc_number_def)
    have u: "unread r = byte1 TagInt64 @ be_bytes 8 (of_signed 64 (num_int n)) @ rest"
      using assms(1) e by simp
    note t = readValue_tag[OF u _ assms(2)]
    have b: "\<bar>num_int n\<bar> \<le> MAX_SAFE_INTEGER" "isInteger n" using int64(3) by (simp_all add: isSafeInteger_def)
    have "readBigInt64 (advance r 1) = Inr (num_int n, advance (advance r 1) 8)"
      by (rule readBigInt64_unread) (use t b in \<open>auto simp: tag_defs MAX_SAFE_INTEGER_def\<close>)
    with t int64 b num_of_int_num_int[of n] show ?thesis
      by (auto simp: readValue.simps readInt64_def e tag_defs canonical_num_def)
  next
    case flt
    then have e: "enc_number n = byte1 TagFloat64 @ be_bytes 8 (unat n)"
      by (auto simp: enc_number_def)
    have u: "unread r = byte1 TagFloat64 @ be_bytes 8 (unat n) @ rest" using assms(1) e by simp
    note t = readValue_tag[OF u _ assms(2)]
    have "readFloat64 (advance r 1) = Inr (n, advance (advance r 1) 8)"
      by (rule readFloat64_unread) (use t in \<open>simp add: tag_defs\<close>)
    with t flt show ?thesis by (simp add: readValue.simps e tag_defs canonical_num_def)
  qed
qed

lemma readItems_enc:
  assumes "\<And>v r rest. v \<in> set vs \<Longrightarrow> unread r = enc_bytes v @ rest \<Longrightarrow>
      readValue r (Suc depth) = Inr (canon v, advance r (length (enc_bytes v)))"
    and "unread r = concat (map enc_bytes vs) @ rest"
  shows "readItems r depth (length vs) = Inr (map canon vs, advance r (length (concat (map enc_bytes vs))))"
  using assms
proof (induction vs arbitrary: r)
  case (Cons v vs)
  have v: "readValue r (Suc depth) = Inr (canon v, advance r (length (enc_bytes v)))"
    using Cons.prems by (intro Cons.prems(1)) auto
  have "readItems (advance r (length (enc_bytes v))) depth (length vs) =
      Inr (map canon vs, advance (advance r (length (enc_bytes v))) (length (concat (map enc_bytes vs))))"
    using Cons.prems by (intro Cons.IH) auto
  with v show ?case by simp
qed simp

definition add_field :: "(js_string \<times> 'v) list \<Rightarrow> js_string \<times> 'v \<Rightarrow> (js_string \<times> 'v) list" where
  "add_field d p = obj_set (fst p) (snd p) d"

lemma add_field_pair: "add_field d (k, v) = obj_set k v d"
  by (simp add: add_field_def)

lemma canon_DDocument:
  "canon (DDocument fs) = DDocument (foldl add_field []
     (map (\<lambda>p. (fst p, canon (snd p))) (sort_by compare_keys fs)))"
  by (simp add: sort_encoded_fields add_field_def[abs_def])

lemma readFields_enc:
  assumes "\<And>p r rest. p \<in> set ps \<Longrightarrow> unread r = enc_bytes (snd p) @ rest \<Longrightarrow>
      readValue r (Suc depth) = Inr (canon (snd p), advance r (length (enc_bytes (snd p))))"
    and "\<And>p. p \<in> set ps \<Longrightarrow> isWellFormed (fst p) \<and> bom_free_string (fst p) \<and> length (text_encode (fst p)) < 2 ^ 32"
    and "distinct (map fst ps)" and "fst ` set ps \<inter> fst ` set d = {}"
    and "unread r = concat (map enc_field ps) @ rest"
  shows "readFields r depth (length ps) d =
    Inr (foldl add_field d (map (\<lambda>p. (fst p, canon (snd p))) ps),
         advance r (length (concat (map enc_field ps))))"
  using assms
proof (induction ps arbitrary: r d)
  case (Cons p ps)
  let ?key = "enc_prefixed (text_encode (fst p))"
  have u: "unread r = ?key @ enc_bytes (snd p) @ concat (map enc_field ps) @ rest"
    using Cons.prems(5) by (simp add: enc_field_def[of p])
  have k: "readString r = Inr (fst p, advance r (length ?key))"
    using Cons.prems(2)[of p] u by (intro readString_unread) auto
  have v: "readValue (advance r (length ?key)) (Suc depth) =
      Inr (canon (snd p), advance (advance r (length ?key)) (length (enc_bytes (snd p))))"
    using u by (intro Cons.prems(1)) auto
  have n: "\<not> hasOwn d (fst p)" using Cons.prems(4) by (auto simp: hasOwn_def)
  have "readFields (advance r (length (enc_field p))) depth (length ps) (obj_set (fst p) (canon (snd p)) d) =
    Inr (foldl add_field (obj_set (fst p) (canon (snd p)) d) (map (\<lambda>p. (fst p, canon (snd p))) ps),
         advance (advance r (length (enc_field p))) (length (concat (map enc_field ps))))"
    using Cons.prems u by (intro Cons.IH) (auto simp: enc_field_def[of p])
  with k v n show ?case by (simp add: enc_field_def[of p] add_field_pair add.assoc)
qed simp

lemma enc_bytes_nonempty: "encodable depth v \<Longrightarrow> 1 \<le> length (enc_bytes v)"
  by (cases v) (auto simp: enc_number_def)

lemma length_le_concat: "x \<in> set xs \<Longrightarrow> length (f x) \<le> length (concat (map f xs))"
  by (induction xs) auto

lemma length_concat_ge:
  "(\<And>x. x \<in> set xs \<Longrightarrow> 1 \<le> length (f x)) \<Longrightarrow> length xs \<le> length (concat (map f xs))"
  by (induction xs) (fastforce+)

lemma length_enc_prefixed [simp]: "length (enc_prefixed bs) = 4 + length bs"
  by (simp add: enc_prefixed_def)

lemma size_32: "n \<le> MAX_PAYLOAD_SIZE \<Longrightarrow> n < 2 ^ 32" "n \<le> MAX_PAYLOAD_SIZE \<Longrightarrow> n < 4294967296"
  by (simp_all add: MAX_PAYLOAD_SIZE_def)

lemma readValue_simple:
  assumes "unread r = byte1 tag @ rest" and "tag < 3" and "depth \<le> MAX_DOCUMENT_DEPTH"
  shows "readValue r depth = Inr (if tag = TagNull then DNull else DBool (tag = TagTrue), advance r 1)"
  using readValue_tag[OF assms(1) _ assms(3)] assms(2)
  by (auto simp: readValue.simps tag_defs)

lemma readValue_enc:
  assumes "encodable depth v" and "wf_value v" and "bom_free v"
    and "length (enc_bytes v) \<le> MAX_PAYLOAD_SIZE" and "unread r = enc_bytes v @ rest"
  shows "readValue r depth = Inr (canon v, advance r (length (enc_bytes v)))"
  using assms
proof (induction v arbitrary: depth r rest rule: enc_bytes.induct)
  case 1
  then show ?case using readValue_simple[of r TagNull rest depth] by (simp add: tag_defs)
next
  case (2 b)
  then show ?case
    using readValue_simple[of r "if b then TagTrue else TagFalse" rest depth] by (cases b) (simp_all add: tag_defs)
next
  case (3 n)
  then show ?case using readValue_number[of r n rest depth] by simp
next
  case (4 i)
  note t = readValue_tag[of r TagBigInt64 "be_bytes 8 (of_signed 64 i) @ rest" depth]
  have "readBigInt64 (advance r 1) = Inr (i, advance (advance r 1) 8)"
    by (rule readBigInt64_unread) (use t 4 in \<open>auto simp: tag_defs MIN_INT64_def MAX_INT64_def\<close>)
  with t 4 show ?case by (simp add: readValue.simps tag_defs)
next
  case (5 s)
  note t = readValue_tag[of r TagString "enc_prefixed (text_encode s) @ rest" depth]
  have "readString (advance r 1) = Inr (s, advance (advance r 1) (length (enc_prefixed (text_encode s))))"
    by (rule readString_unread) (use t 5 in \<open>auto simp: tag_defs intro!: size_32\<close>)
  with t 5 show ?case by (simp add: readValue.simps tag_defs)
next
  case (6 d)
  then obtain ms where d: "d = Some ms" "\<bar>ms\<bar> \<le> MAX_TIME" by auto
  note t = readValue_tag[of r TagDateTime "be_bytes 8 (of_signed 64 ms) @ rest" depth]
  have "readBigInt64 (advance r 1) = Inr (ms, advance (advance r 1) 8)"
    by (rule readBigInt64_unread) (use t 6 d in \<open>auto simp: tag_defs MAX_TIME_def\<close>)
  with t 6 d show ?case by (auto simp: readValue.simps readDate_def tag_defs)
next
  case (7 bs)
  note t = readValue_tag[of r TagBinary "enc_prefixed bs @ rest" depth]
  have "readLengthPrefixedBytes (advance r 1) = Inr (bs, advance (advance r 1) (length (enc_prefixed bs)))"
    by (rule readLengthPrefixedBytes_unread) (use t 7 in \<open>auto simp: tag_defs intro!: size_32\<close>)
  with t 7 show ?case by (simp add: readValue.simps tag_defs)
next
  case (8 bs)
  note t = readValue_tag[of r TagCustomId "bs @ rest" depth]
  have "readBytes (advance r 1) 16 = Inr (bs, advance (advance r 1) 16)"
    by (rule readBytes_unread) (use t 8 in \<open>auto simp: tag_defs\<close>)
  with t 8 show ?case by (simp add: readValue.simps tag_defs)
next
  case (9 vs)
  let ?body = "concat (map enc_bytes vs)"
  have enc: "\<And>v. v \<in> set vs \<Longrightarrow> encodable (Suc depth) v" using "9.prems"(1) by (simp add: list_all_iff)
  have len: "length ?body \<le> MAX_PAYLOAD_SIZE" using "9.prems"(4) by simp
  have n: "length vs \<le> length ?body" using enc enc_bytes_nonempty by (intro length_concat_ge) blast
  note t = readValue_tag[of r TagArray "be_bytes 4 (length vs) @ ?body @ rest" depth]
  have c: "readUint32 (advance r 1) = Inr (length vs, advance (advance r 1) 4)"
    by (rule readUint32_unread) (use t "9.prems" n len in \<open>auto simp: tag_defs intro!: size_32\<close>)
  have "readItems (advance r 5) depth (length vs) = Inr (map canon vs, advance (advance r 5) (length ?body))"
  proof (rule readItems_enc)
    fix v r' rest' assume v: "v \<in> set vs" and u: "unread r' = enc_bytes v @ rest'"
    have "length (enc_bytes v) \<le> MAX_PAYLOAD_SIZE" using length_le_concat[OF v, of enc_bytes] len by simp
    with v u "9.prems" enc show "readValue r' (Suc depth) = Inr (canon v, advance r' (length (enc_bytes v)))"
      by (intro "9.IH") (auto simp: list_all_iff)
  qed (use "9.prems" in simp)
  with t c "9.prems" show ?case by (simp add: readValue.simps tag_defs)
next
  case (10 fs)
  let ?ps = "sort_by compare_keys fs"
  let ?body = "concat (map enc_field ?ps)"
  have len: "length ?body \<le> MAX_PAYLOAD_SIZE" using "10.prems"(4) by (simp only: enc_bytes_DDocument) simp
  have n: "length ?ps \<le> length ?body" by (intro length_concat_ge) (simp add: enc_field_def)
  have u: "unread r = byte1 TagDocument @ be_bytes 4 (length fs) @ ?body @ rest"
    using "10.prems"(5) by (simp only: enc_bytes_DDocument) simp
  have d: "depth \<le> MAX_DOCUMENT_DEPTH" using "10.prems"(1) by simp
  note t = readValue_tag[OF u _ d]
  have c: "readUint32 (advance r 1) = Inr (length ?ps, advance (advance r 1) 4)"
    by (rule readUint32_unread) (use t n len in \<open>auto simp: tag_defs intro!: size_32\<close>)
  have sz: "length (enc_field p) \<le> MAX_PAYLOAD_SIZE" if "p \<in> set ?ps" for p
    using length_le_concat[OF that, of enc_field] len by simp
  have "readFields (advance r 5) depth (length ?ps) [] =
      Inr (foldl add_field [] (map (\<lambda>p. (fst p, canon (snd p))) ?ps), advance (advance r 5) (length ?body))"
  proof (rule readFields_enc)
    fix p r' rest' assume p: "p \<in> set ?ps" and u': "unread r' = enc_bytes (snd p) @ rest'"
    with "10.prems" sz[OF p]
    show "readValue r' (Suc depth) = Inr (canon (snd p), advance r' (length (enc_bytes (snd p))))"
      by (intro "10.IH"[of p]) (auto simp: list_all_iff enc_field_def)
  next
    fix p assume p: "p \<in> set ?ps"
    with "10.prems" sz[OF p]
    show "isWellFormed (fst p) \<and> bom_free_string (fst p) \<and> length (text_encode (fst p)) < 2 ^ 32"
      by (auto simp: list_all_iff enc_field_def intro!: size_32)
  next
    have "distinct (map fst fs)" using "10.prems"(2) by simp
    then show "distinct (map fst ?ps)"
      by (metis mset_map mset_sort_by mset_eq_imp_distinct_iff)
  qed (use u in simp_all)
  with t c u show ?case by (simp add: readValue.simps tag_defs canon_DDocument enc_bytes_DDocument del: canon.simps enc_bytes.simps)
next
  case 11
  then show ?case by simp
qed

lemma decode_encode_value:
  assumes "encodeDocumentValue v = Inr bs" and "wf_value v" and "bom_free v"
  shows "decodeDocumentValue bs = Inr (canon v)"
proof -
  from assms(1) have v: "encodable 0 v" "length (enc_bytes v) \<le> MAX_PAYLOAD_SIZE" "bs = enc_bytes v"
    by (simp_all add: encodeDocumentValue_Inr)
  then have "readValue (new_reader bs) 0 = Inr (canon v, advance (new_reader bs) (length bs))"
    using readValue_enc[OF v(1) assms(2,3) v(2), of "new_reader bs" "[]"] by simp
  with v show ?thesis by (simp add: decodeDocumentValue_def remaining_unread)
qed

section \<open>Canonical form\<close>

lemma compareBytes_list_less:
  "compareBytes xs ys < 0 \<longleftrightarrow> list_less xs ys"
  "compareBytes xs ys = 0 \<longleftrightarrow> xs = ys"
  "0 < compareBytes xs ys \<longleftrightarrow> list_less ys xs"
proof (atomize(full), induction xs ys rule: compareBytes.induct)
  case (1 x xs y ys)
  have "int (unat x) - int (unat y) < 0 \<longleftrightarrow> x < y" "int (unat x) - int (unat y) = 0 \<longleftrightarrow> x = y"
    by (simp_all add: word_less_def word_uint_eq_iff)
  then show ?case using "1.IH"[OF refl] by (auto simp: Let_def simp del: of_nat_unat)
qed (auto simp: neq_Nil_conv)

interpretation bytes_cmp: comparator compareBytes "\<lambda>_. True"
proof unfold_locales
  fix x y z :: bytes
  show "compareBytes x y < 0 \<longleftrightarrow> 0 < compareBytes y x" by (simp add: compareBytes_list_less)
  assume "compareBytes x y \<le> 0" "compareBytes y z \<le> 0"
  then show "compareBytes x z \<le> 0"
    by (auto simp: le_less compareBytes_list_less intro: list_less_trans)
qed

interpretation key_cmp: comparator "compare_keys :: js_string \<times> 'v \<Rightarrow> js_string \<times> 'v \<Rightarrow> int" "\<lambda>_. True"
  by unfold_locales (auto simp: compare_keys_def bytes_cmp.cmp_flip intro: bytes_cmp.cmp_trans)

lemma mset_insert_index: "mset (insert_index n kv d) = add_mset kv (mset d)"
  by (induction d) (auto split: option.splits)

lemma mset_add_field: "fst p \<notin> fst ` set d \<Longrightarrow> mset (add_field d p) = add_mset p (mset d)"
  by (cases p) (auto simp: add_field_def obj_set_def mset_insert_index split: option.splits)

lemma mset_foldl_add_field:
  "distinct (map fst ps) \<Longrightarrow> fst ` set ps \<inter> fst ` set d = {} \<Longrightarrow>
   mset (foldl add_field d ps) = mset d + mset ps"
proof (induction ps arbitrary: d)
  case (Cons p ps)
  have "fst ` set (add_field d p) = insert (fst p) (fst ` set d)" by (simp add: add_field_def)
  with Cons show ?case by (auto simp: mset_add_field)
qed simp

lemma sort_by_keys_mset:
  assumes "mset xs = mset ys" and "distinct (map fst xs)" and "\<forall>p \<in> set xs. isWellFormed (fst p)"
  shows "sort_by compare_keys xs = sort_by compare_keys ys"
proof (rule key_cmp.sort_by_mset_eq[OF assms(1)])
  fix x y assume x: "x \<in> set xs" and y: "y \<in> set xs" and c: "compare_keys x y = 0"
  then have "fst x = fst y"
    using assms(3) by (auto simp: compare_keys_def compareBytes_list_less dest: text_encode_inj)
  with x y assms(2) show "x = y" by (metis distinct_map eq_key_imp_eq_value prod.collapse)
qed simp

lemma enc_number_canonical: "enc_number (canonical_num n) = enc_number n"
  by (simp add: canonical_num_def enc_number_def)

lemma enc_bytes_canon:
  "encodable depth v \<Longrightarrow> wf_value v \<Longrightarrow> enc_bytes (canon v) = enc_bytes v"
proof (induction v arbitrary: depth rule: enc_bytes.induct)
  case (3 n)
  then show ?case by (simp add: enc_number_canonical)
next
  case (9 vs)
  have "map (\<lambda>v. enc_bytes (canon v)) vs = map enc_bytes vs"
    using 9 by (intro map_cong refl) (auto simp: list_all_iff)
  then have "concat (map enc_bytes (map canon vs)) = concat (map enc_bytes vs)"
    by (simp only: map_map comp_def)
  then show ?case by simp
next
  case (10 fs)
  let ?ps = "map (\<lambda>p. (fst p, canon (snd p))) (sort_by compare_keys fs)"
  have dist: "distinct (map fst fs)" using "10.prems" by simp
  have "mset (map fst ?ps) = mset (map fst fs)"
    by (simp add: comp_def)
  then have dps: "distinct (map fst ?ps)" using dist mset_eq_imp_distinct_iff by blast
  let ?d = "foldl add_field [] ?ps"
  have m: "mset ?d = mset ?ps" using mset_foldl_add_field[OF dps, of "[]"] by simp
  have "mset (map fst ?d) = mset (map fst ?ps)" by (simp only: mset_map m)
  then have dd: "distinct (map fst ?d)" using dps mset_eq_imp_distinct_iff by blast
  have sets: "set ?d = set ?ps" by (rule mset_eq_setD[OF m])
  have "sort_by compare_keys ?d = sort_by compare_keys ?ps"
  proof (rule sort_by_keys_mset[OF m dd])
    have "\<forall>p \<in> set ?ps. isWellFormed (fst p)" using "10.prems"(1) by (auto simp: list_all_iff)
    then show "\<forall>p \<in> set ?d. isWellFormed (fst p)" by (simp only: sets)
  qed
  also have "\<dots> = map (\<lambda>p. (fst p, canon (snd p))) (sort_by compare_keys (sort_by compare_keys fs))"
    by (simp add: sort_encoded_fields)
  also have "\<dots> = ?ps" by (simp add: key_cmp.sort_by_sorted_id key_cmp.sorted_sort_by)
  finally have "map enc_field (sort_by compare_keys ?d) = map enc_field ?ps" by simp
  also have "\<dots> = map enc_field (sort_by compare_keys fs)"
    using "10.prems" "10.IH" by (auto simp: enc_field_def list_all_iff)
  finally have "map enc_field (sort_by compare_keys ?d) = map enc_field (sort_by compare_keys fs)" .
  moreover have "length ?d = length fs" using mset_eq_length[OF m] by simp
  ultimately show ?case by (simp only: canon_DDocument enc_bytes_DDocument)
qed simp_all

text \<open>Two values have the same encoding exactly when they have the same canonical form.\<close>

lemma encode_eq_iff_canon_eq:
  assumes "encodeDocumentValue a = Inr as" "wf_value a" "bom_free a"
    and "encodeDocumentValue b = Inr bs" "wf_value b" "bom_free b"
  shows "as = bs \<longleftrightarrow> canon a = canon b"
proof
  assume "as = bs"
  with decode_encode_value[OF assms(1-3)] decode_encode_value[OF assms(4-6)] show "canon a = canon b" by simp
next
  assume "canon a = canon b"
  moreover have "as = enc_bytes (canon a)" "bs = enc_bytes (canon b)"
    using assms enc_bytes_canon[of 0 a] enc_bytes_canon[of 0 b]
    by (simp_all add: encodeDocumentValue_Inr)
  ultimately show "as = bs" by simp
qed

section \<open>Documents in canonical form\<close>

definition canon_doc :: "document \<Rightarrow> document" where
  "canon_doc d = foldl add_field [] (map (\<lambda>p. (fst p, canon (snd p))) (sort_by compare_keys d))"

lemma canon_DDocument_doc: "canon (DDocument d) = DDocument (canon_doc d)"
  by (simp only: canon_DDocument canon_doc_def)

lemma distinct_map_mset_eq: "mset a = mset b \<Longrightarrow> distinct (map f a) \<Longrightarrow> distinct (map f b)"
  using mset_eq_imp_distinct_iff[of "map f a" "map f b"] by simp

lemma map_of_mset_eq:
  assumes "mset a = mset b" and "distinct (map fst a)"
  shows "map_of a = map_of b"
proof -
  have "distinct (map fst b)" using assms by (rule distinct_map_mset_eq)
  then show ?thesis using assms(2) mset_eq_setD[OF assms(1)] by (simp add: map_of_inject_set)
qed

lemma map_of_canon_doc:
  assumes "distinct (map fst d)"
  shows "map_of (canon_doc d) k = map_option canon (map_of d k)"
proof -
  let ?c = "\<lambda>p. (fst p, canon (snd p))"
  have m: "map_of (map ?c ps) k = map_option canon (map_of ps k)" for ps
    by (induction ps) auto
  have s: "mset (map ?c (sort_by compare_keys d)) = mset (map ?c d)" by simp
  have c: "map fst (map ?c d) = map fst d" by simp
  have ds: "distinct (map fst (map ?c (sort_by compare_keys d)))"
    using assms c by (intro distinct_map_mset_eq[OF s[symmetric]]) (simp add: comp_def)
  have "mset (canon_doc d) = mset (map ?c (sort_by compare_keys d))"
    unfolding canon_doc_def using mset_foldl_add_field[OF ds, of "[]"] by simp
  then have "map_of (canon_doc d) = map_of (map ?c d)"
    using s assms map_of_mset_eq[of "map ?c d" "canon_doc d"] by (simp add: comp_def)
  then show ?thesis by (simp only: m)
qed

lemma hasOwn_canon_doc: "distinct (map fst d) \<Longrightarrow> hasOwn (canon_doc d) k = hasOwn d k"
  by (simp add: hasOwn_map_of map_of_canon_doc)

lemma encodable_mono: "encodable m v \<Longrightarrow> n \<le> m \<Longrightarrow> encodable n v"
proof (induction v arbitrary: m n rule: enc_bytes.induct)
  case (9 vs)
  then have "list_all (encodable (n + 1)) vs"
    unfolding list_all_iff by (metis (full_types) add_le_mono1 encodable.simps(1) list_all_iff)
  with 9 show ?case by simp
next
  case (10 fs)
  have "encodable (n + 1) (snd p)" if "p \<in> set fs" for p
    using "10.IH"[OF that, of "m + 1" "n + 1"] "10.prems" that by (simp add: list_all_iff)
  with "10.prems" show ?case by (simp add: list_all_iff)
qed auto

lemma set_foldl_add_field: "set (foldl add_field d ps) \<subseteq> set d \<union> set ps"
proof (induction ps arbitrary: d)
  case (Cons p ps)
  have "set (add_field d p) \<subseteq> insert p (set d)"
    using set_obj_set_subset[of "fst p" "snd p" d] by (simp add: add_field_def)
  with Cons.IH[of "add_field d p"] show ?case by auto
qed simp

lemma set_canon_doc: "set (canon_doc d) \<subseteq> (\<lambda>p. (fst p, canon (snd p))) ` set d"
  using set_foldl_add_field[of "[]" "map (\<lambda>p. (fst p, canon (snd p))) (sort_by compare_keys d)"]
  by (auto simp: canon_doc_def)

lemma encodable_canon: "encodable n v \<Longrightarrow> encodable n (canon v)"
proof (induction v arbitrary: n rule: enc_bytes.induct)
  case (10 fs)
  then show ?case using set_canon_doc[of fs]
    by (auto simp: canon_DDocument_doc list_all_iff simp del: canon.simps) fastforce+
qed (auto simp: list_all_iff)

text \<open>A value the engine can store: well typed, encodable, within the size limit.\<close>

definition storable :: "doc_value \<Rightarrow> bool" where
  "storable v \<longleftrightarrow> wf_value v \<and> encodable 0 v \<and> length (enc_bytes v) \<le> MAX_PAYLOAD_SIZE"

lemma storable_encode: "storable v \<Longrightarrow> encodeDocumentValue v = Inr (enc_bytes v)"
  by (simp add: storable_def encodeDocumentValue_Inr)

lemma storable_canon: "storable v \<Longrightarrow> encodeDocumentValue (canon v) = encodeDocumentValue v"
  using enc_bytes_canon[of 0 v] encodable_canon[of 0 v]
  by (simp add: storable_def encodeDocumentValue_Inr storable_encode)

lemma storable_element: "storable (DArray vs) \<Longrightarrow> v \<in> set vs \<Longrightarrow> storable v"
  using length_le_concat[of v vs enc_bytes] encodable_mono[of 1 v 0]
  by (auto simp: storable_def list_all_iff)

lemma length_enc_field_le: "p \<in> set fs \<Longrightarrow> length (enc_bytes (snd p)) \<le> length (enc_bytes (DDocument fs))"
proof -
  assume p: "p \<in> set fs"
  have "length (enc_field p) \<le> length (concat (map enc_field (sort_by compare_keys fs)))"
    using p by (intro length_le_concat) simp
  then show ?thesis unfolding enc_bytes_DDocument by (simp add: enc_field_def)
qed

lemma storable_field: "storable (DDocument d) \<Longrightarrow> map_of d k = Some v \<Longrightarrow> storable v"
proof -
  assume s: "storable (DDocument d)" and m: "map_of d k = Some v"
  then have kv: "(k, v) \<in> set d" by (auto dest: map_of_SomeD)
  then have "length (enc_bytes v) \<le> MAX_PAYLOAD_SIZE"
    using length_enc_field_le[OF kv] s unfolding storable_def by simp
  moreover have "wf_value v" "encodable 1 v" using s kv by (auto simp: storable_def list_all_iff)
  ultimately show ?thesis using encodable_mono[of 1 v 0] by (simp add: storable_def)
qed

section \<open>What the decoder returns can be encoded again\<close>

text \<open>\<open>consumes r r' m\<close>: the reader moved forward from \<open>r\<close> to \<open>r'\<close> by at least \<open>m\<close> bytes.\<close>

definition consumes :: "binary_reader \<Rightarrow> binary_reader \<Rightarrow> nat \<Rightarrow> bool" where
  "consumes r r' m \<longleftrightarrow> (\<exists>n. r' = advance r n \<and> n \<le> length (unread r) \<and> m \<le> n)"

lemma consumed_trans: "consumes r r1 a \<Longrightarrow> consumes r1 r2 b \<Longrightarrow> consumes r r2 (a + b)"
  by (fastforce simp: consumes_def)

lemma consumed_mono: "consumes r r' m \<Longrightarrow> k \<le> m \<Longrightarrow> consumes r r' k"
  by (auto simp: consumes_def)

lemma consumed_refl: "consumes r r 0"
  unfolding consumes_def by (rule exI[of _ 0]) simp

lemma readBytes_consumed: "readBytes r n = Inr (bs, r') \<Longrightarrow> consumes r r' n \<and> length bs = n"
  by (auto simp: readBytes_Inr consumes_def)

lemma read_ints_consumed:
  "readUint8 r = Inr (a, r') \<Longrightarrow> consumes r r' 1"
  "readUint32 r = Inr (a, r') \<Longrightarrow> consumes r r' 4"
  "readInt32 r = Inr (i, r') \<Longrightarrow> consumes r r' 4 \<and> MIN_INT32 \<le> i \<and> i \<le> MAX_INT32"
  "readBigInt64 r = Inr (i, r') \<Longrightarrow> consumes r r' 8 \<and> MIN_INT64 \<le> i \<and> i \<le> MAX_INT64"
  "readFloat64 r = Inr (x, r') \<Longrightarrow> consumes r r' 8"
proof -
  show "readUint8 r = Inr (a, r') \<Longrightarrow> consumes r r' 1"
    by (auto simp: readUint8_def dest: readBytes_consumed)
  show "readUint32 r = Inr (a, r') \<Longrightarrow> consumes r r' 4"
    by (auto simp: readUint32_def dest: readBytes_consumed)
  show "readFloat64 r = Inr (x, r') \<Longrightarrow> consumes r r' 8"
    by (auto simp: readFloat64_def dest: readBytes_consumed)
  {
    assume "readInt32 r = Inr (i, r')"
    then obtain bs where b: "readBytes r 4 = Inr (bs, r')" "i = to_signed 32 (be_nat bs)"
      by (auto simp: readInt32_def)
    with readBytes_consumed[OF b(1)] be_nat_less[of bs] to_signed_bounds[of 32 "be_nat bs"]
    show "consumes r r' 4 \<and> MIN_INT32 \<le> i \<and> i \<le> MAX_INT32"
      by (simp add: MIN_INT32_def MAX_INT32_def)
  }
  {
    assume "readBigInt64 r = Inr (i, r')"
    then obtain bs where b: "readBytes r 8 = Inr (bs, r')" "i = to_signed 64 (be_nat bs)"
      by (auto simp: readBigInt64_def)
    with readBytes_consumed[OF b(1)] be_nat_less[of bs] to_signed_bounds[of 64 "be_nat bs"]
    show "consumes r r' 8 \<and> MIN_INT64 \<le> i \<and> i \<le> MAX_INT64"
      by (simp add: MIN_INT64_def MAX_INT64_def)
  }
qed

lemma readLengthPrefixedBytes_consumed:
  "readLengthPrefixedBytes r = Inr (bs, r') \<Longrightarrow> consumes r r' (length (enc_prefixed bs))"
  by (auto simp: readLengthPrefixedBytes_def dest!: read_ints_consumed readBytes_consumed
      dest: consumed_trans)

lemma readString_consumed:
  assumes "readString r = Inr (s, r')"
  shows "isWellFormed s \<and> consumes r r' (length (enc_prefixed (text_encode s)))"
proof -
  obtain bs where "readLengthPrefixedBytes r = Inr (bs, r')" "text_decode bs = Some s"
    using assms by (auto simp: readString_def split: option.splits)
  with text_decode_sound[of bs s] readLengthPrefixedBytes_consumed[of r bs r'] show ?thesis
    by (auto elim: consumed_mono)
qed

lemma length_enc_number: "length (enc_number n) \<le> 9"
  by (simp add: enc_number_def)

lemma enc_number_int32:
  assumes "isInteger n" "n \<noteq> neg_zero" "MIN_INT32 \<le> num_int n" "num_int n \<le> MAX_INT32"
  shows "length (enc_number n) = 5"
  using assms not_nan_integer[of n] by (simp add: enc_number_def)

lemma readValue_cases:
  assumes "readValue r depth = Inr (v, r')"
  obtains (leaf) "encodable depth v" "wf_value v" "consumes r r' (length (enc_bytes v))"
  | (array) vs n r1 where "depth \<le> MAX_DOCUMENT_DEPTH" "v = DArray vs" "consumes r r1 5"
      "readItems r1 depth n = Inr (vs, r')"
  | (document) fs n r1 where "depth \<le> MAX_DOCUMENT_DEPTH" "v = DDocument fs" "consumes r r1 5"
      "readFields r1 depth n [] = Inr (fs, r')"
proof -
  from assms have d: "depth \<le> MAX_DOCUMENT_DEPTH" by (auto simp: readValue.simps split: if_splits)
  obtain tag r1 where t: "readUint8 r = Inr (tag, r1)"
    using assms by (auto simp: readValue.simps split: if_splits)
  note c = consumed_trans[OF read_ints_consumed(1)[OF t]]
  note rv = assms[unfolded readValue.simps[of r depth], simplified t d not_less[THEN iffD2, OF d], simplified]
  have c0: "consumes r r1 1" by (rule read_ints_consumed(1)[OF t])
  have int: "encodable depth (DNumber (num_of_int i))" "wf_value (DNumber (num_of_int i))"
    "length (enc_bytes (DNumber (num_of_int i))) \<le> 9"
    "MIN_INT32 \<le> i \<Longrightarrow> i \<le> MAX_INT32 \<Longrightarrow> length (enc_bytes (DNumber (num_of_int i))) = 5"
    if "\<bar>i\<bar> < 2 ^ 53" for i
    using num_of_int_exact[OF that] d length_enc_number[of "num_of_int i"]
      enc_number_int32[of "num_of_int i"] not_nan_integer[of "num_of_int i"]
    by (auto simp: wf_num_def)
  have "tag = 0 \<or> tag = 1 \<or> tag = 2 \<or> tag = 3 \<or> tag = 4 \<or> tag = 5 \<or> tag = 6 \<or> tag = 7 \<or> tag = 8
      \<or> tag = 9 \<or> tag = 0x0a \<or> tag = 0x0b \<or> tag = 0x0c \<or> 0x0c < tag" by arith
  then consider "tag = TagNull" | "tag = TagFalse" | "tag = TagTrue" | "tag = TagInt32" | "tag = TagInt64"
    | "tag = TagFloat64" | "tag = TagBigInt64" | "tag = TagString" | "tag = TagBinary"
    | "tag = TagDateTime" | "tag = TagCustomId" | "tag = TagArray" | "tag = TagDocument"
    | "0x0c < tag" unfolding tag_defs by blast
  then show thesis
  proof cases
    case 4
    with rv obtain i where i: "readInt32 r1 = Inr (i, r')" "v = DNumber (num_of_int i)" by (auto simp: tag_defs)
    note b = read_ints_consumed(3)[OF i(1)]
    then have "\<bar>i\<bar> < 2 ^ 53" by (auto simp: MIN_INT32_def MAX_INT32_def)
    with b i int[of i] c[of r' 4] show thesis by (intro leaf) auto
  next
    case 5
    with rv obtain i where i: "readBigInt64 r1 = Inr (i, r')" "v = DNumber (num_of_int i)" "\<bar>i\<bar> \<le> MAX_SAFE_INTEGER"
      by (auto simp: tag_defs readInt64_def split: if_splits)
    then have "\<bar>i\<bar> < 2 ^ 53" by (simp add: MAX_SAFE_INTEGER_def)
    with read_ints_consumed(4)[OF i(1)] i int[of i] c[of r' 8] show thesis
      by (intro leaf) (auto elim: consumed_mono)
  next
    case 6
    with rv obtain n where n: "readFloat64 r1 = Inr (n, r')" "v = DNumber (canonical_num n)" by (auto simp: tag_defs)
    with read_ints_consumed(5)[OF n(1)] c[of r' 8] d length_enc_number[of "canonical_num n"] show thesis
      by (intro leaf) (auto elim: consumed_mono)
  next
    case 7
    with rv obtain i where i: "readBigInt64 r1 = Inr (i, r')" "v = DBigInt i" by (auto simp: tag_defs)
    with read_ints_consumed(4)[OF i(1)] c[of r' 8] d show thesis by (intro leaf) auto
  next
    case 8
    with rv obtain x where x: "readString r1 = Inr (x, r')" "v = DString x" by (auto simp: tag_defs)
    with readString_consumed[OF x(1)] c[of r' "length (enc_prefixed (text_encode x))"] d show thesis
      by (intro leaf) auto
  next
    case 9
    with rv obtain x where x: "readLengthPrefixedBytes r1 = Inr (x, r')" "v = DBinary x" by (auto simp: tag_defs)
    with readLengthPrefixedBytes_consumed[OF x(1)] c[of r' "length (enc_prefixed x)"] d show thesis
      by (intro leaf) auto
  next
    case 10
    with rv obtain ms where ms: "readBigInt64 r1 = Inr (ms, r')" "v = DDate (Some ms)" "\<bar>ms\<bar> \<le> MAX_TIME"
      by (auto simp: tag_defs readDate_def split: if_splits)
    with read_ints_consumed(4)[OF ms(1)] c[of r' 8] d show thesis by (intro leaf) auto
  next
    case 11
    with rv obtain x where x: "readBytes r1 16 = Inr (x, r')" "v = DCustomId x" by (auto simp: tag_defs)
    with readBytes_consumed[OF x(1)] c[of r' 16] d show thesis by (intro leaf) auto
  next
    case 12
    with rv obtain n r2 vs where "readUint32 r1 = Inr (n, r2)" "readItems r2 depth n = Inr (vs, r')" "v = DArray vs"
      by (auto simp: tag_defs)
    with array[of vs r2 n] d c[of r2 4] read_ints_consumed(2)[of r1 n r2] show thesis by simp
  next
    case 13
    with rv obtain n r2 fs where "readUint32 r1 = Inr (n, r2)" "readFields r2 depth n [] = Inr (fs, r')" "v = DDocument fs"
      by (auto simp: tag_defs)
    with document[of fs r2 n] d c[of r2 4] read_ints_consumed(2)[of r1 n r2] show thesis by simp
  qed (use rv d c0 in \<open>auto simp: tag_defs intro!: leaf\<close>)
qed

lemma readItems_sound:
  assumes "\<And>r v r'. readValue r (Suc depth) = Inr (v, r') \<Longrightarrow>
      encodable (Suc depth) v \<and> wf_value v \<and> consumes r r' (length (enc_bytes v))"
    and "readItems r depth n = Inr (vs, r')"
  shows "list_all (encodable (Suc depth)) vs \<and> list_all wf_value vs \<and>
    consumes r r' (length (concat (map enc_bytes vs)))"
  using assms(2)
proof (induction n arbitrary: r vs)
  case 0
  then show ?case by (simp add: consumed_refl)
next
  case (Suc n)
  then obtain v r1 vs' where v: "readValue r (Suc depth) = Inr (v, r1)" "readItems r1 depth n = Inr (vs', r')"
    "vs = v # vs'" by auto
  with assms(1)[OF v(1)] Suc.IH[OF v(2)] show ?case by (auto intro: consumed_trans)
qed

lemma length_enc_DDocument:
  "length (enc_bytes (DDocument fs)) = 5 + sum_list (map (\<lambda>p. length (enc_field p)) fs)"
proof -
  have "sum_list (map (\<lambda>p. length (enc_field p)) (sort_by compare_keys fs)) =
      sum_list (map (\<lambda>p. length (enc_field p)) fs)"
    by (metis mset_map mset_sort_by sum_mset_sum_list)
  then show ?thesis by (simp only: enc_bytes_DDocument) (simp add: length_concat comp_def)
qed

lemma sum_list_obj_set:
  fixes f :: "js_string \<times> 'v \<Rightarrow> nat"
  assumes "k \<notin> fst ` set d"
  shows "sum_list (map f (obj_set k v d)) = f (k, v) + sum_list (map f d)"
proof -
  have "mset (obj_set k v d) = add_mset (k, v) (mset d)"
    using mset_add_field[of "(k, v)" d] assms by (simp add: add_field_def)
  then show ?thesis by (metis (no_types, lifting) image_mset_add_mset mset_map sum_mset.add_mset sum_mset_sum_list)
qed

lemma readFields_sound:
  assumes "\<And>r v r'. readValue r (Suc depth) = Inr (v, r') \<Longrightarrow>
      encodable (Suc depth) v \<and> wf_value v \<and> consumes r r' (length (enc_bytes v))"
    and "readFields r depth n d = Inr (fs, r')"
    and "list_all (\<lambda>p. isWellFormed (fst p) \<and> encodable (Suc depth) (snd p)) d" "wf_value (DDocument d)"
  shows "list_all (\<lambda>p. isWellFormed (fst p) \<and> encodable (Suc depth) (snd p)) fs \<and> wf_value (DDocument fs) \<and>
    (\<exists>m. consumes r r' m \<and> sum_list (map (\<lambda>p. length (enc_field p)) fs) =
       m + sum_list (map (\<lambda>p. length (enc_field p)) d))"
  using assms(2-4)
proof (induction n arbitrary: r d)
  case 0
  then show ?case using consumed_refl by auto
next
  case (Suc n)
  from Suc.prems(1) obtain k r1 v r2 where k: "readString r = Inr (k, r1)" "\<not> hasOwn d k"
    and v: "readValue r1 (Suc depth) = Inr (v, r2)" and rest: "readFields r2 depth n (obj_set k v d) = Inr (fs, r')"
    by (auto split: if_splits)
  note ks = readString_consumed[OF k(1)] and vs = assms(1)[OF v]
  have all: "list_all (\<lambda>p. isWellFormed (fst p) \<and> encodable (Suc depth) (snd p)) (obj_set k v d)"
    using Suc.prems(2) ks vs set_obj_set_subset[of k v d] by (auto simp: list_all_iff)
  have wf: "wf_value (DDocument (obj_set k v d))" using Suc.prems(3) vs wf_value_obj_set by blast
  from Suc.IH[OF rest all wf] obtain m where m: "consumes r2 r' m"
    "sum_list (map (\<lambda>p. length (enc_field p)) fs) = m + sum_list (map (\<lambda>p. length (enc_field p)) (obj_set k v d))"
    by auto
  have c: "consumes r r' (length (enc_prefixed (text_encode k)) + length (enc_bytes v) + m)"
    using ks vs m(1) by (blast intro: consumed_trans)
  have "sum_list (map (\<lambda>p. length (enc_field p)) (obj_set k v d)) =
      length (enc_field (k, v)) + sum_list (map (\<lambda>p. length (enc_field p)) d)"
    using k(2) by (intro sum_list_obj_set) (simp add: hasOwn_def)
  then have "sum_list (map (\<lambda>p. length (enc_field p)) fs) =
      (length (enc_prefixed (text_encode k)) + length (enc_bytes v) + m) + sum_list (map (\<lambda>p. length (enc_field p)) d)"
    using m(2) enc_field_def[of "(k, v)"] by simp
  with c Suc.IH[OF rest all wf] show ?case by blast
qed

lemma readValue_sound:
  "readValue r depth = Inr (v, r') \<Longrightarrow>
   encodable depth v \<and> wf_value v \<and> consumes r r' (length (enc_bytes v))"
proof (induction "Suc MAX_DOCUMENT_DEPTH - depth" arbitrary: depth r v r' rule: less_induct)
  case less
  have IH: "encodable (Suc depth) v \<and> wf_value v \<and> consumes r r' (length (enc_bytes v))"
    if "depth \<le> MAX_DOCUMENT_DEPTH" "readValue r (Suc depth) = Inr (v, r')" for r v r'
    using that less.hyps[of "Suc depth" r v r'] by simp
  from less.prems show ?case
  proof (cases rule: readValue_cases)
    case (array vs n r1)
    with readItems_sound[OF IH array(4)] have s: "list_all (encodable (Suc depth)) vs" "list_all wf_value vs"
      "consumes r1 r' (length (concat (map enc_bytes vs)))" by blast+
    then show ?thesis using array(1,2) consumed_trans[OF array(3) s(3)] by simp
  next
    case (document fs n r1)
    from readFields_sound[OF IH document(4)] document(1)
    obtain m where s: "list_all (\<lambda>p. isWellFormed (fst p) \<and> encodable (Suc depth) (snd p)) fs"
      "wf_value (DDocument fs)" "consumes r1 r' m" "sum_list (map (\<lambda>p. length (enc_field p)) fs) = m"
      by auto
    then show ?thesis using document(1,2) consumed_trans[OF document(3) s(3)]
      by (simp add: length_enc_DDocument del: enc_bytes.simps)
  qed simp
qed

text \<open>
  A decoded value is well formed and its own encoding exists and is no longer than the
  payload it came from: encoding a value of a stored document cannot throw.
\<close>

lemma decode_sound:
  assumes "decodeDocumentValue payload = Inr v"
  shows "encodeDocumentValue v = Inr (enc_bytes v)" and "wf_value v" and "length (enc_bytes v) \<le> length payload"
proof -
  obtain r where r: "readValue (new_reader payload) 0 = Inr (v, r)" "length payload \<le> MAX_PAYLOAD_SIZE"
    using assms by (auto simp: decodeDocumentValue_def split: if_splits)
  note s = readValue_sound[OF r(1)]
  then show "wf_value v" "length (enc_bytes v) \<le> length payload"
    by (auto simp: consumes_def)
  with s r(2) show "encodeDocumentValue v = Inr (enc_bytes v)" by (simp add: encodeDocumentValue_Inr)
qed

section \<open>Keys that differ only in a byte-order mark\<close>

lemma readString_bom:
  assumes "unread r = enc_prefixed (text_encode (0xFEFF # s)) @ rest"
    and "length (text_encode (0xFEFF # s)) < 2 ^ 32" and "isWellFormed s"
  shows "readString r = Inr (s, advance r (length (enc_prefixed (text_encode (0xFEFF # s)))))"
  using readLengthPrefixedBytes_unread[OF assms(1,2)] text_decode_encode_bom[OF assms(3)]
  by (simp add: readString_def)

lemma isWellFormed_bom: "isWellFormed (0xFEFF # s) = isWellFormed s"
  by (simp add: is_high_def is_low_def)

text \<open>Two fields whose keys decode to the same string: the second one is refused.\<close>

lemma readFields_duplicate:
  assumes "unread r = enc_field (k1, v1) @ enc_field (k2, v2) @ rest"
    and "encodable (Suc depth) v1" "wf_value v1" "bom_free v1" "length (enc_bytes v1) \<le> MAX_PAYLOAD_SIZE"
    and "\<And>r rest. unread r = enc_prefixed (text_encode k1) @ rest \<Longrightarrow>
       readString r = Inr (k, advance r (length (enc_prefixed (text_encode k1))))"
    and "\<And>r rest. unread r = enc_prefixed (text_encode k2) @ rest \<Longrightarrow>
       readString r = Inr (k, advance r (length (enc_prefixed (text_encode k2))))"
  shows "readFields r depth 2 [] = Inl DuplicateDocumentKey"
proof -
  let ?r1 = "advance r (length (enc_prefixed (text_encode k1)))"
  let ?r2 = "advance ?r1 (length (enc_bytes v1))"
  have 1: "readString r = Inr (k, ?r1)"
    using assms(1) by (intro assms(6)[of r "enc_bytes v1 @ enc_field (k2, v2) @ rest"]) (simp add: enc_field_def)
  have u1: "unread ?r1 = enc_bytes v1 @ enc_field (k2, v2) @ rest"
    using assms(1) by (simp add: enc_field_def)
  have 2: "readValue ?r1 (Suc depth) = Inr (canon v1, ?r2)"
    by (rule readValue_enc[OF assms(2-5) u1])
  have "unread ?r2 = enc_prefixed (text_encode k2) @ enc_bytes v2 @ rest"
    unfolding unread_advance[of ?r1] u1 by (simp add: enc_field_def)
  then have 3: "readString ?r2 = Inr (k, advance ?r2 (length (enc_prefixed (text_encode k2))))"
    by (rule assms(7))
  have o: "hasOwn (obj_set k (canon v1) []) k" by (simp add: hasOwn_def)
  show ?thesis using 1 2 3 o by (simp add: numeral_2_eq_2 hasOwn_def)
qed

lemma sort_by_pair: "sort_by c [x, y] = [x, y] \<or> sort_by c [x, y] = [y, x]"
  by simp

lemma bom_keys_collide:
  assumes "encodeDocument [(0xFEFF # k, x), (k, y)] = Inr bs" and "bom_free_string k"
    and "wf_value x" "bom_free x" "wf_value y" "bom_free y"
  shows "decodeDocument bs = Inl DuplicateDocumentKey"
proof -
  let ?fs = "[(0xFEFF # k, x), (k, y)]"
  from assms(1) have enc: "encodable 0 (DDocument ?fs)" and len: "length (enc_bytes (DDocument ?fs)) \<le> MAX_PAYLOAD_SIZE"
    and bs: "bs = enc_bytes (DDocument ?fs)"
    unfolding encodeDocument_def encodeDocumentValue_Inr by blast+
  have wf: "isWellFormed k" and ev: "encodable (Suc 0) x" "encodable (Suc 0) y" using enc by auto
  have l: "length (enc_field (0xFEFF # k, x)) + length (enc_field (k, y)) \<le> MAX_PAYLOAD_SIZE"
    using len unfolding length_enc_DDocument by simp
  then have lv: "length (enc_bytes x) \<le> MAX_PAYLOAD_SIZE" "length (enc_bytes y) \<le> MAX_PAYLOAD_SIZE"
    and lk: "length (text_encode (0xFEFF # k)) < 2 ^ 32" "length (text_encode k) < 2 ^ 32"
    by (simp_all add: enc_field_def MAX_PAYLOAD_SIZE_def)
  note rk = readString_bom[OF _ lk(1) wf] readString_unread[OF _ lk(2) wf assms(2)]
  let ?r = "advance (new_reader bs) 5"
  obtain p q where pq: "bs = byte1 TagDocument @ be_bytes 4 2 @ enc_field p @ enc_field q"
    "(p, q) = ((0xFEFF # k, x), (k, y)) \<or> (p, q) = ((k, y), (0xFEFF # k, x))"
  proof -
    have two: "be_bytes 4 (length ?fs) = be_bytes 4 2" by (simp add: numeral_2_eq_2)
    from sort_by_pair[of compare_keys "(0xFEFF # k, x)" "(k, y)"] show thesis
    proof
      assume "sort_by compare_keys ?fs = ?fs"
      then show thesis using that[of "(0xFEFF # k, x)" "(k, y)"] unfolding bs enc_bytes_DDocument two by simp
    next
      assume "sort_by compare_keys ?fs = [(k, y), (0xFEFF # k, x)]"
      then show thesis using that[of "(k, y)" "(0xFEFF # k, x)"] unfolding bs enc_bytes_DDocument two by simp
    qed
  qed
  have u: "unread ?r = enc_field p @ enc_field q @ []" unfolding pq(1) by simp
  have dup: "readFields ?r 0 2 [] = Inl DuplicateDocumentKey"
    using pq(2)
  proof
    assume "(p, q) = ((0xFEFF # k, x), (k, y))"
    with u show ?thesis
      using readFields_duplicate[of ?r "0xFEFF # k" x k y "[]" 0 k] ev(1) assms(3,4) lv(1) rk by blast
  next
    assume "(p, q) = ((k, y), (0xFEFF # k, x))"
    with u show ?thesis
      using readFields_duplicate[of ?r k y "0xFEFF # k" x "[]" 0 k] ev(2) assms(5,6) lv(2) rk by blast
  qed
  have t: "readUint8 (new_reader bs) = Inr (TagDocument, advance (new_reader bs) 1)"
    using readUint8_unread[of "new_reader bs" TagDocument] unfolding pq(1) by (simp add: tag_defs)
  have c: "readUint32 (advance (new_reader bs) 1) = Inr (2, ?r)"
    using readUint32_unread[of "advance (new_reader bs) 1" 2 "enc_field p @ enc_field q"] pq(1) by simp
  have "readValue (new_reader bs) 0 = Inl DuplicateDocumentKey"
    using t c dup by (simp add: readValue.simps tag_defs)
  then show ?thesis using len bs by (simp add: decodeDocument_def decodeDocumentValue_def)
qed

section \<open>Properties\<close>

definition sample_value :: doc_value where
  "sample_value = DDocument [(js ''tags'', DArray [DBool True, DString (js ''x'')]), (js ''_id'', DCustomId (replicate 16 7))]"

lemma sample_value_ok:
  "encodeDocumentValue sample_value = Inr (enc_bytes sample_value)" "wf_value sample_value" "bom_free sample_value"
  by (simp_all add: encodeDocumentValue_Inr sample_value_def js_def MAX_DOCUMENT_DEPTH_def MAX_PAYLOAD_SIZE_def
      bom_free_string_def is_high_def is_low_def text_encode_def utf8_bytes_def compare_keys_def of_char_def)

text \<open>C11: what the encoder accepts, the decoder reads back: every well-typed value that encodes
  and has no string starting with U+FEFF decodes to its canonical form (documents in key
  order, one \<open>NaN\<close>).\<close>

theorem document_round_trip:
  assumes "encodeDocumentValue v = Inr bs" and "wf_value v" and "bom_free v"
  shows "decodeDocumentValue bs = Inr (canon v)"
  using assms by (rule decode_encode_value)

theorem document_round_trip_witness:
  "decodeDocumentValue (enc_bytes sample_value) = Inr (canon sample_value)"
  by (rule document_round_trip[OF sample_value_ok])

text \<open>C27: the encoder against its specification on every input, error paths included: it succeeds
  exactly on the encodable values whose encoding fits the payload limit, and then the buffered
  writer holds exactly the specified bytes.\<close>

theorem encoder_specification:
  "encodeDocumentValue v = Inr bs \<longleftrightarrow>
     encodable 0 v \<and> length (enc_bytes v) \<le> MAX_PAYLOAD_SIZE \<and> bs = enc_bytes v"
  by (rule encodeDocumentValue_Inr)



text \<open>C28: the decoder only returns well-typed values that can be encoded again in at most the
  length of the payload: work on decoded documents never fails to encode a value of them.\<close>

theorem decoder_sound:
  assumes "decodeDocumentValue payload = Inr v"
  shows "wf_value v \<and> encodeDocumentValue v = Inr (enc_bytes v) \<and> length (enc_bytes v) \<le> length payload"
  using decode_sound[OF assms] by blast

theorem decoder_sound_witness:
  "wf_value (canon sample_value) \<and>
   encodeDocumentValue (canon sample_value) = Inr (enc_bytes (canon sample_value)) \<and>
   length (enc_bytes (canon sample_value)) \<le> length (enc_bytes sample_value)"
  by (rule decoder_sound[OF decode_encode_value[OF sample_value_ok]])

text \<open>C29: a document with two keys that differ only in a leading U+FEFF encodes, but its encoding
  cannot be decoded: the decoder drops the mark and then sees a duplicate key.\<close>

theorem bom_keys_undecodable:
  assumes "encodeDocument [(0xFEFF # k, x), (k, y)] = Inr bs" and "bom_free_string k"
    and "wf_value x" "bom_free x" "wf_value y" "bom_free y"
  shows "decodeDocument bs = Inl DuplicateDocumentKey"
  using assms by (rule bom_keys_collide)

theorem bom_keys_undecodable_witness:
  "\<exists>bs. encodeDocument [(0xFEFF # js ''a'', DNull), (js ''a'', DNull)] = Inr bs \<and>
     decodeDocument bs = Inl DuplicateDocumentKey"
proof -
  let ?d = "[(0xFEFF # js ''a'', DNull), (js ''a'', DNull)]"
  have e: "encodeDocument ?d = Inr (enc_bytes (DDocument ?d))"
    unfolding encodeDocument_def encodeDocumentValue_Inr length_enc_DDocument
    by (simp add: js_def is_high_def is_low_def of_char_def MAX_DOCUMENT_DEPTH_def MAX_PAYLOAD_SIZE_def enc_field_def
        text_encode_def utf8_bytes_def)
  have "decodeDocument (enc_bytes (DDocument ?d)) = Inl DuplicateDocumentKey"
    by (rule bom_keys_undecodable[OF e]) (simp_all add: bom_free_string_def js_def of_char_def)
  with e show ?thesis by blast
qed

end
