(* ===== verification/Message_Codec.thy ===== *)
theory Message_Codec
  imports Frame Document_Codec
begin

text \<open>
  \<open>packages/protocol/src/messages.ts\<close>, \<open>message-codec.ts\<close> and \<open>message-frame.ts\<close>: the shape
  every kind of message must have, and whole messages as framed documents.
\<close>

definition MAX_UINT16 :: int where "MAX_UINT16 = 0xffff"
definition MAX_UINT32 :: int where "MAX_UINT32 = 0xffffffff"

definition RoleClient :: js_string where "RoleClient = js ''client''"
definition RoleServer :: js_string where "RoleServer = js ''server''"

definition isNonEmptyString :: "doc_value option \<Rightarrow> bool" where
  "isNonEmptyString v = (case v of Some (DString s) \<Rightarrow> 0 < length s | _ \<Rightarrow> False)"

definition isUnsignedInteger :: "doc_value option \<Rightarrow> int \<Rightarrow> bool" where
  "isUnsignedInteger v maximum =
     (case v of Some (DNumber n) \<Rightarrow> isInteger n \<and> 0 \<le> num_int n \<and> num_int n \<le> maximum | _ \<Rightarrow> False)"

definition is_document :: "doc_value option \<Rightarrow> bool" where
  "is_document v = (case v of Some (DDocument _) \<Rightarrow> True | _ \<Rightarrow> False)"

definition is_zero :: "doc_value option \<Rightarrow> bool" where
  "is_zero v = (case v of Some (DNumber n) \<Rightarrow> isInteger n \<and> num_int n = 0 | _ \<Rightarrow> False)"

definition is_string :: "doc_value option \<Rightarrow> js_string \<Rightarrow> bool" where
  "is_string v s = (case v of Some (DString t) \<Rightarrow> t = s | _ \<Rightarrow> False)"

definition is_string_array :: "doc_value option \<Rightarrow> bool" where
  "is_string_array v =
     (case v of Some (DArray vs) \<Rightarrow> list_all (\<lambda>x. case x of DString _ \<Rightarrow> True | _ \<Rightarrow> False) vs
      | _ \<Rightarrow> False)"

definition is_valid_date :: "doc_value option \<Rightarrow> bool" where
  "is_valid_date v = (case v of Some (DDate (Some _)) \<Rightarrow> True | _ \<Rightarrow> False)"

definition is_boolean :: "doc_value option \<Rightarrow> bool" where
  "is_boolean v = (case v of Some (DBool _) \<Rightarrow> True | _ \<Rightarrow> False)"

text \<open>\<open>fail\<close> throws; every validator is the list of its checks in order.\<close>

definition require :: "bool \<Rightarrow> protocol_error + unit" where
  "require b = (if b then Inr () else Inl InvalidMessagePayload)"

definition validateHandshake :: "document \<Rightarrow> protocol_error + unit" where
  "validateHandshake payload =
     bindR (require (is_string (map_of payload (js ''role'')) RoleClient \<or>
                     is_string (map_of payload (js ''role'')) RoleServer)) (\<lambda>_.
     bindR (require (isUnsignedInteger (map_of payload (js ''protocolVersion'')) MAX_UINT16 \<and>
                     \<not> is_zero (map_of payload (js ''protocolVersion'')))) (\<lambda>_.
     bindR (require (isNonEmptyString (map_of payload (js ''product'')))) (\<lambda>_.
     bindR (require (isNonEmptyString (map_of payload (js ''productVersion'')))) (\<lambda>_.
       require (is_string_array (map_of payload (js ''capabilities'')))))))"

definition validatePing :: "document \<Rightarrow> protocol_error + unit" where
  "validatePing payload =
     require (is_valid_date (map_of payload (js ''sentAt'')))"

definition validateCommand :: "document \<Rightarrow> protocol_error + unit" where
  "validateCommand payload =
     bindR (require (isNonEmptyString (map_of payload (js ''command'')))) (\<lambda>_.
     bindR (require (\<not> (hasOwn payload (js ''database'') \<and>
                       \<not> isNonEmptyString (map_of payload (js ''database''))))) (\<lambda>_.
       require (is_document (map_of payload (js ''parameters'')))))"

definition validateResult :: "document \<Rightarrow> protocol_error + unit" where
  "validateResult payload = require (hasOwn payload (js ''value''))"

definition validateStreamItem :: "document \<Rightarrow> protocol_error + unit" where
  "validateStreamItem payload =
     bindR (require (isUnsignedInteger (map_of payload (js ''sequence'')) MAX_SAFE_INTEGER)) (\<lambda>_.
       require (hasOwn payload (js ''value'')))"

definition validateStreamEnd :: "document \<Rightarrow> protocol_error + unit" where
  "validateStreamEnd payload =
     require (isUnsignedInteger (map_of payload (js ''count'')) MAX_SAFE_INTEGER)"

definition validateError :: "document \<Rightarrow> protocol_error + unit" where
  "validateError payload =
     bindR (require (isUnsignedInteger (map_of payload (js ''code'')) MAX_UINT32)) (\<lambda>_.
     bindR (require (isNonEmptyString (map_of payload (js ''name'')))) (\<lambda>_.
     bindR (require (isNonEmptyString (map_of payload (js ''message'')))) (\<lambda>_.
     bindR (require (is_boolean (map_of payload (js ''retryable'')))) (\<lambda>_.
       require (\<not> (hasOwn payload (js ''details'') \<and>
                  \<not> is_document (map_of payload (js ''details''))))))))"

definition validate_kind :: "message_kind \<Rightarrow> document \<Rightarrow> protocol_error + unit" where
  "validate_kind k payload =
     (case k of
        KHandshake \<Rightarrow> validateHandshake payload
      | KPing \<Rightarrow> validatePing payload
      | KCommand \<Rightarrow> validateCommand payload
      | KResult \<Rightarrow> validateResult payload
      | KStreamItem \<Rightarrow> validateStreamItem payload
      | KStreamEnd \<Rightarrow> validateStreamEnd payload
      | KError \<Rightarrow> validateError payload)"

definition validateMessagePayload :: "js_number \<Rightarrow> doc_value \<Rightarrow> protocol_error + unit" where
  "validateMessagePayload kind payload =
     (case payload of
        DDocument d \<Rightarrow>
          (case message_kind_of kind of
             None \<Rightarrow> Inl InvalidMessageKind
           | Some k \<Rightarrow> validate_kind k d)
      | _ \<Rightarrow> Inl InvalidMessagePayload)"

definition encodeMessagePayload :: "js_number \<Rightarrow> doc_value \<Rightarrow> protocol_error + bytes" where
  "encodeMessagePayload kind payload =
     bindR (validateMessagePayload kind payload) (\<lambda>_. encodeDocumentValue payload)"

definition decodeMessagePayload :: "message_kind \<Rightarrow> bytes \<Rightarrow> protocol_error + document" where
  "decodeMessagePayload kind encoded =
     bindR (decodeDocument encoded) (\<lambda>payload.
     bindR (validateMessagePayload (num_of_int (int (kind_code kind))) (DDocument payload)) (\<lambda>_.
       Inr payload))"

record message_input =
  mi_kind :: js_number
  mi_requestId :: js_number
  mi_payload :: doc_value
  mi_flags :: "js_number option"

record decoded_message =
  dm_version :: nat
  dm_kind :: message_kind
  dm_flags :: nat
  dm_requestId :: nat
  dm_payload :: document

definition encodeMessage :: "message_input \<Rightarrow> protocol_error + bytes" where
  "encodeMessage input =
     bindR (encodeMessagePayload (mi_kind input) (mi_payload input)) (\<lambda>payload.
       encodeFrame \<lparr>fi_kind = mi_kind input, fi_requestId = mi_requestId input,
                    fi_payload = payload, fi_flags = mi_flags input\<rparr>)"

definition decodeMessage :: "bytes \<Rightarrow> protocol_error + decoded_message" where
  "decodeMessage encoded =
     bindR (decodeFrame encoded) (\<lambda>frame.
     bindR (decodeMessagePayload (fr_kind frame) (fr_payload frame)) (\<lambda>payload.
       Inr \<lparr>dm_version = fr_version frame, dm_kind = fr_kind frame, dm_flags = fr_flags frame,
            dm_requestId = fr_requestId frame, dm_payload = payload\<rparr>))"

section \<open>Round trip\<close>

text \<open>
  Validation only looks at the top-level fields and their outermost shape, both of which the
  canonical form keeps.
\<close>

lemma message_kind_of_eq: "message_kind_of v = Some k \<longleftrightarrow> v = num_of_int (int (kind_code k))"
  using validateMessageKind_eq[of v k] by (auto simp: validateMessageKind_def split: option.splits)

lemma require_Inr [simp]: "require b = Inr u \<longleftrightarrow> b"
  by (simp add: require_def)

lemma require_cases: "require b = Inr () \<or> require b = Inl InvalidMessagePayload"
  by (simp add: require_def)


lemma canon_string: "canon v = DString s \<longleftrightarrow> v = DString s"
  by (cases v) auto

lemma is_string_canon: "(case canon x of DString _ \<Rightarrow> True | _ \<Rightarrow> False) = (case x of DString _ \<Rightarrow> True | _ \<Rightarrow> False)"
  by (cases x) simp_all

lemma shapes_canon [simp]:
  "isNonEmptyString (map_option canon v) = isNonEmptyString v"
  "isUnsignedInteger (map_option canon v) m = isUnsignedInteger v m"
  "is_document (map_option canon v) = is_document v"
  "is_zero (map_option canon v) = is_zero v"
  "is_string_array (map_option canon v) = is_string_array v"
  "is_valid_date (map_option canon v) = is_valid_date v"
  "is_boolean (map_option canon v) = is_boolean v"
  "is_string (map_option canon v) s = is_string v s"
proof -
  have n: "isInteger (canonical_num n) = isInteger n" "isInteger n \<Longrightarrow> canonical_num n = n" for n
    by (auto simp: canonical_num_def isInteger_def dest: isFinite_not_isNaN)
  show "isUnsignedInteger (map_option canon v) m = isUnsignedInteger v m" "is_zero (map_option canon v) = is_zero v"
    by (auto simp: isUnsignedInteger_def is_zero_def n split: option.splits doc_value.splits)
qed (auto simp: isNonEmptyString_def is_document_def is_string_array_def is_valid_date_def is_boolean_def
      is_string_def canon_string is_string_canon list.pred_map comp_def split: option.splits doc_value.splits)

lemma validate_kind_canon:
  "distinct (map fst d) \<Longrightarrow> validate_kind k (canon_doc d) = validate_kind k d"
  by (cases k) (simp_all add: validate_kind_def validateHandshake_def validatePing_def validateCommand_def
    validateResult_def validateStreamItem_def validateStreamEnd_def validateError_def
    map_of_canon_doc hasOwn_canon_doc)

text \<open>The message a receiver gets for an input the sender accepted.\<close>

definition received :: "message_input \<Rightarrow> message_kind \<Rightarrow> document \<Rightarrow> decoded_message" where
  "received input k d =
     \<lparr>dm_version = PROTOCOL_VERSION, dm_kind = k,
      dm_flags = (case mi_flags input of None \<Rightarrow> 0 | Some f \<Rightarrow> nat (num_int f)),
      dm_requestId = nat (num_int (mi_requestId input)), dm_payload = canon_doc d\<rparr>"

lemma encodeMessage_cases:
  assumes "encodeMessage input = Inr bs"
  obtains k d p where "mi_kind input = num_of_int (int (kind_code k))" "mi_payload input = DDocument d"
    "validate_kind k d = Inr ()" "encodeDocument d = Inr p"
    "encodeFrame \<lparr>fi_kind = mi_kind input, fi_requestId = mi_requestId input, fi_payload = p,
       fi_flags = mi_flags input\<rparr> = Inr bs"
  using assms
  by (auto simp: encodeMessage_def encodeMessagePayload_def validateMessagePayload_def encodeDocument_def
      message_kind_of_eq split: doc_value.splits option.splits)

lemma decodeMessage_encodeMessage:
  assumes "encodeMessage input = Inr bs" and "wf_value (mi_payload input)" and "bom_free (mi_payload input)"
  shows "\<exists>k d. mi_kind input = num_of_int (int (kind_code k)) \<and> mi_payload input = DDocument d \<and>
    decodeMessage bs = Inr (received input k d)"
  using assms(1)
proof (cases rule: encodeMessage_cases)
  case (1 k d p)
  let ?fi = "\<lparr>fi_kind = mi_kind input, fi_requestId = mi_requestId input, fi_payload = p, fi_flags = mi_flags input\<rparr>"
  obtain k' where k': "frame_ok ?fi k'" "decodeFrame bs = Inr (frame_of_input ?fi k')"
    using decodeFrame_encodeFrame[OF 1(5)] by auto
  then have "k' = k" using 1(1) num_of_int_small_inj[of "kind_code k" "kind_code k'"]
      kind_code_bounds[of k] kind_code_bounds[of k'] by (simp add: frame_ok_def)
  have dist: "distinct (map fst d)" using assms(2) 1(2) by simp
  have "decodeDocument p = Inr (canon_doc d)"
    using decode_encode_value[of "DDocument d" p] 1(2,4) assms(2,3)
    by (simp add: decodeDocument_def encodeDocument_def canon_DDocument_doc del: canon.simps)
  moreover have "message_kind_of (num_of_int (int (kind_code k))) = Some k" by (simp add: message_kind_of_eq)
  ultimately have "decodeMessagePayload k p = Inr (canon_doc d)"
    using 1(3) dist by (simp add: decodeMessagePayload_def validateMessagePayload_def validate_kind_canon)
  moreover have "num_int (num_of_int FlagNone) = 0" using num_int_small(1)[of 0] by (simp add: FlagNone_def)
  ultimately have "decodeMessage bs = Inr (received input k d)"
    using k'(2) \<open>k' = k\<close>
    by (simp add: decodeMessage_def received_def frame_of_input_def flags_of_def split: option.splits)
  with 1 show ?thesis by blast
qed

text \<open>Every message on the wire has a length between the header and the largest frame.\<close>

lemma encodeMessage_frame_bytes:
  assumes "encodeMessage input = Inr bs"
  shows "\<exists>fr. wf_frame fr \<and> bs = frame_bytes fr"
  using encodeMessage_cases[OF assms] by (metis encodeFrame_frame_bytes wf_frame_of_input)

section \<open>Properties\<close>

lemma ping_input_ok:
  assumes "input = \<lparr>mi_kind = num_of_int 2, mi_requestId = num_of_int 9,
      mi_payload = DDocument [(js ''sentAt'', DDate (Some 5))], mi_flags = None\<rparr>"
  shows "\<exists>bs. encodeMessage input = Inr bs"
proof -
  let ?d = "DDocument [(js ''sentAt'', DDate (Some 5))]"
  have k: "message_kind_of (num_of_int 2) = Some KPing" using message_kind_of_eq[of "num_of_int 2" KPing] by simp
  have v: "validateMessagePayload (num_of_int 2) ?d = Inr ()"
    by (simp add: validateMessagePayload_def k validate_kind_def validatePing_def is_valid_date_def)
  have e: "encodeDocumentValue ?d = Inr (enc_bytes ?d)" and l: "length (enc_bytes ?d) \<le> MAX_PAYLOAD_SIZE"
    by (simp_all add: encodeDocumentValue_Inr js_def MAX_DOCUMENT_DEPTH_def MAX_PAYLOAD_SIZE_def
      is_high_def is_low_def text_encode_def utf8_bytes_def of_char_def)
  have f: "frame_ok \<lparr>fi_kind = num_of_int 2, fi_requestId = num_of_int 9, fi_payload = enc_bytes ?d, fi_flags = None\<rparr> KPing"
    unfolding frame_ok_def using l num_int_small[of 9] num_int_small[of 0]
    by (simp add: flags_of_def FlagNone_def MAX_REQUEST_ID_def del: enc_bytes.simps)
  then obtain bs where "encodeFrame \<lparr>fi_kind = num_of_int 2, fi_requestId = num_of_int 9,
      fi_payload = enc_bytes ?d, fi_flags = None\<rparr> = Inr bs"
    unfolding encodeFrame_frame_bytes by blast
  then show ?thesis using v e by (simp add: assms encodeMessage_def encodeMessagePayload_def del: enc_bytes.simps)
qed



end
