(* ===== verification/Message_Stream.thy ===== *)
theory Message_Stream
  imports Message_Codec
begin

text \<open>
  \<open>packages/protocol/src/message-stream-decoder.ts\<close>: messages out of a byte stream that
  arrives in arbitrary chunks. The locale \<open>framing\<close> is what the decoder relies on: the length
  of a frame is decided by its header. \<open>drain\<close> is the abstract decoder on the whole stream.
\<close>

section \<open>Framed byte streams\<close>

locale framing =
  fixes header :: nat
    and frame_length :: "bytes \<Rightarrow> 'e + nat"
    and decode :: "bytes \<Rightarrow> 'e + 'm"
  assumes header_pos: "0 < header"
    and frame_length_ge: "frame_length bs = Inr n \<Longrightarrow> header \<le> n"
    and frame_length_append: "header \<le> length a \<Longrightarrow> frame_length (a @ b) = frame_length a"
begin

text \<open>The error that stopped decoding, the messages before it, the bytes not consumed.\<close>

function drain :: "bytes \<Rightarrow> 'e option \<times> 'm list \<times> bytes" where
  "drain bs =
     (if length bs < header then (None, [], bs)
      else case frame_length bs of
        Inl e \<Rightarrow> (Some e, [], bs)
      | Inr n \<Rightarrow>
          if length bs < n then (None, [], bs)
          else case decode (take n bs) of
            Inl e \<Rightarrow> (Some e, [], drop n bs)
          | Inr m \<Rightarrow> (case drain (drop n bs) of (e, ms, r) \<Rightarrow> (e, m # ms, r)))"
  by pat_completeness auto
termination
proof (relation "measure length")
  fix bs n m
  assume a: "\<not> length bs < header" "frame_length bs = Inr n"
  then have "0 < n" using frame_length_ge[of bs n] header_pos by simp
  moreover have "0 < length bs" using a(1) header_pos by linarith
  ultimately show "(drop n bs, bs) \<in> measure length" by simp
qed simp

declare drain.simps [simp del]

lemma drain_append:
  "drain (a @ b) =
     (case drain a of
        (Some e, ms, r) \<Rightarrow> (Some e, ms, r @ b)
      | (None, ms, r) \<Rightarrow> (case drain (r @ b) of (e, ms', r') \<Rightarrow> (e, ms @ ms', r')))"
proof (induction a rule: drain.induct)
  case (1 a)
  show ?case
  proof (cases "length a < header")
    case True
    then show ?thesis by (simp add: drain.simps[of a])
  next
    case long: False
    then have fl: "frame_length (a @ b) = frame_length a" by (simp add: frame_length_append)
    show ?thesis
    proof (cases "frame_length a")
      case (Inl e)
      then show ?thesis using long fl by (simp add: drain.simps[of a] drain.simps[of "a @ b"])
    next
      case n: (Inr n)
      show ?thesis
      proof (cases "length a < n")
        case True
        then show ?thesis using long n by (simp add: drain.simps[of a])
      next
        case fits: False
        show ?thesis
        proof (cases "decode (take n a)")
          case (Inl e)
          then show ?thesis using long fl n fits by (simp add: drain.simps[of a] drain.simps[of "a @ b"])
        next
          case (Inr m)
          note IH = "1.IH"[OF long n fits Inr]
          show ?thesis using IH long fl n fits Inr
            by (auto simp: drain.simps[of a] drain.simps[of "a @ b"] split: prod.splits option.splits)
        qed
      qed
    qed
  qed
qed

lemma drain_nil: "drain [] = (None, [], [])"
  using header_pos by (simp add: drain.simps[of "[]"])

text \<open>A whole frame at the front is delivered.\<close>

lemma drain_frame:
  assumes "header \<le> length f" "frame_length f = Inr (length f)" "decode f = Inr m"
  shows "drain (f @ rest) = (case drain rest of (e, ms, r) \<Rightarrow> (e, m # ms, r))"
  using assms by (simp add: drain.simps[of "f @ rest"] frame_length_append)

lemma drain_frames:
  assumes "list_all2 (\<lambda>f m. header \<le> length f \<and> frame_length f = Inr (length f) \<and> decode f = Inr m) fs ms"
  shows "drain (concat fs) = (None, ms, [])"
  using assms
proof (induction rule: list_all2_induct)
  case Nil
  then show ?case by (simp add: drain_nil)
next
  case (Cons f fs m ms)
  then show ?case by (simp add: drain_frame)
qed

text \<open>Nothing that could still be decoded stays in the buffer.\<close>

lemma drain_idem: "drain a = (None, ms, r) \<Longrightarrow> drain r = (None, [], r)"
proof (induction a arbitrary: ms rule: drain.induct)
  case (1 a)
  from "1.prems" consider "length a < header" "ms = []" "r = a"
    | n where "\<not> length a < header" "frame_length a = Inr n" "length a < n" "ms = []" "r = a"
    | n m ms' where "\<not> length a < header" "frame_length a = Inr n" "\<not> length a < n" "decode (take n a) = Inr m"
        "drain (drop n a) = (None, ms', r)"
    by (auto simp: drain.simps[of a] split: if_splits sum.splits prod.splits)
  then show ?case
  proof cases
    case 3
    then show ?thesis using "1.IH" by blast
  qed (simp_all add: drain.simps[of a])
qed

end

section \<open>The decoder\<close>

record stream_decoder =
  sd_buffered :: bytes
  sd_length :: nat

definition new_stream_decoder :: stream_decoder where
  "new_stream_decoder = \<lparr>sd_buffered = [], sd_length = 0\<rparr>"

definition bufferedBytes :: "stream_decoder \<Rightarrow> nat" where
  "bufferedBytes s = sd_length s"

definition append_chunk :: "stream_decoder \<Rightarrow> bytes \<Rightarrow> stream_decoder" where
  "append_chunk s chunk =
     (let required = sd_length s + length chunk;
          buffered = (if length (sd_buffered s) < required
            then take (sd_length s) (sd_buffered s) @
                 replicate (max required (max (length (sd_buffered s) * 2) FRAME_HEADER_SIZE) - sd_length s) 0
            else sd_buffered s)
      in s\<lparr>sd_buffered := buffer_set buffered (sd_length s) chunk, sd_length := required\<rparr>)"

text \<open>
  The \<open>while\<close> loop of \<open>push\<close>: the error that left it, the messages pushed so far and the
  bytes consumed, which the \<open>finally\<close> block removes whether or not there was an error.
\<close>

function decode_loop ::
  "bytes \<Rightarrow> nat \<Rightarrow> nat \<Rightarrow> decoded_message list \<Rightarrow> protocol_error option \<times> decoded_message list \<times> nat" where
  "decode_loop buffered len consumed messages =
     (if len - consumed < FRAME_HEADER_SIZE then (None, messages, consumed)
      else case getFrameLength (take (len - consumed) (drop consumed buffered)) of
        Inl e \<Rightarrow> (Some e, messages, consumed)
      | Inr frameLength \<Rightarrow>
          if len - consumed < frameLength then (None, messages, consumed)
          else
            (let frame = take frameLength (drop consumed buffered);
                 consumed = consumed + frameLength
             in case decodeMessage frame of
                  Inl e \<Rightarrow> (Some e, messages, consumed)
                | Inr m \<Rightarrow> decode_loop buffered len consumed (messages @ [m])))"
  by pat_completeness auto
termination
proof (relation "measure (\<lambda>(_, len, consumed, _). len - consumed)")
  fix buffered :: bytes and len consumed frameLength x xa :: nat and messages frame m
  assume a: "\<not> len - consumed < FRAME_HEADER_SIZE"
    "getFrameLength (take (len - consumed) (drop consumed buffered)) = Inr frameLength"
    "xa = consumed + frameLength"
  have "16 \<le> frameLength" using getFrameLength_bounds[OF a(2)] by simp
  with a(1,3) show "((buffered, len, xa, messages @ [m]), (buffered, len, consumed, messages))
    \<in> measure (\<lambda>(_, len, consumed, _). len - consumed)" by (simp add: FRAME_HEADER_SIZE_def)
qed simp

declare decode_loop.simps [simp del]

definition push :: "stream_decoder \<Rightarrow> bytes \<Rightarrow> (protocol_error + decoded_message list) \<times> stream_decoder" where
  "push s chunk =
     (if length chunk = 0 then (Inr [], s)
      else
        (let s = append_chunk s chunk;
             (err, messages, consumed) = decode_loop (sd_buffered s) (sd_length s) 0 [];
             s' = (if 0 < consumed
                   then s\<lparr>sd_buffered := buffer_set (sd_buffered s) 0
                             (take (sd_length s - consumed) (drop consumed (sd_buffered s))),
                          sd_length := sd_length s - consumed\<rparr>
                   else s)
         in (case err of Some e \<Rightarrow> (Inl e, s') | None \<Rightarrow> (Inr messages, s'))))"

definition reset :: "stream_decoder \<Rightarrow> stream_decoder" where
  "reset s = \<lparr>sd_buffered = [], sd_length = 0\<rparr>"

fun push_all :: "stream_decoder \<Rightarrow> bytes list \<Rightarrow> (protocol_error + decoded_message list) \<times> stream_decoder" where
  "push_all s [] = (Inr [], s)"
| "push_all s (c # cs) =
     (case push s c of
        (Inl e, s') \<Rightarrow> (Inl e, s')
      | (Inr ms, s') \<Rightarrow>
          (case push_all s' cs of (Inl e, s'') \<Rightarrow> (Inl e, s'') | (Inr ms', s'') \<Rightarrow> (Inr (ms @ ms'), s'')))"

section \<open>The decoder implements \<open>drain\<close>\<close>

interpretation msgs: framing FRAME_HEADER_SIZE getFrameLength decodeMessage
  using getFrameLength_bounds getFrameLength_append
  by unfold_locales (auto simp: FRAME_HEADER_SIZE_def)

definition stream_inv :: "stream_decoder \<Rightarrow> bool" where
  "stream_inv s \<longleftrightarrow> sd_length s \<le> length (sd_buffered s)"

definition pending :: "stream_decoder \<Rightarrow> bytes" where
  "pending s = take (sd_length s) (sd_buffered s)"

lemma append_chunk_pending:
  assumes "stream_inv s"
  shows "stream_inv (append_chunk s chunk)" and "pending (append_chunk s chunk) = pending s @ chunk"
  using assms by (auto simp: append_chunk_def stream_inv_def pending_def buffer_set_def Let_def min_def)

lemma decode_loop_drain:
  assumes "len \<le> length buffered" and "consumed \<le> len"
  shows "decode_loop buffered len consumed messages =
    (case msgs.drain (take (len - consumed) (drop consumed buffered)) of
       (e, ms, r) \<Rightarrow> (e, messages @ ms, len - length r))
    \<and> (case msgs.drain (take (len - consumed) (drop consumed buffered)) of
       (e, ms, r) \<Rightarrow> length r \<le> len - consumed \<and> r = take (length r) (drop (len - length r) buffered))"
  using assms
proof (induction buffered len consumed messages rule: decode_loop.induct)
  case (1 buffered len consumed messages)
  let ?bs = "take (len - consumed) (drop consumed buffered)"
  have lbs: "length ?bs = len - consumed" using "1.prems" by simp
  note dl = decode_loop.simps[of buffered len consumed messages] and dr = msgs.drain.simps[of ?bs]
  have stay: "len - length ?bs = consumed" "?bs = take (length ?bs) (drop (len - length ?bs) buffered)"
    using "1.prems" lbs by simp_all
  show ?case
  proof (cases "len - consumed < FRAME_HEADER_SIZE")
    case True
    then show ?thesis using stay lbs "1.prems" by (simp add: dl dr)
  next
    case long: False
    show ?thesis
    proof (cases "getFrameLength ?bs")
      case (Inl e)
      then show ?thesis using long stay lbs "1.prems" by (simp add: dl dr)
    next
      case n: (Inr n)
      show ?thesis
      proof (cases "len - consumed < n")
        case True
        then show ?thesis using long n stay lbs "1.prems" by (simp add: dl dr)
      next
        case fits: False
        let ?f = "take n (drop consumed buffered)"
        have f: "take n ?bs = ?f" using fits by (simp add: min_def)
        have rest: "drop n ?bs = take (len - (consumed + n)) (drop (consumed + n) buffered)"
          using fits by (simp add: drop_take add.commute)
        show ?thesis
        proof (cases "decodeMessage ?f")
          case (Inl e)
          have "decode_loop buffered len consumed messages = (Some e, messages, consumed + n)"
            using Inl long n fits by (simp add: dl Let_def)
          moreover have "msgs.drain ?bs = (Some e, [], drop n ?bs)"
            using Inl long n fits f lbs by (simp add: dr)
          ultimately show ?thesis using rest fits "1.prems" by simp
        next
          case (Inr m)
          have c: "consumed + n \<le> len" using fits "1.prems" by simp
          note IH = "1.IH"[OF long n fits refl refl Inr "1.prems"(1) c]
          have "decode_loop buffered len consumed messages = decode_loop buffered len (consumed + n) (messages @ [m])"
            using Inr long n fits by (simp add: dl Let_def)
          moreover have "msgs.drain ?bs = (case msgs.drain (drop n ?bs) of (e, ms, r) \<Rightarrow> (e, m # ms, r))"
            using Inr long n fits f lbs by (simp add: dr)
          ultimately show ?thesis using IH rest by (auto split: prod.splits)
        qed
      qed
    qed
  qed
qed

lemma push_drain:
  assumes "stream_inv s" and "msgs.drain (pending s) = (None, [], pending s)"
    and "msgs.drain (pending s @ chunk) = (e, ms, r)"
  shows "\<exists>s'. push s chunk = ((case e of Some x \<Rightarrow> Inl x | None \<Rightarrow> Inr ms), s') \<and> stream_inv s' \<and> pending s' = r"
proof (cases "chunk = []")
  case True
  with assms show ?thesis by (auto simp: push_def)
next
  case False
  let ?t = "append_chunk s chunk"
  have t: "stream_inv ?t" "pending ?t = pending s @ chunk" using append_chunk_pending[OF assms(1)] by auto
  have p: "pending ?t = take (sd_length ?t - 0) (drop 0 (sd_buffered ?t))" by (simp add: pending_def)
  have l: "sd_length ?t \<le> length (sd_buffered ?t)" using t(1) by (simp add: stream_inv_def)
  have d: "msgs.drain (take (sd_length ?t - 0) (drop 0 (sd_buffered ?t))) = (e, ms, r)"
    using p t(2) assms(3) by simp
  from decode_loop_drain[OF l, of 0 "[]"] d
  have loop: "decode_loop (sd_buffered ?t) (sd_length ?t) 0 [] = (e, ms, sd_length ?t - length r)"
    and r: "length r \<le> sd_length ?t" "r = take (length r) (drop (sd_length ?t - length r) (sd_buffered ?t))"
    by auto
  let ?c = "sd_length ?t - length r"
  let ?s' = "if 0 < ?c then ?t\<lparr>sd_buffered := buffer_set (sd_buffered ?t) 0
       (take (sd_length ?t - ?c) (drop ?c (sd_buffered ?t))), sd_length := sd_length ?t - ?c\<rparr> else ?t"
  have "push s chunk = ((case e of Some x \<Rightarrow> Inl x | None \<Rightarrow> Inr ms), ?s')"
    using False loop by (simp add: push_def Let_def split: option.splits)
  moreover have "stream_inv ?s' \<and> pending ?s' = r"
  proof (cases "0 < ?c")
    case True
    have "sd_length ?t - ?c = length r" using r(1) by simp
    then have "take (sd_length ?t - ?c) (drop ?c (sd_buffered ?t)) = r" using r(2) by simp
    with True r(1) l show ?thesis by (simp add: stream_inv_def pending_def buffer_set_def)
  next
    case False
    then have "length r = sd_length ?t" using r(1) by simp
    with False r(2) t(1) show ?thesis by (simp add: pending_def)
  qed
  ultimately show ?thesis by blast
qed

text \<open>Between calls the buffer holds no complete frame.\<close>

definition quiet :: "stream_decoder \<Rightarrow> bool" where
  "quiet s \<longleftrightarrow> stream_inv s \<and> msgs.drain (pending s) = (None, [], pending s)"

lemma quiet_new: "quiet new_stream_decoder"
  by (simp add: quiet_def stream_inv_def new_stream_decoder_def pending_def msgs.drain_nil)

lemma pending_new [simp]: "pending new_stream_decoder = []"
  by (simp add: pending_def new_stream_decoder_def)

lemma push_quiet:
  assumes "quiet s" and "push s chunk = (Inr ms, s')"
  shows "quiet s' \<and> msgs.drain (pending s @ chunk) = (None, ms, pending s')"
proof -
  obtain e ms0 r where d: "msgs.drain (pending s @ chunk) = (e, ms0, r)" by (metis prod_cases3)
  with push_drain[of s chunk e ms0 r] assms
  have "e = None" "ms0 = ms" "stream_inv s'" "pending s' = r"
    by (auto simp: quiet_def split: option.splits)
  with d msgs.drain_idem[of "pending s @ chunk" ms r] show ?thesis by (simp add: quiet_def)
qed

text \<open>How the stream is cut into chunks does not matter.\<close>

lemma push_all_drain:
  assumes "quiet s"
  shows "case msgs.drain (pending s @ concat chunks) of
      (Some e, _, _) \<Rightarrow> \<exists>s'. push_all s chunks = (Inl e, s')
    | (None, ms, r) \<Rightarrow> \<exists>s'. push_all s chunks = (Inr ms, s') \<and> quiet s' \<and> pending s' = r"
  using assms
proof (induction chunks arbitrary: s)
  case Nil
  then show ?case by (simp add: quiet_def)
next
  case (Cons c cs)
  obtain e ms r where d: "msgs.drain (pending s @ c) = (e, ms, r)" by (metis prod_cases3)
  obtain s' where s': "push s c = ((case e of Some x \<Rightarrow> Inl x | None \<Rightarrow> Inr ms), s')" "pending s' = r"
    using push_drain[OF _ _ d] Cons.prems by (auto simp: quiet_def)
  have all: "msgs.drain (pending s @ concat (c # cs)) =
     (case (e, ms, r) of (Some e, ms, r) \<Rightarrow> (Some e, ms, r @ concat cs)
      | (None, ms, r) \<Rightarrow> (case msgs.drain (r @ concat cs) of (e, ms', r') \<Rightarrow> (e, ms @ ms', r')))"
    using msgs.drain_append[of "pending s @ c" "concat cs"] d by simp
  show ?case
  proof (cases e)
    case (Some x)
    with s'(1) all show ?thesis by simp
  next
    case None
    with s' Cons.prems have "quiet s'" using push_quiet[of s c ms s'] by simp
    from Cons.IH[OF this] s' None all show ?thesis
      by (auto split: prod.splits option.splits)
  qed
qed

lemma encodeMessage_drains:
  assumes "encodeMessage input = Inr f" and "decodeMessage f = Inr m"
  shows "FRAME_HEADER_SIZE \<le> length f \<and> getFrameLength f = Inr (length f) \<and> decodeMessage f = Inr m"
proof -
  obtain fr where "wf_frame fr" "f = frame_bytes fr" using encodeMessage_frame_bytes[OF assms(1)] by auto
  then show ?thesis using getFrameLength_frame_bytes[of fr "[]"] assms(2) by (simp add: frame_bytes_def)
qed

lemma stream_delivers:
  assumes "list_all2 (\<lambda>input f. encodeMessage input = Inr f) inputs frames"
    and "list_all2 (\<lambda>f m. decodeMessage f = Inr m) frames ms"
    and "concat chunks = concat frames"
  shows "\<exists>s'. push_all new_stream_decoder chunks = (Inr ms, s') \<and> bufferedBytes s' = 0"
proof -
  have "list_all2 (\<lambda>f m. FRAME_HEADER_SIZE \<le> length f \<and> getFrameLength f = Inr (length f) \<and> decodeMessage f = Inr m)
      frames ms"
    using assms(1,2) encodeMessage_drains
    by (fastforce simp: list_all2_conv_all_nth)
  then have "msgs.drain (concat frames) = (None, ms, [])" by (rule msgs.drain_frames)
  with push_all_drain[OF quiet_new, of chunks] assms(3)
  obtain s' where "push_all new_stream_decoder chunks = (Inr ms, s')" "quiet s'" "pending s' = []" by auto
  then show ?thesis by (auto simp: bufferedBytes_def quiet_def stream_inv_def pending_def)
qed

section \<open>Properties\<close>





end
