(* ===== verification/Storage_Effects.thy ===== *)
theory Storage_Effects
  imports Binary_IO
begin

text \<open>
  \<open>packages/storage/src/errors.ts\<close> and \<open>io-error.ts\<close>: what the storage engine throws, and the
  operations on a state that may throw. Error messages and the details they carry are left out.
\<close>

datatype storage_code =
    InvalidDocument | InvalidDocumentId | InvalidFilter | InvalidFindOptions | InvalidBatch
  | InvalidUpdate | ImmutableId | DuplicateId | Corruption | Io | DiskFull | PermissionDenied
  | Closed | Locked | DuplicateKey | InvalidIndex | IndexNotFound | IndexConflict
  | UnsupportedFormat | InvalidBackup

text \<open>
  The codes of operating system errors the sources tell apart; every other string found in the
  \<open>code\<close> of an error is \<open>EOther\<close>.
\<close>

datatype errno =
    ENOSPC | EDQUOT | EACCES | EPERM | EROFS | EISDIR | EINVAL | EEXIST | ENOENT | EOther

text \<open>
  What a storage operation may throw: a \<open>StorageError\<close>, the \<open>StorageInsertManyError\<close> with the
  index that failed and the ids inserted before it, a \<open>ProtocolError\<close> of the codec that nothing
  wrapped, a \<open>TypeError\<close>, a plain \<open>Error\<close>, a \<open>RangeError\<close> of the sources or (with an error code)
  of a \<open>Buffer\<close> method, an error of the operating system, or a \<open>CheckpointDamagedError\<close>.
\<close>

datatype failure =
    StorageError storage_code
  | StorageInsertManyError storage_code nat "bytes list"
  | ProtocolFailure protocol_error
  | TypeFailure
  | PlainFailure
  | RangeFailure
  | OutOfRange
  | OsFailure errno
  | CheckpointDamaged

definition is_storage_error :: "failure \<Rightarrow> bool" where
  "is_storage_error e =
     (case e of StorageError _ \<Rightarrow> True | StorageInsertManyError _ _ _ \<Rightarrow> True | _ \<Rightarrow> False)"

section \<open>Errors of the operating system\<close>

definition errnoOf :: "failure \<Rightarrow> errno option" where
  "errnoOf e =
     (case e of
        OsFailure c \<Rightarrow> Some c
      | StorageError _ \<Rightarrow> Some EOther
      | StorageInsertManyError _ _ _ \<Rightarrow> Some EOther
      | ProtocolFailure _ \<Rightarrow> Some EOther
      | OutOfRange \<Rightarrow> Some EOther
      | _ \<Rightarrow> None)"

definition disk_full_code :: "errno \<Rightarrow> bool" where
  "disk_full_code c \<longleftrightarrow> c \<in> {ENOSPC, EDQUOT}"

definition not_permitted_code :: "errno \<Rightarrow> bool" where
  "not_permitted_code c \<longleftrightarrow> c \<in> {EACCES, EPERM, EROFS}"

definition isDiskFull :: "failure \<Rightarrow> bool" where
  "isDiskFull e = (case errnoOf e of None \<Rightarrow> False | Some c \<Rightarrow> disk_full_code c)"

definition ioError :: "failure \<Rightarrow> bool \<Rightarrow> failure" where
  "ioError e classify =
     (case if classify then errnoOf e else None of
        None \<Rightarrow> StorageError Io
      | Some c \<Rightarrow>
          if disk_full_code c then StorageError DiskFull
          else if not_permitted_code c then StorageError PermissionDenied
          else StorageError Io)"

definition translateIo :: "failure \<Rightarrow> failure" where
  "translateIo e = (if is_storage_error e \<or> errnoOf e = None then e else ioError e True)"

section \<open>Operations on a state that may throw\<close>

type_synonym ('s, 'a) operation = "'s \<Rightarrow> (failure + 'a) \<times> 's"

definition returnS :: "'a \<Rightarrow> ('s, 'a) operation" where
  "returnS x s = (Inr x, s)"

definition throwS :: "failure \<Rightarrow> ('s, 'a) operation" where
  "throwS e s = (Inl e, s)"

definition fromR :: "failure + 'a \<Rightarrow> ('s, 'a) operation" where
  "fromR r s = (r, s)"

definition getsS :: "('s \<Rightarrow> failure + 'a) \<Rightarrow> ('s, 'a) operation" where
  "getsS f s = (f s, s)"

definition modifyS :: "('s \<Rightarrow> 's) \<Rightarrow> ('s, unit) operation" where
  "modifyS f s = (Inr (), f s)"

definition bindS :: "('s, 'a) operation \<Rightarrow> ('a \<Rightarrow> ('s, 'b) operation) \<Rightarrow> ('s, 'b) operation" where
  "bindS m f s = (case m s of (Inl e, s') \<Rightarrow> (Inl e, s') | (Inr x, s') \<Rightarrow> f x s')"

definition catchS :: "('s, 'a) operation \<Rightarrow> (failure \<Rightarrow> ('s, 'a) operation) \<Rightarrow> ('s, 'a) operation" where
  "catchS m h s = (case m s of (Inl e, s') \<Rightarrow> h e s' | (Inr x, s') \<Rightarrow> (Inr x, s'))"

lemmas operation_defs = returnS_def throwS_def fromR_def getsS_def modifyS_def bindS_def catchS_def

end
