(* ===== verification/Query_Filter.thy ===== *)
theory Query_Filter
  imports Document_Codec Storage_Effects
begin

text \<open>
  \<open>packages/storage/src/filter.ts\<close>. A compiled filter is a function on
  documents, as in the source. Filters run on decoded documents, every value of which can be
  encoded, so \<open>canonicalEquals\<close> is a plain test. Error messages are not modelled.
\<close>

definition invalidFilter :: "failure + 'a" where
  "invalidFilter = Inl (StorageError InvalidFilter)"

type_synonym resolved_field = "doc_value option"
type_synonym field_predicate = "resolved_field \<Rightarrow> bool"
type_synonym compiled_filter = "document \<Rightarrow> bool"

record compiled_field =
  cf_segments :: "js_string list"
  cf_predicates :: "field_predicate list"

section \<open>Paths and comparison\<close>

fun resolveField :: "document \<Rightarrow> js_string list \<Rightarrow> resolved_field" where
  "resolveField d [] = None"
| "resolveField d [segment] = map_of d segment"
| "resolveField d (segment # segments) =
     (case map_of d segment of Some (DDocument d') \<Rightarrow> resolveField d' segments | _ \<Rightarrow> None)"

definition canonicalEquals :: "doc_value \<Rightarrow> bytes \<Rightarrow> bool" where
  "canonicalEquals actual encodedExpected \<longleftrightarrow> encodeDocumentValue actual = Inr encodedExpected"

definition isComparableValue :: "doc_value \<Rightarrow> bool" where
  "isComparableValue v =
     (case v of DString _ \<Rightarrow> True | DBigInt _ \<Rightarrow> True | DNumber n \<Rightarrow> isFinite n
      | DDate t \<Rightarrow> t \<noteq> None | DBinary _ \<Rightarrow> True | DCustomId _ \<Rightarrow> True | _ \<Rightarrow> False)"

definition compare_by :: "('a \<Rightarrow> 'a \<Rightarrow> bool) \<Rightarrow> 'a \<Rightarrow> 'a \<Rightarrow> int" where
  "compare_by lt left right = (if lt left right then - 1 else if lt right left then 1 else 0)"

text \<open>The loop of \<open>compareBytes\<close> compares byte by byte and then the lengths.\<close>

fun compare_bytes :: "bytes \<Rightarrow> bytes \<Rightarrow> int" where
  "compare_bytes (x # xs) (y # ys) = (if x < y then - 1 else if y < x then 1 else compare_bytes xs ys)"
| "compare_bytes xs ys = compare_by (<) (length xs) (length ys)"

definition compareValues :: "doc_value \<Rightarrow> doc_value \<Rightarrow> int option" where
  "compareValues actual expected =
     (case expected of
        DString e \<Rightarrow> (case actual of DString a \<Rightarrow> Some (compare_by list_less a e) | _ \<Rightarrow> None)
      | DNumber e \<Rightarrow> (case actual of
            DNumber a \<Rightarrow> if \<not> isFinite a \<or> \<not> isFinite e then None else Some (compare_by num_less a e)
          | _ \<Rightarrow> None)
      | DBigInt e \<Rightarrow> (case actual of DBigInt a \<Rightarrow> Some (compare_by (<) a e) | _ \<Rightarrow> None)
      | DDate e \<Rightarrow> (case actual of
            DDate a \<Rightarrow> (case (a, e) of (Some x, Some y) \<Rightarrow> Some (compare_by (<) x y) | _ \<Rightarrow> None)
          | _ \<Rightarrow> None)
      | DBinary e \<Rightarrow> (case actual of DBinary a \<Rightarrow> Some (compare_bytes a e) | _ \<Rightarrow> None)
      | DCustomId e \<Rightarrow> (case actual of DCustomId a \<Rightarrow> Some (compare_bytes a e) | _ \<Rightarrow> None)
      | _ \<Rightarrow> None)"

definition isOperatorDocument :: "doc_value \<Rightarrow> bool" where
  "isOperatorDocument v =
     (case v of DDocument d \<Rightarrow> list_ex (\<lambda>p. starts_dollar (fst p)) d | _ \<Rightarrow> False)"

section \<open>Predicates of one field\<close>

definition compileEqualityPredicate :: "doc_value \<Rightarrow> failure + field_predicate" where
  "compileEqualityPredicate expected =
     bindR (mapErr ProtocolFailure (encodeDocumentValue expected)) (\<lambda>encodedExpected.
       Inr (\<lambda>field. case field of None \<Rightarrow> False | Some v \<Rightarrow> canonicalEquals v encodedExpected))"

definition compileInequalityPredicate :: "doc_value \<Rightarrow> failure + field_predicate" where
  "compileInequalityPredicate expected =
     bindR (mapErr ProtocolFailure (encodeDocumentValue expected)) (\<lambda>encodedExpected.
       Inr (\<lambda>field. case field of None \<Rightarrow> True | Some v \<Rightarrow> \<not> canonicalEquals v encodedExpected))"

definition holds_comparison :: "js_string \<Rightarrow> int \<Rightarrow> bool" where
  "holds_comparison operator comparison =
     (if operator = js ''$gt'' then comparison > 0
      else if operator = js ''$gte'' then comparison \<ge> 0
      else if operator = js ''$lt'' then comparison < 0
      else comparison \<le> 0)"

definition compileComparisonPredicate :: "js_string \<Rightarrow> doc_value \<Rightarrow> failure + field_predicate" where
  "compileComparisonPredicate operator expected =
     (if \<not> isComparableValue expected then invalidFilter
      else Inr (\<lambda>field. case field of None \<Rightarrow> False
        | Some v \<Rightarrow> (case compareValues v expected of None \<Rightarrow> False | Some c \<Rightarrow> holds_comparison operator c)))"

definition compileMembershipPredicate :: "doc_value \<Rightarrow> bool \<Rightarrow> failure + field_predicate" where
  "compileMembershipPredicate operand negate =
     (case operand of
        DArray vs \<Rightarrow>
          bindR (mapErr ProtocolFailure (mapR encodeDocumentValue vs)) (\<lambda>encodedCandidates.
            Inr (\<lambda>field. case field of None \<Rightarrow> negate
              | Some v \<Rightarrow>
                  (let directMatch = list_ex (canonicalEquals v) encodedCandidates;
                       elementMatch = (case v of
                           DArray elements \<Rightarrow>
                             list_ex (\<lambda>element. list_ex (canonicalEquals element) encodedCandidates) elements
                         | _ \<Rightarrow> False);
                       matched = directMatch \<or> elementMatch
                   in if negate then \<not> matched else matched)))
      | _ \<Rightarrow> invalidFilter)"

definition compileExistsPredicate :: "doc_value \<Rightarrow> failure + field_predicate" where
  "compileExistsPredicate operand =
     (case operand of DBool b \<Rightarrow> Inr (\<lambda>field. (field \<noteq> None) = b) | _ \<Rightarrow> invalidFilter)"

definition mixes_literals :: "document \<Rightarrow> bool" where
  "mixes_literals operators = list_ex (\<lambda>p. \<not> starts_dollar (fst p)) operators"

text \<open>
  \<open>compileOperatorDocument\<close> refuses literal fields and then maps over the operators;
  \<open>$not\<close> (\<open>compileNotPredicate\<close>) calls it again.
\<close>

fun compile_operators :: "document \<Rightarrow> failure + field_predicate list"
  and compile_operator :: "js_string \<Rightarrow> doc_value \<Rightarrow> failure + field_predicate"
where
  "compile_operators [] = Inr []"
| "compile_operators ((name, operand) # rest) =
     bindR (compile_operator name operand) (\<lambda>p.
     bindR (compile_operators rest) (\<lambda>ps. Inr (p # ps)))"
| "compile_operator name operand =
     (if name = js ''$eq'' then compileEqualityPredicate operand
      else if name = js ''$ne'' then compileInequalityPredicate operand
      else if name = js ''$gt'' \<or> name = js ''$gte'' \<or> name = js ''$lt'' \<or> name = js ''$lte''
      then compileComparisonPredicate name operand
      else if name = js ''$in'' then compileMembershipPredicate operand False
      else if name = js ''$nin'' then compileMembershipPredicate operand True
      else if name = js ''$exists'' then compileExistsPredicate operand
      else if name = js ''$not'' then
        (case operand of
           DDocument operators \<Rightarrow>
             if \<not> isOperatorDocument (DDocument operators) then invalidFilter
             else if mixes_literals operators then invalidFilter
             else bindR (compile_operators operators) (\<lambda>predicates.
               Inr (\<lambda>field. \<not> list_all (\<lambda>predicate. predicate field) predicates))
         | _ \<Rightarrow> invalidFilter)
      else invalidFilter)"

definition compileOperatorDocument :: "document \<Rightarrow> failure + field_predicate list" where
  "compileOperatorDocument operators =
     (if mixes_literals operators then invalidFilter else compile_operators operators)"

definition compileFieldPath :: "js_string \<Rightarrow> failure + js_string list" where
  "compileFieldPath path =
     (if path = [] then invalidFilter
      else
        (let segments = split_path path in
         if list_ex (\<lambda>segment. segment = [] \<or> starts_dollar segment) segments then invalidFilter
         else Inr segments))"

definition compileField :: "js_string \<Rightarrow> doc_value \<Rightarrow> failure + compiled_field" where
  "compileField path v =
     bindR (compileFieldPath path) (\<lambda>segments.
     bindR (case v of
         DDocument operators \<Rightarrow>
           if isOperatorDocument v then compileOperatorDocument operators
           else bindR (compileEqualityPredicate v) (\<lambda>p. Inr [p])
       | _ \<Rightarrow> bindR (compileEqualityPredicate v) (\<lambda>p. Inr [p])) (\<lambda>predicates.
       Inr \<lparr>cf_segments = segments, cf_predicates = predicates\<rparr>))"

section \<open>Whole filters\<close>

definition matchesCompiledFilter :: "document \<Rightarrow> compiled_field list \<Rightarrow> bool" where
  "matchesCompiledFilter d cfields =
     list_all (\<lambda>field. list_all (\<lambda>predicate. predicate (resolveField d (cf_segments field)))
                 (cf_predicates field)) cfields"

definition clauses_filter :: "compiled_field list \<times> compiled_filter list \<Rightarrow> compiled_filter" where
  "clauses_filter c = (\<lambda>d. matchesCompiledFilter d (fst c) \<and> list_all (\<lambda>matches. matches d) (snd c))"

definition combine_clauses :: "js_string \<Rightarrow> compiled_filter list \<Rightarrow> compiled_filter" where
  "combine_clauses name clauses =
     (if name = js ''$and'' then (\<lambda>d. list_all (\<lambda>matches. matches d) clauses)
      else if name = js ''$or'' then (\<lambda>d. list_ex (\<lambda>matches. matches d) clauses)
      else (\<lambda>d. \<not> list_ex (\<lambda>matches. matches d) clauses))"

text \<open>
  \<open>compile_entries\<close> is the loop of \<open>compileClauses\<close> over the keys of one filter document,
  \<open>compile_clauses\<close> the \<open>operand.map\<close> of \<open>compileLogicalOperator\<close>.
\<close>

fun compile_entries :: "document \<Rightarrow> failure + compiled_field list \<times> compiled_filter list"
  and compileLogicalOperator :: "js_string \<Rightarrow> doc_value \<Rightarrow> failure + compiled_filter"
  and compile_clauses :: "doc_value list \<Rightarrow> failure + compiled_filter list"
where
  "compile_entries [] = Inr ([], [])"
| "compile_entries ((key, v) # rest) =
     (if starts_dollar key then
        bindR (compileLogicalOperator key v) (\<lambda>l.
        bindR (compile_entries rest) (\<lambda>(cfields, logical). Inr (cfields, l # logical)))
      else
        bindR (compileField key v) (\<lambda>f.
        bindR (compile_entries rest) (\<lambda>(cfields, logical). Inr (f # cfields, logical))))"
| "compileLogicalOperator name operand =
     (if name \<noteq> js ''$and'' \<and> name \<noteq> js ''$or'' \<and> name \<noteq> js ''$nor'' then invalidFilter
      else case operand of
        DArray vs \<Rightarrow>
          if vs = [] \<or> \<not> list_all isPlainDocument vs then invalidFilter
          else bindR (compile_clauses vs) (\<lambda>clauses. Inr (combine_clauses name clauses))
      | _ \<Rightarrow> invalidFilter)"
| "compile_clauses [] = Inr []"
| "compile_clauses (v # vs) =
     (case v of
        DDocument d \<Rightarrow>
          bindR (compile_entries d) (\<lambda>c.
          bindR (compile_clauses vs) (\<lambda>cs. Inr (clauses_filter c # cs)))
      | _ \<Rightarrow> invalidFilter)"

definition compileClauses :: "document \<Rightarrow> failure + compiled_filter" where
  "compileClauses filter_doc = bindR (compile_entries filter_doc) (\<lambda>c. Inr (clauses_filter c))"

text \<open>A \<open>ProtocolError\<close> thrown while compiling is wrapped.\<close>

definition compileFilter :: "doc_value \<Rightarrow> failure + compiled_filter" where
  "compileFilter filter_value =
     (case filter_value of
        DDocument filter_doc \<Rightarrow>
          mapErr (\<lambda>e. if is_storage_error e then e else StorageError InvalidFilter)
            (bindR (mapErr ProtocolFailure (encodeDocument filter_doc)) (\<lambda>_. compileClauses filter_doc))
      | _ \<Rightarrow> invalidFilter)"

section \<open>Matching does not depend on the form a document has in memory\<close>

lemma resolveField_canon:
  "wf_value (DDocument d) \<Longrightarrow> resolveField (canon_doc d) segments = map_option canon (resolveField d segments)"
proof (induction d segments rule: resolveField.induct)
  case (3 d s s' ss)
  then have m: "map_of (canon_doc d) s = map_option canon (map_of d s)" by (simp add: map_of_canon_doc)
  show ?case
  proof (cases "map_of d s")
    case (Some v)
    then have "wf_value v" using "3.prems" wf_value_DDocument_get by blast
    with Some m "3.IH" show ?thesis by (cases v) (simp_all add: canon_DDocument_doc del: canon.simps(3))
  qed (simp add: m)
qed (simp_all add: map_of_canon_doc)

lemma resolveField_storable:
  "storable (DDocument d) \<Longrightarrow> resolveField d segments = Some v \<Longrightarrow> storable v"
proof (induction d segments rule: resolveField.induct)
  case (3 d s s' ss)
  then show ?case by (auto split: option.splits doc_value.splits dest: storable_field)
qed (auto dest: storable_field)

lemma canonicalEquals_canon: "storable v \<Longrightarrow> canonicalEquals (canon v) e = canonicalEquals v e"
  by (simp add: canonicalEquals_def storable_canon)

lemma compareValues_canon: "compareValues (canon v) e = compareValues v e"
  by (cases v; cases e) (auto simp: compareValues_def canonical_num_def dest: isFinite_not_isNaN)

text \<open>A predicate that gives the same answer before and after a value is stored.\<close>

definition stable_predicate :: "field_predicate \<Rightarrow> bool" where
  "stable_predicate p \<longleftrightarrow> (\<forall>f. (\<forall>v. f = Some v \<longrightarrow> storable v) \<longrightarrow> p (map_option canon f) = p f)"

lemma stable_predicateI:
  assumes "p None = p None" and "\<And>v. storable v \<Longrightarrow> p (Some (canon v)) = p (Some v)"
  shows "stable_predicate p"
  unfolding stable_predicate_def
proof (intro allI impI)
  fix f assume "\<forall>v. f = Some v \<longrightarrow> storable v"
  then show "p (map_option canon f) = p f" using assms(2) by (cases f) simp_all
qed

lemma stable_equality: "compileEqualityPredicate e = Inr p \<Longrightarrow> stable_predicate p"
  by (rule stable_predicateI) (auto simp: compileEqualityPredicate_def canonicalEquals_canon)

lemma stable_inequality: "compileInequalityPredicate e = Inr p \<Longrightarrow> stable_predicate p"
  by (rule stable_predicateI) (auto simp: compileInequalityPredicate_def canonicalEquals_canon)

lemma stable_comparison: "compileComparisonPredicate op e = Inr p \<Longrightarrow> stable_predicate p"
  by (rule stable_predicateI)
     (auto simp: compileComparisonPredicate_def invalidFilter_def compareValues_canon split: if_splits)

lemma stable_exists: "compileExistsPredicate e = Inr p \<Longrightarrow> stable_predicate p"
  by (rule stable_predicateI)
     (auto simp: compileExistsPredicate_def invalidFilter_def split: doc_value.splits)

definition member_matches :: "bytes list \<Rightarrow> doc_value \<Rightarrow> bool" where
  "member_matches candidates v \<longleftrightarrow> list_ex (canonicalEquals v) candidates \<or>
     (case v of DArray elements \<Rightarrow> list_ex (\<lambda>element. list_ex (canonicalEquals element) candidates) elements
      | _ \<Rightarrow> False)"

lemma compileMembershipPredicate_Inr:
  "compileMembershipPredicate operand negate = Inr p \<longleftrightarrow>
     (\<exists>vs cs. operand = DArray vs \<and> mapR encodeDocumentValue vs = Inr cs \<and>
       p = (\<lambda>field. case field of None \<Rightarrow> negate | Some v \<Rightarrow> member_matches cs v \<noteq> negate))"
  by (cases operand)
     (auto simp: compileMembershipPredicate_def invalidFilter_def member_matches_def Let_def fun_eq_iff
       split: option.splits)

lemma compileMembershipPredicate_negate:
  "compileMembershipPredicate v True = bindR (compileMembershipPredicate v False) (\<lambda>p. Inr (\<lambda>f. \<not> p f))"
proof (cases v)
  case (DArray vs)
  then show ?thesis
    by (cases "mapErr ProtocolFailure (mapR encodeDocumentValue vs)")
       (auto simp: compileMembershipPredicate_def Let_def fun_eq_iff split: option.split)
qed (simp_all add: compileMembershipPredicate_def invalidFilter_def)

lemma list_ex_cong_set: "(\<And>x. x \<in> set xs \<Longrightarrow> f x = g x) \<Longrightarrow> list_ex f xs = list_ex g xs"
  by (auto simp: list_ex_iff)

lemma member_matches_canon: "storable v \<Longrightarrow> member_matches cs (canon v) = member_matches cs v"
proof -
  assume s: "storable v"
  have "list_ex (canonicalEquals (canon v)) cs = list_ex (canonicalEquals v) cs"
    by (rule list_ex_cong_set) (simp add: canonicalEquals_canon[OF s])
  moreover have "list_ex (\<lambda>x. list_ex (canonicalEquals x) cs) (map canon vs) =
      list_ex (\<lambda>x. list_ex (canonicalEquals x) cs) vs" if "v = DArray vs" for vs
    using storable_element[of vs] s that
    by (auto simp: list_ex_iff canonicalEquals_canon)
  ultimately show ?thesis by (cases v) (simp_all add: member_matches_def)
qed

lemma stable_membership: "compileMembershipPredicate e negate = Inr p \<Longrightarrow> stable_predicate p"
  by (rule stable_predicateI) (auto simp: compileMembershipPredicate_Inr member_matches_canon)

lemma stable_not:
  assumes "list_all stable_predicate ps"
  shows "stable_predicate (\<lambda>f. \<not> list_all (\<lambda>p. p f) ps)"
  unfolding stable_predicate_def
proof (intro allI impI)
  fix f assume f: "\<forall>v. f = Some v \<longrightarrow> storable v"
  have "p (map_option canon f) = p f" if "p \<in> set ps" for p
    using assms that f by (simp add: list_all_iff stable_predicate_def)
  then have "list_all (\<lambda>p. p (map_option canon f)) ps = list_all (\<lambda>p. p f) ps"
    by (intro list_all_cong) simp_all
  then show "(\<not> list_all (\<lambda>p. p (map_option canon f)) ps) = (\<not> list_all (\<lambda>p. p f) ps)" by simp
qed

lemma stable_operators:
  "compile_operators ops = Inr ps \<Longrightarrow> list_all stable_predicate ps"
  "compile_operator name operand = Inr p \<Longrightarrow> stable_predicate p"
proof (induction ops and name operand arbitrary: ps and p rule: compile_operators_compile_operator.induct)
  case (3 name operand)
  then show ?case
    by (auto simp: invalidFilter_def split: if_splits doc_value.splits
        intro: stable_equality stable_inequality stable_comparison stable_membership stable_exists stable_not)
qed auto

lemma stable_field:
  assumes "compileField path v = Inr f"
  shows "list_all stable_predicate (cf_predicates f)"
  using assms
  by (auto simp: compileField_def compileOperatorDocument_def invalidFilter_def
      split: doc_value.splits if_splits intro: stable_equality stable_operators(1))

definition stable_filter :: "compiled_filter \<Rightarrow> bool" where
  "stable_filter m \<longleftrightarrow> (\<forall>d. storable (DDocument d) \<longrightarrow> m (canon_doc d) = m d)"

lemma stable_clauses_filter:
  assumes "list_all (\<lambda>f. list_all stable_predicate (cf_predicates f)) fs" and "list_all stable_filter ls"
  shows "stable_filter (clauses_filter (fs, ls))"
  unfolding stable_filter_def
proof (intro allI impI)
  fix d assume d: "storable (DDocument d)"
  have "p (resolveField (canon_doc d) segments) = p (resolveField d segments)"
    if "stable_predicate p" for p segments
    using that d resolveField_storable[OF d, of segments] resolveField_canon[of d segments]
    unfolding stable_predicate_def storable_def by metis
  then have "matchesCompiledFilter (canon_doc d) fs = matchesCompiledFilter d fs"
    using assms(1) unfolding matchesCompiledFilter_def
    by (intro list_all_cong refl) (simp add: list_all_iff)
  moreover have "list_all (\<lambda>m. m (canon_doc d)) ls = list_all (\<lambda>m. m d) ls"
    using assms(2) d by (intro list_all_cong refl) (simp add: list_all_iff stable_filter_def)
  ultimately show "clauses_filter (fs, ls) (canon_doc d) = clauses_filter (fs, ls) d"
    by (simp add: clauses_filter_def)
qed

lemma stable_combine:
  assumes "list_all stable_filter cs"
  shows "stable_filter (combine_clauses name cs)"
  unfolding stable_filter_def
proof (intro allI impI)
  fix d assume "storable (DDocument d)"
  then have eq: "m (canon_doc d) = m d" if "m \<in> set cs" for m
    using assms that by (simp add: list_all_iff stable_filter_def)
  then have "list_all (\<lambda>m. m (canon_doc d)) cs = list_all (\<lambda>m. m d) cs"
    by (intro list_all_cong refl)
  moreover from eq have "list_ex (\<lambda>m. m (canon_doc d)) cs = list_ex (\<lambda>m. m d) cs"
    by (intro list_ex_cong_set)
  ultimately show "combine_clauses name cs (canon_doc d) = combine_clauses name cs d"
    by (simp add: combine_clauses_def)
qed

lemma stable_entries:
  "compile_entries f = Inr c \<Longrightarrow>
    list_all (\<lambda>f. list_all stable_predicate (cf_predicates f)) (fst c) \<and> list_all stable_filter (snd c)"
  "compileLogicalOperator name operand = Inr l \<Longrightarrow> stable_filter l"
  "compile_clauses vs = Inr cs \<Longrightarrow> list_all stable_filter cs"
proof (induction f and name operand and vs arbitrary: c and l and cs
    rule: compile_entries_compileLogicalOperator_compile_clauses.induct)
  case (2 key v rest)
  then show ?case by (auto split: if_splits dest: stable_field)
next
  case (3 name operand)
  then show ?case by (auto simp: invalidFilter_def split: if_splits doc_value.splits intro: stable_combine)
next
  case (5 v vs)
  then show ?case
    by (auto simp: invalidFilter_def split: doc_value.splits intro!: stable_clauses_filter)
qed auto

lemma compileFilter_Inr:
  "compileFilter v = Inr m \<longleftrightarrow>
     (\<exists>f bs c. v = DDocument f \<and> encodeDocument f = Inr bs \<and> compile_entries f = Inr c \<and> m = clauses_filter c)"
  by (cases v) (auto simp: compileFilter_def compileClauses_def invalidFilter_def)

lemma stable_compileFilter: "compileFilter v = Inr m \<Longrightarrow> stable_filter m"
  using stable_entries(1) stable_clauses_filter by (auto simp: compileFilter_Inr)

section \<open>Properties\<close>

definition sample_filter :: document where
  "sample_filter = [(js ''a'', DBool True)]"

lemma sample_filter_ok:
  "encodeDocument sample_filter = Inr (enc_bytes (DDocument sample_filter))"
  "wf_value (DDocument sample_filter)" "bom_free (DDocument sample_filter)"
  by (simp_all add: sample_filter_def encodeDocument_def encodeDocumentValue_Inr js_def MAX_DOCUMENT_DEPTH_def
      MAX_PAYLOAD_SIZE_def is_high_def is_low_def text_encode_def utf8_bytes_def of_char_def bom_free_string_def)

lemma sample_filter_compiles: "\<exists>m. compileFilter (DDocument sample_filter) = Inr m"
proof -
  have "encodeDocumentValue (DBool True) = Inr (enc_bytes (DBool True))"
    by (simp add: encodeDocumentValue_Inr MAX_DOCUMENT_DEPTH_def MAX_PAYLOAD_SIZE_def)
  then have "compile_entries sample_filter \<noteq> Inl e" for e
    by (simp add: sample_filter_def compileField_def compileFieldPath_def compileEqualityPredicate_def
        split_path_def starts_dollar_def js_def of_char_def)
  then show ?thesis using sample_filter_ok(1)
    by (cases "compile_entries sample_filter") (auto simp: compileFilter_Inr)
qed



text \<open>C35: the negated operators are exactly the negations: \<open>$ne\<close> of \<open>$eq\<close>, \<open>$nin\<close> of \<open>$in\<close>, and
  \<open>$not\<close> of the operator it wraps, missing fields and compile errors included.\<close>

theorem negated_operators:
  "compile_operator (js ''$ne'') v = bindR (compile_operator (js ''$eq'') v) (\<lambda>p. Inr (\<lambda>f. \<not> p f)) \<and>
   compile_operator (js ''$nin'') v = bindR (compile_operator (js ''$in'') v) (\<lambda>p. Inr (\<lambda>f. \<not> p f)) \<and>
   compile_operator (js ''$not'') (DDocument [(js ''$'' @ op, v)]) =
     bindR (compile_operator (js ''$'' @ op) v) (\<lambda>p. Inr (\<lambda>f. \<not> p f))"
proof (intro conjI)
  show "compile_operator (js ''$ne'') v = bindR (compile_operator (js ''$eq'') v) (\<lambda>p. Inr (\<lambda>f. \<not> p f))"
    by (simp add: js_def compileEqualityPredicate_def compileInequalityPredicate_def bindR_assoc fun_eq_iff
        split: option.splits)
  show "compile_operator (js ''$nin'') v = bindR (compile_operator (js ''$in'') v) (\<lambda>p. Inr (\<lambda>f. \<not> p f))"
    using compileMembershipPredicate_negate[of v] by (simp add: js_def)
  have "starts_dollar (js ''$'' @ op)" by (simp add: starts_dollar_def js_def of_char_def)
  then show "compile_operator (js ''$not'') (DDocument [(js ''$'' @ op, v)]) =
     bindR (compile_operator (js ''$'' @ op) v) (\<lambda>p. Inr (\<lambda>f. \<not> p f))"
    by (subst compile_operator.simps) (simp add: isOperatorDocument_def mixes_literals_def bindR_assoc js_def)
qed

end
