(* ===== verification/Sort_Order.thy ===== *)
theory Sort_Order
  imports Query_Filter "HOL-Library.Product_Lexorder" "HOL-Library.List_Lexorder"
begin

text \<open>
  \<open>packages/storage/src/sort.ts\<close>: sort specifications, the order of values across types, and
  the sort itself. The order is shown to be a total preorder, so the stable sort of the
  run-time system returns a sorted permutation.
\<close>

definition invalidSort :: "failure + 'a" where
  "invalidSort = Inl (StorageError InvalidFindOptions)"

record sort_key =
  sk_segments :: "js_string list"
  sk_direction :: int

definition RankMissing :: nat where "RankMissing = 0"
definition RankNull :: nat where "RankNull = 1"
definition RankNumber :: nat where "RankNumber = 2"
definition RankString :: nat where "RankString = 3"
definition RankBinary :: nat where "RankBinary = 4"
definition RankId :: nat where "RankId = 5"
definition RankBoolean :: nat where "RankBoolean = 6"
definition RankDate :: nat where "RankDate = 7"
definition RankArray :: nat where "RankArray = 8"
definition RankDocument :: nat where "RankDocument = 9"

lemmas rank_defs = RankMissing_def RankNull_def RankNumber_def RankString_def RankBinary_def RankId_def
  RankBoolean_def RankDate_def RankArray_def RankDocument_def

text \<open>A \<open>SortValue\<close>: the rank and the value, \<open>None\<close> for \<open>undefined\<close>.\<close>

type_synonym sort_value = "nat \<times> doc_value option"

definition rankOf :: "doc_value \<Rightarrow> nat" where
  "rankOf v =
     (case v of DNull \<Rightarrow> RankNull | DNumber _ \<Rightarrow> RankNumber | DBigInt _ \<Rightarrow> RankNumber
      | DString _ \<Rightarrow> RankString | DBool _ \<Rightarrow> RankBoolean | DDate _ \<Rightarrow> RankDate
      | DBinary _ \<Rightarrow> RankBinary | DCustomId _ \<Rightarrow> RankId | DArray _ \<Rightarrow> RankArray
      | DDocument _ \<Rightarrow> RankDocument | DOther \<Rightarrow> RankDocument)"

fun resolveSortValue :: "document \<Rightarrow> js_string list \<Rightarrow> sort_value" where
  "resolveSortValue d [] = (RankMissing, None)"
| "resolveSortValue d [segment] =
     (case map_of d segment of None \<Rightarrow> (RankMissing, None) | Some v \<Rightarrow> (rankOf v, Some v))"
| "resolveSortValue d (segment # segments) =
     (case map_of d segment of
        Some (DDocument d') \<Rightarrow> resolveSortValue d' segments
      | _ \<Rightarrow> (RankMissing, None))"

section \<open>Comparing values\<close>

text \<open>The \<open><\<close> of the language on a \<open>number\<close> or \<open>bigint\<close> on either side.\<close>

definition js_less :: "doc_value \<Rightarrow> doc_value \<Rightarrow> bool" where
  "js_less left right =
     (case (left, right) of
        (DNumber a, DNumber b) \<Rightarrow> num_less a b
      | (DNumber a, DBigInt b) \<Rightarrow> num_less_bigint a b
      | (DBigInt a, DNumber b) \<Rightarrow> bigint_less_num a b
      | (DBigInt a, DBigInt b) \<Rightarrow> a < b
      | _ \<Rightarrow> False)"

definition is_nan_value :: "doc_value \<Rightarrow> bool" where
  "is_nan_value v = (case v of DNumber n \<Rightarrow> isNaN n | _ \<Rightarrow> False)"

definition compareNumbers :: "doc_value \<Rightarrow> doc_value \<Rightarrow> int" where
  "compareNumbers left right =
     (let leftNaN = is_nan_value left; rightNaN = is_nan_value right in
      if leftNaN \<or> rightNaN then (if leftNaN = rightNaN then 0 else if leftNaN then - 1 else 1)
      else compare_by js_less left right)"

text \<open>\<open>compareNumbers\<close> on two \<open>getTime()\<close> results: \<open>None\<close> is the \<open>NaN\<close> of an invalid date.\<close>

definition compare_times :: "int option \<Rightarrow> int option \<Rightarrow> int" where
  "compare_times left right =
     (case (left, right) of
        (None, None) \<Rightarrow> 0 | (None, Some _) \<Rightarrow> - 1 | (Some _, None) \<Rightarrow> 1
      | (Some a, Some b) \<Rightarrow> compare_by (<) a b)"

definition bool_num :: "bool \<Rightarrow> int" where
  "bool_num b = (if b then 1 else 0)"

definition compareSortValues :: "sort_value \<Rightarrow> sort_value \<Rightarrow> int" where
  "compareSortValues left right =
     (if fst left \<noteq> fst right then (if fst left < fst right then - 1 else 1)
      else case (snd left, snd right) of
        (Some a, Some b) \<Rightarrow>
          (if fst left = RankNumber then compareNumbers a b
           else (case (a, b) of
               (DString x, DString y) \<Rightarrow> compare_by list_less x y
             | (DBool x, DBool y) \<Rightarrow> compare_by (<) (bool_num x) (bool_num y)
             | (DDate x, DDate y) \<Rightarrow> compare_times x y
             | (DBinary x, DBinary y) \<Rightarrow> compare_bytes x y
             | (DCustomId x, DCustomId y) \<Rightarrow> compare_bytes x y
             | _ \<Rightarrow> 0))
      | _ \<Rightarrow> 0)"

definition compareDocumentValues :: "doc_value \<Rightarrow> doc_value \<Rightarrow> int" where
  "compareDocumentValues left right =
     compareSortValues (rankOf left, Some left) (rankOf right, Some right)"

section \<open>Sort specifications\<close>

definition sort_direction :: "doc_value \<Rightarrow> int option" where
  "sort_direction v =
     (if v = DNumber (num_of_int 1) then Some 1
      else if v = DNumber (num_of_int (- 1)) then Some (- 1) else None)"

fun parse_sort_entries :: "js_string list \<Rightarrow> doc_value list \<Rightarrow> failure + sort_key list" where
  "parse_sort_entries seen [] = Inr []"
| "parse_sort_entries seen (entry # rest) =
     (case entry of
        DArray [DString path, direction] \<Rightarrow>
          (if path = [] then invalidSort
           else case sort_direction direction of
             None \<Rightarrow> invalidSort
           | Some dir \<Rightarrow>
               if path \<in> set seen then invalidSort
               else
                 (let segments = split_path path in
                  if list_ex (\<lambda>segment. segment = [] \<or> starts_dollar segment) segments then invalidSort
                  else bindR (parse_sort_entries (set_add path seen) rest) (\<lambda>keys.
                    Inr (\<lparr>sk_segments = segments, sk_direction = dir\<rparr> # keys))))
      | _ \<Rightarrow> invalidSort)"

definition parseSortSpecification :: "doc_value \<Rightarrow> failure + sort_key list" where
  "parseSortSpecification specification =
     (case specification of
        DArray entries \<Rightarrow> if entries = [] then invalidSort else parse_sort_entries [] entries
      | _ \<Rightarrow> invalidSort)"

fun compare_decorated :: "sort_key list \<Rightarrow> sort_value list \<Rightarrow> sort_value list \<Rightarrow> int" where
  "compare_decorated (key # keys) (l # ls) (r # rs) =
     (let comparison = compareSortValues l r in
      if comparison \<noteq> 0 then comparison * sk_direction key else compare_decorated keys ls rs)"
| "compare_decorated _ _ _ = 0"

definition decorate :: "sort_key list \<Rightarrow> document \<Rightarrow> document \<times> sort_value list" where
  "decorate keys d = (d, map (\<lambda>key. resolveSortValue d (sk_segments key)) keys)"

definition sort_documents :: "sort_key list \<Rightarrow> document list \<Rightarrow> document list" where
  "sort_documents keys documents =
     map fst (sort_by (\<lambda>l r. compare_decorated keys (snd l) (snd r)) (map (decorate keys) documents))"

definition compileSort :: "doc_value \<Rightarrow> failure + (document list \<Rightarrow> document list)" where
  "compileSort specification =
     bindR (parseSortSpecification specification) (\<lambda>keys. Inr (sort_documents keys))"

section \<open>The order is a total preorder\<close>

text \<open>
  Every value is mapped to a tuple of a linearly ordered type, rank first, so that the code's
  comparison is the comparison of the tuples.
\<close>

definition num_key :: "doc_value \<Rightarrow> nat \<times> int" where
  "num_key v =
     (case v of
        DNumber n \<Rightarrow> if isNaN n then (0, 0) else if isFinite n then (2, num_scaled n)
                     else if num_neg n then (1, 0) else (3, 0)
      | DBigInt i \<Rightarrow> (2, i * num_unit)
      | _ \<Rightarrow> (0, 0))"

definition value_key :: "doc_value option \<Rightarrow> nat \<times> (nat \<times> int) \<times> nat list" where
  "value_key v =
     (case v of
        None \<Rightarrow> (RankMissing, (0, 0), [])
      | Some (DNumber n) \<Rightarrow> (RankNumber, num_key (DNumber n), [])
      | Some (DBigInt i) \<Rightarrow> (RankNumber, num_key (DBigInt i), [])
      | Some (DString s) \<Rightarrow> (RankString, (0, 0), map unat s)
      | Some (DBool b) \<Rightarrow> (RankBoolean, (0, bool_num b), [])
      | Some (DDate t) \<Rightarrow> (RankDate, (case t of None \<Rightarrow> (0, 0) | Some ms \<Rightarrow> (1, ms)), [])
      | Some (DBinary bs) \<Rightarrow> (RankBinary, (0, 0), map unat bs)
      | Some (DCustomId bs) \<Rightarrow> (RankId, (0, 0), map unat bs)
      | Some x \<Rightarrow> (rankOf x, (0, 0), []))"

lemma Nil_less_iff: "[] < ys \<longleftrightarrow> ys \<noteq> []"
  by (cases ys) simp_all

lemma list_less_map_unat: "list_less xs ys \<longleftrightarrow> map unat xs < map unat (ys :: 'a::len word list)"
  by (induction xs ys rule: list_less.induct) (auto simp: word_less_nat_alt word_unat_eq_iff Nil_less_iff)

lemma compare_by_linear: "compare_by (<) (x :: 'a::linorder) y = (if x < y then - 1 else if y < x then 1 else 0)"
  by (simp add: compare_by_def)

lemma compare_bytes_map_unat: "compare_bytes xs ys = compare_by (<) (map unat xs) (map unat ys)"
proof (induction xs ys rule: compare_bytes.induct)
  case (1 x xs y ys)
  then show ?case by (auto simp: compare_by_def word_less_nat_alt)
qed (auto simp: compare_by_def Nil_less_iff)

lemma js_less_key:
  assumes "rankOf a = RankNumber" "rankOf b = RankNumber" "\<not> is_nan_value a" "\<not> is_nan_value b"
  shows "js_less a b \<longleftrightarrow> num_key a < num_key b"
proof (cases a; cases b)
  fix m n assume ab: "a = DNumber m" "b = DNumber n"
  with assms have nn: "\<not> isNaN m" "\<not> isNaN n" by (simp_all add: is_nan_value_def)
  obtain B :: int where B: "B = 2 ^ 2098" by blast
  have pos: "0 < B" unfolding B by (rule zero_less_power) simp
  have fin: "isFinite w \<Longrightarrow> - B < num_scaled w \<and> num_scaled w < B" for w
    unfolding B by (rule num_scaled_finite)
  have inf: "\<not> isFinite w \<Longrightarrow> \<not> isNaN w \<Longrightarrow> num_scaled w = (if num_neg w then - B else B)" for w
    unfolding B by (rule num_scaled_inf)
  show ?thesis
    using nn pos fin[of m] fin[of n] inf[OF _ nn(1)] inf[OF _ nn(2)]
    unfolding ab js_less_def num_key_def num_less_def
    by (cases "isFinite m"; cases "isFinite n"; cases "num_neg m"; cases "num_neg n") simp_all
qed (use assms in \<open>auto simp: js_less_def num_key_def rankOf_def rank_defs is_nan_value_def num_less_bigint_def
      bigint_less_num_def num_unit_def\<close>)

lemma compareNumbers_key:
  assumes "rankOf a = RankNumber" "rankOf b = RankNumber"
  shows "compareNumbers a b = compare_by (<) (num_key a) (num_key b)"
proof -
  have nan: "num_key v = (0, 0)" if "is_nan_value v" for v
    using that by (auto simp: is_nan_value_def num_key_def split: doc_value.splits)
  have pos: "(0, 0) < num_key v" if "rankOf v = RankNumber" "\<not> is_nan_value v" for v
    using that by (auto simp: is_nan_value_def num_key_def rankOf_def rank_defs split: doc_value.splits)
  show ?thesis
  proof (cases "is_nan_value a \<or> is_nan_value b")
    case True
    then show ?thesis
      using nan pos[OF assms(1)] pos[OF assms(2)]
      by (cases "is_nan_value a"; cases "is_nan_value b")
         (auto simp: compareNumbers_def compare_by_def dest: less_imp_not_less)
  next
    case False
    then show ?thesis using js_less_key[OF assms] js_less_key[OF assms(2,1)]
      by (simp add: compareNumbers_def Let_def compare_by_def)
  qed
qed

text \<open>A sort value as the code builds it: its rank is the rank of its value.\<close>

definition sort_value_of :: "doc_value option \<Rightarrow> sort_value" where
  "sort_value_of v = (case v of None \<Rightarrow> (RankMissing, None) | Some x \<Rightarrow> (rankOf x, Some x))"

lemma value_key_rank: "fst (value_key v) = fst (sort_value_of v)"
  by (auto simp: value_key_def sort_value_of_def rankOf_def rank_defs split: option.splits doc_value.splits)

lemma value_key_number: "rankOf x = RankNumber \<Longrightarrow> value_key (Some x) = (RankNumber, num_key x, [])"
  by (cases x) (simp_all add: value_key_def rankOf_def rank_defs num_key_def)

lemma compareSortValues_key:
  "compareSortValues (sort_value_of a) (sort_value_of b) = compare_by (<) (value_key a) (value_key b)"
proof (cases "fst (sort_value_of a) = fst (sort_value_of b)")
  case False
  obtain ra ka rb kb where k: "value_key a = (ra, ka)" "value_key b = (rb, kb)" by (metis surj_pair)
  with False value_key_rank[of a] value_key_rank[of b] show ?thesis
    by (auto simp: compareSortValues_def compare_by_def)
next
  case same: True
  show ?thesis
  proof (cases "fst (sort_value_of a) = RankNumber")
    case True
    then obtain x y where xy: "a = Some x" "b = Some y" "rankOf x = RankNumber" "rankOf y = RankNumber"
      using same by (auto simp: sort_value_of_def rank_defs split: option.splits)
    then have "value_key a = (RankNumber, num_key x, [])" "value_key b = (RankNumber, num_key y, [])"
      by (simp_all add: value_key_number)
    with xy show ?thesis
      using compareNumbers_key[OF xy(3,4)] by (simp add: compareSortValues_def sort_value_of_def compare_by_def)
  next
    case False
    with same show ?thesis
      by (cases a; cases b)
         (auto simp: sort_value_of_def compareSortValues_def value_key_def rankOf_def rank_defs compare_by_def
            list_less_map_unat compare_bytes_map_unat compare_times_def split: doc_value.splits option.splits)
  qed
qed

definition is_sort_value :: "sort_value \<Rightarrow> bool" where
  "is_sort_value sv \<longleftrightarrow> sv = sort_value_of (snd sv)"

lemma is_sort_value_of [simp]: "is_sort_value (sort_value_of v)"
  by (cases v) (simp_all add: is_sort_value_def sort_value_of_def)

lemma compare_sort_key:
  "is_sort_value a \<Longrightarrow> is_sort_value b \<Longrightarrow>
   compareSortValues a b = compare_by (<) (value_key (snd a)) (value_key (snd b))"
  using compareSortValues_key[of "snd a" "snd b"] unfolding is_sort_value_def by simp

interpretation value_cmp: comparator compareSortValues is_sort_value
  by unfold_locales (auto simp: compare_sort_key compare_by_def split: if_splits)

lemma resolveSortValue_of: "resolveSortValue d segments = sort_value_of (resolveField d segments)"
  by (induction d segments rule: resolveField.induct)
     (auto simp: sort_value_of_def split: option.splits doc_value.splits)

section \<open>Sorting documents\<close>

definition directions_ok :: "sort_key list \<Rightarrow> bool" where
  "directions_ok keys \<longleftrightarrow> list_all (\<lambda>key. sk_direction key = 1 \<or> sk_direction key = - 1) keys"

lemma parse_sort_directions: "parse_sort_entries seen entries = Inr keys \<Longrightarrow> directions_ok keys"
proof (induction seen entries arbitrary: keys rule: parse_sort_entries.induct)
  case (2 seen entry rest)
  then obtain path direction dir keys' where e: "entry = DArray [DString path, direction]"
    "sort_direction direction = Some dir"
    "parse_sort_entries (set_add path seen) rest = Inr keys'" "path \<noteq> []" "path \<notin> set seen"
    "\<not> list_ex (\<lambda>segment. segment = [] \<or> starts_dollar segment) (split_path path)"
    "keys = \<lparr>sk_segments = split_path path, sk_direction = dir\<rparr> # keys'"
    by (auto simp: invalidSort_def Let_def split: doc_value.splits list.splits if_splits option.splits)
  have "directions_ok keys'" using "2.IH" e by (auto simp: Let_def)
  moreover have "dir = 1 \<or> dir = - 1" using e(2) by (auto simp: sort_direction_def split: if_splits)
  ultimately show ?case using e by (simp add: directions_ok_def)
qed (simp add: directions_ok_def)

fun decorated_ok :: "sort_key list \<Rightarrow> sort_value list \<Rightarrow> bool" where
  "decorated_ok keys vs \<longleftrightarrow> length vs = length keys \<and> list_all is_sort_value vs"

lemma compare_decorated_flip:
  "directions_ok keys \<Longrightarrow> decorated_ok keys ls \<Longrightarrow> decorated_ok keys rs \<Longrightarrow>
   compare_decorated keys ls rs < 0 \<longleftrightarrow> 0 < compare_decorated keys rs ls"
proof (induction keys ls rs rule: compare_decorated.induct)
  case (1 key keys l ls r rs)
  from "1.prems" have c: "is_sort_value l" "is_sort_value r" by simp_all
  show ?case
  proof (cases "compareSortValues l r = 0")
    case True
    then have "compareSortValues r l = 0" using value_cmp.cmp_zero_flip[OF c] by simp
    with True 1 show ?thesis by (simp add: directions_ok_def)
  next
    case False
    then have "compareSortValues r l \<noteq> 0" using value_cmp.cmp_zero_flip[OF c] by simp
    with False "1.prems"(1) value_cmp.cmp_flip[OF c] value_cmp.cmp_flip[OF c(2,1)] show ?thesis
      by (auto simp: directions_ok_def)
  qed
qed auto

lemma compare_decorated_trans:
  "directions_ok keys \<Longrightarrow> decorated_ok keys xs \<Longrightarrow> decorated_ok keys ys \<Longrightarrow> decorated_ok keys zs \<Longrightarrow>
   compare_decorated keys xs ys \<le> 0 \<Longrightarrow> compare_decorated keys ys zs \<le> 0 \<Longrightarrow> compare_decorated keys xs zs \<le> 0"
proof (induction keys arbitrary: xs ys zs)
  case (Cons key keys)
  then obtain x xs' y ys' z zs' where l: "xs = x # xs'" "ys = y # ys'" "zs = z # zs'"
    by (auto simp: length_Suc_conv)
  with Cons.prems have c: "is_sort_value x" "is_sort_value y" "is_sort_value z" by simp_all
  define X Y Z where "X = value_key (snd x)" and "Y = value_key (snd y)" and "Z = value_key (snd z)"
  have k: "compareSortValues x y = compare_by (<) X Y" "compareSortValues y z = compare_by (<) Y Z"
    "compareSortValues x z = compare_by (<) X Z"
    using c by (simp_all add: compare_sort_key X_def Y_def Z_def)
  have IH: "compare_decorated keys xs' ys' \<le> 0 \<Longrightarrow> compare_decorated keys ys' zs' \<le> 0 \<Longrightarrow>
      compare_decorated keys xs' zs' \<le> 0"
    using Cons.IH[of xs' ys' zs'] Cons.prems(1-4) l by (auto simp: directions_ok_def)
  have "sk_direction key = 1 \<or> sk_direction key = - 1" using Cons.prems(1) by (simp add: directions_ok_def)
  then show ?case
    using Cons.prems(5,6) IH unfolding l compare_decorated.simps(1) k compare_by_def Let_def
    by (auto split: if_splits)
qed simp

lemma comparator_decorated:
  "directions_ok keys \<Longrightarrow>
   comparator (\<lambda>l r. compare_decorated keys (snd l) (snd r)) (\<lambda>p. decorated_ok keys (snd p))"
  by unfold_locales (auto simp del: decorated_ok.simps intro: compare_decorated_trans simp: compare_decorated_flip)

text \<open>The order on documents a specification stands for.\<close>

definition document_order :: "sort_key list \<Rightarrow> document \<Rightarrow> document \<Rightarrow> int" where
  "document_order keys a b = compare_decorated keys (snd (decorate keys a)) (snd (decorate keys b))"

lemma decorated_ok_decorate: "decorated_ok keys (snd (decorate keys d))"
  by (simp add: decorate_def resolveSortValue_of list_all_iff)

lemma fst_decorate [simp]: "fst (decorate keys d) = d"
  by (simp add: decorate_def)

lemma sort_documents_sort_by: "sort_documents keys ds = sort_by (document_order keys) ds"
proof -
  have "map (decorate keys) (sort_by (document_order keys) ds) =
      sort_by (\<lambda>l r. compare_decorated keys (snd l) (snd r)) (map (decorate keys) ds)"
    by (rule map_sort_by) (simp add: document_order_def)
  then show ?thesis unfolding sort_documents_def by (metis fst_decorate list.map_comp comp_def map_idI)
qed

lemma document_order_comparator:
  assumes "directions_ok keys"
  shows "comparator (document_order keys) (\<lambda>_. True)"
proof -
  note c = comparator_decorated[OF assms]
  show ?thesis
  proof
    fix x y z :: document
    show "document_order keys x y < 0 \<longleftrightarrow> 0 < document_order keys y x"
      unfolding document_order_def by (rule comparator.cmp_flip[OF c]) (rule decorated_ok_decorate)+
    assume "document_order keys x y \<le> 0" "document_order keys y z \<le> 0"
    then show "document_order keys x z \<le> 0"
      unfolding document_order_def
      using comparator.cmp_trans[OF c, of "decorate keys x" "decorate keys y" "decorate keys z"] decorated_ok_decorate
      by blast
  qed
qed

lemma sort_documents_correct:
  assumes "directions_ok keys"
  shows "mset (sort_documents keys ds) = mset ds"
    and "sorted_wrt (\<lambda>a b. document_order keys a b \<le> 0) (sort_documents keys ds)"
    and "filter (\<lambda>d. document_order keys p d = 0) (sort_documents keys ds) =
      filter (\<lambda>d. document_order keys p d = 0) ds"
  using comparator.sorted_sort_by[OF document_order_comparator[OF assms], of ds]
    comparator.sort_by_stable[OF document_order_comparator[OF assms], where p = p and xs = ds]
  by (simp_all add: sort_documents_sort_by)

section \<open>Properties\<close>

text \<open>C36: the order of values, across all types, \<open>NaN\<close>, infinities and mixed numbers and bigints
  included, is a total preorder.\<close>

theorem value_order_total:
  "(compareDocumentValues x y < 0 \<longleftrightarrow> 0 < compareDocumentValues y x) \<and> compareDocumentValues x x = 0 \<and>
   \<not> (compareDocumentValues x y \<le> 0 \<and> compareDocumentValues y z \<le> 0 \<and> 0 < compareDocumentValues x z)"
proof -
  have s: "(rankOf x, Some x) = sort_value_of (Some x)" for x by (simp add: sort_value_of_def)
  show ?thesis
    unfolding compareDocumentValues_def s
    using value_cmp.cmp_flip value_cmp.cmp_refl
      value_cmp.cmp_trans[of "sort_value_of (Some x)" "sort_value_of (Some y)" "sort_value_of (Some z)"]
    by (simp add: not_less)
qed



end
