(* ===== verification/Index_Spec.thy ===== *)
theory Index_Spec
  imports Sort_Order
begin

text \<open>
  \<open>packages/storage/src/indexing/spec.ts\<close> and \<open>values.ts\<close>: the definition of a secondary index,
  the canonical key of a value and the classes of values range operators compare.
\<close>

definition ID_INDEX_NAME :: js_string where "ID_INDEX_NAME = js ''_id_''"
definition MAX_INDEXES_PER_COLLECTION :: nat where "MAX_INDEXES_PER_COLLECTION = 32"
definition MAX_INDEX_NAME_LENGTH :: nat where "MAX_INDEX_NAME_LENGTH = 127"

record index_spec =
  is_name :: js_string
  is_field :: js_string
  is_direction :: int
  is_unique :: bool
  is_sparse :: bool

text \<open>The members of a \<open>CreateIndexInput\<close> as the caller gave them, \<open>None\<close> for \<open>undefined\<close>.\<close>

record create_index_input =
  ci_field :: "doc_value option"
  ci_direction :: "doc_value option"
  ci_unique :: "doc_value option"
  ci_sparse :: "doc_value option"
  ci_name :: "doc_value option"

definition invalidIndex :: "failure + 'a" where
  "invalidIndex = Inl (StorageError InvalidIndex)"

definition readFlag :: "doc_value option \<Rightarrow> failure + bool" where
  "readFlag v = (case v of None \<Rightarrow> Inr False | Some (DBool b) \<Rightarrow> Inr b | Some _ \<Rightarrow> invalidIndex)"

text \<open>The \<open>??\<close> operator: \<open>undefined\<close> and \<open>null\<close> take the default.\<close>

definition nullish :: "doc_value option \<Rightarrow> doc_value \<Rightarrow> doc_value" where
  "nullish v d = (case v of None \<Rightarrow> d | Some DNull \<Rightarrow> d | Some x \<Rightarrow> x)"

definition direction_suffix :: "int \<Rightarrow> js_string" where
  "direction_suffix direction = (if direction = 1 then js ''_1'' else js ''_-1'')"

definition valid_index_name :: "js_string \<Rightarrow> bool" where
  "valid_index_name name \<longleftrightarrow> 0 < length name \<and> length name \<le> MAX_INDEX_NAME_LENGTH \<and>
     name \<noteq> ID_INDEX_NAME \<and> \<not> list_ex (\<lambda>u. u < 32) name"

definition index_segment_reserved :: "js_string \<Rightarrow> bool" where
  "index_segment_reserved segment \<longleftrightarrow> segment = [] \<or> starts_dollar segment \<or> segment = js ''__proto__''"

definition normalizeIndexSpec :: "create_index_input \<Rightarrow> failure + index_spec" where
  "normalizeIndexSpec input =
     (case ci_field input of
        Some (DString field) \<Rightarrow>
          (if field = [] then invalidIndex
           else if list_ex index_segment_reserved (split_path field) then invalidIndex
           else if field = js ''_id'' \<or> starts_with (js ''_id.'') field then invalidIndex
           else case sort_direction (nullish (ci_direction input) (DNumber (num_of_int 1))) of
             None \<Rightarrow> invalidIndex
           | Some direction \<Rightarrow>
               bindR (readFlag (ci_unique input)) (\<lambda>unique.
               bindR (readFlag (ci_sparse input)) (\<lambda>sparse.
                 case nullish (ci_name input) (DString (field @ direction_suffix direction)) of
                   DString name \<Rightarrow>
                     if \<not> valid_index_name name then invalidIndex
                     else Inr \<lparr>is_name = name, is_field = field, is_direction = direction,
                               is_unique = unique, is_sparse = sparse\<rparr>
                 | _ \<Rightarrow> invalidIndex)))
      | _ \<Rightarrow> invalidIndex)"

definition sameDefinition :: "index_spec \<Rightarrow> index_spec \<Rightarrow> bool" where
  "sameDefinition left right \<longleftrightarrow> is_field left = is_field right \<and> is_direction left = is_direction right \<and>
     is_unique left = is_unique right \<and> is_sparse left = is_sparse right"

definition idIndexSpec :: index_spec where
  "idIndexSpec = \<lparr>is_name = ID_INDEX_NAME, is_field = js ''_id'', is_direction = 1,
     is_unique = True, is_sparse = False\<rparr>"

section \<open>Values in an index\<close>

datatype value_class = ClassString | ClassNumber | ClassBigInt | ClassDate | ClassBinary | ClassId

text \<open>
  \<open>canonicalKey\<close> is the encoding as a latin-1 string, that is, its bytes. The values it meets
  come from decoded documents and from filters that were encoded, so it does not throw.
\<close>

definition canonicalKey :: "doc_value \<Rightarrow> bytes" where
  "canonicalKey v = (case encodeDocumentValue v of Inr bs \<Rightarrow> bs | Inl _ \<Rightarrow> [])"

definition valueClassOf :: "doc_value \<Rightarrow> value_class option" where
  "valueClassOf v =
     (if \<not> isComparableValue v then None
      else case v of
        DString _ \<Rightarrow> Some ClassString
      | DNumber _ \<Rightarrow> Some ClassNumber
      | DBigInt _ \<Rightarrow> Some ClassBigInt
      | DDate _ \<Rightarrow> Some ClassDate
      | DCustomId _ \<Rightarrow> Some ClassId
      | _ \<Rightarrow> Some ClassBinary)"

definition compareSameClass :: "doc_value \<Rightarrow> doc_value \<Rightarrow> int" where
  "compareSameClass left right = (case compareValues left right of Some c \<Rightarrow> c | None \<Rightarrow> 0)"

section \<open>Lemmas\<close>

lemma canonicalKey_storable: "storable v \<Longrightarrow> canonicalKey v = enc_bytes v"
  by (simp add: canonicalKey_def storable_encode)

lemma canonicalEquals_key: "storable v \<Longrightarrow> canonicalEquals v e \<longleftrightarrow> canonicalKey v = e"
  by (simp add: canonicalEquals_def canonicalKey_storable storable_encode)

text \<open>Within a class the comparison is the sort order, hence a total preorder.\<close>

lemma compareValues_same_class:
  assumes "valueClassOf a = Some c" and "valueClassOf b = Some c"
  shows "compareValues a b = Some (compareDocumentValues a b)"
  using assms
  by (cases a; cases b)
     (auto simp: valueClassOf_def isComparableValue_def compareValues_def compareDocumentValues_def
       compareSortValues_def rankOf_def rank_defs compareNumbers_def is_nan_value_def js_less_def
       compare_by_def compare_times_def isFinite_not_isNaN split: if_splits)

lemma compareValues_other_class:
  assumes "valueClassOf b = Some c" and "valueClassOf a \<noteq> Some c"
  shows "compareValues a b = None"
  using assms
  by (cases a; cases b)
     (auto simp: valueClassOf_def isComparableValue_def compareValues_def split: if_splits option.splits)

lemma compareSameClass_sort:
  "valueClassOf a = Some c \<Longrightarrow> valueClassOf b = Some c \<Longrightarrow> compareSameClass a b = compareDocumentValues a b"
  by (simp add: compareSameClass_def compareValues_same_class)

interpretation document_cmp: comparator compareDocumentValues "\<lambda>_. True"
proof unfold_locales
  have s: "(rankOf x, Some x) = sort_value_of (Some x)" for x by (simp add: sort_value_of_def)
  fix x y z :: doc_value
  show "compareDocumentValues x y < 0 \<longleftrightarrow> 0 < compareDocumentValues y x"
    unfolding compareDocumentValues_def s by (rule value_cmp.cmp_flip) simp_all
  assume "compareDocumentValues x y \<le> 0" "compareDocumentValues y z \<le> 0"
  then show "compareDocumentValues x z \<le> 0"
    unfolding compareDocumentValues_def s
    by (rule value_cmp.cmp_trans[of _ "sort_value_of (Some y)", rotated 3]) simp_all
qed

interpretation class_cmp: comparator compareSameClass "\<lambda>v. valueClassOf v = Some c"
  by unfold_locales
     (simp_all add: compareSameClass_sort document_cmp.cmp_flip, metis compareSameClass_sort document_cmp.cmp_trans)

end
