(* ===== verification/Wal_Format.thy ===== *)
theory Wal_Format
  imports Storage_Effects
begin

text \<open>
  \<open>packages/storage/src/wal/format.ts\<close>: the segment header, the records of the log and the scanner
  that tells a whole record from a torn write and from damage. \<open>crc32\<close> is the function of \<open>zlib\<close>:
  the reflected polynomial of IEEE 802.3, with the optional value to continue from.
\<close>

unbundle bit_operations_syntax

section \<open>Checksums\<close>

definition crc_shift :: "32 word \<Rightarrow> 32 word" where
  "crc_shift c = (if bit c 0 then drop_bit 1 c XOR 0xEDB88320 else drop_bit 1 c)"

definition crc_byte :: "32 word \<Rightarrow> u8 \<Rightarrow> 32 word" where
  "crc_byte c b = (crc_shift ^^ 8) (c XOR ucast b)"

definition crc32_from :: "bytes \<Rightarrow> 32 word \<Rightarrow> 32 word" where
  "crc32_from bs value = NOT (foldl crc_byte (NOT value) bs)"

definition crc32 :: "bytes \<Rightarrow> nat" where
  "crc32 bs = unat (crc32_from bs 0)"

lemma crc32_less [simp]: "crc32 bs < 4294967296"
  using unsigned_less[of "crc32_from bs 0", where ?'a = nat] by (simp add: crc32_def)

lemma crc32_from_append: "crc32_from (xs @ ys) value = crc32_from ys (crc32_from xs value)"
  by (simp add: crc32_from_def)

section \<open>Buffers\<close>

text \<open>\<open>subarray\<close> and the big-endian readers of \<open>Buffer\<close>.\<close>

definition sub_bytes :: "nat \<Rightarrow> nat \<Rightarrow> bytes \<Rightarrow> bytes" where
  "sub_bytes a b bs = take (b - a) (drop a bs)"

definition read_be :: "nat \<Rightarrow> nat \<Rightarrow> bytes \<Rightarrow> nat" where
  "read_be n offset bs = be_nat (take n (drop offset bs))"

definition writeBigUInt64BE :: "nat \<Rightarrow> failure + bytes" where
  "writeBigUInt64BE v = (if v < 2 ^ 64 then Inr (be_bytes 8 v) else Inl OutOfRange)"

section \<open>Segment headers\<close>

definition WAL_FORMAT_VERSION :: nat where "WAL_FORMAT_VERSION = 1"

definition SEGMENT_MAGIC :: bytes where
  "SEGMENT_MAGIC = [0x53, 0x49, 0x4e, 0x54, 0x57, 0x41, 0x4c, 0x00]"

definition SEGMENT_HEADER_SIZE :: nat where "SEGMENT_HEADER_SIZE = 24"
definition RECORD_HEADER_SIZE :: nat where "RECORD_HEADER_SIZE = 21"
definition MAX_RECORD_PAYLOAD_SIZE :: nat where "MAX_RECORD_PAYLOAD_SIZE = 256 * 1024 * 1024"

definition encodeSegmentHeader :: "nat \<Rightarrow> failure + bytes" where
  "encodeSegmentHeader firstLsn =
     bindR (writeBigUInt64BE firstLsn) (\<lambda>lsn.
       let header = SEGMENT_MAGIC @ be_bytes 4 WAL_FORMAT_VERSION @ lsn
       in Inr (header @ be_bytes 4 (crc32 header)))"

text \<open>The first LSN of a segment, or \<open>None\<close> with a reason that is left out.\<close>

definition decodeSegmentHeader :: "bytes \<Rightarrow> nat option" where
  "decodeSegmentHeader bytes =
     (if length bytes < SEGMENT_HEADER_SIZE then None
      else let header = take SEGMENT_HEADER_SIZE bytes in
        if sub_bytes 0 8 header \<noteq> SEGMENT_MAGIC then None
        else if read_be 4 20 header \<noteq> crc32 (sub_bytes 0 20 header) then None
        else if read_be 4 8 header \<noteq> WAL_FORMAT_VERSION then None
        else Some (read_be 8 12 header))"

section \<open>Records\<close>

datatype record_scan =
    RecordAt nat int bytes nat
  | EndOfLog
  | Torn
  | Corrupt

definition encodeRecord :: "nat \<Rightarrow> int \<Rightarrow> bytes \<Rightarrow> failure + bytes" where
  "encodeRecord lsn type payload =
     (if type < 0 \<or> type > 255 then Inl RangeFailure
      else if length payload > MAX_RECORD_PAYLOAD_SIZE then Inl RangeFailure
      else bindR (writeBigUInt64BE lsn) (\<lambda>lsn_bytes.
        let fields = be_bytes 4 (length payload) @ lsn_bytes @ byte1 (nat type)
        in Inr (be_bytes 4 (crc32 fields) @ fields @ be_bytes 4 (crc32 payload) @ payload)))"

definition isZeroFilled :: "bytes \<Rightarrow> nat \<Rightarrow> nat \<Rightarrow> bool" where
  "isZeroFilled buffer start end = list_all (\<lambda>b. b = 0) (sub_bytes start end buffer)"

definition scanRecord :: "bytes \<Rightarrow> nat \<Rightarrow> nat \<Rightarrow> record_scan" where
  "scanRecord bytes offset expectedLsn =
     (let size = length bytes in
      if offset = size then EndOfLog
      else if size - offset < RECORD_HEADER_SIZE then Torn
      else if isZeroFilled bytes offset size then Torn
      else if read_be 4 offset bytes \<noteq> crc32 (sub_bytes (offset + 4) (offset + 17) bytes) then Corrupt
      else
        let len = read_be 4 (offset + 4) bytes;
            lsn = read_be 8 (offset + 8) bytes;
            type = int (read_be 1 (offset + 16) bytes)
        in if lsn \<noteq> expectedLsn then Corrupt
           else if len > MAX_RECORD_PAYLOAD_SIZE then Corrupt
           else
             let end = offset + RECORD_HEADER_SIZE + len
             in if end > size then Torn
                else
                  let payload = sub_bytes (offset + RECORD_HEADER_SIZE) end bytes
                  in if read_be 4 (offset + 17) bytes \<noteq> crc32 payload
                     then (if end = size then Torn else Corrupt)
                     else RecordAt lsn type payload end)"

section \<open>What the scanner sees\<close>

lemma encodeRecord_Inr:
  "encodeRecord lsn type payload = Inr r \<longleftrightarrow>
     0 \<le> type \<and> type \<le> 255 \<and> length payload \<le> MAX_RECORD_PAYLOAD_SIZE \<and> lsn < 2 ^ 64 \<and>
     (let fields = be_bytes 4 (length payload) @ be_bytes 8 lsn @ byte1 (nat type)
      in r = be_bytes 4 (crc32 fields) @ fields @ be_bytes 4 (crc32 payload) @ payload)"
  by (auto simp: encodeRecord_def writeBigUInt64BE_def Let_def)

lemma encodeRecord_length:
  "encodeRecord lsn type payload = Inr r \<Longrightarrow> length r = RECORD_HEADER_SIZE + length payload"
  by (auto simp: encodeRecord_Inr Let_def RECORD_HEADER_SIZE_def)

lemma decode_encode_header:
  assumes "encodeSegmentHeader firstLsn = Inr h"
  shows "length h = SEGMENT_HEADER_SIZE" "decodeSegmentHeader (h @ rest) = Some firstLsn"
proof -
  let ?f = "SEGMENT_MAGIC @ be_bytes 4 WAL_FORMAT_VERSION @ be_bytes 8 firstLsn"
  have h: "h = ?f @ be_bytes 4 (crc32 ?f)" and lsn: "firstLsn < 2 ^ 64"
    using assms by (auto simp: encodeSegmentHeader_def writeBigUInt64BE_def Let_def split: if_splits)
  have len: "length SEGMENT_MAGIC = 8" by (simp add: SEGMENT_MAGIC_def)
  show "length h = SEGMENT_HEADER_SIZE" unfolding h by (simp add: len SEGMENT_HEADER_SIZE_def)
  moreover from this have t: "take SEGMENT_HEADER_SIZE (h @ rest) = h" by simp
  have "sub_bytes 0 8 h = SEGMENT_MAGIC" "sub_bytes 0 20 h = ?f" "read_be 4 20 h = crc32 ?f"
    "read_be 4 8 h = WAL_FORMAT_VERSION" "read_be 8 12 h = firstLsn"
    using lsn unfolding h sub_bytes_def read_be_def by (simp_all add: len WAL_FORMAT_VERSION_def)
  ultimately show "decodeSegmentHeader (h @ rest) = Some firstLsn"
    unfolding decodeSegmentHeader_def Let_def t by simp
qed

text \<open>The fields of a whole record, wherever it is in the file.\<close>

lemma record_fields:
  assumes "encodeRecord lsn type payload = Inr r"
  shows "read_be 4 (length pre) (pre @ r @ post) = crc32 (sub_bytes (length pre + 4) (length pre + 17) (pre @ r @ post))"
    and "read_be 4 (length pre + 4) (pre @ r @ post) = length payload"
    and "read_be 8 (length pre + 8) (pre @ r @ post) = lsn"
    and "int (read_be 1 (length pre + 16) (pre @ r @ post)) = type"
    and "read_be 4 (length pre + 17) (pre @ r @ post) = crc32 payload"
    and "sub_bytes (length pre + 21) (length pre + 21 + length payload) (pre @ r @ post) = payload"
proof -
  let ?f = "be_bytes 4 (length payload) @ be_bytes 8 lsn @ byte1 (nat type)"
  have b: "0 \<le> type" "type \<le> 255" "length payload < 256 ^ 4" "lsn < 256 ^ 8"
    and r: "r = be_bytes 4 (crc32 ?f) @ ?f @ be_bytes 4 (crc32 payload) @ payload"
    using assms by (auto simp: encodeRecord_Inr Let_def MAX_RECORD_PAYLOAD_SIZE_def)
  have "sub_bytes (length pre + 4) (length pre + 17) (pre @ r @ post) = ?f"
    unfolding r sub_bytes_def by simp
  moreover have "read_be 4 (length pre) (pre @ r @ post) = crc32 ?f" unfolding r read_be_def by simp
  ultimately show "read_be 4 (length pre) (pre @ r @ post) = crc32 (sub_bytes (length pre + 4) (length pre + 17) (pre @ r @ post))"
    by simp
  show "read_be 4 (length pre + 4) (pre @ r @ post) = length payload" "read_be 8 (length pre + 8) (pre @ r @ post) = lsn"
    "int (read_be 1 (length pre + 16) (pre @ r @ post)) = type" "read_be 4 (length pre + 17) (pre @ r @ post) = crc32 payload"
    "sub_bytes (length pre + 21) (length pre + 21 + length payload) (pre @ r @ post) = payload"
    using b unfolding r read_be_def sub_bytes_def by simp_all
qed

text \<open>
  A record never starts a run of zeros: its LSN is not 0. So the test for unwritten zeros cannot
  take one for the end of the log.
\<close>

lemma be_bytes_not_zero:
  assumes "0 < v" "v < 256 ^ n"
  shows "\<not> list_all (\<lambda>b. b = 0) (be_bytes n v)"
proof
  assume "list_all (\<lambda>b. b = 0) (be_bytes n v)"
  then have "be_bytes n v = replicate n 0"
    by (metis (full_types) length_be_bytes list_all_iff replicate_eqI)
  moreover have "be_nat (replicate n 0) = 0" by (induction n) simp_all
  ultimately show False using assms be_nat_be_bytes[of v n] by simp
qed

lemma record_not_zero:
  assumes "encodeRecord lsn type payload = Inr r" "0 < lsn" "16 \<le> n"
  shows "\<not> list_all (\<lambda>b. b = 0) (take n r @ post)"
proof -
  have "\<not> list_all (\<lambda>b. b = 0) (be_bytes 8 lsn)"
    using assms by (intro be_bytes_not_zero) (auto simp: encodeRecord_Inr)
  moreover have "set (be_bytes 8 lsn) \<subseteq> set (take n r)"
    using assms(1,3) by (auto simp: encodeRecord_Inr Let_def)
  ultimately show ?thesis by (auto simp: list_all_iff)
qed

lemma scan_record:
  assumes "encodeRecord lsn type payload = Inr r" "0 < lsn"
  shows "scanRecord (pre @ r @ post) (length pre) lsn = RecordAt lsn type payload (length pre + length r)"
proof -
  have len: "length r = 21 + length payload" "length payload \<le> MAX_RECORD_PAYLOAD_SIZE"
    using encodeRecord_length[OF assms(1)] assms(1) by (simp_all add: encodeRecord_Inr RECORD_HEADER_SIZE_def)
  have "\<not> isZeroFilled (pre @ r @ post) (length pre) (length (pre @ r @ post))"
    using record_not_zero[OF assms, of "length r" post] len(1) by (simp add: isZeroFilled_def sub_bytes_def)
  then show ?thesis
    using len record_fields[OF assms(1), of pre post]
    unfolding scanRecord_def Let_def RECORD_HEADER_SIZE_def by (simp add: add.assoc)
qed

lemma scan_torn:
  assumes "encodeRecord lsn type payload = Inr r" "0 < lsn" "n < length r"
  shows "scanRecord (pre @ take n r) (length pre) lsn = (if n = 0 then EndOfLog else Torn)"
proof (cases "n < 21")
  case True
  then show ?thesis using assms(3) by (auto simp: scanRecord_def Let_def RECORD_HEADER_SIZE_def)
next
  case False
  let ?f = "be_bytes 4 (length payload) @ be_bytes 8 lsn @ byte1 (nat type)"
  let ?b = "pre @ take n r"
  have b: "length payload < 256 ^ 4" "lsn < 256 ^ 8" "length payload \<le> MAX_RECORD_PAYLOAD_SIZE"
    and r: "r = be_bytes 4 (crc32 ?f) @ ?f @ be_bytes 4 (crc32 payload) @ payload"
    using assms(1) by (auto simp: encodeRecord_Inr Let_def MAX_RECORD_PAYLOAD_SIZE_def)
  have t: "take n r = be_bytes 4 (crc32 ?f) @ ?f @ be_bytes 4 (crc32 payload) @ take (n - 21) payload"
    using False unfolding r by (simp add: take_append)
  have f: "sub_bytes (length pre + 4) (length pre + 17) ?b = ?f" "read_be 4 (length pre) ?b = crc32 ?f"
    "read_be 4 (length pre + 4) ?b = length payload" "read_be 8 (length pre + 8) ?b = lsn"
    using b unfolding t sub_bytes_def read_be_def by simp_all
  have z: "\<not> isZeroFilled ?b (length pre) (length ?b)"
    using record_not_zero[OF assms(1,2), of n "[]"] False assms(3) by (simp add: isZeroFilled_def sub_bytes_def min_def)
  have len: "length ?b = length pre + n" using assms(3) by simp
  show ?thesis
    using False z f b(3) assms(3) encodeRecord_length[OF assms(1)]
    unfolding scanRecord_def Let_def len RECORD_HEADER_SIZE_def by simp
qed

lemma scan_zeros:
  "scanRecord (pre @ replicate z 0) (length pre) lsn = (if z = 0 then EndOfLog else Torn)"
  by (auto simp: scanRecord_def Let_def isZeroFilled_def sub_bytes_def list_all_iff)

section \<open>Properties\<close>

text \<open>C9: the scanner finds every whole record, wherever it is in a segment, and never takes a record cut
  short at the end of the file, or zeros that were never written, for anything but the end of
  the log.\<close>

theorem scanner_exact:
  assumes "encodeRecord lsn type payload = Inr r" and "0 < lsn"
  shows "scanRecord (pre @ r @ post) (length pre) lsn = RecordAt lsn type payload (length pre + length r) \<and>
    (\<forall>n < length r. scanRecord (pre @ take n r) (length pre) lsn = (if n = 0 then EndOfLog else Torn)) \<and>
    (\<forall>z. scanRecord (pre @ replicate z 0) (length pre) lsn = (if z = 0 then EndOfLog else Torn))"
  using scan_record[OF assms] scan_torn[OF assms] scan_zeros by blast

theorem scanner_exact_witness:
  "\<exists>r. encodeRecord 1 1 [7] = Inr r \<and> scanRecord r 0 1 = RecordAt 1 1 [7] (length r) \<and> scanRecord (take 20 r) 0 1 = Torn"
proof -
  obtain r where r: "encodeRecord 1 1 [7] = Inr r"
    by (simp add: encodeRecord_def writeBigUInt64BE_def MAX_RECORD_PAYLOAD_SIZE_def Let_def)
  have "20 < length r" using encodeRecord_length[OF r] by (simp add: RECORD_HEADER_SIZE_def)
  then show ?thesis using r scanner_exact[OF r, of "[]" "[]"] by simp
qed

end
