(* ===== verification/Operations.thy ===== *)
theory Operations
  imports Index_Spec Wal_Format
begin

text \<open>
  \<open>packages/storage/src/engine/operations.ts\<close>: the payload of a log record is a list of operations.
  The reader is a state with an offset; \<open>readIndexSpec\<close> works on anything that reads names and
  bytes, as in the source, so its lemma lives in the locale \<open>field_reader\<close> that both readers of
  the engine interpret.
\<close>

definition RecordTransaction :: int where "RecordTransaction = 1"
definition ID_BYTE_LENGTH :: nat where "ID_BYTE_LENGTH = 16"
definition MAX_NAME_BYTE_LENGTH :: nat where "MAX_NAME_BYTE_LENGTH = 65535"

definition KindCreateCollection :: nat where "KindCreateCollection = 1"
definition KindPut :: nat where "KindPut = 2"
definition KindDelete :: nat where "KindDelete = 3"
definition KindCreateIndex :: nat where "KindCreateIndex = 4"
definition KindDropIndex :: nat where "KindDropIndex = 5"

lemmas operation_kinds = KindCreateCollection_def KindPut_def KindDelete_def KindCreateIndex_def KindDropIndex_def

datatype log_operation =
    LCreateCollection js_string js_string
  | LPut js_string js_string bytes bytes
  | LDelete js_string js_string bytes
  | LCreateIndex js_string js_string index_spec
  | LDropIndex js_string js_string js_string

section \<open>Encoding\<close>

definition writeUInt32BE :: "nat \<Rightarrow> failure + bytes" where
  "writeUInt32BE v = (if v < 2 ^ 32 then Inr (be_bytes 4 v) else Inl OutOfRange)"

definition encodeName :: "js_string \<Rightarrow> failure + bytes" where
  "encodeName name =
     (let bytes = text_encode name in
      if length bytes = 0 \<or> length bytes > MAX_NAME_BYTE_LENGTH then Inl RangeFailure
      else Inr (be_bytes 2 (length bytes) @ bytes))"

definition encodeId :: "bytes \<Rightarrow> failure + bytes" where
  "encodeId docId = (if length docId \<noteq> ID_BYTE_LENGTH then Inl RangeFailure else Inr docId)"

definition encodeBytes :: "bytes \<Rightarrow> failure + bytes" where
  "encodeBytes bytes = bindR (writeUInt32BE (length bytes)) (\<lambda>len. Inr (len @ bytes))"

definition UNIQUE_FLAG :: nat where "UNIQUE_FLAG = 1"
definition SPARSE_FLAG :: nat where "SPARSE_FLAG = 2"
definition DESCENDING_FLAG :: nat where "DESCENDING_FLAG = 4"

definition encodeIndexSpec :: "index_spec \<Rightarrow> failure + bytes" where
  "encodeIndexSpec spec =
     (let flags = (if is_unique spec then UNIQUE_FLAG else 0) OR (if is_sparse spec then SPARSE_FLAG else 0) OR
                  (if is_direction spec = - 1 then DESCENDING_FLAG else 0)
      in bindR (encodeName (is_name spec)) (\<lambda>name.
         bindR (encodeName (is_field spec)) (\<lambda>field. Inr (name @ field @ byte1 flags))))"

fun encodeOperation :: "log_operation \<Rightarrow> failure + bytes" where
  "encodeOperation (LCreateCollection database collection) =
     bindR (encodeName database) (\<lambda>d. bindR (encodeName collection) (\<lambda>c.
       Inr (byte1 KindCreateCollection @ d @ c)))"
| "encodeOperation (LPut database collection docId doc) =
     bindR (encodeName database) (\<lambda>d. bindR (encodeName collection) (\<lambda>c.
     bindR (encodeId docId) (\<lambda>i. bindR (encodeBytes doc) (\<lambda>b.
       Inr (byte1 KindPut @ d @ c @ i @ b)))))"
| "encodeOperation (LDelete database collection docId) =
     bindR (encodeName database) (\<lambda>d. bindR (encodeName collection) (\<lambda>c.
     bindR (encodeId docId) (\<lambda>i. Inr (byte1 KindDelete @ d @ c @ i))))"
| "encodeOperation (LCreateIndex database collection spec) =
     bindR (encodeName database) (\<lambda>d. bindR (encodeName collection) (\<lambda>c.
     bindR (encodeIndexSpec spec) (\<lambda>s. Inr (byte1 KindCreateIndex @ d @ c @ s))))"
| "encodeOperation (LDropIndex database collection name) =
     bindR (encodeName database) (\<lambda>d. bindR (encodeName collection) (\<lambda>c.
     bindR (encodeName name) (\<lambda>n. Inr (byte1 KindDropIndex @ d @ c @ n))))"

definition encodeOperations :: "log_operation list \<Rightarrow> failure + bytes" where
  "encodeOperations operations =
     bindR (writeUInt32BE (length operations)) (\<lambda>header.
     bindR (mapR encodeOperation operations) (\<lambda>parts. Inr (header @ concat parts)))"

section \<open>Decoding\<close>

definition malformed :: failure where "malformed = StorageError Corruption"

record op_reader =
  rd_buffer :: bytes
  rd_offset :: nat

definition rd_require :: "nat \<Rightarrow> (op_reader, unit) operation" where
  "rd_require len = getsS (\<lambda>r. if rd_offset r + len > length (rd_buffer r) then Inl malformed else Inr ())"

definition rd_bytes :: "nat \<Rightarrow> (op_reader, bytes) operation" where
  "rd_bytes len =
     bindS (rd_require len) (\<lambda>_.
     bindS (getsS (\<lambda>r. Inr (sub_bytes (rd_offset r) (rd_offset r + len) (rd_buffer r)))) (\<lambda>value.
     bindS (modifyS (\<lambda>r. r\<lparr>rd_offset := rd_offset r + len\<rparr>)) (\<lambda>_. returnS value)))"

definition rd_u8 :: "(op_reader, nat) operation" where
  "rd_u8 = bindS (rd_bytes 1) (\<lambda>b. returnS (be_nat b))"

definition rd_u16 :: "(op_reader, nat) operation" where
  "rd_u16 = bindS (rd_bytes 2) (\<lambda>b. returnS (be_nat b))"

definition rd_u32 :: "(op_reader, nat) operation" where
  "rd_u32 = bindS (rd_bytes 4) (\<lambda>b. returnS (be_nat b))"

definition rd_name :: "(op_reader, js_string) operation" where
  "rd_name =
     bindS rd_u16 (\<lambda>len.
       if len = 0 then throwS malformed
       else bindS (rd_bytes len) (\<lambda>raw.
         case text_decode raw of None \<Rightarrow> throwS malformed | Some s \<Rightarrow> returnS s))"

definition rd_finish :: "(op_reader, unit) operation" where
  "rd_finish = getsS (\<lambda>r. if rd_offset r \<noteq> length (rd_buffer r) then Inl malformed else Inr ())"

definition readIndexSpec :: "('r, js_string) operation \<Rightarrow> ('r, nat) operation \<Rightarrow> ('r, index_spec) operation" where
  "readIndexSpec name u8 =
     bindS name (\<lambda>n. bindS name (\<lambda>field. bindS u8 (\<lambda>flags.
       fromR (mapErr (\<lambda>_. malformed)
         (normalizeIndexSpec \<lparr>ci_field = Some (DString field),
            ci_direction = Some (DNumber (num_of_int (if flags AND DESCENDING_FLAG = 0 then 1 else - 1))),
            ci_unique = Some (DBool (flags AND UNIQUE_FLAG \<noteq> 0)),
            ci_sparse = Some (DBool (flags AND SPARSE_FLAG \<noteq> 0)),
            ci_name = Some (DString n)\<rparr>)))))"

definition decodeOperation :: "(op_reader, log_operation) operation" where
  "decodeOperation =
     bindS rd_u8 (\<lambda>kind.
       if kind = KindCreateCollection then
         bindS rd_name (\<lambda>d. bindS rd_name (\<lambda>c. returnS (LCreateCollection d c)))
       else if kind = KindPut then
         bindS rd_name (\<lambda>d. bindS rd_name (\<lambda>c. bindS (rd_bytes ID_BYTE_LENGTH) (\<lambda>i.
         bindS rd_u32 (\<lambda>len. bindS (rd_bytes len) (\<lambda>b. returnS (LPut d c i b))))))
       else if kind = KindDelete then
         bindS rd_name (\<lambda>d. bindS rd_name (\<lambda>c. bindS (rd_bytes ID_BYTE_LENGTH) (\<lambda>i. returnS (LDelete d c i))))
       else if kind = KindCreateIndex then
         bindS rd_name (\<lambda>d. bindS rd_name (\<lambda>c. bindS (readIndexSpec rd_name rd_u8) (\<lambda>s. returnS (LCreateIndex d c s))))
       else if kind = KindDropIndex then
         bindS rd_name (\<lambda>d. bindS rd_name (\<lambda>c. bindS rd_name (\<lambda>n. returnS (LDropIndex d c n))))
       else throwS malformed)"

text \<open>A loop that runs a reading step \<open>n\<close> times.\<close>

fun read_times :: "nat \<Rightarrow> ('r, 'a) operation \<Rightarrow> ('r, 'a list) operation" where
  "read_times 0 m = returnS []"
| "read_times (Suc n) m = bindS m (\<lambda>x. bindS (read_times n m) (\<lambda>xs. returnS (x # xs)))"

definition decodeOperations :: "bytes \<Rightarrow> failure + log_operation list" where
  "decodeOperations payload =
     fst (bindS rd_u32 (\<lambda>count.
          bindS (read_times count decodeOperation) (\<lambda>operations.
          bindS rd_finish (\<lambda>_. returnS operations))) \<lparr>rd_buffer = payload, rd_offset = 0\<rparr>)"

section \<open>Reading what was written\<close>

text \<open>A name that survives: \<open>TextEncoder\<close> replaces lone surrogates, \<open>TextDecoder\<close> drops a byte order mark.\<close>

definition name_ok :: "js_string \<Rightarrow> bool" where
  "name_ok s \<longleftrightarrow> isWellFormed s \<and> bom_free_string s"

definition spec_normal :: "index_spec \<Rightarrow> bool" where
  "spec_normal spec \<longleftrightarrow> (\<exists>input. normalizeIndexSpec input = Inr spec)"

definition spec_input :: "index_spec \<Rightarrow> create_index_input" where
  "spec_input spec = \<lparr>ci_field = Some (DString (is_field spec)), ci_direction = Some (DNumber (num_of_int (is_direction spec))),
     ci_unique = Some (DBool (is_unique spec)), ci_sparse = Some (DBool (is_sparse spec)), ci_name = Some (DString (is_name spec))\<rparr>"

lemma sort_direction_num: "d = 1 \<or> d = - 1 \<Longrightarrow> sort_direction (DNumber (num_of_int d)) = Some d"
  using num_of_int_exact(2)[of 1] num_of_int_exact(2)[of "- 1"] by (auto simp: sort_direction_def)

lemma normalize_Inr:
  assumes "normalizeIndexSpec input = Inr spec"
  shows "is_field spec \<noteq> []" "\<not> list_ex index_segment_reserved (split_path (is_field spec))"
    "is_field spec \<noteq> js ''_id''" "\<not> starts_with (js ''_id.'') (is_field spec)"
    "is_direction spec = 1 \<or> is_direction spec = - 1" "valid_index_name (is_name spec)"
proof -
  obtain field where f: "ci_field input = Some (DString field)"
    using assms by (auto simp: normalizeIndexSpec_def invalidIndex_def split: option.splits doc_value.splits)
  have g: "field \<noteq> []" "\<not> list_ex index_segment_reserved (split_path field)" "field \<noteq> js ''_id''"
    "\<not> starts_with (js ''_id.'') field"
    using assms by (auto simp: normalizeIndexSpec_def invalidIndex_def f split: if_splits)
  obtain d where d: "sort_direction (nullish (ci_direction input) (DNumber (num_of_int 1))) = Some d"
    using assms g by (auto simp: normalizeIndexSpec_def invalidIndex_def f split: option.splits)
  obtain u s where us: "readFlag (ci_unique input) = Inr u" "readFlag (ci_sparse input) = Inr s"
    using assms g d by (auto simp: normalizeIndexSpec_def f)
  obtain n where n: "nullish (ci_name input) (DString (field @ direction_suffix d)) = DString n"
    using assms g d us by (auto simp: normalizeIndexSpec_def invalidIndex_def f split: doc_value.splits)
  have "valid_index_name n" and spec: "spec = \<lparr>is_name = n, is_field = field, is_direction = d, is_unique = u, is_sparse = s\<rparr>"
    using assms g d us n by (auto simp: normalizeIndexSpec_def invalidIndex_def f split: if_splits)
  moreover have "d = 1 \<or> d = - 1" using d by (auto simp: sort_direction_def split: if_splits)
  ultimately show "is_field spec \<noteq> []" "\<not> list_ex index_segment_reserved (split_path (is_field spec))"
    "is_field spec \<noteq> js ''_id''" "\<not> starts_with (js ''_id.'') (is_field spec)"
    "is_direction spec = 1 \<or> is_direction spec = - 1" "valid_index_name (is_name spec)"
    using g by simp_all
qed

lemma normalize_again:
  assumes "spec_normal spec"
  shows "normalizeIndexSpec (spec_input spec) = Inr spec" "is_direction spec = 1 \<or> is_direction spec = - 1"
proof -
  from assms obtain input where n: "normalizeIndexSpec input = Inr spec" by (auto simp: spec_normal_def)
  note f = normalize_Inr[OF n]
  show "is_direction spec = 1 \<or> is_direction spec = - 1" by (rule f(5))
  show "normalizeIndexSpec (spec_input spec) = Inr spec"
    using f sort_direction_num[OF f(5)] by (simp add: normalizeIndexSpec_def spec_input_def nullish_def readFlag_def)
qed

text \<open>
  The contract of a reader: what is left to read, how far it has advanced, and what its methods
  return when the bytes are there.
\<close>

locale field_reader =
  fixes valid :: "'r \<Rightarrow> bool" and rest :: "'r \<Rightarrow> bytes" and adv :: "nat \<Rightarrow> 'r \<Rightarrow> 'r"
    and read_bytes :: "nat \<Rightarrow> ('r, bytes) operation"
    and u8 u16 u32 :: "('r, nat) operation" and name :: "('r, js_string) operation"
  assumes valid_adv: "valid r \<Longrightarrow> n \<le> length (rest r) \<Longrightarrow> valid (adv n r)"
    and rest_adv: "n \<le> length (rest r) \<Longrightarrow> rest (adv n r) = drop n (rest r)"
    and adv_adv: "adv m (adv n r) = adv (n + m) r" and adv_0: "adv 0 r = r"
    and read_bytes: "valid r \<Longrightarrow> n \<le> length (rest r) \<Longrightarrow> read_bytes n r = (Inr (take n (rest r)), adv n r)"
    and read_u8: "valid r \<Longrightarrow> 1 \<le> length (rest r) \<Longrightarrow> u8 r = (Inr (be_nat (take 1 (rest r))), adv 1 r)"
    and read_u16: "valid r \<Longrightarrow> 2 \<le> length (rest r) \<Longrightarrow> u16 r = (Inr (be_nat (take 2 (rest r))), adv 2 r)"
    and read_u32: "valid r \<Longrightarrow> 4 \<le> length (rest r) \<Longrightarrow> u32 r = (Inr (be_nat (take 4 (rest r))), adv 4 r)"
    and read_name: "valid r \<Longrightarrow> rest r = be_bytes 2 (length e) @ e @ bs \<Longrightarrow> 0 < length e \<Longrightarrow> length e < 65536 \<Longrightarrow>
      text_decode e = Some s \<Longrightarrow> name r = (Inr s, adv (2 + length e) r)"
begin

text \<open>The step \<open>m\<close> reads \<open>x\<close> from exactly the bytes \<open>e\<close>.\<close>

definition reads :: "('r, 'a) operation \<Rightarrow> 'a \<Rightarrow> bytes \<Rightarrow> bool" where
  "reads m x e \<longleftrightarrow> (\<forall>r bs. valid r \<and> rest r = e @ bs \<longrightarrow> m r = (Inr x, adv (length e) r))"

lemma readsD: "reads m x e \<Longrightarrow> valid r \<Longrightarrow> rest r = e @ bs \<Longrightarrow> m r = (Inr x, adv (length e) r)"
  by (simp add: reads_def)

lemma reads_bind:
  assumes "reads m x e" "reads (f x) y e'"
  shows "reads (bindS m f) y (e @ e')"
  unfolding reads_def
proof (intro allI impI)
  fix r bs
  assume "valid r \<and> rest r = (e @ e') @ bs"
  then have r: "valid r" "rest r = (e @ e') @ bs" by simp_all
  have "m r = (Inr x, adv (length e) r)" using readsD[OF assms(1), of r "e' @ bs"] r by simp
  moreover have "f x (adv (length e) r) = (Inr y, adv (length e') (adv (length e) r))"
    using readsD[OF assms(2), of "adv (length e) r" bs] valid_adv[of r "length e"] rest_adv[of "length e" r] r by simp
  ultimately show "bindS m f r = (Inr y, adv (length (e @ e')) r)" by (simp add: bindS_def adv_adv)
qed

lemma reads_return: "reads (returnS x) x []"
  by (simp add: reads_def returnS_def adv_0)

lemma reads_bind_return: "reads m x e \<Longrightarrow> reads (bindS m (\<lambda>z. returnS (g z))) (g x) e"
  using reads_bind[of m x e "\<lambda>z. returnS (g z)", OF _ reads_return] by simp

lemma reads_times:
  assumes "list_all2 (reads m) xs es"
  shows "reads (read_times (length xs) m) xs (concat es)"
  using assms
proof (induction rule: list_all2_induct)
  case Nil
  then show ?case by (simp add: reads_return)
next
  case (Cons x xs e es)
  then show ?case by (simp add: reads_bind[OF Cons.hyps(1)] reads_bind_return)
qed

lemma reads_bytes: "reads (read_bytes (length e)) e e"
  by (simp add: reads_def read_bytes)

lemma reads_u8: "v < 256 \<Longrightarrow> reads u8 v (byte1 v)"
  by (simp add: reads_def read_u8)

lemma reads_u16: "v < 65536 \<Longrightarrow> reads u16 v (be_bytes 2 v)"
  by (simp add: reads_def read_u16)

lemma reads_u32: "v < 4294967296 \<Longrightarrow> reads u32 v (be_bytes 4 v)"
  by (simp add: reads_def read_u32)

lemma reads_name:
  assumes "encodeName s = Inr e" "name_ok s"
  shows "reads name s e"
proof -
  have e: "e = be_bytes 2 (length (text_encode s)) @ text_encode s" "0 < length (text_encode s)" "length (text_encode s) < 65536"
    using assms(1) by (auto simp: encodeName_def Let_def MAX_NAME_BYTE_LENGTH_def split: if_splits)
  have "text_decode (text_encode s) = Some s"
    using assms(2) text_decode_encode by (simp add: name_ok_def bom_free_string_iff)
  with e show ?thesis by (simp add: reads_def read_name)
qed

lemma flag_bits:
  "(if u then UNIQUE_FLAG else 0) OR (if s then SPARSE_FLAG else 0) OR (if d then DESCENDING_FLAG else 0) < 256"
  "((if u then UNIQUE_FLAG else 0) OR (if s then SPARSE_FLAG else 0) OR (if d then DESCENDING_FLAG else 0)) AND DESCENDING_FLAG = 0
     \<longleftrightarrow> \<not> d"
  "((if u then UNIQUE_FLAG else 0) OR (if s then SPARSE_FLAG else 0) OR (if d then DESCENDING_FLAG else 0)) AND UNIQUE_FLAG = 0
     \<longleftrightarrow> \<not> u"
  "((if u then UNIQUE_FLAG else 0) OR (if s then SPARSE_FLAG else 0) OR (if d then DESCENDING_FLAG else 0)) AND SPARSE_FLAG = 0
     \<longleftrightarrow> \<not> s"
  by (cases u; cases s; cases d; simp add: UNIQUE_FLAG_def SPARSE_FLAG_def DESCENDING_FLAG_def)+

lemma reads_index_spec:
  assumes "encodeIndexSpec spec = Inr e" "spec_normal spec" "name_ok (is_name spec)" "name_ok (is_field spec)"
  shows "reads (readIndexSpec name u8) spec e"
proof -
  let ?flags = "(if is_unique spec then UNIQUE_FLAG else 0) OR (if is_sparse spec then SPARSE_FLAG else 0) OR
    (if is_direction spec = - 1 then DESCENDING_FLAG else 0)"
  obtain n f where nf: "encodeName (is_name spec) = Inr n" "encodeName (is_field spec) = Inr f" "e = n @ f @ byte1 ?flags"
    using assms(1) by (auto simp: encodeIndexSpec_def Let_def)
  have d: "(if is_direction spec \<noteq> - 1 then 1 else - 1) = is_direction spec" using normalize_again(2)[OF assms(2)] by auto
  show ?thesis
    unfolding nf(3) readIndexSpec_def
  proof (intro reads_bind[OF reads_name[OF nf(1) assms(3)]] reads_bind[OF reads_name[OF nf(2) assms(4)]])
    have "reads (fromR (Inr spec)) spec []" by (simp add: reads_def fromR_def adv_0)
    then show "reads (bindS u8 (\<lambda>flags. fromR (mapErr (\<lambda>_. malformed) (normalizeIndexSpec
        \<lparr>ci_field = Some (DString (is_field spec)),
         ci_direction = Some (DNumber (num_of_int (if flags AND DESCENDING_FLAG = 0 then 1 else - 1))),
         ci_unique = Some (DBool (flags AND UNIQUE_FLAG \<noteq> 0)), ci_sparse = Some (DBool (flags AND SPARSE_FLAG \<noteq> 0)),
         ci_name = Some (DString (is_name spec))\<rparr>)))) spec (byte1 ?flags)"
      using normalize_again(1)[OF assms(2)] d
      by (intro reads_bind[OF reads_u8[OF flag_bits(1)], where e' = "[]", simplified]) (simp add: flag_bits spec_input_def)
  qed
qed

end

section \<open>Round trip\<close>

lemma rd_bytes_run:
  assumes "rd_offset r + n \<le> length (rd_buffer r)"
  shows "rd_bytes n r = (Inr (take n (drop (rd_offset r) (rd_buffer r))), r\<lparr>rd_offset := rd_offset r + n\<rparr>)"
  using assms by (simp add: rd_bytes_def rd_require_def operation_defs sub_bytes_def)

interpretation op: field_reader "\<lambda>r. rd_offset r \<le> length (rd_buffer r)" "\<lambda>r. drop (rd_offset r) (rd_buffer r)"
  "\<lambda>n r. r\<lparr>rd_offset := rd_offset r + n\<rparr>" rd_bytes rd_u8 rd_u16 rd_u32 rd_name
proof unfold_locales
  fix r :: op_reader and e bs s
  assume v: "rd_offset r \<le> length (rd_buffer r)" and r: "drop (rd_offset r) (rd_buffer r) = be_bytes 2 (length e) @ e @ bs"
    and e: "0 < length e" "length e < 65536" "text_decode e = Some s"
  have "length (rd_buffer r) - rd_offset r = 2 + length e + length bs"
    using arg_cong[OF r, of length] by simp
  then have l: "rd_offset r + 2 \<le> length (rd_buffer r)" "rd_offset r + 2 + length e \<le> length (rd_buffer r)" using v by simp_all
  have "drop (rd_offset r + 2) (rd_buffer r) = e @ bs"
    using arg_cong[OF r, of "drop 2"] by (simp add: add.commute)
  then show "rd_name r = (Inr s, r\<lparr>rd_offset := rd_offset r + (2 + length e)\<rparr>)"
    using l r e by (simp add: rd_name_def rd_u16_def bindS_def rd_bytes_run returnS_def add.assoc)
qed (simp_all add: rd_bytes_run rd_u8_def rd_u16_def rd_u32_def bindS_def returnS_def add.commute add.left_commute add.assoc)

text \<open>The operations that survive the log: their names do and their index definitions are normal.\<close>

fun log_operation_ok :: "log_operation \<Rightarrow> bool" where
  "log_operation_ok (LCreateCollection d c) = (name_ok d \<and> name_ok c)"
| "log_operation_ok (LPut d c i b) = (name_ok d \<and> name_ok c)"
| "log_operation_ok (LDelete d c i) = (name_ok d \<and> name_ok c)"
| "log_operation_ok (LCreateIndex d c s) = (name_ok d \<and> name_ok c \<and> spec_normal s \<and> name_ok (is_name s) \<and> name_ok (is_field s))"
| "log_operation_ok (LDropIndex d c n) = (name_ok d \<and> name_ok c \<and> name_ok n)"

lemma reads_kind:
  assumes "kind < 256" "op.reads (f kind) x e"
  shows "op.reads (bindS rd_u8 f) x (byte1 kind @ e)"
  using assms by (intro op.reads_bind[OF op.reads_u8])

lemma reads_two_names:
  assumes "encodeName d = Inr d'" "encodeName c = Inr c'" "name_ok d" "name_ok c" "op.reads (f d c) x e"
  shows "op.reads (bindS rd_name (\<lambda>d. bindS rd_name (f d))) x (d' @ c' @ e)"
  using assms by (intro op.reads_bind[OF op.reads_name])

lemma reads_id: "encodeId i = Inr i' \<Longrightarrow> op.reads (rd_bytes ID_BYTE_LENGTH) i i'"
  using op.reads_bytes[of i] by (auto simp: encodeId_def split: if_splits)

lemma reads_document:
  assumes "encodeBytes b = Inr e"
  shows "op.reads (bindS rd_u32 (\<lambda>len. bindS (rd_bytes len) (\<lambda>b. returnS (g b)))) (g b) e"
proof -
  have e: "e = be_bytes 4 (length b) @ b" "length b < 4294967296"
    using assms by (auto simp: encodeBytes_def writeUInt32BE_def split: if_splits)
  show ?thesis unfolding e(1)
    by (rule op.reads_bind[OF op.reads_u32[OF e(2)]], rule op.reads_bind_return[OF op.reads_bytes])
qed

lemma reads_operation:
  assumes "encodeOperation x = Inr e" "log_operation_ok x"
  shows "op.reads decodeOperation x e"
proof (cases x)
  case (LCreateCollection d c)
  with assms obtain d' c' where e: "encodeName d = Inr d'" "encodeName c = Inr c'" "e = byte1 KindCreateCollection @ d' @ c' @ []" by auto
  show ?thesis using assms(2) unfolding decodeOperation_def LCreateCollection e(3)
    by (intro reads_kind) (simp_all add: operation_kinds reads_two_names[OF e(1,2), where e = "[]", simplified] op.reads_return)
next
  case (LPut d c i b)
  with assms obtain d' c' i' b' where e: "encodeName d = Inr d'" "encodeName c = Inr c'" "encodeId i = Inr i'" "encodeBytes b = Inr b'"
      "e = byte1 KindPut @ d' @ c' @ i' @ b'" by auto
  show ?thesis using assms(2) unfolding decodeOperation_def LPut e(5)
    by (intro reads_kind)
       (simp_all add: operation_kinds reads_two_names[OF e(1,2)] op.reads_bind[OF reads_id[OF e(3)]] reads_document[OF e(4)])
next
  case (LDelete d c i)
  with assms obtain d' c' i' where e: "encodeName d = Inr d'" "encodeName c = Inr c'" "encodeId i = Inr i'"
      "e = byte1 KindDelete @ d' @ c' @ i'" by auto
  show ?thesis using assms(2) unfolding decodeOperation_def LDelete e(4)
    by (intro reads_kind)
       (simp_all add: operation_kinds reads_two_names[OF e(1,2)] op.reads_bind_return[OF reads_id[OF e(3)]])
next
  case (LCreateIndex d c s)
  with assms obtain d' c' s' where e: "encodeName d = Inr d'" "encodeName c = Inr c'" "encodeIndexSpec s = Inr s'"
      "e = byte1 KindCreateIndex @ d' @ c' @ s'" by auto
  show ?thesis using assms(2) unfolding decodeOperation_def LCreateIndex e(4)
    by (intro reads_kind)
       (simp_all add: operation_kinds reads_two_names[OF e(1,2)] op.reads_bind_return[OF op.reads_index_spec[OF e(3)]])
next
  case (LDropIndex d c n)
  with assms obtain d' c' n' where e: "encodeName d = Inr d'" "encodeName c = Inr c'" "encodeName n = Inr n'"
      "e = byte1 KindDropIndex @ d' @ c' @ n'" by auto
  show ?thesis using assms(2) unfolding decodeOperation_def LDropIndex e(4)
    by (intro reads_kind)
       (simp_all add: operation_kinds reads_two_names[OF e(1,2)] op.reads_bind_return[OF op.reads_name[OF e(3)]])
qed

lemma decode_encode_operations:
  assumes "encodeOperations xs = Inr payload" "\<forall>x \<in> set xs. log_operation_ok x"
  shows "decodeOperations payload = Inr xs"
proof -
  obtain es where es: "mapR encodeOperation xs = Inr es" "payload = be_bytes 4 (length xs) @ concat es" "length xs < 4294967296"
    using assms(1) by (auto simp: encodeOperations_def writeUInt32BE_def split: if_splits)
  have "list_all2 (op.reads decodeOperation) xs es"
    using es(1) assms(2) unfolding mapR_Inr_list_all2 by (auto simp: list_all2_conv_all_nth reads_operation)
  then have "op.reads (bindS rd_u32 (\<lambda>count. read_times count decodeOperation)) xs payload"
    unfolding es(2) by (intro op.reads_bind[OF op.reads_u32[OF es(3)]] op.reads_times)
  from op.readsD[OF this, of "\<lparr>rd_buffer = payload, rd_offset = 0\<rparr>" "[]"]
  have "bindS rd_u32 (\<lambda>count. read_times count decodeOperation) \<lparr>rd_buffer = payload, rd_offset = 0\<rparr> =
      (Inr xs, \<lparr>rd_buffer = payload, rd_offset = length payload\<rparr>)" by simp
  then show ?thesis
    by (auto simp: decodeOperations_def bindS_def rd_finish_def getsS_def returnS_def split: prod.splits sum.splits)
qed

section \<open>Properties\<close>



end
