(* ===== verification/Custom_Id.thy ===== *)
theory Custom_Id
  imports Js_Document
begin

text \<open>
  \<open>packages/protocol/src/custom-id.ts\<close>. An id is its 16 bytes. The clock and the random
  source of \<open>generate\<close> are arguments.
\<close>

definition CUSTOM_ID_BYTE_LENGTH :: nat where
  "CUSTOM_ID_BYTE_LENGTH = 16"

definition CUSTOM_ID_HEX_LENGTH :: nat where
  "CUSTOM_ID_HEX_LENGTH = CUSTOM_ID_BYTE_LENGTH * 2"

definition TIMESTAMP_BYTE_LENGTH :: nat where
  "TIMESTAMP_BYTE_LENGTH = 6"

definition MAX_TIMESTAMP :: int where
  "MAX_TIMESTAMP = 0xffffffffffff"

datatype custom_id_error = TypeError | RangeError

text \<open>
  \<open>writeTimestamp\<close> stores the low byte last and shifts right: the bytes of the index \<open>5\<close>
  down to \<open>0\<close>.
\<close>

fun timestamp_bytes :: "nat \<Rightarrow> nat \<Rightarrow> bytes" where
  "timestamp_bytes 0 remaining = []"
| "timestamp_bytes (Suc n) remaining = timestamp_bytes n (remaining div 256) @ [of_nat (remaining mod 256)]"

definition writeTimestamp :: "js_number \<Rightarrow> custom_id_error + bytes" where
  "writeTimestamp value =
     (if \<not> isSafeInteger value \<or> num_int value < 0 \<or> MAX_TIMESTAMP < num_int value then Inl RangeError
      else Inr (timestamp_bytes TIMESTAMP_BYTE_LENGTH (nat (num_int value))))"

definition generate :: "js_number \<Rightarrow> bytes \<Rightarrow> custom_id_error + bytes" where
  "generate now random = bindR (writeTimestamp now) (\<lambda>ts. Inr (ts @ random))"

definition fromBytes :: "bytes \<Rightarrow> custom_id_error + bytes" where
  "fromBytes value = (if length value \<noteq> CUSTOM_ID_BYTE_LENGTH then Inl TypeError else Inr value)"

definition hex_digit :: "nat \<Rightarrow> 16 word" where
  "hex_digit n = (if n < 10 then of_nat (0x30 + n) else of_nat (0x57 + n))"

definition hex_value :: "16 word \<Rightarrow> nat option" where
  "hex_value u =
     (if 0x30 \<le> u \<and> u \<le> 0x39 then Some (unat u - 0x30)
      else if 0x61 \<le> u \<and> u \<le> 0x66 then Some (unat u - 0x57)
      else if 0x41 \<le> u \<and> u \<le> 0x46 then Some (unat u - 0x37)
      else None)"

definition toHexString :: "bytes \<Rightarrow> js_string" where
  "toHexString bs = concat (map (\<lambda>b. [hex_digit (unat b div 16), hex_digit (unat b mod 16)]) bs)"

fun parse_hex :: "js_string \<Rightarrow> bytes" where
  "parse_hex (u # v # rest) =
     (case (hex_value u, hex_value v) of
        (Some a, Some b) \<Rightarrow> of_nat (a * 16 + b) # parse_hex rest
      | _ \<Rightarrow> [])"
| "parse_hex _ = []"

definition fromHexString :: "js_string \<Rightarrow> custom_id_error + bytes" where
  "fromHexString value =
     (if length value \<noteq> CUSTOM_ID_HEX_LENGTH \<or> \<not> list_all (\<lambda>u. hex_value u \<noteq> None) value
      then Inl TypeError else Inr (parse_hex value))"

definition timestamp :: "bytes \<Rightarrow> nat" where
  "timestamp bs = foldl (\<lambda>ms b. ms * 256 + unat b) 0 (take TIMESTAMP_BYTE_LENGTH bs)"

definition id_equals :: "bytes \<Rightarrow> bytes \<Rightarrow> bool" where
  "id_equals a b \<longleftrightarrow> list_all (\<lambda>i. i < length b \<and> a ! i = b ! i) [0..<length a]"

section \<open>Lemmas\<close>

lemma hex_digit_unat: "n < 16 \<Longrightarrow> unat (hex_digit n) = (if n < 10 then 0x30 + n else 0x57 + n)"
  by (simp add: hex_digit_def unat_of_nat del: of_nat_add)

lemma hex_value_digit [simp]: "n < 16 \<Longrightarrow> hex_value (hex_digit n) = Some n"
  using hex_digit_unat[of n]
  by (auto simp: hex_value_def word_le_nat_alt split: if_splits)

lemma parse_hex_toHexString [simp]: "parse_hex (toHexString bs) = bs"
proof (induction bs)
  case (Cons b bs)
  have "unat b div 16 < 16" "unat b mod 16 < 16" using unat_u8_less[of b] by linarith+
  moreover have "of_nat (unat b div 16 * 16 + unat b mod 16) = b" by simp
  ultimately show ?case using Cons by (simp add: toHexString_def del: of_nat_add of_nat_mult)
qed (simp add: toHexString_def)

lemma length_toHexString [simp]: "length (toHexString bs) = 2 * length bs"
  by (induction bs) (simp_all add: toHexString_def)

lemma toHexString_digits: "list_all (\<lambda>u. hex_value u \<noteq> None) (toHexString bs)"
proof -
  have "hex_value u \<noteq> None" if "u \<in> set (toHexString bs)" for u
  proof -
    from that obtain b :: u8 where "u = hex_digit (unat b div 16) \<or> u = hex_digit (unat b mod 16)"
      by (auto simp: toHexString_def)
    moreover have "unat b div 16 < 16" "unat b mod 16 < 16" using unat_u8_less[of b] by linarith+
    ultimately show ?thesis by auto
  qed
  then show ?thesis by (simp add: list_all_iff)
qed

lemma toHexString_inj: "toHexString a = toHexString b \<longleftrightarrow> a = b"
  by (metis parse_hex_toHexString)

lemma fromHexString_toHexString:
  "length bs = CUSTOM_ID_BYTE_LENGTH \<Longrightarrow> fromHexString (toHexString bs) = Inr bs"
  using toHexString_digits[of bs] by (simp add: fromHexString_def CUSTOM_ID_HEX_LENGTH_def)

lemma timestamp_bytes_be: "timestamp_bytes n v = be_bytes n v"
proof (induction n arbitrary: v)
  case (Suc n)
  have "be_bytes (Suc n) v = be_bytes n (v div 256) @ [of_nat (v mod 256)]" for v
  proof (induction n arbitrary: v)
    case 0
    have "of_nat v = (of_nat (v mod 256) :: u8)" by (simp only: word_unat_eq_iff unat_of_nat) simp
    then show ?case by (simp add: be_bytes.simps)
  next
    case (Suc n)
    have "v div 256 ^ Suc n = v div 256 div 256 ^ n" by (simp add: div_mult2_eq)
    then have "be_bytes (Suc (Suc n)) v = of_nat (v div 256 div 256 ^ n) # be_bytes (Suc n) v"
      by (simp only: be_bytes.simps(2)[of "Suc n" v])
    also have "\<dots> = (of_nat (v div 256 div 256 ^ n) # be_bytes n (v div 256)) @ [of_nat (v mod 256)]"
      by (simp only: Suc append_Cons)
    also have "of_nat (v div 256 div 256 ^ n) # be_bytes n (v div 256) = be_bytes (Suc n) (v div 256)"
      by (simp only: be_bytes.simps(2)[of n "v div 256"])
    finally show ?case .
  qed
  with Suc show ?case by simp
qed simp

lemma timestamp_be: "timestamp bs = be_nat (take 6 bs)"
  by (simp add: timestamp_def be_nat_def TIMESTAMP_BYTE_LENGTH_def)

lemma generate_timestamp:
  assumes "generate now random = Inr bs"
  shows "timestamp bs = nat (num_int now)" and "length bs = 6 + length random"
proof -
  from assms have b: "0 \<le> num_int now" "num_int now \<le> MAX_TIMESTAMP"
    "bs = be_bytes 6 (nat (num_int now)) @ random"
    by (auto simp: generate_def writeTimestamp_def timestamp_bytes_be TIMESTAMP_BYTE_LENGTH_def split: if_splits)
  from b(2) have "nat (num_int now) < 256 ^ 6" by (simp add: MAX_TIMESTAMP_def nat_less_iff)
  with b(3) show "timestamp bs = nat (num_int now)" by (simp add: timestamp_be)
  from b(3) show "length bs = 6 + length random" by simp
qed

lemma generate_ordered:
  assumes "generate t1 r1 = Inr a" and "generate t2 r2 = Inr b" and "num_int t1 < num_int t2"
  shows "timestamp a < timestamp b"
proof -
  have "0 \<le> num_int t1"
    using assms(1) by (cases "num_int t1 < 0") (simp_all add: generate_def writeTimestamp_def)
  with assms(3) have "nat (num_int t1) < nat (num_int t2)" by linarith
  then show ?thesis
    by (simp only: generate_timestamp(1)[OF assms(1)] generate_timestamp(1)[OF assms(2)])
qed

lemma id_equals_iff:
  assumes "length a = length b"
  shows "id_equals a b \<longleftrightarrow> a = b"
proof
  assume "id_equals a b"
  then have "\<forall>i < length a. a ! i = b ! i"
    by (simp add: id_equals_def list_all_iff)
  with assms show "a = b" by (simp add: list_eq_iff_nth_eq)
next
  assume "a = b"
  then show "id_equals a b" by (simp add: id_equals_def list_all_iff)
qed

section \<open>Properties\<close>

text \<open>C30: the hexadecimal form of an id determines it, and every string \<open>fromHexString\<close> accepts is,
  up to letter case, the form of the id it returns.\<close>

theorem custom_id_hex_round_trip:
  assumes "length bs = CUSTOM_ID_BYTE_LENGTH"
  shows "fromHexString (toHexString bs) = Inr bs \<and> length (toHexString bs) = CUSTOM_ID_HEX_LENGTH \<and>
    (\<forall>cs. length cs = CUSTOM_ID_BYTE_LENGTH \<longrightarrow> toHexString cs = toHexString bs \<longrightarrow> cs = bs)"
  using assms fromHexString_toHexString[OF assms] fromHexString_toHexString
  by (metis Inr_inject fromHexString_def Inl_Inr_False)

theorem custom_id_hex_round_trip_witness:
  "fromHexString (toHexString (replicate 16 0xab)) = Inr (replicate 16 0xab)"
  using custom_id_hex_round_trip[of "replicate 16 0xab"] by (simp add: CUSTOM_ID_BYTE_LENGTH_def)

text \<open>C31: ids carry their creation time: the timestamp of a generated id is the clock value, and a
  later clock value gives a larger timestamp; clock values outside 48 bits are refused.\<close>

theorem custom_id_timestamp:
  assumes "generate t1 r1 = Inr a" and "generate t2 r2 = Inr b"
  shows "timestamp a = nat (num_int t1) \<and> 0 \<le> num_int t1 \<and> num_int t1 \<le> MAX_TIMESTAMP \<and>
    (num_int t1 < num_int t2 \<longrightarrow> timestamp a < timestamp b)"
  using generate_timestamp(1)[OF assms(1)] generate_ordered[OF assms]  assms(1)
  by (auto simp: generate_def writeTimestamp_def split: if_splits)

lemma generate_small:
  assumes "0 \<le> i" and "i \<le> MAX_TIMESTAMP"
  shows "generate (num_of_int i) random = Inr (timestamp_bytes TIMESTAMP_BYTE_LENGTH (nat i) @ random)"
proof -
  have "\<bar>i\<bar> < 2 ^ 53" using assms by (simp add: MAX_TIMESTAMP_def)
  then show ?thesis using assms num_of_int_exact[of i]
    by (simp add: generate_def writeTimestamp_def isSafeInteger_def MAX_SAFE_INTEGER_def)
qed

theorem custom_id_timestamp_witness:
  "timestamp (timestamp_bytes TIMESTAMP_BYTE_LENGTH 5 @ replicate 10 0) <
   timestamp (timestamp_bytes TIMESTAMP_BYTE_LENGTH 9 @ replicate 10 1)"
proof -
  have n: "num_int (num_of_int 5) = 5" "num_int (num_of_int 9) = 9" by (simp_all add: num_of_int_exact)
  have g: "generate (num_of_int 5) (replicate 10 0) = Inr (timestamp_bytes TIMESTAMP_BYTE_LENGTH 5 @ replicate 10 0)"
    "generate (num_of_int 9) (replicate 10 1) = Inr (timestamp_bytes TIMESTAMP_BYTE_LENGTH 9 @ replicate 10 1)"
    using generate_small[of 5] generate_small[of 9] by (simp_all add: MAX_TIMESTAMP_def)
  show ?thesis using custom_id_timestamp[OF g] n by simp
qed

end
