(* ===== verification/File_System.thy ===== *)
theory File_System
  imports Storage_Effects Js_String
begin

text \<open>
  The part of \<open>node:fs\<close> the storage engine uses, as operations on a state. A path is a directory
  and a name. A file holds its bytes and what a power loss cannot take: how many of its bytes have
  been flushed (\<open>fi_synced\<close>), and whether its directory entry has (\<open>fi_linked\<close>). A descriptor is
  the path it was opened with.

  Failures come from a script: every call takes the next entry of \<open>os_faults\<close>, which makes it
  fail with an error of the operating system, or makes a write stop early; past the end of the
  script calls succeed. A theorem for every script is a theorem for every sequence of failures.
  A failing write that wrote something is a short write followed by a failure.
\<close>

type_synonym path = "js_string \<times> js_string"

datatype fault = NoFault | Fault errno | Short nat

record disk_file =
  fi_data :: bytes
  fi_synced :: nat
  fi_linked :: bool

record os =
  os_files :: "(path \<times> disk_file) list"
  os_faults :: "fault list"

section \<open>Calls\<close>

definition next_fault :: "('z os_scheme, fault) operation" where
  "next_fault st =
     (case os_faults st of [] \<Rightarrow> (Inr NoFault, st) | f # fs \<Rightarrow> (Inr f, st\<lparr>os_faults := fs\<rparr>))"

definition syscall :: "('z os_scheme, 'a) operation \<Rightarrow> ('z os_scheme, 'a) operation" where
  "syscall m = bindS next_fault (\<lambda>f. case f of Fault c \<Rightarrow> throwS (OsFailure c) | _ \<Rightarrow> m)"

definition file_at :: "path \<Rightarrow> 'z os_scheme \<Rightarrow> disk_file option" where
  "file_at p st = map_of (os_files st) p"

definition put_file :: "path \<Rightarrow> disk_file \<Rightarrow> 'z os_scheme \<Rightarrow> 'z os_scheme" where
  "put_file p f st = st\<lparr>os_files := AList.update p f (os_files st)\<rparr>"

definition get_file :: "path \<Rightarrow> ('z os_scheme, disk_file) operation" where
  "get_file p = getsS (\<lambda>st. case file_at p st of None \<Rightarrow> Inl (OsFailure ENOENT) | Some f \<Rightarrow> Inr f)"

definition new_file :: disk_file where
  "new_file = \<lparr>fi_data = [], fi_synced = 0, fi_linked = False\<rparr>"

text \<open>The flags \<open>wx\<close>, \<open>w\<close> and \<open>r+\<close> of \<open>openSync\<close>, and \<open>r\<close> for a directory.\<close>

definition openSync_wx :: "path \<Rightarrow> ('z os_scheme, path) operation" where
  "openSync_wx p = syscall (bindS (getsS Inr) (\<lambda>st.
     if file_at p st \<noteq> None then throwS (OsFailure EEXIST)
     else bindS (modifyS (put_file p new_file)) (\<lambda>_. returnS p)))"

definition openSync_w :: "path \<Rightarrow> ('z os_scheme, path) operation" where
  "openSync_w p = syscall (bindS (getsS Inr) (\<lambda>st.
     bindS (modifyS (put_file p (case file_at p st of None \<Rightarrow> new_file | Some f \<Rightarrow> f\<lparr>fi_data := [], fi_synced := 0\<rparr>)))
       (\<lambda>_. returnS p)))"

definition openSync_rw :: "path \<Rightarrow> ('z os_scheme, path) operation" where
  "openSync_rw p = syscall (bindS (get_file p) (\<lambda>_. returnS p))"

definition openSync_r :: "js_string \<Rightarrow> ('z os_scheme, path) operation" where
  "openSync_r directory = syscall (returnS (directory, []))"

text \<open>A write at a position; past the end of the file the gap is filled with zeros.\<close>

definition write_at :: "bytes \<Rightarrow> nat \<Rightarrow> disk_file \<Rightarrow> disk_file" where
  "write_at bs pos f =
     f\<lparr>fi_data := take pos (fi_data f) @ replicate (pos - length (fi_data f)) 0 @ bs @ drop (pos + length bs) (fi_data f),
       fi_synced := min (fi_synced f) pos\<rparr>"

definition writeSync :: "path \<Rightarrow> bytes \<Rightarrow> nat \<Rightarrow> ('z os_scheme, nat) operation" where
  "writeSync fd bs pos =
     bindS next_fault (\<lambda>f. case f of
       Fault c \<Rightarrow> throwS (OsFailure c)
     | _ \<Rightarrow> bindS (get_file fd) (\<lambda>fl.
         let count = (case f of Short n \<Rightarrow> min (Suc n) (length bs) | _ \<Rightarrow> length bs)
         in bindS (modifyS (put_file fd (write_at (take count bs) pos fl))) (\<lambda>_. returnS count)))"

definition fsyncSync :: "path \<Rightarrow> ('z os_scheme, unit) operation" where
  "fsyncSync fd = syscall (bindS (get_file fd) (\<lambda>f. modifyS (put_file fd (f\<lparr>fi_synced := length (fi_data f)\<rparr>))))"

definition ftruncateSync :: "path \<Rightarrow> nat \<Rightarrow> ('z os_scheme, unit) operation" where
  "ftruncateSync fd len = syscall (bindS (get_file fd) (\<lambda>f.
     modifyS (put_file fd (f\<lparr>fi_data := take len (fi_data f) @ replicate (len - length (fi_data f)) 0,
                             fi_synced := min (fi_synced f) len\<rparr>))))"

definition closeSync :: "path \<Rightarrow> ('z os_scheme, unit) operation" where
  "closeSync fd = syscall (returnS ())"

definition unlinkSync :: "path \<Rightarrow> ('z os_scheme, unit) operation" where
  "unlinkSync p = syscall (bindS (get_file p) (\<lambda>_. modifyS (\<lambda>st. st\<lparr>os_files := AList.delete p (os_files st)\<rparr>)))"

definition renameSync :: "path \<Rightarrow> path \<Rightarrow> ('z os_scheme, unit) operation" where
  "renameSync p q = syscall (bindS (get_file p) (\<lambda>f.
     modifyS (\<lambda>st. put_file q (f\<lparr>fi_linked := False\<rparr>) (st\<lparr>os_files := AList.delete p (os_files st)\<rparr>))))"

definition readdirSync :: "js_string \<Rightarrow> ('z os_scheme, js_string list) operation" where
  "readdirSync dir = syscall (getsS (\<lambda>st. Inr (map (snd \<circ> fst) (filter (\<lambda>(p, f). fst p = dir) (os_files st)))))"

definition readFileSync :: "path \<Rightarrow> ('z os_scheme, bytes) operation" where
  "readFileSync p = syscall (bindS (get_file p) (\<lambda>f. returnS (fi_data f)))"

definition statSize :: "path \<Rightarrow> ('z os_scheme, nat) operation" where
  "statSize p = syscall (bindS (get_file p) (\<lambda>f. returnS (length (fi_data f))))"

definition mkdirSync :: "js_string \<Rightarrow> ('z os_scheme, unit) operation" where
  "mkdirSync dir = syscall (returnS ())"

text \<open>Flushing a directory makes its entries durable.\<close>

definition link_entries :: "js_string \<Rightarrow> 'z os_scheme \<Rightarrow> 'z os_scheme" where
  "link_entries dir st = st\<lparr>os_files := map (\<lambda>(p, f). (p, if fst p = dir then f\<lparr>fi_linked := True\<rparr> else f)) (os_files st)\<rparr>"

definition fsync_directory :: "js_string \<Rightarrow> ('z os_scheme, unit) operation" where
  "fsync_directory dir = syscall (modifyS (link_entries dir))"

section \<open>Crashes\<close>

text \<open>
  A process crash leaves the files as they are. A power loss keeps of every file at least what was
  flushed, and may lose a file whose directory entry was not; what is left is on stable storage.
\<close>

definition survives :: "disk_file \<Rightarrow> disk_file \<Rightarrow> bool" where
  "survives f f' \<longleftrightarrow> (\<exists>n. fi_synced f \<le> n \<and> fi_data f' = take n (fi_data f)) \<and>
     fi_synced f' = length (fi_data f') \<and> fi_linked f'"

definition power_loss :: "'z os_scheme \<Rightarrow> 'y os_scheme \<Rightarrow> bool" where
  "power_loss st st' \<longleftrightarrow> distinct (map fst (os_files st')) \<and>
     (\<forall>p. case file_at p st of
        None \<Rightarrow> file_at p st' = None
      | Some f \<Rightarrow> (case file_at p st' of None \<Rightarrow> \<not> fi_linked f | Some f' \<Rightarrow> survives f f'))"

section \<open>What a call can change\<close>

text \<open>No call touches the fields of an extended state, and the script only gets shorter.\<close>

definition quiet :: "'z os_scheme \<Rightarrow> 'z os_scheme \<Rightarrow> bool" where
  "quiet st st' \<longleftrightarrow> os.more st' = os.more st \<and> set (os_faults st') \<subseteq> set (os_faults st) \<and>
     (distinct (map fst (os_files st)) \<longrightarrow> distinct (map fst (os_files st')))"

definition same_files :: "'z os_scheme \<Rightarrow> 'y os_scheme \<Rightarrow> bool" where
  "same_files st st' \<longleftrightarrow> (\<forall>p. file_at p st' = file_at p st)"

definition only_changes :: "path \<Rightarrow> 'z os_scheme \<Rightarrow> 'z os_scheme \<Rightarrow> bool" where
  "only_changes p st st' \<longleftrightarrow> quiet st st' \<and> (\<forall>q. q \<noteq> p \<longrightarrow> file_at q st' = file_at q st)"

lemma quiet_refl [simp]: "quiet st st"
  by (simp add: quiet_def)

lemma quiet_trans [trans]: "quiet a b \<Longrightarrow> quiet b c \<Longrightarrow> quiet a c"
  by (auto simp: quiet_def)

lemma only_changes_refl [simp]: "only_changes p st st"
  by (simp add: only_changes_def)

lemma only_changes_trans [trans]: "only_changes p a b \<Longrightarrow> only_changes p b c \<Longrightarrow> only_changes p a c"
  by (auto simp: only_changes_def intro: quiet_trans)

lemma file_at_put [simp]: "file_at q (put_file p f st) = (if q = p then Some f else file_at q st)"
  by (simp add: file_at_def put_file_def update_conv')

lemma quiet_put: "quiet st (put_file p f st)"
  by (simp add: quiet_def put_file_def distinct_update)

lemma only_changes_put [simp]: "only_changes p st (put_file p f st)"
  by (simp add: only_changes_def quiet_put)

lemma only_changes_then_put: "only_changes p a b \<Longrightarrow> only_changes p a (put_file p f b)"
  by (rule only_changes_trans[OF _ only_changes_put])

lemma next_fault_run:
  assumes "next_fault st = (r, st1)"
  shows "\<exists>f. r = Inr f \<and> (\<forall>c. f = Fault c \<longrightarrow> f \<in> set (os_faults st))" "only_changes p st st1" "file_at q st1 = file_at q st" "os_files st1 = os_files st"
  using assms by (auto simp: next_fault_def only_changes_def quiet_def file_at_def split: list.splits)

text \<open>Either the call fails, having changed nothing, or its body runs on the same files.\<close>

lemma syscall_run:
  assumes "syscall m st = (r, st')"
  obtains (fails) c where "r = Inl (OsFailure c)" "Fault c \<in> set (os_faults st)" "\<And>p. only_changes p st st'" "\<And>q. file_at q st' = file_at q st"
  | (runs) st1 where "m st1 = (r, st')" "\<And>p. only_changes p st st1" "\<And>q. file_at q st1 = file_at q st" "os_files st1 = os_files st"
proof -
  obtain r1 st1 where n: "next_fault st = (r1, st1)" by fastforce
  note N = next_fault_run[OF n]
  obtain f where f: "r1 = Inr f" "\<forall>c. f = Fault c \<longrightarrow> f \<in> set (os_faults st)" using N(1) by blast
  show thesis
  proof (cases f)
    case (Fault c)
    then have "r = Inl (OsFailure c)" "st' = st1" using assms n f by (simp_all add: syscall_def bindS_def throwS_def)
    then show thesis using fails N(2,3) f(2) Fault by blast
  next
    case NoFault
    then have "m st1 = (r, st')" using assms n f by (simp add: syscall_def bindS_def)
    then show thesis using runs N(2-4) by blast
  next
    case (Short k)
    then have "m st1 = (r, st')" using assms n f by (simp add: syscall_def bindS_def)
    then show thesis using runs N(2-4) by blast
  qed
qed

lemma get_file_run: "get_file p st = (case file_at p st of None \<Rightarrow> (Inl (OsFailure ENOENT), st) | Some f \<Rightarrow> (Inr f, st))"
  by (simp add: get_file_def getsS_def split: option.splits)

lemma fsyncSync_run:
  assumes "fsyncSync fd st = (r, st')" "file_at fd st = Some f"
  obtains (fails) c where "r = Inl (OsFailure c)" "Fault c \<in> set (os_faults st)" "\<And>p. only_changes p st st'" "\<And>q. file_at q st' = file_at q st"
  | (synced) "r = Inr ()" "only_changes fd st st'" "file_at fd st' = Some (f\<lparr>fi_synced := length (fi_data f)\<rparr>)"
proof -
  from assms(1)[unfolded fsyncSync_def] show thesis
  proof (cases rule: syscall_run)
    case (fails c)
    then show ?thesis using that(1) by blast
  next
    case (runs st1)
    then have "r = Inr ()" "st' = put_file fd (f\<lparr>fi_synced := length (fi_data f)\<rparr>) st1"
      using assms(2) by (auto simp: bindS_def get_file_run modifyS_def)
    then show ?thesis using that(2) runs(2) only_changes_put only_changes_trans by (metis file_at_put)
  qed
qed

lemma ftruncateSync_run:
  assumes "ftruncateSync fd len st = (r, st')" "file_at fd st = Some f" "len \<le> length (fi_data f)"
  obtains (fails) c where "r = Inl (OsFailure c)" "Fault c \<in> set (os_faults st)" "\<And>p. only_changes p st st'" "\<And>q. file_at q st' = file_at q st"
  | (cut) "r = Inr ()" "only_changes fd st st'"
      "file_at fd st' = Some (f\<lparr>fi_data := take len (fi_data f), fi_synced := min (fi_synced f) len\<rparr>)"
proof -
  from assms(1)[unfolded ftruncateSync_def] show thesis
  proof (cases rule: syscall_run)
    case (fails c)
    then show ?thesis using that(1) by blast
  next
    case (runs st1)
    then have "r = Inr ()" "st' = put_file fd (f\<lparr>fi_data := take len (fi_data f), fi_synced := min (fi_synced f) len\<rparr>) st1"
      using assms(2,3) by (auto simp: bindS_def get_file_run modifyS_def)
    then show ?thesis using that(2) runs(2) only_changes_put only_changes_trans by (metis file_at_put)
  qed
qed

text \<open>A write at the end of a file appends some of its bytes, or nothing when it fails.\<close>

definition append_bytes :: "bytes \<Rightarrow> disk_file \<Rightarrow> disk_file" where
  "append_bytes bs f = f\<lparr>fi_data := fi_data f @ bs, fi_synced := min (fi_synced f) (length (fi_data f))\<rparr>"

lemma write_at_end: "write_at bs (length (fi_data f)) f = append_bytes bs f"
  by (simp add: write_at_def append_bytes_def)

lemma append_bytes_twice: "append_bytes bs (append_bytes as f) = append_bytes (as @ bs) f"
  by (simp add: append_bytes_def min_def)

lemma writeSync_run:
  assumes "writeSync fd bs (length (fi_data f)) st = (r, st')" "file_at fd st = Some f"
  obtains (fails) c where "r = Inl (OsFailure c)" "Fault c \<in> set (os_faults st)" "\<And>p. only_changes p st st'" "\<And>q. file_at q st' = file_at q st"
  | (wrote) n where "r = Inr n" "n \<le> length bs" "bs \<noteq> [] \<longrightarrow> 0 < n" "only_changes fd st st'"
      "file_at fd st' = Some (append_bytes (take n bs) f)"
proof -
  obtain r1 st1 where n: "next_fault st = (r1, st1)" by fastforce
  note N = next_fault_run[OF n]
  obtain fl where f: "r1 = Inr fl" "\<forall>c. fl = Fault c \<longrightarrow> fl \<in> set (os_faults st)" using N(1) by blast
  show thesis
  proof (cases fl)
    case (Fault c)
    then have "r = Inl (OsFailure c)" "st' = st1" using assms n f by (simp_all add: writeSync_def bindS_def throwS_def)
    then show thesis using that(1) N(2,3) f(2) Fault by blast
  next
    case NoFault
    then have "r = Inr (length bs)" "st' = put_file fd (append_bytes bs f) st1"
      using assms n f N(3) by (simp_all add: writeSync_def bindS_def get_file_run modifyS_def returnS_def Let_def write_at_end)
    then show thesis using that(2)[of "length bs"] by (simp add: N(2) only_changes_then_put)
  next
    case (Short k)
    let ?n = "min (Suc k) (length bs)"
    from Short have "r = Inr ?n" "st' = put_file fd (append_bytes (take ?n bs) f) st1"
      using assms n f N(3) by (simp_all add: writeSync_def bindS_def get_file_run modifyS_def returnS_def Let_def write_at_end)
    then show thesis using that(2)[of ?n] by (simp add: N(2) only_changes_then_put)
  qed
qed

lemma closeSync_run:
  assumes "closeSync fd st = (r, st')"
  shows "only_changes p st st'" "file_at q st' = file_at q st"
    "r = Inr () \<or> (\<exists>c. r = Inl (OsFailure c) \<and> Fault c \<in> set (os_faults st))"
proof -
  from assms[unfolded closeSync_def]
  have "(\<forall>p. only_changes p st st') \<and> (\<forall>q. file_at q st' = file_at q st) \<and>
      (r = Inr () \<or> (\<exists>c. r = Inl (OsFailure c) \<and> Fault c \<in> set (os_faults st)))"
    by (cases rule: syscall_run) (auto simp: returnS_def)
  then show "only_changes p st st'" "file_at q st' = file_at q st"
    "r = Inr () \<or> (\<exists>c. r = Inl (OsFailure c) \<and> Fault c \<in> set (os_faults st))" by blast+
qed

lemma quiet_delete: "quiet st (st\<lparr>os_files := AList.delete p (os_files st)\<rparr>)"
  by (auto simp: quiet_def distinct_delete)

lemma file_at_delete: "file_at q (st\<lparr>os_files := AList.delete p (os_files st)\<rparr>) = (if q = p then None else file_at q st)"
  by (simp add: file_at_def delete_conv')

lemma unlinkSync_run:
  assumes "unlinkSync p st = (r, st')" "file_at p st \<noteq> None"
  obtains (fails) c where "r = Inl (OsFailure c)" "Fault c \<in> set (os_faults st)" "\<And>p. only_changes p st st'" "\<And>q. file_at q st' = file_at q st"
  | (removed) "r = Inr ()" "only_changes p st st'" "file_at p st' = None"
proof -
  from assms(1)[unfolded unlinkSync_def] show thesis
  proof (cases rule: syscall_run)
    case (fails c)
    then show ?thesis using that(1) by blast
  next
    case (runs st1)
    then have r: "r = Inr ()" "st' = st1\<lparr>os_files := AList.delete p (os_files st1)\<rparr>"
      using assms(2) by (auto simp: bindS_def get_file_run modifyS_def)
    have "only_changes p st1 st'" by (simp add: r only_changes_def quiet_delete file_at_delete)
    then show ?thesis using that(2) r(1) runs(2) only_changes_trans by (metis file_at_delete r(2))
  qed
qed

lemma openSync_wx_run:
  assumes "openSync_wx p st = (r, st')"
  obtains (fails) c where "r = Inl (OsFailure c)" "Fault c \<in> set (os_faults st) \<or> file_at p st \<noteq> None"
      "\<And>p. only_changes p st st'" "\<And>q. file_at q st' = file_at q st"
  | (created) "r = Inr p" "file_at p st = None" "only_changes p st st'" "file_at p st' = Some new_file"
proof -
  from assms[unfolded openSync_wx_def] show thesis
  proof (cases rule: syscall_run)
    case (fails c)
    then show ?thesis using that(1) by blast
  next
    case (runs st1)
    show ?thesis
    proof (cases "file_at p st = None")
      case True
      then have r: "r = Inr p" "st' = put_file p new_file st1"
        using runs by (auto simp: bindS_def getsS_def modifyS_def returnS_def)
      then show ?thesis using that(2)[OF r(1) True] by (simp add: only_changes_then_put[OF runs(2)])
    next
      case False
      then have "r = Inl (OsFailure EEXIST)" "st' = st1"
        using runs by (auto simp: bindS_def getsS_def throwS_def)
      then show ?thesis using that(1) False runs(2,3) by blast
    qed
  qed
qed

lemma openSync_rw_run:
  assumes "openSync_rw p st = (r, st')" "file_at p st \<noteq> None"
  shows "only_changes q st st'" "file_at q st' = file_at q st" "r = Inr p \<or> (\<exists>c. r = Inl (OsFailure c) \<and> Fault c \<in> set (os_faults st))"
proof -
  from assms(1)[unfolded openSync_rw_def]
  have "(\<forall>p. only_changes p st st') \<and> (\<forall>q. file_at q st' = file_at q st) \<and>
      (r = Inr p \<or> (\<exists>c. r = Inl (OsFailure c) \<and> Fault c \<in> set (os_faults st)))"
    by (cases rule: syscall_run) (use assms(2) in \<open>auto simp: bindS_def get_file_run returnS_def\<close>)
  then show "only_changes q st st'" "file_at q st' = file_at q st"
    "r = Inr p \<or> (\<exists>c. r = Inl (OsFailure c) \<and> Fault c \<in> set (os_faults st))" by blast+
qed

text \<open>The calls that only read.\<close>

lemma readFileSync_run:
  assumes "readFileSync p st = (r, st')" "file_at p st = Some f"
  shows "only_changes q st st'" "file_at q st' = file_at q st"
    "r = Inr (fi_data f) \<or> (\<exists>c. r = Inl (OsFailure c) \<and> Fault c \<in> set (os_faults st))"
proof -
  from assms(1)[unfolded readFileSync_def]
  have "(\<forall>p. only_changes p st st') \<and> (\<forall>q. file_at q st' = file_at q st) \<and>
      (r = Inr (fi_data f) \<or> (\<exists>c. r = Inl (OsFailure c) \<and> Fault c \<in> set (os_faults st)))"
    by (cases rule: syscall_run) (use assms(2) in \<open>auto simp: bindS_def get_file_run returnS_def\<close>)
  then show "only_changes q st st'" "file_at q st' = file_at q st"
    "r = Inr (fi_data f) \<or> (\<exists>c. r = Inl (OsFailure c) \<and> Fault c \<in> set (os_faults st))" by blast+
qed

lemma statSize_run:
  assumes "statSize p st = (r, st')" "file_at p st = Some f"
  shows "only_changes q st st'" "file_at q st' = file_at q st"
    "r = Inr (length (fi_data f)) \<or> (\<exists>c. r = Inl (OsFailure c) \<and> Fault c \<in> set (os_faults st))"
proof -
  from assms(1)[unfolded statSize_def]
  have "(\<forall>p. only_changes p st st') \<and> (\<forall>q. file_at q st' = file_at q st) \<and>
      (r = Inr (length (fi_data f)) \<or> (\<exists>c. r = Inl (OsFailure c) \<and> Fault c \<in> set (os_faults st)))"
    by (cases rule: syscall_run) (use assms(2) in \<open>auto simp: bindS_def get_file_run returnS_def\<close>)
  then show "only_changes q st st'" "file_at q st' = file_at q st"
    "r = Inr (length (fi_data f)) \<or> (\<exists>c. r = Inl (OsFailure c) \<and> Fault c \<in> set (os_faults st))" by blast+
qed

text \<open>What a listing shows.\<close>

lemma readdirSync_run:
  assumes "readdirSync dir st = (r, st')" "distinct (map fst (os_files st))"
  shows "only_changes q st st'" "file_at q st' = file_at q st"
    "(\<exists>names. r = Inr names \<and> distinct names \<and> (\<forall>n. n \<in> set names \<longleftrightarrow> file_at (dir, n) st \<noteq> None)) \<or>
     (\<exists>c. r = Inl (OsFailure c) \<and> Fault c \<in> set (os_faults st))"
proof -
  let ?names = "map (snd \<circ> fst) (filter (\<lambda>(p, f). fst p = dir) (os_files st))"
  have "distinct ?names"
    using assms(2) by (fastforce simp: distinct_map inj_on_def)
  moreover have "n \<in> set ?names \<longleftrightarrow> file_at (dir, n) st \<noteq> None" for n
    by (auto simp: file_at_def map_of_eq_None_iff image_iff) force+
  ultimately have names: "distinct ?names \<and> (\<forall>n. n \<in> set ?names \<longleftrightarrow> file_at (dir, n) st \<noteq> None)" by blast
  from assms(1)[unfolded readdirSync_def]
  have "(\<forall>p. only_changes p st st') \<and> (\<forall>q. file_at q st' = file_at q st) \<and>
      (r = Inr ?names \<or> (\<exists>c. r = Inl (OsFailure c) \<and> Fault c \<in> set (os_faults st)))"
  proof (cases rule: syscall_run)
    case (runs st1)
    then show ?thesis by (auto simp: getsS_def)
  qed auto
  with names show "only_changes q st st'" "file_at q st' = file_at q st"
    "(\<exists>names. r = Inr names \<and> distinct names \<and> (\<forall>n. n \<in> set names \<longleftrightarrow> file_at (dir, n) st \<noteq> None)) \<or>
     (\<exists>c. r = Inl (OsFailure c) \<and> Fault c \<in> set (os_faults st))" by blast+
qed

end
