(* ===== verification/Lsn_Name.thy ===== *)
theory Lsn_Name
  imports Js_String Comparator
begin

text \<open>
  File names that carry a log sequence number: log segments (\<open>wal/write-ahead-log.ts\<close>, \<open>.wal\<close>) and
  snapshots (\<open>engine/checkpoint.ts\<close>, \<open>.snap\<close>) start with the number in decimal, padded to 20 digits,
  so that the order of the names is the order of the numbers.
\<close>

definition digit :: "nat \<Rightarrow> 16 word" where
  "digit d = of_nat (0x30 + d)"

fun decimal :: "nat \<Rightarrow> js_string" where
  "decimal n = (if n < 10 then [digit n] else decimal (n div 10) @ [digit (n mod 10)])"

definition padStart :: "nat \<Rightarrow> 16 word \<Rightarrow> js_string \<Rightarrow> js_string" where
  "padStart n c s = replicate (n - length s) c @ s"

definition lsn_name :: "js_string \<Rightarrow> nat \<Rightarrow> js_string" where
  "lsn_name suffix lsn = padStart 20 0x30 (decimal lsn) @ suffix"

definition is_digit :: "16 word \<Rightarrow> bool" where
  "is_digit u \<longleftrightarrow> 0x30 \<le> u \<and> u \<le> 0x39"

definition digits_value :: "js_string \<Rightarrow> nat" where
  "digits_value ds = foldl (\<lambda>acc u. acc * 10 + (unat u - 0x30)) 0 ds"

text \<open>The match of \<open>/^(\d{20})suffix$/\<close>, as the number of its group.\<close>

definition parse_lsn_name :: "js_string \<Rightarrow> js_string \<Rightarrow> nat option" where
  "parse_lsn_name suffix name =
     (if length name = 20 + length suffix \<and> list_all is_digit (take 20 name) \<and> drop 20 name = suffix
      then Some (digits_value (take 20 name)) else None)"

definition compare_names :: "js_string \<Rightarrow> js_string \<Rightarrow> int" where
  "compare_names a b = (if list_less a b then - 1 else if list_less b a then 1 else 0)"

section \<open>Names and numbers\<close>

declare decimal.simps [simp del]

fun dec_digits :: "nat \<Rightarrow> nat \<Rightarrow> js_string" where
  "dec_digits 0 n = []"
| "dec_digits (Suc k) n = dec_digits k (n div 10) @ [digit (n mod 10)]"

lemma length_dec_digits [simp]: "length (dec_digits k n) = k"
  by (induction k arbitrary: n) simp_all

lemma dec_digits_0: "dec_digits k 0 = replicate k (digit 0)"
  by (induction k) (simp_all add: replicate_append_same)

lemma unat_digit: "d < 10 \<Longrightarrow> unat (digit d) = 0x30 + d"
  unfolding digit_def by (subst unat_of_nat) simp

lemma digit_is_digit: "d < 10 \<Longrightarrow> is_digit (digit d)"
  by (simp add: is_digit_def word_le_nat_alt unat_digit)

lemma digit_mono: "d < 10 \<Longrightarrow> e < 10 \<Longrightarrow> digit d < digit e \<longleftrightarrow> d < e"
  by (simp add: word_less_nat_alt unat_digit)

lemma digit_inj: "d < 10 \<Longrightarrow> e < 10 \<Longrightarrow> digit d = digit e \<longleftrightarrow> d = e"
  by (metis add_left_cancel unat_digit)

lemma is_digit_digit: "is_digit u \<Longrightarrow> u = digit (unat u - 0x30) \<and> unat u - 0x30 < 10"
proof -
  assume "is_digit u"
  then have "0x30 \<le> unat u" "unat u \<le> 0x39" by (simp_all add: is_digit_def word_le_nat_alt)
  then show ?thesis by (simp add: digit_def)
qed

lemma length_decimal: "n < 10 ^ k \<Longrightarrow> 0 < k \<Longrightarrow> length (decimal n) \<le> k"
proof (induction k arbitrary: n)
  case (Suc k)
  show ?case
  proof (cases "n < 10")
    case False
    then have "0 < k" "n div 10 < 10 ^ k" using Suc.prems by (auto intro: gr0I)
    then show ?thesis using Suc.IH[of "n div 10"] False by (simp add: decimal.simps[of n])
  qed (simp add: decimal.simps[of n])
qed simp

lemma padStart_decimal: "n < 10 ^ k \<Longrightarrow> 0 < k \<Longrightarrow> padStart k 0x30 (decimal n) = dec_digits k n"
proof (induction k arbitrary: n)
  case (Suc k)
  show ?case
  proof (cases "n < 10")
    case True
    then show ?thesis by (simp add: decimal.simps[of n] padStart_def dec_digits_0 digit_def)
  next
    case False
    then have k: "0 < k" "n div 10 < 10 ^ k" using Suc.prems by (auto intro: gr0I)
    then show ?thesis using Suc.IH[of "n div 10"] False by (simp add: decimal.simps[of n] padStart_def)
  qed
qed simp

lemma digits_value_snoc: "digits_value (ds @ [u]) = digits_value ds * 10 + (unat u - 0x30)"
  by (simp add: digits_value_def)

lemma digits_value_dec: "n < 10 ^ k \<Longrightarrow> digits_value (dec_digits k n) = n"
proof (induction k arbitrary: n)
  case (Suc k)
  then have "n div 10 < 10 ^ k" by auto
  then show ?case using Suc.IH by (simp add: digits_value_snoc unat_digit)
qed (simp add: digits_value_def)

lemma dec_digits_value:
  "list_all is_digit ds \<Longrightarrow> dec_digits (length ds) (digits_value ds) = ds \<and> digits_value ds < 10 ^ length ds"
proof (induction ds rule: rev_induct)
  case (snoc u ds)
  then have "is_digit u" by simp
  from is_digit_digit[OF this] obtain d where d: "u = digit d" "d < 10" by blast
  with snoc show ?case by (simp add: digits_value_snoc unat_digit)
qed (simp add: digits_value_def)

lemma dec_digits_all: "list_all is_digit (dec_digits k n)"
  by (induction k arbitrary: n) (simp_all add: digit_is_digit)

lemma lsn_name_digits: "lsn < 10 ^ 20 \<Longrightarrow> lsn_name suffix lsn = dec_digits 20 lsn @ suffix"
  by (simp add: lsn_name_def padStart_decimal)

lemma parse_lsn_name: "lsn < 10 ^ 20 \<Longrightarrow> parse_lsn_name suffix (lsn_name suffix lsn) = Some lsn"
  by (simp add: parse_lsn_name_def lsn_name_digits dec_digits_all digits_value_dec del: dec_digits.simps)

lemma parse_lsn_name_Some:
  assumes "parse_lsn_name suffix name = Some lsn"
  shows "lsn < 10 ^ 20" "name = lsn_name suffix lsn"
proof -
  have n: "length name = 20 + length suffix" "list_all is_digit (take 20 name)" "drop 20 name = suffix"
    "lsn = digits_value (take 20 name)"
    using assms by (auto simp: parse_lsn_name_def split: if_splits)
  have d: "dec_digits 20 lsn = take 20 name" "lsn < 10 ^ 20"
    using dec_digits_value[OF n(2)] n(1,4) by simp_all
  then show "lsn < 10 ^ 20" by simp
  show "name = lsn_name suffix lsn" using lsn_name_digits[OF d(2)] d(1) n(3) by (metis append_take_drop_id)
qed

lemma list_less_append:
  "length xs = length ys \<Longrightarrow> list_less (xs @ s) (ys @ t) \<longleftrightarrow> list_less xs ys \<or> xs = ys \<and> list_less s t"
proof (induction xs ys rule: list_induct2)
  case (Cons x xs y ys)
  then show ?case by auto
qed simp

lemma list_less_dec: "list_less (dec_digits k a) (dec_digits k b) \<longleftrightarrow> a mod 10 ^ k < b mod 10 ^ k"
proof (induction k arbitrary: a b)
  case (Suc k)
  have m: "x mod 10 ^ Suc k = x div 10 mod 10 ^ k * 10 + x mod 10" for x :: nat
    using mod_mult2_eq[of x 10 "10 ^ k"] by (simp add: mult.commute)
  have e: "dec_digits k (a div 10) = dec_digits k (b div 10) \<longleftrightarrow> a div 10 mod 10 ^ k = b div 10 mod 10 ^ k"
    using Suc.IH[of "a div 10" "b div 10"] Suc.IH[of "b div 10" "a div 10"] list_less_linear list_less_irrefl
    by (metis nat_neq_iff)
  show ?case
    unfolding m by (simp add: list_less_append Suc.IH e digit_mono) linarith
qed simp

lemma list_less_names:
  assumes "a < 10 ^ 20" "b < 10 ^ 20"
  shows "list_less (lsn_name suffix a) (lsn_name suffix b) \<longleftrightarrow> a < b"
  using assms by (simp add: lsn_name_digits list_less_append list_less_dec del: dec_digits.simps)

interpretation name_cmp: comparator compare_names "\<lambda>_. True"
proof unfold_locales
  fix x y z :: js_string
  show "compare_names x y < 0 \<longleftrightarrow> 0 < compare_names y x"
    using list_less_asym[of x y] by (auto simp: compare_names_def)
  show "compare_names x y \<le> 0 \<Longrightarrow> compare_names y z \<le> 0 \<Longrightarrow> compare_names x z \<le> 0"
    using list_less_trans[of z x y] list_less_linear[of y z] list_less_linear[of x y] list_less_asym[of z x] list_less_asym[of x y] list_less_asym[of y z]
    by (auto simp: compare_names_def split: if_splits)
qed

text \<open>Sorting the names of a set of numbers sorts the numbers.\<close>

lemma sort_lsn_names:
  assumes "distinct names" "set names = lsn_name suffix ` set lsns" "sorted_wrt (<) lsns" "\<forall>l \<in> set lsns. l < 10 ^ 20"
  shows "sort_by compare_names names = map (lsn_name suffix) lsns"
proof -
  have s: "sorted_wrt (\<lambda>a b. compare_names a b \<le> 0) (map (lsn_name suffix) lsns)"
    using assms(3,4) by (auto simp: sorted_wrt_map compare_names_def list_less_names elim!: sorted_wrt_mono_rel[rotated])
  have "inj_on (lsn_name suffix) (set lsns)"
    using assms(4) by (intro inj_onI) (metis parse_lsn_name option.inject)
  then have "distinct (map (lsn_name suffix) lsns)"
    using assms(3) by (simp add: distinct_map strict_sorted_iff)
  then have "mset names = mset (map (lsn_name suffix) lsns)"
    using assms(1,2) by (metis set_eq_iff_mset_eq_distinct set_map)
  then have "sort_by compare_names names = sort_by compare_names (map (lsn_name suffix) lsns)"
    using list_less_linear by (intro name_cmp.sort_by_mset_eq) (auto simp: compare_names_def split: if_splits)
  also have "\<dots> = map (lsn_name suffix) lsns" by (rule name_cmp.sort_by_sorted_id[OF s])
  finally show ?thesis .
qed

end
