(* ===== verification/Write_Ahead_Log.thy ===== *)
theory Write_Ahead_Log
  imports Wal_Format File_System Lsn_Name Js_Number
begin

text \<open>
  \<open>packages/storage/src/wal/write-ahead-log.ts\<close>. The log extends the state of the file system with
  its fields. Sequence numbers are natural numbers, as \<open>bigint\<close> is unbounded; what does not fit
  into 64 bits is refused where it is written. The number of a segment's last byte is always its
  position, so \<open>pending\<close> is the list of encoded records that are not in the file yet.
\<close>

datatype write_concern = Memory | Journaled | Flushed

definition DEFAULT_SEGMENT_SIZE_BYTES :: nat where "DEFAULT_SEGMENT_SIZE_BYTES = 64 * 1024 * 1024"
definition MEMORY_FLUSH_BYTES :: nat where "MEMORY_FLUSH_BYTES = 64 * 1024"

record wal_options =
  wo_directory :: js_string
  wo_writeConcern :: "write_concern option"
  wo_groupCommit :: "bool option"
  wo_segmentSizeBytes :: "js_number option"

record wal_record =
  wr_lsn :: nat
  wr_type :: int
  wr_payload :: bytes

record segment_info =
  sg_path :: path
  sg_firstLsn :: nat

definition segment_suffix :: js_string where "segment_suffix = js ''.wal''"

definition segment_path :: "js_string \<Rightarrow> nat \<Rightarrow> path" where
  "segment_path directory firstLsn = (directory, lsn_name segment_suffix firstLsn)"

record wal = os +
  wl_directory :: js_string
  wl_mode :: write_concern
  wl_groupCommit :: bool
  wl_segmentSizeBytes :: nat
  wl_segments :: "segment_info list"
  wl_fd :: "path option"
  wl_position :: nat
  wl_nextLsn :: nat
  wl_pending :: "bytes list"
  wl_pendingBytes :: nat
  wl_unsynced :: bool
  wl_broken :: bool
  wl_closed :: bool

section \<open>Files\<close>

lemma writeSync_count:
  assumes "writeSync fd bs pos st = (Inr n, st')" "bs \<noteq> []"
  shows "0 < n" "n \<le> length bs"
  using assms by (auto simp: writeSync_def bindS_def next_fault_def get_file_def getsS_def throwS_def modifyS_def returnS_def Let_def
      split: prod.splits sum.splits list.splits fault.splits option.splits)

function writeFully :: "path \<Rightarrow> bytes \<Rightarrow> nat \<Rightarrow> ('z os_scheme, unit) operation" where
  "writeFully fd bs pos st =
     (if bs = [] then (Inr (), st)
      else case writeSync fd bs pos st of
        (Inl e, st') \<Rightarrow> (Inl e, st')
      | (Inr n, st') \<Rightarrow> writeFully fd (drop n bs) (pos + n) st')"
  by pat_completeness auto
termination
  by (relation "measure (\<lambda>(fd, bs, pos, st). length bs)") (auto dest!: writeSync_count(1)[OF sym])

declare writeFully.simps [simp del]

definition directory_failure :: "failure \<Rightarrow> failure + unit" where
  "directory_failure e =
     (if errnoOf e \<in> {Some EISDIR, Some EPERM, Some EINVAL} then Inr () else Inl (ioError e False))"

definition syncDirectory :: "js_string \<Rightarrow> ('z os_scheme, unit) operation" where
  "syncDirectory directory st =
     (case openSync_r directory st of
        (Inl e, st1) \<Rightarrow> (directory_failure e, st1)
      | (Inr fd, st1) \<Rightarrow>
          (case fsync_directory directory st1 of (r, st2) \<Rightarrow>
             (case closeSync fd st2 of
                (Inl e, st3) \<Rightarrow> (Inl e, st3)
              | (Inr _, st3) \<Rightarrow> ((case r of Inl e \<Rightarrow> directory_failure e | Inr _ \<Rightarrow> Inr ()), st3))))"

definition readSegment :: "path \<Rightarrow> ('z os_scheme, bytes) operation" where
  "readSegment p = catchS (readFileSync p) (\<lambda>e. throwS (ioError e True))"

definition corruption :: failure where "corruption = StorageError Corruption"

definition fill_segment :: "js_string \<Rightarrow> nat \<Rightarrow> bool \<Rightarrow> path \<Rightarrow> ('z os_scheme, unit) operation" where
  "fill_segment directory firstLsn durable fd =
     bindS (fromR (encodeSegmentHeader firstLsn)) (\<lambda>header.
     bindS (writeFully fd header 0) (\<lambda>_.
       if durable then bindS (fsyncSync fd) (\<lambda>_. syncDirectory directory) else returnS ()))"

definition discard_segment :: "path \<Rightarrow> ('z os_scheme, unit) operation" where
  "discard_segment fd = catchS (bindS (closeSync fd) (\<lambda>_. unlinkSync fd)) (\<lambda>_. returnS ())"

definition createSegment :: "js_string \<Rightarrow> nat \<Rightarrow> bool \<Rightarrow> ('z os_scheme, segment_info \<times> path) operation" where
  "createSegment directory firstLsn durable =
     (let p = segment_path directory firstLsn in
      bindS (catchS (openSync_wx p) (\<lambda>e. throwS (translateIo e))) (\<lambda>fd.
      bindS (catchS (fill_segment directory firstLsn durable fd)
               (\<lambda>e. bindS (discard_segment fd) (\<lambda>_. throwS (translateIo e)))) (\<lambda>_.
      returnS (\<lparr>sg_path = p, sg_firstLsn = firstLsn\<rparr>, fd))))"

section \<open>Recovery\<close>

text \<open>
  The scanning loop of \<open>recoverSegments\<close> and \<open>records\<close>: the records found, where the scan stopped,
  the number expected there and why it stopped.
\<close>

lemma scanRecord_end: "scanRecord bytes offset expected = RecordAt lsn type payload end \<Longrightarrow> offset < end \<and> end \<le> length bytes"
  by (auto simp: scanRecord_def Let_def RECORD_HEADER_SIZE_def split: if_splits)

function scan_segment :: "bytes \<Rightarrow> nat \<Rightarrow> nat \<Rightarrow> wal_record list \<times> nat \<times> nat \<times> record_scan" where
  "scan_segment bytes offset expected =
     (case scanRecord bytes offset expected of
        RecordAt lsn type payload end \<Rightarrow>
          (case scan_segment bytes end (lsn + 1) of (rs, r) \<Rightarrow>
             (\<lparr>wr_lsn = lsn, wr_type = type, wr_payload = payload\<rparr> # rs, r))
      | stop \<Rightarrow> ([], offset, expected, stop))"
  by pat_completeness auto
termination
  by (relation "measure (\<lambda>(bytes, offset, expected). length bytes - offset)") (auto dest!: scanRecord_end)

declare scan_segment.simps [simp del]

definition isIncompleteHeader :: "bytes \<Rightarrow> bool" where
  "isIncompleteHeader bytes \<longleftrightarrow> length bytes < SEGMENT_HEADER_SIZE \<or> list_all (\<lambda>b. b = 0) bytes"

record recovered_segments =
  rv_segments :: "segment_info list"
  rv_validEnd :: nat
  rv_lastLsn :: nat

definition nothing_recovered :: recovered_segments where
  "nothing_recovered = \<lparr>rv_segments = [], rv_validEnd = SEGMENT_HEADER_SIZE, rv_lastLsn = 0\<rparr>"

fun recover_loop :: "js_string \<Rightarrow> js_string list \<Rightarrow> recovered_segments \<Rightarrow> ('z os_scheme, recovered_segments) operation" where
  "recover_loop directory [] acc = returnS acc"
| "recover_loop directory (name # names) acc =
     bindS (readSegment (directory, name)) (\<lambda>bytes.
       case decodeSegmentHeader bytes of
         None \<Rightarrow>
           if names = [] \<and> isIncompleteHeader bytes
           then bindS (unlinkSync (directory, name)) (\<lambda>_. bindS (syncDirectory directory) (\<lambda>_. returnS acc))
           else throwS corruption
       | Some firstLsn \<Rightarrow>
           if parse_lsn_name segment_suffix name \<noteq> Some firstLsn then throwS corruption
           else if rv_segments acc \<noteq> [] \<and> firstLsn \<noteq> rv_lastLsn acc + 1 then throwS corruption
           else
             case scan_segment bytes SEGMENT_HEADER_SIZE firstLsn of (rs, offset, expected, stop) \<Rightarrow>
               if stop = Corrupt \<or> stop = Torn \<and> names \<noteq> [] then throwS corruption
               else recover_loop directory names
                 \<lparr>rv_segments = rv_segments acc @ [\<lparr>sg_path = (directory, name), sg_firstLsn = firstLsn\<rparr>],
                  rv_validEnd = offset, rv_lastLsn = expected - 1\<rparr>)"

definition recoverSegments :: "js_string \<Rightarrow> ('z os_scheme, recovered_segments) operation" where
  "recoverSegments directory =
     bindS (catchS (readdirSync directory) (\<lambda>e. throwS (ioError e True))) (\<lambda>listed.
       recover_loop directory
         (sort_by compare_names (filter (\<lambda>name. parse_lsn_name segment_suffix name \<noteq> None) listed))
         nothing_recovered)"

section \<open>Opening\<close>

definition new_wal :: "wal_options \<Rightarrow> write_concern \<Rightarrow> bool \<Rightarrow> nat \<Rightarrow> segment_info list \<Rightarrow> path \<Rightarrow> nat \<Rightarrow> nat \<Rightarrow> os \<Rightarrow> wal" where
  "new_wal options mode groupCommit segmentSizeBytes segments fd position nextLsn st =
     os.extend st \<lparr>wl_directory = wo_directory options, wl_mode = mode, wl_groupCommit = groupCommit,
       wl_segmentSizeBytes = segmentSizeBytes, wl_segments = segments, wl_fd = Some fd, wl_position = position,
       wl_nextLsn = nextLsn, wl_pending = [], wl_pendingBytes = 0, wl_unsynced = False, wl_broken = False,
       wl_closed = False\<rparr>"

definition option_default :: "'a option \<Rightarrow> 'a \<Rightarrow> 'a" where
  "option_default x d = (case x of None \<Rightarrow> d | Some y \<Rightarrow> y)"

definition open_active :: "path \<Rightarrow> nat \<Rightarrow> ('z os_scheme, path) operation" where
  "open_active p validEnd =
     catchS
       (bindS (openSync_rw p) (\<lambda>fd.
        bindS (statSize p) (\<lambda>size.
        bindS (if validEnd < size then bindS (ftruncateSync fd validEnd) (\<lambda>_. fsyncSync fd) else returnS ()) (\<lambda>_.
        returnS fd))))
       (\<lambda>e. throwS (ioError e True))"

definition open_wal :: "wal_options \<Rightarrow> (os, wal) operation" where
  "open_wal options =
     (let mode = option_default (wo_writeConcern options) Flushed;
          size = option_default (wo_segmentSizeBytes options) (num_of_int (int DEFAULT_SEGMENT_SIZE_BYTES));
          groupCommit = option_default (wo_groupCommit options) False;
          directory = wo_directory options
      in if groupCommit \<and> mode \<noteq> Flushed then throwS TypeFailure
         else if \<not> isSafeInteger size \<or> num_int size < int (SEGMENT_HEADER_SIZE + 64) then throwS TypeFailure
         else
           bindS (catchS (mkdirSync directory) (\<lambda>e. throwS (ioError e True))) (\<lambda>_.
           bindS (recoverSegments directory) (\<lambda>recovered.
             if rv_segments recovered = [] then
               bindS (createSegment directory 1 (mode = Flushed)) (\<lambda>(info, fd).
               getsS (\<lambda>st. Inr (new_wal options mode groupCommit (nat (num_int size)) [info] fd SEGMENT_HEADER_SIZE 1 st)))
             else
               bindS (open_active (sg_path (last (rv_segments recovered))) (rv_validEnd recovered)) (\<lambda>fd.
               getsS (\<lambda>st. Inr (new_wal options mode groupCommit (nat (num_int size)) (rv_segments recovered) fd
                 (rv_validEnd recovered) (rv_lastLsn recovered + 1) st))))))"

section \<open>Writing\<close>

definition assertOpen :: "(wal, unit) operation" where
  "assertOpen = getsS (\<lambda>w. if wl_closed w then Inl (StorageError Closed) else Inr ())"

definition assertWritable :: "(wal, unit) operation" where
  "assertWritable = bindS assertOpen (\<lambda>_. getsS (\<lambda>w. if wl_broken w then Inl (StorageError Io) else Inr ()))"

definition mark_broken :: "(wal, unit) operation" where
  "mark_broken = modifyS (\<lambda>w. w\<lparr>wl_broken := True\<rparr>)"

definition lastLsn :: "wal \<Rightarrow> nat" where "lastLsn w = wl_nextLsn w - 1"
definition firstLsn :: "wal \<Rightarrow> nat" where "firstLsn w = sg_firstLsn (hd (wl_segments w))"
definition segmentCount :: "wal \<Rightarrow> nat" where "segmentCount w = length (wl_segments w)"

text \<open>The open descriptor; after \<open>assertWritable\<close> there is one.\<close>

definition with_fd :: "(path \<Rightarrow> (wal, 'a) operation) \<Rightarrow> (wal, 'a) operation" where
  "with_fd f = bindS (getsS (\<lambda>w. case wl_fd w of None \<Rightarrow> Inl TypeFailure | Some fd \<Rightarrow> Inr fd)) f"

text \<open>\<open>abandonWrite\<close> ends in the error to throw.\<close>

definition abandonWrite :: "failure \<Rightarrow> nat \<Rightarrow> (wal, 'a) operation" where
  "abandonWrite e goodEnd =
     bindS (if isDiskFull e
            then catchS (bindS (with_fd (\<lambda>fd. ftruncateSync fd goodEnd)) (\<lambda>_. returnS True)) (\<lambda>_. returnS False)
            else returnS False) (\<lambda>cut.
     bindS (if cut then returnS () else mark_broken) (\<lambda>_. throwS (ioError e True)))"

text \<open>\<open>fsyncSync\<close> with the handler that breaks the log.\<close>

definition sync_or_break :: "(wal, unit) operation" where
  "sync_or_break =
     catchS (with_fd fsyncSync) (\<lambda>e. bindS mark_broken (\<lambda>_. throwS (ioError e False)))"

definition wal_flush :: "(wal, unit) operation" where
  "wal_flush =
     bindS assertWritable (\<lambda>_. bindS (getsS Inr) (\<lambda>w.
       if wl_pendingBytes w = 0 then returnS ()
       else
         bindS (catchS (with_fd (\<lambda>fd. writeFully fd (concat (wl_pending w)) (wl_position w - wl_pendingBytes w)))
                  (\<lambda>e. abandonWrite e (wl_position w - wl_pendingBytes w))) (\<lambda>_.
         modifyS (\<lambda>w. w\<lparr>wl_pending := [], wl_pendingBytes := 0\<rparr>))))"

definition wal_commit :: "(wal, unit) operation" where
  "wal_commit =
     bindS (getsS Inr) (\<lambda>w.
       if \<not> wl_unsynced w \<or> wl_closed w then returnS ()
       else bindS assertWritable (\<lambda>_. bindS sync_or_break (\<lambda>_. modifyS (\<lambda>w. w\<lparr>wl_unsynced := False\<rparr>))))"

definition wal_sync :: "(wal, unit) operation" where
  "wal_sync = bindS wal_flush (\<lambda>_. bindS sync_or_break (\<lambda>_. modifyS (\<lambda>w. w\<lparr>wl_unsynced := False\<rparr>)))"

definition rotate_log :: "(wal, unit) operation" where
  "rotate_log =
     bindS wal_flush (\<lambda>_. bindS (getsS Inr) (\<lambda>w.
     bindS (if wl_mode w = Flushed
            then bindS sync_or_break (\<lambda>_. modifyS (\<lambda>w. w\<lparr>wl_unsynced := False\<rparr>)) else returnS ()) (\<lambda>_.
     bindS (createSegment (wl_directory w) (wl_nextLsn w) (wl_mode w = Flushed)) (\<lambda>(info, fd).
     bindS (modifyS (\<lambda>w. w\<lparr>wl_segments := wl_segments w @ [info], wl_fd := Some fd, wl_position := SEGMENT_HEADER_SIZE\<rparr>)) (\<lambda>_.
       catchS (case wl_fd w of None \<Rightarrow> throwS TypeFailure | Some previous \<Rightarrow> closeSync previous)
         (\<lambda>e. bindS mark_broken (\<lambda>_. throwS (ioError e False))))))))"

definition append_memory :: "nat \<Rightarrow> bytes \<Rightarrow> (wal, nat) operation" where
  "append_memory lsn r =
     bindS (modifyS (\<lambda>w. w\<lparr>wl_pending := wl_pending w @ [r], wl_pendingBytes := wl_pendingBytes w + length r,
                           wl_position := wl_position w + length r, wl_nextLsn := lsn + 1\<rparr>)) (\<lambda>_.
     bindS (getsS Inr) (\<lambda>w.
     bindS (if wl_pendingBytes w \<ge> MEMORY_FLUSH_BYTES
            then catchS wal_flush (\<lambda>e. bindS (modifyS (\<lambda>w.
                   if wl_broken w then w
                   else w\<lparr>wl_pending := butlast (wl_pending w), wl_pendingBytes := wl_pendingBytes w - length r,
                          wl_position := wl_position w - length r, wl_nextLsn := lsn\<rparr>)) (\<lambda>_. throwS e))
            else returnS ()) (\<lambda>_.
     returnS lsn)))"

definition append_file :: "nat \<Rightarrow> bytes \<Rightarrow> (wal, nat) operation" where
  "append_file lsn r =
     bindS (getsS Inr) (\<lambda>w.
     bindS (catchS (with_fd (\<lambda>fd. writeFully fd r (wl_position w))) (\<lambda>e. abandonWrite e (wl_position w))) (\<lambda>_.
     bindS (if wl_mode w = Flushed
            then (if wl_groupCommit w then modifyS (\<lambda>w. w\<lparr>wl_unsynced := True\<rparr>) else sync_or_break)
            else returnS ()) (\<lambda>_.
     bindS (modifyS (\<lambda>w. w\<lparr>wl_position := wl_position w + length r, wl_nextLsn := lsn + 1\<rparr>)) (\<lambda>_.
     returnS lsn))))"

definition wal_append :: "int \<Rightarrow> bytes \<Rightarrow> (wal, nat) operation" where
  "wal_append type payload =
     bindS assertWritable (\<lambda>_. bindS (getsS Inr) (\<lambda>w.
     bindS (fromR (encodeRecord (wl_nextLsn w) type payload)) (\<lambda>r.
     bindS (if wl_position w > SEGMENT_HEADER_SIZE \<and> wl_position w + length r > wl_segmentSizeBytes w
            then rotate_log else returnS ()) (\<lambda>_.
       if wl_mode w = Memory then append_memory (wl_nextLsn w) r else append_file (wl_nextLsn w) r))))"

section \<open>Reading and truncating\<close>

fun records_loop :: "nat \<Rightarrow> segment_info list \<Rightarrow> (wal, wal_record list) operation" where
  "records_loop afterLsn [] = returnS []"
| "records_loop afterLsn (segment # segments) =
     (if (case segments of [] \<Rightarrow> False | next # _ \<Rightarrow> sg_firstLsn next \<le> afterLsn + 1)
      then records_loop afterLsn segments
      else
        bindS (readSegment (sg_path segment)) (\<lambda>bytes.
          if decodeSegmentHeader bytes \<noteq> Some (sg_firstLsn segment) then throwS corruption
          else
            case scan_segment bytes SEGMENT_HEADER_SIZE (sg_firstLsn segment) of (rs, offset, expected, stop) \<Rightarrow>
              if stop = Corrupt then throwS corruption
              else bindS (records_loop afterLsn segments) (\<lambda>rest.
                returnS (filter (\<lambda>r. wr_lsn r > afterLsn) rs @ rest))))"

definition wal_records :: "nat \<Rightarrow> (wal, wal_record list) operation" where
  "wal_records afterLsn =
     bindS assertOpen (\<lambda>_. bindS (getsS Inr) (\<lambda>w.
     bindS (if \<not> wl_broken w then wal_flush else returnS ()) (\<lambda>_.
       records_loop afterLsn (wl_segments w))))"

fun truncate_loop :: "nat \<Rightarrow> segment_info list \<Rightarrow> (wal, nat) operation" where
  "truncate_loop lsn (oldest # next # segments) =
     (if sg_firstLsn next > lsn + 1 then returnS 0
      else
        bindS (modifyS (\<lambda>w. w\<lparr>wl_segments := next # segments\<rparr>)) (\<lambda>_.
        bindS (catchS (unlinkSync (sg_path oldest))
                 (\<lambda>e. bindS (modifyS (\<lambda>w. w\<lparr>wl_segments := oldest # wl_segments w\<rparr>)) (\<lambda>_. throwS (ioError e True)))) (\<lambda>_.
        bindS (truncate_loop lsn (next # segments)) (\<lambda>removed. returnS (removed + 1)))))"
| "truncate_loop lsn segments = returnS 0"

definition truncateThrough :: "nat \<Rightarrow> (wal, nat) operation" where
  "truncateThrough lsn =
     bindS assertWritable (\<lambda>_. bindS (getsS Inr) (\<lambda>w.
     bindS (truncate_loop lsn (wl_segments w)) (\<lambda>removed.
     bindS (if removed > 0 \<and> wl_mode w = Flushed then syncDirectory (wl_directory w) else returnS ()) (\<lambda>_.
     returnS removed))))"

section \<open>Closing\<close>

definition close_wal :: "(wal, unit) operation" where
  "close_wal =
     bindS (getsS Inr) (\<lambda>w.
       if wl_closed w then returnS ()
       else
         bindS (if \<not> wl_broken w
                then catchS (bindS wal_flush (\<lambda>_. bindS wal_commit (\<lambda>_. returnS None))) (\<lambda>e. returnS (Some e))
                else returnS None) (\<lambda>pendingError.
         bindS (modifyS (\<lambda>w. w\<lparr>wl_closed := True, wl_fd := None\<rparr>)) (\<lambda>_.
         bindS (case wl_fd w of
                  None \<Rightarrow> returnS ()
                | Some fd \<Rightarrow> catchS (closeSync fd) (\<lambda>e. throwS (ioError e True))) (\<lambda>_.
         case pendingError of None \<Rightarrow> returnS () | Some e \<Rightarrow> throwS e))))"

end
