(* ===== verification/Checkpoint.thy ===== *)
theory Checkpoint
  imports Operations Custom_Id Write_Ahead_Log
begin

text \<open>
  \<open>packages/storage/src/engine/checkpoint.ts\<close>: snapshots of all collections. A snapshot is written
  to a temporary file, flushed, renamed to its final name and only then counted on; reading checks
  its end marker and checksum before anything else. The generator \<open>writeCheckpointSteps\<close> is run to
  its end, as \<open>writeCheckpoint\<close> does; \<open>onStage\<close> is the caller's and may throw.
\<close>

definition CHECKPOINT_FORMAT_VERSION :: nat where "CHECKPOINT_FORMAT_VERSION = 2"
definition OLDEST_READABLE_VERSION :: nat where "OLDEST_READABLE_VERSION = 1"
definition SNAPSHOT_MAGIC :: bytes where "SNAPSHOT_MAGIC = [0x53, 0x49, 0x4e, 0x54, 0x53, 0x4e, 0x50, 0x00]"
definition END_MAGIC :: bytes where "END_MAGIC = [0x53, 0x49, 0x4e, 0x54, 0x45, 0x4e, 0x44, 0x00]"
definition SNAPSHOT_HEADER_SIZE :: nat where "SNAPSHOT_HEADER_SIZE = 24"
definition FOOTER_SIZE :: nat where "FOOTER_SIZE = 12"
definition FLUSH_THRESHOLD :: nat where "FLUSH_THRESHOLD = 1024 * 1024"
definition snapshot_suffix :: js_string where "snapshot_suffix = js ''.snap''"
definition TEMPORARY_SUFFIX :: js_string where "TEMPORARY_SUFFIX = js ''.snap.tmp''"

datatype checkpoint_stage = SnapshotWritten | SnapshotRenamed | SnapshotsPruned | LogTruncated

record checkpoint_collection =
  cc_database :: js_string
  cc_collection :: js_string
  cc_documents :: "(js_string \<times> bytes) list"
  cc_documentCount :: nat
  cc_indexes :: "index_spec list"

record recovered_collection =
  rc_database :: js_string
  rc_collection :: js_string
  rc_documents :: "(js_string \<times> bytes) list"
  rc_indexes :: "index_spec list"

record read_checkpoint =
  ck_lsn :: nat
  ck_collections :: "recovered_collection list"

record checkpoint_file =
  cf_lsn :: nat
  cf_file :: js_string
  cf_path :: path

definition checkpointFileName :: "nat \<Rightarrow> js_string" where
  "checkpointFileName lsn = lsn_name snapshot_suffix lsn"

definition compare_newest :: "checkpoint_file \<Rightarrow> checkpoint_file \<Rightarrow> int" where
  "compare_newest left right = (if cf_lsn left < cf_lsn right then 1 else if cf_lsn left > cf_lsn right then - 1 else 0)"

definition listCheckpoints :: "js_string \<Rightarrow> ('z os_scheme, checkpoint_file list) operation" where
  "listCheckpoints directory =
     bindS (readdirSync directory) (\<lambda>files.
       returnS (sort_by compare_newest
         (map (\<lambda>name. \<lparr>cf_lsn = the (parse_lsn_name snapshot_suffix name), cf_file = name, cf_path = (directory, name)\<rparr>)
           (filter (\<lambda>name. parse_lsn_name snapshot_suffix name \<noteq> None) files))))"

definition ends_with :: "js_string \<Rightarrow> js_string \<Rightarrow> bool" where
  "ends_with suffix name \<longleftrightarrow> length suffix \<le> length name \<and> drop (length name - length suffix) name = suffix"

fun remove_temporary :: "js_string \<Rightarrow> js_string list \<Rightarrow> ('z os_scheme, nat) operation" where
  "remove_temporary directory [] = returnS 0"
| "remove_temporary directory (name # names) =
     (if ends_with TEMPORARY_SUFFIX name
      then bindS (unlinkSync (directory, name)) (\<lambda>_. bindS (remove_temporary directory names) (\<lambda>n. returnS (n + 1)))
      else remove_temporary directory names)"

definition removeTemporaryCheckpoints :: "js_string \<Rightarrow> ('z os_scheme, nat) operation" where
  "removeTemporaryCheckpoints directory =
     bindS (readdirSync directory) (\<lambda>names.
     bindS (remove_temporary directory names) (\<lambda>removed.
     bindS (if removed > 0 then syncDirectory directory else returnS ()) (\<lambda>_. returnS removed)))"

section \<open>Writing\<close>

text \<open>
  The variables of the generator: the checksum of what was written, the chunks waiting to be
  written, and the position of the descriptor, at which \<open>writeSync\<close> writes.
\<close>

record snapshot_writer =
  sw_checksum :: "32 word"
  sw_pending :: "bytes list"
  sw_pendingBytes :: nat
  sw_position :: nat

definition new_snapshot_writer :: snapshot_writer where
  "new_snapshot_writer = \<lparr>sw_checksum = 0, sw_pending = [], sw_pendingBytes = 0, sw_position = 0\<rparr>"

text \<open>\<open>writeAll\<close> is the loop of \<open>writeFully\<close>, at the position of the descriptor.\<close>

definition writeAll :: "path \<Rightarrow> bytes \<Rightarrow> snapshot_writer \<Rightarrow> ('z os_scheme, snapshot_writer) operation" where
  "writeAll fd bytes w =
     bindS (writeFully fd bytes (sw_position w)) (\<lambda>_. returnS (w\<lparr>sw_position := sw_position w + length bytes\<rparr>))"

definition sw_flush :: "path \<Rightarrow> snapshot_writer \<Rightarrow> ('z os_scheme, snapshot_writer) operation" where
  "sw_flush fd w =
     (if sw_pendingBytes w = 0 then returnS w
      else
        let chunk = concat (sw_pending w)
        in writeAll fd chunk (w\<lparr>sw_pending := [], sw_pendingBytes := 0, sw_checksum := crc32_from chunk (sw_checksum w)\<rparr>))"

definition sw_add :: "bytes \<Rightarrow> snapshot_writer \<Rightarrow> snapshot_writer" where
  "sw_add bytes w = w\<lparr>sw_pending := sw_pending w @ [bytes], sw_pendingBytes := sw_pendingBytes w + length bytes\<rparr>"

text \<open>The 20 bytes in front of a document: its id, cut or padded to 16 bytes, and its length.\<close>

definition document_entry :: "js_string \<Rightarrow> bytes \<Rightarrow> failure + bytes" where
  "document_entry key doc =
     bindR (writeUInt32BE (length doc)) (\<lambda>len.
       Inr (take ID_BYTE_LENGTH (parse_hex key @ replicate ID_BYTE_LENGTH 0) @ len))"

fun write_documents :: "path \<Rightarrow> (js_string \<times> bytes) list \<Rightarrow> snapshot_writer \<Rightarrow> ('z os_scheme, snapshot_writer) operation" where
  "write_documents fd [] w = returnS w"
| "write_documents fd ((key, doc) # docs) w =
     bindS (fromR (document_entry key doc)) (\<lambda>entry.
       let w1 = sw_add doc (sw_add entry w)
       in bindS (if sw_pendingBytes w1 \<ge> FLUSH_THRESHOLD then sw_flush fd w1 else returnS w1) (write_documents fd docs))"

fun add_indexes :: "index_spec list \<Rightarrow> snapshot_writer \<Rightarrow> failure + snapshot_writer" where
  "add_indexes [] w = Inr w"
| "add_indexes (index # indexes) w = bindR (encodeIndexSpec index) (\<lambda>e. add_indexes indexes (sw_add e w))"

definition writeUint16BE :: "nat \<Rightarrow> failure + bytes" where
  "writeUint16BE v = (if v < 65536 then Inr (be_bytes 2 v) else Inl OutOfRange)"

fun write_collections :: "path \<Rightarrow> checkpoint_collection list \<Rightarrow> snapshot_writer \<Rightarrow> ('z os_scheme, snapshot_writer) operation" where
  "write_collections fd [] w = returnS w"
| "write_collections fd (c # cs) w =
     bindS (fromR (encodeName (cc_database c))) (\<lambda>database.
     bindS (fromR (encodeName (cc_collection c))) (\<lambda>collection.
     bindS (fromR (writeUint16BE (length (cc_indexes c)))) (\<lambda>indexCount.
     bindS (fromR (add_indexes (cc_indexes c) (sw_add indexCount (sw_add collection (sw_add database w))))) (\<lambda>w1.
     bindS (fromR (writeUInt32BE (cc_documentCount c))) (\<lambda>documentCount.
     bindS (write_documents fd (cc_documents c) (sw_add documentCount w1)) (write_collections fd cs))))))"

definition snapshot_header :: "nat \<Rightarrow> nat \<Rightarrow> failure + bytes" where
  "snapshot_header lsn n =
     bindR (writeBigUInt64BE lsn) (\<lambda>l. bindR (writeUInt32BE n) (\<lambda>c.
       Inr (SNAPSHOT_MAGIC @ be_bytes 4 CHECKPOINT_FORMAT_VERSION @ l @ c)))"

definition write_snapshot :: "path \<Rightarrow> nat \<Rightarrow> checkpoint_collection list \<Rightarrow> ('z os_scheme, unit) operation" where
  "write_snapshot fd lsn collections =
     bindS (fromR (snapshot_header lsn (length collections))) (\<lambda>header.
     bindS (write_collections fd collections (sw_add header new_snapshot_writer)) (\<lambda>w.
     bindS (sw_flush fd w) (\<lambda>w1.
     bindS (writeAll fd (be_bytes 4 (unat (sw_checksum w1)) @ END_MAGIC) w1) (\<lambda>_.
     fsyncSync fd))))"

definition unlinkQuietly :: "path \<Rightarrow> ('z os_scheme, unit) operation" where
  "unlinkQuietly p = catchS (unlinkSync p) (\<lambda>_. returnS ())"

definition writeCheckpoint ::
  "js_string \<Rightarrow> nat \<Rightarrow> checkpoint_collection list \<Rightarrow> (checkpoint_stage \<Rightarrow> ('z os_scheme, unit) operation) \<Rightarrow>
   ('z os_scheme, js_string) operation" where
  "writeCheckpoint directory lsn collections onStage =
     (let name = checkpointFileName lsn;
          temporary = (directory, take (length name - 5) name @ TEMPORARY_SUFFIX)
      in bindS (openSync_w temporary) (\<lambda>fd.
         bindS (catchS (write_snapshot fd lsn collections)
                  (\<lambda>e. bindS (catchS (closeSync fd) (\<lambda>_. returnS ())) (\<lambda>_.
                       bindS (unlinkQuietly temporary) (\<lambda>_. throwS e)))) (\<lambda>_.
         bindS (catchS (bindS (closeSync fd) (\<lambda>_.
                        bindS (onStage SnapshotWritten) (\<lambda>_.
                        bindS (renameSync temporary (directory, name)) (\<lambda>_. syncDirectory directory))))
                  (\<lambda>e. bindS (unlinkQuietly temporary) (\<lambda>_. throwS e))) (\<lambda>_.
         bindS (onStage SnapshotRenamed) (\<lambda>_. returnS name)))))"

section \<open>Reading\<close>

record snapshot_reader =
  sr_buffer :: bytes
  sr_end :: nat
  sr_offset :: nat

definition sr_require :: "nat \<Rightarrow> (snapshot_reader, unit) operation" where
  "sr_require len = getsS (\<lambda>r. if sr_offset r + len > sr_end r then Inl CheckpointDamaged else Inr ())"

definition sr_bytes :: "nat \<Rightarrow> (snapshot_reader, bytes) operation" where
  "sr_bytes len =
     bindS (sr_require len) (\<lambda>_.
     bindS (getsS (\<lambda>r. Inr (sub_bytes (sr_offset r) (sr_offset r + len) (sr_buffer r)))) (\<lambda>value.
     bindS (modifyS (\<lambda>r. r\<lparr>sr_offset := sr_offset r + len\<rparr>)) (\<lambda>_. returnS value)))"

definition sr_u8 :: "(snapshot_reader, nat) operation" where
  "sr_u8 = bindS (sr_bytes 1) (\<lambda>b. returnS (be_nat b))"

definition sr_u16 :: "(snapshot_reader, nat) operation" where
  "sr_u16 = bindS (sr_bytes 2) (\<lambda>b. returnS (be_nat b))"

definition sr_u32 :: "(snapshot_reader, nat) operation" where
  "sr_u32 = bindS (sr_bytes 4) (\<lambda>b. returnS (be_nat b))"

definition sr_name :: "(snapshot_reader, js_string) operation" where
  "sr_name =
     bindS sr_u16 (\<lambda>len.
       if len = 0 then throwS CheckpointDamaged
       else bindS (sr_bytes len) (\<lambda>raw.
         case text_decode raw of None \<Rightarrow> throwS CheckpointDamaged | Some s \<Rightarrow> returnS s))"

definition sr_document :: "(snapshot_reader, js_string \<times> bytes) operation" where
  "sr_document =
     bindS (sr_bytes ID_BYTE_LENGTH) (\<lambda>i.
     bindS (bindS sr_u32 sr_bytes) (\<lambda>doc. returnS (toHexString i, doc)))"

definition sr_index :: "(snapshot_reader, index_spec) operation" where
  "sr_index = catchS (readIndexSpec sr_name sr_u8) (\<lambda>_. throwS CheckpointDamaged)"

text \<open>The documents are put into a \<open>Map\<close>, so a repeated id keeps its place and gets the last value.\<close>

definition sr_collection :: "nat \<Rightarrow> (snapshot_reader, recovered_collection) operation" where
  "sr_collection version =
     bindS sr_name (\<lambda>database. bindS sr_name (\<lambda>collection.
     bindS (if version \<ge> 2 then bindS sr_u16 (\<lambda>n. read_times n sr_index) else returnS []) (\<lambda>indexes.
     bindS (bindS sr_u32 (\<lambda>n. read_times n sr_document)) (\<lambda>documents.
     returnS \<lparr>rc_database = database, rc_collection = collection,
       rc_documents = foldl (\<lambda>m (k, d). AList.update k d m) [] documents, rc_indexes = indexes\<rparr>))))"

definition parse_snapshot :: "bytes \<Rightarrow> failure + read_checkpoint" where
  "parse_snapshot bytes =
     (if length bytes < SNAPSHOT_HEADER_SIZE + FOOTER_SIZE then Inl CheckpointDamaged
      else
        let footerStart = length bytes - FOOTER_SIZE
        in if drop (footerStart + 4) bytes \<noteq> END_MAGIC then Inl CheckpointDamaged
           else if read_be 4 footerStart bytes \<noteq> crc32 (sub_bytes 0 footerStart bytes) then Inl CheckpointDamaged
           else if sub_bytes 0 8 bytes \<noteq> SNAPSHOT_MAGIC then Inl CheckpointDamaged
           else
             let version = read_be 4 8 bytes
             in if version < OLDEST_READABLE_VERSION \<or> version > CHECKPOINT_FORMAT_VERSION then Inl CheckpointDamaged
                else
                  case read_times (read_be 4 20 bytes) (sr_collection version)
                         \<lparr>sr_buffer = bytes, sr_end = footerStart, sr_offset = SNAPSHOT_HEADER_SIZE\<rparr> of
                    (Inl e, _) \<Rightarrow> Inl e
                  | (Inr collections, r) \<Rightarrow>
                      if sr_offset r \<noteq> footerStart then Inl CheckpointDamaged
                      else Inr \<lparr>ck_lsn = read_be 8 12 bytes, ck_collections = collections\<rparr>)"

definition readCheckpoint :: "path \<Rightarrow> ('z os_scheme, read_checkpoint) operation" where
  "readCheckpoint p = bindS (readFileSync p) (\<lambda>bytes. fromR (parse_snapshot bytes))"

end
