(* ===== verification/Field_Index.thy ===== *)
theory Field_Index
  imports Index_Spec
begin

text \<open>
  \<open>packages/storage/src/indexing/field-index.ts\<close>: an index on one field. \<open>byValue\<close> maps the
  canonical key of a value to the documents that hold it, \<open>missing\<close> lists the documents
  without the field, and \<open>ordered\<close> keeps the values of every class sorted for range scans.
  Documents are known by their key, the hexadecimal \<open>_id\<close>.
\<close>

type_synonym doc_key = js_string

record index_bound =
  ib_value :: doc_value
  ib_inclusive :: bool

type_synonym ordered_entry = "doc_value \<times> bytes"

record field_index =
  fx_spec :: index_spec
  fx_segments :: "js_string list"
  fx_byValue :: "(bytes \<times> doc_key list) list"
  fx_missing :: "doc_key list"
  fx_ordered :: "(value_class \<times> ordered_entry list) list"
  fx_unsorted :: "value_class list"
  fx_arrayValues :: int
  fx_indexedDocuments :: int

definition new_field_index :: "index_spec \<Rightarrow> field_index" where
  "new_field_index spec =
     \<lparr>fx_spec = spec, fx_segments = split_path (is_field spec), fx_byValue = [], fx_missing = [],
      fx_ordered = [], fx_unsorted = [], fx_arrayValues = 0, fx_indexedDocuments = 0\<rparr>"

definition hasArrayValues :: "field_index \<Rightarrow> bool" where
  "hasArrayValues fx \<longleftrightarrow> 0 < fx_arrayValues fx"

definition map_get :: "('k \<times> 'v list) list \<Rightarrow> 'k \<Rightarrow> 'v list" where
  "map_get m k = (case map_of m k of None \<Rightarrow> [] | Some vs \<Rightarrow> vs)"

section \<open>The ordered entries\<close>

definition lowerBound :: "ordered_entry list \<Rightarrow> doc_value \<Rightarrow> nat" where
  "lowerBound entries v = bisect (\<lambda>middle. compareSameClass (fst (entries ! middle)) v < 0) 0 (length entries)"

definition upperBound :: "ordered_entry list \<Rightarrow> doc_value \<Rightarrow> nat" where
  "upperBound entries v = bisect (\<lambda>middle. compareSameClass (fst (entries ! middle)) v \<le> 0) 0 (length entries)"

definition splice_in :: "nat \<Rightarrow> 'a \<Rightarrow> 'a list \<Rightarrow> 'a list" where
  "splice_in pos x xs = take pos xs @ x # drop pos xs"

definition splice_out :: "nat \<Rightarrow> 'a list \<Rightarrow> 'a list" where
  "splice_out pos xs = take pos xs @ drop (Suc pos) xs"

definition insertOrdered :: "doc_value \<Rightarrow> bytes \<Rightarrow> bool \<Rightarrow> field_index \<Rightarrow> field_index" where
  "insertOrdered v key bulk fx =
     (case valueClassOf v of
        None \<Rightarrow> fx
      | Some valueClass \<Rightarrow>
          (let entries = map_get (fx_ordered fx) valueClass in
           if bulk
           then fx\<lparr>fx_ordered := AList.update valueClass (entries @ [(v, key)]) (fx_ordered fx),
                   fx_unsorted := set_add valueClass (fx_unsorted fx)\<rparr>
           else fx\<lparr>fx_ordered := AList.update valueClass
                     (splice_in (lowerBound entries v) (v, key) entries) (fx_ordered fx)\<rparr>))"

text \<open>The loop of \<open>removeOrdered\<close>: the position of \<open>key\<close> among the entries equal to \<open>v\<close>.\<close>

function find_entry :: "ordered_entry list \<Rightarrow> doc_value \<Rightarrow> bytes \<Rightarrow> nat \<Rightarrow> nat option" where
  "find_entry entries v key position =
     (if position < length entries \<and> compareSameClass (fst (entries ! position)) v = 0
      then if snd (entries ! position) = key then Some position else find_entry entries v key (position + 1)
      else None)"
  by pat_completeness auto
termination
  by (relation "measure (\<lambda>(entries, v, key, position). length entries - position)") auto

declare find_entry.simps [simp del]

definition removeOrdered :: "doc_value \<Rightarrow> bytes \<Rightarrow> field_index \<Rightarrow> field_index" where
  "removeOrdered v key fx =
     (case valueClassOf v of
        None \<Rightarrow> fx
      | Some valueClass \<Rightarrow>
          (case map_of (fx_ordered fx) valueClass of
             None \<Rightarrow> fx
           | Some entries \<Rightarrow>
               (case find_entry entries v key (lowerBound entries v) of
                  None \<Rightarrow> fx
                | Some position \<Rightarrow>
                    fx\<lparr>fx_ordered := AList.update valueClass (splice_out position entries) (fx_ordered fx)\<rparr>)))"

definition finishBulk :: "field_index \<Rightarrow> field_index" where
  "finishBulk fx =
     fx\<lparr>fx_ordered := foldl (\<lambda>ordered valueClass.
            AList.update valueClass
              (sort_by (\<lambda>l r. compareSameClass (fst l) (fst r)) (map_get ordered valueClass)) ordered)
          (fx_ordered fx) (fx_unsorted fx),
        fx_unsorted := []\<rparr>"

section \<open>Adding and removing documents\<close>

definition index_add :: "doc_key \<Rightarrow> document \<Rightarrow> bool \<Rightarrow> field_index \<Rightarrow> field_index" where
  "index_add docKey d bulk fx =
     (case resolveField d (fx_segments fx) of
        None \<Rightarrow>
          if is_sparse (fx_spec fx) then fx
          else fx\<lparr>fx_missing := set_add docKey (fx_missing fx),
                  fx_indexedDocuments := fx_indexedDocuments fx + 1\<rparr>
      | Some v \<Rightarrow>
          (let key = canonicalKey v;
               fx1 = (if map_of (fx_byValue fx) key = None then insertOrdered v key bulk fx else fx);
               keys = map_get (fx_byValue fx) key
           in fx1\<lparr>fx_byValue := AList.update key (set_add docKey keys) (fx_byValue fx),
                  fx_arrayValues := fx_arrayValues fx + (if isArray v then 1 else 0),
                  fx_indexedDocuments := fx_indexedDocuments fx + 1\<rparr>))"

definition index_remove :: "doc_key \<Rightarrow> document \<Rightarrow> field_index \<Rightarrow> field_index" where
  "index_remove docKey d fx =
     (case resolveField d (fx_segments fx) of
        None \<Rightarrow>
          if \<not> is_sparse (fx_spec fx) \<and> docKey \<in> set (fx_missing fx)
          then fx\<lparr>fx_missing := removeAll docKey (fx_missing fx),
                  fx_indexedDocuments := fx_indexedDocuments fx - 1\<rparr>
          else fx
      | Some v \<Rightarrow>
          (let key = canonicalKey v in
           case map_of (fx_byValue fx) key of
             None \<Rightarrow> fx
           | Some keys \<Rightarrow>
               if docKey \<notin> set keys then fx
               else
                 (let keys' = removeAll docKey keys;
                      fx1 = (if keys' = []
                             then removeOrdered v key (fx\<lparr>fx_byValue := AList.delete key (fx_byValue fx)\<rparr>)
                             else fx\<lparr>fx_byValue := AList.update key keys' (fx_byValue fx)\<rparr>)
                  in fx1\<lparr>fx_arrayValues := fx_arrayValues fx - (if isArray v then 1 else 0),
                         fx_indexedDocuments := fx_indexedDocuments fx - 1\<rparr>)))"

definition conflictFor :: "doc_key \<Rightarrow> document \<Rightarrow> field_index \<Rightarrow> bool" where
  "conflictFor docKey d fx =
     (if \<not> is_unique (fx_spec fx) then False
      else case resolveField d (fx_segments fx) of
        None \<Rightarrow>
          if is_sparse (fx_spec fx) then False
          else filter (\<lambda>other. other \<noteq> docKey) (fx_missing fx) \<noteq> []
      | Some v \<Rightarrow>
          (case map_of (fx_byValue fx) (canonicalKey v) of
             None \<Rightarrow> False
           | Some keys \<Rightarrow> list_ex (\<lambda>other. other \<noteq> docKey) keys))"

section \<open>Lookups\<close>

definition lookupEqual :: "field_index \<Rightarrow> doc_value \<Rightarrow> doc_key list option" where
  "lookupEqual fx v = map_of (fx_byValue fx) (canonicalKey v)"

definition estimateEqual :: "field_index \<Rightarrow> doc_value \<Rightarrow> int" where
  "estimateEqual fx v = int (length (map_get (fx_byValue fx) (canonicalKey v)))"

definition rangeEntries ::
  "field_index \<Rightarrow> value_class \<Rightarrow> index_bound option \<Rightarrow> index_bound option \<Rightarrow> nat \<times> nat" where
  "rangeEntries fx valueClass lower upper =
     (let entries = map_get (fx_ordered fx) valueClass;
          start = (case lower of None \<Rightarrow> 0
            | Some b \<Rightarrow> if ib_inclusive b then lowerBound entries (ib_value b) else upperBound entries (ib_value b));
          end' = (case upper of None \<Rightarrow> length entries
            | Some b \<Rightarrow> if ib_inclusive b then upperBound entries (ib_value b) else lowerBound entries (ib_value b))
      in (start, max start end'))"

text \<open>
  The double nearest to \<open>a / b\<close>: the quotient in units of \<open>2 ^ -1075\<close>, with the lowest bit
  standing for a remainder, is rounded as a scaled value and brought back by one exponent.
\<close>

definition num_quotient :: "nat \<Rightarrow> nat \<Rightarrow> js_number" where
  "num_quotient a b =
     (if a = 0 then 0
      else (let q = a * 2 ^ 1074 div b; r = a * 2 ^ 1074 mod b
            in of_nat (round_mag (2 * q + (if r = 0 then 0 else 1)) - 2 ^ 52)))"

definition num_ceil :: "js_number \<Rightarrow> int" where
  "num_ceil n = - ((- num_scaled n) div num_unit)"

definition estimateRange ::
  "field_index \<Rightarrow> value_class \<Rightarrow> index_bound option \<Rightarrow> index_bound option \<Rightarrow> int" where
  "estimateRange fx valueClass lower upper =
     (let (start, end') = rangeEntries fx valueClass lower upper;
          average = (if length (fx_byValue fx) = 0 then 0
                     else num_quotient (nat (fx_indexedDocuments fx)) (length (fx_byValue fx)))
      in num_ceil (num_of_scaled (int (end' - start) * num_scaled average)))"

definition lookupRange ::
  "field_index \<Rightarrow> value_class \<Rightarrow> index_bound option \<Rightarrow> index_bound option \<Rightarrow> doc_key list" where
  "lookupRange fx valueClass lower upper =
     (let entries = map_get (fx_ordered fx) valueClass;
          (start, end') = rangeEntries fx valueClass lower upper
      in foldl (\<lambda>result entry. foldl (\<lambda>result docKey. set_add docKey result) result
                  (map_get (fx_byValue fx) (snd entry)))
           [] (take (end' - start) (drop start entries)))"

section \<open>Contents, for consistency checks\<close>

datatype ordered_problem = EntryWithoutDocuments value_class | EntriesOutOfOrder value_class | EmptyIndexEntry

record index_contents =
  ic_values :: "(bytes \<times> doc_key list) list"
  ic_missing :: "doc_key list"
  ic_problems :: "ordered_problem list"

definition sort_keys :: "doc_key list \<Rightarrow> doc_key list" where
  "sort_keys = sort_by (compare_by list_less)"

fun entry_problems :: "field_index \<Rightarrow> value_class \<Rightarrow> ordered_entry option \<Rightarrow> ordered_entry list \<Rightarrow> ordered_problem list" where
  "entry_problems fx valueClass previous [] = []"
| "entry_problems fx valueClass previous (entry # rest) =
     (if map_of (fx_byValue fx) (snd entry) = None then [EntryWithoutDocuments valueClass] else []) @
     (case previous of None \<Rightarrow> []
      | Some p \<Rightarrow> if 0 < compareSameClass (fst p) (fst entry) then [EntriesOutOfOrder valueClass] else []) @
     entry_problems fx valueClass (Some entry) rest"

definition contents :: "field_index \<Rightarrow> index_contents" where
  "contents fx =
     \<lparr>ic_values = sort_by (\<lambda>l r. compare_by list_less (fst l) (fst r))
        (map (\<lambda>(key, docKeys). (key, sort_keys docKeys)) (fx_byValue fx)),
      ic_missing = sort_keys (fx_missing fx),
      ic_problems =
        concat (map (\<lambda>(valueClass, entries). entry_problems fx valueClass None entries) (fx_ordered fx)) @
        concat (map (\<lambda>(key, docKeys). if docKeys = [] then [EmptyIndexEntry] else []) (fx_byValue fx))\<rparr>"

definition orderedKeyCount :: "field_index \<Rightarrow> nat" where
  "orderedKeyCount fx = sum_list (map (\<lambda>(valueClass, entries). length entries) (fx_ordered fx))"

section \<open>Sorted entries\<close>

definition entries_sorted :: "ordered_entry list \<Rightarrow> bool" where
  "entries_sorted entries \<longleftrightarrow> sorted_wrt (\<lambda>l r. compareSameClass (fst l) (fst r) \<le> 0) entries"

definition entries_of_class :: "value_class \<Rightarrow> ordered_entry list \<Rightarrow> bool" where
  "entries_of_class c entries \<longleftrightarrow> (\<forall>e \<in> set entries. valueClassOf (fst e) = Some c)"

interpretation entry_cmp: comparator "\<lambda>l r. compareSameClass (fst l) (fst r)" "\<lambda>e :: ordered_entry. valueClassOf (fst e) = Some c"
  by unfold_locales (simp add: class_cmp.cmp_flip[of _ c], metis class_cmp.cmp_trans[of _ c])

lemma set_splice_in [simp]: "set (splice_in n x xs) = insert x (set xs)"
  unfolding splice_in_def by (metis append_take_drop_id insert_is_Un list.simps(15) set_append sup.left_commute)

lemma mset_splice_in: "mset (splice_in n x xs) = add_mset x (mset xs)"
  unfolding splice_in_def by (metis append_take_drop_id mset.simps(2) mset_append union_mset_add_mset_right)

lemma mset_splice_out: "n < length xs \<Longrightarrow> add_mset (xs ! n) (mset (splice_out n xs)) = mset xs"
  unfolding splice_out_def
  by (metis id_take_nth_drop mset.simps(2) mset_append union_mset_add_mset_right)

lemma bounds_filter:
  assumes "entries_of_class c entries" "entries_sorted entries" "valueClassOf v = Some c"
  shows "lowerBound entries v = length (filter (\<lambda>e. compareSameClass (fst e) v < 0) entries)"
    and "upperBound entries v = length (filter (\<lambda>e. compareSameClass (fst e) v \<le> 0) entries)"
  using entry_cmp.bisect_less[of entries c "(v, [])"] entry_cmp.bisect_le[of entries c "(v, [])"] assms
  by (simp_all add: lowerBound_def upperBound_def entries_of_class_def entries_sorted_def)

lemma below_bounds:
  assumes "entries_of_class c entries" "entries_sorted entries" "valueClassOf v = Some c" "i < length entries"
  shows "compareSameClass (fst (entries ! i)) v < 0 \<longleftrightarrow> i < lowerBound entries v"
    and "compareSameClass (fst (entries ! i)) v \<le> 0 \<longleftrightarrow> i < upperBound entries v"
  unfolding bounds_filter[OF assms(1-3)]
  using entry_cmp.sorted_prefix_less[of entries c "(v, [])" i] entry_cmp.sorted_prefix_le[of entries c "(v, [])" i] assms
  by (simp_all add: entries_of_class_def entries_sorted_def)

lemma lowerBound_le:
  "entries_of_class c entries \<Longrightarrow> entries_sorted entries \<Longrightarrow> valueClassOf v = Some c \<Longrightarrow>
   lowerBound entries v \<le> length entries"
  by (simp add: bounds_filter(1))

lemma sorted_splice_in:
  assumes "entries_of_class c entries" "entries_sorted entries" "valueClassOf v = Some c"
  shows "entries_sorted (splice_in (lowerBound entries v) (v, key) entries)"
proof -
  let ?n = "lowerBound entries v"
  let ?le = "\<lambda>l r :: ordered_entry. compareSameClass (fst l) (fst r) \<le> 0"
  have front: "?le a (v, key)" if a: "a \<in> set (take ?n entries)" for a
  proof -
    obtain i where "i < ?n" "i < length entries" "a = entries ! i" using a by (auto simp: in_set_conv_nth)
    then show ?thesis using below_bounds(1)[OF assms, of i] by simp
  qed
  have rear: "?le (v, key) b" if b: "b \<in> set (drop ?n entries)" for b
  proof -
    obtain i where i: "?n + i < length entries" "b = entries ! (?n + i)"
      using b by (auto simp: in_set_conv_nth less_diff_conv add.commute)
    then have "\<not> compareSameClass (fst b) v < 0" using below_bounds(1)[OF assms, of "?n + i"] by simp
    moreover have "valueClassOf (fst b) = Some c"
      using b assms(1) by (auto simp: entries_of_class_def dest: in_set_dropD)
    ultimately show ?thesis using class_cmp.cmp_le_flip[OF assms(3), of "fst b"] by simp
  qed
  have "sorted_wrt ?le (take ?n entries @ drop ?n entries)" using assms(2) by (simp add: entries_sorted_def)
  with front rear show ?thesis
    unfolding entries_sorted_def splice_in_def sorted_wrt_append sorted_wrt.simps by auto
qed

lemma find_entry_at:
  assumes "n \<le> j" "j < length xs" "snd (xs ! j) = key"
    and "\<And>i. n \<le> i \<Longrightarrow> i \<le> j \<Longrightarrow> compareSameClass (fst (xs ! i)) v = 0"
    and "\<And>i. n \<le> i \<Longrightarrow> i < j \<Longrightarrow> snd (xs ! i) \<noteq> key"
  shows "find_entry xs v key n = Some j"
  using assms
proof (induction "j - n" arbitrary: n)
  case 0
  then show ?case by (simp add: find_entry.simps[of xs v key n])
next
  case (Suc k)
  then have "find_entry xs v key (n + 1) = Some j" by (intro Suc.hyps(1)) auto
  with Suc show ?case by (simp add: find_entry.simps[of xs v key n])
qed

text \<open>An entry that is present is found, and only it is removed.\<close>

lemma find_entry_present:
  assumes "entries_of_class c entries" "entries_sorted entries" "valueClassOf v = Some c"
    and "distinct (map snd entries)" "(v, key) \<in> set entries"
  obtains j where "find_entry entries v key (lowerBound entries v) = Some j" "j < length entries" "entries ! j = (v, key)"
proof -
  obtain j where j: "j < length entries" "entries ! j = (v, key)" using assms(5) by (auto simp: in_set_conv_nth)
  let ?n = "lowerBound entries v"
  have vv: "compareSameClass v v = 0" using class_cmp.cmp_refl[OF assms(3)] .
  have n: "?n \<le> j" using below_bounds(1)[OF assms(1-3) j(1)] j(2) vv by simp
  have zero: "compareSameClass (fst (entries ! i)) v = 0" if i: "?n \<le> i" "i \<le> j" for i
  proof -
    have "\<not> compareSameClass (fst (entries ! i)) v < 0" using below_bounds(1)[OF assms(1-3), of i] i j(1) by simp
    moreover have "compareSameClass (fst (entries ! i)) v \<le> 0"
    proof (cases "i = j")
      case False
      with i(2) have "i < j" by simp
      then show ?thesis using sorted_wrt_nth_less[OF assms(2)[unfolded entries_sorted_def], of i j] j by simp
    qed (use j vv in simp)
    ultimately show ?thesis by simp
  qed
  have "snd (entries ! i) \<noteq> key" if "i < j" for i
    using assms(4) j that nth_eq_iff_index_eq[OF assms(4), of i j] by auto
  then have "find_entry entries v key ?n = Some j" using n j zero by (intro find_entry_at) auto
  with j that show thesis by blast
qed

lemma splice_out_entry:
  assumes "j < length entries" "entries ! j = e" "distinct (map snd entries)"
  shows "set (splice_out j entries) = set entries - {e}" and "distinct (map snd (splice_out j entries))"
    and "entries_sorted entries \<Longrightarrow> entries_sorted (splice_out j entries)"
proof -
  have d: "entries = take j entries @ e # drop (Suc j) entries" using id_take_nth_drop[OF assms(1)] assms(2) by simp
  have "distinct (map snd (take j entries @ e # drop (Suc j) entries))" using assms(3) d by simp
  then show "set (splice_out j entries) = set entries - {e}" "distinct (map snd (splice_out j entries))"
    using arg_cong[OF d, of set] unfolding splice_out_def by (auto simp del: append_take_drop_id)
  assume "entries_sorted entries"
  then have "entries_sorted (take j entries @ e # drop (Suc j) entries)" using d by simp
  then show "entries_sorted (splice_out j entries)"
    unfolding splice_out_def entries_sorted_def by (simp add: sorted_wrt_append)
qed

section \<open>What an index represents\<close>

text \<open>Comparable values are determined by their canonical key.\<close>

primrec value_kind :: "doc_value \<Rightarrow> nat" where
  "value_kind DNull = 0"
| "value_kind (DBool b) = 1"
| "value_kind (DNumber n) = 3"
| "value_kind (DBigInt i) = 6"
| "value_kind (DString s) = 7"
| "value_kind (DDate t) = 9"
| "value_kind (DBinary bs) = 8"
| "value_kind (DCustomId bs) = 12"
| "value_kind (DArray vs) = 10"
| "value_kind (DDocument d) = 11"
| "value_kind DOther = 13"

definition kind_of_tag :: "nat \<Rightarrow> nat" where
  "kind_of_tag tag = (if tag = 2 then 1 else if tag = 4 \<or> tag = 5 then 3 else tag)"

lemma enc_bytes_kind: "v \<noteq> DOther \<Longrightarrow> kind_of_tag (unat (hd (enc_bytes v))) = value_kind v"
  by (cases v) (simp_all add: byte1_def tag_defs kind_of_tag_def enc_number_def)

lemma enc_bytes_same_kind:
  assumes "storable a" "storable b" "enc_bytes a = enc_bytes b"
  shows "value_kind a = value_kind b"
proof -
  have "a \<noteq> DOther" "b \<noteq> DOther" using assms(1,2) by (auto simp: storable_def)
  then show ?thesis using enc_bytes_kind[of a] enc_bytes_kind[of b] assms(3) by simp
qed

lemma canonicalKey_inj:
  assumes "storable a" "storable b" "valueClassOf a = Some c" "canonicalKey a = canonicalKey b"
  shows "a = b"
proof -
  have enc: "enc_bytes a = enc_bytes b" using assms by (simp add: canonicalKey_storable)
  have kind: "value_kind a = value_kind b" using assms(1,2) enc by (rule enc_bytes_same_kind)
  show ?thesis
  proof (cases "\<exists>x. a = DString x")
    case True
    then obtain x y where xy: "a = DString x" "b = DString y" using kind by (cases b) auto
    with assms(1,2) have wf: "isWellFormed x" "isWellFormed y" by (simp_all add: storable_def)
    have "text_encode x = text_encode y"
      using enc xy by (simp add: enc_prefixed_def byte1_def)
    with wf xy show ?thesis using text_encode_inj by blast
  next
    case False
    then have "bom_free a" "bom_free b" "canon a = a" "canon b = b"
      using assms(1-3) kind
      by (cases a; cases b; simp add: valueClassOf_def isComparableValue_def storable_def canonical_num_id)+
    then show ?thesis
      using encode_eq_iff_canon_eq[of a "enc_bytes a" b "enc_bytes b"] enc assms(1,2)
      by (simp add: storable_encode storable_def)
  qed
qed

type_synonym doc_map = "doc_key \<rightharpoonup> document"

text \<open>The documents an index may cover: finitely many, each one storable.\<close>

definition docs_ok :: "doc_map \<Rightarrow> bool" where
  "docs_ok D \<longleftrightarrow> finite (dom D) \<and> (\<forall>d \<in> ran D. storable (DDocument d))"

definition holders :: "js_string list \<Rightarrow> doc_map \<Rightarrow> bytes \<Rightarrow> doc_key set" where
  "holders segs D key = {dk. \<exists>d v. D dk = Some d \<and> resolveField d segs = Some v \<and> canonicalKey v = key}"

definition lacking :: "js_string list \<Rightarrow> doc_map \<Rightarrow> doc_key set" where
  "lacking segs D = {dk. \<exists>d. D dk = Some d \<and> resolveField d segs = None}"

definition array_holders :: "js_string list \<Rightarrow> doc_map \<Rightarrow> doc_key set" where
  "array_holders segs D = {dk. \<exists>d v. D dk = Some d \<and> resolveField d segs = Some v \<and> isArray v}"

definition covered :: "bool \<Rightarrow> js_string list \<Rightarrow> doc_map \<Rightarrow> doc_key set" where
  "covered sparse segs D = (if sparse then dom D - lacking segs D else dom D)"

definition values_repr :: "field_index \<Rightarrow> doc_map \<Rightarrow> bool" where
  "values_repr fx D \<longleftrightarrow> distinct (map fst (fx_byValue fx)) \<and>
     (\<forall>key ks. map_of (fx_byValue fx) key = Some ks \<longrightarrow> ks \<noteq> [] \<and> distinct ks) \<and>
     (\<forall>key. set (map_get (fx_byValue fx) key) = holders (fx_segments fx) D key)"

definition missing_repr :: "field_index \<Rightarrow> doc_map \<Rightarrow> bool" where
  "missing_repr fx D \<longleftrightarrow> distinct (fx_missing fx) \<and>
     set (fx_missing fx) = (if is_sparse (fx_spec fx) then {} else lacking (fx_segments fx) D)"

definition ordered_repr :: "field_index \<Rightarrow> doc_map \<Rightarrow> bool" where
  "ordered_repr fx D \<longleftrightarrow> distinct (map fst (fx_ordered fx)) \<and>
     (\<forall>c. distinct (map snd (map_get (fx_ordered fx) c))) \<and>
     (\<forall>c v key. (v, key) \<in> set (map_get (fx_ordered fx) c) \<longleftrightarrow>
        valueClassOf v = Some c \<and> key = canonicalKey v \<and>
        (\<exists>dk d. D dk = Some d \<and> resolveField d (fx_segments fx) = Some v)) \<and>
     (\<forall>c. c \<notin> set (fx_unsorted fx) \<longrightarrow> entries_sorted (map_get (fx_ordered fx) c))"

definition counts_repr :: "field_index \<Rightarrow> doc_map \<Rightarrow> bool" where
  "counts_repr fx D \<longleftrightarrow>
     fx_arrayValues fx = int (card (array_holders (fx_segments fx) D)) \<and>
     fx_indexedDocuments fx = int (card (covered (is_sparse (fx_spec fx)) (fx_segments fx) D))"

definition bulk_repr :: "field_index \<Rightarrow> doc_map \<Rightarrow> bool" where
  "bulk_repr fx D \<longleftrightarrow> docs_ok D \<and> fx_segments fx = split_path (is_field (fx_spec fx)) \<and>
     values_repr fx D \<and> missing_repr fx D \<and> ordered_repr fx D \<and> counts_repr fx D"

definition index_repr :: "field_index \<Rightarrow> doc_map \<Rightarrow> bool" where
  "index_repr fx D \<longleftrightarrow> bulk_repr fx D \<and> fx_unsorted fx = []"

lemma map_get_update [simp]: "map_get (AList.update k vs m) k' = (if k' = k then vs else map_get m k')"
  by (simp add: map_get_def)

lemma map_get_delete [simp]: "map_get (AList.delete k m) k' = (if k' = k then [] else map_get m k')"
  by (simp add: map_get_def)

lemma map_get_Nil [simp]: "map_get [] k = []"
  by (simp add: map_get_def)

lemma docs_ok_upd: "docs_ok D \<Longrightarrow> storable (DDocument d) \<Longrightarrow> docs_ok (D(dk \<mapsto> d))"
  unfolding docs_ok_def by (auto simp: ran_def simp del: fun_upd_apply split: if_splits) (auto split: if_splits)

lemma docs_ok_remove: "docs_ok D \<Longrightarrow> docs_ok (D(dk := None))"
  unfolding docs_ok_def by (auto simp: ran_def)

lemma docs_ok_value:
  "docs_ok D \<Longrightarrow> D dk = Some d \<Longrightarrow> resolveField d segs = Some v \<Longrightarrow> storable v"
  by (auto simp: docs_ok_def intro: ranI resolveField_storable)

lemma index_repr_new: "index_repr (new_field_index spec) Map.empty"
  by (simp add: index_repr_def bulk_repr_def docs_ok_def values_repr_def missing_repr_def ordered_repr_def
      counts_repr_def new_field_index_def holders_def lacking_def array_holders_def covered_def entries_sorted_def)

text \<open>How the represented sets change with one document.\<close>

lemma holders_upd:
  assumes "D dk = None"
  shows "holders segs (D(dk \<mapsto> d)) key =
    (if \<exists>v. resolveField d segs = Some v \<and> canonicalKey v = key then insert dk (holders segs D key)
     else holders segs D key)"
  using assms by (auto simp: holders_def)

lemma lacking_upd:
  assumes "D dk = None"
  shows "lacking segs (D(dk \<mapsto> d)) = (if resolveField d segs = None then insert dk (lacking segs D) else lacking segs D)"
  using assms by (auto simp: lacking_def)

lemma array_holders_upd:
  assumes "D dk = None"
  shows "array_holders segs (D(dk \<mapsto> d)) =
    (if \<exists>v. resolveField d segs = Some v \<and> isArray v then insert dk (array_holders segs D) else array_holders segs D)"
  using assms by (auto simp: array_holders_def)

lemma covered_upd:
  assumes "D dk = None"
  shows "covered sparse segs (D(dk \<mapsto> d)) =
    (if sparse \<and> resolveField d segs = None then covered sparse segs D else insert dk (covered sparse segs D))"
  using assms by (auto simp: covered_def lacking_def)

lemma sets_remove:
  "holders segs (D(dk := None)) key = holders segs D key - {dk}"
  "lacking segs (D(dk := None)) = lacking segs D - {dk}"
  "array_holders segs (D(dk := None)) = array_holders segs D - {dk}"
  "covered sparse segs (D(dk := None)) = covered sparse segs D - {dk}"
  by (auto simp: holders_def lacking_def array_holders_def covered_def)

lemma sets_finite:
  assumes "docs_ok D"
  shows "finite (array_holders segs D)" "finite (covered sparse segs D)" "dk \<notin> dom D \<Longrightarrow> dk \<notin> array_holders segs D"
    "dk \<notin> dom D \<Longrightarrow> dk \<notin> covered sparse segs D"
proof -
  have "array_holders segs D \<subseteq> dom D" "covered sparse segs D \<subseteq> dom D"
    by (auto simp: array_holders_def covered_def)
  then show "finite (array_holders segs D)" "finite (covered sparse segs D)" "dk \<notin> dom D \<Longrightarrow> dk \<notin> array_holders segs D"
    "dk \<notin> dom D \<Longrightarrow> dk \<notin> covered sparse segs D"
    using assms by (auto simp: docs_ok_def intro: finite_subset)
qed

section \<open>Adding a document\<close>

lemma insertOrdered_fields [simp]:
  "fx_spec (insertOrdered v key bulk fx) = fx_spec fx"
  "fx_segments (insertOrdered v key bulk fx) = fx_segments fx"
  "fx_byValue (insertOrdered v key bulk fx) = fx_byValue fx"
  "fx_missing (insertOrdered v key bulk fx) = fx_missing fx"
  "fx_arrayValues (insertOrdered v key bulk fx) = fx_arrayValues fx"
  "fx_indexedDocuments (insertOrdered v key bulk fx) = fx_indexedDocuments fx"
  by (simp_all add: insertOrdered_def Let_def split: option.splits)

lemma index_add_fields [simp]:
  "fx_spec (index_add dk d bulk fx) = fx_spec fx"
  "fx_segments (index_add dk d bulk fx) = fx_segments fx"
  by (simp_all add: index_add_def Let_def split: option.splits)

lemma values_repr_add:
  assumes "values_repr fx D" "D dk = None"
  shows "values_repr (index_add dk d bulk fx) (D(dk \<mapsto> d))"
proof (cases "resolveField d (fx_segments fx)")
  case None
  then have "fx_byValue (index_add dk d bulk fx) = fx_byValue fx" by (simp add: index_add_def)
  with None assms show ?thesis by (simp add: values_repr_def holders_upd)
next
  case (Some v)
  let ?key = "canonicalKey v"
  have b: "fx_byValue (index_add dk d bulk fx) =
      AList.update ?key (set_add dk (map_get (fx_byValue fx) ?key)) (fx_byValue fx)"
    using Some by (simp add: index_add_def Let_def)
  have "distinct (map_get (fx_byValue fx) ?key)"
    using assms(1) by (auto simp: values_repr_def map_get_def split: option.splits)
  moreover have "set_add dk ks \<noteq> []" for ks by (auto simp: set_add_def)
  ultimately show ?thesis using assms Some unfolding values_repr_def b index_add_fields
    by (auto simp: holders_upd)
qed

lemma missing_repr_add:
  assumes "missing_repr fx D" "D dk = None"
  shows "missing_repr (index_add dk d bulk fx) (D(dk \<mapsto> d))"
  using assms
  by (cases "resolveField d (fx_segments fx)")
     (auto simp: missing_repr_def index_add_def lacking_upd Let_def)

lemma counts_repr_add:
  assumes "counts_repr fx D" "D dk = None" "docs_ok D"
  shows "counts_repr (index_add dk d bulk fx) (D(dk \<mapsto> d))"
proof -
  have "dk \<notin> dom D" using assms(2) by auto
  then have "card (insert dk (array_holders segs D)) = Suc (card (array_holders segs D))"
    "card (insert dk (covered sparse segs D)) = Suc (card (covered sparse segs D))" for sparse segs
    using sets_finite[OF assms(3)] by simp_all
  with assms(1,2) show ?thesis
    by (cases "resolveField d (fx_segments fx)")
       (auto simp: counts_repr_def index_add_def array_holders_upd covered_upd Let_def)
qed

definition value_present :: "js_string list \<Rightarrow> doc_map \<Rightarrow> doc_value \<Rightarrow> bool" where
  "value_present segs D v \<longleftrightarrow> (\<exists>dk d. D dk = Some d \<and> resolveField d segs = Some v)"

lemma ordered_repr_iff:
  "ordered_repr fx D \<longleftrightarrow> distinct (map fst (fx_ordered fx)) \<and>
     (\<forall>c. distinct (map snd (map_get (fx_ordered fx) c))) \<and>
     (\<forall>c v key. (v, key) \<in> set (map_get (fx_ordered fx) c) \<longleftrightarrow>
        valueClassOf v = Some c \<and> key = canonicalKey v \<and> value_present (fx_segments fx) D v) \<and>
     (\<forall>c. c \<notin> set (fx_unsorted fx) \<longrightarrow> entries_sorted (map_get (fx_ordered fx) c))"
  unfolding ordered_repr_def value_present_def by simp

lemma value_present_upd:
  "D dk = None \<Longrightarrow> value_present segs (D(dk \<mapsto> d)) w \<longleftrightarrow> value_present segs D w \<or> resolveField d segs = Some w"
  unfolding value_present_def by (metis fun_upd_other fun_upd_same option.distinct(1) option.sel)

lemma value_present_storable: "docs_ok D \<Longrightarrow> value_present segs D v \<Longrightarrow> storable v"
  by (auto simp: value_present_def intro: docs_ok_value)

text \<open>A comparable value is present exactly when its key has an entry in \<open>byValue\<close>.\<close>

lemma present_iff_byValue:
  assumes "values_repr fx D" "docs_ok D" "storable v" "valueClassOf v = Some c"
  shows "map_of (fx_byValue fx) (canonicalKey v) \<noteq> None \<longleftrightarrow> value_present (fx_segments fx) D v"
proof -
  have ne: "map_of (fx_byValue fx) k = Some ks \<Longrightarrow> ks \<noteq> []" for k ks
    using assms(1) unfolding values_repr_def by blast
  have "map_of (fx_byValue fx) k \<noteq> None \<longleftrightarrow> set (map_get (fx_byValue fx) k) \<noteq> {}" for k
    using ne[of k] by (cases "map_of (fx_byValue fx) k") (simp_all add: map_get_def)
  also have "set (map_get (fx_byValue fx) k) = holders (fx_segments fx) D k" for k
    using assms(1) by (simp add: values_repr_def)
  finally have "map_of (fx_byValue fx) (canonicalKey v) \<noteq> None \<longleftrightarrow> holders (fx_segments fx) D (canonicalKey v) \<noteq> {}" .
  also have "\<dots> \<longleftrightarrow> value_present (fx_segments fx) D v"
  proof
    assume "holders (fx_segments fx) D (canonicalKey v) \<noteq> {}"
    then obtain dk d w where w: "D dk = Some d" "resolveField d (fx_segments fx) = Some w" "canonicalKey w = canonicalKey v"
      by (auto simp: holders_def)
    then have "v = w" using canonicalKey_inj[OF assms(3) docs_ok_value[OF assms(2) w(1,2)] assms(4)] by simp
    with w show "value_present (fx_segments fx) D v" by (auto simp: value_present_def)
  qed (auto simp: value_present_def holders_def)
  finally show ?thesis .
qed

lemma ordered_entries_ok:
  assumes "ordered_repr fx D"
  shows "entries_of_class c (map_get (fx_ordered fx) c)"
  using assms by (auto simp: ordered_repr_iff entries_of_class_def)

text \<open>The ordered entries depend on the documents only through the values present.\<close>

lemma ordered_repr_cong:
  assumes "ordered_repr fx D" "fx_ordered fx' = fx_ordered fx" "fx_unsorted fx' = fx_unsorted fx"
    and "\<And>v c. valueClassOf v = Some c \<Longrightarrow> value_present (fx_segments fx') D' v = value_present (fx_segments fx) D v"
  shows "ordered_repr fx' D'"
  using assms unfolding ordered_repr_iff by auto

lemma ordered_repr_insert:
  assumes "ordered_repr fx D" "bulk \<or> fx_unsorted fx = []"
    and new: "\<And>w. value_present (fx_segments fx) D' w \<longleftrightarrow> value_present (fx_segments fx) D w \<or> w = v"
    and absent: "valueClassOf v = Some c \<Longrightarrow> canonicalKey v \<notin> snd ` set (map_get (fx_ordered fx) c)"
    and c: "valueClassOf v = Some c"
  shows "ordered_repr (insertOrdered v (canonicalKey v) bulk fx) D'"
proof -
  let ?es = "map_get (fx_ordered fx) c" and ?fx = "insertOrdered v (canonicalKey v) bulk fx"
  define es' where "es' = (if bulk then ?es @ [(v, canonicalKey v)]
    else splice_in (lowerBound ?es v) (v, canonicalKey v) ?es)"
  have o: "fx_ordered ?fx = AList.update c es' (fx_ordered fx)"
    and u: "fx_unsorted ?fx = (if bulk then set_add c (fx_unsorted fx) else fx_unsorted fx)"
    using c by (simp_all add: insertOrdered_def es'_def Let_def)
  have m: "mset es' = add_mset (v, canonicalKey v) (mset ?es)"
    by (simp add: es'_def mset_splice_in)
  have s: "set es' = insert (v, canonicalKey v) (set ?es)" by (simp add: es'_def)
  have "mset (map snd es') = mset (map snd ((v, canonicalKey v) # ?es))" using m by simp
  then have d: "distinct (map snd es')"
    using absent[OF c] assms(1) mset_eq_imp_distinct_iff[of "map snd es'" "map snd ((v, canonicalKey v) # ?es)"]
    by (simp add: ordered_repr_iff)
  have srt: "entries_sorted es'" if "\<not> bulk"
    using that assms(1,2) sorted_splice_in[OF ordered_entries_ok[OF assms(1)] _ c]
    by (simp add: es'_def ordered_repr_iff)
  have vk: "(w, k) \<in> set (map_get (AList.update c es' (fx_ordered fx)) c') \<longleftrightarrow>
      valueClassOf w = Some c' \<and> k = canonicalKey w \<and> value_present (fx_segments fx) D' w" for w k c'
    using assms(1) s new c by (auto simp: ordered_repr_iff)
  show ?thesis
    unfolding ordered_repr_iff o u insertOrdered_fields
    using assms(1,2) d srt vk by (auto simp: ordered_repr_iff)
qed

lemma ordered_repr_add:
  assumes "ordered_repr fx D" "values_repr fx D" "docs_ok D" "D dk = None" "storable (DDocument d)"
    and "bulk \<or> fx_unsorted fx = []"
  shows "ordered_repr (index_add dk d bulk fx) (D(dk \<mapsto> d))"
proof (cases "resolveField d (fx_segments fx)")
  case None
  then show ?thesis using assms(1,4)
    by (intro ordered_repr_cong[OF assms(1)]) (simp_all add: index_add_def value_present_upd)
next
  case (Some v)
  have v: "storable v" using resolveField_storable[OF assms(5) Some] .
  let ?D = "D(dk \<mapsto> d)" and ?k = "canonicalKey v"
  have new: "value_present (fx_segments fx) ?D w \<longleftrightarrow> value_present (fx_segments fx) D w \<or> w = v" for w
    using value_present_upd[of D dk] assms(4) Some by auto
  show ?thesis
  proof (cases "map_of (fx_byValue fx) ?k = None \<and> valueClassOf v \<noteq> None")
    case True
    then obtain c where c: "valueClassOf v = Some c" by auto
    have absent: "?k \<notin> snd ` set (map_get (fx_ordered fx) c')" for c'
    proof
      assume "?k \<in> snd ` set (map_get (fx_ordered fx) c')"
      then obtain w where w: "valueClassOf w = Some c'" "?k = canonicalKey w" "value_present (fx_segments fx) D w"
        using assms(1) by (auto simp: ordered_repr_iff)
      then show False
        using present_iff_byValue[OF assms(2,3) value_present_storable[OF assms(3) w(3)] w(1)] True by simp
    qed
    have "ordered_repr (insertOrdered v ?k bulk fx) ?D"
      using assms(1,6) new absent c by (rule ordered_repr_insert)
    then show ?thesis
      by (rule ordered_repr_cong) (use Some True in \<open>simp_all add: index_add_def Let_def\<close>)
  next
    case False
    have "value_present (fx_segments fx) ?D w = value_present (fx_segments fx) D w"
      if "valueClassOf w = Some c" for w c
    proof -
      have "value_present (fx_segments fx) D v" if "w = v"
        using False present_iff_byValue[OF assms(2,3) v] \<open>valueClassOf w = Some c\<close> that by auto
      then show ?thesis using new by blast
    qed
    moreover have "fx_ordered (index_add dk d bulk fx) = fx_ordered fx" "fx_unsorted (index_add dk d bulk fx) = fx_unsorted fx"
      using False Some by (auto simp: index_add_def Let_def insertOrdered_def)
    ultimately show ?thesis by (intro ordered_repr_cong[OF assms(1)]) auto
  qed
qed

lemma bulk_repr_add:
  assumes "bulk_repr fx D" "D dk = None" "storable (DDocument d)" "bulk \<or> fx_unsorted fx = []"
  shows "bulk_repr (index_add dk d bulk fx) (D(dk \<mapsto> d))"
  using assms values_repr_add missing_repr_add counts_repr_add ordered_repr_add docs_ok_upd
  unfolding bulk_repr_def by (simp add: values_repr_add missing_repr_add counts_repr_add ordered_repr_add docs_ok_upd)

lemma unsorted_add: "fx_unsorted (index_add dk d False fx) = fx_unsorted fx"
  by (simp add: index_add_def insertOrdered_def Let_def split: option.splits)

lemma index_repr_add:
  "index_repr fx D \<Longrightarrow> D dk = None \<Longrightarrow> storable (DDocument d) \<Longrightarrow> index_repr (index_add dk d False fx) (D(dk \<mapsto> d))"
  by (simp add: index_repr_def bulk_repr_add unsorted_add)

section \<open>Removing a document\<close>

lemma removeOrdered_fields [simp]:
  "fx_spec (removeOrdered v key fx) = fx_spec fx"
  "fx_segments (removeOrdered v key fx) = fx_segments fx"
  "fx_byValue (removeOrdered v key fx) = fx_byValue fx"
  "fx_missing (removeOrdered v key fx) = fx_missing fx"
  "fx_unsorted (removeOrdered v key fx) = fx_unsorted fx"
  "fx_arrayValues (removeOrdered v key fx) = fx_arrayValues fx"
  "fx_indexedDocuments (removeOrdered v key fx) = fx_indexedDocuments fx"
  by (simp_all add: removeOrdered_def Let_def split: option.splits)

lemma index_remove_fields [simp]:
  "fx_spec (index_remove dk d fx) = fx_spec fx"
  "fx_segments (index_remove dk d fx) = fx_segments fx"
  "fx_unsorted (index_remove dk d fx) = fx_unsorted fx"
  by (simp_all add: index_remove_def Let_def split: option.splits)

text \<open>A document that is represented is found in its entry.\<close>

lemma index_remove_value:
  assumes "values_repr fx D" "D dk = Some d" "resolveField d (fx_segments fx) = Some v"
  obtains ks where "map_of (fx_byValue fx) (canonicalKey v) = Some ks" "dk \<in> set ks" "distinct ks"
    "set ks = holders (fx_segments fx) D (canonicalKey v)"
proof -
  have dk: "dk \<in> holders (fx_segments fx) D (canonicalKey v)" using assms(2,3) by (auto simp: holders_def)
  have g: "set (map_get (fx_byValue fx) (canonicalKey v)) = holders (fx_segments fx) D (canonicalKey v)"
    using assms(1) by (simp add: values_repr_def)
  then obtain ks where ks: "map_of (fx_byValue fx) (canonicalKey v) = Some ks"
    using dk by (cases "map_of (fx_byValue fx) (canonicalKey v)") (auto simp: map_get_def)
  moreover have "distinct ks" using assms(1) ks unfolding values_repr_def by blast
  ultimately show thesis using that dk g by (simp add: map_get_def)
qed

lemma values_repr_remove:
  assumes "values_repr fx D" "D dk = Some d"
  shows "values_repr (index_remove dk d fx) (D(dk := None))"
proof (cases "resolveField d (fx_segments fx)")
  case None
  then have "fx_byValue (index_remove dk d fx) = fx_byValue fx" by (simp add: index_remove_def)
  moreover have "dk \<notin> holders (fx_segments fx) D key" for key using None assms(2) by (auto simp: holders_def)
  ultimately show ?thesis using assms by (auto simp: values_repr_def sets_remove)
next
  case (Some v)
  then obtain ks where ks: "map_of (fx_byValue fx) (canonicalKey v) = Some ks" "dk \<in> set ks" "distinct ks"
    "set ks = holders (fx_segments fx) D (canonicalKey v)"
    using index_remove_value[OF assms] by blast
  have other: "dk \<notin> holders (fx_segments fx) D key" if "key \<noteq> canonicalKey v" for key
    using Some assms(2) that by (auto simp: holders_def)
  have b: "fx_byValue (index_remove dk d fx) =
      (if removeAll dk ks = [] then AList.delete (canonicalKey v) (fx_byValue fx)
       else AList.update (canonicalKey v) (removeAll dk ks) (fx_byValue fx))"
    using Some ks by (simp add: index_remove_def Let_def)
  have h: "holders (fx_segments fx) (D(dk := None)) key =
      (if key = canonicalKey v then set (removeAll dk ks) else holders (fx_segments fx) D key)" for key
    using other[of key] ks(4) by (auto simp: sets_remove)
  show ?thesis
    unfolding values_repr_def index_remove_fields b h
    using assms(1) ks(3) by (auto simp: values_repr_def distinct_removeAll simp del: map_of_eq_Some_iff split: if_splits)
qed

lemma missing_repr_remove:
  assumes "missing_repr fx D" "D dk = Some d"
  shows "missing_repr (index_remove dk d fx) (D(dk := None))"
proof (cases "resolveField d (fx_segments fx)")
  case None
  then have "dk \<in> lacking (fx_segments fx) D" using assms(2) by (auto simp: lacking_def)
  with None assms show ?thesis
    by (auto simp: missing_repr_def index_remove_def sets_remove distinct_removeAll)
next
  case (Some v)
  then have "fx_missing (index_remove dk d fx) = fx_missing fx"
    by (simp add: index_remove_def Let_def split: option.splits)
  moreover have "dk \<notin> lacking (fx_segments fx) D" using Some assms(2) by (auto simp: lacking_def)
  ultimately show ?thesis using assms by (auto simp: missing_repr_def sets_remove)
qed

lemma counts_repr_remove:
  assumes "counts_repr fx D" "missing_repr fx D" "values_repr fx D" "D dk = Some d" "docs_ok D"
  shows "counts_repr (index_remove dk d fx) (D(dk := None))"
proof -
  have card: "int (card (A - {dk})) = int (card A) - (if dk \<in> A then 1 else 0)" if "finite A" for A
    using that card_Suc_Diff1[of A dk] by (cases "dk \<in> A") (simp_all del: card_Diff_insert)
  note fin = sets_finite(1,2)[OF assms(5)]
  show ?thesis
  proof (cases "resolveField d (fx_segments fx)")
    case None
    then have "dk \<in> lacking (fx_segments fx) D" "dk \<notin> array_holders (fx_segments fx) D"
      using assms(4) by (auto simp: lacking_def array_holders_def)
    moreover from this have "dk \<in> covered (is_sparse (fx_spec fx)) (fx_segments fx) D \<longleftrightarrow> \<not> is_sparse (fx_spec fx)"
      using assms(4) by (auto simp: covered_def)
    ultimately show ?thesis using None assms(1,2)
      by (auto simp: counts_repr_def missing_repr_def index_remove_def sets_remove card[OF fin(1)] card[OF fin(2)]
          simp del: card_Diff_insert)
  next
    case (Some v)
    then obtain ks where ks: "map_of (fx_byValue fx) (canonicalKey v) = Some ks" "dk \<in> set ks"
      using index_remove_value[OF assms(3,4)] by blast
    have "dk \<in> array_holders (fx_segments fx) D \<longleftrightarrow> isArray v" "dk \<in> covered (is_sparse (fx_spec fx)) (fx_segments fx) D"
      using Some assms(4) by (auto simp: array_holders_def covered_def lacking_def)
    then show ?thesis using Some ks assms(1)
      by (simp add: counts_repr_def index_remove_def sets_remove card[OF fin(1)] card[OF fin(2)] Let_def
        del: card_Diff_insert)
  qed
qed

lemma ordered_repr_delete:
  assumes "ordered_repr fx D" "fx_unsorted fx = []" "valueClassOf v = Some c" "value_present (fx_segments fx) D v"
    and gone: "\<And>w. value_present (fx_segments fx) D' w \<longleftrightarrow> value_present (fx_segments fx) D w \<and> w \<noteq> v"
  shows "ordered_repr (removeOrdered v (canonicalKey v) fx) D'"
proof -
  let ?es = "map_get (fx_ordered fx) c"
  have mem: "(v, canonicalKey v) \<in> set ?es" using assms(1,3,4) by (simp add: ordered_repr_iff)
  then have e: "map_of (fx_ordered fx) c = Some ?es" by (cases "map_of (fx_ordered fx) c") (auto simp: map_get_def)
  have srt: "entries_sorted ?es" and dist: "distinct (map snd ?es)" using assms(1,2) by (auto simp: ordered_repr_iff)
  obtain j where j: "find_entry ?es v (canonicalKey v) (lowerBound ?es v) = Some j" "j < length ?es"
    "?es ! j = (v, canonicalKey v)"
    using find_entry_present[OF ordered_entries_ok[OF assms(1)] srt assms(3) dist mem] .
  note out = splice_out_entry[OF j(2,3) dist]
  have o: "fx_ordered (removeOrdered v (canonicalKey v) fx) = AList.update c (splice_out j ?es) (fx_ordered fx)"
    using assms(3) e j(1) by (simp add: removeOrdered_def)
  have vk: "(w, k) \<in> set (map_get (AList.update c (splice_out j ?es) (fx_ordered fx)) c') \<longleftrightarrow>
      valueClassOf w = Some c' \<and> k = canonicalKey w \<and> value_present (fx_segments fx) D' w" for w k c'
    using assms(1,3) out(1) gone by (auto simp: ordered_repr_iff)
  show ?thesis
    unfolding ordered_repr_iff o removeOrdered_fields
    using assms(1) out(2) out(3)[OF srt] vk by (auto simp: ordered_repr_iff)
qed

lemma ordered_repr_remove:
  assumes "ordered_repr fx D" "values_repr fx D" "docs_ok D" "D dk = Some d" "fx_unsorted fx = []"
  shows "ordered_repr (index_remove dk d fx) (D(dk := None))"
proof (cases "resolveField d (fx_segments fx)")
  case None
  then have "value_present (fx_segments fx) (D(dk := None)) w = value_present (fx_segments fx) D w" for w
    using assms(4) unfolding value_present_def by (metis fun_upd_apply option.distinct(1) option.sel)
  then show ?thesis using None
    by (intro ordered_repr_cong[OF assms(1)]) (simp_all add: index_remove_def)
next
  case (Some v)
  then obtain ks where ks: "map_of (fx_byValue fx) (canonicalKey v) = Some ks" "dk \<in> set ks" "distinct ks"
    "set ks = holders (fx_segments fx) D (canonicalKey v)"
    using index_remove_value[OF assms(2,4)] by blast
  let ?D = "D(dk := None)"
  have v: "storable v" using docs_ok_value[OF assms(3,4) Some] .
  have other: "value_present (fx_segments fx) ?D w = value_present (fx_segments fx) D w" if "w \<noteq> v" for w
    using that Some assms(4) unfolding value_present_def by (metis fun_upd_apply option.distinct(1) option.sel)
  have pres: "value_present (fx_segments fx) D v" using Some assms(4) by (auto simp: value_present_def)
  show ?thesis
  proof (cases "removeAll dk ks = [] \<and> valueClassOf v \<noteq> None")
    case True
    then obtain c where c: "valueClassOf v = Some c" by auto
    have "\<not> value_present (fx_segments fx) ?D v"
    proof
      assume "value_present (fx_segments fx) ?D v"
      then obtain dk' d' where "dk' \<noteq> dk" "D dk' = Some d'" "resolveField d' (fx_segments fx) = Some v"
        unfolding value_present_def by (metis fun_upd_apply option.distinct(1))
      then have "dk' \<in> set (removeAll dk ks)" using ks(4) by (auto simp: holders_def)
      with True show False by simp
    qed
    then have gone: "value_present (fx_segments fx) ?D w \<longleftrightarrow> value_present (fx_segments fx) D w \<and> w \<noteq> v" for w
      using other[of w] by auto
    let ?fx = "fx\<lparr>fx_byValue := AList.delete (canonicalKey v) (fx_byValue fx)\<rparr>"
    have "ordered_repr ?fx D" by (rule ordered_repr_cong[OF assms(1)]) simp_all
    then have "ordered_repr (removeOrdered v (canonicalKey v) ?fx) ?D"
      using ordered_repr_delete[of ?fx D v c ?D] assms(5) c pres gone by simp
    then show ?thesis
      by (rule ordered_repr_cong) (use Some ks True in \<open>simp_all add: index_remove_def Let_def\<close>)
  next
    case False
    have "value_present (fx_segments fx) ?D w = value_present (fx_segments fx) D w" if c: "valueClassOf w = Some c" for w c
    proof (cases "w = v")
      case True
      with False c obtain dk' where dk': "dk' \<in> set ks" "dk' \<noteq> dk" by (auto simp: removeAll_filter_not_eq filter_empty_conv)
      then obtain d' v' where v': "D dk' = Some d'" "resolveField d' (fx_segments fx) = Some v'" "canonicalKey v' = canonicalKey v"
        using ks(4) by (auto simp: holders_def)
      then have "v = v'" using canonicalKey_inj[OF v docs_ok_value[OF assms(3) v'(1,2)]] c True by simp
      with v' dk' pres True show ?thesis unfolding value_present_def by auto
    qed (rule other)
    moreover have "fx_ordered (index_remove dk d fx) = fx_ordered fx"
      using False Some ks by (auto simp: index_remove_def Let_def removeOrdered_def)
    ultimately show ?thesis by (intro ordered_repr_cong[OF assms(1)]) auto
  qed
qed

lemma index_repr_remove:
  assumes "index_repr fx D" "D dk = Some d"
  shows "index_repr (index_remove dk d fx) (D(dk := None))"
  using assms values_repr_remove missing_repr_remove counts_repr_remove ordered_repr_remove docs_ok_remove
  unfolding index_repr_def bulk_repr_def
  by (simp add: values_repr_remove missing_repr_remove counts_repr_remove ordered_repr_remove docs_ok_remove)

section \<open>Bulk loading\<close>

definition sort_entries :: "ordered_entry list \<Rightarrow> ordered_entry list" where
  "sort_entries = sort_by (\<lambda>l r. compareSameClass (fst l) (fst r))"

lemma finish_fold:
  "map_get (foldl (\<lambda>ordered c. AList.update c (sort_entries (map_get ordered c)) ordered) ordered cs) c =
     foldl (\<lambda>es _. sort_entries es) (map_get ordered c) (filter ((=) c) cs)"
  by (induction cs arbitrary: ordered) auto

lemma finish_fold_distinct:
  "distinct (map fst ordered) \<Longrightarrow>
   distinct (map fst (foldl (\<lambda>ordered c. AList.update c (sort_entries (map_get ordered c)) ordered) ordered cs))"
  by (induction cs arbitrary: ordered) auto

lemma sort_entries_fold:
  assumes "entries_of_class c es"
  shows "mset (foldl (\<lambda>es _. sort_entries es) es xs) = mset es"
    and "xs \<noteq> [] \<Longrightarrow> entries_sorted (foldl (\<lambda>es _. sort_entries es) es xs)"
proof -
  show m: "mset (foldl (\<lambda>es _. sort_entries es) es xs) = mset es" for xs
    by (induction xs rule: rev_induct) (simp_all add: sort_entries_def)
  assume "xs \<noteq> []"
  then obtain ys y where "xs = ys @ [y]" by (cases xs rule: rev_cases) auto
  moreover have "entries_of_class c (foldl (\<lambda>es _. sort_entries es) es ys)"
    using assms mset_eq_setD[OF m[of ys]] by (simp add: entries_of_class_def)
  ultimately show "entries_sorted (foldl (\<lambda>es _. sort_entries es) es xs)"
    using entry_cmp.sorted_sort_by[of _ c] by (simp add: sort_entries_def entries_sorted_def entries_of_class_def)
qed

lemma finishBulk_repr:
  assumes "bulk_repr fx D"
  shows "index_repr (finishBulk fx) D"
proof -
  define F where "F = (\<lambda>ordered (c :: value_class). AList.update c (sort_entries (map_get ordered c)) ordered)"
  let ?o = "foldl F (fx_ordered fx) (fx_unsorted fx)"
  have o: "fx_ordered (finishBulk fx) = ?o" by (simp add: finishBulk_def F_def sort_entries_def)
  have rep: "ordered_repr fx D" using assms by (simp add: bulk_repr_def)
  note cls = ordered_entries_ok[OF rep]
  have m: "mset (map_get ?o c) = mset (map_get (fx_ordered fx) c)" for c
    unfolding F_def finish_fold by (rule sort_entries_fold(1)[OF cls])
  have srt: "entries_sorted (map_get ?o c)" for c
  proof (cases "c \<in> set (fx_unsorted fx)")
    case True
    then have "filter ((=) c) (fx_unsorted fx) \<noteq> []" by (auto simp: filter_empty_conv)
    then show ?thesis unfolding F_def finish_fold by (rule sort_entries_fold(2)[OF cls])
  next
    case False
    then have "filter ((=) c) (fx_unsorted fx) = []" by (auto simp: filter_empty_conv)
    with False show ?thesis unfolding F_def finish_fold using rep by (simp add: ordered_repr_def)
  qed
  have "distinct (map snd (map_get ?o c))" for c
    using rep mset_eq_imp_distinct_iff[of "map snd (map_get ?o c)" "map snd (map_get (fx_ordered fx) c)"] m[of c]
    by (simp add: ordered_repr_def)
  moreover have "set (map_get ?o c) = set (map_get (fx_ordered fx) c)" for c using mset_eq_setD[OF m] .
  moreover have "distinct (map fst ?o)"
    unfolding F_def by (rule finish_fold_distinct) (use rep in \<open>simp add: ordered_repr_def\<close>)
  moreover have f: "fx_spec (finishBulk fx) = fx_spec fx" "fx_segments (finishBulk fx) = fx_segments fx"
    "fx_byValue (finishBulk fx) = fx_byValue fx" "fx_missing (finishBulk fx) = fx_missing fx"
    "fx_unsorted (finishBulk fx) = []" "fx_arrayValues (finishBulk fx) = fx_arrayValues fx"
    "fx_indexedDocuments (finishBulk fx) = fx_indexedDocuments fx"
    by (simp_all add: finishBulk_def)
  ultimately have "ordered_repr (finishBulk fx) D"
    using rep srt unfolding ordered_repr_def o f by simp
  then show ?thesis
    using assms unfolding index_repr_def bulk_repr_def values_repr_def missing_repr_def counts_repr_def f by simp
qed

section \<open>What lookups return\<close>

text \<open>Two documents that cannot both be in a unique index.\<close>

definition clash :: "index_spec \<Rightarrow> document \<Rightarrow> document \<Rightarrow> bool" where
  "clash spec d1 d2 \<longleftrightarrow> is_unique spec \<and>
     (case (resolveField d1 (split_path (is_field spec)), resolveField d2 (split_path (is_field spec))) of
        (None, None) \<Rightarrow> \<not> is_sparse spec
      | (Some v, Some w) \<Rightarrow> canonicalKey v = canonicalKey w
      | _ \<Rightarrow> False)"

lemma clash_sym: "clash spec d d' \<longleftrightarrow> clash spec d' d"
  by (auto simp: clash_def split: option.splits)

lemma conflictFor_bulk:
  assumes "bulk_repr fx D" "D dk = None"
  shows "conflictFor dk d fx \<longleftrightarrow> (\<exists>dk' d'. D dk' = Some d' \<and> clash (fx_spec fx) d d')"
proof -
  have r: "fx_segments fx = split_path (is_field (fx_spec fx))" "values_repr fx D" "missing_repr fx D"
    using assms(1) by (simp_all add: bulk_repr_def)
  show ?thesis
  proof (cases "resolveField d (fx_segments fx)")
    case None
    have "conflictFor dk d fx \<longleftrightarrow> is_unique (fx_spec fx) \<and> \<not> is_sparse (fx_spec fx) \<and> lacking (fx_segments fx) D \<noteq> {}"
      using None r(3) assms(2) by (auto simp: conflictFor_def missing_repr_def lacking_def filter_empty_conv)
    then show ?thesis using None r(1) by (auto simp: clash_def lacking_def split: option.splits)
  next
    case (Some v)
    have g: "set (map_get (fx_byValue fx) (canonicalKey v)) = holders (fx_segments fx) D (canonicalKey v)"
      using r(2) by (simp add: values_repr_def)
    have "dk \<notin> holders (fx_segments fx) D (canonicalKey v)" using assms(2) by (simp add: holders_def)
    then have "conflictFor dk d fx \<longleftrightarrow> is_unique (fx_spec fx) \<and> holders (fx_segments fx) D (canonicalKey v) \<noteq> {}"
      using Some g by (cases "map_of (fx_byValue fx) (canonicalKey v)")
        (auto simp: conflictFor_def map_get_def list_ex_iff)
    moreover have "clash (fx_spec fx) d d' \<longleftrightarrow> is_unique (fx_spec fx) \<and>
        (\<exists>w. resolveField d' (fx_segments fx) = Some w \<and> canonicalKey w = canonicalKey v)" for d'
      using Some r(1) by (auto simp: clash_def split: option.splits)
    ultimately show ?thesis unfolding holders_def by blast
  qed
qed

lemma conflictFor_iff:
  "index_repr fx D \<Longrightarrow> D dk = None \<Longrightarrow>
   conflictFor dk d fx \<longleftrightarrow> (\<exists>dk' d'. D dk' = Some d' \<and> clash (fx_spec fx) d d')"
  by (rule conflictFor_bulk) (simp_all add: index_repr_def)

lemma lookupEqual_set:
  assumes "index_repr fx D"
  shows "set (case lookupEqual fx v of None \<Rightarrow> [] | Some ks \<Rightarrow> ks) =
    holders (split_path (is_field (fx_spec fx))) D (canonicalKey v)"
  using assms by (simp add: lookupEqual_def map_get_def[symmetric] index_repr_def bulk_repr_def values_repr_def)

lemma foldl_set_add: "set (foldl (\<lambda>r k. set_add k r) r ks) = set r \<union> set ks"
  by (induction ks arbitrary: r) auto

lemma distinct_foldl_set_add: "distinct r \<Longrightarrow> distinct (foldl (\<lambda>r k. set_add k r) r ks)"
  by (induction ks arbitrary: r) auto

lemma set_lookup_fold:
  "set (foldl (\<lambda>r e. foldl (\<lambda>r k. set_add k r) r (f e)) r es) = set r \<union> (\<Union>e \<in> set es. set (f e))"
  by (induction es arbitrary: r) (auto simp: foldl_set_add)

lemma distinct_lookup_fold:
  "distinct r \<Longrightarrow> distinct (foldl (\<lambda>r e. foldl (\<lambda>r k. set_add k r) r (f e)) r es)"
  by (induction es arbitrary: r) (auto simp: distinct_foldl_set_add)

lemma rangeEntries_bounds:
  assumes "index_repr fx D" "rangeEntries fx c lower upper = (start, end')"
    and "\<forall>b. lower = Some b \<longrightarrow> valueClassOf (ib_value b) = Some c"
    and "\<forall>b. upper = Some b \<longrightarrow> valueClassOf (ib_value b) = Some c"
    and "i < length (map_get (fx_ordered fx) c)"
  shows "start \<le> i \<longleftrightarrow> (case lower of None \<Rightarrow> True | Some b \<Rightarrow>
      (let r = compareSameClass (fst (map_get (fx_ordered fx) c ! i)) (ib_value b)
       in if ib_inclusive b then 0 \<le> r else 0 < r))"
    and "start \<le> i \<Longrightarrow> i < end' \<longleftrightarrow> (case upper of None \<Rightarrow> True | Some b \<Rightarrow>
      (let r = compareSameClass (fst (map_get (fx_ordered fx) c ! i)) (ib_value b)
       in if ib_inclusive b then r \<le> 0 else r < 0))"
proof -
  let ?es = "map_get (fx_ordered fx) c"
  have rep: "ordered_repr fx D" and u: "fx_unsorted fx = []"
    using assms(1) by (simp_all add: index_repr_def bulk_repr_def)
  have srt: "entries_sorted ?es" using rep u by (simp add: ordered_repr_def)
  note below = below_bounds[OF ordered_entries_ok[OF rep] srt _ assms(5)]
  have above: "lowerBound ?es v \<le> i \<longleftrightarrow> 0 \<le> compareSameClass (fst (?es ! i)) v"
    "upperBound ?es v \<le> i \<longleftrightarrow> 0 < compareSameClass (fst (?es ! i)) v" if "valueClassOf v = Some c" for v
    using below[OF that] by linarith+
  show "start \<le> i \<longleftrightarrow> (case lower of None \<Rightarrow> True | Some b \<Rightarrow>
      (let r = compareSameClass (fst (?es ! i)) (ib_value b) in if ib_inclusive b then 0 \<le> r else 0 < r))"
    using assms(2,3) above by (cases lower) (auto simp: rangeEntries_def Let_def)
  show "start \<le> i \<Longrightarrow> i < end' \<longleftrightarrow> (case upper of None \<Rightarrow> True | Some b \<Rightarrow>
      (let r = compareSameClass (fst (?es ! i)) (ib_value b) in if ib_inclusive b then r \<le> 0 else r < 0))"
    using assms(2,4,5) below by (cases upper) (auto simp: rangeEntries_def Let_def)
qed

text \<open>A value inside both bounds.\<close>

definition in_bounds :: "index_bound option \<Rightarrow> index_bound option \<Rightarrow> doc_value \<Rightarrow> bool" where
  "in_bounds lower upper v \<longleftrightarrow>
     (case lower of None \<Rightarrow> True | Some b \<Rightarrow>
        (let r = compareSameClass v (ib_value b) in if ib_inclusive b then 0 \<le> r else 0 < r)) \<and>
     (case upper of None \<Rightarrow> True | Some b \<Rightarrow>
        (let r = compareSameClass v (ib_value b) in if ib_inclusive b then r \<le> 0 else r < 0))"

lemma lookupRange_set:
  assumes "index_repr fx D"
    and "\<forall>b. lower = Some b \<longrightarrow> valueClassOf (ib_value b) = Some c"
    and "\<forall>b. upper = Some b \<longrightarrow> valueClassOf (ib_value b) = Some c"
  shows "set (lookupRange fx c lower upper) =
    {dk. \<exists>d v. D dk = Some d \<and> resolveField d (split_path (is_field (fx_spec fx))) = Some v \<and>
       valueClassOf v = Some c \<and> in_bounds lower upper v}"
proof -
  let ?es = "map_get (fx_ordered fx) c" and ?segs = "split_path (is_field (fx_spec fx))"
  obtain start end' where r: "rangeEntries fx c lower upper = (start, end')" by fastforce
  note bounds = rangeEntries_bounds[OF assms(1) r assms(2,3)]
  have rep: "ordered_repr fx D" "values_repr fx D" "docs_ok D" "fx_segments fx = ?segs"
    using assms(1) by (simp_all add: index_repr_def bulk_repr_def)
  have ib: "in_bounds lower upper (fst (?es ! i)) \<longleftrightarrow> start \<le> i \<and> i < end'" if "i < length ?es" for i
    unfolding in_bounds_def using bounds[OF that] by blast
  have slice: "e \<in> set (take (end' - start) (drop start ?es)) \<longleftrightarrow> e \<in> set ?es \<and> in_bounds lower upper (fst e)" for e
  proof
    assume "e \<in> set (take (end' - start) (drop start ?es))"
    then obtain j where j: "j < length (take (end' - start) (drop start ?es))" "e = take (end' - start) (drop start ?es) ! j"
      by (metis in_set_conv_nth)
    from j(1) have j': "j < end' - start" "start + j < length ?es" by auto
    with j(2) have "e = ?es ! (start + j)" by simp
    with j' ib[of "start + j"] show "e \<in> set ?es \<and> in_bounds lower upper (fst e)" by auto
  next
    assume e: "e \<in> set ?es \<and> in_bounds lower upper (fst e)"
    then obtain i where i: "i < length ?es" "e = ?es ! i" by (auto simp: in_set_conv_nth)
    with e ib[OF i(1)] have "start \<le> i" "i < end'" by auto
    then show "e \<in> set (take (end' - start) (drop start ?es))"
      using i by (auto simp: in_set_conv_nth less_diff_conv intro!: exI[of _ "i - start"])
  qed
  have "dk \<in> set (lookupRange fx c lower upper) \<longleftrightarrow>
      (\<exists>e \<in> set ?es. in_bounds lower upper (fst e) \<and> dk \<in> holders ?segs D (snd e))" for dk
  proof -
    have "set (map_get (fx_byValue fx) k) = holders ?segs D k" for k
      using rep(2,4) by (simp add: values_repr_def)
    then show ?thesis
      unfolding lookupRange_def Let_def r split_beta fst_conv snd_conv set_lookup_fold
      by (simp only: UN_iff set_simps empty_iff Un_iff simp_thms) (metis slice)
  qed
  moreover have "(\<exists>e \<in> set ?es. in_bounds lower upper (fst e) \<and> dk \<in> holders ?segs D (snd e)) \<longleftrightarrow>
      (\<exists>d v. D dk = Some d \<and> resolveField d ?segs = Some v \<and> valueClassOf v = Some c \<and> in_bounds lower upper v)" for dk
  proof
    assume "\<exists>e \<in> set ?es. in_bounds lower upper (fst e) \<and> dk \<in> holders ?segs D (snd e)"
    then obtain v d w where v: "(v, canonicalKey v) \<in> set ?es" "in_bounds lower upper v" "valueClassOf v = Some c"
      and w: "D dk = Some d" "resolveField d ?segs = Some w" "canonicalKey w = canonicalKey v"
      using rep(1) by (auto simp: ordered_repr_iff holders_def)
    have "storable v" using v(1) rep(1,3) by (auto simp: ordered_repr_iff intro: value_present_storable)
    then have "v = w" using canonicalKey_inj[of v w c] docs_ok_value[OF rep(3) w(1,2)] v(3) w(3) by simp
    with v w show "\<exists>d v. D dk = Some d \<and> resolveField d ?segs = Some v \<and> valueClassOf v = Some c \<and> in_bounds lower upper v"
      by blast
  next
    assume "\<exists>d v. D dk = Some d \<and> resolveField d ?segs = Some v \<and> valueClassOf v = Some c \<and> in_bounds lower upper v"
    then obtain d v where "D dk = Some d" "resolveField d ?segs = Some v" "valueClassOf v = Some c" "in_bounds lower upper v"
      by blast
    then show "\<exists>e \<in> set ?es. in_bounds lower upper (fst e) \<and> dk \<in> holders ?segs D (snd e)"
      using rep(1,4) by (intro bexI[of _ "(v, canonicalKey v)"])
        (auto simp: holders_def ordered_repr_iff value_present_def)
  qed
  ultimately show ?thesis by blast
qed

section \<open>Two indexes of the same documents have the same contents\<close>

interpretation key_order: comparator "compare_by list_less :: ('a::linorder) list \<Rightarrow> _" "\<lambda>_. True"
proof unfold_locales
  fix x y z :: "'a list"
  show "compare_by list_less x y < 0 \<longleftrightarrow> 0 < compare_by list_less y x"
    using list_less_asym[of x y] by (auto simp: compare_by_def)
  assume "compare_by list_less x y \<le> 0" "compare_by list_less y z \<le> 0"
  then show "compare_by list_less x z \<le> 0"
    unfolding compare_by_def
    using list_less_linear[of x y] list_less_linear[of y z] list_less_linear[of x z]
    by (auto split: if_splits dest: list_less_trans list_less_asym)
qed

interpretation entry_order: comparator "\<lambda>l r. compare_by list_less (fst l :: bytes) (fst r)" "\<lambda>_ :: bytes \<times> doc_key list. True"
  by unfold_locales (simp_all add: key_order.cmp_flip, metis key_order.cmp_trans)

lemma compare_by_zero: "compare_by list_less x y = 0 \<longleftrightarrow> x = (y :: ('a::linorder) list)"
  using list_less_linear[of x y] by (auto simp: compare_by_def)

lemma sort_keys_unique: "distinct a \<Longrightarrow> distinct b \<Longrightarrow> set a = set b \<Longrightarrow> sort_keys a = sort_keys b"
  unfolding sort_keys_def
  by (rule key_order.sort_by_mset_eq) (simp_all add: set_eq_iff_mset_eq_distinct compare_by_zero)

lemma values_unique:
  assumes "values_repr fx D" "values_repr gx D" "fx_segments fx = fx_segments gx"
  shows "ic_values (contents fx) = ic_values (contents gx)"
proof -
  let ?f = "\<lambda>(key :: bytes, docKeys). (key, sort_keys docKeys)"
  have sub: "?f ` set (fx_byValue fx) \<subseteq> ?f ` set (fx_byValue gx)"
    if "values_repr fx D" "values_repr gx D" "fx_segments fx = fx_segments gx" for fx gx
  proof
    fix p assume "p \<in> ?f ` set (fx_byValue fx)"
    then obtain k ks where k: "(k, ks) \<in> set (fx_byValue fx)" "p = (k, sort_keys ks)" by auto
    then have m: "map_of (fx_byValue fx) k = Some ks" using that(1) by (simp add: values_repr_def)
    then have ks: "ks \<noteq> []" "distinct ks" using that(1) unfolding values_repr_def by blast+
    have same: "set (map_get (fx_byValue fx) k) = set (map_get (fx_byValue gx) k)"
      using that by (simp add: values_repr_def)
    with m ks obtain ls where ls: "map_of (fx_byValue gx) k = Some ls"
      by (cases "map_of (fx_byValue gx) k") (auto simp: map_get_def)
    moreover have "distinct ls" using that(2) ls unfolding values_repr_def by blast
    ultimately have "sort_keys ks = sort_keys ls" using same m ks by (intro sort_keys_unique) (simp_all add: map_get_def)
    then show "p \<in> ?f ` set (fx_byValue gx)" using k(2) map_of_SomeD[OF ls] by force
  qed
  have sets: "set (map ?f (fx_byValue fx)) = set (map ?f (fx_byValue gx))"
    using sub[OF assms] sub[OF assms(2,1) assms(3)[symmetric]] by auto
  have d: "distinct (map ?f (fx_byValue h))" "distinct (map fst (map ?f (fx_byValue h)))" if "values_repr h D" for h
  proof -
    have "map fst (map ?f (fx_byValue h)) = map fst (fx_byValue h)" by (simp add: split_def)
    then show f: "distinct (map fst (map ?f (fx_byValue h)))" using that by (simp only: values_repr_def)
    then show "distinct (map ?f (fx_byValue h))" using distinct_map[of fst "map ?f (fx_byValue h)"] by blast
  qed
  have "sort_by (\<lambda>l r. compare_by list_less (fst l) (fst r)) (map ?f (fx_byValue fx)) =
      sort_by (\<lambda>l r. compare_by list_less (fst l) (fst r)) (map ?f (fx_byValue gx))"
  proof (rule entry_order.sort_by_mset_eq)
    show "mset (map ?f (fx_byValue fx)) = mset (map ?f (fx_byValue gx))"
      using sets d(1)[OF assms(1)] d(1)[OF assms(2)] by (simp only: set_eq_iff_mset_eq_distinct)
    fix x y assume "x \<in> set (map ?f (fx_byValue fx))" "y \<in> set (map ?f (fx_byValue fx))"
      "compare_by list_less (fst x) (fst y) = 0"
    then show "x = y" using d(2)[OF assms(1)] by (metis compare_by_zero eq_key_imp_eq_value prod.collapse)
  qed simp
  then show ?thesis by (simp add: contents_def)
qed

lemma entry_problems_none:
  assumes "\<forall>e \<in> set es. map_of (fx_byValue fx) (snd e) \<noteq> None"
    and "sorted_wrt (\<lambda>l r. compareSameClass (fst l) (fst r) \<le> 0) ((case previous of None \<Rightarrow> [] | Some p \<Rightarrow> [p]) @ es)"
  shows "entry_problems fx c previous es = []"
  using assms
proof (induction es arbitrary: previous)
  case (Cons e es)
  then have "entry_problems fx c (Some e) es = []" by (intro Cons.IH) (auto split: option.splits)
  with Cons.prems show ?case by (auto split: option.splits)
qed simp

lemma no_problems:
  assumes "index_repr fx D"
  shows "ic_problems (contents fx) = []"
proof -
  have rep: "ordered_repr fx D" "values_repr fx D" "docs_ok D" "fx_unsorted fx = []"
    using assms by (simp_all add: index_repr_def bulk_repr_def)
  have "entry_problems fx c None es = []" if "(c, es) \<in> set (fx_ordered fx)" for c es
  proof (rule entry_problems_none)
    have "map_of (fx_ordered fx) c = Some es" using that rep(1) by (simp add: ordered_repr_def)
    then have es: "es = map_get (fx_ordered fx) c" by (simp add: map_get_def)
    show "\<forall>e \<in> set es. map_of (fx_byValue fx) (snd e) \<noteq> None"
    proof
      fix e assume "e \<in> set es"
      then have "(fst e, snd e) \<in> set (map_get (fx_ordered fx) c)" using es by simp
      then obtain v where v: "snd e = canonicalKey v" "valueClassOf v = Some c" "value_present (fx_segments fx) D v"
        using rep(1) unfolding ordered_repr_iff by blast
      then show "map_of (fx_byValue fx) (snd e) \<noteq> None"
        using present_iff_byValue[OF rep(2,3) value_present_storable[OF rep(3) v(3)] v(2)] by simp
    qed
    have "entries_sorted es" using rep(1,4) es by (simp add: ordered_repr_iff)
    then show "sorted_wrt (\<lambda>l r. compareSameClass (fst l) (fst r) \<le> 0) ((case None of None \<Rightarrow> [] | Some p \<Rightarrow> [p]) @ es)"
      by (simp add: entries_sorted_def)
  qed
  moreover have "ks \<noteq> []" if "(k, ks) \<in> set (fx_byValue fx)" for k ks
    using that rep(2) by (auto simp: values_repr_def)
  ultimately show ?thesis by (auto simp: contents_def)
qed

lemma contents_unique:
  assumes "index_repr fx D" "index_repr gx D" "fx_spec fx = fx_spec gx"
  shows "ic_values (contents fx) = ic_values (contents gx)" "ic_missing (contents fx) = ic_missing (contents gx)"
    "fx_indexedDocuments fx = fx_indexedDocuments gx" "hasArrayValues fx = hasArrayValues gx"
proof -
  have r: "values_repr fx D" "values_repr gx D" "missing_repr fx D" "missing_repr gx D" "counts_repr fx D"
    "counts_repr gx D" "fx_segments fx = fx_segments gx"
    using assms by (simp_all add: index_repr_def bulk_repr_def)
  show "ic_values (contents fx) = ic_values (contents gx)" using r(1,2,7) by (rule values_unique)
  show "ic_missing (contents fx) = ic_missing (contents gx)"
    using r(3,4,7) assms(3) by (simp add: contents_def missing_repr_def sort_keys_unique)
  show "fx_indexedDocuments fx = fx_indexedDocuments gx" "hasArrayValues fx = hasArrayValues gx"
    using r(5-7) assms(3) by (simp_all add: counts_repr_def hasArrayValues_def)
qed

lemma contents_values:
  assumes "values_repr fx D"
  shows "distinct (map fst (ic_values (contents fx)))"
    and "(key, docs) \<in> set (ic_values (contents fx)) \<longleftrightarrow>
      docs = sort_keys (map_get (fx_byValue fx) key) \<and> holders (fx_segments fx) D key \<noteq> {}"
proof -
  let ?f = "\<lambda>(key :: bytes, docKeys). (key, sort_keys docKeys)"
  have "mset (map fst (ic_values (contents fx))) = mset (map fst (map ?f (fx_byValue fx)))"
    by (simp only: contents_def index_contents.simps mset_map mset_sort_by)
  moreover have "map fst (map ?f (fx_byValue fx)) = map fst (fx_byValue fx)" by (simp add: split_def)
  ultimately show "distinct (map fst (ic_values (contents fx)))"
    using assms by (metis mset_eq_imp_distinct_iff values_repr_def)
  have "(key, docs) \<in> set (ic_values (contents fx)) \<longleftrightarrow>
      (\<exists>ks. map_of (fx_byValue fx) key = Some ks \<and> docs = sort_keys ks)"
    using assms by (auto simp: contents_def values_repr_def)
  moreover have "holders (fx_segments fx) D key \<noteq> {} \<longleftrightarrow> map_of (fx_byValue fx) key \<noteq> None"
    using assms unfolding values_repr_def map_get_def by (metis option.case_eq_if option.collapse set_empty)
  ultimately show "(key, docs) \<in> set (ic_values (contents fx)) \<longleftrightarrow>
      docs = sort_keys (map_get (fx_byValue fx) key) \<and> holders (fx_segments fx) D key \<noteq> {}"
    by (cases "map_of (fx_byValue fx) key") (simp_all add: map_get_def)
qed

lemma several_iff: "distinct xs \<Longrightarrow> 1 < length xs \<longleftrightarrow> (\<exists>a \<in> set xs. \<exists>b \<in> set xs. a \<noteq> b)"
  by (cases xs; cases "tl xs") auto

lemma several_values:
  assumes "values_repr fx D"
  shows "(\<exists>key docs. (key, docs) \<in> set (ic_values (contents fx)) \<and> 1 < length docs) \<longleftrightarrow>
    (\<exists>key. \<exists>a \<in> holders (fx_segments fx) D key. \<exists>b \<in> holders (fx_segments fx) D key. a \<noteq> b)"
proof -
  have d: "set (map_get (fx_byValue fx) key) = holders (fx_segments fx) D key" "distinct (map_get (fx_byValue fx) key)" for key
    using assms by (simp_all add: values_repr_def) (auto simp: map_get_def split: option.split)
  have "1 < length (sort_keys (map_get (fx_byValue fx) key)) \<longleftrightarrow>
      (\<exists>a \<in> holders (fx_segments fx) D key. \<exists>b \<in> holders (fx_segments fx) D key. a \<noteq> b)" for key
    using several_iff[OF d(2)] by (simp add: sort_keys_def d(1))
  then show ?thesis unfolding contents_values(2)[OF assms] by blast
qed

lemma several_missing:
  assumes "missing_repr fx D" "\<not> is_sparse (fx_spec fx)"
  shows "1 < length (ic_missing (contents fx)) \<longleftrightarrow>
    (\<exists>a \<in> lacking (fx_segments fx) D. \<exists>b \<in> lacking (fx_segments fx) D. a \<noteq> b)"
  using assms several_iff[of "fx_missing fx"] by (simp add: contents_def sort_keys_def missing_repr_def)

section \<open>Properties\<close>

text \<open>C19: the lookups of an index are exact. An equality lookup returns the documents whose field has
  the canonical key of the value, and a range lookup within a class of values returns the
  documents whose field is of that class and within the bounds, both bounds optional, inclusive or
  not.\<close>

theorem index_lookups_exact:
  assumes "index_repr fx D"
    and "\<forall>b. lower = Some b \<longrightarrow> valueClassOf (ib_value b) = Some c"
    and "\<forall>b. upper = Some b \<longrightarrow> valueClassOf (ib_value b) = Some c"
  shows "set (case lookupEqual fx v of None \<Rightarrow> [] | Some ks \<Rightarrow> ks) =
      {dk. \<exists>d w. D dk = Some d \<and> resolveField d (split_path (is_field (fx_spec fx))) = Some w \<and>
         canonicalKey w = canonicalKey v} \<and>
    set (lookupRange fx c lower upper) =
      {dk. \<exists>d w. D dk = Some d \<and> resolveField d (split_path (is_field (fx_spec fx))) = Some w \<and>
         valueClassOf w = Some c \<and> in_bounds lower upper w}"
  using lookupEqual_set[OF assms(1)] lookupRange_set[OF assms] by (simp add: holders_def)

definition sample_index :: field_index where
  "sample_index = index_add (js ''k'') [] False
     (new_field_index \<lparr>is_name = js ''a_1'', is_field = js ''a'', is_direction = 1, is_unique = True, is_sparse = False\<rparr>)"

theorem index_lookups_exact_witness:
  "set (case lookupEqual sample_index (DString []) of None \<Rightarrow> [] | Some ks \<Rightarrow> ks) =
      {dk. \<exists>d w. [js ''k'' \<mapsto> []] dk = Some d \<and> resolveField d (split_path (is_field (fx_spec sample_index))) = Some w \<and>
         canonicalKey w = canonicalKey (DString [])} \<and>
    set (lookupRange sample_index ClassString (Some \<lparr>ib_value = DString [], ib_inclusive = True\<rparr>) None) =
      {dk. \<exists>d w. [js ''k'' \<mapsto> []] dk = Some d \<and> resolveField d (split_path (is_field (fx_spec sample_index))) = Some w \<and>
         valueClassOf w = Some ClassString \<and> in_bounds (Some \<lparr>ib_value = DString [], ib_inclusive = True\<rparr>) None w}"
proof (rule index_lookups_exact)
  have "storable (DDocument [])" by (simp add: storable_def MAX_PAYLOAD_SIZE_def)
  then show "index_repr sample_index [js ''k'' \<mapsto> []]"
    unfolding sample_index_def by (intro index_repr_add index_repr_new) simp_all
qed (simp_all add: valueClassOf_def isComparableValue_def)

end
