(* ===== verification/Index_Set.thy ===== *)
theory Index_Set
  imports Field_Index
begin

text \<open>
  \<open>packages/storage/src/indexing/index-set.ts\<close>: the secondary indexes of a collection, kept in
  step with its documents. The \<open>undo\<close> closures of \<open>applyChanges\<close> are values of \<open>undo_step\<close>,
  and the rollback function it returns is the list of them; throwing still hands back the
  indexes, because the rollback before the throw has touched them.
\<close>

type_synonym index_set = "(js_string \<times> field_index) list"

record document_change =
  dc_key :: doc_key
  dc_before :: "document option"
  dc_after :: "document option"

definition set_isEmpty :: "index_set \<Rightarrow> bool" where
  "set_isEmpty S \<longleftrightarrow> length S = 0"

definition all_indexes :: "index_set \<Rightarrow> field_index list" where
  "all_indexes S = map snd S"

definition index_specs :: "index_set \<Rightarrow> index_spec list" where
  "index_specs S = map fx_spec (all_indexes S)"

definition has_index :: "index_set \<Rightarrow> js_string \<Rightarrow> bool" where
  "has_index S name \<longleftrightarrow> map_of S name \<noteq> None"

definition drop_index :: "js_string \<Rightarrow> index_set \<Rightarrow> index_set" where
  "drop_index name S = AList.delete name S"

section \<open>Creating an index\<close>

datatype create_result = Created | Exists

text \<open>The loop over the documents: \<open>None\<close> when one of them conflicts.\<close>

fun load_documents :: "(doc_key \<times> document) list \<Rightarrow> field_index \<Rightarrow> field_index option" where
  "load_documents [] fx = Some fx"
| "load_documents ((key, d) # rest) fx =
     (if conflictFor key d fx then None else load_documents rest (index_add key d True fx))"

definition create_index ::
  "index_spec \<Rightarrow> (doc_key \<times> document) list \<Rightarrow> index_set \<Rightarrow> failure + create_result \<times> index_set" where
  "create_index spec documents S =
     (case map_of S (is_name spec) of
        Some existing \<Rightarrow>
          if sameDefinition (fx_spec existing) spec then Inr (Exists, S)
          else Inl (StorageError IndexConflict)
      | None \<Rightarrow>
          if list_ex (\<lambda>other. is_field (fx_spec other) = is_field spec) (all_indexes S)
          then Inl (StorageError IndexConflict)
          else if MAX_INDEXES_PER_COLLECTION \<le> length S then Inl (StorageError IndexConflict)
          else case load_documents documents (new_field_index spec) of
            None \<Rightarrow> Inl (StorageError DuplicateKey)
          | Some fx \<Rightarrow> Inr (Created, AList.update (is_name spec) (finishBulk fx) S))"

section \<open>Applying changes\<close>

datatype undo_step = UndoAdd js_string doc_key document | UndoRemove js_string doc_key document

definition update_index :: "js_string \<Rightarrow> (field_index \<Rightarrow> field_index) \<Rightarrow> index_set \<Rightarrow> index_set" where
  "update_index name f S = map (\<lambda>(n, fx). (n, if n = name then f fx else fx)) S"

primrec run_undo :: "undo_step \<Rightarrow> index_set \<Rightarrow> index_set" where
  "run_undo (UndoAdd name key d) S = update_index name (index_add key d False) S"
| "run_undo (UndoRemove name key d) S = update_index name (index_remove key d) S"

definition rollback :: "undo_step list \<Rightarrow> index_set \<Rightarrow> index_set" where
  "rollback undo S = foldr run_undo undo S"

fun remove_from :: "js_string list \<Rightarrow> doc_key \<Rightarrow> document \<Rightarrow> index_set \<times> undo_step list \<Rightarrow> index_set \<times> undo_step list" where
  "remove_from [] key before st = st"
| "remove_from (name # names) key before (S, undo) =
     remove_from names key before (update_index name (index_remove key before) S, undo @ [UndoAdd name key before])"

fun remove_phase :: "document_change list \<Rightarrow> index_set \<times> undo_step list \<Rightarrow> index_set \<times> undo_step list" where
  "remove_phase [] st = st"
| "remove_phase (change # changes) st =
     remove_phase changes
       (case dc_before change of None \<Rightarrow> st
        | Some before \<Rightarrow> remove_from (map fst (fst st)) (dc_key change) before st)"

text \<open>The second phase stops at the first conflict; the flag says whether it got through.\<close>

fun add_to :: "js_string list \<Rightarrow> doc_key \<Rightarrow> document \<Rightarrow> index_set \<times> undo_step list \<Rightarrow> bool \<times> index_set \<times> undo_step list" where
  "add_to [] key after st = (True, st)"
| "add_to (name # names) key after (S, undo) =
     (case map_of S name of
        None \<Rightarrow> add_to names key after (S, undo)
      | Some fx \<Rightarrow>
          if conflictFor key after fx then (False, S, undo)
          else add_to names key after
                 (update_index name (index_add key after False) S, undo @ [UndoRemove name key after]))"

fun add_phase :: "document_change list \<Rightarrow> index_set \<times> undo_step list \<Rightarrow> bool \<times> index_set \<times> undo_step list" where
  "add_phase [] st = (True, st)"
| "add_phase (change # changes) st =
     (case dc_after change of
        None \<Rightarrow> add_phase changes st
      | Some after \<Rightarrow>
          (case add_to (map fst (fst st)) (dc_key change) after st of
             (False, st') \<Rightarrow> (False, st')
           | (True, st') \<Rightarrow> add_phase changes st'))"

definition applyChanges ::
  "document_change list \<Rightarrow> index_set \<Rightarrow> (failure + undo_step list) \<times> index_set" where
  "applyChanges changes S =
     (if length S = 0 then (Inr [], S)
      else case add_phase changes (remove_phase changes (S, [])) of
        (False, S', undo) \<Rightarrow> (Inl (StorageError DuplicateKey), rollback undo S')
      | (True, S', undo) \<Rightarrow> (Inr undo, S'))"

section \<open>Validation\<close>

datatype issue_problem =
    IssueOrdering | IssueDocumentCount | IssueArrayFlag | IssueMissingEntry | IssueWrongDocuments
  | IssueUnexpectedEntry | IssueMissingFieldEntries | IssueDuplicateKey

type_synonym index_issue = "js_string \<times> issue_problem"

definition join_keys :: "doc_key list \<Rightarrow> js_string" where
  "join_keys ks = (case ks of [] \<Rightarrow> [] | k # rest \<Rightarrow> k @ concat (map (\<lambda>x. 0x2C # x) rest))"

definition rebuild :: "index_spec \<Rightarrow> (doc_key \<times> document) list \<Rightarrow> field_index" where
  "rebuild spec documents =
     finishBulk (foldl (\<lambda>fx (key, d). index_add key d True fx) (new_field_index spec) documents)"

definition validate_index :: "(doc_key \<times> document) list \<Rightarrow> field_index \<Rightarrow> index_issue list" where
  "validate_index documents live =
     (let fresh = rebuild (fx_spec live) documents;
          expected = contents fresh;
          actual = contents live;
          name = is_name (fx_spec live)
      in map (\<lambda>_. (name, IssueOrdering)) (ic_problems actual) @
         (if fx_indexedDocuments live \<noteq> fx_indexedDocuments fresh then [(name, IssueDocumentCount)] else []) @
         (if hasArrayValues live \<noteq> hasArrayValues fresh then [(name, IssueArrayFlag)] else []) @
         concat (map (\<lambda>(key, docs). case map_of (ic_values actual) key of
             None \<Rightarrow> [(name, IssueMissingEntry)]
           | Some found \<Rightarrow> if join_keys found \<noteq> join_keys docs then [(name, IssueWrongDocuments)] else [])
           (ic_values expected)) @
         concat (map (\<lambda>(key, docs). if map_of (ic_values expected) key = None then [(name, IssueUnexpectedEntry)] else [])
           (ic_values actual)) @
         (if join_keys (ic_missing actual) \<noteq> join_keys (ic_missing expected) then [(name, IssueMissingFieldEntries)] else []) @
         (if is_unique (fx_spec live) then
            concat (map (\<lambda>(key, docs). if 1 < length docs then [(name, IssueDuplicateKey)] else []) (ic_values expected)) @
            (if \<not> is_sparse (fx_spec live) \<and> 1 < length (ic_missing expected) then [(name, IssueDuplicateKey)] else [])
          else []))"

definition validate_indexes :: "(doc_key \<times> document) list \<Rightarrow> index_set \<Rightarrow> index_issue list" where
  "validate_indexes documents S = take 50 (concat (map (validate_index documents) (all_indexes S)))"

section \<open>The contract of one index\<close>

locale document_index =
  fixes repr :: "'i \<Rightarrow> doc_map \<Rightarrow> bool"
    and add :: "doc_key \<Rightarrow> document \<Rightarrow> 'i \<Rightarrow> 'i"
    and remove :: "doc_key \<Rightarrow> document \<Rightarrow> 'i \<Rightarrow> 'i"
    and conflict :: "doc_key \<Rightarrow> document \<Rightarrow> 'i \<Rightarrow> bool"
    and excludes :: "'i \<Rightarrow> document \<Rightarrow> document \<Rightarrow> bool"
  assumes repr_add: "repr i D \<Longrightarrow> D k = None \<Longrightarrow> storable (DDocument d) \<Longrightarrow> repr (add k d i) (D(k \<mapsto> d))"
    and repr_remove: "repr i D \<Longrightarrow> D k = Some d \<Longrightarrow> repr (remove k d i) (D(k := None))"
    and repr_storable: "repr i D \<Longrightarrow> D k = Some d \<Longrightarrow> storable (DDocument d)"
    and conflict_iff: "repr i D \<Longrightarrow> D k = None \<Longrightarrow> conflict k d i \<longleftrightarrow> (\<exists>k' d'. D k' = Some d' \<and> excludes i d d')"
    and excludes_add: "excludes (add k d i) = excludes i"
    and excludes_sym: "excludes i d d' \<longleftrightarrow> excludes i d' d"
begin

text \<open>Each operation undoes the other.\<close>

lemma remove_add: "repr i D \<Longrightarrow> D k = None \<Longrightarrow> storable (DDocument d) \<Longrightarrow> repr (remove k d (add k d i)) D"
  using repr_remove[OF repr_add[of i D k d], of k d] by (simp add: fun_upd_idem)

lemma add_remove:
  assumes "repr i D" "D k = Some d"
  shows "repr (add k d (remove k d i)) D"
proof -
  have "repr (add k d (remove k d i)) (D(k := None, k \<mapsto> d))"
    using repr_add[OF repr_remove[OF assms], of k d] repr_storable[OF assms] by simp
  moreover have "D(k := None, k \<mapsto> d) = D" using assms(2) by (simp add: fun_upd_idem)
  ultimately show ?thesis by simp
qed

text \<open>No two documents exclude each other.\<close>

definition consistent :: "'i \<Rightarrow> doc_map \<Rightarrow> bool" where
  "consistent i D \<longleftrightarrow> (\<forall>a b x y. a \<noteq> b \<longrightarrow> D a = Some x \<longrightarrow> D b = Some y \<longrightarrow> \<not> excludes i x y)"

lemma consistent_add:
  assumes "repr i D" "D k = None" "consistent i D"
  shows "consistent (add k d i) (D(k \<mapsto> d)) \<longleftrightarrow> \<not> conflict k d i"
  using assms(2,3) excludes_sym unfolding consistent_def excludes_add conflict_iff[OF assms(1,2)]
  by (auto split: if_splits)

lemma consistent_subset: "consistent i D' \<Longrightarrow> D \<subseteq>\<^sub>m D' \<Longrightarrow> consistent i D"
  unfolding consistent_def by (metis domI map_le_def)

end

interpretation fi: document_index index_repr "\<lambda>k d. index_add k d False" index_remove conflictFor "\<lambda>fx. clash (fx_spec fx)"
proof unfold_locales
  show "index_repr i D \<Longrightarrow> D k = Some d \<Longrightarrow> storable (DDocument d)" for i D k d
    by (auto simp: index_repr_def bulk_repr_def docs_ok_def intro: ranI)
qed (simp_all add: index_repr_add index_repr_remove conflictFor_iff, auto simp: clash_def split: option.splits)

section \<open>Families of indexes\<close>

text \<open>
  In the middle of a batch the indexes stand for different documents: \<open>F n\<close> is what the index
  named \<open>n\<close> represents.
\<close>

definition fam_repr :: "index_set \<Rightarrow> (js_string \<Rightarrow> doc_map) \<Rightarrow> bool" where
  "fam_repr S F \<longleftrightarrow> distinct (map fst S) \<and> (\<forall>n fx. (n, fx) \<in> set S \<longrightarrow> index_repr fx (F n))"

definition set_repr :: "index_set \<Rightarrow> doc_map \<Rightarrow> bool" where
  "set_repr S D \<longleftrightarrow> fam_repr S (\<lambda>_. D)"

definition specs_of :: "index_set \<Rightarrow> (js_string \<times> index_spec) list" where
  "specs_of S = map (\<lambda>(n, fx). (n, fx_spec fx)) S"

definition unique_in :: "index_spec \<Rightarrow> doc_map \<Rightarrow> bool" where
  "unique_in spec D \<longleftrightarrow> (\<forall>a b x y. a \<noteq> b \<longrightarrow> D a = Some x \<longrightarrow> D b = Some y \<longrightarrow> \<not> clash spec x y)"

lemma consistent_unique: "fi.consistent fx D = unique_in (fx_spec fx) D"
  by (simp add: fi.consistent_def unique_in_def)

lemma unique_in_subset: "unique_in spec D' \<Longrightarrow> D \<subseteq>\<^sub>m D' \<Longrightarrow> unique_in spec D"
  unfolding unique_in_def by (metis domI map_le_def)

lemma names_specs_of [simp]: "map fst (specs_of S) = map fst S"
  by (simp add: specs_of_def split_def comp_def)

lemma fst_update_index [simp]: "map fst (update_index name f S) = map fst S"
  by (induction S) (auto simp: update_index_def)

lemma specs_of_update_index:
  "(\<And>fx. fx_spec (f fx) = fx_spec fx) \<Longrightarrow> specs_of (update_index name f S) = specs_of S"
  by (induction S) (auto simp: specs_of_def update_index_def)

lemma specs_of_add [simp]: "specs_of (update_index name (index_add k d b) S) = specs_of S"
  by (simp add: specs_of_update_index)

lemma specs_of_remove [simp]: "specs_of (update_index name (index_remove k d) S) = specs_of S"
  by (simp add: specs_of_update_index)

lemma fam_repr_cong: "fam_repr S F \<Longrightarrow> (\<And>n. n \<in> fst ` set S \<Longrightarrow> F n = G n) \<Longrightarrow> fam_repr S G"
  by (fastforce simp: fam_repr_def)

lemma fam_repr_update:
  assumes "fam_repr S F" "\<And>fx. index_repr fx (F name) \<Longrightarrow> index_repr (f fx) D'"
  shows "fam_repr (update_index name f S) (F(name := D'))"
  using assms unfolding fam_repr_def fst_update_index by (auto simp: update_index_def split: if_splits)

lemma fam_repr_add:
  "fam_repr S F \<Longrightarrow> F name k = None \<Longrightarrow> storable (DDocument d) \<Longrightarrow>
   fam_repr (update_index name (index_add k d False) S) (F(name := (F name)(k \<mapsto> d)))"
  by (rule fam_repr_update) (auto intro: index_repr_add)

lemma fam_repr_remove:
  "fam_repr S F \<Longrightarrow> F name k = Some d \<Longrightarrow>
   fam_repr (update_index name (index_remove k d) S) (F(name := (F name)(k := None)))"
  by (rule fam_repr_update) (auto intro: index_repr_remove)

subsection \<open>What a rollback undoes\<close>

primrec undo_name :: "undo_step \<Rightarrow> js_string" where
  "undo_name (UndoAdd n k d) = n"
| "undo_name (UndoRemove n k d) = n"

primrec undo_pre :: "undo_step \<Rightarrow> (js_string \<Rightarrow> doc_map) \<Rightarrow> bool" where
  "undo_pre (UndoAdd n k d) F \<longleftrightarrow> F n k = None \<and> storable (DDocument d)"
| "undo_pre (UndoRemove n k d) F \<longleftrightarrow> F n k = Some d"

primrec undo_post :: "undo_step \<Rightarrow> (js_string \<Rightarrow> doc_map) \<Rightarrow> js_string \<Rightarrow> doc_map" where
  "undo_post (UndoAdd n k d) F = F(n := (F n)(k \<mapsto> d))"
| "undo_post (UndoRemove n k d) F = F(n := (F n)(k := None))"

text \<open>\<open>undoes N us F' F\<close>: running \<open>us\<close> backwards takes the family \<open>F'\<close> back to \<open>F\<close> on the names \<open>N\<close>.\<close>

inductive undoes :: "js_string set \<Rightarrow> undo_step list \<Rightarrow> (js_string \<Rightarrow> doc_map) \<Rightarrow> (js_string \<Rightarrow> doc_map) \<Rightarrow> bool"
  for N where
  undoes_Nil: "(\<forall>n \<in> N. F' n = F n) \<Longrightarrow> undoes N [] F' F"
| undoes_snoc: "undo_name u \<in> N \<Longrightarrow> undo_pre u F' \<Longrightarrow> undoes N us (undo_post u F') F \<Longrightarrow> undoes N (us @ [u]) F' F"

lemma undo_cong:
  assumes "undo_name u \<in> N" "\<forall>n \<in> N. G n = F n"
  shows "undo_pre u G = undo_pre u F" "\<forall>n \<in> N. undo_post u G n = undo_post u F n"
  using assms by (cases u; simp)+

lemma undoes_cong: "undoes N us F' F \<Longrightarrow> \<forall>n \<in> N. G n = F' n \<Longrightarrow> undoes N us G F"
proof (induction arbitrary: G rule: undoes.induct)
  case (undoes_snoc u F' us F)
  then show ?case using undo_cong[OF undoes_snoc.hyps(1) undoes_snoc.prems] by (auto intro: undoes.undoes_snoc)
qed (simp add: undoes_Nil)

lemma run_undo_repr: "undo_pre u F \<Longrightarrow> fam_repr S F \<Longrightarrow> fam_repr (run_undo u S) (undo_post u F)"
  by (cases u) (simp_all add: fam_repr_add fam_repr_remove)

lemma specs_of_run_undo [simp]: "specs_of (run_undo u S) = specs_of S"
  by (cases u) simp_all

lemma specs_of_rollback [simp]: "specs_of (rollback us S) = specs_of S"
  by (induction us arbitrary: S rule: rev_induct) (simp_all add: rollback_def)

lemma names_of_specs: "specs_of S' = specs_of S \<Longrightarrow> map fst S' = map fst S"
  by (metis names_specs_of)

lemma rollback_repr: "undoes N us F' F \<Longrightarrow> fam_repr S F' \<Longrightarrow> fst ` set S \<subseteq> N \<Longrightarrow> fam_repr (rollback us S) F"
proof (induction arbitrary: S rule: undoes.induct)
  case (undoes_Nil F' F)
  then show ?case by (auto simp: rollback_def intro: fam_repr_cong)
next
  case (undoes_snoc u F' us F)
  have "fst ` set (run_undo u S) = fst ` set S" by (metis list.set_map names_of_specs specs_of_run_undo)
  with undoes_snoc show ?case
    using undoes_snoc.IH[OF run_undo_repr[OF undoes_snoc.hyps(2) undoes_snoc.prems(1)]]
    by (simp add: rollback_def)
qed

subsection \<open>The removal phase\<close>

lemma remove_from_spec:
  assumes "fam_repr S F" "undoes N undo F F0" "distinct names" "set names \<subseteq> N" "storable (DDocument before)"
    "\<forall>n \<in> set names. F n key = Some before" "remove_from names key before (S, undo) = (S', undo')"
  shows "fam_repr S' (\<lambda>n. if n \<in> set names then (F n)(key := None) else F n) \<and>
    undoes N undo' (\<lambda>n. if n \<in> set names then (F n)(key := None) else F n) F0 \<and> specs_of S' = specs_of S"
  using assms
proof (induction names arbitrary: S F undo)
  case (Cons name names)
  let ?F = "F(name := (F name)(key := None))"
  let ?S = "update_index name (index_remove key before) S"
  let ?undo = "undo @ [UndoAdd name key before]"
  have "(F name)(key := None, key \<mapsto> before) = F name" using Cons.prems(6) by (simp add: fun_upd_idem)
  then have "undoes N ?undo ?F F0"
    using Cons.prems by (intro undoes_snoc) (simp_all add: fun_upd_idem)
  moreover have "fam_repr ?S ?F" using Cons.prems by (intro fam_repr_remove) simp_all
  moreover have "\<forall>n \<in> set names. ?F n key = Some before" using Cons.prems(3,6) by auto
  moreover have "distinct names" "set names \<subseteq> N" "remove_from names key before (?S, ?undo) = (S', undo')"
    using Cons.prems by simp_all
  ultimately have IH: "fam_repr S' (\<lambda>n. if n \<in> set names then (?F n)(key := None) else ?F n) \<and>
    undoes N undo' (\<lambda>n. if n \<in> set names then (?F n)(key := None) else ?F n) F0 \<and> specs_of S' = specs_of ?S"
    by (intro Cons.IH Cons.prems(5)) blast+
  have "(\<lambda>n. if n \<in> set names then (?F n)(key := None) else ?F n) =
      (\<lambda>n. if n \<in> set (name # names) then (F n)(key := None) else F n)" by (auto simp: fun_eq_iff)
  with IH show ?case by simp
qed simp

definition changes_ok :: "doc_map \<Rightarrow> document_change list \<Rightarrow> bool" where
  "changes_ok D changes \<longleftrightarrow> distinct (map dc_key changes) \<and>
     (\<forall>c \<in> set changes. dc_before c = D (dc_key c) \<and> (\<forall>d. dc_after c = Some d \<longrightarrow> storable (DDocument d)))"

lemma remove_phase_spec:
  assumes "fam_repr S (\<lambda>_. D)" "docs_ok D" "undoes (fst ` set S) undo (\<lambda>_. D) F0" "changes_ok D changes"
    "remove_phase changes (S, undo) = (S', undo')"
  shows "fam_repr S' (\<lambda>_. D |` (- set (map dc_key changes))) \<and>
    undoes (fst ` set S) undo' (\<lambda>_. D |` (- set (map dc_key changes))) F0 \<and> specs_of S' = specs_of S"
  using assms
proof (induction changes arbitrary: S D undo)
  case (Cons c changes)
  let ?D = "D(dc_key c := None)" and ?N = "fst ` set S"
  have split: "D |` (- set (map dc_key (c # changes))) = ?D |` (- set (map dc_key changes))"
    by (auto simp: restrict_map_def fun_eq_iff)
  have ok: "changes_ok ?D changes" using Cons.prems(4) by (auto simp: changes_ok_def image_iff)
  have before: "dc_before c = D (dc_key c)" using Cons.prems(4) by (simp add: changes_ok_def)
  show ?case
  proof (cases "dc_before c")
    case None
    then have "?D = D" using before by (simp add: fun_upd_idem)
    with Cons.IH[of S D undo] Cons.prems None ok split show ?thesis by simp
  next
    case (Some b)
    obtain S1 undo1 where r: "remove_from (map fst S) (dc_key c) b (S, undo) = (S1, undo1)" by fastforce
    have st: "storable (DDocument b)" using Cons.prems(2) Some before by (auto simp: docs_ok_def intro: ranI)
    have one: "fam_repr S1 (\<lambda>n. if n \<in> ?N then ?D else D)"
      "undoes ?N undo1 (\<lambda>n. if n \<in> ?N then ?D else D) F0" "specs_of S1 = specs_of S"
      using remove_from_spec[OF Cons.prems(1,3) _ _ st _ r] Cons.prems(1) Some before
      by (auto simp: fam_repr_def)
    have N: "fst ` set S1 = ?N" using names_of_specs[OF one(3)] by (metis list.set_map)
    have "fam_repr S1 (\<lambda>_. ?D)" by (rule fam_repr_cong[OF one(1)]) (simp add: N)
    moreover have "undoes (fst ` set S1) undo1 (\<lambda>_. ?D) F0"
      unfolding N by (rule undoes_cong[OF one(2)]) simp
    moreover have "remove_phase changes (S1, undo1) = (S', undo')" using Cons.prems(5) Some r by simp
    ultimately show ?thesis
      using Cons.IH[of S1 ?D undo1, OF _ docs_ok_remove[OF Cons.prems(2)] _ ok] one(3) unfolding split N by metis
  qed
qed (simp add: restrict_map_def)

subsection \<open>The insertion phase\<close>

lemma fam_repr_get: "fam_repr S F \<Longrightarrow> map_of S name = Some fx \<Longrightarrow> index_repr fx (F name)"
  by (auto simp: fam_repr_def dest: map_of_SomeD)

lemma add_to_spec:
  assumes "fam_repr S F" "undoes N undo F F0" "distinct names" "set names \<subseteq> N" "set names \<subseteq> fst ` set S"
    "storable (DDocument after)" "\<forall>n \<in> set names. F n key = None" "add_to names key after (S, undo) = (ok, S', undo')"
  shows "specs_of S' = specs_of S \<and>
    (if ok then fam_repr S' (\<lambda>n. if n \<in> set names then (F n)(key \<mapsto> after) else F n) \<and>
        undoes N undo' (\<lambda>n. if n \<in> set names then (F n)(key \<mapsto> after) else F n) F0 \<and>
        (\<forall>n spec. n \<in> set names \<longrightarrow> (n, spec) \<in> set (specs_of S) \<longrightarrow> unique_in spec (F n) \<longrightarrow>
           unique_in spec ((F n)(key \<mapsto> after)))
     else (\<exists>F'. fam_repr S' F' \<and> undoes N undo' F' F0) \<and>
        (\<exists>n spec. (n, spec) \<in> set (specs_of S) \<and> n \<in> set names \<and> \<not> unique_in spec ((F n)(key \<mapsto> after))))"
  using assms
proof (induction names arbitrary: S F undo)
  case (Cons name names)
  obtain fx where fx: "map_of S name = Some fx"
    using Cons.prems(5) by (metis insert_subset list.simps(15) map_of_eq_None_iff not_None_eq)
  have rep: "index_repr fx (F name)" by (rule fam_repr_get[OF Cons.prems(1) fx])
  have key: "F name key = None" using Cons.prems(7) by simp
  have mem: "(name, fx_spec fx) \<in> set (specs_of S)" using map_of_SomeD[OF fx] by (force simp: specs_of_def)
  have only: "spec = fx_spec fx" if "(name, spec) \<in> set (specs_of S)" for spec
    using that mem Cons.prems(1) eq_key_imp_eq_value[of "specs_of S" name spec "fx_spec fx"]
    by (simp add: fam_repr_def)
  show ?case
  proof (cases "conflictFor key after fx")
    case True
    then obtain k' d' where "F name k' = Some d'" "clash (fx_spec fx) after d'"
      using conflictFor_iff[OF rep key] by blast
    then have "\<not> unique_in (fx_spec fx) ((F name)(key \<mapsto> after))"
      using key unfolding unique_in_def by (metis fun_upd_apply option.distinct(1))
    moreover have "ok = False" "S' = S" "undo' = undo" using Cons.prems(8) fx True by simp_all
    ultimately show ?thesis using Cons.prems(1,2) mem by auto
  next
    case False
    let ?F = "F(name := (F name)(key \<mapsto> after))"
    let ?S = "update_index name (index_add key after False) S"
    let ?undo = "undo @ [UndoRemove name key after]"
    have "undoes N ?undo ?F F0"
      using Cons.prems key by (intro undoes_snoc) (simp_all add: fun_upd_idem)
    moreover have "fam_repr ?S ?F" using Cons.prems by (intro fam_repr_add) simp_all
    moreover have "\<forall>n \<in> set names. ?F n key = None" using Cons.prems(3,7) by auto
    moreover have "set names \<subseteq> fst ` set ?S" using Cons.prems(5) by (metis fst_update_index list.set_map set_subset_Cons subset_trans)
    moreover have "add_to names key after (?S, ?undo) = (ok, S', undo')" using Cons.prems(8) fx False by simp
    ultimately have IH: "specs_of S' = specs_of ?S \<and>
      (if ok then fam_repr S' (\<lambda>n. if n \<in> set names then (?F n)(key \<mapsto> after) else ?F n) \<and>
          undoes N undo' (\<lambda>n. if n \<in> set names then (?F n)(key \<mapsto> after) else ?F n) F0 \<and>
          (\<forall>n spec. n \<in> set names \<longrightarrow> (n, spec) \<in> set (specs_of ?S) \<longrightarrow> unique_in spec (?F n) \<longrightarrow>
             unique_in spec ((?F n)(key \<mapsto> after)))
       else (\<exists>F'. fam_repr S' F' \<and> undoes N undo' F' F0) \<and>
          (\<exists>n spec. (n, spec) \<in> set (specs_of ?S) \<and> n \<in> set names \<and> \<not> unique_in spec ((?F n)(key \<mapsto> after))))"
      using Cons.prems(3,4) by (intro Cons.IH Cons.prems(6)) (simp_all only: set_simps distinct.simps insert_subset)
    have eq: "(\<lambda>n. if n \<in> set names then (?F n)(key \<mapsto> after) else ?F n) =
        (\<lambda>n. if n \<in> set (name # names) then (F n)(key \<mapsto> after) else F n)" by (auto simp: fun_eq_iff)
    have other: "n \<noteq> name" if "n \<in> set names" for n using that Cons.prems(3) by auto
    have "unique_in (fx_spec fx) (F name) \<Longrightarrow> unique_in (fx_spec fx) ((F name)(key \<mapsto> after))"
      using fi.consistent_add[OF rep key] False by (simp add: consistent_unique)
    with IH show ?thesis unfolding eq by (auto simp: other cong: conj_cong dest: only) (blast)?
  qed
qed simp

text \<open>The documents after a batch of changes.\<close>

definition changed :: "doc_map \<Rightarrow> document_change list \<Rightarrow> doc_map" where
  "changed D changes = (\<lambda>k. case map_of (map (\<lambda>c. (dc_key c, dc_after c)) changes) k of None \<Rightarrow> D k | Some after \<Rightarrow> after)"

lemma changed_Cons:
  assumes "dc_key c \<notin> dc_key ` set changes"
  shows "changed D (c # changes) = changed (D(dc_key c := dc_after c)) changes"
  using assms by (auto simp: changed_def fun_eq_iff map_of_eq_None_iff image_iff split: option.splits dest: map_of_SomeD)

lemma changed_other: "k \<notin> dc_key ` set changes \<Longrightarrow> changed D changes k = D k"
  by (auto simp: changed_def image_iff split: option.splits dest!: map_of_SomeD)

lemma changed_le:
  assumes "\<forall>c \<in> set changes. D (dc_key c) = None"
  shows "D \<subseteq>\<^sub>m changed D changes"
  unfolding map_le_def
proof
  fix k
  assume "k \<in> dom D"
  then have "k \<notin> dc_key ` set changes" using assms by auto
  then show "D k = changed D changes k" by (simp add: changed_other)
qed

lemma changed_restrict: "changed (D |` (- set (map dc_key changes))) changes = changed D changes"
proof
  fix k
  show "changed (D |` (- set (map dc_key changes))) changes k = changed D changes k"
  proof (cases "k \<in> dc_key ` set changes")
    case True
    then have "map_of (map (\<lambda>c. (dc_key c, dc_after c)) changes) k \<noteq> None"
      by (simp add: map_of_eq_None_iff image_image)
    then show ?thesis by (auto simp: changed_def)
  qed (simp add: changed_other)
qed

definition all_unique :: "index_set \<Rightarrow> doc_map \<Rightarrow> bool" where
  "all_unique S D \<longleftrightarrow> (\<forall>(n, spec) \<in> set (specs_of S). unique_in spec D)"

lemma all_unique_cong: "specs_of S' = specs_of S \<Longrightarrow> all_unique S' D = all_unique S D"
  by (simp add: all_unique_def)

lemma all_unique_subset: "all_unique S D' \<Longrightarrow> D \<subseteq>\<^sub>m D' \<Longrightarrow> all_unique S D"
  by (auto simp: all_unique_def intro: unique_in_subset)

lemma add_phase_spec:
  assumes "fam_repr S (\<lambda>_. D)" "undoes (fst ` set S) undo (\<lambda>_. D) F0" "distinct (map dc_key changes)"
    "\<forall>c \<in> set changes. D (dc_key c) = None \<and> (\<forall>d. dc_after c = Some d \<longrightarrow> storable (DDocument d))"
    "all_unique S D" "add_phase changes (S, undo) = (ok, S', undo')"
  shows "specs_of S' = specs_of S \<and> (ok \<longleftrightarrow> all_unique S (changed D changes)) \<and>
    (\<exists>F'. fam_repr S' F' \<and> undoes (fst ` set S) undo' F' F0 \<and> (ok \<longrightarrow> F' = (\<lambda>_. changed D changes)))"
  using assms
proof (induction changes arbitrary: S D undo)
  case Nil
  then show ?case by (auto simp: changed_def)
next
  case (Cons c changes)
  let ?N = "fst ` set S"
  have c: "D (dc_key c) = None" "dc_key c \<notin> dc_key ` set changes" using Cons.prems by auto
  show ?case
  proof (cases "dc_after c")
    case None
    then have "D(dc_key c := dc_after c) = D" using c by (simp add: fun_upd_idem)
    then have "changed D (c # changes) = changed D changes" using changed_Cons[OF c(2), of D] by simp
    moreover have "add_phase changes (S, undo) = (ok, S', undo')" using Cons.prems(6) None by simp
    ultimately show ?thesis using Cons.IH[OF Cons.prems(1,2) _ _ Cons.prems(5)] Cons.prems(3,4) by auto
  next
    case (Some a)
    let ?D = "D(dc_key c \<mapsto> a)"
    obtain ok1 S1 undo1 where r: "add_to (map fst S) (dc_key c) a (S, undo) = (ok1, S1, undo1)" by (metis prod_cases3)
    have st: "storable (DDocument a)" using Cons.prems(4) Some by simp
    have nn: "\<forall>x \<in> set changes. ?D (dc_key x) = None \<and> (\<forall>d. dc_after x = Some d \<longrightarrow> storable (DDocument d))"
      using Cons.prems(4) c(2) by (auto simp: image_iff)
    have ch: "changed D (c # changes) = changed ?D changes" using changed_Cons[OF c(2), of D] Some by simp
    have "distinct (map fst S)" using Cons.prems(1) by (simp add: fam_repr_def)
    note spec = add_to_spec[OF Cons.prems(1,2) this _ _ st _ r, simplified, OF impI, OF c(1)]
    then have specs: "specs_of S1 = specs_of S" by simp
    have N: "fst ` set S1 = ?N" using names_of_specs[OF specs] by (metis list.set_map)
    show ?thesis
    proof (cases ok1)
      case True
      let ?F = "\<lambda>n. if n \<in> set (map fst S) then ?D else D"
      from spec True have s: "fam_repr S1 ?F" "undoes ?N undo1 ?F F0"
        "\<And>n spec. n \<in> set (map fst S) \<Longrightarrow> (n, spec) \<in> set (specs_of S) \<Longrightarrow> unique_in spec D \<Longrightarrow> unique_in spec ?D"
        by simp_all
      have "fam_repr S1 (\<lambda>_. ?D)" by (rule fam_repr_cong[OF s(1)]) (simp add: N)
      moreover have "undoes (fst ` set S1) undo1 (\<lambda>_. ?D) F0" unfolding N by (rule undoes_cong[OF s(2)]) simp
      moreover have "all_unique S1 ?D"
      proof -
        have "unique_in spec ?D" if m: "(n, spec) \<in> set (specs_of S)" for n spec
        proof (rule s(3)[OF _ m])
          show "n \<in> set (map fst S)" using m by (metis fst_conv image_eqI list.set_map names_specs_of)
          show "unique_in spec D" using Cons.prems(5) m unfolding all_unique_def by blast
        qed
        then show ?thesis unfolding all_unique_def specs by blast
      qed
      moreover have "add_phase changes (S1, undo1) = (ok, S', undo')" "distinct (map dc_key changes)"
        using Cons.prems(3,6) Some r True by simp_all
      ultimately have "specs_of S' = specs_of S1 \<and> (ok \<longleftrightarrow> all_unique S1 (changed ?D changes)) \<and>
        (\<exists>F'. fam_repr S' F' \<and> undoes (fst ` set S1) undo' F' F0 \<and> (ok \<longrightarrow> F' = (\<lambda>_. changed ?D changes)))"
        by (intro Cons.IH nn) blast+
      then show ?thesis unfolding N ch all_unique_cong[OF specs] specs .
    next
      case False
      have "\<not> all_unique S ?D" using spec False by (auto simp: all_unique_def)
      then have "\<not> all_unique S (changed ?D changes)" using all_unique_subset changed_le[of changes ?D] nn by blast
      moreover have "\<not> ok" "S' = S1" "undo' = undo1" using Cons.prems(6) Some r False by simp_all
      ultimately show ?thesis using spec False ch by auto
    qed
  qed
qed

text \<open>A batch is applied as a whole or not at all, and what it returns undoes it.\<close>

lemma applyChanges_spec:
  assumes "set_repr S D" "docs_ok D" "all_unique S D" "changes_ok D changes" "applyChanges changes S = (res, S')"
  shows "specs_of S' = specs_of S \<and>
    (case res of
       Inr undo \<Rightarrow> all_unique S (changed D changes) \<and> set_repr S' (changed D changes) \<and> set_repr (rollback undo S') D \<and>
         undoes (fst ` set S) undo (\<lambda>_. changed D changes) (\<lambda>_. D)
     | Inl e \<Rightarrow> e = StorageError DuplicateKey \<and> \<not> all_unique S (changed D changes) \<and> set_repr S' D)"
proof (cases "length S = 0")
  case True
  then show ?thesis using assms
    by (auto simp: applyChanges_def set_repr_def fam_repr_def all_unique_def specs_of_def rollback_def intro: undoes_Nil)
next
  case False
  let ?D = "D |` (- set (map dc_key changes))" and ?N = "fst ` set S"
  obtain S1 undo1 where r: "remove_phase changes (S, []) = (S1, undo1)" by fastforce
  have one: "fam_repr S1 (\<lambda>_. ?D)" "undoes ?N undo1 (\<lambda>_. ?D) (\<lambda>_. D)" "specs_of S1 = specs_of S"
    using remove_phase_spec[OF _ assms(2) _ assms(4) r, of "\<lambda>_. D"] assms(1)
    by (simp_all add: set_repr_def undoes_Nil)
  have N: "fst ` set S1 = ?N" using names_of_specs[OF one(3)] by (metis list.set_map)
  have "?D \<subseteq>\<^sub>m D" by (auto simp: map_le_def)
  then have u: "all_unique S1 ?D" using assms(3) all_unique_subset all_unique_cong[OF one(3)] by blast
  obtain ok S2 undo2 where a: "add_phase changes (S1, undo1) = (ok, S2, undo2)" by (metis prod_cases3)
  have d: "distinct (map dc_key changes)"
    "\<forall>c \<in> set changes. ?D (dc_key c) = None \<and> (\<forall>d. dc_after c = Some d \<longrightarrow> storable (DDocument d))"
    using assms(4) by (auto simp: changes_ok_def)
  obtain F' where two: "specs_of S2 = specs_of S" "ok \<longleftrightarrow> all_unique S (changed D changes)" "fam_repr S2 F'"
    "undoes ?N undo2 F' (\<lambda>_. D)" "ok \<longrightarrow> F' = (\<lambda>_. changed D changes)"
    using add_phase_spec[OF one(1) _ d u a, of "\<lambda>_. D"] one(2)
    unfolding N changed_restrict all_unique_cong[OF one(3)] one(3) by blast
  have N2: "fst ` set S2 = ?N" using names_of_specs[OF two(1)] by (metis list.set_map)
  have "set_repr (rollback undo2 S2) D"
    unfolding set_repr_def by (rule rollback_repr[OF two(4,3)]) (simp add: N2)
  then show ?thesis using assms(5) False r a two
    by (cases ok) (auto simp: applyChanges_def set_repr_def)
qed

section \<open>Creating and validating indexes\<close>

definition docs_list_ok :: "(doc_key \<times> document) list \<Rightarrow> bool" where
  "docs_list_ok docs \<longleftrightarrow> distinct (map fst docs) \<and> (\<forall>(k, d) \<in> set docs. storable (DDocument d))"

lemma docs_list_ok_docs_ok: "docs_list_ok docs \<Longrightarrow> docs_ok (map_of docs)"
  by (auto simp: docs_list_ok_def docs_ok_def finite_dom_map_of ran_def)

lemma docs_list_ok_Cons:
  assumes "docs_list_ok ((k, d) # docs)"
  shows "docs_list_ok docs" "storable (DDocument d)" "D(k \<mapsto> d) ++ map_of docs = D ++ map_of ((k, d) # docs)"
proof -
  have k: "map_of docs k = None" using assms by (simp add: docs_list_ok_def map_of_eq_None_iff)
  then show "D(k \<mapsto> d) ++ map_of docs = D ++ map_of ((k, d) # docs)"
    by (auto simp: fun_eq_iff map_add_def split: option.splits)
qed (use assms in \<open>auto simp: docs_list_ok_def\<close>)

lemma load_documents_spec:
  assumes "bulk_repr fx D" "docs_list_ok docs" "\<forall>k \<in> fst ` set docs. D k = None" "unique_in (fx_spec fx) D"
  shows "case load_documents docs fx of
      None \<Rightarrow> \<not> unique_in (fx_spec fx) (D ++ map_of docs)
    | Some fx' \<Rightarrow> bulk_repr fx' (D ++ map_of docs) \<and> fx_spec fx' = fx_spec fx \<and> unique_in (fx_spec fx) (D ++ map_of docs)"
  using assms
proof (induction docs arbitrary: fx D)
  case (Cons kd docs)
  obtain k d where kd: "kd = (k, d)" by fastforce
  note ok = docs_list_ok_Cons[OF Cons.prems(2)[unfolded kd]]
  have k: "D k = None" using Cons.prems(3) kd by simp
  let ?D = "D(k \<mapsto> d)" and ?fx = "index_add k d True fx"
  have u: "unique_in (fx_spec fx) ?D \<longleftrightarrow> \<not> conflictFor k d fx"
    unfolding conflictFor_bulk[OF Cons.prems(1) k]
    using Cons.prems(4) k clash_sym unfolding unique_in_def by (auto split: if_splits)
  have le: "?D \<subseteq>\<^sub>m ?D ++ map_of docs"
    using Cons.prems(2) kd k Cons.prems(3)
    by (auto simp: map_le_def map_add_def docs_list_ok_def map_of_eq_None_iff dest: map_of_SomeD split: option.splits)
       (metis fst_conv image_eqI map_of_SomeD option.distinct(1))
  show ?case
  proof (cases "conflictFor k d fx")
    case True
    then have "\<not> unique_in (fx_spec fx) (?D ++ map_of docs)" using u unique_in_subset[OF _ le] by blast
    then show ?thesis using True kd ok(3)[of D] by simp
  next
    case False
    have "\<forall>k \<in> fst ` set docs. ?D k = None" using Cons.prems(2,3) kd by (auto simp: docs_list_ok_def image_iff)
    then have "case load_documents docs ?fx of
        None \<Rightarrow> \<not> unique_in (fx_spec ?fx) (?D ++ map_of docs)
      | Some fx' \<Rightarrow> bulk_repr fx' (?D ++ map_of docs) \<and> fx_spec fx' = fx_spec ?fx \<and>
          unique_in (fx_spec ?fx) (?D ++ map_of docs)"
      using u False Cons.prems(1) k ok(1,2) by (intro Cons.IH bulk_repr_add) (simp_all del: fun_upd_apply)
    then show ?thesis using False unfolding kd ok(3)[of D] index_add_fields by simp
  qed
qed simp

lemma alist_update_new: "map_of S n = None \<Longrightarrow> AList.update n x S = S @ [(n, x)]"
  by (induction S) (auto split: if_splits)

lemma create_index_spec:
  assumes "set_repr S (map_of docs)" "docs_list_ok docs" "all_unique S (map_of docs)"
  shows "case create_index spec docs S of
      Inr (Created, S') \<Rightarrow> specs_of S' = specs_of S @ [(is_name spec, spec)] \<and> set_repr S' (map_of docs) \<and>
        all_unique S' (map_of docs)
    | Inr (Exists, S') \<Rightarrow> S' = S \<and> (\<exists>old. map_of (specs_of S) (is_name spec) = Some old \<and> sameDefinition old spec)
    | Inl e \<Rightarrow> e = StorageError IndexConflict \<or> e = StorageError DuplicateKey \<and> \<not> unique_in spec (map_of docs)"
proof (cases "map_of S (is_name spec)")
  case None
  have base: "bulk_repr (new_field_index spec) Map.empty" "fx_spec (new_field_index spec) = spec"
    using index_repr_new[of spec] by (simp_all add: index_repr_def new_field_index_def)
  have "unique_in spec Map.empty" by (simp add: unique_in_def)
  then have load: "case load_documents docs (new_field_index spec) of
      None \<Rightarrow> \<not> unique_in spec (map_of docs)
    | Some fx \<Rightarrow> bulk_repr fx (map_of docs) \<and> fx_spec fx = spec \<and> unique_in spec (map_of docs)"
    using load_documents_spec[OF base(1) assms(2)] unfolding base(2) empty_map_add by simp
  show ?thesis
  proof (cases "load_documents docs (new_field_index spec)")
    case None
    with \<open>map_of S (is_name spec) = None\<close> load show ?thesis by (simp add: create_index_def)
  next
    case (Some fx)
    let ?S = "S @ [(is_name spec, finishBulk fx)]"
    have fx: "index_repr (finishBulk fx) (map_of docs)" "fx_spec (finishBulk fx) = spec" "unique_in spec (map_of docs)"
      using load Some finishBulk_repr by (auto simp: finishBulk_def)
    have "is_name spec \<notin> fst ` set S" using None by (simp add: map_of_eq_None_iff)
    then have "set_repr ?S (map_of docs)"
      using assms(1) fx(1) unfolding set_repr_def fam_repr_def by auto
    moreover have sp: "specs_of ?S = specs_of S @ [(is_name spec, spec)]" using fx(2) by (simp add: specs_of_def)
    moreover have "all_unique ?S (map_of docs)"
      using assms(3) fx(3) unfolding all_unique_def sp by auto
    ultimately show ?thesis using None Some by (simp add: create_index_def alist_update_new)
  qed
next
  case (Some fx)
  then have "map_of (specs_of S) (is_name spec) = Some (fx_spec fx)"
    by (induction S) (auto simp: specs_of_def split: if_splits)
  with Some show ?thesis by (simp add: create_index_def)
qed

lemma rebuild_repr:
  assumes "docs_list_ok docs"
  shows "index_repr (rebuild spec docs) (map_of docs)" "fx_spec (rebuild spec docs) = spec"
proof -
  have fold: "bulk_repr (foldl (\<lambda>fx (key, d). index_add key d True fx) fx docs) (D ++ map_of docs) \<and>
      fx_spec (foldl (\<lambda>fx (key, d). index_add key d True fx) fx docs) = fx_spec fx"
    if "bulk_repr fx D" "docs_list_ok docs" "\<forall>k \<in> fst ` set docs. D k = None" for fx D docs
    using that
  proof (induction docs arbitrary: fx D)
    case (Cons kd docs)
    obtain k d where kd: "kd = (k, d)" by fastforce
    note ok = docs_list_ok_Cons[OF Cons.prems(2)[unfolded kd]]
    let ?D = "D(k \<mapsto> d)" and ?fx = "index_add k d True fx"
    have "\<forall>k \<in> fst ` set docs. ?D k = None" using Cons.prems(2,3) kd by (auto simp: docs_list_ok_def image_iff)
    moreover have "bulk_repr ?fx ?D" using Cons.prems(1,3) kd ok(2) by (intro bulk_repr_add) simp_all
    ultimately show ?case
      using Cons.IH[OF _ ok(1), of ?fx ?D] unfolding kd ok(3)[of D] index_add_fields foldl_Cons prod.case by blast
  qed simp
  have "bulk_repr (new_field_index spec) Map.empty" "fx_spec (new_field_index spec) = spec"
    using index_repr_new[of spec] by (simp_all add: index_repr_def new_field_index_def)
  then have "bulk_repr (foldl (\<lambda>fx (key, d). index_add key d True fx) (new_field_index spec) docs) (map_of docs)"
    "fx_spec (foldl (\<lambda>fx (key, d). index_add key d True fx) (new_field_index spec) docs) = spec"
    using fold[OF _ assms, of "new_field_index spec" Map.empty] by simp_all
  then show "index_repr (rebuild spec docs) (map_of docs)" "fx_spec (rebuild spec docs) = spec"
    using finishBulk_repr unfolding rebuild_def by (blast, simp add: finishBulk_def)
qed

lemma unique_in_iff:
  assumes "index_repr fx D" "is_unique (fx_spec fx)"
  shows "unique_in (fx_spec fx) D \<longleftrightarrow>
    \<not> (\<exists>key docs. (key, docs) \<in> set (ic_values (contents fx)) \<and> 1 < length docs) \<and>
    (is_sparse (fx_spec fx) \<or> \<not> 1 < length (ic_missing (contents fx)))"
proof -
  have r: "values_repr fx D" "missing_repr fx D" "fx_segments fx = split_path (is_field (fx_spec fx))"
    using assms(1) by (simp_all add: index_repr_def bulk_repr_def)
  let ?segs = "fx_segments fx"
  have "clash (fx_spec fx) x y \<longleftrightarrow>
      (\<exists>key v w. resolveField x ?segs = Some v \<and> canonicalKey v = key \<and> resolveField y ?segs = Some w \<and> canonicalKey w = key) \<or>
      (\<not> is_sparse (fx_spec fx) \<and> resolveField x ?segs = None \<and> resolveField y ?segs = None)" for x y
    using assms(2) r(3) by (auto simp: clash_def split: option.splits)
  note c = this
  have "\<not> unique_in (fx_spec fx) D \<longleftrightarrow>
      (\<exists>key. \<exists>a \<in> holders ?segs D key. \<exists>b \<in> holders ?segs D key. a \<noteq> b) \<or>
      (\<not> is_sparse (fx_spec fx) \<and> (\<exists>a \<in> lacking ?segs D. \<exists>b \<in> lacking ?segs D. a \<noteq> b))"
    (is "_ \<longleftrightarrow> ?h \<or> ?l")
  proof
    assume "\<not> unique_in (fx_spec fx) D"
    then obtain a b x y where "a \<noteq> b" "D a = Some x" "D b = Some y" "clash (fx_spec fx) x y"
      unfolding unique_in_def by blast
    then show "?h \<or> ?l" unfolding c holders_def lacking_def by blast
  next
    assume "?h \<or> ?l"
    then obtain a b x y where "a \<noteq> b" "D a = Some x" "D b = Some y" "clash (fx_spec fx) x y"
      unfolding c holders_def lacking_def by blast
    then show "\<not> unique_in (fx_spec fx) D" unfolding unique_in_def by blast
  qed
  then show ?thesis using several_values[OF r(1)] several_missing[OF r(2)] by auto
qed

lemma validate_index_spec:
  assumes "index_repr live (map_of docs)" "docs_list_ok docs"
  shows "validate_index docs live = [] \<longleftrightarrow> unique_in (fx_spec live) (map_of docs)"
proof -
  let ?fresh = "rebuild (fx_spec live) docs"
  note fresh = rebuild_repr[OF assms(2), of "fx_spec live"]
  note eq = contents_unique[OF assms(1) fresh(1)] fresh(2)
  have d: "distinct (map fst (ic_values (contents ?fresh)))"
    using fresh(1) by (intro contents_values(1)[where D = "map_of docs"]) (simp add: index_repr_def bulk_repr_def)
  have "validate_index docs live = [] \<longleftrightarrow>
      (is_unique (fx_spec live) \<longrightarrow>
        \<not> (\<exists>key docs'. (key, docs') \<in> set (ic_values (contents ?fresh)) \<and> 1 < length docs') \<and>
        (is_sparse (fx_spec live) \<or> \<not> 1 < length (ic_missing (contents ?fresh))))"
    unfolding validate_index_def Let_def using eq d
    by (auto simp: no_problems[OF assms(1)] split: option.splits)
  moreover have "unique_in (fx_spec live) (map_of docs)" if "\<not> is_unique (fx_spec live)"
    using that by (simp add: unique_in_def clash_def)
  ultimately show ?thesis using unique_in_iff[OF fresh(1)] fresh(2) by auto
qed

lemma validate_indexes_spec:
  assumes "set_repr S (map_of docs)" "docs_list_ok docs"
  shows "validate_indexes docs S = [] \<longleftrightarrow> all_unique S (map_of docs)"
proof -
  have "validate_index docs fx = [] \<longleftrightarrow> unique_in (fx_spec fx) (map_of docs)" if "(n, fx) \<in> set S" for n fx
    using that assms(1) by (intro validate_index_spec assms(2)) (auto simp: set_repr_def fam_repr_def)
  then show ?thesis by (force simp: validate_indexes_def all_indexes_def all_unique_def specs_of_def)
qed

section \<open>Properties\<close>

definition sample_spec :: index_spec where
  "sample_spec = \<lparr>is_name = js ''a_1'', is_field = js ''a'', is_direction = 1, is_unique = True, is_sparse = False\<rparr>"

definition sample_set :: index_set where
  "sample_set = [(js ''a_1'', new_field_index sample_spec)]"

lemma sample_set_repr: "set_repr sample_set Map.empty" "docs_ok Map.empty" "all_unique sample_set Map.empty"
  using index_repr_new[of sample_spec]
  by (simp_all add: set_repr_def fam_repr_def sample_set_def docs_ok_def all_unique_def unique_in_def)

lemma storable_empty: "storable (DDocument [])"
  by (simp add: storable_def MAX_PAYLOAD_SIZE_def)

text \<open>C6: a batch of document changes is applied to every index of a collection, or to none. It
  fails exactly when the documents after the batch would break a unique index, and then every
  index still represents the documents before it. Otherwise every index represents the documents
  after it, and the rollback it returns brings them back to the documents before it.\<close>

theorem batch_all_or_nothing:
  assumes "set_repr S D" and "docs_ok D" and "all_unique S D" and "changes_ok D changes"
  shows "case applyChanges changes S of
      (Inr undo, S') \<Rightarrow> all_unique S (changed D changes) \<and> set_repr S' (changed D changes) \<and> set_repr (rollback undo S') D
    | (Inl e, S') \<Rightarrow> e = StorageError DuplicateKey \<and> \<not> all_unique S (changed D changes) \<and> set_repr S' D"
  using applyChanges_spec[OF assms] by (cases "applyChanges changes S") (auto split: sum.splits)

theorem batch_all_or_nothing_witness:
  "case applyChanges [\<lparr>dc_key = js ''k'', dc_before = None, dc_after = Some []\<rparr>] sample_set of
      (Inr undo, S') \<Rightarrow> all_unique sample_set (changed Map.empty [\<lparr>dc_key = js ''k'', dc_before = None, dc_after = Some []\<rparr>]) \<and>
        set_repr S' (changed Map.empty [\<lparr>dc_key = js ''k'', dc_before = None, dc_after = Some []\<rparr>]) \<and>
        set_repr (rollback undo S') Map.empty
    | (Inl e, S') \<Rightarrow> e = StorageError DuplicateKey \<and>
        \<not> all_unique sample_set (changed Map.empty [\<lparr>dc_key = js ''k'', dc_before = None, dc_after = Some []\<rparr>]) \<and>
        set_repr S' Map.empty"
  by (rule batch_all_or_nothing[OF sample_set_repr]) (simp add: changes_ok_def storable_empty)







end
