(* ===== verification/Planner.thy ===== *)
theory Planner
  imports Index_Set Custom_Id
begin

text \<open>
  \<open>packages/storage/src/indexing/planner.ts\<close>: the choice between a scan of the collection, a
  lookup by id and an index scan. The planner only narrows the candidates; the theorem is that it
  never loses a document the filter matches.
\<close>

datatype index_access =
    AccessEqual "doc_value list"
  | AccessRange value_class "index_bound option" "index_bound option"

datatype query_plan =
    CollScan int
  | IdLookup "doc_key list" int
  | IxScan field_index index_access bool int

primrec plan_estimated :: "query_plan \<Rightarrow> int" where
  "plan_estimated (CollScan n) = n"
| "plan_estimated (IdLookup ks n) = n"
| "plan_estimated (IxScan fx access via n) = n"

datatype plan_constraint =
    CEqual doc_value
  | CIn "doc_value list"
  | CLower doc_value bool
  | CUpper doc_value bool

type_synonym constraint_map = "(js_string \<times> plan_constraint list) list"

section \<open>Collecting constraints\<close>

definition operator_constraints :: "js_string \<Rightarrow> doc_value \<Rightarrow> plan_constraint list" where
  "operator_constraints operator operand =
     (if operator = js ''$eq'' then [CEqual operand]
      else if operator = js ''$in'' then (case operand of DArray vs \<Rightarrow> [CIn vs] | _ \<Rightarrow> [])
      else if operator = js ''$gt'' \<or> operator = js ''$gte'' then [CLower operand (operator = js ''$gte'')]
      else if operator = js ''$lt'' \<or> operator = js ''$lte'' then [CUpper operand (operator = js ''$lte'')]
      else [])"

definition field_constraints :: "doc_value \<Rightarrow> plan_constraint list" where
  "field_constraints v =
     (case v of
        DDocument operators \<Rightarrow>
          if isOperatorDocument v then concat (map (\<lambda>(operator, operand). operator_constraints operator operand) operators)
          else [CEqual v]
      | _ \<Rightarrow> [CEqual v])"

fun collect :: "document \<Rightarrow> constraint_map \<Rightarrow> constraint_map"
  and collect_clauses :: "doc_value list \<Rightarrow> constraint_map \<Rightarrow> constraint_map"
where
  "collect [] out = out"
| "collect ((field, v) # rest) out =
     (if field = js ''$and'' then
        (case v of DArray clauses \<Rightarrow> collect rest (collect_clauses clauses out) | _ \<Rightarrow> collect rest out)
      else if starts_dollar field then collect rest out
      else collect rest (AList.update field (map_get out field @ field_constraints v) out))"
| "collect_clauses [] out = out"
| "collect_clauses (clause # clauses) out =
     (case clause of
        DDocument d \<Rightarrow> collect_clauses clauses (collect d out)
      | _ \<Rightarrow> collect_clauses clauses out)"

section \<open>Plans\<close>

definition id_keys :: "doc_value list \<Rightarrow> doc_key list" where
  "id_keys vs = List.map_filter (\<lambda>v. case v of DCustomId bs \<Rightarrow> Some (toHexString bs) | _ \<Rightarrow> None) vs"

definition plan_id_keys :: "plan_constraint \<Rightarrow> doc_key list option" where
  "plan_id_keys c =
     (case c of
        CEqual v \<Rightarrow> Some (case v of DCustomId bs \<Rightarrow> [toHexString bs] | _ \<Rightarrow> [])
      | CIn vs \<Rightarrow> Some (foldl (\<lambda>seen k. set_add k seen) [] (id_keys vs))
      | _ \<Rightarrow> None)"

fun plan_id_loop :: "doc_key list option \<Rightarrow> plan_constraint list \<Rightarrow> doc_key list option" where
  "plan_id_loop best [] = best"
| "plan_id_loop best (c # cs) =
     plan_id_loop
       (case plan_id_keys c of
          None \<Rightarrow> best
        | Some keys \<Rightarrow>
            (case best of None \<Rightarrow> Some keys | Some b \<Rightarrow> if length keys < length b then Some keys else best))
       cs"

definition planId :: "plan_constraint list option \<Rightarrow> query_plan option" where
  "planId constraints =
     (case constraints of
        None \<Rightarrow> None
      | Some cs \<Rightarrow> map_option (\<lambda>best. IdLookup best (int (length best))) (plan_id_loop None cs))"

definition tighter_lower :: "index_bound option \<Rightarrow> index_bound \<Rightarrow> index_bound" where
  "tighter_lower current next =
     (case current of
        None \<Rightarrow> next
      | Some b \<Rightarrow>
          (let comparison = compareSameClass (ib_value next) (ib_value b) in
           if comparison = 0 then (if ib_inclusive next then b else next)
           else if comparison > 0 then next else b))"

definition tighter_upper :: "index_bound option \<Rightarrow> index_bound \<Rightarrow> index_bound" where
  "tighter_upper current next =
     (case current of
        None \<Rightarrow> next
      | Some b \<Rightarrow>
          (let comparison = compareSameClass (ib_value next) (ib_value b) in
           if comparison = 0 then (if ib_inclusive next then b else next)
           else if comparison < 0 then next else b))"

text \<open>The loop of \<open>planRange\<close>: \<open>None\<close> when it returns from inside.\<close>

fun range_loop ::
  "value_class option \<times> index_bound option \<times> index_bound option \<Rightarrow> plan_constraint list \<Rightarrow>
   (value_class option \<times> index_bound option \<times> index_bound option) option" where
  "range_loop st [] = Some st"
| "range_loop (valueClass, lower, upper) (c # cs) =
     (case c of
        CLower v inclusive \<Rightarrow>
          (case valueClassOf v of
             None \<Rightarrow> None
           | Some operandClass \<Rightarrow>
               if valueClass \<noteq> None \<and> valueClass \<noteq> Some operandClass then None
               else range_loop (Some operandClass,
                      Some (tighter_lower lower \<lparr>ib_value = v, ib_inclusive = inclusive\<rparr>), upper) cs)
      | CUpper v inclusive \<Rightarrow>
          (case valueClassOf v of
             None \<Rightarrow> None
           | Some operandClass \<Rightarrow>
               if valueClass \<noteq> None \<and> valueClass \<noteq> Some operandClass then None
               else range_loop (Some operandClass, lower,
                      Some (tighter_upper upper \<lparr>ib_value = v, ib_inclusive = inclusive\<rparr>)) cs)
      | _ \<Rightarrow> range_loop (valueClass, lower, upper) cs)"

definition planRange :: "field_index \<Rightarrow> plan_constraint list \<Rightarrow> query_plan option" where
  "planRange fx cs =
     (case range_loop (None, None, None) cs of
        Some (Some valueClass, lower, upper) \<Rightarrow>
          Some (IxScan fx (AccessRange valueClass lower upper) False (estimateRange fx valueClass lower upper))
      | _ \<Rightarrow> None)"

definition distinct_values :: "doc_value list \<Rightarrow> doc_value list" where
  "distinct_values vs = map snd (foldl (\<lambda>m v. AList.update (canonicalKey v) v m) [] vs)"

definition constraint_plans :: "field_index \<Rightarrow> plan_constraint \<Rightarrow> query_plan list" where
  "constraint_plans fx c =
     (case c of
        CEqual v \<Rightarrow> [IxScan fx (AccessEqual [v]) False (estimateEqual fx v)]
      | CIn vs \<Rightarrow>
          if hasArrayValues fx then []
          else (let values = distinct_values vs in
                [IxScan fx (AccessEqual values) True (sum_list (map (estimateEqual fx) values))])
      | _ \<Rightarrow> [])"

definition planIndex :: "field_index \<Rightarrow> plan_constraint list \<Rightarrow> query_plan list" where
  "planIndex fx cs =
     concat (map (constraint_plans fx) cs) @ (case planRange fx cs of None \<Rightarrow> [] | Some p \<Rightarrow> [p])"

definition better_plan :: "query_plan \<Rightarrow> query_plan \<Rightarrow> bool" where
  "better_plan candidate best \<longleftrightarrow>
     plan_estimated candidate < plan_estimated best \<or>
     (plan_estimated candidate = plan_estimated best \<and>
      (case (best, candidate) of
         (IxScan _ (AccessRange _ _ _) _ _, IxScan _ (AccessEqual _) _ _) \<Rightarrow> True
       | _ \<Rightarrow> False))"

definition choose_plan :: "query_plan \<Rightarrow> query_plan \<Rightarrow> query_plan" where
  "choose_plan best candidate = (if better_plan candidate best then candidate else best)"

definition planQuery :: "document \<Rightarrow> field_index list \<Rightarrow> nat \<Rightarrow> query_plan" where
  "planQuery filter_doc indexes totalDocuments =
     (if totalDocuments = 0 then CollScan (int totalDocuments)
      else
        (let constraints = collect filter_doc [] in
         case planId (map_of constraints (js ''_id'')) of
           Some idPlan \<Rightarrow> idPlan
         | None \<Rightarrow>
             foldl (\<lambda>best fx. case map_of constraints (is_field (fx_spec fx)) of
                 None \<Rightarrow> best
               | Some cs \<Rightarrow> foldl choose_plan best (planIndex fx cs))
               (CollScan (int totalDocuments)) indexes))"

text \<open>The candidates of a plan; \<open>None\<close> for a collection scan, where the code throws.\<close>

definition candidateKeys :: "query_plan \<Rightarrow> doc_key list option" where
  "candidateKeys plan =
     (case plan of
        IdLookup keys _ \<Rightarrow> Some (foldl (\<lambda>seen k. set_add k seen) [] keys)
      | CollScan _ \<Rightarrow> None
      | IxScan fx (AccessRange valueClass lower upper) _ _ \<Rightarrow> Some (lookupRange fx valueClass lower upper)
      | IxScan fx (AccessEqual values) _ _ \<Rightarrow>
          Some (foldl (\<lambda>result v. foldl (\<lambda>result key. set_add key result) result
                  (case lookupEqual fx v of None \<Rightarrow> [] | Some ks \<Rightarrow> ks)) [] values))"

section \<open>The constraints a matching document satisfies\<close>

primrec constraint_holds :: "plan_constraint \<Rightarrow> doc_value \<Rightarrow> bool" where
  "constraint_holds (CEqual e) v \<longleftrightarrow> canonicalKey v = canonicalKey e"
| "constraint_holds (CIn es) v \<longleftrightarrow> (\<exists>e \<in> set es. canonicalKey v = canonicalKey e \<or>
     (case v of DArray elements \<Rightarrow> (\<exists>x \<in> set elements. canonicalKey x = canonicalKey e) | _ \<Rightarrow> False))"
| "constraint_holds (CLower e inclusive) v \<longleftrightarrow>
     (\<exists>c. compareValues v e = Some c \<and> (if inclusive then 0 \<le> c else 0 < c))"
| "constraint_holds (CUpper e inclusive) v \<longleftrightarrow>
     (\<exists>c. compareValues v e = Some c \<and> (if inclusive then c \<le> 0 else c < 0))"

definition all_hold :: "document \<Rightarrow> constraint_map \<Rightarrow> bool" where
  "all_hold d out \<longleftrightarrow> (\<forall>field. \<forall>c \<in> set (map_get out field).
     \<exists>v. resolveField d (split_path field) = Some v \<and> constraint_holds c v)"

definition predicate_implies :: "field_predicate \<Rightarrow> plan_constraint \<Rightarrow> bool" where
  "predicate_implies p c \<longleftrightarrow>
     (\<forall>field. (\<forall>v. field = Some v \<longrightarrow> storable v) \<longrightarrow> p field \<longrightarrow> (\<exists>v. field = Some v \<and> constraint_holds c v))"

lemma equality_implies: "compileEqualityPredicate e = Inr p \<Longrightarrow> predicate_implies p (CEqual e)"
  by (auto simp: compileEqualityPredicate_def predicate_implies_def canonicalEquals_key canonicalKey_def[of e]
      split: option.splits)

lemma comparison_implies:
  assumes "compileComparisonPredicate operator e = Inr p"
  shows "operator = js ''$gt'' \<or> operator = js ''$gte'' \<Longrightarrow> predicate_implies p (CLower e (operator = js ''$gte''))"
    and "operator = js ''$lt'' \<or> operator = js ''$lte'' \<Longrightarrow> predicate_implies p (CUpper e (operator = js ''$lte''))"
  using assms
  by (auto simp: compileComparisonPredicate_def invalidFilter_def predicate_implies_def holds_comparison_def js_def
      split: option.splits if_splits)

lemma mapR_encode_key:
  "mapR encodeDocumentValue vs = Inr cs \<Longrightarrow> set cs = canonicalKey ` set vs"
  by (induction vs arbitrary: cs) (auto simp: canonicalKey_def)

lemma membership_implies: "compileMembershipPredicate (DArray es) False = Inr p \<Longrightarrow> predicate_implies p (CIn es)"
  unfolding predicate_implies_def
proof clarify
  fix field
  assume p: "compileMembershipPredicate (DArray es) False = Inr p" "p field"
    and st: "\<forall>v. field = Some v \<longrightarrow> storable v"
  then obtain cs v where cs: "mapR encodeDocumentValue es = Inr cs" "field = Some v" "member_matches cs v"
    by (auto simp: compileMembershipPredicate_Inr split: option.splits)
  have v: "storable v" using st cs(2) by simp
  have "constraint_holds (CIn es) v"
    using cs(3) mapR_encode_key[OF cs(1)] v storable_element
    by (auto simp: member_matches_def list_ex_iff canonicalEquals_key split: doc_value.splits)
  then show "\<exists>v. field = Some v \<and> constraint_holds (CIn es) v" using cs(2) by blast
qed

lemma operator_implies:
  assumes "compile_operator operator operand = Inr p" "c \<in> set (operator_constraints operator operand)"
  shows "predicate_implies p c"
  using assms equality_implies comparison_implies membership_implies
  by (auto simp: operator_constraints_def js_def split: if_splits doc_value.splits)

lemma operators_imply:
  "compile_operators ops = Inr ps \<Longrightarrow> c \<in> set (concat (map (\<lambda>(operator, operand). operator_constraints operator operand) ops)) \<Longrightarrow>
   \<exists>p \<in> set ps. predicate_implies p c"
proof (induction ops arbitrary: ps)
  case (Cons o1 ops)
  then show ?case using operator_implies by (cases o1) fastforce
qed simp

lemma compileField_implies:
  assumes "compileField path v = Inr f" "c \<in> set (field_constraints v)"
  shows "cf_segments f = split_path path \<and> (\<exists>p \<in> set (cf_predicates f). predicate_implies p c)"
  using assms operators_imply equality_implies
  by (cases v)
     (fastforce simp: compileField_def field_constraints_def compileFieldPath_def compileOperatorDocument_def
        invalidFilter_def Let_def split: if_splits)+

lemma all_hold_update:
  assumes "all_hold d out" "\<And>c. c \<in> set cs \<Longrightarrow> \<exists>v. resolveField d (split_path field) = Some v \<and> constraint_holds c v"
  shows "all_hold d (AList.update field (map_get out field @ cs) out)"
  using assms by (auto simp: all_hold_def)

lemma collect_holds:
  assumes d: "storable (DDocument d)"
  shows "compile_entries f = Inr c \<Longrightarrow> clauses_filter c d \<Longrightarrow> all_hold d out \<Longrightarrow> all_hold d (collect f out)"
    and "compile_clauses vs = Inr cs \<Longrightarrow> list_all (\<lambda>m. m d) cs \<Longrightarrow> all_hold d out \<Longrightarrow> all_hold d (collect_clauses vs out)"
proof (induction f out and vs out arbitrary: c and cs rule: collect_collect_clauses.induct)
  case (2 field v rest out)
  show ?case
  proof (cases "starts_dollar field")
    case True
    then obtain l fields logical where l: "compileLogicalOperator field v = Inr l"
      "compile_entries rest = Inr (fields, logical)" "c = (fields, l # logical)"
      using "2.prems"(1) by auto
    have rest: "clauses_filter (fields, logical) d" "l d" using "2.prems"(2) l(3) by (simp_all add: clauses_filter_def)
    show ?thesis
    proof (cases "field = js ''$and''")
      case field: True
      with l(1) obtain vs cs where vs: "v = DArray vs" "compile_clauses vs = Inr cs" "l = combine_clauses field cs"
        by (cases v) (auto simp: invalidFilter_def split: if_splits)
      then have "list_all (\<lambda>m. m d) cs" using rest(2) field by (simp add: combine_clauses_def)
      then have "all_hold d (collect_clauses vs out)" using "2.IH"(9)[OF field vs(1) vs(2) _ "2.prems"(3)] by blast
      then have "all_hold d (collect rest (collect_clauses vs out))"
        using "2.IH"(10)[OF field vs(1) l(2) rest(1)] by blast
      then show ?thesis using field vs(1) by simp
    next
      case field: False
      then show ?thesis using "2.IH"(13)[OF field True l(2) rest(1) "2.prems"(3)] True by simp
    qed
  next
    case False
    then obtain g fields logical where g: "compileField field v = Inr g"
      "compile_entries rest = Inr (fields, logical)" "c = (g # fields, logical)"
      using "2.prems"(1) by auto
    have rest: "clauses_filter (fields, logical) d"
      "list_all (\<lambda>p. p (resolveField d (cf_segments g))) (cf_predicates g)"
      using "2.prems"(2) g(3) by (simp_all add: clauses_filter_def matchesCompiledFilter_def)
    have "\<exists>w. resolveField d (split_path field) = Some w \<and> constraint_holds k w" if "k \<in> set (field_constraints v)" for k
      using compileField_implies[OF g(1) that] rest(2) resolveField_storable[OF d]
      by (auto simp: list_all_iff predicate_implies_def)
    then have "all_hold d (AList.update field (map_get out field @ field_constraints v) out)"
      by (rule all_hold_update[OF "2.prems"(3)])
    moreover have "field \<noteq> js ''$and''" using False by (auto simp: starts_dollar_def js_def of_char_def)
    ultimately show ?thesis using "2.IH"(14)[OF _ False g(2) rest(1)] False by simp
  qed
next
  case (4 clause clauses out)
  then obtain f where f: "clause = DDocument f" by (cases clause) (auto simp: invalidFilter_def)
  with 4 show ?case by auto
qed auto

lemma collect_sound:
  assumes "compileFilter (DDocument f) = Inr m" "m d" "storable (DDocument d)"
  shows "all_hold d (collect f [])"
  using assms collect_holds(1)[OF assms(3), of f _ "[]"] by (auto simp: compileFilter_Inr all_hold_def)

section \<open>No plan loses a matching document\<close>

text \<open>\<open>covers p k\<close>: the candidates of the plan include the key, or the plan scans everything.\<close>

definition covers :: "query_plan \<Rightarrow> doc_key \<Rightarrow> bool" where
  "covers p k \<longleftrightarrow> (case candidateKeys p of None \<Rightarrow> True | Some ks \<Rightarrow> k \<in> set ks)"

lemma foldl_lookup_set:
  "set (foldl (\<lambda>result v. foldl (\<lambda>result key. set_add key result) result (g v)) r vs) = set r \<union> (\<Union>v \<in> set vs. set (g v))"
  by (induction vs arbitrary: r) (auto simp: foldl_set_add)

lemma covers_simps [simp]:
  "covers (CollScan n) k"
  "covers (IdLookup ks n) k \<longleftrightarrow> k \<in> set ks"
  "covers (IxScan fx (AccessRange c lower upper) via n) k \<longleftrightarrow> k \<in> set (lookupRange fx c lower upper)"
  "covers (IxScan fx (AccessEqual vs) via n) k \<longleftrightarrow>
     (\<exists>v \<in> set vs. k \<in> set (case lookupEqual fx v of None \<Rightarrow> [] | Some ks \<Rightarrow> ks))"
  by (simp_all add: covers_def candidateKeys_def foldl_set_add foldl_lookup_set)

lemma covers_equal:
  assumes "index_repr fx D"
  shows "covers (IxScan fx (AccessEqual vs) via n) k \<longleftrightarrow>
    (\<exists>v \<in> set vs. k \<in> holders (split_path (is_field (fx_spec fx))) D (canonicalKey v))"
  using lookupEqual_set[OF assms] by simp

subsection \<open>Lookups by id\<close>

lemma canonicalKey_id:
  assumes "canonicalKey (DCustomId bs) = canonicalKey e" "storable (DCustomId bs)"
  shows "e = DCustomId bs"
proof -
  have "canonicalKey e = enc_bytes (DCustomId bs)" using assms by (simp add: canonicalKey_storable)
  moreover have "enc_bytes (DCustomId bs) \<noteq> []" by (simp add: byte1_def)
  ultimately have enc: "encodeDocumentValue e = Inr (enc_bytes (DCustomId bs))"
    by (auto simp: canonicalKey_def split: sum.splits)
  then have eq: "enc_bytes e = enc_bytes (DCustomId bs)" and "encodable 0 e" by (simp_all add: encodeDocumentValue_Inr)
  then have "e \<noteq> DOther" by auto
  then have "value_kind e = value_kind (DCustomId bs)" using enc_bytes_kind[of e] enc_bytes_kind[of "DCustomId bs"] eq by simp
  then obtain bs' where e: "e = DCustomId bs'" by (cases e) auto
  then show ?thesis using eq by simp
qed

lemma set_id_keys: "set (id_keys vs) = {toHexString bs | bs. DCustomId bs \<in> set vs}"
  by (induction vs) (auto simp: id_keys_def List.map_filter_simps split: doc_value.splits)

lemma plan_id_keys_hold:
  assumes "plan_id_keys c = Some ks" "constraint_holds c (DCustomId bs)" "storable (DCustomId bs)"
  shows "toHexString bs \<in> set ks"
proof (cases c)
  case (CEqual e)
  then have "e = DCustomId bs" using assms(2,3) by (intro canonicalKey_id) simp_all
  with CEqual assms(1) show ?thesis by (auto simp: plan_id_keys_def)
next
  case (CIn es)
  then obtain e where e: "e \<in> set es" "canonicalKey (DCustomId bs) = canonicalKey e" using assms(2) by auto
  then have "DCustomId bs \<in> set es" using canonicalKey_id[OF e(2) assms(3)] by simp
  with CIn assms(1) show ?thesis by (auto simp: plan_id_keys_def foldl_set_add set_id_keys)
qed (use assms(1) in \<open>simp_all add: plan_id_keys_def\<close>)

lemma plan_id_loop_hold:
  assumes "plan_id_loop best cs = Some ks" "\<forall>c \<in> set cs. constraint_holds c (DCustomId bs)" "storable (DCustomId bs)"
    "\<And>b. best = Some b \<Longrightarrow> toHexString bs \<in> set b"
  shows "toHexString bs \<in> set ks"
  using assms
proof (induction best cs rule: plan_id_loop.induct)
  case (2 best c cs)
  show ?case
  proof (rule "2.IH")
    show "toHexString bs \<in> set b" if "(case plan_id_keys c of None \<Rightarrow> best
        | Some keys \<Rightarrow> (case best of None \<Rightarrow> Some keys | Some b \<Rightarrow> if length keys < length b then Some keys else best)) = Some b" for b
      using that "2.prems"(2-4) plan_id_keys_hold[of c _ bs] by (auto split: option.splits if_splits)
  qed (use "2.prems" in auto)
qed auto

lemma planId_covers:
  assumes "planId (map_of out (js ''_id'')) = Some p" "all_hold d out" "map_of d (js ''_id'') = Some (DCustomId bs)"
    "storable (DCustomId bs)"
  shows "covers p (toHexString bs)"
proof -
  obtain cs ks where cs: "map_of out (js ''_id'') = Some cs" "plan_id_loop None cs = Some ks"
    "p = IdLookup ks (int (length ks))"
    using assms(1) by (auto simp: planId_def split: option.splits)
  have "split_path (js ''_id'') = [js ''_id'']" by (simp add: split_path_def js_def of_char_def)
  then have "\<forall>c \<in> set cs. constraint_holds c (DCustomId bs)"
    using assms(2,3) cs(1) unfolding all_hold_def map_get_def by (metis option.inject option.simps(5) resolveField.simps(2))
  then show ?thesis using plan_id_loop_hold[OF cs(2) _ assms(4)] cs(3) by simp
qed

subsection \<open>Index scans\<close>

definition bounds_ok :: "doc_value \<Rightarrow> value_class option \<times> index_bound option \<times> index_bound option \<Rightarrow> bool" where
  "bounds_ok v st = (case st of (vc, lower, upper) \<Rightarrow>
     (vc = None \<longrightarrow> lower = None \<and> upper = None) \<and> (\<forall>c. vc = Some c \<longrightarrow> valueClassOf v = Some c) \<and>
     (\<forall>b. lower = Some b \<longrightarrow> valueClassOf (ib_value b) = vc) \<and>
     (\<forall>b. upper = Some b \<longrightarrow> valueClassOf (ib_value b) = vc) \<and> in_bounds lower upper v)"

lemma compareValues_class:
  assumes "compareValues v e = Some r" "valueClassOf e = Some c"
  shows "valueClassOf v = Some c" "compareSameClass v e = r"
  using assms compareValues_other_class[OF assms(2), of v] by (auto simp: compareSameClass_def)

lemma bounds_ok_lower:
  assumes "bounds_ok v (vc, lower, upper)" "constraint_holds (CLower e inclusive) v" "valueClassOf e = Some c"
    "vc = None \<or> vc = Some c"
  shows "bounds_ok v (Some c, Some (tighter_lower lower \<lparr>ib_value = e, ib_inclusive = inclusive\<rparr>), upper)"
proof -
  obtain r where r: "compareValues v e = Some r" "if inclusive then 0 \<le> r else 0 < r" using assms(2) by auto
  note v = compareValues_class[OF r(1) assms(3)]
  have "tighter_lower lower \<lparr>ib_value = e, ib_inclusive = inclusive\<rparr> \<in> insert \<lparr>ib_value = e, ib_inclusive = inclusive\<rparr> (set_option lower)"
    by (auto simp: tighter_lower_def Let_def split: option.splits)
  then show ?thesis using assms r(2) v by (auto simp: bounds_ok_def in_bounds_def Let_def split: option.splits if_splits)
qed

lemma bounds_ok_upper:
  assumes "bounds_ok v (vc, lower, upper)" "constraint_holds (CUpper e inclusive) v" "valueClassOf e = Some c"
    "vc = None \<or> vc = Some c"
  shows "bounds_ok v (Some c, lower, Some (tighter_upper upper \<lparr>ib_value = e, ib_inclusive = inclusive\<rparr>))"
proof -
  obtain r where r: "compareValues v e = Some r" "if inclusive then r \<le> 0 else r < 0" using assms(2) by auto
  note v = compareValues_class[OF r(1) assms(3)]
  have "tighter_upper upper \<lparr>ib_value = e, ib_inclusive = inclusive\<rparr> \<in> insert \<lparr>ib_value = e, ib_inclusive = inclusive\<rparr> (set_option upper)"
    by (auto simp: tighter_upper_def Let_def split: option.splits)
  then show ?thesis using assms r(2) v by (auto simp: bounds_ok_def in_bounds_def Let_def split: option.splits if_splits)
qed

lemma range_loop_bounds:
  assumes "range_loop st cs = Some st'" "\<forall>c \<in> set cs. constraint_holds c v" "bounds_ok v st"
  shows "bounds_ok v st'"
  using assms
proof (induction st cs rule: range_loop.induct)
  case (2 vc lower upper c cs)
  show ?case
  proof (cases c)
    case (CLower e i)
    with "2.prems"(1) obtain k where k: "valueClassOf e = Some k" "vc = None \<or> vc = Some k"
      "range_loop (Some k, Some (tighter_lower lower \<lparr>ib_value = e, ib_inclusive = i\<rparr>), upper) cs = Some st'"
      by (auto split: option.splits if_splits)
    have "bounds_ok v (Some k, Some (tighter_lower lower \<lparr>ib_value = e, ib_inclusive = i\<rparr>), upper)"
      using "2.prems"(2) CLower by (intro bounds_ok_lower[OF "2.prems"(3) _ k(1,2)]) simp
    then show ?thesis using "2.IH"(3)[OF CLower k(1) _ k(3)] "2.prems"(2) k(2) by auto
  next
    case (CUpper e i)
    with "2.prems"(1) obtain k where k: "valueClassOf e = Some k" "vc = None \<or> vc = Some k"
      "range_loop (Some k, lower, Some (tighter_upper upper \<lparr>ib_value = e, ib_inclusive = i\<rparr>)) cs = Some st'"
      by (auto split: option.splits if_splits)
    have "bounds_ok v (Some k, lower, Some (tighter_upper upper \<lparr>ib_value = e, ib_inclusive = i\<rparr>))"
      using "2.prems"(2) CUpper by (intro bounds_ok_upper[OF "2.prems"(3) _ k(1,2)]) simp
    then show ?thesis using "2.IH"(4)[OF CUpper k(1) _ k(3)] "2.prems"(2) k(2) by auto
  qed (use 2 in auto)
qed simp

lemma set_distinct_values:
  "canonicalKey ` set (distinct_values vs) = canonicalKey ` set vs"
proof -
  have "(\<forall>(k, v) \<in> set m. k = canonicalKey v) \<Longrightarrow>
      (\<forall>(k, v) \<in> set (foldl (\<lambda>m v. AList.update (canonicalKey v) v m) m vs). k = canonicalKey v) \<and>
      fst ` set (foldl (\<lambda>m v. AList.update (canonicalKey v) v m) m vs) = fst ` set m \<union> canonicalKey ` set vs" for m
  proof (induction vs arbitrary: m)
    case (Cons v vs)
    have "\<forall>(k, w) \<in> set (AList.update (canonicalKey v) v m). k = canonicalKey w"
      using Cons.prems set_alist_update[of "canonicalKey v" v m] by blast
    moreover have "fst ` set (AList.update (canonicalKey v) v m) = insert (canonicalKey v) (fst ` set m)"
      by (simp add: dom_update)
    ultimately show ?case using Cons.IH[of "AList.update (canonicalKey v) v m"] by simp
  qed simp
  from this[of "[]"] have m: "\<forall>(k, v) \<in> set (foldl (\<lambda>m v. AList.update (canonicalKey v) v m) [] vs). k = canonicalKey v"
    "fst ` set (foldl (\<lambda>m v. AList.update (canonicalKey v) v m) [] vs) = canonicalKey ` set vs" by simp_all
  have "canonicalKey ` snd ` M = fst ` M" if "\<forall>(k, v) \<in> M. k = canonicalKey v" for M
    using that by force
  from this[OF m(1)] m(2) show ?thesis by (simp add: distinct_values_def)
qed

lemma planIndex_covers:
  assumes "index_repr fx D" "D k = Some d" "p \<in> set (planIndex fx cs)"
    "resolveField d (split_path (is_field (fx_spec fx))) = Some v" "\<forall>c \<in> set cs. constraint_holds c v"
  shows "covers p k"
proof -
  let ?segs = "split_path (is_field (fx_spec fx))"
  consider (c) c where "c \<in> set cs" "p \<in> set (constraint_plans fx c)" | (r) "planRange fx cs = Some p"
    using assms(3) by (auto simp: planIndex_def split: option.splits)
  then show ?thesis
  proof cases
    case c
    have held: "constraint_holds c v" using assms(5) c(1) by blast
    have no_array: "\<not> isArray v" if "\<not> hasArrayValues fx"
    proof
      assume "isArray v"
      then have "k \<in> array_holders ?segs D" using assms(2,4) by (simp add: array_holders_def)
      moreover have "card (array_holders ?segs D) = 0" "finite (array_holders ?segs D)"
        using that assms(1) sets_finite(1)[of D ?segs]
        by (simp_all add: hasArrayValues_def index_repr_def bulk_repr_def counts_repr_def)
      ultimately show False by simp
    qed
    show ?thesis
    proof (cases c)
      case (CEqual e)
      then show ?thesis using c(2) held assms(2,4) unfolding constraint_plans_def
        by (auto simp: covers_equal[OF assms(1)] holders_def simp del: covers_simps)
    next
      case (CIn es)
      with c(2) no_array held obtain e where e: "e \<in> set es" "canonicalKey v = canonicalKey e"
        and p: "p = IxScan fx (AccessEqual (distinct_values es)) True (sum_list (map (estimateEqual fx) (distinct_values es)))"
        by (auto simp: constraint_plans_def Let_def isArray_def split: if_splits doc_value.splits)
      have "canonicalKey v \<in> canonicalKey ` set (distinct_values es)" using e set_distinct_values[of es] by simp
      then show ?thesis using assms(2,4) unfolding p covers_equal[OF assms(1)] holders_def by fastforce
    qed (use c(2) in \<open>simp_all add: constraint_plans_def\<close>)
  next
    case r
    then obtain c lower upper n where p: "range_loop (None, None, None) cs = Some (Some c, lower, upper)"
      "p = IxScan fx (AccessRange c lower upper) False n"
      by (auto simp: planRange_def split: option.splits)
    have "bounds_ok v (None, None, None)" by (simp add: bounds_ok_def in_bounds_def)
    then have b: "bounds_ok v (Some c, lower, upper)" using range_loop_bounds[OF p(1) assms(5)] by blast
    then have "\<forall>b. lower = Some b \<longrightarrow> valueClassOf (ib_value b) = Some c"
      "\<forall>b. upper = Some b \<longrightarrow> valueClassOf (ib_value b) = Some c" by (auto simp: bounds_ok_def)
    from lookupRange_set[OF assms(1) this] b assms(2,4) show ?thesis
      by (auto simp: p(2) bounds_ok_def)
  qed
qed

text \<open>The documents of a collection as the planner sees them: the key is the id in hexadecimal.\<close>

definition keyed_by_id :: "doc_map \<Rightarrow> bool" where
  "keyed_by_id D \<longleftrightarrow> (\<forall>k d. D k = Some d \<longrightarrow>
     (\<exists>bs. map_of d (js ''_id'') = Some (DCustomId bs) \<and> k = toHexString bs))"

lemma foldl_choose_plan: "foldl choose_plan best ps \<in> insert best (set ps)"
proof (induction ps arbitrary: best)
  case (Cons p ps)
  from Cons[of "choose_plan best p"] show ?case by (auto simp: choose_plan_def split: if_splits)
qed simp

lemma planQuery_covers:
  assumes "compileFilter (DDocument f) = Inr m" "set_repr S D" "docs_ok D" "keyed_by_id D" "D k = Some d" "m d"
  shows "covers (planQuery f (all_indexes S) n) k"
proof -
  have st: "storable (DDocument d)" using assms(3,5) by (auto simp: docs_ok_def intro: ranI)
  note h = collect_sound[OF assms(1,6) st]
  obtain bs where bs: "map_of d (js ''_id'') = Some (DCustomId bs)" "k = toHexString bs"
    using assms(4,5) unfolding keyed_by_id_def by blast
  let ?out = "collect f []"
  let ?step = "\<lambda>best fx. case map_of ?out (is_field (fx_spec fx)) of None \<Rightarrow> best
      | Some cs \<Rightarrow> foldl choose_plan best (planIndex fx cs)"
  have step: "covers (?step best fx) k" if "covers best k" "fx \<in> set (all_indexes S)" for best fx
  proof (cases "map_of ?out (is_field (fx_spec fx))")
    case (Some cs)
    have rep: "index_repr fx D" using that(2) assms(2) by (auto simp: all_indexes_def set_repr_def fam_repr_def)
    have "covers p k" if "p \<in> set (planIndex fx cs)" for p
    proof (cases cs)
      case Nil
      with that show ?thesis by (simp add: planIndex_def planRange_def)
    next
      case (Cons c cs')
      have "\<exists>v. resolveField d (split_path (is_field (fx_spec fx))) = Some v \<and> constraint_holds c v" if "c \<in> set cs" for c
        using h Some that unfolding all_hold_def map_get_def by (metis option.simps(5))
      then obtain v where "resolveField d (split_path (is_field (fx_spec fx))) = Some v" "\<forall>c \<in> set cs. constraint_holds c v"
        using Cons by (metis list.set_intros(1) option.inject)
      then show ?thesis by (rule planIndex_covers[OF rep assms(5) \<open>p \<in> set (planIndex fx cs)\<close>])
    qed
    then show ?thesis using foldl_choose_plan[of best "planIndex fx cs"] that(1) Some by auto
  qed (simp add: that)
  have fold: "covers (foldl ?step best fxs) k" if "covers best k" "set fxs \<subseteq> set (all_indexes S)" for best fxs
    using that by (induction fxs arbitrary: best) (simp_all add: step)
  show ?thesis
  proof (cases "planId (map_of ?out (js ''_id''))")
    case None
    then show ?thesis using fold[of "CollScan (int n)" "all_indexes S"] by (simp add: planQuery_def)
  next
    case (Some p)
    have "storable (DCustomId bs)" using storable_field[OF st bs(1)] .
    then have "covers p k" using planId_covers[OF Some h bs(1)] bs(2) by simp
    then show ?thesis using Some by (simp add: planQuery_def)
  qed
qed

section \<open>Properties\<close>

text \<open>C12: the planner never loses a result. Whatever plan it chooses for a filter over the indexes of a
  collection, every document the filter matches is among the candidates of the plan.\<close>

theorem plan_keeps_matches:
  assumes "compileFilter (DDocument f) = Inr matches" and "set_repr S D" and "docs_ok D" and "keyed_by_id D"
    and "D k = Some d" and "matches d" and "candidateKeys (planQuery f (all_indexes S) n) = Some ks"
  shows "k \<in> set ks"
  using planQuery_covers[OF assms(1-6), of n] assms(7) by (simp add: covers_def)

definition sample_id :: bytes where
  "sample_id = replicate 16 0"

definition sample_doc :: document where
  "sample_doc = [(js ''_id'', DCustomId sample_id)]"

lemma sample_doc_storable: "storable (DDocument sample_doc)"
  by (simp add: storable_def sample_doc_def sample_id_def js_def of_char_def text_encode_def utf8_bytes_def is_high_def
      is_low_def enc_prefixed_def MAX_PAYLOAD_SIZE_def MAX_DOCUMENT_DEPTH_def)

lemma sample_doc_filter: "\<exists>m. compileFilter (DDocument sample_doc) = Inr m \<and> m sample_doc"
proof -
  let ?bs = "enc_bytes (DCustomId sample_id)"
  have e: "encodeDocumentValue (DCustomId sample_id) = Inr ?bs"
    by (rule storable_encode, rule storable_field[OF sample_doc_storable, of "js ''_id''"]) (simp add: sample_doc_def)
  have "compile_entries sample_doc =
      Inr ([\<lparr>cf_segments = [js ''_id''], cf_predicates = [\<lambda>f. case f of None \<Rightarrow> False | Some v \<Rightarrow> canonicalEquals v ?bs]\<rparr>], [])"
    using e by (simp add: sample_doc_def compileField_def compileFieldPath_def compileEqualityPredicate_def
        split_path_def starts_dollar_def js_def of_char_def del: enc_bytes.simps)
  moreover have "encodeDocument sample_doc = Inr (enc_bytes (DDocument sample_doc))"
    using storable_encode[OF sample_doc_storable] by (simp add: encodeDocument_def del: enc_bytes.simps)
  moreover have "clauses_filter ([\<lparr>cf_segments = [js ''_id''],
      cf_predicates = [\<lambda>f. case f of None \<Rightarrow> False | Some v \<Rightarrow> canonicalEquals v ?bs]\<rparr>], []) sample_doc"
    using e by (simp add: clauses_filter_def matchesCompiledFilter_def sample_doc_def canonicalEquals_def del: enc_bytes.simps)
  ultimately show ?thesis unfolding compileFilter_Inr by blast
qed

theorem plan_keeps_matches_witness:
  "\<exists>ks. candidateKeys (planQuery sample_doc (all_indexes []) 1) = Some ks \<and> toHexString sample_id \<in> set ks"
proof -
  obtain m where m: "compileFilter (DDocument sample_doc) = Inr m" "m sample_doc" using sample_doc_filter by blast
  obtain ks where ks: "candidateKeys (planQuery sample_doc (all_indexes []) 1) = Some ks"
    by (simp add: planQuery_def sample_doc_def field_constraints_def planId_def plan_id_keys_def candidateKeys_def
        starts_dollar_def js_def of_char_def)
  have "toHexString sample_id \<in> set ks"
    by (rule plan_keeps_matches[OF m(1) _ _ _ _ m(2) ks, where D = "[toHexString sample_id \<mapsto> sample_doc]"])
       (simp_all add: set_repr_def fam_repr_def docs_ok_def sample_doc_storable keyed_by_id_def, simp add: sample_doc_def)
  with ks show ?thesis by blast
qed

end
