(* ===== verification/Update.thy ===== *)
theory Update
  imports Sort_Order
begin

text \<open>
  \<open>packages/storage/src/update.ts\<close>. An update is parsed into instructions; each one walks to
  the parent of its path and changes one field there. The source mutates the document, which
  is discarded when an instruction throws, so an instruction is a function from documents to
  documents or a failure. The locale \<open>field_op\<close> is the contract all operators share: they
  change the field they name, as a function of its old value, and nothing else.
\<close>

datatype update_operator = OpSet | OpUnset | OpInc | OpMin | OpMax | OpPush | OpPull | OpAddToSet

definition update_operator_of :: "js_string \<Rightarrow> update_operator option" where
  "update_operator_of s =
     map_of [(js ''$set'', OpSet), (js ''$unset'', OpUnset), (js ''$inc'', OpInc), (js ''$min'', OpMin),
       (js ''$max'', OpMax), (js ''$push'', OpPush), (js ''$pull'', OpPull),
       (js ''$addToSet'', OpAddToSet)] s"

record instruction =
  ins_operator :: update_operator
  ins_segments :: "js_string list"
  ins_operand :: doc_value

definition invalidUpdate :: "failure + 'a" where
  "invalidUpdate = Inl (StorageError InvalidUpdate)"

fun overlaps :: "js_string list \<Rightarrow> js_string list \<Rightarrow> bool" where
  "overlaps (l # ls) (r # rs) = (l = r \<and> overlaps ls rs)"
| "overlaps _ _ = True"

definition reserved_segment :: "js_string \<Rightarrow> bool" where
  "reserved_segment segment \<longleftrightarrow> segment = [] \<or> starts_dollar segment \<or> segment = js ''__proto__''"

section \<open>Parsing\<close>

definition parsePath :: "js_string \<Rightarrow> failure + js_string list" where
  "parsePath path =
     (let segments = split_path path in
      if list_ex reserved_segment segments then invalidUpdate
      else if hd segments = js ''_id'' then Inl (StorageError ImmutableId)
      else Inr segments)"

definition validateOperand :: "update_operator \<Rightarrow> doc_value \<Rightarrow> failure + doc_value" where
  "validateOperand operator operand =
     (case operator of
        OpInc \<Rightarrow> (case operand of
            DBigInt _ \<Rightarrow> Inr operand
          | DNumber n \<Rightarrow> if isFinite n then Inr operand else invalidUpdate
          | _ \<Rightarrow> invalidUpdate)
      | OpMin \<Rightarrow> if isArray operand \<or> isPlainDocument operand then invalidUpdate else Inr operand
      | OpMax \<Rightarrow> if isArray operand \<or> isPlainDocument operand then invalidUpdate else Inr operand
      | _ \<Rightarrow> Inr operand)"

fun parse_operands :: "update_operator \<Rightarrow> document \<Rightarrow> failure + instruction list" where
  "parse_operands operator [] = Inr []"
| "parse_operands operator ((path, operand) # rest) =
     bindR (parsePath path) (\<lambda>segments.
     bindR (validateOperand operator operand) (\<lambda>operand.
     bindR (parse_operands operator rest) (\<lambda>is.
       Inr (\<lparr>ins_operator = operator, ins_segments = segments, ins_operand = operand\<rparr> # is))))"

fun parse_operators :: "document \<Rightarrow> failure + instruction list" where
  "parse_operators [] = Inr []"
| "parse_operators ((name, operands) # rest) =
     (case update_operator_of name of
        None \<Rightarrow> invalidUpdate
      | Some operator \<Rightarrow>
          (case operands of
             DDocument ops \<Rightarrow>
               if ops = [] then invalidUpdate
               else bindR (parse_operands operator ops) (\<lambda>is.
                 bindR (parse_operators rest) (\<lambda>js. Inr (is @ js)))
           | _ \<Rightarrow> invalidUpdate))"

fun paths_conflict :: "instruction list \<Rightarrow> bool" where
  "paths_conflict [] = False"
| "paths_conflict (a # is) =
     (list_ex (\<lambda>b. overlaps (ins_segments a) (ins_segments b)) is \<or> paths_conflict is)"

definition parseUpdate :: "doc_value \<Rightarrow> failure + instruction list" where
  "parseUpdate update =
     (case update of
        DDocument u \<Rightarrow>
          if u = [] then invalidUpdate
          else bindR (parse_operators u) (\<lambda>is. if paths_conflict is then invalidUpdate else Inr is)
      | _ \<Rightarrow> invalidUpdate)"

section \<open>Applying one instruction\<close>

text \<open>
  \<open>update_path\<close> is \<open>resolveParent\<close> followed by the action on the parent: missing parents are
  created when \<open>create\<close> is set, and without it a missing parent leaves the document alone.
\<close>

fun update_path ::
  "bool \<Rightarrow> (js_string \<Rightarrow> document \<Rightarrow> failure + document) \<Rightarrow> js_string list \<Rightarrow> document \<Rightarrow> failure + document" where
  "update_path create act [] d = Inr d"
| "update_path create act [key] d = act key d"
| "update_path create act (segment # segments) d =
     (case map_of d segment of
        None \<Rightarrow>
          if create then bindR (update_path create act segments []) (\<lambda>child. Inr (obj_set segment (DDocument child) d))
          else Inr d
      | Some (DDocument child) \<Rightarrow>
          bindR (update_path create act segments child) (\<lambda>child. Inr (obj_set segment (DDocument child) d))
      | Some _ \<Rightarrow> if create then invalidUpdate else Inr d)"

definition valuesEqual :: "doc_value \<Rightarrow> doc_value \<Rightarrow> failure + bool" where
  "valuesEqual left right =
     bindR (mapErr ProtocolFailure (encodeDocumentValue left)) (\<lambda>a.
     bindR (mapErr ProtocolFailure (encodeDocumentValue right)) (\<lambda>b. Inr (a = b)))"

fun some_equal :: "doc_value list \<Rightarrow> doc_value \<Rightarrow> failure + bool" where
  "some_equal [] operand = Inr False"
| "some_equal (x # xs) operand =
     bindR (valuesEqual x operand) (\<lambda>b. if b then Inr True else some_equal xs operand)"

fun remove_equal :: "doc_value list \<Rightarrow> doc_value \<Rightarrow> failure + doc_value list" where
  "remove_equal [] operand = Inr []"
| "remove_equal (x # xs) operand =
     bindR (valuesEqual x operand) (\<lambda>b.
     bindR (remove_equal xs operand) (\<lambda>ys. Inr (if b then ys else x # ys)))"

definition act_set :: "doc_value \<Rightarrow> js_string \<Rightarrow> document \<Rightarrow> failure + document" where
  "act_set operand key parent = Inr (obj_set key operand parent)"

definition act_unset :: "js_string \<Rightarrow> document \<Rightarrow> failure + document" where
  "act_unset key parent = Inr (if hasOwn parent key then AList.delete key parent else parent)"

definition applyInc :: "doc_value \<Rightarrow> js_string \<Rightarrow> document \<Rightarrow> failure + document" where
  "applyInc operand key parent =
     (case map_of parent key of
        None \<Rightarrow> Inr (obj_set key operand parent)
      | Some current \<Rightarrow>
          (case (current, operand) of
             (DNumber a, DNumber b) \<Rightarrow>
               if \<not> isFinite (num_add a b) then invalidUpdate
               else Inr (obj_set key (DNumber (num_add a b)) parent)
           | (DBigInt a, DBigInt b) \<Rightarrow> Inr (obj_set key (DBigInt (a + b)) parent)
           | _ \<Rightarrow> invalidUpdate))"

definition applyExtremum :: "bool \<Rightarrow> doc_value \<Rightarrow> js_string \<Rightarrow> document \<Rightarrow> failure + document" where
  "applyExtremum minimum operand key parent =
     (case map_of parent key of
        None \<Rightarrow> Inr (obj_set key operand parent)
      | Some current \<Rightarrow>
          (let comparison = compareDocumentValues operand current in
           if (if minimum then comparison < 0 else comparison > 0)
           then Inr (obj_set key operand parent) else Inr parent))"

text \<open>\<open>getArray\<close>: the array a field holds; a missing one counts as empty.\<close>

definition getArray :: "js_string \<Rightarrow> document \<Rightarrow> failure + doc_value list" where
  "getArray key parent =
     (case map_of parent key of
        None \<Rightarrow> Inr []
      | Some (DArray vs) \<Rightarrow> Inr vs
      | Some _ \<Rightarrow> invalidUpdate)"

definition act_push :: "doc_value \<Rightarrow> js_string \<Rightarrow> document \<Rightarrow> failure + document" where
  "act_push operand key parent =
     bindR (getArray key parent) (\<lambda>vs. Inr (obj_set key (DArray (vs @ [operand])) parent))"

definition act_add_to_set :: "doc_value \<Rightarrow> js_string \<Rightarrow> document \<Rightarrow> failure + document" where
  "act_add_to_set operand key parent =
     bindR (getArray key parent) (\<lambda>vs.
     bindR (some_equal vs operand) (\<lambda>found.
       Inr (obj_set key (DArray (if found then vs else vs @ [operand])) parent)))"

definition act_pull :: "doc_value \<Rightarrow> js_string \<Rightarrow> document \<Rightarrow> failure + document" where
  "act_pull operand key parent =
     bindR (getArray key parent) (\<lambda>vs.
       if vs = [] then Inr parent
       else bindR (remove_equal vs operand) (\<lambda>ws. Inr (obj_set key (DArray ws) parent)))"

definition operator_action :: "update_operator \<Rightarrow> doc_value \<Rightarrow> js_string \<Rightarrow> document \<Rightarrow> failure + document" where
  "operator_action operator operand =
     (case operator of
        OpSet \<Rightarrow> act_set operand
      | OpUnset \<Rightarrow> act_unset
      | OpInc \<Rightarrow> applyInc operand
      | OpMin \<Rightarrow> applyExtremum True operand
      | OpMax \<Rightarrow> applyExtremum False operand
      | OpPush \<Rightarrow> act_push operand
      | OpPull \<Rightarrow> act_pull operand
      | OpAddToSet \<Rightarrow> act_add_to_set operand)"

definition applyInstruction :: "instruction \<Rightarrow> document \<Rightarrow> failure + document" where
  "applyInstruction i d =
     (let create = (ins_operator i \<noteq> OpUnset \<and> ins_operator i \<noteq> OpPull) in
      update_path create (operator_action (ins_operator i) (ins_operand i)) (ins_segments i) d)"

fun apply_instructions :: "instruction list \<Rightarrow> document \<Rightarrow> failure + document" where
  "apply_instructions [] d = Inr d"
| "apply_instructions (i # is) d = bindR (applyInstruction i d) (apply_instructions is)"

type_synonym compiled_update = "document \<Rightarrow> failure + document"

definition compileUpdate :: "doc_value \<Rightarrow> failure + compiled_update" where
  "compileUpdate update = bindR (parseUpdate update) (\<lambda>is. Inr (apply_instructions is))"

section \<open>Upserts\<close>

definition extractEquality :: "doc_value \<Rightarrow> doc_value option" where
  "extractEquality v =
     (case v of
        DDocument d \<Rightarrow>
          if \<not> list_ex (\<lambda>p. starts_dollar (fst p)) d then Some v
          else (case d of [(k, x)] \<Rightarrow> if k = js ''$eq'' then Some x else None | _ \<Rightarrow> None)
      | _ \<Rightarrow> Some v)"

fun seed_fields :: "document \<Rightarrow> js_string list list \<Rightarrow> document \<Rightarrow> failure + document" where
  "seed_fields [] assigned seed = Inr seed"
| "seed_fields ((key, v) # rest) assigned seed =
     (if starts_dollar key then seed_fields rest assigned seed
      else case extractEquality v of
        None \<Rightarrow> seed_fields rest assigned seed
      | Some x \<Rightarrow>
          (let segments = split_path key in
           if list_ex reserved_segment segments \<or> list_ex (\<lambda>other. overlaps other segments) assigned
           then invalidUpdate
           else bindR (update_path True (act_set x) segments seed)
                  (seed_fields rest (assigned @ [segments]))))"

definition seedDocumentFromFilter :: "document \<Rightarrow> failure + document" where
  "seedDocumentFromFilter filter_doc = seed_fields filter_doc [] []"

section \<open>The contract of the operators\<close>

locale field_op =
  fixes create :: bool
    and act :: "js_string \<Rightarrow> document \<Rightarrow> failure + document"
    and effect :: "doc_value option \<Rightarrow> failure + doc_value option"
  assumes act_field: "act key p = Inr p' \<Longrightarrow> effect (map_of p key) = Inr (map_of p' key)"
    and act_frame: "act key p = Inr p' \<Longrightarrow> k \<noteq> key \<Longrightarrow> map_of p' k = map_of p k"
    and skip_missing: "\<not> create \<Longrightarrow> effect None = Inr None"
begin

lemma resolveField_Nil [simp]: "resolveField [] segments = None"
  by (cases "([] :: document, segments)" rule: resolveField.cases) simp_all

text \<open>The field at the path gets the effect of the operator on its old value.\<close>

lemma path_effect:
  "update_path create act segments d = Inr d' \<Longrightarrow> segments \<noteq> [] \<Longrightarrow>
   effect (resolveField d segments) = Inr (resolveField d' segments)"
proof (induction segments arbitrary: d d' rule: induct_list012)
  case (2 key)
  then show ?case by (simp add: act_field)
next
  case (3 s s' ss)
  show ?case
  proof (cases "map_of d s")
    case None
    with "3.prems" "3.IH"(2)[of "[]"] show ?thesis by (auto simp: skip_missing split: if_splits)
  next
    case (Some v)
    show ?thesis
    proof (cases "\<exists>c. v = DDocument c")
      case True
      with Some 3 show ?thesis by auto
    next
      case False
      then have "resolveField d (s # s' # ss) = None" using Some by (auto split: doc_value.splits)
      moreover have "\<not> create \<and> d' = d" using Some False "3.prems"
        by (auto simp: invalidUpdate_def split: doc_value.splits if_splits)
      ultimately show ?thesis by (simp add: skip_missing)
    qed
  qed
qed simp

text \<open>Every path that does not overlap keeps its value.\<close>

lemma path_frame:
  "update_path create act segments d = Inr d' \<Longrightarrow> \<not> overlaps segments other \<Longrightarrow>
   resolveField d' other = resolveField d other"
proof (induction segments arbitrary: d d' other rule: induct_list012)
  case (2 key)
  then obtain k ks where o: "other = k # ks" "k \<noteq> key" by (cases other) auto
  with "2.prems" have "map_of d' k = map_of d k" by (auto intro: act_frame)
  then show ?case unfolding o by (cases ks) (simp_all split: option.splits doc_value.splits)
next
  case (3 s s' ss)
  then obtain k ks where o: "other = k # ks" by (cases other) auto
  show ?case
  proof (cases "k = s")
    case True
    with "3.prems"(2) o have no: "\<not> overlaps (s' # ss) ks" by simp
    then obtain k' ks' where ks: "ks = k' # ks'" by (cases ks) auto
    show ?thesis
    proof (cases "map_of d s")
      case None
      with 3 True no o ks show ?thesis by (auto split: if_splits)
    next
      case (Some v)
      show ?thesis
      proof (cases "\<exists>c. v = DDocument c")
        case c: True
        with Some 3 True no o ks show ?thesis by auto
      next
        case False
        then have "d' = d" using Some "3.prems"(1)
          by (auto simp: invalidUpdate_def split: doc_value.splits if_splits)
        then show ?thesis by simp
      qed
    qed
  next
    case False
    with "3.prems"(1) have "map_of d' k = map_of d k"
      by (auto simp: invalidUpdate_def split: option.splits doc_value.splits if_splits)
    then show ?thesis unfolding o by (cases ks) (simp_all split: option.splits doc_value.splits)
  qed
qed simp

end

text \<open>What each operator does to a field, as a function of the old value alone.\<close>

definition array_effect ::
  "(doc_value list \<Rightarrow> failure + doc_value option) \<Rightarrow> doc_value option \<Rightarrow> failure + doc_value option" where
  "array_effect g old =
     (case old of None \<Rightarrow> g [] | Some (DArray vs) \<Rightarrow> g vs | Some _ \<Rightarrow> invalidUpdate)"

definition operator_effect :: "update_operator \<Rightarrow> doc_value \<Rightarrow> doc_value option \<Rightarrow> failure + doc_value option" where
  "operator_effect operator operand old =
     (case operator of
        OpSet \<Rightarrow> Inr (Some operand)
      | OpUnset \<Rightarrow> Inr None
      | OpInc \<Rightarrow> (case (old, operand) of
            (None, _) \<Rightarrow> Inr (Some operand)
          | (Some (DNumber a), DNumber b) \<Rightarrow>
              if isFinite (num_add a b) then Inr (Some (DNumber (num_add a b))) else invalidUpdate
          | (Some (DBigInt a), DBigInt b) \<Rightarrow> Inr (Some (DBigInt (a + b)))
          | _ \<Rightarrow> invalidUpdate)
      | OpMin \<Rightarrow> (case old of None \<Rightarrow> Inr (Some operand)
          | Some v \<Rightarrow> Inr (Some (if compareDocumentValues operand v < 0 then operand else v)))
      | OpMax \<Rightarrow> (case old of None \<Rightarrow> Inr (Some operand)
          | Some v \<Rightarrow> Inr (Some (if compareDocumentValues operand v > 0 then operand else v)))
      | OpPush \<Rightarrow> array_effect (\<lambda>vs. Inr (Some (DArray (vs @ [operand])))) old
      | OpAddToSet \<Rightarrow> array_effect (\<lambda>vs. bindR (some_equal vs operand) (\<lambda>found.
            Inr (Some (DArray (if found then vs else vs @ [operand]))))) old
      | OpPull \<Rightarrow> if old = None then Inr None
          else array_effect (\<lambda>vs. bindR (remove_equal vs operand) (\<lambda>ws. Inr (Some (DArray ws)))) old)"

lemmas act_defs = act_set_def act_unset_def applyInc_def applyExtremum_def act_push_def act_add_to_set_def
  act_pull_def getArray_def

lemma delete_map_of_other: "k \<noteq> key \<Longrightarrow> map_of (AList.delete key p) k = map_of p k"
  by simp

interpretation set_op: field_op True "operator_action OpSet operand" "operator_effect OpSet operand"
  by unfold_locales (auto simp: operator_action_def operator_effect_def act_defs)

interpretation unset_op: field_op False "operator_action OpUnset operand" "operator_effect OpUnset operand"
  by unfold_locales (auto simp: operator_action_def operator_effect_def act_defs hasOwn_map_of)

interpretation inc_op: field_op True "operator_action OpInc operand" "operator_effect OpInc operand"
  by unfold_locales
     (auto simp: operator_action_def operator_effect_def act_defs invalidUpdate_def
        split: option.splits doc_value.splits if_splits)

interpretation min_op: field_op True "operator_action OpMin operand" "operator_effect OpMin operand"
  by unfold_locales
     (auto simp: operator_action_def operator_effect_def act_defs Let_def split: option.splits if_splits)

interpretation max_op: field_op True "operator_action OpMax operand" "operator_effect OpMax operand"
  by unfold_locales
     (auto simp: operator_action_def operator_effect_def act_defs Let_def split: option.splits if_splits)

lemma getArray_effect: "getArray key p = Inr vs \<Longrightarrow> array_effect g (map_of p key) = g vs"
  by (auto simp: getArray_def array_effect_def invalidUpdate_def split: option.splits doc_value.splits)

lemma getArray_present: "getArray key p = Inr vs \<Longrightarrow> vs \<noteq> [] \<Longrightarrow> map_of p key \<noteq> None"
  by (cases "map_of p key") (auto simp: getArray_def)

lemma getArray_empty: "getArray key p = Inr [] \<Longrightarrow> map_of p key = None \<or> map_of p key = Some (DArray [])"
  by (auto simp: getArray_def invalidUpdate_def split: option.splits doc_value.splits)

interpretation push_op: field_op True "operator_action OpPush operand" "operator_effect OpPush operand"
  by unfold_locales (auto simp: operator_action_def operator_effect_def act_push_def getArray_effect)

interpretation add_to_set_op: field_op True "operator_action OpAddToSet operand" "operator_effect OpAddToSet operand"
  by unfold_locales (auto simp: operator_action_def operator_effect_def act_add_to_set_def getArray_effect)

interpretation pull_op: field_op False "operator_action OpPull operand" "operator_effect OpPull operand"
proof unfold_locales
  fix key p p'
  assume "operator_action OpPull operand key p = Inr p'"
  then obtain vs where vs: "getArray key p = Inr vs"
    "(vs = [] \<and> p' = p) \<or> (vs \<noteq> [] \<and> (\<exists>ws. remove_equal vs operand = Inr ws \<and> p' = obj_set key (DArray ws) p))"
    by (auto simp: operator_action_def act_pull_def split: if_splits)
  show "operator_effect OpPull operand (map_of p key) = Inr (map_of p' key)"
    using vs(2)
  proof
    assume "vs = [] \<and> p' = p"
    with getArray_empty[of key p] vs(1) show ?thesis by (auto simp: operator_effect_def array_effect_def)
  next
    assume "vs \<noteq> [] \<and> (\<exists>ws. remove_equal vs operand = Inr ws \<and> p' = obj_set key (DArray ws) p)"
    with getArray_present[OF vs(1)] show ?thesis by (auto simp: operator_effect_def getArray_effect[OF vs(1)])
  qed
  show "map_of p' k = map_of p k" if "k \<noteq> key" for k using vs(2) that by auto
qed (simp add: operator_effect_def)

lemma applyInstruction_effect:
  assumes "applyInstruction i d = Inr d'" and "ins_segments i \<noteq> []"
  shows "operator_effect (ins_operator i) (ins_operand i) (resolveField d (ins_segments i)) =
    Inr (resolveField d' (ins_segments i))"
  using assms set_op.path_effect unset_op.path_effect inc_op.path_effect min_op.path_effect max_op.path_effect
    push_op.path_effect add_to_set_op.path_effect pull_op.path_effect
  by (cases "ins_operator i") (simp_all add: applyInstruction_def)

lemma applyInstruction_frame:
  assumes "applyInstruction i d = Inr d'" and "\<not> overlaps (ins_segments i) other"
  shows "resolveField d' other = resolveField d other"
  using assms set_op.path_frame unset_op.path_frame inc_op.path_frame min_op.path_frame max_op.path_frame
    push_op.path_frame add_to_set_op.path_frame pull_op.path_frame
  by (cases "ins_operator i") (simp_all add: applyInstruction_def)

section \<open>Whole updates\<close>

lemma overlaps_sym: "overlaps a b = overlaps b a"
  by (induction a b rule: overlaps.induct) auto

lemma overlaps_refl [simp]: "overlaps a a"
  by (induction a) simp_all

lemma split_path_ne [simp]: "split_path path \<noteq> []"
  unfolding split_path_def by (cases path) (auto split: list.splits)

text \<open>What parsing guarantees of an instruction.\<close>

definition instruction_ok :: "instruction \<Rightarrow> bool" where
  "instruction_ok i \<longleftrightarrow> ins_segments i \<noteq> [] \<and> hd (ins_segments i) \<noteq> js ''_id'' \<and>
     \<not> list_ex reserved_segment (ins_segments i)"

lemma parse_operands_ok: "parse_operands operator ops = Inr is \<Longrightarrow> list_all instruction_ok is"
  by (induction operator ops arbitrary: "is" rule: parse_operands.induct)
     (auto simp: parsePath_def invalidUpdate_def instruction_ok_def Let_def split: if_splits)

lemma parse_operators_ok: "parse_operators u = Inr is \<Longrightarrow> list_all instruction_ok is"
  by (induction u arbitrary: "is" rule: parse_operators.induct)
     (auto simp: invalidUpdate_def parse_operands_ok split: option.splits doc_value.splits if_splits)

lemma parseUpdate_ok: "parseUpdate u = Inr is \<Longrightarrow> list_all instruction_ok is \<and> \<not> paths_conflict is"
  by (auto simp: parseUpdate_def invalidUpdate_def parse_operators_ok split: doc_value.splits if_splits)

lemma apply_instructions_frame:
  "apply_instructions is d = Inr d' \<Longrightarrow> \<forall>i \<in> set is. \<not> overlaps (ins_segments i) other \<Longrightarrow>
   resolveField d' other = resolveField d other"
proof (induction "is" arbitrary: d)
  case (Cons i "is")
  then obtain d1 where "applyInstruction i d = Inr d1" "apply_instructions is d1 = Inr d'" by auto
  with Cons applyInstruction_frame[of i d d1 other] show ?case by simp
qed simp

lemma apply_instructions_effect:
  "apply_instructions is d = Inr d' \<Longrightarrow> list_all instruction_ok is \<Longrightarrow> \<not> paths_conflict is \<Longrightarrow> i \<in> set is \<Longrightarrow>
   operator_effect (ins_operator i) (ins_operand i) (resolveField d (ins_segments i)) =
     Inr (resolveField d' (ins_segments i))"
proof (induction "is" arbitrary: d)
  case (Cons j "is")
  then obtain d1 where d1: "applyInstruction j d = Inr d1" "apply_instructions is d1 = Inr d'" by auto
  have apart: "\<not> overlaps (ins_segments j) (ins_segments b)" if "b \<in> set is" for b
    using Cons.prems(3) that by (auto simp: list_ex_iff)
  show ?case
  proof (cases "i \<in> set is")
    case True
    then have "resolveField d1 (ins_segments i) = resolveField d (ins_segments i)"
      using applyInstruction_frame[OF d1(1)] apart by simp
    with Cons.IH[OF d1(2)] Cons.prems True show ?thesis by simp
  next
    case False
    with Cons.prems have ij: "i = j" by simp
    have "operator_effect (ins_operator j) (ins_operand j) (resolveField d (ins_segments j)) =
        Inr (resolveField d1 (ins_segments j))"
      using applyInstruction_effect[OF d1(1)] Cons.prems(2) by (simp add: instruction_ok_def)
    moreover have "\<forall>b \<in> set is. \<not> overlaps (ins_segments b) (ins_segments j)"
      using apart overlaps_sym by blast
    then have "resolveField d' (ins_segments j) = resolveField d1 (ins_segments j)"
      by (rule apply_instructions_frame[OF d1(2)])
    ultimately show ?thesis by (simp add: ij)
  qed
qed simp

lemma apply_instructions_id:
  assumes "apply_instructions is d = Inr d'" and "list_all instruction_ok is"
  shows "map_of d' (js ''_id'') = map_of d (js ''_id'')"
proof -
  have "\<not> overlaps (ins_segments i) [js ''_id'']" if "i \<in> set is" for i
    using assms(2) that by (cases "ins_segments i") (auto simp: list_all_iff instruction_ok_def)
  then show ?thesis using apply_instructions_frame[OF assms(1), of "[js ''_id'']"] by simp
qed

section \<open>Updates keep documents well typed\<close>

lemma wf_delete: "wf_value (DDocument p) \<Longrightarrow> wf_value (DDocument (AList.delete key p))"
  by (auto simp: list_all_iff AList.delete_eq distinct_map_filter)

lemma remove_equal_subset: "remove_equal vs operand = Inr ws \<Longrightarrow> set ws \<subseteq> set vs"
  by (induction vs arbitrary: ws) (auto split: if_splits)

lemma wf_getArray: "getArray key p = Inr vs \<Longrightarrow> wf_value (DDocument p) \<Longrightarrow> list_all wf_value vs"
  by (auto simp: getArray_def invalidUpdate_def list_all_iff split: option.splits doc_value.splits
      dest!: wf_value_DDocument_get)

lemma operator_action_wf:
  assumes "operator_action operator operand key p = Inr p'" and "wf_value (DDocument p)" and "wf_value operand"
  shows "wf_value (DDocument p')"
proof -
  have set: "wf_value (DDocument (obj_set key v p))" if "wf_value v" for v
    using assms(2) that by (rule wf_value_obj_set)
  have fin: "isFinite n \<Longrightarrow> wf_value (DNumber n)" for n by (simp add: wf_num_def isFinite_not_isNaN)
  have arr: "list_all wf_value (vs @ [operand])" if "getArray key p = Inr vs" for vs
    using wf_getArray[OF that assms(2)] assms(3) by simp
  show ?thesis
  proof (cases operator)
    case OpUnset
    then show ?thesis using assms wf_delete[OF assms(2)]
      by (auto simp: operator_action_def act_unset_def simp del: wf_value.simps split: if_splits)
  next
    case OpInc
    then show ?thesis using assms set fin
      by (auto simp: operator_action_def applyInc_def invalidUpdate_def simp del: wf_value.simps(1,5)
          split: option.splits doc_value.splits if_splits)
  next
    case OpPull
    then obtain vs where vs: "getArray key p = Inr vs" "vs = [] \<and> p' = p \<or>
        (\<exists>ws. remove_equal vs operand = Inr ws \<and> p' = obj_set key (DArray ws) p)"
      using assms(1) by (auto simp: operator_action_def act_pull_def split: if_splits)
    moreover have "list_all wf_value ws" if "remove_equal vs operand = Inr ws" for ws
      using wf_getArray[OF vs(1) assms(2)] remove_equal_subset[OF that] by (auto simp: list_all_iff)
    ultimately show ?thesis using assms(2) set by (auto simp del: wf_value.simps(5))
  next
    case OpAddToSet
    then show ?thesis using assms set arr
      by (auto simp: operator_action_def act_add_to_set_def simp del: wf_value.simps(5) split: if_splits)
  qed (use assms set arr in \<open>auto simp: operator_action_def act_set_def applyExtremum_def act_push_def Let_def
      simp del: wf_value.simps(5) split: option.splits if_splits\<close>)
qed

lemma update_path_wf:
  assumes "\<And>key p p'. act key p = Inr p' \<Longrightarrow> wf_value (DDocument p) \<Longrightarrow> wf_value (DDocument p')"
    and "update_path create act segments d = Inr d'" and "wf_value (DDocument d)"
  shows "wf_value (DDocument d')"
  using assms(2,3)
proof (induction segments arbitrary: d d' rule: induct_list012)
  case (2 key)
  then show ?case using assms(1) by (simp del: wf_value.simps)
next
  case (3 s s' ss)
  have nil: "wf_value (DDocument [])" by simp
  have child: "wf_value (DDocument c)" if "map_of d s = Some (DDocument c)" for c
    using "3.prems"(2) that by (rule wf_value_DDocument_get)
  show ?case using "3.prems" "3.IH"(2) nil child wf_value_obj_set[OF "3.prems"(2)]
    by (auto simp: invalidUpdate_def simp del: wf_value.simps split: option.splits doc_value.splits if_splits)
qed (simp del: wf_value.simps)

lemma apply_instructions_wf:
  "apply_instructions is d = Inr d' \<Longrightarrow> \<forall>i \<in> set is. wf_value (ins_operand i) \<Longrightarrow> wf_value (DDocument d) \<Longrightarrow>
   wf_value (DDocument d')"
proof (induction "is" arbitrary: d)
  case (Cons i "is")
  then obtain d1 where d1: "applyInstruction i d = Inr d1" "apply_instructions is d1 = Inr d'" by auto
  have "wf_value (DDocument d1)"
    using d1(1) unfolding applyInstruction_def Let_def
    by (rule update_path_wf[rotated 1]) (use Cons.prems(2,3) operator_action_wf in auto)
  then show ?case using Cons.IH[OF d1(2)] Cons.prems(2) by (simp del: wf_value.simps)
qed (simp del: wf_value.simps)

section \<open>The seed of an upsert\<close>

lemma update_path_set:
  assumes "update_path True (act_set x) segments d = Inr d'" and "segments \<noteq> []"
  shows "resolveField d' segments = Some x"
    and "\<not> overlaps segments other \<Longrightarrow> resolveField d' other = resolveField d other"
  using assms set_op.path_effect[of x segments d d'] set_op.path_frame[of x segments d d' other]
  by (simp_all add: operator_action_def operator_effect_def)

lemma seed_fields_spec:
  "seed_fields fs assigned seed = Inr d \<Longrightarrow>
   (\<forall>segs \<in> set assigned. resolveField d segs = resolveField seed segs) \<and>
   (\<forall>k v x. (k, v) \<in> set fs \<longrightarrow> \<not> starts_dollar k \<longrightarrow> extractEquality v = Some x \<longrightarrow>
      resolveField d (split_path k) = Some x)"
proof (induction fs assigned seed arbitrary: d rule: seed_fields.induct)
  case (2 key v rest assigned seed)
  show ?case
  proof (cases "starts_dollar key \<or> extractEquality v = None")
    case True
    then consider "starts_dollar key" | "\<not> starts_dollar key" "extractEquality v = None" by argo
    then have "seed_fields rest assigned seed = Inr d \<and>
      ((\<forall>segs \<in> set assigned. resolveField d segs = resolveField seed segs) \<and>
       (\<forall>k v x. (k, v) \<in> set rest \<longrightarrow> \<not> starts_dollar k \<longrightarrow> extractEquality v = Some x \<longrightarrow>
          resolveField d (split_path k) = Some x))"
    proof cases
      case 1
      with "2.prems" have "seed_fields rest assigned seed = Inr d" by simp
      with "2.IH"(1)[OF 1 this] show ?thesis by blast
    next
      case 2
      with "2.prems" have "seed_fields rest assigned seed = Inr d" by simp
      with "2.IH"(2)[OF 2 this] show ?thesis by blast
    qed
    with True show ?thesis by auto
  next
    case False
    then obtain x where x: "extractEquality v = Some x" "\<not> starts_dollar key" by auto
    let ?segs = "split_path key"
    from "2.prems" x obtain s1 where ok: "\<not> list_ex (\<lambda>other. overlaps other ?segs) assigned"
      and s1: "update_path True (act_set x) ?segs seed = Inr s1" "seed_fields rest (assigned @ [?segs]) s1 = Inr d"
      and r: "\<not> (list_ex reserved_segment ?segs \<or> list_ex (\<lambda>other. overlaps other ?segs) assigned)"
      by (auto simp: Let_def invalidUpdate_def split: if_splits)
    note IH = "2.IH"(3)[OF x(2,1) refl r s1(1) s1(2)]
    have "resolveField d ?segs = Some x" using IH update_path_set(1)[OF s1(1)] by simp
    moreover have "resolveField d other = resolveField seed other" if "other \<in> set assigned" for other
      using that IH update_path_set(2)[OF s1(1), of other] ok overlaps_sym by (auto simp: list_ex_iff)
    ultimately show ?thesis using IH x by auto
  qed
qed simp

section \<open>Properties\<close>

definition sample_update :: doc_value where
  "sample_update = DDocument [(js ''$set'', DDocument [(js ''a'', DBool True)])]"

lemma sample_update_ok:
  "parseUpdate sample_update = Inr [\<lparr>ins_operator = OpSet, ins_segments = [js ''a''], ins_operand = DBool True\<rparr>]"
  by (simp add: sample_update_def parseUpdate_def update_operator_of_def parsePath_def validateOperand_def
      split_path_def reserved_segment_def starts_dollar_def js_def of_char_def)

text \<open>C22: an update does what its operators say, and nothing else: the field of every instruction
  ends up with the effect of its operator on the value before the update, whatever the order
  of the instructions, and every path that overlaps none of them keeps its value.\<close>

theorem update_effect_and_frame:
  assumes "parseUpdate u = Inr instructions" and "apply_instructions instructions d = Inr d'"
  shows "(\<forall>i \<in> set instructions.
      operator_effect (ins_operator i) (ins_operand i) (resolveField d (ins_segments i)) =
        Inr (resolveField d' (ins_segments i))) \<and>
    (\<forall>path. (\<forall>i \<in> set instructions. \<not> overlaps (ins_segments i) path) \<longrightarrow> resolveField d' path = resolveField d path)"
  using parseUpdate_ok[OF assms(1)] apply_instructions_effect[OF assms(2)] apply_instructions_frame[OF assms(2)]
  by blast

theorem update_effect_and_frame_witness:
  "\<exists>d'. apply_instructions [\<lparr>ins_operator = OpSet, ins_segments = [js ''a''], ins_operand = DBool True\<rparr>]
      [(js ''b'', DNull)] = Inr d' \<and>
    resolveField d' [js ''a''] = Some (DBool True) \<and> resolveField d' [js ''b''] = Some DNull"
proof -
  let ?is = "[\<lparr>ins_operator = OpSet, ins_segments = [js ''a''], ins_operand = DBool True\<rparr>]"
  let ?d' = "obj_set (js ''a'') (DBool True) [(js ''b'', DNull)]"
  have a: "apply_instructions ?is [(js ''b'', DNull)] = Inr ?d'"
    by (simp add: applyInstruction_def operator_action_def act_set_def)
  have "\<not> overlaps [js ''a''] [js ''b'']" by (simp add: js_def of_char_def)
  with update_effect_and_frame[OF sample_update_ok a]
  have "resolveField ?d' [js ''b''] = resolveField [(js ''b'', DNull)] [js ''b'']" by simp
  with a show ?thesis by simp
qed

text \<open>C23: the \<open>_id\<close> of a document survives every update.\<close>

theorem update_keeps_id:
  assumes "compileUpdate u = Inr run" and "run d = Inr d'"
  shows "map_of d' (js ''_id'') = map_of d (js ''_id'')"
  using assms parseUpdate_ok apply_instructions_id by (auto simp: compileUpdate_def)

theorem update_keeps_id_witness:
  "\<exists>run d'. compileUpdate sample_update = Inr run \<and> run [(js ''_id'', DNull)] = Inr d' \<and>
     map_of d' (js ''_id'') = Some DNull"
proof -
  let ?is = "[\<lparr>ins_operator = OpSet, ins_segments = [js ''a''], ins_operand = DBool True\<rparr>]"
  have c: "compileUpdate sample_update = Inr (apply_instructions ?is)"
    by (simp add: compileUpdate_def sample_update_ok)
  have a: "apply_instructions ?is [(js ''_id'', DNull)] = Inr (obj_set (js ''a'') (DBool True) [(js ''_id'', DNull)])"
    by (simp add: applyInstruction_def operator_action_def act_set_def)
  show ?thesis using c a update_keeps_id[OF c a] by auto
qed



end
