(* ===== verification/Collection.thy ===== *)
theory Collection
  imports Planner Update
begin

text \<open>
  \<open>packages/storage/src/in-memory-collection.ts\<close>: a collection holds the encoded documents by
  hexadecimal id in insertion order, the secondary indexes, and while it has any the sequence
  numbers that give the results of an index the order of insertion.

  An operation is a function from the state to its result and the new state; the state is
  returned with an error too, because throwing undoes nothing. The journal is the caller's: a
  state \<open>'j\<close> and a function \<open>jc\<close> that commits a list of operations or fails. The ids the operations
  generate are arguments (\<open>fresh\<close>). Generators are run to their end at once, so changes made
  between two steps of a running iteration are not modelled.
\<close>

datatype journal_operation =
    JPut doc_key bytes
  | JDelete doc_key
  | JCreateIndex index_spec
  | JDropIndex js_string

record 'j collection =
  co_documents :: "(doc_key \<times> bytes) list"
  co_journal :: "'j option"
  co_indexes :: index_set
  co_sequence :: "(doc_key \<times> nat) list option"
  co_nextSequence :: nat

record prepared_insert =
  pi_id :: bytes
  pi_key :: doc_key
  pi_encoded :: bytes

record located_document =
  ld_key :: doc_key
  ld_encoded :: bytes
  ld_document :: document

record update_result =
  ur_matchedCount :: nat
  ur_modifiedCount :: nat
  ur_upsertedId :: "bytes option"

type_synonym 'j journal_commit = "journal_operation list \<Rightarrow> 'j \<Rightarrow> (failure + unit) \<times> 'j"

section \<open>Documents and sequence numbers\<close>

definition decode_stored :: "bytes \<Rightarrow> failure + document" where
  "decode_stored encoded = mapErr ProtocolFailure (decodeDocument encoded)"

definition has_document :: "doc_key \<Rightarrow> 'j collection \<Rightarrow> bool" where
  "has_document key C \<longleftrightarrow> map_of (co_documents C) key \<noteq> None"

definition documentCount :: "'j collection \<Rightarrow> nat" where
  "documentCount C = length (co_documents C)"

definition put_document :: "doc_key \<Rightarrow> bytes \<Rightarrow> 'j collection \<Rightarrow> 'j collection" where
  "put_document key encoded C =
     (let C1 = (case co_sequence C of
          None \<Rightarrow> C
        | Some sequence \<Rightarrow>
            if has_document key C then C
            else C\<lparr>co_sequence := Some (AList.update key (co_nextSequence C) sequence),
                   co_nextSequence := co_nextSequence C + 1\<rparr>)
      in C1\<lparr>co_documents := AList.update key encoded (co_documents C1)\<rparr>)"

definition remove_document :: "doc_key \<Rightarrow> 'j collection \<Rightarrow> 'j collection" where
  "remove_document key C =
     C\<lparr>co_documents := AList.delete key (co_documents C),
       co_sequence := map_option (AList.delete key) (co_sequence C)\<rparr>"

text \<open>\<open>decodedEntries\<close> is a generator: what it yields before it throws, and what it throws.\<close>

fun decodedEntries :: "(doc_key \<times> bytes) list \<Rightarrow> (doc_key \<times> document) list \<times> failure option" where
  "decodedEntries [] = ([], None)"
| "decodedEntries ((key, encoded) # rest) =
     (case decode_stored encoded of
        Inl e \<Rightarrow> ([], Some e)
      | Inr d \<Rightarrow> (case decodedEntries rest of (ds, e) \<Rightarrow> ((key, d) # ds, e)))"

definition number_documents :: "'j collection \<Rightarrow> 'j collection" where
  "number_documents C =
     foldl (\<lambda>C key. C\<lparr>co_sequence := map_option (AList.update key (co_nextSequence C)) (co_sequence C),
                      co_nextSequence := co_nextSequence C + 1\<rparr>)
       (C\<lparr>co_sequence := Some []\<rparr>) (map fst (co_documents C))"

definition buildIndex :: "index_spec \<Rightarrow> ('j collection, bool) operation" where
  "buildIndex spec C =
     (case decodedEntries (co_documents C) of (entries, broken) \<Rightarrow>
        (case create_index spec entries (co_indexes C) of
           Inl e \<Rightarrow> (Inl e, C)
         | Inr (Exists, S) \<Rightarrow> (Inr False, C)
         | Inr (Created, S) \<Rightarrow>
             (case broken of
                Some e \<Rightarrow> (Inl e, C)
              | None \<Rightarrow>
                  (let C1 = C\<lparr>co_indexes := S\<rparr>
                   in (Inr True, if co_sequence C1 = None then number_documents C1 else C1)))))"

definition removeIndex :: "js_string \<Rightarrow> 'j collection \<Rightarrow> 'j collection" where
  "removeIndex name C =
     (let C1 = C\<lparr>co_indexes := drop_index name (co_indexes C)\<rparr>
      in if set_isEmpty (co_indexes C1) then C1\<lparr>co_sequence := None\<rparr> else C1)"

fun build_indexes :: "index_spec list \<Rightarrow> ('j collection, unit) operation" where
  "build_indexes [] = returnS ()"
| "build_indexes (spec # specs) = bindS (buildIndex spec) (\<lambda>_. build_indexes specs)"

definition empty_collection :: "'j option \<Rightarrow> (doc_key \<times> bytes) list \<Rightarrow> 'j collection" where
  "empty_collection journal documents =
     \<lparr>co_documents = documents, co_journal = journal, co_indexes = [], co_sequence = None, co_nextSequence = 1\<rparr>"

definition new_collection :: "'j option \<Rightarrow> (doc_key \<times> bytes) list \<Rightarrow> index_spec list \<Rightarrow> failure + 'j collection" where
  "new_collection journal documents indexes =
     (case build_indexes indexes (empty_collection journal documents) of
        (Inl e, _) \<Rightarrow> Inl e
      | (Inr _, C) \<Rightarrow> Inr C)"

section \<open>Tracking and committing\<close>

definition trackChanges :: "document_change list \<Rightarrow> ('j collection, undo_step list) operation" where
  "trackChanges changes C =
     (case applyChanges changes (co_indexes C) of (r, S) \<Rightarrow> (r, C\<lparr>co_indexes := S\<rparr>))"

definition trackInsert :: "prepared_insert \<Rightarrow> ('j collection, undo_step list) operation" where
  "trackInsert p C =
     (if set_isEmpty (co_indexes C) then (Inr [], C)
      else case decode_stored (pi_encoded p) of
        Inl e \<Rightarrow> (Inl e, C)
      | Inr d \<Rightarrow> trackChanges [\<lparr>dc_key = pi_key p, dc_before = None, dc_after = Some d\<rparr>] C)"

definition commit :: "'j journal_commit \<Rightarrow> journal_operation list \<Rightarrow> ('j collection, unit) operation" where
  "commit jc ops C =
     (case co_journal C of
        None \<Rightarrow> (Inr (), C)
      | Some j \<Rightarrow> (case jc ops j of (r, j') \<Rightarrow> (r, C\<lparr>co_journal := Some j'\<rparr>)))"

definition run_rollback :: "undo_step list \<Rightarrow> ('j collection, unit) operation" where
  "run_rollback undo = modifyS (\<lambda>C. C\<lparr>co_indexes := rollback undo (co_indexes C)\<rparr>)"

text \<open>The \<open>try\<close> block around every commit: a failure undoes the index changes and is thrown again.\<close>

definition commit_or_rollback :: "'j journal_commit \<Rightarrow> undo_step list \<Rightarrow> journal_operation list \<Rightarrow> ('j collection, unit) operation" where
  "commit_or_rollback jc undo ops =
     catchS (commit jc ops) (\<lambda>e. bindS (run_rollback undo) (\<lambda>_. throwS e))"

text \<open>
  The end of every change: the operations, if there are any, are committed, and then the documents
  are put or removed by \<open>f\<close>.
\<close>

definition commit_changes ::
  "'j journal_commit \<Rightarrow> undo_step list \<Rightarrow> journal_operation list \<Rightarrow> ('j collection \<Rightarrow> 'j collection) \<Rightarrow>
   ('j collection, unit) operation" where
  "commit_changes jc undo ops f =
     bindS (if ops = [] then returnS () else commit_or_rollback jc undo ops) (\<lambda>_. modifyS f)"

definition put_all :: "(doc_key \<times> bytes) list \<Rightarrow> 'j collection \<Rightarrow> 'j collection" where
  "put_all ps C = foldl (\<lambda>C (key, encoded). put_document key encoded C) C ps"

definition remove_all :: "doc_key list \<Rightarrow> 'j collection \<Rightarrow> 'j collection" where
  "remove_all keys C = foldl (\<lambda>C key. remove_document key C) C keys"

section \<open>Inserting\<close>

definition resolveDocumentId :: "bytes \<Rightarrow> document \<Rightarrow> failure + bytes" where
  "resolveDocumentId fresh d =
     (case map_of d (js ''_id'') of
        None \<Rightarrow> Inr fresh
      | Some (DCustomId docId) \<Rightarrow> Inr docId
      | Some _ \<Rightarrow> Inl (StorageError InvalidDocumentId))"

definition encodeStoredDocument :: "document \<Rightarrow> failure + bytes" where
  "encodeStoredDocument d = mapErr (\<lambda>_. StorageError InvalidDocument) (encodeDocument d)"

definition prepareInsert :: "bytes \<Rightarrow> doc_value \<Rightarrow> doc_key list \<Rightarrow> 'j collection \<Rightarrow> failure + prepared_insert" where
  "prepareInsert fresh v pending C =
     (case v of
        DDocument d \<Rightarrow>
          bindR (resolveDocumentId fresh d) (\<lambda>docId.
            let key = toHexString docId in
            if has_document key C \<or> key \<in> set pending then Inl (StorageError DuplicateId)
            else bindR (encodeStoredDocument (obj_set (js ''_id'') (DCustomId docId) d)) (\<lambda>encoded.
              Inr \<lparr>pi_id = docId, pi_key = key, pi_encoded = encoded\<rparr>))
      | _ \<Rightarrow> Inl (StorageError InvalidDocument))"

definition insertOne :: "'j journal_commit \<Rightarrow> bytes \<Rightarrow> doc_value \<Rightarrow> ('j collection, bytes) operation" where
  "insertOne jc fresh v =
     bindS (getsS (prepareInsert fresh v [])) (\<lambda>p.
     bindS (trackInsert p) (\<lambda>undo.
     bindS (commit_changes jc undo [JPut (pi_key p) (pi_encoded p)] (put_document (pi_key p) (pi_encoded p))) (\<lambda>_.
     returnS (pi_id p))))"

text \<open>The loop of \<open>insertMany\<close>: the accepted inserts, their rollbacks and the failure that ended it.\<close>

definition failure_code :: "failure \<Rightarrow> storage_code" where
  "failure_code e = (case e of StorageError c \<Rightarrow> c | StorageInsertManyError c _ _ \<Rightarrow> c | _ \<Rightarrow> InvalidBatch)"

fun insert_loop ::
  "(nat \<Rightarrow> bytes) \<Rightarrow> nat \<Rightarrow> doc_value list \<Rightarrow> prepared_insert list \<Rightarrow> undo_step list list \<Rightarrow>
   ('j collection, prepared_insert list \<times> undo_step list list \<times> (nat \<times> failure) option) operation" where
  "insert_loop fresh index [] accepted rollbacks C = (Inr (accepted, rollbacks, None), C)"
| "insert_loop fresh index (v # vs) accepted rollbacks C =
     (case bindS (getsS (prepareInsert (fresh index) v (map pi_key accepted)))
             (\<lambda>p. bindS (trackInsert p) (\<lambda>undo. returnS (p, undo))) C of
        (Inr (p, undo), C') \<Rightarrow> insert_loop fresh (index + 1) vs (accepted @ [p]) (rollbacks @ [undo]) C'
      | (Inl e, C') \<Rightarrow>
          if is_storage_error e then (Inr (accepted, rollbacks, Some (index, e)), C') else (Inl e, C'))"

definition run_rollbacks :: "undo_step list list \<Rightarrow> ('j collection, unit) operation" where
  "run_rollbacks undos =
     modifyS (\<lambda>C. C\<lparr>co_indexes := foldl (\<lambda>S undo. rollback undo S) (co_indexes C) (rev undos)\<rparr>)"

definition insertMany :: "'j journal_commit \<Rightarrow> (nat \<Rightarrow> bytes) \<Rightarrow> doc_value list \<Rightarrow> ('j collection, bytes list) operation" where
  "insertMany jc fresh documents =
     (if documents = [] then throwS (StorageError InvalidBatch)
      else
        bindS (insert_loop fresh 0 documents [] []) (\<lambda>(accepted, rollbacks, failed).
        bindS (if accepted = [] then returnS ()
               else bindS (catchS (commit jc (map (\<lambda>p. JPut (pi_key p) (pi_encoded p)) accepted))
                      (\<lambda>e. bindS (run_rollbacks rollbacks) (\<lambda>_. throwS e))) (\<lambda>_.
                    modifyS (put_all (map (\<lambda>p. (pi_key p, pi_encoded p)) accepted)))) (\<lambda>_.
        case failed of
          Some (index, e) \<Rightarrow> throwS (StorageInsertManyError (failure_code e) index (map pi_id accepted))
        | None \<Rightarrow> returnS (map pi_id accepted))))"

section \<open>Reading\<close>

definition plan :: "document \<Rightarrow> 'j collection \<Rightarrow> query_plan" where
  "plan filter_doc C = planQuery filter_doc (all_indexes (co_indexes C)) (documentCount C)"

definition sequence_of :: "'j collection \<Rightarrow> doc_key \<Rightarrow> int" where
  "sequence_of C key =
     (case co_sequence C of None \<Rightarrow> 0 | Some sequence \<Rightarrow> (case map_of sequence key of None \<Rightarrow> 0 | Some n \<Rightarrow> int n))"

definition candidates :: "document \<Rightarrow> 'j collection \<Rightarrow> (doc_key \<times> bytes) list" where
  "candidates filter_doc C =
     (if set_isEmpty (co_indexes C) then co_documents C
      else case candidateKeys (plan filter_doc C) of
        None \<Rightarrow> co_documents C
      | Some found \<Rightarrow>
          List.map_filter (\<lambda>key. map_option (Pair key) (map_of (co_documents C) key))
            (sort_by (\<lambda>left right. sequence_of C left - sequence_of C right)
              (filter (\<lambda>key. has_document key C) found)))"

definition findById :: "bytes \<Rightarrow> 'j collection \<Rightarrow> failure + document option" where
  "findById docId C =
     (case map_of (co_documents C) (toHexString docId) of
        None \<Rightarrow> Inr None
      | Some encoded \<Rightarrow> bindR (decode_stored encoded) (\<lambda>d. Inr (Some d)))"

definition has_id :: "bytes \<Rightarrow> 'j collection \<Rightarrow> bool" where
  "has_id docId C = has_document (toHexString docId) C"

text \<open>The loop of \<open>findOne\<close> and \<open>locate\<close>.\<close>

fun first_match :: "compiled_filter \<Rightarrow> (doc_key \<times> bytes) list \<Rightarrow> failure + located_document option" where
  "first_match matches [] = Inr None"
| "first_match matches ((key, encoded) # rest) =
     bindR (decode_stored encoded) (\<lambda>d.
       if matches d then Inr (Some \<lparr>ld_key = key, ld_encoded = encoded, ld_document = d\<rparr>)
       else first_match matches rest)"

definition filter_id :: "document \<Rightarrow> bytes option" where
  "filter_id filter_doc = (case map_of filter_doc (js ''_id'') of Some (DCustomId docId) \<Rightarrow> Some docId | _ \<Rightarrow> None)"

definition locate :: "document \<Rightarrow> compiled_filter \<Rightarrow> 'j collection \<Rightarrow> failure + located_document option" where
  "locate filter_doc matches C =
     (case filter_id filter_doc of
        Some docId \<Rightarrow>
          (case map_of (co_documents C) (toHexString docId) of
             None \<Rightarrow> Inr None
           | Some encoded \<Rightarrow>
               bindR (decode_stored encoded) (\<lambda>d.
                 Inr (if matches d then Some \<lparr>ld_key = toHexString docId, ld_encoded = encoded, ld_document = d\<rparr> else None)))
      | None \<Rightarrow> first_match matches (candidates filter_doc C))"

text \<open>A filter that compiles is a document; the others have been refused by then.\<close>

definition filter_document :: "doc_value \<Rightarrow> document" where
  "filter_document v = (case v of DDocument f \<Rightarrow> f | _ \<Rightarrow> [])"

definition findOne :: "doc_value \<Rightarrow> 'j collection \<Rightarrow> failure + document option" where
  "findOne filter_value C =
     bindR (compileFilter filter_value) (\<lambda>matches.
       case filter_id (filter_document filter_value) of
         Some docId \<Rightarrow>
           bindR (findById docId C) (\<lambda>found. Inr (case found of None \<Rightarrow> None | Some d \<Rightarrow> if matches d then Some d else None))
       | None \<Rightarrow>
           bindR (first_match matches (candidates (filter_document filter_value) C)) (\<lambda>found.
             Inr (map_option ld_document found)))"

record find_options =
  fo_sort :: "doc_value option"
  fo_skip :: "js_number option"
  fo_limit :: "js_number option"

definition validateSkip :: "js_number option \<Rightarrow> failure + nat" where
  "validateSkip skip =
     (case skip of
        None \<Rightarrow> Inr 0
      | Some n \<Rightarrow> if \<not> isSafeInteger n \<or> num_int n < 0 then Inl (StorageError InvalidFindOptions) else Inr (nat (num_int n)))"

definition validateLimit :: "js_number option \<Rightarrow> failure + nat option" where
  "validateLimit limit =
     (case limit of
        None \<Rightarrow> Inr None
      | Some n \<Rightarrow> if \<not> isSafeInteger n \<or> num_int n < 1 then Inl (StorageError InvalidFindOptions) else Inr (Some (nat (num_int n))))"

fun scan_loop :: "compiled_filter \<Rightarrow> nat \<Rightarrow> nat option \<Rightarrow> nat \<Rightarrow> nat \<Rightarrow> (doc_key \<times> bytes) list \<Rightarrow> failure + document list" where
  "scan_loop matches skip limit skipped yielded [] = Inr []"
| "scan_loop matches skip limit skipped yielded ((key, encoded) # rest) =
     (if (case limit of None \<Rightarrow> False | Some n \<Rightarrow> n \<le> yielded) then Inr []
      else bindR (decode_stored encoded) (\<lambda>d.
        if \<not> matches d then scan_loop matches skip limit skipped yielded rest
        else if skipped < skip then scan_loop matches skip limit (skipped + 1) yielded rest
        else bindR (scan_loop matches skip limit skipped (yielded + 1) rest) (\<lambda>ds. Inr (d # ds))))"

fun matching_documents :: "compiled_filter \<Rightarrow> (doc_key \<times> bytes) list \<Rightarrow> failure + document list" where
  "matching_documents matches [] = Inr []"
| "matching_documents matches ((key, encoded) # rest) =
     bindR (decode_stored encoded) (\<lambda>d.
     bindR (matching_documents matches rest) (\<lambda>ds. Inr (if matches d then d # ds else ds)))"

definition scan ::
  "document \<Rightarrow> compiled_filter \<Rightarrow> (document list \<Rightarrow> document list) option \<Rightarrow> nat \<Rightarrow> nat option \<Rightarrow> 'j collection \<Rightarrow>
   failure + document list" where
  "scan filter_doc matches sorter skip limit C =
     (case sorter of
        None \<Rightarrow> scan_loop matches skip limit 0 0 (candidates filter_doc C)
      | Some sort_fn \<Rightarrow>
          bindR (matching_documents matches (candidates filter_doc C)) (\<lambda>matched.
            let ordered = sort_fn matched
            in Inr (drop skip (case limit of None \<Rightarrow> ordered | Some n \<Rightarrow> take (skip + n) ordered))))"

definition find_documents :: "doc_value \<Rightarrow> find_options \<Rightarrow> 'j collection \<Rightarrow> failure + document list" where
  "find_documents filter_value options C =
     bindR (compileFilter filter_value) (\<lambda>matches.
     bindR (case fo_sort options of None \<Rightarrow> Inr None | Some s \<Rightarrow> bindR (compileSort s) (\<lambda>f. Inr (Some f))) (\<lambda>sorter.
     bindR (validateSkip (fo_skip options)) (\<lambda>skip.
     bindR (validateLimit (fo_limit options)) (\<lambda>limit.
       scan (filter_document filter_value) matches sorter skip limit C))))"

section \<open>Deleting\<close>

definition deleteOne :: "'j journal_commit \<Rightarrow> doc_value \<Rightarrow> ('j collection, nat) operation" where
  "deleteOne jc filter_value =
     bindS (getsS (\<lambda>C. bindR (compileFilter filter_value) (\<lambda>matches. locate (filter_document filter_value) matches C))) (\<lambda>located.
       case located of
         None \<Rightarrow> returnS 0
       | Some l \<Rightarrow>
           bindS (trackChanges [\<lparr>dc_key = ld_key l, dc_before = Some (ld_document l), dc_after = None\<rparr>]) (\<lambda>undo.
           bindS (commit_changes jc undo [JDelete (ld_key l)] (remove_document (ld_key l))) (\<lambda>_. returnS 1)))"

text \<open>The loop of \<open>deleteMany\<close>: the matching keys with their documents.\<close>

fun matching_entries :: "compiled_filter \<Rightarrow> (doc_key \<times> bytes) list \<Rightarrow> failure + (doc_key \<times> document) list" where
  "matching_entries matches [] = Inr []"
| "matching_entries matches ((key, encoded) # rest) =
     bindR (decode_stored encoded) (\<lambda>d.
     bindR (matching_entries matches rest) (\<lambda>es. Inr (if matches d then (key, d) # es else es)))"

definition deleteMany :: "'j journal_commit \<Rightarrow> doc_value \<Rightarrow> ('j collection, nat) operation" where
  "deleteMany jc filter_value =
     bindS (getsS (\<lambda>C. bindR (compileFilter filter_value) (\<lambda>matches.
              bindR (matching_entries matches (candidates (filter_document filter_value) C)) (\<lambda>es.
                Inr (map fst es,
                     if set_isEmpty (co_indexes C) then []
                     else map (\<lambda>(key, d). \<lparr>dc_key = key, dc_before = Some d, dc_after = None\<rparr>) es))))) (\<lambda>(keys, changes).
     bindS (trackChanges changes) (\<lambda>undo.
     bindS (commit_changes jc undo (map JDelete keys) (remove_all keys)) (\<lambda>_.
     returnS (length keys))))"

section \<open>Updating\<close>

definition validateUpsert :: "doc_value option \<Rightarrow> failure + bool" where
  "validateUpsert upsert =
     (case upsert of None \<Rightarrow> Inr False | Some (DBool b) \<Rightarrow> Inr b | Some _ \<Rightarrow> Inl (StorageError InvalidUpdate))"

definition validateReplacement :: "doc_value \<Rightarrow> failure + document" where
  "validateReplacement replacement =
     (case replacement of
        DDocument d \<Rightarrow> if list_ex (\<lambda>p. starts_dollar (fst p)) d then Inl (StorageError InvalidDocument) else Inr d
      | _ \<Rightarrow> Inl (StorageError InvalidDocument))"

definition prepareUpdate :: "located_document \<Rightarrow> compiled_update \<Rightarrow> failure + bytes option" where
  "prepareUpdate l apply_update =
     bindR (apply_update (ld_document l)) (\<lambda>d.
     bindR (encodeStoredDocument d) (\<lambda>encoded.
       Inr (if encoded = ld_encoded l then None else Some encoded)))"

text \<open>\<open>a instanceof CustomId && a.equals(b)\<close>.\<close>

definition same_id :: "doc_value option \<Rightarrow> doc_value option \<Rightarrow> bool" where
  "same_id a b = (case (a, b) of (Some (DCustomId x), Some (DCustomId y)) \<Rightarrow> id_equals x y | _ \<Rightarrow> False)"

definition no_match :: update_result where
  "no_match = \<lparr>ur_matchedCount = 0, ur_modifiedCount = 0, ur_upsertedId = None\<rparr>"

text \<open>Storing a new version of a document: the end of \<open>replaceOne\<close> and \<open>updateOne\<close>.\<close>

definition store_update ::
  "'j journal_commit \<Rightarrow> doc_key \<Rightarrow> document option \<Rightarrow> bytes \<Rightarrow> ('j collection, unit) operation" where
  "store_update jc key before encoded =
     bindS (fromR (decode_stored encoded)) (\<lambda>after.
     bindS (trackChanges [\<lparr>dc_key = key, dc_before = before, dc_after = Some after\<rparr>]) (\<lambda>undo.
     commit_changes jc undo [JPut key encoded] (put_document key encoded)))"

definition upsert_replacement :: "document \<Rightarrow> document \<Rightarrow> failure + document" where
  "upsert_replacement filter_doc replacement =
     (if hasOwn replacement (js ''_id'')
      then (if filter_id filter_doc \<noteq> None \<and> \<not> same_id (map_of replacement (js ''_id'')) (map_of filter_doc (js ''_id''))
            then Inl (StorageError ImmutableId) else Inr replacement)
      else case filter_id filter_doc of
        Some docId \<Rightarrow> Inr (obj_set (js ''_id'') (DCustomId docId) replacement)
      | None \<Rightarrow> Inr replacement)"

definition replaceOne ::
  "'j journal_commit \<Rightarrow> bytes \<Rightarrow> doc_value \<Rightarrow> doc_value \<Rightarrow> doc_value option \<Rightarrow> ('j collection, update_result) operation" where
  "replaceOne jc fresh filter_value replacement_value upsert_option =
     bindS (getsS (\<lambda>C. bindR (compileFilter filter_value) (\<lambda>matches.
              bindR (validateUpsert upsert_option) (\<lambda>upsert.
              bindR (validateReplacement replacement_value) (\<lambda>replacement.
              bindR (locate (filter_document filter_value) matches C) (\<lambda>located.
                Inr (upsert, replacement, located))))))) (\<lambda>(upsert, replacement, located).
       case located of
         None \<Rightarrow>
           if \<not> upsert then returnS no_match
           else
             bindS (fromR (upsert_replacement (filter_document filter_value) replacement)) (\<lambda>d.
             bindS (insertOne jc fresh (DDocument d)) (\<lambda>docId. returnS (no_match\<lparr>ur_upsertedId := Some docId\<rparr>)))
       | Some l \<Rightarrow>
           (let existing = map_of (ld_document l) (js ''_id'') in
            if hasOwn replacement (js ''_id'') \<and> \<not> same_id (map_of replacement (js ''_id'')) existing
            then throwS (StorageError ImmutableId)
            else
              bindS (fromR (encodeStoredDocument (obj_set (js ''_id'') (case existing of Some v \<Rightarrow> v | None \<Rightarrow> DOther) replacement))) (\<lambda>encoded.
                if encoded = ld_encoded l then returnS \<lparr>ur_matchedCount = 1, ur_modifiedCount = 0, ur_upsertedId = None\<rparr>
                else bindS (store_update jc (ld_key l) (Some (ld_document l)) encoded) (\<lambda>_.
                  returnS \<lparr>ur_matchedCount = 1, ur_modifiedCount = 1, ur_upsertedId = None\<rparr>))))"

definition upsertFromUpdate ::
  "'j journal_commit \<Rightarrow> bytes \<Rightarrow> document \<Rightarrow> compiled_update \<Rightarrow> bool \<Rightarrow> ('j collection, update_result) operation" where
  "upsertFromUpdate jc fresh filter_doc apply_update upsert =
     (if \<not> upsert then returnS no_match
      else
        bindS (fromR (bindR (seedDocumentFromFilter filter_doc) apply_update)) (\<lambda>d.
        bindS (insertOne jc fresh (DDocument d)) (\<lambda>docId. returnS (no_match\<lparr>ur_upsertedId := Some docId\<rparr>))))"

definition updateOne ::
  "'j journal_commit \<Rightarrow> bytes \<Rightarrow> doc_value \<Rightarrow> doc_value \<Rightarrow> doc_value option \<Rightarrow> ('j collection, update_result) operation" where
  "updateOne jc fresh filter_value update_value upsert_option =
     bindS (getsS (\<lambda>C. bindR (compileFilter filter_value) (\<lambda>matches.
              bindR (compileUpdate update_value) (\<lambda>apply_update.
              bindR (validateUpsert upsert_option) (\<lambda>upsert.
              bindR (locate (filter_document filter_value) matches C) (\<lambda>located.
                Inr (apply_update, upsert, located))))))) (\<lambda>(apply_update, upsert, located).
       case located of
         None \<Rightarrow> upsertFromUpdate jc fresh (filter_document filter_value) apply_update upsert
       | Some l \<Rightarrow>
           bindS (getsS (\<lambda>C. if set_isEmpty (co_indexes C) then Inr None
                     else bindR (decode_stored (ld_encoded l)) (\<lambda>d. Inr (Some d)))) (\<lambda>before.
           bindS (fromR (prepareUpdate l apply_update)) (\<lambda>pending.
             case pending of
               None \<Rightarrow> returnS \<lparr>ur_matchedCount = 1, ur_modifiedCount = 0, ur_upsertedId = None\<rparr>
             | Some encoded \<Rightarrow>
                 bindS (store_update jc (ld_key l) before encoded) (\<lambda>_.
                   returnS \<lparr>ur_matchedCount = 1, ur_modifiedCount = 1, ur_upsertedId = None\<rparr>))))"

text \<open>The loop of \<open>updateMany\<close>: the number of matches, the new versions and the index changes.\<close>

fun update_loop ::
  "compiled_filter \<Rightarrow> compiled_update \<Rightarrow> bool \<Rightarrow> (doc_key \<times> bytes) list \<Rightarrow>
   failure + nat \<times> (doc_key \<times> bytes) list \<times> document_change list" where
  "update_loop matches apply_update indexed [] = Inr (0, [], [])"
| "update_loop matches apply_update indexed ((key, encoded) # rest) =
     bindR (decode_stored encoded) (\<lambda>d.
       if \<not> matches d then update_loop matches apply_update indexed rest
       else
         bindR (prepareUpdate \<lparr>ld_key = key, ld_encoded = encoded, ld_document = d\<rparr> apply_update) (\<lambda>pending.
           case pending of
             None \<Rightarrow> bindR (update_loop matches apply_update indexed rest) (\<lambda>(n, ps, cs). Inr (n + 1, ps, cs))
           | Some new \<Rightarrow>
               bindR (if indexed then bindR (decode_stored new) (\<lambda>after.
                        Inr [\<lparr>dc_key = key, dc_before = Some d, dc_after = Some after\<rparr>]) else Inr []) (\<lambda>change.
               bindR (update_loop matches apply_update indexed rest) (\<lambda>(n, ps, cs).
                 Inr (n + 1, (key, new) # ps, change @ cs)))))"

definition updateMany ::
  "'j journal_commit \<Rightarrow> bytes \<Rightarrow> doc_value \<Rightarrow> doc_value \<Rightarrow> doc_value option \<Rightarrow> ('j collection, update_result) operation" where
  "updateMany jc fresh filter_value update_value upsert_option =
     bindS (getsS (\<lambda>C. bindR (compileFilter filter_value) (\<lambda>matches.
              bindR (compileUpdate update_value) (\<lambda>apply_update.
              bindR (validateUpsert upsert_option) (\<lambda>upsert.
              bindR (update_loop matches apply_update (\<not> set_isEmpty (co_indexes C))
                       (candidates (filter_document filter_value) C)) (\<lambda>found.
                Inr (apply_update, upsert, found))))))) (\<lambda>(apply_update, upsert, matched, pending, changes).
       if matched = 0 then upsertFromUpdate jc fresh (filter_document filter_value) apply_update upsert
       else
         bindS (trackChanges changes) (\<lambda>undo.
         bindS (commit_changes jc undo (map (\<lambda>(key, encoded). JPut key encoded) pending) (put_all pending)) (\<lambda>_.
         returnS \<lparr>ur_matchedCount = matched, ur_modifiedCount = length pending, ur_upsertedId = None\<rparr>)))"

section \<open>Indexes\<close>

definition createIndex :: "'j journal_commit \<Rightarrow> create_index_input \<Rightarrow> ('j collection, js_string \<times> bool) operation" where
  "createIndex jc input =
     bindS (fromR (normalizeIndexSpec input)) (\<lambda>spec.
     bindS (buildIndex spec) (\<lambda>created.
     bindS (if \<not> created then returnS ()
            else catchS (commit jc [JCreateIndex spec])
              (\<lambda>e. bindS (modifyS (removeIndex (is_name spec))) (\<lambda>_. throwS e))) (\<lambda>_.
     returnS (is_name spec, created))))"

definition dropIndex :: "'j journal_commit \<Rightarrow> js_string \<Rightarrow> ('j collection, unit) operation" where
  "dropIndex jc name =
     (if name = ID_INDEX_NAME then throwS (StorageError InvalidIndex)
      else
        bindS (getsS (\<lambda>C. if has_index (co_indexes C) name then Inr () else Inl (StorageError IndexNotFound))) (\<lambda>_.
        bindS (commit jc [JDropIndex name]) (\<lambda>_.
        modifyS (removeIndex name))))"

definition indexSpec :: "'j collection \<Rightarrow> index_spec list" where
  "indexSpec C = index_specs (co_indexes C)"

definition listIndexes :: "'j collection \<Rightarrow> index_spec list" where
  "listIndexes C = idIndexSpec # index_specs (co_indexes C)"

definition validateIndexes :: "'j collection \<Rightarrow> failure + index_issue list" where
  "validateIndexes C =
     (if set_isEmpty (co_indexes C) then Inr []
      else case decodedEntries (co_documents C) of
        (_, Some e) \<Rightarrow> Inl e
      | (entries, None) \<Rightarrow> Inr (validate_indexes entries (co_indexes C)))"

datatype explain_stage = StageCollScan | StageIdLookup | StageIxScan
datatype explain_access = ExplainEquality | ExplainIn | ExplainRange

record explain_result =
  ex_stage :: explain_stage
  ex_index :: "js_string option"
  ex_field :: "js_string option"
  ex_access :: "explain_access option"
  ex_lower :: "index_bound option"
  ex_upper :: "index_bound option"
  ex_estimatedCandidates :: int
  ex_documents :: nat

definition describePlan :: "query_plan \<Rightarrow> nat \<Rightarrow> explain_result" where
  "describePlan p documents =
     (case p of
        CollScan n \<Rightarrow>
          \<lparr>ex_stage = StageCollScan, ex_index = None, ex_field = None, ex_access = None, ex_lower = None, ex_upper = None,
           ex_estimatedCandidates = n, ex_documents = documents\<rparr>
      | IdLookup keys n \<Rightarrow>
          \<lparr>ex_stage = StageIdLookup, ex_index = Some ID_INDEX_NAME, ex_field = Some (js ''_id''),
           ex_access = Some ExplainEquality, ex_lower = None, ex_upper = None,
           ex_estimatedCandidates = n, ex_documents = documents\<rparr>
      | IxScan fx (AccessRange c lower upper) via n \<Rightarrow>
          \<lparr>ex_stage = StageIxScan, ex_index = Some (is_name (fx_spec fx)), ex_field = Some (is_field (fx_spec fx)),
           ex_access = Some ExplainRange, ex_lower = lower, ex_upper = upper,
           ex_estimatedCandidates = n, ex_documents = documents\<rparr>
      | IxScan fx (AccessEqual vs) via n \<Rightarrow>
          \<lparr>ex_stage = StageIxScan, ex_index = Some (is_name (fx_spec fx)), ex_field = Some (is_field (fx_spec fx)),
           ex_access = Some (if via then ExplainIn else ExplainEquality), ex_lower = None, ex_upper = None,
           ex_estimatedCandidates = n, ex_documents = documents\<rparr>)"

definition explain :: "doc_value \<Rightarrow> 'j collection \<Rightarrow> failure + explain_result" where
  "explain filter_value C =
     bindR (compileFilter filter_value) (\<lambda>_.
       Inr (describePlan (plan (filter_document filter_value) C) (documentCount C)))"

definition clear :: "('j collection, unit) operation" where
  "clear C =
     (if co_journal C \<noteq> None then (Inl PlainFailure, C)
      else (Inr (), C\<lparr>co_documents := [], co_indexes := [], co_sequence := None\<rparr>))"

end
