(* ===== verification/Migrations.thy ===== *)
theory Migrations
  imports Storage_Effects Js_String
begin

text \<open>
  \<open>packages/storage/src/engine/migrations.ts\<close>. Format versions are integers; what a step runs is a
  parameter \<open>'r\<close>, which the planner does not look at.
\<close>

record 'r migration =
  mg_from :: int
  mg_to :: int
  mg_description :: js_string
  mg_run :: "'r option"

record 'r migration_plan =
  mp_targetVersion :: int
  mp_migrations :: "'r migration list"

definition MIGRATIONS :: "'r migration list" where
  "MIGRATIONS = [\<lparr>mg_from = 1, mg_to = 2,
     mg_description = js ''Version 2 adds index definitions to the log and to snapshots. Version 1 files are read as they are.'',
     mg_run = None\<rparr>]"

definition STORAGE_FORMAT_VERSION :: int where "STORAGE_FORMAT_VERSION = 2"

text \<open>The loop of \<open>planMigrations\<close>.\<close>

function plan_from :: "int \<Rightarrow> 'r migration_plan \<Rightarrow> failure + 'r migration list" where
  "plan_from version plan =
     (if version < mp_targetVersion plan then
        (case find (\<lambda>candidate. mg_from candidate = version) (mp_migrations plan) of
           None \<Rightarrow> Inl (StorageError UnsupportedFormat)
         | Some step \<Rightarrow>
             if mg_to step \<noteq> version + 1 then Inl (StorageError UnsupportedFormat)
             else bindR (plan_from (version + 1) plan) (\<lambda>steps. Inr (step # steps)))
      else Inr [])"
  by pat_completeness auto
termination
  by (relation "measure (\<lambda>(version, plan). nat (mp_targetVersion plan - version))") auto

declare plan_from.simps [simp del]

definition planMigrations :: "int \<Rightarrow> 'r migration_plan \<Rightarrow> failure + 'r migration list" where
  "planMigrations from plan = plan_from from plan"

text \<open>The problems \<open>validateMigrations\<close> reports, without their wording.\<close>

datatype migration_problem = NotOneVersion int int | Repeated int | NoDescription int | Missing int

text \<open>\<open>trim\<close> removes white space and line ends at both sides, so it leaves nothing exactly of a string of them.\<close>

definition is_white_space :: "16 word \<Rightarrow> bool" where
  "is_white_space u \<longleftrightarrow> u \<in> {0x9, 0xA, 0xB, 0xC, 0xD, 0x20, 0xA0, 0x1680, 0x2028, 0x2029, 0x202F, 0x205F, 0x3000, 0xFEFF} \<or>
     0x2000 \<le> u \<and> u \<le> 0x200A"

fun step_problems :: "'r migration list \<Rightarrow> int set \<Rightarrow> migration_problem list" where
  "step_problems [] seen = []"
| "step_problems (step # steps) seen =
     (if mg_to step \<noteq> mg_from step + 1 then [NotOneVersion (mg_from step) (mg_to step)] else []) @
     (if mg_from step \<in> seen then [Repeated (mg_from step)] else []) @
     (if list_all is_white_space (mg_description step) then [NoDescription (mg_from step)] else []) @
     step_problems steps (insert (mg_from step) seen)"

definition validateMigrations :: "'r migration_plan \<Rightarrow> migration_problem list" where
  "validateMigrations plan =
     step_problems (mp_migrations plan) {} @
     map Missing (filter (\<lambda>version. version \<notin> mg_from ` set (mp_migrations plan)) [1..mp_targetVersion plan - 1])"

section \<open>Plans\<close>

lemma step_problems_none:
  assumes "step_problems steps seen = []"
  shows "\<forall>step \<in> set steps. mg_to step = mg_from step + 1"
  using assms by (induction steps arbitrary: seen) (auto split: if_splits)

text \<open>The steps of a plan follow each other from the version it starts with to the target.\<close>

definition chain :: "int \<Rightarrow> int \<Rightarrow> 'r migration list \<Rightarrow> bool" where
  "chain from target steps \<longleftrightarrow> length steps = nat (target - from) \<and>
     (\<forall>i < length steps. mg_from (steps ! i) = from + int i \<and> mg_to (steps ! i) = from + int i + 1)"

lemma chain_Cons:
  assumes "from < target" "mg_from step = from" "mg_to step = from + 1" "chain (from + 1) target steps"
  shows "chain from target (step # steps)"
  using assms unfolding chain_def by (auto simp: nth_Cons split: nat.splits)

lemma plan_from_chain:
  "plan_from version plan = Inr steps \<Longrightarrow> chain version (mp_targetVersion plan) steps \<and> set steps \<subseteq> set (mp_migrations plan)"
proof (induction version plan arbitrary: steps rule: plan_from.induct)
  case (1 version plan)
  show ?case
  proof (cases "version < mp_targetVersion plan")
    case False
    then show ?thesis using "1.prems" by (simp add: plan_from.simps chain_def)
  next
    case True
    obtain step rest where s: "find (\<lambda>candidate. mg_from candidate = version) (mp_migrations plan) = Some step" "mg_to step = version + 1"
        "plan_from (version + 1) plan = Inr rest" "steps = step # rest"
      using "1.prems" True by (subst (asm) plan_from.simps) (auto split: option.splits if_splits)
    have f: "mg_from step = version" "step \<in> set (mp_migrations plan)" using s(1) by (auto simp: find_Some_iff)
    have "chain (version + 1) (mp_targetVersion plan) rest \<and> set rest \<subseteq> set (mp_migrations plan)"
      using "1.IH"[OF True s(1)] s(2,3) by blast
    then show ?thesis using chain_Cons[OF True f(1) s(2)] f(2) s(4) by auto
  qed
qed

lemma plan_from_complete:
  assumes "\<forall>version. 1 \<le> version \<and> version < mp_targetVersion plan \<longrightarrow> (\<exists>step \<in> set (mp_migrations plan). mg_from step = version)"
    and "\<forall>step \<in> set (mp_migrations plan). mg_to step = mg_from step + 1" "1 \<le> from"
  shows "\<exists>steps. plan_from from plan = Inr steps"
  using assms
proof (induction "from" plan rule: plan_from.induct)
  case (1 version plan)
  show ?case
  proof (cases "version < mp_targetVersion plan")
    case False
    then show ?thesis by (simp add: plan_from.simps)
  next
    case True
    then have "find (\<lambda>candidate. mg_from candidate = version) (mp_migrations plan) \<noteq> None"
      using "1.prems" by (auto simp: find_None_iff)
    then obtain step where s: "find (\<lambda>candidate. mg_from candidate = version) (mp_migrations plan) = Some step" by blast
    then have t: "mg_to step = version + 1" using "1.prems"(2) by (auto simp: find_Some_iff)
    obtain rest where "plan_from (version + 1) plan = Inr rest" using "1.IH"[OF True s _ "1.prems"(1,2)] t "1.prems"(3) by auto
    then show ?thesis using True s t by (subst plan_from.simps) simp
  qed
qed

section \<open>Properties\<close>

text \<open>C40: Planning an upgrade ends: it takes exactly one step per version, and a plan is a chain from the
  version of the directory to the target. It fails only for a plan the validator objects to: where
  \<open>validateMigrations\<close> reports nothing, every version from 1 has a plan.\<close>

theorem migration_plan_complete:
  assumes "1 \<le> from" "from \<le> mp_targetVersion plan" "validateMigrations plan = []"
  shows "\<exists>steps. planMigrations from plan = Inr steps \<and> int (length steps) = mp_targetVersion plan - from \<and>
    (\<forall>i < length steps. mg_from (steps ! i) = from + int i \<and> mg_to (steps ! i) = from + int i + 1)"
proof -
  have v: "step_problems (mp_migrations plan) {} = []"
      "filter (\<lambda>version. version \<notin> mg_from ` set (mp_migrations plan)) [1..mp_targetVersion plan - 1] = []"
    using assms(3) by (simp_all add: validateMigrations_def)
  have "\<exists>step \<in> set (mp_migrations plan). mg_from step = version" if "1 \<le> version" "version < mp_targetVersion plan" for version
  proof -
    have "version \<in> set [1..mp_targetVersion plan - 1]" using that by simp
    then have "version \<in> mg_from ` set (mp_migrations plan)" using v(2) unfolding filter_empty_conv by blast
    then show ?thesis by auto
  qed
  then obtain steps where "plan_from from plan = Inr steps"
    using plan_from_complete[OF _ step_problems_none[OF v(1)] assms(1)] by auto
  then show ?thesis using plan_from_chain assms(2) unfolding planMigrations_def chain_def by fastforce
qed

theorem migration_plan_complete_witness:
  "\<exists>steps. planMigrations 1 \<lparr>mp_targetVersion = STORAGE_FORMAT_VERSION, mp_migrations = (MIGRATIONS :: unit migration list)\<rparr> = Inr steps \<and>
     int (length steps) = 1"
proof -
  let ?plan = "\<lparr>mp_targetVersion = STORAGE_FORMAT_VERSION, mp_migrations = (MIGRATIONS :: unit migration list)\<rparr>"
  have "validateMigrations ?plan = []"
    by (simp add: validateMigrations_def MIGRATIONS_def STORAGE_FORMAT_VERSION_def js_def of_char_def is_white_space_def)
  from migration_plan_complete[OF _ _ this, of 1] show ?thesis by (auto simp: STORAGE_FORMAT_VERSION_def)
qed

end
