(* ===== verification/Storage_Engine.thy ===== *)
theory Storage_Engine
  imports Checkpoint Collection Migrations
begin

text \<open>
  \<open>packages/storage/src/engine/storage-engine.ts\<close>: the engine keeps the collections of all databases
  in memory, journals every change to the write-ahead log, takes snapshots, and rebuilds the
  collections from the newest snapshot and the log when it is opened.

  The engine owns the log, whose state contains the files. The collections it holds are those of
  \<open>Collection\<close>; their journal is the engine itself, so an operation on a collection is run with the
  engine as the state of its journal (\<open>hosted\<close>). The lock of the directory is the flag \<open>en_locked\<close>.
  Timers are operations that may run at any time. Checkpoints in the background are not modelled.
\<close>

definition DEFAULT_CHECKPOINT_THRESHOLD_BYTES :: nat where "DEFAULT_CHECKPOINT_THRESHOLD_BYTES = 64 * 1024 * 1024"
definition DEFAULT_MEMORY_FLUSH_INTERVAL_MS :: nat where "DEFAULT_MEMORY_FLUSH_INTERVAL_MS = 100"
definition DEFAULT_CHECKPOINT_RETENTION :: nat where "DEFAULT_CHECKPOINT_RETENTION = 2"

record engine_options =
  eo_directory :: js_string
  eo_writeConcern :: "write_concern option"
  eo_groupCommit :: "bool option"
  eo_memoryFlushIntervalMs :: "js_number option"
  eo_segmentSizeBytes :: "js_number option"
  eo_checkpointThresholdBytes :: "js_number option"
  eo_checkpointIntervalMs :: "js_number option"
  eo_checkpointRetention :: "js_number option"
  eo_checkpointOnClose :: "bool option"
  eo_onCheckpointStage :: "checkpoint_stage \<Rightarrow> (wal, unit) operation"

record checkpoint_result =
  cr_lsn :: nat
  cr_file :: js_string
  cr_collections :: nat
  cr_documents :: nat
  cr_removedSnapshots :: nat
  cr_removedSegments :: nat

record recovery_report =
  rp_checkpointLsn :: nat
  rp_checkpointFile :: "js_string option"
  rp_skippedCheckpoints :: "js_string list"
  rp_replayedRecords :: nat
  rp_rebuiltIndexes :: nat
  rp_lastLsn :: nat

record recovered_state =
  rs_documents :: "(doc_key \<times> bytes) list"
  rs_indexes :: "index_spec list"

record settings =
  st_checkpointThresholdBytes :: nat
  st_checkpointRetention :: nat
  st_checkpointOnClose :: bool
  st_onCheckpointStage :: "checkpoint_stage \<Rightarrow> (wal, unit) operation"

record begun_checkpoint =
  bg_lsn :: nat
  bg_collections :: "checkpoint_collection list"
  bg_documents :: nat
  bg_bytes :: nat

text \<open>A map of maps, in the order of insertion, as the engine and its recovery use it.\<close>

type_synonym 'a catalog = "(js_string \<times> (js_string \<times> 'a) list) list"

record engine =
  en_root :: js_string
  en_log :: wal
  en_locked :: bool
  en_settings :: settings
  en_databases :: "unit collection catalog"
  en_closed :: bool
  en_lastCheckpoint :: nat
  en_bytesSinceCheckpoint :: nat
  en_nextCheckpointAt :: nat
  en_checkpointFailure :: "failure option"
  en_report :: recovery_report

section \<open>Catalogs\<close>

definition catalog_find :: "js_string \<Rightarrow> js_string \<Rightarrow> 'a catalog \<Rightarrow> 'a option" where
  "catalog_find database collection m = (case map_of m database of None \<Rightarrow> None | Some byName \<Rightarrow> map_of byName collection)"

definition catalog_put :: "js_string \<Rightarrow> js_string \<Rightarrow> 'a \<Rightarrow> 'a catalog \<Rightarrow> 'a catalog" where
  "catalog_put database collection x m =
     AList.update database (AList.update collection x (case map_of m database of None \<Rightarrow> [] | Some byName \<Rightarrow> byName)) m"

definition catalog_entries :: "'a catalog \<Rightarrow> (js_string \<times> js_string \<times> 'a) list" where
  "catalog_entries m = concat (map (\<lambda>(database, byName). map (\<lambda>(collection, x). (database, collection, x)) byName) m)"

definition getCollection :: "js_string \<Rightarrow> js_string \<Rightarrow> engine \<Rightarrow> unit collection option" where
  "getCollection database collection E = catalog_find database collection (en_databases E)"

definition listDatabases :: "engine \<Rightarrow> js_string list" where
  "listDatabases E = sort_by compare_names (map fst (en_databases E))"

definition listCollections :: "js_string \<Rightarrow> engine \<Rightarrow> js_string list" where
  "listCollections database E =
     sort_by compare_names (case map_of (en_databases E) database of None \<Rightarrow> [] | Some byName \<Rightarrow> map fst byName)"

definition store_collection :: "js_string \<Rightarrow> js_string \<Rightarrow> unit collection \<Rightarrow> engine \<Rightarrow> engine" where
  "store_collection database collection C E = E\<lparr>en_databases := catalog_put database collection C (en_databases E)\<rparr>"

definition register ::
  "js_string \<Rightarrow> js_string \<Rightarrow> (doc_key \<times> bytes) list \<Rightarrow> index_spec list \<Rightarrow> (engine, unit) operation" where
  "register database collection documents indexes =
     bindS (fromR (new_collection None documents indexes)) (\<lambda>created. modifyS (store_collection database collection created))"

section \<open>Checkpoints\<close>

definition on_log :: "(wal, 'a) operation \<Rightarrow> (engine, 'a) operation" where
  "on_log m E = (case m (en_log E) of (r, w) \<Rightarrow> (r, E\<lparr>en_log := w\<rparr>))"

definition checkpoints_directory :: "engine \<Rightarrow> js_string" where
  "checkpoints_directory E = en_root E @ js ''/checkpoints''"

definition engine_assertOpen :: "(engine, unit) operation" where
  "engine_assertOpen = getsS (\<lambda>E. if en_closed E then Inl (StorageError Closed) else Inr ())"

text \<open>
  What a snapshot contains. A collection that commits the creation of an index has built the index
  by then, so its definition is listed already (\<open>building\<close>).
\<close>

type_synonym building = "js_string \<Rightarrow> js_string \<Rightarrow> index_spec list"

definition nothing_building :: building where
  "nothing_building database collection = []"

definition snapshot_collections :: "building \<Rightarrow> engine \<Rightarrow> checkpoint_collection list" where
  "snapshot_collections building E =
     map (\<lambda>(database, collection, store).
         \<lparr>cc_database = database, cc_collection = collection, cc_documents = co_documents store,
          cc_documentCount = documentCount store, cc_indexes = indexSpec store @ building database collection\<rparr>)
       (catalog_entries (en_databases E))"

definition beginCheckpoint :: "building \<Rightarrow> (engine, begun_checkpoint option) operation" where
  "beginCheckpoint building =
     bindS (getsS Inr) (\<lambda>E.
       let lsn = lastLsn (en_log E) in
       if lsn = 0 \<or> lsn = en_lastCheckpoint E then returnS None
       else
         bindS (on_log wal_sync) (\<lambda>_. bindS (getsS Inr) (\<lambda>E.
         returnS (Some
           \<lparr>bg_lsn = lsn, bg_collections = snapshot_collections building E,
            bg_documents = sum_list (map cc_documentCount (snapshot_collections building E)),
            bg_bytes = en_bytesSinceCheckpoint E\<rparr>))))"

fun remove_snapshots :: "checkpoint_file list \<Rightarrow> (wal, nat) operation" where
  "remove_snapshots [] = returnS 0"
| "remove_snapshots (old # snapshots) =
     bindS (catchS (unlinkSync (cf_path old)) (\<lambda>e. throwS (translateIo e))) (\<lambda>_.
     bindS (remove_snapshots snapshots) (\<lambda>removed. returnS (removed + 1)))"

definition finishCheckpoint :: "begun_checkpoint \<Rightarrow> js_string \<Rightarrow> (engine, checkpoint_result option) operation" where
  "finishCheckpoint begun name =
     bindS (getsS Inr) (\<lambda>E.
       if en_closed E then returnS None
       else
         let stage = st_onCheckpointStage (en_settings E); retention = st_checkpointRetention (en_settings E)
         in
         bindS (on_log (listCheckpoints (checkpoints_directory E))) (\<lambda>snapshots.
         bindS (on_log (remove_snapshots (drop retention snapshots))) (\<lambda>removedSnapshots.
         bindS (on_log (stage SnapshotsPruned)) (\<lambda>_.
         bindS (if length snapshots < retention then returnS 0
                else on_log (truncateThrough (cf_lsn (snapshots ! (retention - 1))))) (\<lambda>removedSegments.
         bindS (on_log (stage LogTruncated)) (\<lambda>_.
         bindS (modifyS (\<lambda>E. E\<lparr>en_lastCheckpoint := bg_lsn begun,
                  en_bytesSinceCheckpoint := en_bytesSinceCheckpoint E - bg_bytes begun,
                  en_nextCheckpointAt := st_checkpointThresholdBytes (en_settings E),
                  en_checkpointFailure := None\<rparr>)) (\<lambda>_.
         returnS (Some
           \<lparr>cr_lsn = bg_lsn begun, cr_file = name, cr_collections = length (bg_collections begun),
            cr_documents = bg_documents begun, cr_removedSnapshots = removedSnapshots,
            cr_removedSegments = removedSegments\<rparr>))))))))"

definition checkpoint_with :: "building \<Rightarrow> (engine, checkpoint_result option) operation" where
  "checkpoint_with building =
     bindS engine_assertOpen (\<lambda>_.
     bindS (beginCheckpoint building) (\<lambda>begun.
       case begun of
         None \<Rightarrow> returnS None
       | Some b \<Rightarrow>
           bindS (getsS Inr) (\<lambda>E.
           bindS (catchS (on_log (writeCheckpoint (checkpoints_directory E) (bg_lsn b) (bg_collections b)
                    (st_onCheckpointStage (en_settings E)))) (\<lambda>e. throwS (translateIo e))) (\<lambda>name.
           finishCheckpoint b name))))"

definition checkpoint :: "(engine, checkpoint_result option) operation" where
  "checkpoint = checkpoint_with nothing_building"

definition runAutomaticCheckpoint :: "building \<Rightarrow> (engine, unit) operation" where
  "runAutomaticCheckpoint building =
     catchS (bindS (checkpoint_with building) (\<lambda>_. returnS ()))
       (\<lambda>e. modifyS (\<lambda>E. E\<lparr>en_checkpointFailure := Some e,
              en_nextCheckpointAt := en_bytesSinceCheckpoint E + st_checkpointThresholdBytes (en_settings E)\<rparr>))"

definition checkpoint_due :: "engine \<Rightarrow> bool" where
  "checkpoint_due E \<longleftrightarrow> en_nextCheckpointAt E \<le> en_bytesSinceCheckpoint E"

definition runDueCheckpoint :: "building \<Rightarrow> (engine, unit) operation" where
  "runDueCheckpoint building =
     bindS (getsS (\<lambda>E. Inr (checkpoint_due E))) (\<lambda>due. if due then runAutomaticCheckpoint building else returnS ())"

section \<open>Writing\<close>

definition is_range_error :: "failure \<Rightarrow> bool" where
  "is_range_error e \<longleftrightarrow> e = RangeFailure \<or> e = OutOfRange"

definition append_operations :: "building \<Rightarrow> log_operation list \<Rightarrow> (engine, unit) operation" where
  "append_operations building operations =
     bindS engine_assertOpen (\<lambda>_.
     bindS (runDueCheckpoint building) (\<lambda>_.
     catchS
       (bindS (fromR (encodeOperations operations)) (\<lambda>payload.
        bindS (on_log (wal_append RecordTransaction payload)) (\<lambda>_.
        modifyS (\<lambda>E. E\<lparr>en_bytesSinceCheckpoint := en_bytesSinceCheckpoint E + (RECORD_HEADER_SIZE + length payload)\<rparr>))))
       (\<lambda>e. throwS (if is_range_error e then StorageError InvalidBatch else e))))"

fun toOperation :: "js_string \<Rightarrow> js_string \<Rightarrow> journal_operation \<Rightarrow> log_operation" where
  "toOperation database collection (JCreateIndex spec) = LCreateIndex database collection spec"
| "toOperation database collection (JDropIndex name) = LDropIndex database collection name"
| "toOperation database collection (JPut key doc) = LPut database collection (parse_hex key) doc"
| "toOperation database collection (JDelete key) = LDelete database collection (parse_hex key)"

text \<open>The journal of a collection.\<close>

definition building_of :: "js_string \<Rightarrow> js_string \<Rightarrow> journal_operation list \<Rightarrow> building" where
  "building_of database collection operations d c =
     (if d = database \<and> c = collection
      then List.map_filter (\<lambda>operation. case operation of JCreateIndex spec \<Rightarrow> Some spec | _ \<Rightarrow> None) operations
      else [])"

definition engine_commit :: "js_string \<Rightarrow> js_string \<Rightarrow> engine journal_commit" where
  "engine_commit database collection operations =
     append_operations (building_of database collection operations) (map (toOperation database collection) operations)"

definition with_journal :: "'j option \<Rightarrow> 'k collection \<Rightarrow> 'j collection" where
  "with_journal journal C =
     \<lparr>co_documents = co_documents C, co_journal = journal, co_indexes = co_indexes C,
      co_sequence = co_sequence C, co_nextSequence = co_nextSequence C\<rparr>"

text \<open>An operation on a collection of the engine; there is none of a collection that does not exist.\<close>

definition hosted ::
  "js_string \<Rightarrow> js_string \<Rightarrow> (engine journal_commit \<Rightarrow> (engine collection, 'a) operation) \<Rightarrow> (engine, 'a) operation" where
  "hosted database collection m E =
     (case getCollection database collection E of
        None \<Rightarrow> (Inl TypeFailure, E)
      | Some C \<Rightarrow>
          (case m (engine_commit database collection) (with_journal (Some E) C) of
             (r, C') \<Rightarrow> (r, case co_journal C' of
               None \<Rightarrow> E
             | Some E' \<Rightarrow> store_collection database collection (with_journal None C') E')))"

definition openCollection :: "js_string \<Rightarrow> js_string \<Rightarrow> (engine, unit) operation" where
  "openCollection database collection =
     bindS (getsS (\<lambda>E. Inr (getCollection database collection E))) (\<lambda>existing.
       case existing of
         Some _ \<Rightarrow> returnS ()
       | None \<Rightarrow>
           bindS (append_operations nothing_building [LCreateCollection database collection]) (\<lambda>_.
           register database collection [] []))"

definition engine_commit_log :: "(engine, unit) operation" where
  "engine_commit_log = bindS (getsS Inr) (\<lambda>E. if en_closed E then returnS () else on_log wal_commit)"

definition hasUncommittedWrites :: "engine \<Rightarrow> bool" where
  "hasUncommittedWrites E \<longleftrightarrow> \<not> en_closed E \<and> wl_unsynced (en_log E)"

fun validate_all :: "(js_string \<times> js_string \<times> unit collection) list \<Rightarrow> failure + (js_string \<times> js_string \<times> index_issue list) list" where
  "validate_all [] = Inr []"
| "validate_all ((database, collection, store) # rest) =
     bindR (validateIndexes store) (\<lambda>issues. bindR (validate_all rest) (\<lambda>reports.
       Inr ((database, collection, issues) # reports)))"

definition engine_validateIndexes :: "engine \<Rightarrow> failure + (js_string \<times> js_string \<times> index_issue list) list" where
  "engine_validateIndexes E = validate_all (catalog_entries (en_databases E))"

text \<open>The bodies of the two timers.\<close>

definition flush_tick :: "(engine, unit) operation" where
  "flush_tick = catchS (on_log wal_flush) (\<lambda>_. returnS ())"

definition checkpoint_tick :: "(engine, unit) operation" where
  "checkpoint_tick =
     bindS (getsS Inr) (\<lambda>E.
       if en_closed E then returnS ()
       else catchS (bindS checkpoint (\<lambda>_. returnS ())) (\<lambda>e. modifyS (\<lambda>E. E\<lparr>en_checkpointFailure := Some e\<rparr>)))"

definition close_engine :: "(engine, unit) operation" where
  "close_engine =
     bindS (getsS Inr) (\<lambda>E.
       if en_closed E then returnS ()
       else
         bindS (if st_checkpointOnClose (en_settings E) \<and> en_lastCheckpoint E < lastLsn (en_log E)
                then catchS (bindS checkpoint (\<lambda>_. returnS None)) (\<lambda>e. returnS (Some e)) else returnS None) (\<lambda>failure.
         bindS (modifyS (\<lambda>E. E\<lparr>en_closed := True\<rparr>)) (\<lambda>_.
         bindS (catchS (bindS (on_log close_wal) (\<lambda>_. returnS failure))
                  (\<lambda>e. returnS (case failure of None \<Rightarrow> Some e | Some f \<Rightarrow> Some f))) (\<lambda>failure.
         bindS (modifyS (\<lambda>E. E\<lparr>en_locked := False\<rparr>)) (\<lambda>_.
         case failure of None \<Rightarrow> returnS () | Some e \<Rightarrow> throwS e)))))"

section \<open>Recovery\<close>

definition applyRecovered :: "log_operation \<Rightarrow> recovered_state catalog \<Rightarrow> failure + recovered_state catalog" where
  "applyRecovered operation recovered =
     (case operation of
        LCreateCollection database collection \<Rightarrow>
          Inr (case catalog_find database collection recovered of
                 Some _ \<Rightarrow> recovered
               | None \<Rightarrow> catalog_put database collection \<lparr>rs_documents = [], rs_indexes = []\<rparr> recovered)
      | LCreateIndex database collection spec \<Rightarrow>
          (case catalog_find database collection recovered of
             None \<Rightarrow> Inl corruption
           | Some s \<Rightarrow>
               (case find (\<lambda>index. is_name index = is_name spec) (rs_indexes s) of
                  None \<Rightarrow> Inr (catalog_put database collection (s\<lparr>rs_indexes := rs_indexes s @ [spec]\<rparr>) recovered)
                | Some existing \<Rightarrow> if sameDefinition existing spec then Inr recovered else Inl corruption))
      | LDropIndex database collection name \<Rightarrow>
          (case catalog_find database collection recovered of
             None \<Rightarrow> Inl corruption
           | Some s \<Rightarrow>
               (case List.extract (\<lambda>index. is_name index = name) (rs_indexes s) of
                  None \<Rightarrow> Inl corruption
                | Some (before, _, after) \<Rightarrow> Inr (catalog_put database collection (s\<lparr>rs_indexes := before @ after\<rparr>) recovered)))
      | LPut database collection docId doc \<Rightarrow>
          (case catalog_find database collection recovered of
             None \<Rightarrow> Inl corruption
           | Some s \<Rightarrow> Inr (catalog_put database collection (s\<lparr>rs_documents := AList.update (toHexString docId) doc (rs_documents s)\<rparr>) recovered))
      | LDelete database collection docId \<Rightarrow>
          (case catalog_find database collection recovered of
             None \<Rightarrow> Inl corruption
           | Some s \<Rightarrow> Inr (catalog_put database collection (s\<lparr>rs_documents := AList.delete (toHexString docId) (rs_documents s)\<rparr>) recovered)))"

fun apply_all :: "log_operation list \<Rightarrow> recovered_state catalog \<Rightarrow> failure + recovered_state catalog" where
  "apply_all [] recovered = Inr recovered"
| "apply_all (operation # operations) recovered = bindR (applyRecovered operation recovered) (apply_all operations)"

text \<open>The snapshot to start from, its file, and the newer ones that could not be used.\<close>

fun choose_base ::
  "checkpoint_file list \<Rightarrow> js_string list \<Rightarrow> (wal, (read_checkpoint \<times> js_string) option \<times> js_string list) operation" where
  "choose_base [] skipped w = (Inr (None, skipped), w)"
| "choose_base (candidate # older) skipped w =
     (case bindS (readCheckpoint (cf_path candidate)) (\<lambda>base.
             if ck_lsn base \<noteq> cf_lsn candidate then throwS CheckpointDamaged else returnS base) w of
        (Inr base, w') \<Rightarrow> (Inr (Some (base, cf_file candidate), skipped), w')
      | (Inl e, w') \<Rightarrow> choose_base older (skipped @ [cf_file candidate]) w')"

definition recovered_catalog :: "recovered_collection list \<Rightarrow> recovered_state catalog" where
  "recovered_catalog collections =
     foldl (\<lambda>m c. catalog_put (rc_database c) (rc_collection c)
                    \<lparr>rs_documents = rc_documents c, rs_indexes = rc_indexes c\<rparr> m) [] collections"

fun replay_records :: "wal_record list \<Rightarrow> recovered_state catalog \<Rightarrow> (engine, recovered_state catalog) operation" where
  "replay_records [] recovered = returnS recovered"
| "replay_records (r # rs) recovered =
     bindS (modifyS (\<lambda>E. E\<lparr>en_bytesSinceCheckpoint := en_bytesSinceCheckpoint E + (RECORD_HEADER_SIZE + length (wr_payload r))\<rparr>)) (\<lambda>_.
     if wr_type r \<noteq> RecordTransaction then throwS corruption
     else
       bindS (fromR (mapErr (\<lambda>_. corruption) (decodeOperations (wr_payload r)))) (\<lambda>operations.
       bindS (fromR (apply_all operations recovered)) (replay_records rs)))"

fun register_all :: "(js_string \<times> js_string \<times> recovered_state) list \<Rightarrow> (engine, nat) operation" where
  "register_all [] = returnS 0"
| "register_all ((database, collection, s) # rest) =
     bindS (catchS (register database collection (rs_documents s) (rs_indexes s))
              (\<lambda>e. throwS (if is_storage_error e then corruption else e))) (\<lambda>_.
     bindS (register_all rest) (\<lambda>rebuilt. returnS (length (rs_indexes s) + rebuilt)))"

definition recover :: "(engine, unit) operation" where
  "recover =
     bindS (getsS (\<lambda>E. Inr (checkpoints_directory E))) (\<lambda>directory.
     bindS (on_log (removeTemporaryCheckpoints directory)) (\<lambda>_.
     bindS (on_log (listCheckpoints directory)) (\<lambda>listed.
     bindS (on_log (choose_base listed [])) (\<lambda>(base, skipped).
     let baseLsn = (case base of None \<Rightarrow> 0 | Some (b, _) \<Rightarrow> ck_lsn b);
         collections = (case base of None \<Rightarrow> [] | Some (b, _) \<Rightarrow> ck_collections b)
     in
     bindS (getsS (\<lambda>E. if firstLsn (en_log E) > baseLsn + 1 \<or> lastLsn (en_log E) < baseLsn then Inl corruption else Inr ())) (\<lambda>_.
     bindS (on_log (wal_records baseLsn)) (\<lambda>records.
     bindS (replay_records records (recovered_catalog collections)) (\<lambda>recovered.
     bindS (register_all (catalog_entries recovered)) (\<lambda>rebuilt.
     modifyS (\<lambda>E. E\<lparr>en_lastCheckpoint := baseLsn,
       en_report := \<lparr>rp_checkpointLsn = baseLsn, rp_checkpointFile = map_option snd base,
         rp_skippedCheckpoints = skipped, rp_replayedRecords = length records,
         rp_rebuiltIndexes = rebuilt, rp_lastLsn = lastLsn (en_log E)\<rparr>\<rparr>)))))))))"

section \<open>Opening\<close>

definition positive_setting :: "js_number \<Rightarrow> int \<Rightarrow> bool" where
  "positive_setting n least \<longleftrightarrow> isSafeInteger n \<and> num_int n \<ge> least"

text \<open>The checks of the options and the settings made from them.\<close>

definition engine_settings :: "engine_options \<Rightarrow> failure + settings" where
  "engine_settings options =
     (let threshold = option_default (eo_checkpointThresholdBytes options) (num_of_int (int DEFAULT_CHECKPOINT_THRESHOLD_BYTES));
          flushInterval = option_default (eo_memoryFlushIntervalMs options) (num_of_int (int DEFAULT_MEMORY_FLUSH_INTERVAL_MS));
          retention = option_default (eo_checkpointRetention options) (num_of_int (int DEFAULT_CHECKPOINT_RETENTION))
      in if \<not> positive_setting threshold 1 then Inl TypeFailure
         else if \<not> positive_setting flushInterval 1 then Inl TypeFailure
         else if \<not> positive_setting retention 2 then Inl TypeFailure
         else if (case eo_checkpointIntervalMs options of None \<Rightarrow> False | Some n \<Rightarrow> \<not> positive_setting n 1) then Inl TypeFailure
         else Inr \<lparr>st_checkpointThresholdBytes = nat (num_int threshold), st_checkpointRetention = nat (num_int retention),
                   st_checkpointOnClose = option_default (eo_checkpointOnClose options) True,
                   st_onCheckpointStage = eo_onCheckpointStage options\<rparr>)"

definition wal_options_of :: "engine_options \<Rightarrow> wal_options" where
  "wal_options_of options =
     \<lparr>wo_directory = eo_directory options @ js ''/wal'', wo_writeConcern = eo_writeConcern options,
      wo_groupCommit = eo_groupCommit options, wo_segmentSizeBytes = eo_segmentSizeBytes options\<rparr>"

definition no_report :: recovery_report where
  "no_report = \<lparr>rp_checkpointLsn = 0, rp_checkpointFile = None, rp_skippedCheckpoints = [], rp_replayedRecords = 0,
     rp_rebuiltIndexes = 0, rp_lastLsn = 0\<rparr>"

definition new_engine :: "js_string \<Rightarrow> wal \<Rightarrow> settings \<Rightarrow> engine" where
  "new_engine directory w settings =
     \<lparr>en_root = directory, en_log = w, en_locked = True, en_settings = settings, en_databases = [], en_closed = False,
      en_lastCheckpoint = 0, en_bytesSinceCheckpoint = 0, en_nextCheckpointAt = st_checkpointThresholdBytes settings,
      en_checkpointFailure = None, en_report = no_report\<rparr>"

text \<open>
  Opening the log and recovering from it; the log is closed again when that fails. The files of a
  failed attempt are what it left on the disk.
\<close>

definition disk_of :: "wal \<Rightarrow> os" where
  "disk_of w = \<lparr>os_files = os_files w, os_faults = os_faults w\<rparr>"

definition open_engine :: "engine_options \<Rightarrow> settings \<Rightarrow> (os, engine) operation" where
  "open_engine options settings st =
     (case open_wal (wal_options_of options) st of
        (Inl e, st') \<Rightarrow> (Inl e, st')
      | (Inr w, st') \<Rightarrow>
          (case recover (new_engine (eo_directory options) w settings) of
             (Inr _, E) \<Rightarrow> (Inr E, disk_of (en_log E))
           | (Inl e, E) \<Rightarrow>
               (case close_wal (en_log E) of
                  (Inl e', w) \<Rightarrow> (Inl e', disk_of w)
                | (Inr _, w) \<Rightarrow> (Inl e, disk_of w))))"

end
