(* ===== verification/Collection_Query.thy ===== *)
theory Collection_Query
  imports Collection
begin

text \<open>
  What a collection means: the list of its decoded documents in insertion order. The queries of
  \<open>in-memory-collection.ts\<close> give the answers of a plain scan of that list, whatever indexes there
  are, and no query fails on a collection that satisfies the invariant.
\<close>

section \<open>The documents of a collection\<close>

definition decoded :: "bytes \<Rightarrow> document" where
  "decoded bs = (case decodeDocument bs of Inr d \<Rightarrow> d | Inl _ \<Rightarrow> [])"

definition view_of :: "(doc_key \<times> bytes) list \<Rightarrow> (doc_key \<times> document) list" where
  "view_of docs = map (\<lambda>(k, bs). (k, decoded bs)) docs"

abbreviation view :: "'j collection \<Rightarrow> (doc_key \<times> document) list" where
  "view C \<equiv> view_of (co_documents C)"

definition stored_ok :: "doc_key \<Rightarrow> bytes \<Rightarrow> bool" where
  "stored_ok k bs \<longleftrightarrow> (\<exists>d docId. decodeDocument bs = Inr d \<and> storable (DDocument d) \<and>
     map_of d (js ''_id'') = Some (DCustomId docId) \<and> k = toHexString docId)"

definition docs_inv :: "(doc_key \<times> bytes) list \<Rightarrow> bool" where
  "docs_inv docs \<longleftrightarrow> distinct (map fst docs) \<and> (\<forall>(k, bs) \<in> set docs. stored_ok k bs)"

text \<open>The sequence numbers increase along the documents and stay below the next one.\<close>

definition seq_ok :: "doc_key list \<Rightarrow> (doc_key \<times> nat) list \<Rightarrow> nat \<Rightarrow> bool" where
  "seq_ok keys sequence next \<longleftrightarrow>
     (\<forall>k \<in> set keys. \<exists>n. map_of sequence k = Some n \<and> n < next) \<and>
     sorted_wrt (\<lambda>a b. the (map_of sequence a) < the (map_of sequence b)) keys"

definition coll_inv :: "'j collection \<Rightarrow> bool" where
  "coll_inv C \<longleftrightarrow> docs_inv (co_documents C) \<and> set_repr (co_indexes C) (map_of (view C)) \<and>
     all_unique (co_indexes C) (map_of (view C)) \<and>
     (case co_sequence C of
        None \<Rightarrow> co_indexes C = []
      | Some sequence \<Rightarrow> co_indexes C \<noteq> [] \<and> seq_ok (map fst (co_documents C)) sequence (co_nextSequence C))"

lemma fst_view_of [simp]: "map fst (view_of docs) = map fst docs"
  by (induction docs) (auto simp: view_of_def)

lemma map_of_view_of: "map_of (view_of docs) k = map_option decoded (map_of docs k)"
  by (induction docs) (auto simp: view_of_def)

lemma stored_ok_decoded:
  assumes "stored_ok k bs"
  shows "decode_stored bs = Inr (decoded bs)" "storable (DDocument (decoded bs))"
    "\<exists>docId. map_of (decoded bs) (js ''_id'') = Some (DCustomId docId) \<and> k = toHexString docId"
  using assms by (auto simp: stored_ok_def decoded_def decode_stored_def)

lemma docs_inv_mem: "docs_inv docs \<Longrightarrow> (k, bs) \<in> set docs \<Longrightarrow> stored_ok k bs"
  by (auto simp: docs_inv_def)

lemma docs_inv_get: "docs_inv docs \<Longrightarrow> map_of docs k = Some bs \<Longrightarrow> stored_ok k bs"
  by (auto dest: map_of_SomeD docs_inv_mem)

lemma docs_inv_view:
  assumes "docs_inv docs"
  shows "docs_list_ok (view_of docs)" "docs_ok (map_of (view_of docs))" "keyed_by_id (map_of (view_of docs))"
proof -
  show v: "docs_list_ok (view_of docs)"
    unfolding docs_list_ok_def fst_view_of using assms
    by (auto simp: docs_inv_def view_of_def dest: stored_ok_decoded(2))
  then show "docs_ok (map_of (view_of docs))" by (rule docs_list_ok_docs_ok)
  show "keyed_by_id (map_of (view_of docs))"
    unfolding keyed_by_id_def map_of_view_of
    using docs_inv_get[OF assms] stored_ok_decoded(3) by fastforce
qed

lemma decodedEntries_ok: "docs_inv docs \<Longrightarrow> decodedEntries docs = (view_of docs, None)"
  by (induction docs rule: decodedEntries.induct)
     (auto simp: docs_inv_def view_of_def stored_ok_decoded(1))

section \<open>Candidates\<close>

lemma candidateKeys_distinct: "candidateKeys p = Some ks \<Longrightarrow> distinct ks"
proof -
  have "distinct r \<Longrightarrow> distinct (foldl (\<lambda>result v. foldl (\<lambda>result key. set_add key result) result (g v)) r vs)"
    for g and r :: "doc_key list" and vs :: "doc_value list"
    by (induction vs arbitrary: r) (simp_all add: distinct_foldl_set_add)
  then show "candidateKeys p = Some ks \<Longrightarrow> distinct ks"
    by (auto simp: candidateKeys_def distinct_foldl_set_add lookupRange_def Let_def distinct_lookup_fold
        split: query_plan.splits index_access.splits prod.splits)
qed

definition seq_cmp :: "'j collection \<Rightarrow> doc_key \<Rightarrow> doc_key \<Rightarrow> int" where
  "seq_cmp C left right = sequence_of C left - sequence_of C right"

interpretation seq_order: comparator "seq_cmp C" "\<lambda>_. True" for C
  by unfold_locales (auto simp: seq_cmp_def)

lemma map_filter_documents:
  assumes "distinct (map fst docs)"
  shows "List.map_filter (\<lambda>key. map_option (Pair key) (map_of docs key)) (filter P (map fst docs)) =
    filter (\<lambda>(k, bs). P k) docs"
proof -
  have "List.map_filter (\<lambda>key. map_option (Pair key) (map_of all key)) (filter P (map fst docs)) =
      filter (\<lambda>(k, bs). P k) docs" if "\<forall>(k, bs) \<in> set docs. map_of all k = Some bs" for all
    using that by (induction docs) (auto simp: List.map_filter_simps)
  moreover have "\<forall>(k, bs) \<in> set docs. map_of docs k = Some bs" using assms by auto
  ultimately show ?thesis by blast
qed

text \<open>Index results, sorted by sequence number, are the documents in insertion order.\<close>

lemma candidates_eq:
  assumes "coll_inv C"
  shows "candidates f C = co_documents C \<or>
    (\<exists>found. candidateKeys (plan f C) = Some found \<and>
       candidates f C = filter (\<lambda>(k, bs). k \<in> set found) (co_documents C))"
proof (cases "set_isEmpty (co_indexes C) \<or> candidateKeys (plan f C) = None")
  case True
  then show ?thesis by (auto simp: candidates_def)
next
  case False
  then obtain found where found: "candidateKeys (plan f C) = Some found" and ne: "co_indexes C \<noteq> []"
    by (auto simp: set_isEmpty_def)
  obtain sequence where sequence: "co_sequence C = Some sequence" "seq_ok (map fst (co_documents C)) sequence (co_nextSequence C)"
    using assms ne by (auto simp: coll_inv_def split: option.splits)
  let ?keys = "map fst (co_documents C)"
  let ?found = "filter (\<lambda>key. has_document key C) found" and ?in = "filter (\<lambda>k. k \<in> set found) ?keys"
  have d: "distinct ?keys" using assms by (simp add: coll_inv_def docs_inv_def)
  have seq: "sequence_of C k = int (the (map_of sequence k))" if "k \<in> set ?keys" for k
    using that sequence by (auto simp: sequence_of_def seq_ok_def)
  have inj: "a = b" if "a \<in> set ?keys" "b \<in> set ?keys" "seq_cmp C a b = 0" for a b
  proof (rule ccontr)
    assume "a \<noteq> b"
    then have "the (map_of sequence a) \<noteq> the (map_of sequence b)"
      using sequence(2) that(1,2) unfolding seq_ok_def by (metis (no_types, lifting) in_set_conv_nth less_irrefl linorder_neqE_nat sorted_wrt_nth_less)
    with that seq show False by (simp add: seq_cmp_def)
  qed
  have "set ?found = set ?in" by (auto simp: has_document_def map_of_eq_None_iff)
  then have "mset ?found = mset ?in"
    using candidateKeys_distinct[OF found] d set_eq_iff_mset_eq_distinct[of ?found ?in] by (simp only: distinct_filter)
  then have "sort_by (seq_cmp C) ?found = sort_by (seq_cmp C) ?in"
    using inj by (intro seq_order.sort_by_mset_eq) (auto simp: has_document_def map_of_eq_None_iff)
  also have "\<dots> = ?in"
  proof (rule seq_order.sort_by_sorted_id)
    have "sorted_wrt (\<lambda>a b. seq_cmp C a b \<le> 0) ?keys"
      using sequence(2) seq by (auto simp: seq_ok_def seq_cmp_def intro: sorted_wrt_mono_rel[rotated])
    then show "sorted_wrt (\<lambda>a b. seq_cmp C a b \<le> 0) ?in" by (rule sorted_wrt_filter)
  qed
  finally have "candidates f C = List.map_filter (\<lambda>key. map_option (Pair key) (map_of (co_documents C) key)) ?in"
    using found ne by (simp add: candidates_def set_isEmpty_def seq_cmp_def[abs_def])
  then show ?thesis using found map_filter_documents[OF d, of "\<lambda>k. k \<in> set found"] by simp
qed

lemma candidates_filter:
  assumes "coll_inv C" "compileFilter (DDocument f) = Inr m"
  shows "filter (\<lambda>(k, bs). m (decoded bs)) (candidates f C) = filter (\<lambda>(k, bs). m (decoded bs)) (co_documents C)"
    and "set (candidates f C) \<subseteq> set (co_documents C)"
proof -
  have inv: "docs_inv (co_documents C)" "set_repr (co_indexes C) (map_of (view C))" using assms(1) by (simp_all add: coll_inv_def)
  note v = docs_inv_view[OF inv(1)]
  have "k \<in> set found" if "candidateKeys (plan f C) = Some found" "(k, bs) \<in> set (co_documents C)" "m (decoded bs)" for found k bs
  proof -
    have "map_of (view C) k = Some (decoded bs)" using that(2) inv(1) by (simp add: map_of_view_of docs_inv_def)
    from planQuery_covers[OF assms(2) inv(2) v(2,3) this that(3), of "documentCount C"] that(1)
    show ?thesis by (simp add: covers_def plan_def)
  qed
  then have "filter (\<lambda>(k, bs). m (decoded bs)) (filter (\<lambda>(k, bs). k \<in> set found) (co_documents C)) =
      filter (\<lambda>(k, bs). m (decoded bs)) (co_documents C)" if "candidateKeys (plan f C) = Some found" for found
    using that unfolding filter_filter by (intro filter_cong refl) auto
  then show "filter (\<lambda>(k, bs). m (decoded bs)) (candidates f C) = filter (\<lambda>(k, bs). m (decoded bs)) (co_documents C)"
    using candidates_eq[OF assms(1), of f] by metis
  show "set (candidates f C) \<subseteq> set (co_documents C)" using candidates_eq[OF assms(1), of f] by auto
qed

section \<open>Queries\<close>

text \<open>The reference: the matching documents of the collection, in insertion order.\<close>

definition matching :: "compiled_filter \<Rightarrow> 'j collection \<Rightarrow> (doc_key \<times> document) list" where
  "matching m C = filter (\<lambda>(k, d). m d) (view C)"

lemma matching_documents_ok:
  "\<forall>(k, bs) \<in> set es. decode_stored bs = Inr (decoded bs) \<Longrightarrow>
   matching_documents m es = Inr (filter m (map (\<lambda>(k, bs). decoded bs) es))"
  by (induction m es rule: matching_documents.induct) auto

lemma matching_entries_ok:
  "\<forall>(k, bs) \<in> set es. decode_stored bs = Inr (decoded bs) \<Longrightarrow>
   matching_entries m es = Inr (map (\<lambda>(k, bs). (k, decoded bs)) (filter (\<lambda>(k, bs). m (decoded bs)) es))"
  by (induction m es rule: matching_entries.induct) auto

lemma scan_loop_ok:
  "\<forall>(k, bs) \<in> set es. decode_stored bs = Inr (decoded bs) \<Longrightarrow> skipped \<le> skip \<Longrightarrow>
   (\<forall>n. limit = Some n \<longrightarrow> yielded \<le> n) \<Longrightarrow>
   scan_loop m skip limit skipped yielded es =
     Inr ((case limit of None \<Rightarrow> id | Some n \<Rightarrow> take (n - yielded))
            (drop (skip - skipped) (filter m (map (\<lambda>(k, bs). decoded bs) es))))"
proof (induction m skip limit skipped yielded es rule: scan_loop.induct)
  case (2 m skip limit skipped yielded key encoded rest)
  show ?case
  proof (cases "case limit of None \<Rightarrow> False | Some n \<Rightarrow> n \<le> yielded")
    case True
    then show ?thesis by (auto split: option.splits)
  next
    case False
    have dec: "decode_stored encoded = Inr (decoded encoded)" using "2.prems"(1) by simp
    have rest: "\<forall>(k, bs) \<in> set rest. decode_stored bs = Inr (decoded bs)" using "2.prems"(1) by simp
    consider "\<not> m (decoded encoded)" | "m (decoded encoded)" "skipped < skip" | "m (decoded encoded)" "skipped = skip"
      using "2.prems"(2) by linarith
    then show ?thesis
    proof cases
      case 1
      then show ?thesis using "2.IH"(1)[OF False dec 1 rest "2.prems"(2,3)] dec False by simp
    next
      case 2
      then have "skip - skipped = Suc (skip - (skipped + 1))" by simp
      then show ?thesis using "2.IH"(2)[OF False dec _ 2(2) rest] "2.prems"(3) 2 dec False by simp
    next
      case 3
      have lim: "\<forall>n. limit = Some n \<longrightarrow> yielded + 1 \<le> n" using False by auto
      from "2.IH"(3)[OF False dec _ _ rest "2.prems"(2) lim] 3
      have "scan_loop m skip limit skipped (yielded + 1) rest =
          Inr ((case limit of None \<Rightarrow> id | Some n \<Rightarrow> take (n - (yielded + 1)))
            (drop (skip - skipped) (filter m (map (\<lambda>(k, bs). decoded bs) rest))))" by simp
      moreover have "n - yielded = Suc (n - (yielded + 1))" if "limit = Some n" for n using lim that by auto
      ultimately show ?thesis using 3 dec False by (auto split: option.splits)
    qed
  qed
qed (auto split: option.splits)

lemma documents_matching:
  "filter m (map (\<lambda>(k, bs). decoded bs) docs) = map (\<lambda>(k, bs). decoded bs) (filter (\<lambda>(k, bs). m (decoded bs)) docs)"
  by (induction docs) auto

lemma matching_view: "map snd (matching m C) = map (\<lambda>(k, bs). decoded bs) (filter (\<lambda>(k, bs). m (decoded bs)) (co_documents C))"
  unfolding matching_def view_of_def by (induction "co_documents C") (auto simp: filter_map comp_def split_def)

lemma candidates_decode:
  assumes "coll_inv C" "compileFilter (DDocument f) = Inr m"
  shows "\<forall>(k, bs) \<in> set (candidates f C). decode_stored bs = Inr (decoded bs)"
proof -
  have "docs_inv (co_documents C)" using assms(1) by (simp add: coll_inv_def)
  then show ?thesis using candidates_filter(2)[OF assms] by (blast dest: docs_inv_mem stored_ok_decoded(1))
qed

text \<open>\<open>find\<close> is the reference query: filter, sort, skip, limit.\<close>

definition page :: "nat \<Rightarrow> nat option \<Rightarrow> 'a list \<Rightarrow> 'a list" where
  "page skip limit xs = (case limit of None \<Rightarrow> drop skip xs | Some n \<Rightarrow> take n (drop skip xs))"

lemma scan_ok:
  assumes "coll_inv C" "compileFilter (DDocument f) = Inr m"
  shows "scan f m sorter skip limit C =
    Inr (page skip limit ((case sorter of None \<Rightarrow> id | Some s \<Rightarrow> s) (map snd (matching m C))))"
proof -
  note dec = candidates_decode[OF assms]
  have ms: "filter m (map (\<lambda>(k, bs). decoded bs) (candidates f C)) = map snd (matching m C)"
    unfolding documents_matching candidates_filter(1)[OF assms] matching_view ..
  show ?thesis
    using scan_loop_ok[OF dec, of 0 skip limit 0 m] matching_documents_ok[OF dec, of m]
    by (auto simp: scan_def ms page_def Let_def take_drop add.commute split: option.splits)
qed

lemma compileFilter_document: "compileFilter v = Inr m \<Longrightarrow> v = DDocument (filter_document v)"
  by (auto simp: compileFilter_Inr filter_document_def)

text \<open>The first matching document, as \<open>findOne\<close> and \<open>locate\<close> return it.\<close>

definition first_stored :: "compiled_filter \<Rightarrow> 'j collection \<Rightarrow> (doc_key \<times> bytes) option" where
  "first_stored m C = find (\<lambda>(k, bs). m (decoded bs)) (co_documents C)"

definition located_of :: "doc_key \<times> bytes \<Rightarrow> located_document" where
  "located_of p = \<lparr>ld_key = fst p, ld_encoded = snd p, ld_document = decoded (snd p)\<rparr>"

lemma first_match_ok:
  "\<forall>(k, bs) \<in> set es. decode_stored bs = Inr (decoded bs) \<Longrightarrow>
   first_match m es = Inr (map_option located_of (find (\<lambda>(k, bs). m (decoded bs)) es))"
  by (induction m es rule: first_match.induct) (auto simp: located_of_def)

lemma find_filter: "find P xs = (case filter P xs of [] \<Rightarrow> None | x # _ \<Rightarrow> Some x)"
  by (induction xs) auto

lemma entry_constraints:
  assumes "storable (DDocument d)"
  shows "compile_entries f = Inr c \<Longrightarrow> clauses_filter c d \<Longrightarrow> (field, v) \<in> set f \<Longrightarrow> \<not> starts_dollar field \<Longrightarrow>
    k \<in> set (field_constraints v) \<Longrightarrow> \<exists>w. resolveField d (split_path field) = Some w \<and> constraint_holds k w"
proof (induction f arbitrary: c)
  case (Cons p f)
  show ?case
  proof (cases "p = (field, v)")
    case True
    with Cons.prems obtain g fields logical where g: "compileField field v = Inr g" "c = (g # fields, logical)" by auto
    then have "list_all (\<lambda>p. p (resolveField d (cf_segments g))) (cf_predicates g)"
      using Cons.prems(2) by (simp add: clauses_filter_def matchesCompiledFilter_def)
    then show ?thesis using compileField_implies[OF g(1) Cons.prems(5)] resolveField_storable[OF assms]
      by (auto simp: list_all_iff predicate_implies_def)
  next
    case False
    obtain c' where "compile_entries f = Inr c'" "clauses_filter c' d"
      using Cons.prems(1,2) by (cases p) (auto simp: clauses_filter_def matchesCompiledFilter_def split: if_splits)
    with False Cons show ?thesis by auto
  qed
qed simp

lemma id_constraint:
  assumes "compileFilter (DDocument f) = Inr m" "m d" "storable (DDocument d)" "map_of f (js ''_id'') = Some (DCustomId docId)"
  shows "\<exists>v. map_of d (js ''_id'') = Some v \<and> canonicalKey v = canonicalKey (DCustomId docId)"
proof -
  obtain c where c: "compile_entries f = Inr c" "m = clauses_filter c" using assms(1) by (auto simp: compileFilter_Inr)
  have "\<not> starts_dollar (js ''_id'')" "split_path (js ''_id'') = [js ''_id'']"
    by (simp_all add: starts_dollar_def split_path_def js_def of_char_def)
  with entry_constraints[OF assms(3) c(1) _ map_of_SomeD[OF assms(4)], of "CEqual (DCustomId docId)"] assms(2) c(2)
  show ?thesis by (simp add: field_constraints_def)
qed

lemma filter_id_matches:
  assumes "compileFilter (DDocument f) = Inr m" "filter_id f = Some docId" "m d" "storable (DDocument d)"
    "map_of d (js ''_id'') = Some (DCustomId other)"
  shows "other = docId"
proof -
  have id: "map_of f (js ''_id'') = Some (DCustomId docId)"
    using assms(2) by (auto simp: filter_id_def split: option.splits doc_value.splits)
  have "\<exists>v. map_of d (js ''_id'') = Some v \<and> canonicalKey v = canonicalKey (DCustomId docId)"
    using id_constraint[OF assms(1,3,4) id] .
  then have "canonicalKey (DCustomId other) = canonicalKey (DCustomId docId)" using assms(5) by simp
  then show ?thesis using canonicalKey_id[of other "DCustomId docId"] storable_field[OF assms(4,5)] by simp
qed

lemma find_distinct_key:
  assumes "distinct (map fst docs)" "\<And>k bs. (k, bs) \<in> set docs \<Longrightarrow> P (k, bs) \<Longrightarrow> k = key"
  shows "find P docs = (case map_of docs key of None \<Rightarrow> None | Some bs \<Rightarrow> if P (key, bs) then Some (key, bs) else None)"
  using assms
proof (induction docs)
  case (Cons p docs)
  show ?case
  proof (cases "fst p = key")
    case True
    then have "map_of docs key = None" using Cons.prems(1) by (auto simp: map_of_eq_None_iff)
    then have "find P docs = None" using Cons by auto
    then show ?thesis using True by (cases p) auto
  next
    case False
    then show ?thesis using Cons by (cases p) auto
  qed
qed simp

lemma locate_ok:
  assumes "coll_inv C" "compileFilter (DDocument f) = Inr m"
  shows "locate f m C = Inr (map_option located_of (first_stored m C))"
proof (cases "filter_id f")
  case None
  have "find (\<lambda>(k, bs). m (decoded bs)) (candidates f C) = first_stored m C"
    unfolding first_stored_def find_filter candidates_filter(1)[OF assms] ..
  then show ?thesis using None first_match_ok[OF candidates_decode[OF assms], of m] by (simp add: locate_def)
next
  case (Some docId)
  have inv: "docs_inv (co_documents C)" using assms(1) by (simp add: coll_inv_def)
  have "k = toHexString docId" if "(k, bs) \<in> set (co_documents C)" "m (decoded bs)" for k bs
  proof -
    note ok = stored_ok_decoded(2,3)[OF docs_inv_mem[OF inv that(1)]]
    then show ?thesis using filter_id_matches[OF assms(2) Some that(2) ok(1)] by blast
  qed
  then have f: "first_stored m C = (case map_of (co_documents C) (toHexString docId) of None \<Rightarrow> None
      | Some bs \<Rightarrow> if m (decoded bs) then Some (toHexString docId, bs) else None)"
    unfolding first_stored_def using inv
    by (subst find_distinct_key[where key = "toHexString docId"]) (auto simp: docs_inv_def split: option.splits)
  show ?thesis
  proof (cases "map_of (co_documents C) (toHexString docId)")
    case (Some bs)
    then have "decode_stored bs = Inr (decoded bs)" using stored_ok_decoded(1)[OF docs_inv_get[OF inv]] by blast
    then show ?thesis using Some \<open>filter_id f = Some docId\<close> f by (simp add: locate_def located_of_def)
  qed (simp add: locate_def f \<open>filter_id f = Some docId\<close>)
qed

lemma findOne_locate:
  "findOne v C = bindR (compileFilter v) (\<lambda>m. bindR (locate (filter_document v) m C) (\<lambda>l. Inr (map_option ld_document l)))"
proof -
  have "(case filter_id f of
      Some docId \<Rightarrow> bindR (findById docId C) (\<lambda>found. Inr (case found of None \<Rightarrow> None | Some d \<Rightarrow> if m d then Some d else None))
    | None \<Rightarrow> bindR (first_match m (candidates f C)) (\<lambda>found. Inr (map_option ld_document found))) =
    bindR (locate f m C) (\<lambda>l. Inr (map_option ld_document l))" for f m
    by (auto simp: locate_def findById_def bindR_def split: option.splits sum.splits)
  then show ?thesis by (simp add: findOne_def)
qed

lemma first_stored_matching:
  "map_option (\<lambda>p. decoded (snd p)) (first_stored m C) = (case matching m C of [] \<Rightarrow> None | (k, d) # _ \<Rightarrow> Some d)"
  unfolding first_stored_def matching_def view_of_def by (induction "co_documents C") (auto simp: find_filter split_def filter_map comp_def split: list.splits)

section \<open>Properties\<close>

text \<open>C5: a query is a scan. On a collection that satisfies the invariant, \<open>find\<close> succeeds for every
  filter, sort and page that compile, and returns the matching documents in insertion order,
  then sorted, then cut to the page: whatever the indexes and the plan are.\<close>

theorem find_is_scan:
  assumes "coll_inv C" and "compileFilter filter_value = Inr matches" and "validateSkip (fo_skip options) = Inr skip"
    and "validateLimit (fo_limit options) = Inr limit"
    and "case fo_sort options of None \<Rightarrow> sorter = id | Some s \<Rightarrow> compileSort s = Inr sorter"
  shows "find_documents filter_value options C = Inr (page skip limit (sorter (filter matches (map snd (view C)))))"
proof -
  have f: "compileFilter (DDocument (filter_document filter_value)) = Inr matches"
    using assms(2) compileFilter_document[OF assms(2)] by simp
  have "map snd (matching matches C) = filter matches (map snd (view C))"
    unfolding matching_def by (simp add: filter_map comp_def split_def)
  then show ?thesis using assms(2-5) scan_ok[OF assms(1) f]
    by (auto simp: find_documents_def split: option.splits)
qed

definition sample_collection :: "unit collection" where
  "sample_collection = empty_collection None [(toHexString sample_id, enc_bytes (DDocument sample_doc))]"

lemma canon_sample_doc: "canon_doc sample_doc = sample_doc"
  by (simp add: canon_doc_def sample_doc_def add_field_def obj_set_def array_index_def digit_of_def js_def of_char_def)

lemma sample_stored: "decodeDocument (enc_bytes (DDocument sample_doc)) = Inr sample_doc"
proof -
  have "bom_free (DDocument sample_doc)" by (simp add: sample_doc_def bom_free_string_def js_def of_char_def)
  then have "decodeDocumentValue (enc_bytes (DDocument sample_doc)) = Inr (canon (DDocument sample_doc))"
    using decode_encode_value[OF storable_encode[OF sample_doc_storable]] sample_doc_storable by (simp add: storable_def)
  then show ?thesis by (simp add: decodeDocument_def canon_DDocument_doc canon_sample_doc del: canon.simps enc_bytes.simps)
qed

lemma sample_collection_inv: "coll_inv sample_collection"
proof -
  have "stored_ok (toHexString sample_id) (enc_bytes (DDocument sample_doc))"
    unfolding stored_ok_def using sample_stored sample_doc_storable by (simp add: sample_doc_def del: enc_bytes.simps)
  then show ?thesis
    by (simp add: coll_inv_def docs_inv_def sample_collection_def empty_collection_def set_repr_def fam_repr_def
        all_unique_def specs_of_def)
qed

theorem find_is_scan_witness:
  "\<exists>m. compileFilter (DDocument sample_doc) = Inr m \<and>
     find_documents (DDocument sample_doc) \<lparr>fo_sort = None, fo_skip = None, fo_limit = None\<rparr> sample_collection =
       Inr (page 0 None (id (filter m (map snd (view sample_collection)))))"
proof -
  obtain m where m: "compileFilter (DDocument sample_doc) = Inr m" using sample_doc_filter by blast
  show ?thesis using m
    find_is_scan[OF sample_collection_inv m, of "\<lparr>fo_sort = None, fo_skip = None, fo_limit = None\<rparr>" 0 None id]
    by (simp add: validateSkip_def validateLimit_def)
qed

text \<open>C25: \<open>findOne\<close> returns the first matching document in insertion order, also when it looks a
  document up by the id the filter names.\<close>

theorem find_one_is_first:
  assumes "coll_inv C" and "compileFilter filter_value = Inr matches"
  shows "findOne filter_value C = Inr (case filter matches (map snd (view C)) of [] \<Rightarrow> None | d # _ \<Rightarrow> Some d)"
proof -
  have f: "compileFilter (DDocument (filter_document filter_value)) = Inr matches"
    using assms(2) compileFilter_document[OF assms(2)] by simp
  have "(case matching matches C of [] \<Rightarrow> None | (k, d) # _ \<Rightarrow> Some d) =
      (case filter matches (map snd (view C)) of [] \<Rightarrow> None | d # _ \<Rightarrow> Some d)"
    unfolding matching_def by (auto simp: filter_map comp_def split_def split: list.splits)
  then show ?thesis
    using assms(2) locate_ok[OF assms(1) f] first_stored_matching[of matches C]
    by (simp add: findOne_locate option.map_comp comp_def located_of_def)
qed

theorem find_one_is_first_witness:
  "\<exists>m. compileFilter (DDocument sample_doc) = Inr m \<and>
     findOne (DDocument sample_doc) sample_collection =
       Inr (case filter m (map snd (view sample_collection)) of [] \<Rightarrow> None | d # _ \<Rightarrow> Some d)"
proof -
  obtain m where m: "compileFilter (DDocument sample_doc) = Inr m" using sample_doc_filter by blast
  show ?thesis using m find_one_is_first[OF sample_collection_inv m] by blast
qed

end
