(* ===== verification/Collection_Store.thy ===== *)
theory Collection_Store
  imports Collection_Query
begin

text \<open>
  The operations of \<open>in-memory-collection.ts\<close> that change a collection: each one keeps the
  invariant, changes the documents exactly when it commits, and leaves the documents and what the
  indexes represent alone when it fails.
\<close>

section \<open>Putting and removing documents\<close>

definition put_docs :: "(doc_key \<times> bytes) list \<Rightarrow> (doc_key \<times> bytes) list \<Rightarrow> (doc_key \<times> bytes) list" where
  "put_docs ps docs = foldl (\<lambda>docs (k, bs). AList.update k bs docs) docs ps"

definition remove_docs :: "doc_key list \<Rightarrow> (doc_key \<times> bytes) list \<Rightarrow> (doc_key \<times> bytes) list" where
  "remove_docs ks docs = foldl (\<lambda>docs k. AList.delete k docs) docs ks"

lemma keys_update:
  "map fst (AList.update k v docs) = (if k \<in> fst ` set docs then map fst docs else map fst docs @ [k])"
  by (induction docs) auto

lemma keys_delete: "map fst (AList.delete k docs) = filter (\<lambda>x. x \<noteq> k) (map fst docs)"
  by (induction docs) (auto simp: AList.delete_eq)

lemma docs_inv_update: "docs_inv docs \<Longrightarrow> stored_ok k bs \<Longrightarrow> docs_inv (AList.update k bs docs)"
  using set_alist_update[of k bs docs] by (auto simp: docs_inv_def keys_update)

lemma docs_inv_delete: "docs_inv docs \<Longrightarrow> docs_inv (AList.delete k docs)"
proof -
  have "set (AList.delete k docs) \<subseteq> set docs" by (auto simp: AList.delete_eq)
  then show "docs_inv docs \<Longrightarrow> docs_inv (AList.delete k docs)" unfolding docs_inv_def keys_delete by auto
qed

text \<open>The sequence numbers follow the documents.\<close>

definition seq_inv :: "'j collection \<Rightarrow> bool" where
  "seq_inv C \<longleftrightarrow> (case co_sequence C of None \<Rightarrow> co_indexes C = []
     | Some sequence \<Rightarrow> co_indexes C \<noteq> [] \<and> seq_ok (map fst (co_documents C)) sequence (co_nextSequence C))"

lemma coll_inv_iff:
  "coll_inv C \<longleftrightarrow> docs_inv (co_documents C) \<and> set_repr (co_indexes C) (map_of (view C)) \<and>
     all_unique (co_indexes C) (map_of (view C)) \<and> seq_inv C"
  by (simp add: coll_inv_def seq_inv_def)

lemma put_document_fields [simp]:
  "co_documents (put_document k bs C) = AList.update k bs (co_documents C)"
  "co_indexes (put_document k bs C) = co_indexes C"
  "co_journal (put_document k bs C) = co_journal C"
  by (auto simp: put_document_def Let_def split: option.splits)

lemma remove_document_fields [simp]:
  "co_documents (remove_document k C) = AList.delete k (co_documents C)"
  "co_indexes (remove_document k C) = co_indexes C"
  "co_journal (remove_document k C) = co_journal C"
  by (simp_all add: remove_document_def)

lemma seq_ok_snoc:
  assumes "seq_ok keys sequence next" "k \<notin> set keys"
  shows "seq_ok (keys @ [k]) (AList.update k next sequence) (next + 1)"
proof -
  have get: "map_of (AList.update k next sequence) a = map_of sequence a" if "a \<in> set keys" for a
    using that assms(2) by (auto simp: update_conv)
  have "sorted_wrt (\<lambda>a b. the (map_of (AList.update k next sequence) a) < the (map_of (AList.update k next sequence) b)) keys"
  proof (rule sorted_wrt_mono_rel)
    show "sorted_wrt (\<lambda>a b. the (map_of sequence a) < the (map_of sequence b)) keys" using assms(1) by (simp add: seq_ok_def)
  qed (simp only: get)
  then show ?thesis using assms(1) get by (fastforce simp: seq_ok_def sorted_wrt_append update_conv)
qed

lemma seq_inv_put: "seq_inv C \<Longrightarrow> seq_inv (put_document k bs C)"
  using seq_ok_snoc[of "map fst (co_documents C)" _ "co_nextSequence C" k]
  by (auto simp: seq_inv_def put_document_def has_document_def keys_update map_of_eq_None_iff Let_def split: option.splits)

lemma seq_ok_filter:
  assumes "seq_ok keys sequence next"
  shows "seq_ok (filter (\<lambda>x. x \<noteq> k) keys) (AList.delete k sequence) next"
proof -
  have get: "map_of (AList.delete k sequence) a = map_of sequence a" if "a \<noteq> k" for a
    using that by (simp add: delete_conv)
  have "sorted_wrt (\<lambda>a b. the (map_of sequence a) < the (map_of sequence b)) (filter (\<lambda>x. x \<noteq> k) keys)"
    using assms by (simp add: seq_ok_def sorted_wrt_filter)
  then have "sorted_wrt (\<lambda>a b. the (map_of (AList.delete k sequence) a) < the (map_of (AList.delete k sequence) b))
      (filter (\<lambda>x. x \<noteq> k) keys)"
    using get by (auto intro: sorted_wrt_mono_rel[rotated])
  then show ?thesis using assms get by (auto simp: seq_ok_def)
qed

lemma seq_inv_remove: "seq_inv C \<Longrightarrow> seq_inv (remove_document k C)"
  by (auto simp: seq_inv_def remove_document_def keys_delete seq_ok_filter split: option.splits)

lemma put_all_spec:
  "co_documents (put_all ps C) = put_docs ps (co_documents C)" "co_indexes (put_all ps C) = co_indexes C"
  "co_journal (put_all ps C) = co_journal C" "seq_inv C \<Longrightarrow> seq_inv (put_all ps C)"
  by (induction ps arbitrary: C) (auto simp: put_all_def put_docs_def seq_inv_put)

lemma remove_all_spec:
  "co_documents (remove_all ks C) = remove_docs ks (co_documents C)" "co_indexes (remove_all ks C) = co_indexes C"
  "co_journal (remove_all ks C) = co_journal C" "seq_inv C \<Longrightarrow> seq_inv (remove_all ks C)"
  by (induction ks arbitrary: C) (auto simp: remove_all_def remove_docs_def seq_inv_remove)

lemma docs_inv_put_docs: "docs_inv docs \<Longrightarrow> \<forall>(k, bs) \<in> set ps. stored_ok k bs \<Longrightarrow> docs_inv (put_docs ps docs)"
  by (induction ps arbitrary: docs) (auto simp: put_docs_def docs_inv_update)

lemma docs_inv_remove_docs: "docs_inv docs \<Longrightarrow> docs_inv (remove_docs ks docs)"
  by (induction ks arbitrary: docs) (auto simp: remove_docs_def docs_inv_delete)

text \<open>The changes that go with a list of puts and with a list of removals.\<close>

definition put_changes :: "doc_map \<Rightarrow> (doc_key \<times> bytes) list \<Rightarrow> document_change list" where
  "put_changes D ps = map (\<lambda>(k, bs). \<lparr>dc_key = k, dc_before = D k, dc_after = Some (decoded bs)\<rparr>) ps"

definition remove_changes :: "doc_map \<Rightarrow> doc_key list \<Rightarrow> document_change list" where
  "remove_changes D ks = map (\<lambda>k. \<lparr>dc_key = k, dc_before = D k, dc_after = None\<rparr>) ks"

lemma put_changes_ok:
  "distinct (map fst ps) \<Longrightarrow> \<forall>(k, bs) \<in> set ps. stored_ok k bs \<Longrightarrow> changes_ok D (put_changes D ps)"
  by (auto simp: changes_ok_def put_changes_def comp_def split_def stored_ok_decoded(2))

lemma remove_changes_ok: "distinct ks \<Longrightarrow> changes_ok D (remove_changes D ks)"
  by (auto simp: changes_ok_def remove_changes_def comp_def)

lemma changed_put_docs:
  assumes "distinct (map fst ps)"
  shows "map_of (view_of (put_docs ps docs)) = changed (map_of (view_of docs)) (put_changes D ps)"
  using assms
proof (induction ps arbitrary: docs)
  case Nil
  then show ?case by (simp add: put_docs_def put_changes_def changed_def)
next
  case (Cons p ps)
  obtain k bs where p: "p = (k, bs)" by fastforce
  have "map_of (view_of (AList.update k bs docs)) = (map_of (view_of docs))(k \<mapsto> decoded bs)"
    by (auto simp: map_of_view_of fun_eq_iff update_conv)
  moreover have "put_docs (p # ps) docs = put_docs ps (AList.update k bs docs)" by (simp add: put_docs_def p)
  moreover have "changed (map_of (view_of docs)) (put_changes D (p # ps)) =
      changed ((map_of (view_of docs))(k \<mapsto> decoded bs)) (put_changes D ps)"
    using changed_Cons[of "\<lparr>dc_key = k, dc_before = D k, dc_after = Some (decoded bs)\<rparr>" "put_changes D ps"] Cons.prems p
    by (auto simp: put_changes_def image_image split_def)
  ultimately show ?case using Cons by simp
qed

lemma changed_remove_docs:
  assumes "distinct ks"
  shows "map_of (view_of (remove_docs ks docs)) = changed (map_of (view_of docs)) (remove_changes D ks)"
  using assms
proof (induction ks arbitrary: docs)
  case Nil
  then show ?case by (simp add: remove_docs_def remove_changes_def changed_def)
next
  case (Cons k ks)
  have "map_of (view_of (AList.delete k docs)) = (map_of (view_of docs))(k := None)"
    by (auto simp: map_of_view_of fun_eq_iff delete_conv)
  moreover have "remove_docs (k # ks) docs = remove_docs ks (AList.delete k docs)" by (simp add: remove_docs_def)
  moreover have "changed (map_of (view_of docs)) (remove_changes D (k # ks)) =
      changed ((map_of (view_of docs))(k := None)) (remove_changes D ks)"
    using changed_Cons[of "\<lparr>dc_key = k, dc_before = D k, dc_after = None\<rparr>" "remove_changes D ks"] Cons.prems
    by (auto simp: remove_changes_def image_image)
  ultimately show ?case using Cons by simp
qed

section \<open>Tracking, committing and storing\<close>

lemma specs_of_Nil: "specs_of S = specs_of S' \<Longrightarrow> S = [] \<longleftrightarrow> S' = []"
  by (metis map_is_Nil_conv names_of_specs)

lemma coll_inv_indexes:
  assumes "coll_inv C" "specs_of S = specs_of (co_indexes C)" "set_repr S (map_of (view C))"
  shows "coll_inv (C\<lparr>co_indexes := S, co_journal := j\<rparr>)"
  using assms specs_of_Nil[OF assms(2)] all_unique_cong[OF assms(2)] by (auto simp: coll_inv_def split: option.splits)

lemma track_spec:
  assumes "coll_inv C" "co_indexes C = [] \<or> changes_ok (map_of (view C)) changes" "trackChanges changes C = (r, C1)"
  shows "\<exists>S. C1 = C\<lparr>co_indexes := S\<rparr> \<and> specs_of S = specs_of (co_indexes C) \<and>
    (case r of
       Inl e \<Rightarrow> e = StorageError DuplicateKey \<and> set_repr S (map_of (view C)) \<and>
         \<not> all_unique (co_indexes C) (changed (map_of (view C)) changes)
     | Inr undo \<Rightarrow> set_repr (rollback undo S) (map_of (view C)) \<and>
         (co_indexes C = [] \<or> set_repr S (changed (map_of (view C)) changes) \<and> all_unique S (changed (map_of (view C)) changes)))"
proof (cases "co_indexes C = []")
  case True
  then show ?thesis using assms(3)
    by (intro exI[of _ "[]"]) (auto simp: trackChanges_def applyChanges_def rollback_def set_repr_def fam_repr_def)
next
  case False
  obtain S where a: "applyChanges changes (co_indexes C) = (r, S)" "C1 = C\<lparr>co_indexes := S\<rparr>"
    using assms(3) by (auto simp: trackChanges_def split: prod.splits)
  have inv: "docs_inv (co_documents C)" "set_repr (co_indexes C) (map_of (view C))" "all_unique (co_indexes C) (map_of (view C))"
    using assms(1) by (simp_all add: coll_inv_def)
  note spec = applyChanges_spec[OF inv(2) docs_inv_view(2)[OF inv(1)] inv(3) _ a(1)]
  then have S: "specs_of S = specs_of (co_indexes C)" using False assms(2) by blast
  show ?thesis
  proof (cases r)
    case (Inl e)
    then show ?thesis using spec False assms(2) a(2) S by (intro exI[of _ S]) simp
  next
    case (Inr undo)
    then show ?thesis using spec False assms(2) a(2) S all_unique_cong[OF S] by (intro exI[of _ S]) simp
  qed
qed

text \<open>What the journal has seen.\<close>

definition commits :: "'j journal_commit \<Rightarrow> journal_operation list \<Rightarrow> 'j option \<Rightarrow> 'j option \<Rightarrow> bool" where
  "commits jc ops j j' \<longleftrightarrow>
     (case j of None \<Rightarrow> j' = None
      | Some s \<Rightarrow> if ops = [] then j' = j else (\<exists>s'. jc ops s = (Inr (), s') \<and> j' = Some s'))"

text \<open>The journal was left alone, or it refused what it was given.\<close>

definition refused :: "'j journal_commit \<Rightarrow> 'j option \<Rightarrow> 'j option \<Rightarrow> bool" where
  "refused jc j j' \<longleftrightarrow> j' = j \<or> (\<exists>ops s s' e. j = Some s \<and> jc ops s = (Inl e, s') \<and> j' = Some s')"

lemma refused_refl [simp]: "refused jc j j"
  by (simp add: refused_def)

lemma commit_spec:
  assumes "commit jc ops C = (r, C')"
  shows "\<exists>j. C' = C\<lparr>co_journal := j\<rparr> \<and> (r = Inr () \<longrightarrow> ops \<noteq> [] \<longrightarrow> commits jc ops (co_journal C) j) \<and>
    (\<forall>e. r = Inl e \<longrightarrow> refused jc (co_journal C) j)"
proof (cases "co_journal C")
  case None
  then have "C' = C\<lparr>co_journal := None\<rparr>" "r = Inr ()" using assms by (simp_all add: commit_def)
  then show ?thesis using None by (auto simp: commits_def)
next
  case (Some s)
  then obtain s' where "jc ops s = (r, s')" "C' = C\<lparr>co_journal := Some s'\<rparr>"
    using assms by (auto simp: commit_def split: prod.splits)
  then show ?thesis using Some by (intro exI[of _ "Some s'"]) (auto simp: commits_def refused_def)
qed

lemma commit_changes_spec:
  assumes "commit_changes jc undo ops f C = (r, C')"
  shows "case r of
      Inl e \<Rightarrow> \<exists>j. C' = C\<lparr>co_indexes := rollback undo (co_indexes C), co_journal := j\<rparr> \<and> refused jc (co_journal C) j
    | Inr _ \<Rightarrow> \<exists>j. C' = f (C\<lparr>co_journal := j\<rparr>) \<and> commits jc ops (co_journal C) j"
proof (cases "ops = []")
  case True
  then have "C' = f (C\<lparr>co_journal := co_journal C\<rparr>)" "r = Inr ()"
    using assms by (auto simp: commit_changes_def operation_defs)
  moreover have "commits jc ops (co_journal C) (co_journal C)" using True by (simp add: commits_def split: option.splits)
  ultimately have "r = Inr () \<and> (\<exists>j. C' = f (C\<lparr>co_journal := j\<rparr>) \<and> commits jc ops (co_journal C) j)" by blast
  then show ?thesis by (elim conjE) (simp only: sum.case)
next
  case False
  obtain r1 C1 where c: "commit jc ops C = (r1, C1)" by fastforce
  obtain j where j: "C1 = C\<lparr>co_journal := j\<rparr>" "r1 = Inr () \<longrightarrow> commits jc ops (co_journal C) j"
      "\<forall>e. r1 = Inl e \<longrightarrow> refused jc (co_journal C) j"
    using commit_spec[OF c] False by blast
  show ?thesis
  proof (cases r1)
    case (Inl e)
    then have "r = Inl e" "C' = C\<lparr>co_indexes := rollback undo (co_indexes C), co_journal := j\<rparr>"
      using assms False c j(1) by (auto simp: commit_changes_def commit_or_rollback_def run_rollback_def operation_defs)
    then show ?thesis using j(3) Inl by auto
  next
    case (Inr u)
    then have "r = Inr ()" "C' = f (C\<lparr>co_journal := j\<rparr>)"
      using assms False c j(1) by (auto simp: commit_changes_def commit_or_rollback_def operation_defs)
    then show ?thesis using j(2) Inr by auto
  qed
qed

text \<open>
  The contract of every change: the invariant and the index definitions stay, a failure leaves the
  documents alone and commits nothing, and success means the journal has the operations and the documents are \<open>docs'\<close>.
\<close>

definition outcome ::
  "'j journal_commit \<Rightarrow> journal_operation list \<Rightarrow> (doc_key \<times> bytes) list \<Rightarrow> 'j collection \<Rightarrow> (failure + 'a) \<times> 'j collection \<Rightarrow> bool" where
  "outcome jc ops docs' C res \<longleftrightarrow> coll_inv (snd res) \<and> specs_of (co_indexes (snd res)) = specs_of (co_indexes C) \<and>
     (case fst res of
        Inl _ \<Rightarrow> co_documents (snd res) = co_documents C \<and> refused jc (co_journal C) (co_journal (snd res))
      | Inr _ \<Rightarrow> co_documents (snd res) = docs' \<and> commits jc ops (co_journal C) (co_journal (snd res)))"

definition store_step :: "('j collection \<Rightarrow> 'j collection) \<Rightarrow> ((doc_key \<times> bytes) list \<Rightarrow> (doc_key \<times> bytes) list) \<Rightarrow> bool" where
  "store_step f g \<longleftrightarrow> (\<forall>C. co_indexes (f C) = co_indexes C \<and> co_journal (f C) = co_journal C \<and>
     co_documents (f C) = g (co_documents C) \<and> (seq_inv C \<longrightarrow> seq_inv (f C)))"

lemma store_steps:
  "store_step (put_document k bs) (put_docs [(k, bs)])" "store_step (remove_document k) (remove_docs [k])"
  "store_step (put_all ps) (put_docs ps)" "store_step (remove_all ks) (remove_docs ks)"
  by (simp_all add: store_step_def put_docs_def remove_docs_def seq_inv_put seq_inv_remove)
     (simp_all add: put_all_spec[unfolded put_docs_def] remove_all_spec[unfolded remove_docs_def])

lemma finish_outcome:
  assumes inv: "coll_inv C" and "C1 = C\<lparr>co_indexes := S\<rparr>" "specs_of S = specs_of (co_indexes C)"
    and "set_repr (rollback undo S) (map_of (view C))"
    and "co_indexes C = [] \<or> set_repr S (map_of (view_of (g (co_documents C)))) \<and> all_unique S (map_of (view_of (g (co_documents C))))"
    and "store_step f g" "docs_inv (g (co_documents C))"
  shows "outcome jc ops (g (co_documents C)) C (commit_changes jc undo ops f C1)"
proof -
  obtain r C2 where c: "commit_changes jc undo ops f C1 = (r, C2)" by fastforce
  note spec = commit_changes_spec[OF c]
  show ?thesis
  proof (cases r)
    case (Inl e)
    with spec assms(2) obtain j where j: "C2 = C\<lparr>co_indexes := rollback undo S, co_journal := j\<rparr>"
      "refused jc (co_journal C) j" by auto
    then have "coll_inv C2" using coll_inv_indexes[OF inv _ assms(4)] assms(3) by simp
    then show ?thesis using Inl c j assms(3) by (simp add: outcome_def)
  next
    case (Inr u)
    with spec assms(2) obtain j where j: "C2 = f (C\<lparr>co_indexes := S, co_journal := j\<rparr>)" "commits jc ops (co_journal C) j" by auto
    have "seq_inv (C\<lparr>co_indexes := S, co_journal := j\<rparr>)"
      using inv specs_of_Nil[OF assms(3)] by (auto simp: coll_inv_iff seq_inv_def split: option.splits)
    then have f: "co_indexes C2 = S" "co_journal C2 = j" "co_documents C2 = g (co_documents C)" "seq_inv C2"
      using assms(6) j(1) by (simp_all add: store_step_def)
    have "set_repr S (map_of (view C2)) \<and> all_unique S (map_of (view C2))"
      using assms(5) specs_of_Nil[OF assms(3)] f(3) by (auto simp: set_repr_def fam_repr_def all_unique_def specs_of_def)
    then have "coll_inv C2" using f assms(7) by (simp add: coll_inv_iff)
    then show ?thesis using Inr c f j(2) assms(3) by (simp add: outcome_def)
  qed
qed

lemma change_outcome:
  assumes inv: "coll_inv C" and ok: "co_indexes C = [] \<or> changes_ok (map_of (view C)) changes"
    and ch: "co_indexes C = [] \<or> map_of (view_of (g (co_documents C))) = changed (map_of (view C)) changes"
    and f: "store_step f g" "docs_inv (g (co_documents C))"
  shows "outcome jc ops (g (co_documents C)) C (bindS (trackChanges changes) (\<lambda>undo. commit_changes jc undo ops f) C)"
proof -
  obtain r C1 where t: "trackChanges changes C = (r, C1)" by fastforce
  obtain S where S: "C1 = C\<lparr>co_indexes := S\<rparr>" "specs_of S = specs_of (co_indexes C)" and
    r: "case r of
       Inl e \<Rightarrow> e = StorageError DuplicateKey \<and> set_repr S (map_of (view C)) \<and>
         \<not> all_unique (co_indexes C) (changed (map_of (view C)) changes)
     | Inr undo \<Rightarrow> set_repr (rollback undo S) (map_of (view C)) \<and>
         (co_indexes C = [] \<or> set_repr S (changed (map_of (view C)) changes) \<and> all_unique S (changed (map_of (view C)) changes))"
    using track_spec[OF inv ok t] by blast
  show ?thesis
  proof (cases r)
    case (Inl e)
    have "C\<lparr>co_indexes := S\<rparr> = C\<lparr>co_indexes := S, co_journal := co_journal C\<rparr>" by simp
    then have "coll_inv C1" using coll_inv_indexes[OF inv S(2), of "co_journal C"] r Inl S(1) by simp
    then show ?thesis using Inl t S by (simp add: outcome_def bindS_def)
  next
    case (Inr undo)
    then have "outcome jc ops (g (co_documents C)) C (commit_changes jc undo ops f C1)"
      using r ch by (intro finish_outcome[OF inv S _ _ f]) auto
    then show ?thesis using Inr t by (simp add: bindS_def)
  qed
qed

lemma outcome_return:
  "outcome jc ops docs' C (m C) \<Longrightarrow> outcome jc ops docs' C (bindS m (\<lambda>_. returnS x) C)"
  by (auto simp: outcome_def operation_defs split: prod.splits sum.splits)

lemma outcome_bind:
  "outcome jc ops docs' C (bindS m (\<lambda>x. h x) C) \<Longrightarrow> outcome jc ops docs' C (bindS m (\<lambda>x. bindS (h x) (\<lambda>_. returnS y)) C)"
  by (auto simp: outcome_def operation_defs split: prod.splits sum.splits)

section \<open>The operations\<close>

subsection \<open>Inserting\<close>

text \<open>The documents a collection takes: well typed, without a byte order mark in front of a string.\<close>

definition input_ok :: "doc_value \<Rightarrow> bool" where
  "input_ok v \<longleftrightarrow> wf_value v \<and> bom_free v"

lemma encodeDocument_storable:
  "encodeDocument d = Inr bs \<Longrightarrow> wf_value (DDocument d) \<Longrightarrow> storable (DDocument d) \<and> bs = enc_bytes (DDocument d)"
  by (simp add: storable_def encodeDocument_def encodeDocumentValue_Inr del: enc_bytes.simps)

lemma decode_encoded:
  assumes "encodeDocument d = Inr bs" "input_ok (DDocument d)"
  shows "decodeDocument bs = Inr (canon_doc d)"
  using decode_encode_value[of "DDocument d" bs] assms
  by (simp add: decodeDocument_def encodeDocument_def canon_DDocument_doc input_ok_def del: canon.simps)

lemma stored_ok_encoded:
  assumes "encodeDocument d = Inr bs" "input_ok (DDocument d)" "map_of d (js ''_id'') = Some (DCustomId docId)"
  shows "stored_ok (toHexString docId) bs" "decoded bs = canon_doc d"
proof -
  note dec = decode_encoded[OF assms(1,2)]
  have wf: "wf_value (DDocument d)" using assms(2) by (simp add: input_ok_def)
  have len: "length bs \<le> MAX_PAYLOAD_SIZE"
    using assms(1) by (simp add: encodeDocument_def encodeDocumentValue_Inr del: enc_bytes.simps)
  have "decodeDocumentValue bs = Inr (DDocument (canon_doc d))"
    using decode_encode_value[of "DDocument d" bs] assms(1,2)
    by (simp add: encodeDocument_def canon_DDocument_doc input_ok_def del: canon.simps)
  from decode_sound[OF this] len have "storable (DDocument (canon_doc d))"
    by (simp add: storable_def encodeDocumentValue_Inr del: enc_bytes.simps encodable.simps)
  moreover have "map_of (canon_doc d) (js ''_id'') = Some (DCustomId docId)"
    using map_of_canon_doc[of d "js ''_id''"] wf assms(3) by simp
  ultimately show "stored_ok (toHexString docId) bs" using dec unfolding stored_ok_def by blast
  show "decoded bs = canon_doc d" using dec by (simp add: decoded_def)
qed

lemma input_ok_set_id:
  assumes "input_ok (DDocument d)" "length docId = 16"
  shows "input_ok (DDocument (obj_set (js ''_id'') (DCustomId docId) d))"
proof -
  have "set (obj_set (js ''_id'') (DCustomId docId) d) \<subseteq> insert (js ''_id'', DCustomId docId) (set d)" by (rule set_obj_set_subset)
  then have "bom_free (DDocument (obj_set (js ''_id'') (DCustomId docId) d))"
    using assms(1) by (auto simp: input_ok_def list_all_iff bom_free_string_def js_def of_char_def)
  then show ?thesis using assms wf_value_obj_set[of d "DCustomId docId"] by (simp add: input_ok_def)
qed

lemma prepareInsert_spec:
  assumes "prepareInsert fresh v pending C = Inr p" "input_ok v" "length fresh = 16"
  shows "stored_ok (pi_key p) (pi_encoded p)" "pi_key p \<notin> fst ` set (co_documents C)" "pi_key p \<notin> set pending"
    "pi_key p = toHexString (pi_id p)"
    "\<exists>d. v = DDocument d \<and> decoded (pi_encoded p) = canon_doc (obj_set (js ''_id'') (DCustomId (pi_id p)) d)"
proof -
  obtain d docId where d: "v = DDocument d" "resolveDocumentId fresh d = Inr docId" "\<not> has_document (toHexString docId) C"
    "toHexString docId \<notin> set pending" "encodeDocument (obj_set (js ''_id'') (DCustomId docId) d) = Inr (pi_encoded p)"
    "pi_id p = docId" "pi_key p = toHexString docId"
    using assms(1) by (auto simp: prepareInsert_def encodeStoredDocument_def Let_def split: doc_value.splits if_splits)
  have "length docId = 16"
    using d(1,2) assms(2,3)
    by (auto simp: resolveDocumentId_def input_ok_def list_all_iff split: option.splits doc_value.splits dest!: map_of_SomeD)
  then have "input_ok (DDocument (obj_set (js ''_id'') (DCustomId docId) d))" using assms(2) d(1) by (auto intro: input_ok_set_id)
  from stored_ok_encoded[OF d(5) this, of docId]
  show "stored_ok (pi_key p) (pi_encoded p)"
    "\<exists>d. v = DDocument d \<and> decoded (pi_encoded p) = canon_doc (obj_set (js ''_id'') (DCustomId (pi_id p)) d)"
    using d(1,6,7) by simp_all
  show "pi_key p \<notin> fst ` set (co_documents C)" "pi_key p \<notin> set pending" "pi_key p = toHexString (pi_id p)"
    using d by (simp_all add: has_document_def map_of_eq_None_iff)
qed

lemma trackChanges_empty: "co_indexes C = [] \<Longrightarrow> trackChanges changes C = (Inr [], C)"
  by (simp add: trackChanges_def applyChanges_def)

lemma trackInsert_eq:
  assumes "stored_ok (pi_key p) (pi_encoded p)" "map_of (view C) (pi_key p) = None"
  shows "trackInsert p C = trackChanges (put_changes (map_of (view C)) [(pi_key p, pi_encoded p)]) C"
  using assms stored_ok_decoded(1)[OF assms(1)]
  by (cases "co_indexes C = []") (simp_all add: trackInsert_def set_isEmpty_def trackChanges_empty put_changes_def)

lemma put_outcome:
  assumes "coll_inv C" "distinct (map fst ps)" "\<forall>(k, bs) \<in> set ps. stored_ok k bs" "store_step f (put_docs ps)"
    "co_indexes C = [] \<or> changes = put_changes (map_of (view C)) ps"
  shows "outcome jc ops (put_docs ps (co_documents C)) C (bindS (trackChanges changes) (\<lambda>undo. commit_changes jc undo ops f) C)"
proof (rule change_outcome[OF assms(1) _ _ assms(4)])
  show "docs_inv (put_docs ps (co_documents C))"
    using assms(1,3) by (intro docs_inv_put_docs) (simp_all add: coll_inv_def)
qed (use assms changed_put_docs[OF assms(2)] put_changes_ok in auto)

lemma remove_outcome:
  assumes "coll_inv C" "distinct ks" "store_step f (remove_docs ks)"
    "co_indexes C = [] \<or> changes = remove_changes (map_of (view C)) ks"
  shows "outcome jc ops (remove_docs ks (co_documents C)) C (bindS (trackChanges changes) (\<lambda>undo. commit_changes jc undo ops f) C)"
proof (rule change_outcome[OF assms(1) _ _ assms(3)])
  show "docs_inv (remove_docs ks (co_documents C))"
    using assms(1) by (intro docs_inv_remove_docs) (simp add: coll_inv_def)
qed (use assms changed_remove_docs[OF assms(2)] remove_changes_ok in auto)

lemma insertOne_outcome:
  assumes "coll_inv C" "input_ok v" "length fresh = 16"
  shows "case prepareInsert fresh v [] C of
      Inl e \<Rightarrow> insertOne jc fresh v C = (Inl e, C)
    | Inr p \<Rightarrow> outcome jc [JPut (pi_key p) (pi_encoded p)] (co_documents C @ [(pi_key p, pi_encoded p)]) C (insertOne jc fresh v C) \<and>
        (\<forall>x. fst (insertOne jc fresh v C) = Inr x \<longrightarrow> x = pi_id p)"
proof (cases "prepareInsert fresh v [] C")
  case (Inl e)
  then show ?thesis by (simp add: insertOne_def operation_defs)
next
  case (Inr p)
  note p = prepareInsert_spec[OF Inr assms(2,3)]
  let ?ops = "[JPut (pi_key p) (pi_encoded p)]"
  have none: "map_of (view C) (pi_key p) = None" using p(2) by (simp add: map_of_view_of map_of_eq_None_iff)
  have eq: "insertOne jc fresh v C = bindS (bindS (trackChanges (put_changes (map_of (view C)) [(pi_key p, pi_encoded p)]))
      (\<lambda>undo. commit_changes jc undo ?ops (put_document (pi_key p) (pi_encoded p)))) (\<lambda>_. returnS (pi_id p)) C"
    using Inr by (auto simp: insertOne_def operation_defs trackInsert_eq[OF p(1) none] split: prod.splits sum.splits)
  have docs: "put_docs [(pi_key p, pi_encoded p)] (co_documents C) = co_documents C @ [(pi_key p, pi_encoded p)]"
    using p(2) by (simp add: put_docs_def alist_update_new map_of_eq_None_iff)
  have "outcome jc ?ops (co_documents C @ [(pi_key p, pi_encoded p)]) C (insertOne jc fresh v C)"
    unfolding eq docs[symmetric] using p(1) store_steps(1)
    by (intro outcome_return put_outcome[OF assms(1)]) simp_all
  moreover have "x = pi_id p" if "fst (insertOne jc fresh v C) = Inr x" for x
    using that unfolding eq by (auto simp: operation_defs split: prod.splits sum.splits)
  ultimately show ?thesis using Inr by simp
qed

lemma insertOne_puts:
  assumes "coll_inv C" "input_ok v" "length fresh = 16"
  shows "\<exists>ps. outcome jc (map (\<lambda>(k, bs). JPut k bs) ps) (put_docs ps (co_documents C)) C (insertOne jc fresh v C)"
proof (cases "prepareInsert fresh v [] C")
  case (Inl e)
  then have "insertOne jc fresh v C = (Inl e, C)" using insertOne_outcome[OF assms] by simp
  then show ?thesis using assms(1) by (auto simp: outcome_def)
next
  case (Inr p)
  have "put_docs [(pi_key p, pi_encoded p)] (co_documents C) = co_documents C @ [(pi_key p, pi_encoded p)]"
    using prepareInsert_spec(2)[OF Inr assms(2,3)] by (simp add: put_docs_def alist_update_new map_of_eq_None_iff)
  then show ?thesis using insertOne_outcome[OF assms, of jc] Inr by (intro exI[of _ "[(pi_key p, pi_encoded p)]"]) simp
qed

subsection \<open>Deleting\<close>

lemma first_stored_mem: "first_stored m C = Some (k, bs) \<Longrightarrow> (k, bs) \<in> set (co_documents C) \<and> m (decoded bs)"
  unfolding first_stored_def by (auto simp: find_Some_iff) (metis nth_mem)

lemma view_get: "coll_inv C \<Longrightarrow> (k, bs) \<in> set (co_documents C) \<Longrightarrow> map_of (view C) k = Some (decoded bs)"
  by (simp add: coll_inv_def docs_inv_def map_of_view_of)

lemma deleteOne_outcome:
  assumes "coll_inv C" "compileFilter v = Inr m"
  shows "case first_stored m C of
      None \<Rightarrow> deleteOne jc v C = (Inr 0, C)
    | Some (k, bs) \<Rightarrow> outcome jc [JDelete k] (AList.delete k (co_documents C)) C (deleteOne jc v C) \<and>
        (\<forall>x. fst (deleteOne jc v C) = Inr x \<longrightarrow> x = 1)"
proof -
  have loc: "locate (filter_document v) m C = Inr (map_option located_of (first_stored m C))"
    using locate_ok[OF assms(1)] assms(2) compileFilter_document[OF assms(2)] by simp
  show ?thesis
  proof (cases "first_stored m C")
    case None
    then show ?thesis using loc assms(2) by (simp add: deleteOne_def operation_defs)
  next
    case (Some p)
    obtain k bs where p: "p = (k, bs)" by fastforce
    have mem: "(k, bs) \<in> set (co_documents C)" using first_stored_mem Some p by blast
    have eq: "deleteOne jc v C = bindS (bindS (trackChanges (remove_changes (map_of (view C)) [k]))
        (\<lambda>undo. commit_changes jc undo [JDelete k] (remove_document k))) (\<lambda>_. returnS 1) C"
      using Some p loc assms(2) view_get[OF assms(1) mem]
      by (simp add: deleteOne_def operation_defs located_of_def remove_changes_def split: prod.splits sum.splits)
    have "outcome jc [JDelete k] (AList.delete k (co_documents C)) C (deleteOne jc v C)"
      unfolding eq using remove_outcome[OF assms(1) _ store_steps(2), of k "remove_changes (map_of (view C)) [k]" jc "[JDelete k]"]
      by (intro outcome_return) (simp add: remove_docs_def)
    moreover have "x = 1" if "fst (deleteOne jc v C) = Inr x" for x
      using that unfolding eq by (auto simp: operation_defs split: prod.splits sum.splits)
    ultimately show ?thesis using Some p by simp
  qed
qed

lemma remove_docs_filter: "remove_docs ks docs = filter (\<lambda>(k, bs). k \<notin> set ks) docs"
  by (induction ks arbitrary: docs) (auto simp: remove_docs_def AList.delete_eq intro!: filter_cong)

lemma matching_keys:
  assumes "coll_inv C"
  shows "map fst (matching m C) = map fst (filter (\<lambda>(k, bs). m (decoded bs)) (co_documents C))"
  unfolding matching_def view_of_def by (simp add: filter_map comp_def split_def)

lemma matching_removed:
  assumes "coll_inv C"
  shows "remove_docs (map fst (matching m C)) (co_documents C) = filter (\<lambda>(k, bs). \<not> m (decoded bs)) (co_documents C)"
  unfolding remove_docs_filter matching_keys[OF assms]
proof (rule filter_cong[OF refl], clarify)
  let ?ms = "filter (\<lambda>(k, bs). m (decoded bs)) (co_documents C)"
  fix k bs
  assume mem: "(k, bs) \<in> set (co_documents C)"
  have "distinct (map fst (co_documents C))" using assms by (simp add: coll_inv_def docs_inv_def)
  note only = eq_key_imp_eq_value[OF this _ mem]
  have "k \<in> fst ` set ?ms \<longleftrightarrow> m (decoded bs)"
  proof
    assume "k \<in> fst ` set ?ms"
    then obtain bs' where "(k, bs') \<in> set (co_documents C)" "m (decoded bs')" by auto
    then show "m (decoded bs)" using only by metis
  next
    assume "m (decoded bs)"
    then have "(k, bs) \<in> set ?ms" using mem by simp
    then show "k \<in> fst ` set ?ms" by (rule rev_image_eqI) simp
  qed
  then show "(k \<notin> set (map fst ?ms)) = (\<not> m (decoded bs))" by simp
qed

lemma deleteMany_outcome:
  assumes "coll_inv C" "compileFilter v = Inr m"
  shows "outcome jc (map JDelete (map fst (matching m C))) (filter (\<lambda>(k, bs). \<not> m (decoded bs)) (co_documents C)) C (deleteMany jc v C) \<and>
    (\<forall>x. fst (deleteMany jc v C) = Inr x \<longrightarrow> x = length (matching m C))"
proof -
  let ?ms = "filter (\<lambda>(k, bs). m (decoded bs)) (co_documents C)" and ?keys = "map fst (matching m C)"
  have f: "compileFilter (DDocument (filter_document v)) = Inr m" using assms(2) compileFilter_document[OF assms(2)] by simp
  have es: "matching_entries m (candidates (filter_document v) C) = Inr (map (\<lambda>(k, bs). (k, decoded bs)) ?ms)"
    using matching_entries_ok[OF candidates_decode[OF assms(1) f], of m] unfolding candidates_filter(1)[OF assms(1) f] .
  have keys: "map fst (map (\<lambda>(k, bs). (k, decoded bs)) ?ms) = ?keys" unfolding matching_keys[OF assms(1)] by (simp add: split_def comp_def)
  define changes where "changes = (if set_isEmpty (co_indexes C) then []
    else map (\<lambda>(key, d). \<lparr>dc_key = key, dc_before = Some d, dc_after = None\<rparr>) (map (\<lambda>(k, bs). (k, decoded bs)) ?ms))"
  have ch: "co_indexes C = [] \<or> changes = remove_changes (map_of (view C)) ?keys"
    unfolding changes_def matching_keys[OF assms(1)] remove_changes_def set_isEmpty_def
    using view_get[OF assms(1)] by (auto simp: split_def)
  have eq: "deleteMany jc v C = bindS (bindS (trackChanges changes)
      (\<lambda>undo. commit_changes jc undo (map JDelete ?keys) (remove_all ?keys))) (\<lambda>_. returnS (length ?keys)) C"
    unfolding deleteMany_def using assms(2) es keys
    by (simp add: operation_defs changes_def[symmetric] split: prod.splits sum.splits)
  have d: "distinct ?keys" unfolding matching_keys[OF assms(1)] using assms(1) by (simp add: coll_inv_def docs_inv_def distinct_map_filter)
  note matching_removed[OF assms(1), of m]
  moreover have "outcome jc (map JDelete ?keys) (remove_docs ?keys (co_documents C)) C (deleteMany jc v C)"
    unfolding eq by (intro outcome_return remove_outcome[OF assms(1) d store_steps(4) ch])
  moreover have "x = length (matching m C)" if "fst (deleteMany jc v C) = Inr x" for x
    using that unfolding eq by (auto simp: operation_defs split: prod.splits sum.splits)
  ultimately show ?thesis by simp
qed

subsection \<open>Updating\<close>

lemma store_update_outcome:
  assumes "coll_inv C" "stored_ok k bs" "co_indexes C = [] \<or> before = map_of (view C) k"
  shows "outcome jc [JPut k bs] (AList.update k bs (co_documents C)) C (store_update jc k before bs C)"
proof -
  let ?changes = "[\<lparr>dc_key = k, dc_before = before, dc_after = Some (decoded bs)\<rparr>]"
  have "co_indexes C = [] \<or> ?changes = put_changes (map_of (view C)) [(k, bs)]"
    using assms(3) by (auto simp: put_changes_def)
  then have "outcome jc [JPut k bs] (put_docs [(k, bs)] (co_documents C)) C
      (bindS (trackChanges ?changes) (\<lambda>undo. commit_changes jc undo [JPut k bs] (put_document k bs)) C)"
    using assms(2) by (intro put_outcome[OF assms(1) _ _ store_steps(1)]) simp_all
  moreover have "store_update jc k before bs C =
      bindS (trackChanges ?changes) (\<lambda>undo. commit_changes jc undo [JPut k bs] (put_document k bs)) C"
    using stored_ok_decoded(1)[OF assms(2)] by (simp add: store_update_def operation_defs)
  ultimately show ?thesis by (simp add: put_docs_def)
qed

lemma compileUpdate_id: "compileUpdate u = Inr a \<Longrightarrow> a d = Inr d' \<Longrightarrow> map_of d' (js ''_id'') = map_of d (js ''_id'')"
  using parseUpdate_ok apply_instructions_id by (auto simp: compileUpdate_def)

text \<open>The bytes of a stored document after an update, and the inputs an update may produce.\<close>

definition new_version :: "compiled_update \<Rightarrow> bytes \<Rightarrow> bytes" where
  "new_version a bs = (case bindR (a (decoded bs)) encodeStoredDocument of Inr b \<Rightarrow> b | Inl _ \<Rightarrow> bs)"

definition update_ok :: "compiled_update \<Rightarrow> document \<Rightarrow> bool" where
  "update_ok a d \<longleftrightarrow> (\<forall>d'. a d = Inr d' \<longrightarrow> input_ok (DDocument d'))"

lemma new_version_stored:
  assumes "compileUpdate u = Inr a" "stored_ok k bs" "update_ok a (decoded bs)"
  shows "stored_ok k (new_version a bs)"
proof (cases "bindR (a (decoded bs)) encodeStoredDocument")
  case (Inr b)
  then obtain d' where d': "a (decoded bs) = Inr d'" "encodeDocument d' = Inr b" by (auto simp: encodeStoredDocument_def)
  obtain docId where docId: "map_of (decoded bs) (js ''_id'') = Some (DCustomId docId)" "k = toHexString docId"
    using stored_ok_decoded(3)[OF assms(2)] by blast
  have "input_ok (DDocument d')" using assms(3) d'(1) by (simp add: update_ok_def)
  moreover have "map_of d' (js ''_id'') = Some (DCustomId docId)" using compileUpdate_id[OF assms(1) d'(1)] docId(1) by simp
  moreover have "new_version a bs = b" using Inr by (simp only: new_version_def sum.case)
  ultimately show ?thesis using stored_ok_encoded(1)[OF d'(2)] docId(2) by simp
qed (simp add: new_version_def assms(2))

lemma prepareUpdate_spec:
  assumes "prepareUpdate (located_of (k, bs)) a = Inr pending"
  shows "(pending = None \<longleftrightarrow> new_version a bs = bs) \<and> (\<forall>b. pending = Some b \<longrightarrow> b = new_version a bs)"
  using assms by (auto simp: prepareUpdate_def located_of_def new_version_def bindR_def split: sum.splits if_splits)

lemma update_loop_spec:
  assumes "update_loop m a indexed es = Inr (n, ps, cs)" "\<forall>(k, bs) \<in> set es. decode_stored bs = Inr (decoded bs)"
    "\<forall>(k, bs) \<in> set es. m (decoded bs) \<longrightarrow> stored_ok k (new_version a bs)"
  shows "n = length (filter (\<lambda>(k, bs). m (decoded bs)) es) \<and>
    ps = map (\<lambda>(k, bs). (k, new_version a bs)) (filter (\<lambda>(k, bs). m (decoded bs) \<and> new_version a bs \<noteq> bs) es) \<and>
    cs = (if indexed then map (\<lambda>(k, bs). \<lparr>dc_key = k, dc_before = Some (decoded bs), dc_after = Some (decoded (new_version a bs))\<rparr>)
            (filter (\<lambda>(k, bs). m (decoded bs) \<and> new_version a bs \<noteq> bs) es) else [])"
  using assms
proof (induction es arbitrary: n ps cs)
  case (Cons e es)
  obtain k bs where e: "e = (k, bs)" by fastforce
  have dec: "decode_stored bs = Inr (decoded bs)" using Cons.prems(2) e by simp
  show ?case
  proof (cases "m (decoded bs)")
    case False
    then show ?thesis using Cons e dec by simp
  next
    case True
    let ?l = "\<lparr>ld_key = k, ld_encoded = bs, ld_document = decoded bs\<rparr>"
    have l: "?l = located_of (k, bs)" by (simp add: located_of_def)
    from Cons.prems(1) e dec True obtain pending where pending: "prepareUpdate ?l a = Inr pending" by auto
    note spec = prepareUpdate_spec[OF pending[unfolded l]]
    show ?thesis
    proof (cases pending)
      case None
      then have same: "new_version a bs = bs" using spec by simp
      from Cons.prems(1) e dec True pending None obtain n' where "update_loop m a indexed es = Inr (n', ps, cs)" "n = n' + 1"
        by auto
      then show ?thesis using Cons.IH Cons.prems(2,3) e True same by simp
    next
      case (Some b)
      then have b: "b = new_version a bs" "new_version a bs \<noteq> bs" using spec by auto
      have after: "decode_stored b = Inr (decoded b)" using Cons.prems(3) e True b(1) stored_ok_decoded(1) by auto
      from Cons.prems(1) e dec True pending Some after obtain n' ps' cs' where
        "update_loop m a indexed es = Inr (n', ps', cs')" "n = n' + 1" "ps = (k, b) # ps'"
        "cs = (if indexed then [\<lparr>dc_key = k, dc_before = Some (decoded bs), dc_after = Some (decoded b)\<rparr>] else []) @ cs'"
        by (auto split: if_splits)
      then show ?thesis using Cons.IH Cons.prems(2,3) e True b by auto
    qed
  qed
qed simp

lemma update_loop_filter:
  "\<forall>(k, bs) \<in> set es. decode_stored bs = Inr (decoded bs) \<Longrightarrow>
   update_loop m a indexed es = update_loop m a indexed (filter (\<lambda>(k, bs). m (decoded bs)) es)"
  by (induction es) auto

lemma put_docs_map:
  assumes "distinct (map fst docs)" "fst ` set ps \<subseteq> fst ` set docs" "distinct (map fst ps)"
  shows "put_docs ps docs = map (\<lambda>(k, bs). (k, case map_of ps k of None \<Rightarrow> bs | Some b \<Rightarrow> b)) docs"
  using assms
proof (induction ps arbitrary: docs)
  case Nil
  then show ?case by (simp add: put_docs_def split_def)
next
  case (Cons p ps)
  obtain k b where p: "p = (k, b)" by fastforce
  have up: "AList.update k b docs = map (\<lambda>(k', x). (k', if k' = k then b else x)) docs"
    if "distinct (map fst docs)" "k \<in> fst ` set docs" for docs :: "(doc_key \<times> bytes) list"
    using that by (induction docs) (auto simp: map_idI image_iff intro!: map_idI[symmetric])
  have k: "k \<in> fst ` set docs" using Cons.prems(2) p by simp
  have keys: "map fst (AList.update k b docs) = map fst docs" using k by (simp add: keys_update)
  have "put_docs (p # ps) docs = put_docs ps (AList.update k b docs)" by (simp add: put_docs_def p)
  also have "\<dots> = map (\<lambda>(k, bs). (k, case map_of ps k of None \<Rightarrow> bs | Some b \<Rightarrow> b)) (AList.update k b docs)"
  proof (rule Cons.IH)
    show "distinct (map fst (AList.update k b docs))" using Cons.prems(1) keys by simp
    have "fst ` set (AList.update k b docs) = fst ` set docs" using keys by (metis list.set_map)
    then show "fst ` set ps \<subseteq> fst ` set (AList.update k b docs)" using Cons.prems(2) by simp
  qed (use Cons.prems(3) in simp)
  also have "\<dots> = map (\<lambda>(k, bs). (k, case map_of (p # ps) k of None \<Rightarrow> bs | Some b \<Rightarrow> b)) docs"
  proof -
    have "map_of ps k = None" using Cons.prems(3) p by (simp add: map_of_eq_None_iff)
    then show ?thesis using p up[OF Cons.prems(1) k] by (auto split: option.splits)
  qed
  finally show ?case .
qed

definition updated_docs :: "compiled_filter \<Rightarrow> compiled_update \<Rightarrow> (doc_key \<times> bytes) list \<Rightarrow> (doc_key \<times> bytes) list" where
  "updated_docs m a docs = map (\<lambda>(k, bs). (k, if m (decoded bs) then new_version a bs else bs)) docs"

lemma put_docs_updated:
  assumes "distinct (map fst docs)"
  shows "put_docs (map (\<lambda>(k, bs). (k, new_version a bs)) (filter (\<lambda>(k, bs). m (decoded bs) \<and> new_version a bs \<noteq> bs) docs)) docs =
    updated_docs m a docs"
proof -
  let ?ps = "map (\<lambda>(k, bs). (k, new_version a bs)) (filter (\<lambda>(k, bs). m (decoded bs) \<and> new_version a bs \<noteq> bs) docs)"
  have d: "distinct (map fst ?ps)" using assms by (simp add: comp_def split_def distinct_map_filter)
  have get: "map_of ?ps k = (if m (decoded bs) \<and> new_version a bs \<noteq> bs then Some (new_version a bs) else None)"
    if "(k, bs) \<in> set docs" for k bs
  proof -
    have only: "bs' = bs" if "(k, bs') \<in> set docs" for bs' using eq_key_imp_eq_value[OF assms that \<open>(k, bs) \<in> set docs\<close>] .
    show ?thesis
    proof (cases "m (decoded bs) \<and> new_version a bs \<noteq> bs")
      case True
      then have "(k, new_version a bs) \<in> set ?ps" using that by force
      then have "map_of ?ps k = Some (new_version a bs)" using d by (rule map_of_is_SomeI[rotated])
      then show ?thesis using True by simp
    next
      case False
      then have "k \<notin> fst ` set ?ps" using only by (auto simp: split_def)
      then have "map_of ?ps k = None" by (simp only: map_of_eq_None_iff not_False_eq_True)
      then show ?thesis using False by (simp only: if_False)
    qed
  qed
  have "put_docs ?ps docs = map (\<lambda>(k, bs). (k, case map_of ?ps k of None \<Rightarrow> bs | Some b \<Rightarrow> b)) docs"
    by (rule put_docs_map[OF assms _ d]) force
  also have "\<dots> = updated_docs m a docs"
    unfolding updated_docs_def by (rule map_cong[OF refl]) (clarsimp simp: get simp del: map_of_map)
  finally show ?thesis .
qed

lemma upsert_outcome:
  assumes "coll_inv C" "length fresh = 16"
    and "\<And>d. bindR (seedDocumentFromFilter f) a = Inr d \<Longrightarrow> input_ok (DDocument d)"
  shows "\<exists>ps. outcome jc (map (\<lambda>(k, bs). JPut k bs) ps) (put_docs ps (co_documents C)) C (upsertFromUpdate jc fresh f a upsert C)"
proof (cases "upsert")
  case True
  show ?thesis
  proof (cases "bindR (seedDocumentFromFilter f) a")
    case (Inl e)
    then have "upsertFromUpdate jc fresh f a upsert C = (Inl e, C)" using True by (simp add: upsertFromUpdate_def operation_defs)
    then show ?thesis using assms(1) by (auto simp: outcome_def)
  next
    case (Inr d)
    have eq: "upsertFromUpdate jc fresh f a upsert C =
        bindS (insertOne jc fresh (DDocument d)) (\<lambda>docId. returnS (no_match\<lparr>ur_upsertedId := Some docId\<rparr>)) C"
      using True by (simp add: upsertFromUpdate_def Inr fromR_def bindS_def[of "fromR _"])
    have "\<exists>ps. outcome jc (map (\<lambda>(k, bs). JPut k bs) ps) (put_docs ps (co_documents C)) C (insertOne jc fresh (DDocument d) C)"
      by (rule insertOne_puts[OF assms(1) assms(3)[OF Inr] assms(2)])
    then show ?thesis unfolding eq by (auto simp: outcome_def operation_defs split: prod.splits sum.splits)
  qed
next
  case False
  then have "upsertFromUpdate jc fresh f a upsert C = (Inr no_match, C)" by (simp add: upsertFromUpdate_def operation_defs)
  then show ?thesis using assms(1)
    by (intro exI[of _ "[]"]) (simp add: outcome_def put_docs_def commits_def split: option.splits)
qed

lemma updateMany_outcome:
  assumes inv: "coll_inv C" and c: "compileFilter v = Inr m" "compileUpdate u = Inr a"
    and ok: "\<forall>(k, d) \<in> set (matching m C). update_ok a d"
    and ne: "matching m C \<noteq> []"
  shows "outcome jc (map (\<lambda>(k, bs). JPut k (new_version a bs))
      (filter (\<lambda>(k, bs). m (decoded bs) \<and> new_version a bs \<noteq> bs) (co_documents C)))
    (updated_docs m a (co_documents C)) C (updateMany jc fresh v u up C)"
proof -
  let ?P = "\<lambda>(k, bs). m (decoded bs) \<and> new_version a bs \<noteq> bs"
  let ?ps = "map (\<lambda>(k, bs). (k, new_version a bs)) (filter ?P (co_documents C))"
  have d: "distinct (map fst (co_documents C))" "docs_inv (co_documents C)" using inv by (simp_all add: coll_inv_def docs_inv_def)
  have f: "compileFilter (DDocument (filter_document v)) = Inr m" using c(1) compileFilter_document[OF c(1)] by simp
  have dec: "\<forall>(k, bs) \<in> set (co_documents C). decode_stored bs = Inr (decoded bs)"
    using docs_inv_mem[OF d(2)] stored_ok_decoded(1) by blast
  have st: "stored_ok k (new_version a bs)" if "(k, bs) \<in> set (co_documents C)" "m (decoded bs)" for k bs
  proof (rule new_version_stored[OF c(2) docs_inv_mem[OF d(2) that(1)]])
    have "(k, decoded bs) \<in> set (matching m C)" using that by (force simp: matching_def view_of_def)
    then show "update_ok a (decoded bs)" using ok by blast
  qed
  define indexed where "indexed = (\<not> set_isEmpty (co_indexes C))"
  have "filter (\<lambda>(k, bs). m (decoded bs)) (candidates (filter_document v) C) = filter (\<lambda>(k, bs). m (decoded bs)) (co_documents C)"
    by (rule candidates_filter(1)[OF inv f])
  then have loop: "update_loop m a indexed (candidates (filter_document v) C) = update_loop m a indexed (co_documents C)"
    using update_loop_filter[OF candidates_decode[OF inv f], of m a indexed] update_loop_filter[OF dec, of m a indexed] by simp
  show ?thesis
  proof (cases "validateUpsert up")
    case (Inl e)
    then have "updateMany jc fresh v u up C = (Inl e, C)" using c by (simp add: updateMany_def operation_defs)
    then show ?thesis using inv by (simp add: outcome_def)
  next
    case up: (Inr b)
    show ?thesis
    proof (cases "update_loop m a indexed (co_documents C)")
      case (Inl e)
      then have "updateMany jc fresh v u up C = (Inl e, C)"
        using c up loop by (simp add: updateMany_def operation_defs indexed_def)
      then show ?thesis using inv by (simp add: outcome_def)
    next
      case (Inr r)
      obtain n ps cs where r: "r = (n, ps, cs)" by (cases r) auto
      have spec: "n = length (filter (\<lambda>(k, bs). m (decoded bs)) (co_documents C))" "ps = ?ps"
        "cs = (if indexed then map (\<lambda>(k, bs). \<lparr>dc_key = k, dc_before = Some (decoded bs), dc_after = Some (decoded (new_version a bs))\<rparr>)
            (filter ?P (co_documents C)) else [])"
        using update_loop_spec[OF Inr[unfolded r] dec] st by blast+
      have n: "n \<noteq> 0" using ne spec(1) by (auto simp: matching_def view_of_def filter_empty_conv)
      have "updateMany jc fresh v u up C =
          bindS (bindS (trackChanges cs) (\<lambda>undo. commit_changes jc undo (map (\<lambda>(k, bs). JPut k bs) ps) (put_all ps)))
            (\<lambda>_. returnS \<lparr>ur_matchedCount = n, ur_modifiedCount = length ps, ur_upsertedId = None\<rparr>) C"
        using c up loop Inr r n
        by (simp add: updateMany_def operation_defs indexed_def[symmetric] split: prod.splits sum.splits)
      moreover have "co_indexes C = [] \<or> cs = put_changes (map_of (view C)) ps"
      proof (cases indexed)
        case True
        then show ?thesis using spec(2,3) view_get[OF inv] by (auto simp: put_changes_def)
      qed (simp add: indexed_def set_isEmpty_def)
      moreover have "distinct (map fst ps)" using d(1) unfolding spec(2) by (simp add: comp_def split_def distinct_map_filter)
      moreover have "\<forall>(k, bs) \<in> set ps. stored_ok k bs" using st unfolding spec(2) by auto
      ultimately have "outcome jc (map (\<lambda>(k, bs). JPut k bs) ps) (put_docs ps (co_documents C)) C (updateMany jc fresh v u up C)"
        using put_outcome[OF inv _ _ store_steps(3)] outcome_return by metis
      moreover have "map (\<lambda>(k, bs). JPut k bs) ps = map (\<lambda>(k, bs). JPut k (new_version a bs)) (filter ?P (co_documents C))"
        unfolding spec(2) by (simp add: comp_def split_def)
      ultimately show ?thesis using put_docs_updated[OF d(1), of a m] unfolding spec(2) by (simp only:)
    qed
  qed
qed

lemma alist_update_same: "map_of docs k = Some v \<Longrightarrow> AList.update k v docs = docs"
  by (induction docs) (auto split: if_splits)

lemma outcome_fail: "coll_inv C \<Longrightarrow> outcome jc ops docs' C (Inl e, C)"
  by (simp add: outcome_def)

lemma outcome_same: "coll_inv C \<Longrightarrow> outcome jc [] (co_documents C) C (Inr x, C)"
  by (simp add: outcome_def commits_def split: option.splits)

lemma updateOne_outcome:
  assumes inv: "coll_inv C" and c: "compileFilter v = Inr m" "compileUpdate u = Inr a"
    and first: "first_stored m C = Some (k, bs)" and ok: "update_ok a (decoded bs)"
  shows "outcome jc (if new_version a bs = bs then [] else [JPut k (new_version a bs)])
    (AList.update k (new_version a bs) (co_documents C)) C (updateOne jc fresh v u up C)"
proof -
  have mem: "(k, bs) \<in> set (co_documents C)" using first_stored_mem[OF first] by blast
  have get: "map_of (co_documents C) k = Some bs" using mem inv by (simp add: coll_inv_def docs_inv_def)
  have st: "stored_ok k bs" using inv mem by (auto simp: coll_inv_def dest: docs_inv_mem)
  have loc: "locate (filter_document v) m C = Inr (Some (located_of (k, bs)))"
    using locate_ok[OF inv] c(1) compileFilter_document[OF c(1)] first by simp
  define before where "before = (if set_isEmpty (co_indexes C) then None else Some (decoded bs))"
  have before: "co_indexes C = [] \<or> before = map_of (view C) k"
    using view_get[OF inv mem] by (simp add: before_def set_isEmpty_def)
  have dec: "decode_stored (ld_encoded (located_of (k, bs))) = Inr (decoded bs)" "ld_key (located_of (k, bs)) = k"
    using stored_ok_decoded(1)[OF st] by (simp_all add: located_of_def)
  show ?thesis
  proof (cases "validateUpsert up")
    case (Inl e)
    then have "updateOne jc fresh v u up C = (Inl e, C)" using c by (simp add: updateOne_def operation_defs)
    then show ?thesis by (simp add: outcome_fail inv)
  next
    case up: (Inr b)
    show ?thesis
    proof (cases "prepareUpdate (located_of (k, bs)) a")
      case (Inl e)
      then have "updateOne jc fresh v u up C = (Inl e, C)"
        using c up loc dec by (simp add: updateOne_def operation_defs)
      then show ?thesis by (simp add: outcome_fail inv)
    next
      case (Inr pending)
      note spec = prepareUpdate_spec[OF Inr]
      show ?thesis
      proof (cases pending)
        case None
        then have "updateOne jc fresh v u up C = (Inr \<lparr>ur_matchedCount = 1, ur_modifiedCount = 0, ur_upsertedId = None\<rparr>, C)"
          using c up loc dec Inr by (simp add: updateOne_def operation_defs)
        then show ?thesis using spec None inv get by (simp add: outcome_same alist_update_same)
      next
        case (Some b)
        then have nv: "b = new_version a bs" "new_version a bs \<noteq> bs" using spec by auto
        have "updateOne jc fresh v u up C = bindS (store_update jc k before b)
            (\<lambda>_. returnS \<lparr>ur_matchedCount = 1, ur_modifiedCount = 1, ur_upsertedId = None\<rparr>) C"
          using c up loc dec Inr Some
          by (simp add: updateOne_def operation_defs before_def split: prod.splits sum.splits)
        then show ?thesis
          using nv store_update_outcome[OF inv new_version_stored[OF c(2) st ok] before, of jc]
          by (simp add: outcome_return)
      qed
    qed
  qed
qed

lemma upsert_input_ok:
  assumes "wf_value (DDocument f)" "input_ok (DDocument d)" "upsert_replacement f d = Inr d'"
  shows "input_ok (DDocument d')"
proof (cases "hasOwn d (js ''_id'')")
  case True
  then show ?thesis using assms(2,3) by (auto simp: upsert_replacement_def split: if_splits)
next
  case False
  show ?thesis
  proof (cases "filter_id f")
    case None
    then show ?thesis using False assms(2,3) by (simp add: upsert_replacement_def)
  next
    case (Some docId)
    then have "map_of f (js ''_id'') = Some (DCustomId docId)"
      by (auto simp: filter_id_def split: option.splits doc_value.splits)
    from wf_value_DDocument_get[OF assms(1) this] have "length docId = 16" by simp
    then show ?thesis using Some False assms(2,3) by (auto simp: upsert_replacement_def intro: input_ok_set_id)
  qed
qed

lemma replaceOne_outcome:
  assumes inv: "coll_inv C" and c: "compileFilter v = Inr m" and r: "input_ok r" "length fresh = 16" "wf_value v"
  shows "\<exists>ps. outcome jc (map (\<lambda>(k, bs). JPut k bs) ps) (put_docs ps (co_documents C)) C (replaceOne jc fresh v r up C)"
proof -
  have loc: "locate (filter_document v) m C = Inr (map_option located_of (first_stored m C))"
    using locate_ok[OF inv] c(1) compileFilter_document[OF c(1)] by simp
  note fail = outcome_fail[OF inv, of jc "map (\<lambda>(k, bs). JPut k bs) []" "put_docs [] (co_documents C)"]
  have same: "outcome jc (map (\<lambda>(k, bs). JPut k bs) []) (put_docs [] (co_documents C)) C (Inr x, C)" for x :: update_result
    using outcome_same[OF inv] by (simp add: put_docs_def)
  show ?thesis
  proof (cases "bindR (validateUpsert up) (\<lambda>upsert. bindR (validateReplacement r) (\<lambda>d. Inr (upsert, d)))")
    case (Inl e)
    then have "replaceOne jc fresh v r up C = (Inl e, C)"
      using c by (auto simp: replaceOne_def operation_defs bindR_eq_Inl)
    then show ?thesis using fail by metis
  next
    case (Inr q)
    then obtain upsert d where q: "validateUpsert up = Inr upsert" "validateReplacement r = Inr d" by (cases q) auto
    have d: "r = DDocument d" using q(2) by (auto simp: validateReplacement_def split: doc_value.splits if_splits)
    show ?thesis
    proof (cases "first_stored m C")
      case None
      show ?thesis
      proof (cases "\<not> upsert \<or> (\<exists>e. upsert_replacement (filter_document v) d = Inl e)")
        case True
        then have "replaceOne jc fresh v r up C = (Inr no_match, C) \<or> (\<exists>e. replaceOne jc fresh v r up C = (Inl e, C))"
          using c q loc None by (auto simp: replaceOne_def operation_defs)
        then show ?thesis using fail same by metis
      next
        case False
        then obtain d' where d': "upsert_replacement (filter_document v) d = Inr d'" "upsert" by (meson sum.exhaust)
        have "replaceOne jc fresh v r up C =
            bindS (insertOne jc fresh (DDocument d')) (\<lambda>docId. returnS (no_match\<lparr>ur_upsertedId := Some docId\<rparr>)) C"
          using c q loc None d' by (simp add: replaceOne_def bindS_def getsS_def fromR_def)
        moreover have "input_ok (DDocument d')"
          using d'(1) upsert_input_ok[OF _ r(1)[unfolded d]] r(3) compileFilter_document[OF c] by metis
        then have "\<exists>ps. outcome jc (map (\<lambda>(k, bs). JPut k bs) ps) (put_docs ps (co_documents C)) C (insertOne jc fresh (DDocument d') C)"
          by (rule insertOne_puts[OF inv _ r(2)])
        ultimately show ?thesis by (auto simp: outcome_def operation_defs split: prod.splits sum.splits)
      qed
    next
      case (Some p)
      obtain k bs where p: "p = (k, bs)" by fastforce
      have mem: "(k, bs) \<in> set (co_documents C)" using first_stored_mem Some p by blast
      have st: "stored_ok k bs" using inv mem by (auto simp: coll_inv_def dest: docs_inv_mem)
      obtain docId where docId: "map_of (decoded bs) (js ''_id'') = Some (DCustomId docId)" "k = toHexString docId"
        using stored_ok_decoded(3)[OF st] by blast
      have len: "length docId = 16" using storable_field[OF stored_ok_decoded(2)[OF st] docId(1)] by (simp add: storable_def)
      let ?new = "obj_set (js ''_id'') (DCustomId docId) d"
      show ?thesis
      proof (cases "hasOwn d (js ''_id'') \<and> \<not> same_id (map_of d (js ''_id'')) (map_of (decoded bs) (js ''_id'')) \<or>
          (\<exists>e. encodeStoredDocument ?new = Inl e)")
        case True
        then have "\<exists>e. replaceOne jc fresh v r up C = (Inl e, C)"
          using c q loc Some p docId(1) by (auto simp: replaceOne_def operation_defs located_of_def Let_def)
        then show ?thesis using fail by metis
      next
        case False
        then obtain b where b: "encodeStoredDocument ?new = Inr b" by (meson sum.exhaust)
        then have enc: "encodeDocument ?new = Inr b" by (simp add: encodeStoredDocument_def)
        have stb: "stored_ok k b"
          using stored_ok_encoded(1)[OF enc input_ok_set_id[OF r(1)[unfolded d] len], of docId] docId(2) by simp
        show ?thesis
        proof (cases "b = bs")
          case True
          then have "\<exists>x. replaceOne jc fresh v r up C = (Inr x, C)"
            using c q loc Some p docId(1) False b by (auto simp: replaceOne_def operation_defs located_of_def Let_def)
          then show ?thesis using same by metis
        next
          case neq: False
          have "replaceOne jc fresh v r up C = bindS (store_update jc k (map_of (view C) k) b)
              (\<lambda>_. returnS \<lparr>ur_matchedCount = 1, ur_modifiedCount = 1, ur_upsertedId = None\<rparr>) C"
            using c q loc Some p docId(1) False b neq view_get[OF inv mem]
            by (auto simp: replaceOne_def operation_defs located_of_def Let_def split: prod.splits sum.splits)
          then have "outcome jc (map (\<lambda>(k, bs). JPut k bs) [(k, b)]) (put_docs [(k, b)] (co_documents C)) C (replaceOne jc fresh v r up C)"
            using store_update_outcome[OF inv stb] by (simp add: outcome_return put_docs_def)
          then show ?thesis by metis
        qed
      qed
    qed
  qed
qed

lemma update_no_match:
  assumes "coll_inv C" "compileFilter f = Inr m" "compileUpdate u = Inr a" "validateUpsert up = Inr b" "matching m C = []"
  shows "updateOne jc x f u up C = upsertFromUpdate jc x (filter_document f) a b C \<and>
    updateMany jc x f u up C = upsertFromUpdate jc x (filter_document f) a b C"
proof -
  have c: "compileFilter (DDocument (filter_document f)) = Inr m" using assms(2) compileFilter_document[OF assms(2)] by simp
  have none: "filter (\<lambda>(k, bs). m (decoded bs)) (co_documents C) = []"
    using assms(5) by (auto simp: matching_def view_of_def filter_empty_conv)
  then have "first_stored m C = None" by (simp add: first_stored_def find_filter)
  then have loc: "locate (filter_document f) m C = Inr None" using locate_ok[OF assms(1) c] by simp
  have "update_loop m a indexed (candidates (filter_document f) C) = Inr (0, [], [])" for indexed
    using update_loop_filter[OF candidates_decode[OF assms(1) c], of m a indexed] candidates_filter(1)[OF assms(1) c] none by simp
  then show ?thesis using loc assms(2-4) by (simp add: updateOne_def updateMany_def operation_defs)
qed

end
