(* ===== verification/Collection_Inv.thy ===== *)
theory Collection_Inv
  imports Collection_Store
begin

text \<open>
  Batches of inserts, the operations on indexes, and the theorems about a whole collection: its
  invariant under every command, and its state as the replay of its journal.
\<close>

section \<open>Batches of inserts\<close>

lemma foldl_rollback_specs: "specs_of (foldl (\<lambda>S undo. rollback undo S) S us) = specs_of S"
  by (induction us arbitrary: S) simp_all

text \<open>\<open>undo_all C ps us\<close>: the rollbacks \<open>us\<close>, last one first, take any indexes that represent the
  documents with the puts \<open>ps\<close> back to the documents without them.\<close>

definition undo_all :: "'j collection \<Rightarrow> (doc_key \<times> bytes) list \<Rightarrow> undo_step list list \<Rightarrow> bool" where
  "undo_all C ps us \<longleftrightarrow> (\<forall>S. specs_of S = specs_of (co_indexes C) \<longrightarrow>
     set_repr S (map_of (view_of (put_docs ps (co_documents C)))) \<longrightarrow>
     set_repr (foldl (\<lambda>S undo. rollback undo S) S (rev us)) (map_of (view C)))"

definition puts :: "prepared_insert list \<Rightarrow> (doc_key \<times> bytes) list" where
  "puts ps = map (\<lambda>p. (pi_key p, pi_encoded p)) ps"

text \<open>The state in the middle of a batch.\<close>

definition batch_inv :: "'j collection \<Rightarrow> prepared_insert list \<Rightarrow> undo_step list list \<Rightarrow> index_set \<Rightarrow> bool" where
  "batch_inv C accepted us S \<longleftrightarrow> specs_of S = specs_of (co_indexes C) \<and>
     distinct (map pi_key accepted) \<and> (\<forall>p \<in> set accepted. stored_ok (pi_key p) (pi_encoded p)) \<and>
     set (map pi_key accepted) \<inter> fst ` set (co_documents C) = {} \<and>
     set_repr S (map_of (view_of (put_docs (puts accepted) (co_documents C)))) \<and>
     all_unique S (map_of (view_of (put_docs (puts accepted) (co_documents C)))) \<and>
     undo_all C (puts accepted) us"

lemma put_docs_append: "put_docs (ps @ qs) docs = put_docs qs (put_docs ps docs)"
  by (simp add: put_docs_def)

lemma track_insert_batch:
  assumes inv: "coll_inv C" and b: "batch_inv C accepted us S" and p: "stored_ok (pi_key p) (pi_encoded p)"
    "pi_key p \<notin> set (map pi_key accepted)" "pi_key p \<notin> fst ` set (co_documents C)"
    and t: "trackInsert p (C\<lparr>co_indexes := S\<rparr>) = (r, C1)"
  shows "case r of
      Inr undo \<Rightarrow> \<exists>S'. C1 = C\<lparr>co_indexes := S'\<rparr> \<and> batch_inv C (accepted @ [p]) (us @ [undo]) S'
    | Inl e \<Rightarrow> is_storage_error e \<and> (\<exists>S'. C1 = C\<lparr>co_indexes := S'\<rparr> \<and> batch_inv C accepted us S')"
proof -
  let ?docs = "put_docs (puts accepted) (co_documents C)"
  let ?D = "map_of (view_of ?docs)" and ?new = "[(pi_key p, pi_encoded p)]"
  have docs: "docs_inv ?docs"
    using inv b by (intro docs_inv_put_docs) (auto simp: coll_inv_def batch_inv_def puts_def)
  have acc: "puts (accepted @ [p]) = puts accepted @ ?new" by (simp add: puts_def)
  have D': "map_of (view_of (put_docs (puts (accepted @ [p])) (co_documents C))) = changed ?D (put_changes ?D ?new)"
    unfolding acc put_docs_append by (rule changed_put_docs) simp
  have base: "distinct (map pi_key (accepted @ [p]))" "\<forall>q \<in> set (accepted @ [p]). stored_ok (pi_key q) (pi_encoded q)"
    "set (map pi_key (accepted @ [p])) \<inter> fst ` set (co_documents C) = {}"
    using b p by (auto simp: batch_inv_def)
  have keys: "fst ` set (put_docs ps ds) = fst ` set ds \<union> fst ` set ps" for ps ds
    by (induction ps arbitrary: ds) (simp_all add: put_docs_def dom_update split_def Un_insert_right)
  have none: "?D (pi_key p) = None"
    using p(2,3) by (simp add: map_of_view_of map_of_eq_None_iff keys) (auto simp: puts_def)
  have change: "put_changes ?D ?new = [\<lparr>dc_key = pi_key p, dc_before = None, dc_after = Some (decoded (pi_encoded p))\<rparr>]"
    by (simp add: put_changes_def none)
  have S: "specs_of S = specs_of (co_indexes C)" "set_repr S ?D" "all_unique S ?D" "undo_all C (puts accepted) us"
    using b by (simp_all add: batch_inv_def)
  show ?thesis
  proof (cases "S = []")
    case True
    then have e: "r = Inr []" "C1 = C\<lparr>co_indexes := []\<rparr>" using t by (simp_all add: trackInsert_def set_isEmpty_def)
    have nil: "co_indexes C = []" using S(1) True specs_of_Nil by blast
    have free: "set_repr T D \<and> all_unique T D" if "specs_of T = []" for T D
      using that by (simp add: specs_of_def set_repr_def fam_repr_def all_unique_def)
    have "specs_of [] = []" by (simp add: specs_of_def)
    then have "batch_inv C (accepted @ [p]) (us @ [[]]) []"
      using base nil free unfolding batch_inv_def undo_all_def by (simp add: foldl_rollback_specs)
    then show ?thesis using e True by auto
  next
    case False
    have tr: "trackInsert p (C\<lparr>co_indexes := S\<rparr>) = trackChanges (put_changes ?D ?new) (C\<lparr>co_indexes := S\<rparr>)"
      unfolding change using False stored_ok_decoded(1)[OF p(1)] by (simp add: trackInsert_def set_isEmpty_def)
    obtain S' where a: "applyChanges (put_changes ?D ?new) S = (r, S')" "C1 = C\<lparr>co_indexes := S'\<rparr>"
      using t unfolding tr by (auto simp: trackChanges_def split: prod.splits)
    have ok: "changes_ok ?D (put_changes ?D ?new)" using p(1) by (intro put_changes_ok) simp_all
    note spec = applyChanges_spec[OF S(2) docs_inv_view(2)[OF docs] S(3) ok a(1)]
    then have S': "specs_of S' = specs_of S" by blast
    show ?thesis
    proof (cases r)
      case (Inl e)
      then have "e = StorageError DuplicateKey" "set_repr S' ?D" using spec by simp_all
      moreover from this have "batch_inv C accepted us S'"
        using b S' all_unique_cong[OF S'] by (simp add: batch_inv_def)
      ultimately show ?thesis using Inl a(2) by (auto simp: is_storage_error_def)
    next
      case (Inr undo)
      let ?D' = "changed ?D (put_changes ?D ?new)"
      have s: "all_unique S' ?D'" "set_repr S' ?D'" "undoes (fst ` set S) undo (\<lambda>_. ?D') (\<lambda>_. ?D)"
        using spec Inr all_unique_cong[OF S'] by simp_all
      have "undo_all C (puts (accepted @ [p])) (us @ [undo])"
        unfolding undo_all_def D'
      proof (intro allI impI)
        fix S2
        assume S2: "specs_of S2 = specs_of (co_indexes C)" "set_repr S2 ?D'"
        have "fst ` set S2 = fst ` set S" using names_of_specs[of S2 S] S2(1) S(1) by (metis list.set_map)
        then have "set_repr (rollback undo S2) ?D"
          using rollback_repr[OF s(3) S2(2)[unfolded set_repr_def]] by (simp add: set_repr_def)
        then show "set_repr (foldl (\<lambda>S undo. rollback undo S) S2 (rev (us @ [undo]))) (map_of (view C))"
          using S(4) S2(1) by (simp add: undo_all_def)
      qed
      then have "batch_inv C (accepted @ [p]) (us @ [undo]) S'"
        using base S' S(1) s(1,2) unfolding batch_inv_def D' by simp
      then show ?thesis using Inr a(2) by auto
    qed
  qed
qed

lemma prepareInsert_indexes: "prepareInsert fresh v pending (C\<lparr>co_indexes := S\<rparr>) = prepareInsert fresh v pending C"
  by (simp add: prepareInsert_def has_document_def cong: doc_value.case_cong)

lemma prepareInsert_error: "prepareInsert fresh v pending C = Inl e \<Longrightarrow> is_storage_error e"
  by (auto simp: prepareInsert_def resolveDocumentId_def encodeStoredDocument_def bindR_def is_storage_error_def Let_def
      split: doc_value.splits sum.splits if_splits option.splits)

lemma insert_loop_spec:
  assumes inv: "coll_inv C" and "batch_inv C accepted us S" "\<forall>v \<in> set vs. input_ok v" "\<forall>n. length (fresh n) = 16"
    and "insert_loop fresh n vs accepted us (C\<lparr>co_indexes := S\<rparr>) = (r, C')"
  shows "\<exists>accepted' us' failed S'. r = Inr (accepted', us', failed) \<and> C' = C\<lparr>co_indexes := S'\<rparr> \<and> batch_inv C accepted' us' S'"
  using assms(2-5)
proof (induction vs arbitrary: n accepted us S)
  case Nil
  then show ?case by auto
next
  case (Cons v vs)
  show ?case
  proof (cases "prepareInsert (fresh n) v (map pi_key accepted) C")
    case (Inl e)
    then show ?thesis using Cons.prems prepareInsert_error[OF Inl]
      by (simp add: operation_defs prepareInsert_indexes) blast
  next
    case (Inr p)
    have "input_ok v" "length (fresh n) = 16" using Cons.prems(2,3) by simp_all
    note p = prepareInsert_spec[OF Inr this]
    obtain r1 C1 where t: "trackInsert p (C\<lparr>co_indexes := S\<rparr>) = (r1, C1)" by fastforce
    note spec = track_insert_batch[OF inv Cons.prems(1) p(1,3,2) t]
    show ?thesis
    proof (cases r1)
      case (Inl e)
      with spec obtain S' where S': "is_storage_error e" "C1 = C\<lparr>co_indexes := S'\<rparr>" "batch_inv C accepted us S'" by auto
      then have "r = Inr (accepted, us, Some (n, e))" "C' = C1"
        using Cons.prems(4) Inr t Inl by (simp_all add: operation_defs prepareInsert_indexes)
      then show ?thesis using S' by blast
    next
      case ok: (Inr undo)
      with spec obtain S' where S': "C1 = C\<lparr>co_indexes := S'\<rparr>" "batch_inv C (accepted @ [p]) (us @ [undo]) S'" by auto
      have "insert_loop fresh (n + 1) vs (accepted @ [p]) (us @ [undo]) (C\<lparr>co_indexes := S'\<rparr>) = (r, C')"
        using Cons.prems(4) Inr t ok S'(1) by (simp add: operation_defs prepareInsert_indexes)
      then show ?thesis using Cons.IH[OF S'(2)] Cons.prems(2,3) by simp
    qed
  qed
qed

section \<open>The journal as the truth\<close>

text \<open>The durable state of a collection, and what a journal operation does to it.\<close>

type_synonym durable = "(doc_key \<times> bytes) list \<times> (js_string \<times> index_spec) list"

primrec apply_op :: "durable \<Rightarrow> journal_operation \<Rightarrow> durable" where
  "apply_op st (JPut k bs) = (AList.update k bs (fst st), snd st)"
| "apply_op st (JDelete k) = (AList.delete k (fst st), snd st)"
| "apply_op st (JCreateIndex spec) = (fst st, snd st @ [(is_name spec, spec)])"
| "apply_op st (JDropIndex name) = (fst st, AList.delete name (snd st))"

definition replay :: "journal_operation list \<Rightarrow> durable \<Rightarrow> durable" where
  "replay ops st = foldl apply_op st ops"

definition durable_of :: "'j collection \<Rightarrow> durable" where
  "durable_of C = (co_documents C, specs_of (co_indexes C))"

lemma replay_puts: "replay (map (\<lambda>(k, bs). JPut k bs) ps) (docs, specs) = (put_docs ps docs, specs)"
  by (induction ps arbitrary: docs) (auto simp: replay_def put_docs_def)

lemma replay_deletes: "replay (map JDelete ks) (docs, specs) = (remove_docs ks docs, specs)"
  by (induction ks arbitrary: docs) (auto simp: replay_def remove_docs_def)

text \<open>
  The operations a command commits: they name documents by the hexadecimal form of a 16-byte id, and
  the creation (of an index among \<open>A\<close>) or removal of an index comes alone and fits the indexes there are.
\<close>

definition hex_key :: "doc_key \<Rightarrow> bool" where
  "hex_key k \<longleftrightarrow> (\<exists>docId. length docId = 16 \<and> k = toHexString docId)"

definition spec_fits :: "index_spec \<Rightarrow> (js_string \<times> index_spec) list \<Rightarrow> bool" where
  "spec_fits spec specs \<longleftrightarrow> map_of specs (is_name spec) = None \<and> is_field spec \<notin> is_field ` snd ` set specs \<and>
     length specs < MAX_INDEXES_PER_COLLECTION"

definition ops_fit :: "index_spec set \<Rightarrow> durable \<Rightarrow> journal_operation list \<Rightarrow> bool" where
  "ops_fit A st ops \<longleftrightarrow> (\<forall>op \<in> set ops. case op of
       JPut k bs \<Rightarrow> hex_key k
     | JDelete k \<Rightarrow> hex_key k
     | JCreateIndex spec \<Rightarrow> ops = [op] \<and> spec_fits spec (snd st) \<and> spec \<in> A
     | JDropIndex name \<Rightarrow> ops = [op] \<and> name \<in> fst ` set (snd st))"

lemma stored_hex: "stored_ok k bs \<Longrightarrow> hex_key k"
  unfolding stored_ok_def hex_key_def
proof (elim exE conjE)
  fix d docId
  assume a: "storable (DDocument d)" "map_of d (js ''_id'') = Some (DCustomId docId)" "k = toHexString docId"
  have "wf_value (DDocument d)" using a(1) by (simp add: storable_def)
  then have "length docId = 16" using map_of_SomeD[OF a(2)] by (force simp: list_all_iff)
  then show "\<exists>docId. length docId = 16 \<and> k = toHexString docId" using a(3) by blast
qed

lemma docs_hex: "docs_inv docs \<Longrightarrow> k \<in> fst ` set docs \<Longrightarrow> hex_key k"
  using stored_hex by (fastforce simp: docs_inv_def)

lemma put_docs_keys: "fst ` set (put_docs ps ds) = fst ` set ds \<union> fst ` set ps"
  by (induction ps arbitrary: ds) (simp_all add: put_docs_def dom_update split_def Un_insert_right)

lemma fit_puts: "docs_inv (put_docs ps docs) \<Longrightarrow> ops_fit A st (map (\<lambda>(k, bs). JPut k bs) ps)"
  using docs_hex[of "put_docs ps docs"] by (fastforce simp: ops_fit_def put_docs_keys)

definition journaled :: "index_spec set \<Rightarrow> 'j journal_commit \<Rightarrow> 'j collection \<Rightarrow> 'j collection \<Rightarrow> bool" where
  "journaled A jc C C' \<longleftrightarrow> (\<exists>ops. commits jc ops (co_journal C) (co_journal C') \<and> durable_of C' = replay ops (durable_of C) \<and> ops_fit A (durable_of C) ops)"

text \<open>
  What every command promises: it keeps the invariant; when it returns, or stops in the middle of a
  batch, the new state is the old one with the operations that were committed; when it fails
  otherwise, documents and index definitions are as before.
\<close>

definition sound_step :: "index_spec set \<Rightarrow> 'j journal_commit \<Rightarrow> 'j collection \<Rightarrow> (failure + 'a) \<times> 'j collection \<Rightarrow> bool" where
  "sound_step A jc C res \<longleftrightarrow> coll_inv (snd res) \<and>
     (case fst res of
        Inr _ \<Rightarrow> journaled A jc C (snd res)
      | Inl e \<Rightarrow> durable_of (snd res) = durable_of C \<and> refused jc (co_journal C) (co_journal (snd res)) \<or>
          (\<exists>code index ids. e = StorageInsertManyError code index ids) \<and> journaled A jc C (snd res))"

lemma journaled_refl: "journaled A jc C C"
  unfolding journaled_def by (rule exI[of _ "[]"]) (simp add: commits_def replay_def ops_fit_def split: option.splits)

lemma sound_same: "coll_inv C \<Longrightarrow> sound_step A jc C (r, C)"
  by (simp add: sound_step_def journaled_refl split: sum.splits)

lemma outcome_sound:
  assumes "outcome jc ops docs' C res" "replay ops (co_documents C, specs_of (co_indexes C)) = (docs', specs_of (co_indexes C))"
    and "docs_inv docs' \<Longrightarrow> ops_fit A (durable_of C) ops"
  shows "sound_step A jc C res"
proof (cases "fst res")
  case (Inl e)
  then show ?thesis using assms(1) by (simp add: outcome_def sound_step_def durable_of_def)
next
  case (Inr x)
  then have o: "coll_inv (snd res)" "co_documents (snd res) = docs'" "specs_of (co_indexes (snd res)) = specs_of (co_indexes C)"
    "commits jc ops (co_journal C) (co_journal (snd res))" using assms(1) by (simp_all add: outcome_def)
  then have "ops_fit A (durable_of C) ops" using assms(3) by (simp add: coll_inv_def)
  then have "journaled A jc C (snd res)" using assms(2) o unfolding journaled_def durable_of_def by (intro exI[of _ ops]) simp
  then show ?thesis using Inr o(1) by (simp add: sound_step_def)
qed

lemma outcome_puts:
  assumes "outcome jc (map (\<lambda>(k, bs). JPut k bs) ps) (put_docs ps (co_documents C)) C res"
  shows "sound_step A jc C res"
  using outcome_sound[OF assms replay_puts fit_puts] .

lemma outcome_deletes:
  assumes "outcome jc (map JDelete ks) (remove_docs ks (co_documents C)) C res"
    and "coll_inv C" "set ks \<subseteq> fst ` set (co_documents C)"
  shows "sound_step A jc C res"
proof (rule outcome_sound[OF assms(1) replay_deletes])
  have "hex_key k" if "k \<in> set ks" for k using that assms(2,3) docs_hex[of "co_documents C" k] by (auto simp: coll_inv_def)
  then show "ops_fit A (durable_of C) (map JDelete ks)" by (simp add: ops_fit_def)
qed

lemma insertMany_sound:
  assumes inv: "coll_inv C" and ok: "\<forall>v \<in> set vs. input_ok v" "\<forall>n. length (fresh n) = 16"
  shows "sound_step A jc C (insertMany jc fresh vs C)"
proof (cases "vs = []")
  case True
  then show ?thesis using sound_same[OF inv] by (simp add: insertMany_def operation_defs)
next
  case False
  have "C\<lparr>co_indexes := co_indexes C\<rparr> = C" by simp
  moreover have "batch_inv C [] [] (co_indexes C)"
    using inv by (simp add: batch_inv_def coll_inv_def puts_def put_docs_def undo_all_def)
  ultimately obtain accepted us failed S where
    l: "insert_loop fresh 0 vs [] [] C = (Inr (accepted, us, failed), C\<lparr>co_indexes := S\<rparr>)" and b: "batch_inv C accepted us S"
    using insert_loop_spec[OF inv _ ok, of "[]" "[]" "co_indexes C" 0] by (metis prod.collapse)
  let ?ops = "map (\<lambda>p. JPut (pi_key p) (pi_encoded p)) accepted" and ?docs = "put_docs (puts accepted) (co_documents C)"
  have ops: "?ops = map (\<lambda>(k, bs). JPut k bs) (puts accepted)" by (simp add: puts_def)
  have S: "specs_of S = specs_of (co_indexes C)" using b by (simp add: batch_inv_def)
  define fin where "fin = (case failed of
      Some (index, e) \<Rightarrow> throwS (StorageInsertManyError (failure_code e) index (map pi_id accepted))
    | None \<Rightarrow> (returnS (map pi_id accepted) :: ('a collection, bytes list) operation))"
  have fin: "sound_step A jc C (fin C')" if "coll_inv C'" "journaled A jc C C'" for C'
    using that by (simp add: fin_def sound_step_def operation_defs split: option.splits prod.splits)
  show ?thesis
  proof (cases "accepted = []")
    case True
    then have "insertMany jc fresh vs C = fin (C\<lparr>co_indexes := S\<rparr>)"
      using False l by (simp add: insertMany_def operation_defs fin_def split: option.splits)
    moreover have "set_repr S (map_of (view C))" using b True by (simp add: batch_inv_def puts_def put_docs_def)
    then have "coll_inv (C\<lparr>co_indexes := S\<rparr>)" using coll_inv_indexes[OF inv S, of "co_journal C"] by simp
    moreover have "journaled A jc C (C\<lparr>co_indexes := S\<rparr>)"
      using journaled_refl[of A jc C] S by (simp add: journaled_def durable_of_def)
    ultimately show ?thesis using fin by simp
  next
    case ne: False
    obtain r C1 where c: "commit jc ?ops (C\<lparr>co_indexes := S\<rparr>) = (r, C1)" by fastforce
    obtain j where j: "C1 = C\<lparr>co_indexes := S, co_journal := j\<rparr>" "r = Inr () \<longrightarrow> commits jc ?ops (co_journal C) j"
        "\<forall>e. r = Inl e \<longrightarrow> refused jc (co_journal C) j"
      using commit_spec[OF c] ne by auto
    show ?thesis
    proof (cases r)
      case (Inl e)
      let ?S = "foldl (\<lambda>S undo. rollback undo S) S (rev us)"
      have eq: "insertMany jc fresh vs C = (Inl e, C\<lparr>co_indexes := ?S, co_journal := j\<rparr>)"
        using False l ne c Inl j(1) by (simp add: insertMany_def operation_defs run_rollbacks_def)
      have "set_repr ?S (map_of (view C))" using b by (simp add: batch_inv_def undo_all_def)
      then have "coll_inv (C\<lparr>co_indexes := ?S, co_journal := j\<rparr>)"
        by (intro coll_inv_indexes[OF inv]) (simp_all add: foldl_rollback_specs S)
      then show ?thesis using j(3) Inl unfolding eq sound_step_def by (simp add: durable_of_def foldl_rollback_specs S)
    next
      case (Inr u)
      let ?C = "put_all (puts accepted) C1"
      have eq: "insertMany jc fresh vs C = fin ?C"
        using False l ne c Inr by (simp add: insertMany_def operation_defs fin_def puts_def[symmetric] split: option.splits)
      have f: "co_documents ?C = ?docs" "co_indexes ?C = S" "co_journal ?C = j"
        using j(1) by (simp_all add: put_all_spec)
      have "seq_inv C1" using inv j(1) specs_of_Nil[OF S] by (auto simp: coll_inv_iff seq_inv_def split: option.splits)
      then have "coll_inv ?C"
        using b inv unfolding coll_inv_iff f
        by (auto simp: batch_inv_def puts_def put_all_spec coll_inv_def intro!: docs_inv_put_docs)
      moreover have "journaled A jc C ?C"
        unfolding journaled_def durable_of_def f
        using j(2) Inr S replay_puts[of "puts accepted" "co_documents C" "specs_of (co_indexes C)"]
          fit_puts[of "puts accepted" "co_documents C"] \<open>coll_inv ?C\<close> f(1)
        by (intro exI[of _ ?ops]) (simp add: ops coll_inv_def)
      ultimately show ?thesis using fin eq by simp
    qed
  qed
qed

section \<open>Creating and dropping indexes\<close>

lemma number_documents_spec:
  assumes "distinct (map fst (co_documents C))"
  shows "\<exists>sequence next. number_documents C = C\<lparr>co_sequence := Some sequence, co_nextSequence := next\<rparr> \<and>
    seq_ok (map fst (co_documents C)) sequence next"
proof -
  let ?step = "\<lambda>(C :: 'a collection) key. C\<lparr>co_sequence := map_option (AList.update key (co_nextSequence C)) (co_sequence C),
    co_nextSequence := co_nextSequence C + 1\<rparr>"
  have "\<exists>sequence' next'. foldl ?step (C\<lparr>co_sequence := Some sequence, co_nextSequence := next\<rparr>) keys =
      C\<lparr>co_sequence := Some sequence', co_nextSequence := next'\<rparr> \<and> seq_ok (done @ keys) sequence' next'"
    if "seq_ok done sequence next" "distinct (done @ keys)" for "done" sequence "next" keys
    using that
  proof (induction keys arbitrary: "done" sequence "next")
    case (Cons k keys)
    have "seq_ok (done @ [k]) (AList.update k next sequence) (next + 1)" using Cons.prems by (intro seq_ok_snoc) auto
    from Cons.IH[OF this] Cons.prems(2) show ?case by simp
  qed auto
  from this[of "[]" "[]" "co_nextSequence C" "map fst (co_documents C)"] assms show ?thesis
    by (simp add: number_documents_def seq_ok_def)
qed

lemma buildIndex_spec:
  assumes "coll_inv C" "buildIndex spec C = (r, C')"
  shows "(case r of
      Inl _ \<Rightarrow> C' = C
    | Inr False \<Rightarrow> C' = C
    | Inr True \<Rightarrow> coll_inv C' \<and> co_documents C' = co_documents C \<and> co_journal C' = co_journal C \<and>
        map_of (co_indexes C) (is_name spec) = None \<and> specs_of (co_indexes C') = specs_of (co_indexes C) @ [(is_name spec, spec)] \<and>
        (\<exists>fx. co_indexes C' = co_indexes C @ [(is_name spec, fx)]) \<and> (co_indexes C \<noteq> [] \<longrightarrow> co_sequence C' = co_sequence C \<and> co_nextSequence C' = co_nextSequence C))"
proof -
  have inv: "docs_inv (co_documents C)" "set_repr (co_indexes C) (map_of (view C))" "all_unique (co_indexes C) (map_of (view C))"
    using assms(1) by (simp_all add: coll_inv_def)
  note entries = decodedEntries_ok[OF inv(1)]
  note spec = create_index_spec[OF inv(2) docs_inv_view(1)[OF inv(1)] inv(3), of spec]
  show ?thesis
  proof (cases "create_index spec (view C) (co_indexes C)")
    case (Inl e)
    then show ?thesis using assms(2) entries by (auto simp: buildIndex_def)
  next
    case (Inr q)
    obtain c S where q: "q = (c, S)" by fastforce
    show ?thesis
    proof (cases c)
      case Exists
      then show ?thesis using assms(2) entries Inr q by (auto simp: buildIndex_def)
    next
      case Created
      let ?C1 = "C\<lparr>co_indexes := S\<rparr>"
      have C': "r = Inr True" "C' = (if co_sequence C = None then number_documents ?C1 else ?C1)"
        using assms(2) entries Inr q Created by (auto simp: buildIndex_def Let_def)
      have S: "specs_of S = specs_of (co_indexes C) @ [(is_name spec, spec)]" "set_repr S (map_of (view C))" "all_unique S (map_of (view C))"
        using spec Inr q Created by simp_all
      have fresh: "map_of (co_indexes C) (is_name spec) = None" "\<exists>fx. S = co_indexes C @ [(is_name spec, fx)]"
        using Inr q Created by (auto simp: create_index_def alist_update_new split: option.splits if_splits)
      then have ne: "S \<noteq> []" by auto
      have "coll_inv C' \<and> co_documents C' = co_documents C \<and> co_journal C' = co_journal C \<and> co_indexes C' = S \<and>
          (co_indexes C \<noteq> [] \<longrightarrow> co_sequence C' = co_sequence C \<and> co_nextSequence C' = co_nextSequence C)"
      proof (cases "co_sequence C")
        case None
        obtain sequence "next" where n: "number_documents ?C1 = ?C1\<lparr>co_sequence := Some sequence, co_nextSequence := next\<rparr>"
          "seq_ok (map fst (co_documents C)) sequence next"
          using number_documents_spec[of ?C1] inv(1) by (auto simp: docs_inv_def)
        have "co_indexes C = []" using None assms(1) by (simp add: coll_inv_def)
        then show ?thesis using C'(2) None n inv(1) S ne by (simp add: coll_inv_def)
      next
        case (Some sequence)
        then show ?thesis using C'(2) assms(1) S ne by (simp add: coll_inv_def)
      qed
      then show ?thesis using C'(1) S(1) fresh by simp
    qed
  qed
qed

lemma buildIndex_fits:
  assumes "buildIndex spec C = (Inr True, C')"
  shows "spec_fits spec (specs_of (co_indexes C))"
proof -
  obtain docs S where "create_index spec docs (co_indexes C) = Inr (Created, S)"
    using assms by (auto simp: buildIndex_def split: prod.splits sum.splits option.splits create_result.splits)
  then have c: "map_of (co_indexes C) (is_name spec) = None" "\<not> list_ex (\<lambda>other. is_field (fx_spec other) = is_field spec) (all_indexes (co_indexes C))"
      "length (co_indexes C) < MAX_INDEXES_PER_COLLECTION"
    by (auto simp: create_index_def split: option.splits if_splits)
  have "map_of (specs_of (co_indexes C)) (is_name spec) = None"
    using c(1) unfolding map_of_eq_None_iff by (metis list.set_map names_specs_of)
  then show ?thesis using c(2,3) by (auto simp: spec_fits_def specs_of_def all_indexes_def list_ex_iff)
qed

lemma set_repr_subset: "set_repr S D \<Longrightarrow> distinct (map fst T) \<Longrightarrow> set T \<subseteq> set S \<Longrightarrow> set_repr T D"
  by (auto simp: set_repr_def fam_repr_def)

lemma specs_of_delete: "specs_of (AList.delete n S) = AList.delete n (specs_of S)"
  by (induction S) (auto simp: specs_of_def)

lemma removeIndex_spec:
  assumes "coll_inv C"
  shows "coll_inv (removeIndex n C)" "co_documents (removeIndex n C) = co_documents C"
    "specs_of (co_indexes (removeIndex n C)) = AList.delete n (specs_of (co_indexes C))"
    "co_journal (removeIndex n C) = co_journal C"
proof -
  let ?S = "AList.delete n (co_indexes C)"
  have i: "co_indexes (removeIndex n C) = ?S" by (simp add: removeIndex_def drop_index_def Let_def)
  show d: "co_documents (removeIndex n C) = co_documents C" "co_journal (removeIndex n C) = co_journal C"
    by (simp_all add: removeIndex_def Let_def)
  show "specs_of (co_indexes (removeIndex n C)) = AList.delete n (specs_of (co_indexes C))"
    unfolding i by (rule specs_of_delete)
  have sub: "set ?S \<subseteq> set (co_indexes C)" by (auto simp: AList.delete_eq)
  have "distinct (map fst ?S)" using assms unfolding keys_delete by (simp add: coll_inv_def set_repr_def fam_repr_def)
  then have "set_repr ?S (map_of (view C))" using assms sub by (auto simp: coll_inv_def intro: set_repr_subset)
  moreover have "all_unique ?S (map_of (view C))"
    using assms sub by (auto simp: coll_inv_def all_unique_def specs_of_def)
  ultimately show "coll_inv (removeIndex n C)"
    using assms unfolding coll_inv_def i d
    by (auto simp: removeIndex_def drop_index_def set_isEmpty_def Let_def split: option.splits)
qed

lemma delete_snoc: "map_of S n = None \<Longrightarrow> AList.delete n (S @ [(n, x)]) = S"
  by (induction S) (auto simp: AList.delete_eq split: if_splits)

lemma coll_inv_journal: "coll_inv (C\<lparr>co_journal := j\<rparr>) = coll_inv C"
  by (simp add: coll_inv_def split: option.split)

lemma createIndex_sound:
  assumes "coll_inv C"
  shows "sound_step {spec. normalizeIndexSpec input = Inr spec} jc C (createIndex jc input C)"
proof (cases "normalizeIndexSpec input")
  case (Inl e)
  then show ?thesis using sound_same[OF assms, of "{spec. normalizeIndexSpec input = Inr spec}"] by (simp add: createIndex_def operation_defs)
next
  case (Inr spec)
  obtain r C1 where b: "buildIndex spec C = (r, C1)" by fastforce
  note bs = buildIndex_spec[OF assms b]
  show ?thesis
  proof (cases "r = Inr True")
    case False
    then have "C1 = C" using bs by (auto split: sum.splits bool.splits)
    then have "snd (createIndex jc input C) = C"
      using Inr b False by (auto simp: createIndex_def operation_defs split: sum.splits)
    then show ?thesis using sound_same[OF assms, of "{spec. normalizeIndexSpec input = Inr spec}" jc "fst (createIndex jc input C)"] by (metis prod.collapse)
  next
    case True
    then have c1: "coll_inv C1" "co_documents C1 = co_documents C" "co_journal C1 = co_journal C"
      "map_of (co_indexes C) (is_name spec) = None" "specs_of (co_indexes C1) = specs_of (co_indexes C) @ [(is_name spec, spec)]"
      using bs by simp_all
    obtain r2 C2 where c: "commit jc [JCreateIndex spec] C1 = (r2, C2)" by fastforce
    obtain j where j: "C2 = C1\<lparr>co_journal := j\<rparr>" "r2 = Inr () \<longrightarrow> commits jc [JCreateIndex spec] (co_journal C1) j"
        "\<forall>e. r2 = Inl e \<longrightarrow> refused jc (co_journal C1) j"
      using commit_spec[OF c] by auto
    have c2: "coll_inv C2" using c1(1) j(1) by (simp add: coll_inv_journal)
    show ?thesis
    proof (cases r2)
      case (Inl e)
      then have eq: "createIndex jc input C = (Inl e, removeIndex (is_name spec) C2)"
        using Inr b True c by (simp add: createIndex_def operation_defs)
      have "map_of (specs_of (co_indexes C)) (is_name spec) = None"
        using c1(4) unfolding map_of_eq_None_iff by (metis list.set_map names_specs_of)
      then have "durable_of (removeIndex (is_name spec) C2) = durable_of C"
        using removeIndex_spec(2,3)[OF c2, of "is_name spec"] j(1) c1(2,5) by (simp add: durable_of_def delete_snoc)
      then show ?thesis using eq removeIndex_spec(1,4)[OF c2] j(1,3) Inl c1(3) by (simp add: sound_step_def)
    next
      case ok: (Inr u)
      then have eq: "createIndex jc input C = (Inr (is_name spec, True), C2)"
        using Inr b True c by (simp add: createIndex_def operation_defs)
      have "spec_fits spec (specs_of (co_indexes C))" by (rule buildIndex_fits[OF b[unfolded True]])
      then have fits: "ops_fit {spec. normalizeIndexSpec input = Inr spec} (durable_of C) [JCreateIndex spec]" using Inr by (auto simp: ops_fit_def durable_of_def)
      have "journaled {spec. normalizeIndexSpec input = Inr spec} jc C C2"
        unfolding journaled_def using j ok c1(2,3,5)
        by (intro exI[of _ "[JCreateIndex spec]"]) (use fits in \<open>simp add: durable_of_def replay_def\<close>)
      then show ?thesis using eq c2 by (simp add: sound_step_def)
    qed
  qed
qed

lemma dropIndex_sound:
  assumes "coll_inv C"
  shows "sound_step A jc C (dropIndex jc name C)"
proof (cases "name = ID_INDEX_NAME \<or> \<not> has_index (co_indexes C) name")
  case True
  then show ?thesis using sound_same[OF assms] by (auto simp: dropIndex_def operation_defs)
next
  case False
  obtain r C1 where c: "commit jc [JDropIndex name] C = (r, C1)" by fastforce
  obtain j where j: "C1 = C\<lparr>co_journal := j\<rparr>" "r = Inr () \<longrightarrow> commits jc [JDropIndex name] (co_journal C) j"
      "\<forall>e. r = Inl e \<longrightarrow> refused jc (co_journal C) j"
    using commit_spec[OF c] by auto
  have c1: "coll_inv C1" using assms j(1) by (simp add: coll_inv_journal)
  show ?thesis
  proof (cases r)
    case (Inl e)
    then have "dropIndex jc name C = (Inl e, C1)" using False c by (simp add: dropIndex_def operation_defs)
    then show ?thesis using c1 j(1,3) Inl by (simp add: sound_step_def durable_of_def)
  next
    case (Inr u)
    then have eq: "dropIndex jc name C = (Inr (), removeIndex name C1)" using False c by (simp add: dropIndex_def operation_defs)
    have "name \<in> fst ` set (co_indexes C)" using False by (auto simp: has_index_def map_of_eq_None_iff)
    then have "name \<in> fst ` set (specs_of (co_indexes C))" by (metis list.set_map names_specs_of)
    then have fits: "ops_fit A (durable_of C) [JDropIndex name]" by (simp add: ops_fit_def durable_of_def)
    have "journaled A jc C (removeIndex name C1)"
      unfolding journaled_def using j Inr removeIndex_spec(2-4)[OF c1, of name]
      by (intro exI[of _ "[JDropIndex name]"]) (use fits in \<open>simp add: durable_of_def replay_def\<close>)
    then show ?thesis using eq removeIndex_spec(1)[OF c1] by (simp add: sound_step_def)
  qed
qed

lemma build_indexes_inv:
  "coll_inv C \<Longrightarrow> coll_inv (snd (build_indexes specs C)) \<and> co_documents (snd (build_indexes specs C)) = co_documents C"
proof (induction specs arbitrary: C)
  case (Cons spec specs)
  obtain r C1 where b: "buildIndex spec C = (r, C1)" by fastforce
  have c1: "coll_inv C1" "co_documents C1 = co_documents C"
    using buildIndex_spec[OF Cons.prems b] Cons.prems by (auto split: sum.splits bool.splits)
  then show ?case using Cons.IH[OF c1(1)] b by (cases r) (simp_all add: bindS_def)
qed (simp add: returnS_def)

section \<open>Commands\<close>

datatype command =
    CmdInsertOne doc_value
  | CmdInsertMany "doc_value list"
  | CmdDeleteOne doc_value
  | CmdDeleteMany doc_value
  | CmdReplaceOne doc_value doc_value "doc_value option"
  | CmdUpdateOne doc_value doc_value "doc_value option"
  | CmdUpdateMany doc_value doc_value "doc_value option"
  | CmdCreateIndex create_index_input
  | CmdDropIndex js_string

definition ignore_result :: "(failure + 'a) \<times> 's \<Rightarrow> (failure + unit) \<times> 's" where
  "ignore_result res = (bindR (fst res) (\<lambda>_. Inr ()), snd res)"

primrec run_command :: "'j journal_commit \<Rightarrow> (nat \<Rightarrow> bytes) \<Rightarrow> command \<Rightarrow> ('j collection, unit) operation" where
  "run_command jc fresh (CmdInsertOne v) C = ignore_result (insertOne jc (fresh 0) v C)"
| "run_command jc fresh (CmdInsertMany vs) C = ignore_result (insertMany jc fresh vs C)"
| "run_command jc fresh (CmdDeleteOne f) C = ignore_result (deleteOne jc f C)"
| "run_command jc fresh (CmdDeleteMany f) C = ignore_result (deleteMany jc f C)"
| "run_command jc fresh (CmdReplaceOne f r up) C = ignore_result (replaceOne jc (fresh 0) f r up C)"
| "run_command jc fresh (CmdUpdateOne f u up) C = ignore_result (updateOne jc (fresh 0) f u up C)"
| "run_command jc fresh (CmdUpdateMany f u up) C = ignore_result (updateMany jc (fresh 0) f u up C)"
| "run_command jc fresh (CmdCreateIndex input) C = ignore_result (createIndex jc input C)"
| "run_command jc fresh (CmdDropIndex name) C = ignore_result (dropIndex jc name C)"

text \<open>
  The documents a command stores are well typed and have no byte order mark in front of a string:
  for an update, the versions it makes of the documents it matches and of an upsert's seed.
\<close>

definition update_inputs_ok :: "doc_value \<Rightarrow> doc_value \<Rightarrow> 'j collection \<Rightarrow> bool" where
  "update_inputs_ok f u C \<longleftrightarrow> (\<forall>m a. compileFilter f = Inr m \<longrightarrow> compileUpdate u = Inr a \<longrightarrow>
     (\<forall>(k, d) \<in> set (matching m C). update_ok a d) \<and>
     (\<forall>d. bindR (seedDocumentFromFilter (filter_document f)) a = Inr d \<longrightarrow> input_ok (DDocument d)))"

primrec command_ok :: "'j collection \<Rightarrow> command \<Rightarrow> bool" where
  "command_ok C (CmdInsertOne v) = input_ok v"
| "command_ok C (CmdInsertMany vs) = (\<forall>v \<in> set vs. input_ok v)"
| "command_ok C (CmdDeleteOne f) = True"
| "command_ok C (CmdDeleteMany f) = True"
| "command_ok C (CmdReplaceOne f r up) = (input_ok r \<and> wf_value f)"
| "command_ok C (CmdUpdateOne f u up) = update_inputs_ok f u C"
| "command_ok C (CmdUpdateMany f u up) = update_inputs_ok f u C"
| "command_ok C (CmdCreateIndex input) = True"
| "command_ok C (CmdDropIndex name) = True"

text \<open>The index definitions a command may make.\<close>

definition specs_made :: "command \<Rightarrow> index_spec set" where
  "specs_made cmd = (case cmd of CmdCreateIndex input \<Rightarrow> {spec. normalizeIndexSpec input = Inr spec} | _ \<Rightarrow> {})"

lemma sound_ignore: "sound_step A jc C res \<Longrightarrow> sound_step A jc C (ignore_result res)"
  by (cases "fst res") (auto simp: sound_step_def ignore_result_def)

lemma filter_error:
  assumes "coll_inv C" "compileFilter f = Inl e"
  shows "sound_step A jc C (deleteOne jc f C)" "sound_step A jc C (deleteMany jc f C)"
    "sound_step A jc C (replaceOne jc x f r up C)" "sound_step A jc C (updateOne jc x f u up C)"
    "sound_step A jc C (updateMany jc x f u up C)"
  using sound_same[OF assms(1)] assms(2)
  by (simp_all add: deleteOne_def deleteMany_def replaceOne_def updateOne_def updateMany_def operation_defs)

lemma first_stored_None: "first_stored m C = None \<longleftrightarrow> matching m C = []"
  unfolding first_stored_def matching_def view_of_def by (auto simp: find_None_iff filter_empty_conv)

lemma matching_among_keys: "set (map fst (matching m C)) \<subseteq> fst ` set (co_documents C)"
  by (force simp: matching_def view_of_def)

lemma delete_sound:
  assumes "coll_inv C"
  shows "sound_step A jc C (deleteOne jc f C)" "sound_step A jc C (deleteMany jc f C)"
proof -
  have "sound_step A jc C (deleteOne jc f C) \<and> sound_step A jc C (deleteMany jc f C)"
  proof (cases "compileFilter f")
    case (Inl e)
    then show ?thesis using filter_error[OF assms] by blast
  next
    case (Inr m)
    have "sound_step A jc C (deleteOne jc f C)"
    proof (cases "first_stored m C")
      case None
      then show ?thesis using deleteOne_outcome[OF assms Inr, of jc] sound_same[OF assms] by simp
    next
      case (Some p)
      then have "outcome jc (map JDelete [fst p]) (remove_docs [fst p] (co_documents C)) C (deleteOne jc f C)"
        using deleteOne_outcome[OF assms Inr, of jc] by (cases p) (simp add: remove_docs_def)
      moreover have "fst p \<in> fst ` set (co_documents C)" using first_stored_mem[of m C "fst p" "snd p"] Some by force
      ultimately show ?thesis using outcome_deletes[OF _ assms, of jc "[fst p]"] by simp
    qed
    moreover have "filter (\<lambda>(k, bs). \<not> m (decoded bs)) (co_documents C) = remove_docs (map fst (matching m C)) (co_documents C)"
      by (rule matching_removed[OF assms, symmetric])
    then have "sound_step A jc C (deleteMany jc f C)"
      using deleteMany_outcome[OF assms Inr, of jc] outcome_deletes[OF _ assms] matching_among_keys by metis
    ultimately show ?thesis by blast
  qed
  then show "sound_step A jc C (deleteOne jc f C)" "sound_step A jc C (deleteMany jc f C)" by blast+
qed

lemma update_sound:
  assumes "coll_inv C" "update_inputs_ok f u C" "length x = 16"
  shows "sound_step A jc C (updateOne jc x f u up C)" "sound_step A jc C (updateMany jc x f u up C)"
proof -
  have "sound_step A jc C (updateOne jc x f u up C) \<and> sound_step A jc C (updateMany jc x f u up C)"
  proof (cases "compileFilter f")
    case (Inl e)
    then show ?thesis by (simp add: filter_error(4,5)[OF assms(1)])
  next
    case m: (Inr m)
    show ?thesis
    proof (cases "bindR (compileUpdate u) (\<lambda>a. bindR (validateUpsert up) (\<lambda>b. Inr (a, b)))")
      case (Inl e)
      then show ?thesis using sound_same[OF assms(1)] m
        by (auto simp: updateOne_def updateMany_def operation_defs bindR_eq_Inl)
    next
      case (Inr ab)
      then obtain a b where a: "compileUpdate u = Inr a" "validateUpsert up = Inr b" by auto
      have ok: "\<forall>(k, d) \<in> set (matching m C). update_ok a d"
        "\<And>d. bindR (seedDocumentFromFilter (filter_document f)) a = Inr d \<Longrightarrow> input_ok (DDocument d)"
        using assms(2) m a(1) by (auto simp: update_inputs_ok_def)
      show ?thesis
      proof (cases "matching m C = []")
        case True
        have "updateOne jc x f u up C = upsertFromUpdate jc x (filter_document f) a b C \<and>
            updateMany jc x f u up C = upsertFromUpdate jc x (filter_document f) a b C"
          using update_no_match[OF assms(1) m a True] by blast
        then show ?thesis using upsert_outcome[OF assms(1,3) ok(2)] outcome_puts by metis
      next
        case False
        then obtain k bs where first: "first_stored m C = Some (k, bs)" using first_stored_None[of m C] by fastforce
        have mem: "(k, bs) \<in> set (co_documents C)" "m (decoded bs)" using first_stored_mem[OF first] by blast+
        then have "(k, decoded bs) \<in> set (matching m C)" by (force simp: matching_def view_of_def)
        then have "update_ok a (decoded bs)" using ok(1) by blast
        note one = updateOne_outcome[OF assms(1) m a(1) first this, of jc x up]
        have get: "map_of (co_documents C) k = Some bs" using mem(1) assms(1) by (simp add: coll_inv_def docs_inv_def)
        have "sound_step A jc C (updateOne jc x f u up C)"
        proof (cases "new_version a bs = bs")
          case True
          then have "outcome jc (map (\<lambda>(k, bs). JPut k bs) []) (put_docs [] (co_documents C)) C (updateOne jc x f u up C)"
            using one get by (simp add: alist_update_same put_docs_def)
          then show ?thesis by (rule outcome_puts)
        next
          case False
          then have "outcome jc (map (\<lambda>(k, bs). JPut k bs) [(k, new_version a bs)]) (put_docs [(k, new_version a bs)] (co_documents C)) C
              (updateOne jc x f u up C)"
            using one by (simp add: put_docs_def)
          then show ?thesis by (rule outcome_puts)
        qed
        moreover have "sound_step A jc C (updateMany jc x f u up C)"
        proof (rule outcome_puts)
          let ?ps = "map (\<lambda>(k, bs). (k, new_version a bs)) (filter (\<lambda>(k, bs). m (decoded bs) \<and> new_version a bs \<noteq> bs) (co_documents C))"
          have "distinct (map fst (co_documents C))" using assms(1) by (simp add: coll_inv_def docs_inv_def)
          note put = put_docs_updated[OF this, of a m]
          have ops: "map (\<lambda>(k, bs). JPut k bs) ?ps = map (\<lambda>(k, bs). JPut k (new_version a bs))
              (filter (\<lambda>(k, bs). m (decoded bs) \<and> new_version a bs \<noteq> bs) (co_documents C))"
            by (simp add: comp_def split_def)
          show "outcome jc (map (\<lambda>(k, bs). JPut k bs) ?ps) (put_docs ?ps (co_documents C)) C (updateMany jc x f u up C)"
            using updateMany_outcome[OF assms(1) m a(1) ok(1) False, of jc x up] unfolding put ops .
        qed
        ultimately show ?thesis by blast
      qed
    qed
  qed
  then show "sound_step A jc C (updateOne jc x f u up C)" "sound_step A jc C (updateMany jc x f u up C)" by blast+
qed

lemma run_command_sound:
  assumes inv: "coll_inv C" and ok: "command_ok C cmd" "\<forall>n. length (fresh n) = 16"
  shows "sound_step (specs_made cmd) jc C (run_command jc fresh cmd C)"
proof (cases cmd)
  case (CmdInsertOne v)
  with ok obtain ps where
    "outcome jc (map (\<lambda>(k, bs). JPut k bs) ps) (put_docs ps (co_documents C)) C (insertOne jc (fresh 0) v C)"
    using insertOne_puts[OF inv, of v "fresh 0" jc] by auto
  then show ?thesis by (simp add: CmdInsertOne sound_ignore outcome_puts)
next
  case (CmdInsertMany vs)
  then show ?thesis using ok by (simp add: sound_ignore insertMany_sound[OF inv])
next
  case (CmdReplaceOne f r up)
  show ?thesis
  proof (cases "compileFilter f")
    case (Inl e)
    then show ?thesis by (simp add: CmdReplaceOne sound_ignore filter_error(3)[OF inv])
  next
    case (Inr m)
    with ok CmdReplaceOne obtain ps where
      "outcome jc (map (\<lambda>(k, bs). JPut k bs) ps) (put_docs ps (co_documents C)) C (replaceOne jc (fresh 0) f r up C)"
      using replaceOne_outcome[OF inv Inr, of r "fresh 0" jc up] by auto
    then show ?thesis by (simp add: CmdReplaceOne sound_ignore outcome_puts)
  qed
next
  case (CmdUpdateOne f u up)
  then show ?thesis using ok by (simp add: sound_ignore update_sound(1)[OF inv])
next
  case (CmdUpdateMany f u up)
  then show ?thesis using ok by (simp add: sound_ignore update_sound(2)[OF inv])
qed (simp_all add: sound_ignore delete_sound[OF inv] createIndex_sound[OF inv] dropIndex_sound[OF inv] specs_made_def)

text \<open>Everything a collection can become.\<close>

inductive reachable :: "'j journal_commit \<Rightarrow> 'j collection \<Rightarrow> 'j collection \<Rightarrow> bool" for jc C0 where
  reachable_start: "reachable jc C0 C0"
| reachable_step: "reachable jc C0 C \<Longrightarrow> command_ok C cmd \<Longrightarrow> \<forall>n. length (fresh n) = 16 \<Longrightarrow>
    reachable jc C0 (snd (run_command jc fresh cmd C))"

lemma reachable_inv: "reachable jc C0 C \<Longrightarrow> coll_inv C0 \<Longrightarrow> coll_inv C"
proof (induction rule: reachable.induct)
  case (reachable_step C cmd fresh)
  then show ?case using run_command_sound[of C cmd fresh jc] by (simp add: sound_step_def)
qed

lemma new_collection_inv:
  assumes "docs_inv docs" "new_collection journal docs specs = Inr C"
  shows "coll_inv C \<and> co_documents C = docs"
proof -
  have "coll_inv (empty_collection journal docs)"
    using assms(1) by (simp add: coll_inv_def empty_collection_def set_repr_def fam_repr_def all_unique_def specs_of_def)
  from build_indexes_inv[OF this, of specs] assms(2) show ?thesis
    by (auto simp: new_collection_def empty_collection_def split: prod.splits sum.splits)
qed

lemma validateIndexes_inv:
  assumes "coll_inv C"
  shows "validateIndexes C = Inr []"
proof -
  have inv: "docs_inv (co_documents C)" "set_repr (co_indexes C) (map_of (view C))" "all_unique (co_indexes C) (map_of (view C))"
    using assms by (simp_all add: coll_inv_def)
  then show ?thesis
    using decodedEntries_ok[OF inv(1)] validate_indexes_spec[OF inv(2) docs_inv_view(1)[OF inv(1)]]
    by (simp add: validateIndexes_def)
qed

section \<open>Properties\<close>

text \<open>C2: the invariant of a collection. Start from recovered documents and any index definitions, run
  any commands, let the journal fail whenever it likes: afterwards every stored document decodes
  and is filed under its id, every index represents exactly the documents, and the consistency
  check finds nothing.\<close>

theorem collection_invariant:
  assumes "docs_inv docs" and "new_collection journal docs specs = Inr C0" and "reachable jc C0 C"
  shows "coll_inv C \<and> validateIndexes C = Inr []"
  using new_collection_inv[OF assms(1,2)] reachable_inv[OF assms(3)] validateIndexes_inv by blast

definition accept_all :: "unit journal_commit" where
  "accept_all ops j = (Inr (), j)"

theorem collection_invariant_witness:
  "\<exists>C0 :: unit collection. new_collection None [] [] = Inr C0 \<and>
     coll_inv (snd (run_command accept_all (\<lambda>_. sample_id) (CmdInsertOne (DDocument [])) C0))"
proof -
  have ok: "docs_inv []" "input_ok (DDocument [])" "length sample_id = 16"
    by (simp_all add: docs_inv_def input_ok_def sample_id_def)
  let ?C0 = "empty_collection None [] :: unit collection"
  have new: "new_collection None [] [] = Inr ?C0" by (simp add: new_collection_def returnS_def)
  have "reachable accept_all ?C0 (snd (run_command accept_all (\<lambda>_. sample_id) (CmdInsertOne (DDocument [])) ?C0))"
    using ok by (intro reachable_step reachable_start) simp_all
  from collection_invariant[OF ok(1) new this] new show ?thesis by blast
qed

text \<open>C3: every command is atomic and journaled. When it returns, its new documents and index
  definitions are the old ones with exactly the operations that were committed; when it throws,
  they are the old ones and nothing was committed, unless it was a batch of inserts stopped by a bad document, which keeps
  (and has committed) the documents before it. A journal that refuses a commit changes nothing.\<close>

theorem commands_atomic_and_journaled:
  assumes "coll_inv C" and "command_ok C cmd" and "\<forall>n. length (fresh n) = 16"
    and "run_command jc fresh cmd C = (r, C')"
  shows "case r of
      Inr _ \<Rightarrow> \<exists>ops. commits jc ops (co_journal C) (co_journal C') \<and> durable_of C' = replay ops (durable_of C)
    | Inl e \<Rightarrow> durable_of C' = durable_of C \<and> refused jc (co_journal C) (co_journal C') \<or>
        (\<exists>code index ids. e = StorageInsertManyError code index ids) \<and>
        (\<exists>ops. commits jc ops (co_journal C) (co_journal C') \<and> durable_of C' = replay ops (durable_of C))"
  using run_command_sound[OF assms(1-3), of jc] assms(4) by (auto simp: sound_step_def journaled_def split: sum.splits)

definition refuse_all :: "unit journal_commit" where
  "refuse_all ops j = (Inl (StorageError Io), j)"

theorem commands_atomic_and_journaled_witness:
  "\<exists>r C'. run_command refuse_all (\<lambda>_. sample_id) (CmdInsertOne (DDocument [])) (empty_collection (Some ()) []) = (r, C') \<and>
     (case r of
      Inr _ \<Rightarrow> \<exists>ops. commits refuse_all ops (co_journal (empty_collection (Some ()) [])) (co_journal C') \<and>
        durable_of C' = replay ops (durable_of (empty_collection (Some ()) []))
    | Inl e \<Rightarrow> durable_of C' = durable_of (empty_collection (Some ()) []) \<and>
        refused refuse_all (co_journal (empty_collection (Some ()) [])) (co_journal C') \<or>
        (\<exists>code index ids. e = StorageInsertManyError code index ids) \<and>
        (\<exists>ops. commits refuse_all ops (co_journal (empty_collection (Some ()) [])) (co_journal C') \<and>
          durable_of C' = replay ops (durable_of (empty_collection (Some ()) []))))"
proof -
  let ?C = "empty_collection (Some ()) []"
  have inv: "coll_inv ?C"
    by (simp add: coll_inv_def docs_inv_def empty_collection_def set_repr_def fam_repr_def all_unique_def specs_of_def)
  obtain r C' where r: "run_command refuse_all (\<lambda>_. sample_id) (CmdInsertOne (DDocument [])) ?C = (r, C')" by fastforce
  have "command_ok ?C (CmdInsertOne (DDocument []))" "\<forall>n. length ((\<lambda>_ :: nat. sample_id) n) = 16"
    by (simp_all add: input_ok_def sample_id_def)
  from commands_atomic_and_journaled[OF inv this r] r show ?thesis by blast
qed

text \<open>C16: a document that was inserted can be read back by its id: it is the document given, in
  canonical form, with its \<open>_id\<close>, and it comes last in the collection.\<close>

theorem insert_then_find:
  assumes "coll_inv C" and "input_ok (DDocument d)" and "length fresh = 16"
    and "insertOne jc fresh (DDocument d) C = (Inr docId, C')"
  shows "findById docId C' = Inr (Some (canon_doc (obj_set (js ''_id'') (DCustomId docId) d))) \<and>
    view C' = view C @ [(toHexString docId, canon_doc (obj_set (js ''_id'') (DCustomId docId) d))]"
proof (cases "prepareInsert fresh (DDocument d) [] C")
  case (Inl e)
  then show ?thesis using insertOne_outcome[OF assms(1-3), of jc] assms(4) by simp
next
  case (Inr p)
  note p = prepareInsert_spec[OF Inr assms(2,3)]
  have o: "co_documents C' = co_documents C @ [(pi_key p, pi_encoded p)]" "docId = pi_id p" "coll_inv C'"
    using insertOne_outcome[OF assms(1-3), of jc] Inr assms(4) by (simp_all add: outcome_def)
  have "map_of (co_documents C') (toHexString docId) = Some (pi_encoded p)"
    using p(2,4) o(1,2) by (auto simp: map_add_def map_of_eq_None_iff split: option.splits dest: map_of_SomeD)
      (metis fst_conv image_eqI map_of_SomeD)
  moreover have "decode_stored (pi_encoded p) = Inr (decoded (pi_encoded p))" by (rule stored_ok_decoded(1)[OF p(1)])
  moreover have "decoded (pi_encoded p) = canon_doc (obj_set (js ''_id'') (DCustomId docId) d)" using p(5) o(2) by simp
  ultimately show ?thesis using o p(4) by (simp add: findById_def view_of_def)
qed

theorem insert_then_find_witness:
  "\<exists>C'. insertOne accept_all sample_id (DDocument []) (empty_collection None []) = (Inr sample_id, C') \<and>
     findById sample_id C' = Inr (Some (canon_doc (obj_set (js ''_id'') (DCustomId sample_id) [])))"
proof -
  let ?C = "empty_collection None [] :: unit collection"
  have inv: "coll_inv ?C"
    by (simp add: coll_inv_def docs_inv_def empty_collection_def set_repr_def fam_repr_def all_unique_def specs_of_def)
  have ok: "input_ok (DDocument [])" "length sample_id = 16" by (simp_all add: input_ok_def sample_id_def)
  have "obj_set (js ''_id'') (DCustomId sample_id) [] = sample_doc"
    by (simp add: obj_set_def array_index_def digit_of_def js_def of_char_def sample_doc_def)
  then have "encodeDocument (obj_set (js ''_id'') (DCustomId sample_id) []) = Inr (enc_bytes (DDocument sample_doc))"
    using storable_encode[OF sample_doc_storable] by (simp add: encodeDocument_def del: enc_bytes.simps)
  then obtain C' where c: "insertOne accept_all sample_id (DDocument []) ?C = (Inr sample_id, C')"
    by (simp add: insertOne_def prepareInsert_def resolveDocumentId_def has_document_def encodeStoredDocument_def trackInsert_def
        set_isEmpty_def commit_changes_def commit_or_rollback_def commit_def operation_defs empty_collection_def Let_def)
  show ?thesis using c insert_then_find[OF inv ok c] by blast
qed

text \<open>C18: \<open>deleteMany\<close> deletes the matching documents, no others, keeps the order of the rest and counts
  what it deleted, whatever indexes it used to find them.\<close>

theorem delete_many_exact:
  assumes "coll_inv C" and "compileFilter f = Inr matches" and "deleteMany jc f C = (Inr n, C')"
  shows "view C' = filter (\<lambda>(k, d). \<not> matches d) (view C) \<and> n = length (filter (\<lambda>(k, d). matches d) (view C)) \<and> coll_inv C'"
proof -
  have o: "co_documents C' = filter (\<lambda>(k, bs). \<not> matches (decoded bs)) (co_documents C)" "coll_inv C'" "n = length (matching matches C)"
    using deleteMany_outcome[OF assms(1,2), of jc] assms(3) by (simp_all add: outcome_def)
  have "view C' = filter (\<lambda>(k, d). \<not> matches d) (view C)"
    unfolding o(1) view_of_def by (simp add: filter_map comp_def split_def)
  then show ?thesis using o by (simp add: matching_def)
qed

theorem delete_many_exact_witness:
  "\<exists>m n C'. compileFilter (DDocument sample_doc) = Inr m \<and>
     deleteMany accept_all (DDocument sample_doc) sample_collection = (Inr n, C') \<and>
     view C' = filter (\<lambda>(k, d). \<not> m d) (view sample_collection)"
proof -
  obtain m where m: "compileFilter (DDocument sample_doc) = Inr m" using sample_doc_filter by blast
  have f: "compileFilter (DDocument (filter_document (DDocument sample_doc))) = Inr m" using m by (simp add: filter_document_def)
  have "\<exists>n C'. deleteMany accept_all (DDocument sample_doc) sample_collection = (Inr n, C')"
    using m matching_entries_ok[OF candidates_decode[OF sample_collection_inv f], of m]
    by (simp add: deleteMany_def trackChanges_empty commit_changes_def commit_or_rollback_def commit_def operation_defs
        sample_collection_def empty_collection_def set_isEmpty_def)
  then obtain n C' where d: "deleteMany accept_all (DDocument sample_doc) sample_collection = (Inr n, C')" by blast
  show ?thesis using m d delete_many_exact[OF sample_collection_inv m d] by blast
qed

text \<open>C17: \<open>updateMany\<close> replaces every matching document by the encoding of its update, leaves the others
  and the order of all of them alone, and journals the documents that changed.\<close>

theorem update_many_exact:
  assumes "coll_inv C" and "compileFilter f = Inr matches" and "compileUpdate u = Inr run"
    and "\<forall>(k, d) \<in> set (filter (\<lambda>(k, d). matches d) (view C)). update_ok run d"
    and "filter (\<lambda>(k, d). matches d) (view C) \<noteq> []" and "updateMany jc fresh f u up C = (Inr res, C')"
  shows "co_documents C' = map (\<lambda>(k, bs). (k, if matches (decoded bs) then new_version run bs else bs)) (co_documents C) \<and>
    commits jc (map (\<lambda>(k, bs). JPut k (new_version run bs))
      (filter (\<lambda>(k, bs). matches (decoded bs) \<and> new_version run bs \<noteq> bs) (co_documents C))) (co_journal C) (co_journal C') \<and>
    coll_inv C'"
  using updateMany_outcome[OF assms(1-3), of jc fresh up] assms(4-6)
  by (simp add: outcome_def updated_docs_def matching_def)

lemma sample_update_run:
  "compileUpdate sample_update =
     Inr (apply_instructions [\<lparr>ins_operator = OpSet, ins_segments = [js ''a''], ins_operand = DBool True\<rparr>])"
  "apply_instructions [\<lparr>ins_operator = OpSet, ins_segments = [js ''a''], ins_operand = DBool True\<rparr>] sample_doc =
     Inr [(js ''_id'', DCustomId sample_id), (js ''a'', DBool True)]"
  by (simp_all add: compileUpdate_def sample_update_ok applyInstruction_def operator_action_def act_set_def sample_doc_def
      obj_set_def array_index_def digit_of_def js_def of_char_def)

lemma sample_updated_ok:
  "storable (DDocument [(js ''_id'', DCustomId sample_id), (js ''a'', DBool True)])"
  "input_ok (DDocument [(js ''_id'', DCustomId sample_id), (js ''a'', DBool True)])"
  by (simp_all add: storable_def input_ok_def bom_free_string_def sample_id_def js_def of_char_def text_encode_def utf8_bytes_def is_high_def
      is_low_def MAX_DOCUMENT_DEPTH_def MAX_PAYLOAD_SIZE_def enc_field_def)

theorem update_many_exact_witness:
  "\<exists>run res C'. compileUpdate sample_update = Inr run \<and>
     updateMany accept_all sample_id (DDocument sample_doc) sample_update None sample_collection = (Inr res, C') \<and>
     co_documents C' = [(toHexString sample_id, new_version run (enc_bytes (DDocument sample_doc)))]"
proof -
  let ?run = "apply_instructions [\<lparr>ins_operator = OpSet, ins_segments = [js ''a''], ins_operand = DBool True\<rparr>]"
  let ?new = "[(js ''_id'', DCustomId sample_id), (js ''a'', DBool True)]"
  obtain m where m: "compileFilter (DDocument sample_doc) = Inr m" "m sample_doc" using sample_doc_filter by blast
  have d: "decode_stored (enc_bytes (DDocument sample_doc)) = Inr sample_doc" "decoded (enc_bytes (DDocument sample_doc)) = sample_doc"
    by (simp_all add: decode_stored_def decoded_def sample_stored del: enc_bytes.simps)
  have v: "view sample_collection = [(toHexString sample_id, sample_doc)]"
    using d by (simp add: view_of_def sample_collection_def empty_collection_def del: enc_bytes.simps)
  have ok: "\<forall>(k, d) \<in> set (filter (\<lambda>(k, d). m d) (view sample_collection)). update_ok ?run d"
    unfolding v update_ok_def using sample_updated_ok by (simp add: sample_update_run(2) del: apply_instructions.simps)
  have ne: "filter (\<lambda>(k, d). m d) (view sample_collection) \<noteq> []" unfolding v using m(2) by simp
  have "encodeDocument ?new = Inr (enc_bytes (DDocument ?new))"
    using storable_encode[OF sample_updated_ok(1)] by (simp add: encodeDocument_def del: enc_bytes.simps)
  then obtain q where "prepareUpdate \<lparr>ld_key = toHexString sample_id, ld_encoded = enc_bytes (DDocument sample_doc),
      ld_document = sample_doc\<rparr> ?run = Inr q"
    using sample_update_run(2)
    by (simp add: prepareUpdate_def encodeStoredDocument_def del: enc_bytes.simps apply_instructions.simps)
  then obtain p where "update_loop m ?run False [(toHexString sample_id, enc_bytes (DDocument sample_doc))] = Inr (1, p, [])"
    using d(1) m(2) by (cases q) (simp_all del: enc_bytes.simps apply_instructions.simps)
  then have "\<exists>res C'. updateMany accept_all sample_id (DDocument sample_doc) sample_update None sample_collection = (Inr res, C')"
    using m(1) sample_update_run(1)
    by (simp add: updateMany_def candidates_def validateUpsert_def trackChanges_empty commit_changes_def commit_or_rollback_def
        commit_def operation_defs sample_collection_def empty_collection_def set_isEmpty_def
        del: enc_bytes.simps apply_instructions.simps update_loop.simps)
  then obtain res C' where u: "updateMany accept_all sample_id (DDocument sample_doc) sample_update None sample_collection = (Inr res, C')"
    by blast
  show ?thesis
    using update_many_exact[OF sample_collection_inv m(1) sample_update_run(1) ok ne u] u sample_update_run(1) m(2) d(2)
    by (simp add: sample_collection_def empty_collection_def del: enc_bytes.simps apply_instructions.simps)
qed


end
