(* ===== verification/Collection_Journal.thy ===== *)
theory Collection_Journal
  imports Collection_Inv
begin

text \<open>
  How a command uses its journal: it commits at most once, what it commits depends on the
  collection alone, and what the journal answers decides between two outcomes that the collection
  alone determines too. So what a command does with one journal tells what it does with another.
\<close>

abbreviation journal_set :: "'j option \<Rightarrow> 'j collection \<Rightarrow> 'j collection" where
  "journal_set j C \<equiv> C\<lparr>co_journal := j\<rparr>"

definition silent :: "('j collection, 'a) operation \<Rightarrow> bool" where
  "silent m \<longleftrightarrow> (\<forall>C. \<exists>r C1. \<forall>j. m (journal_set j C) = (r, journal_set j C1))"

definition commits_once :: "('j journal_commit \<Rightarrow> ('j collection, 'a) operation) \<Rightarrow> bool" where
  "commits_once m \<longleftrightarrow> (\<forall>C. (\<exists>r C1. \<forall>jc j. m jc (journal_set j C) = (r, journal_set j C1)) \<or>
     (\<exists>ops C1 r C2. ops \<noteq> [] \<and> (\<forall>jc j. m jc (journal_set (Some j) C) =
        (case jc ops j of (Inl e, j') \<Rightarrow> (Inl e, journal_set (Some j') C1) | (Inr _, j') \<Rightarrow> (r, journal_set (Some j') C2)))))"

named_theorems silent_intros

lemma silent_return [silent_intros]: "silent (returnS x)"
  unfolding silent_def returnS_def by auto

lemma silent_throw [silent_intros]: "silent (throwS e)"
  unfolding silent_def throwS_def by auto

lemma silent_from [silent_intros]: "silent (fromR r)"
  unfolding silent_def fromR_def by auto

lemma silent_gets: "(\<And>C j. f (journal_set j C) = f C) \<Longrightarrow> silent (getsS f)"
  unfolding silent_def getsS_def by auto

lemma silent_modify: "(\<And>C j. f (journal_set j C) = journal_set j (f C)) \<Longrightarrow> silent (modifyS f)"
  unfolding silent_def modifyS_def by auto

lemma silent_bind [silent_intros]:
  assumes "silent m" "\<And>x. silent (f x)"
  shows "silent (bindS m f)"
  unfolding silent_def
proof
  fix C
  obtain r C1 where m: "\<forall>j. m (journal_set j C) = (r, journal_set j C1)" using assms(1) unfolding silent_def by blast
  show "\<exists>r C1. \<forall>j. bindS m f (journal_set j C) = (r, journal_set j C1)"
  proof (cases r)
    case (Inl e)
    then show ?thesis using m by (auto simp: bindS_def)
  next
    case (Inr x)
    then show ?thesis using m assms(2)[of x] unfolding silent_def bindS_def by auto
  qed
qed

lemma silent_if [silent_intros]: "silent m \<Longrightarrow> silent m' \<Longrightarrow> silent (if b then m else m')"
  by simp

lemma once_silent: "silent m \<Longrightarrow> commits_once (\<lambda>jc. m)"
  unfolding silent_def commits_once_def by blast

lemma once_bind_silent:
  assumes "silent m" "\<And>x. commits_once (\<lambda>jc. f jc x)"
  shows "commits_once (\<lambda>jc. bindS m (f jc))"
  unfolding commits_once_def
proof
  fix C
  obtain r C1 where m: "\<forall>j. m (journal_set j C) = (r, journal_set j C1)" using assms(1) unfolding silent_def by blast
  show "(\<exists>r C1. \<forall>jc j. bindS m (f jc) (journal_set j C) = (r, journal_set j C1)) \<or>
     (\<exists>ops C1 r C2. ops \<noteq> [] \<and> (\<forall>jc j. bindS m (f jc) (journal_set (Some j) C) =
        (case jc ops j of (Inl e, j') \<Rightarrow> (Inl e, journal_set (Some j') C1) | (Inr _, j') \<Rightarrow> (r, journal_set (Some j') C2))))"
  proof (cases r)
    case (Inl e)
    then show ?thesis using m by (auto simp: bindS_def)
  next
    case (Inr x)
    then show ?thesis using m assms(2)[of x] unfolding commits_once_def bindS_def by auto
  qed
qed

lemma once_bind:
  assumes "commits_once m" "\<And>x. silent (f x)"
  shows "commits_once (\<lambda>jc. bindS (m jc) f)"
  unfolding commits_once_def
proof
  fix C
  let ?goal = "(\<exists>r C1. \<forall>jc j. bindS (m jc) f (journal_set j C) = (r, journal_set j C1)) \<or>
     (\<exists>ops C1 r C2. ops \<noteq> [] \<and> (\<forall>jc j. bindS (m jc) f (journal_set (Some j) C) =
        (case jc ops j of (Inl e, j') \<Rightarrow> (Inl e, journal_set (Some j') C1) | (Inr _, j') \<Rightarrow> (r, journal_set (Some j') C2))))"
  consider (none) r C1 where "\<forall>jc j. m jc (journal_set j C) = (r, journal_set j C1)"
    | (one) ops C1 r C2 where "ops \<noteq> []" "\<forall>jc j. m jc (journal_set (Some j) C) =
        (case jc ops j of (Inl e, j') \<Rightarrow> (Inl e, journal_set (Some j') C1) | (Inr _, j') \<Rightarrow> (r, journal_set (Some j') C2))"
    using assms(1) unfolding commits_once_def by blast
  then show ?goal
  proof cases
    case none
    then show ?thesis
    proof (cases r)
      case (Inl e)
      then show ?thesis using none by (auto simp: bindS_def)
    next
      case (Inr x)
      obtain r2 C2 where "\<forall>j. f x (journal_set j C1) = (r2, journal_set j C2)" using assms(2)[of x] unfolding silent_def by blast
      then show ?thesis using none Inr by (auto simp: bindS_def)
    qed
  next
    case one
    show ?thesis
    proof (cases r)
      case (Inl e)
      then show ?thesis using one by (intro disjI2 exI[of _ ops] exI[of _ C1] exI[of _ r] exI[of _ C2])
          (auto simp: bindS_def split: prod.splits sum.splits)
    next
      case (Inr x)
      obtain r2 C3 where "\<forall>j. f x (journal_set j C2) = (r2, journal_set j C3)" using assms(2)[of x] unfolding silent_def by blast
      then show ?thesis using one Inr by (intro disjI2 exI[of _ ops] exI[of _ C1] exI[of _ r2] exI[of _ C3])
          (auto simp: bindS_def split: prod.splits sum.splits)
    qed
  qed
qed

lemma once_if: "(b \<Longrightarrow> commits_once m) \<Longrightarrow> (\<not> b \<Longrightarrow> commits_once m') \<Longrightarrow> commits_once (\<lambda>jc. if b then m jc else m' jc)"
  by (cases b) simp_all

lemma once_commit:
  assumes "\<And>C j. g (journal_set j C) = journal_set j (g C)" "xs \<noteq> []"
  shows "commits_once (\<lambda>jc. catchS (commit jc xs) (\<lambda>e. bindS (modifyS g) (\<lambda>_. throwS e)))"
  unfolding commits_once_def
proof (intro allI disjI2)
  fix C
  show "\<exists>ops C1 r C2. ops \<noteq> [] \<and> (\<forall>jc j. catchS (commit jc xs) (\<lambda>e. bindS (modifyS g) (\<lambda>_. throwS e)) (journal_set (Some j) C) =
        (case jc ops j of (Inl e, j') \<Rightarrow> (Inl e, journal_set (Some j') C1) | (Inr _, j') \<Rightarrow> (r, journal_set (Some j') C2)))"
    using assms by (intro exI[of _ xs] exI[of _ "g C"] exI[of _ "Inr ()"] exI[of _ C])
      (auto simp: catchS_def commit_def bindS_def modifyS_def throwS_def split: prod.splits sum.splits)
qed

lemma once_plain_commit: "ops \<noteq> [] \<Longrightarrow> commits_once (\<lambda>jc. commit jc ops)"
  unfolding commits_once_def
  by (intro allI disjI2, rule exI[of _ ops]) (fastforce simp: commit_def split: prod.splits sum.splits)

section \<open>The operations of a collection\<close>

lemma silent_trackChanges [silent_intros]: "silent (trackChanges changes)"
  unfolding silent_def
proof
  fix C :: "'a collection"
  obtain r S where "applyChanges changes (co_indexes C) = (r, S)" by fastforce
  then show "\<exists>r C1. \<forall>j. trackChanges changes (journal_set j C) = (r, journal_set j C1)"
    by (intro exI[of _ r] exI[of _ "C\<lparr>co_indexes := S\<rparr>"]) (simp add: trackChanges_def)
qed

lemma silent_trackInsert [silent_intros]: "silent (trackInsert p :: ('j collection, undo_step list) operation)"
proof -
  have "(trackInsert p :: ('j collection, undo_step list) operation) = bindS (getsS (\<lambda>C. if set_isEmpty (co_indexes C) then Inr None else bindR (decode_stored (pi_encoded p)) (\<lambda>d. Inr (Some d))))
      (\<lambda>x. case x of None \<Rightarrow> returnS [] | Some d \<Rightarrow> trackChanges [\<lparr>dc_key = pi_key p, dc_before = None, dc_after = Some d\<rparr>])"
    by (rule ext) (auto simp: trackInsert_def operation_defs split: sum.splits)
  moreover have "silent ((case x of None \<Rightarrow> returnS [] | Some d \<Rightarrow> trackChanges [\<lparr>dc_key = pi_key p, dc_before = None, dc_after = Some d\<rparr>]) :: ('j collection, undo_step list) operation)"
    for x :: "document option"
    by (cases x) (simp_all add: silent_return silent_trackChanges)
  ultimately show ?thesis by (simp only:) (intro silent_bind silent_gets; simp)
qed

lemma silent_prepareInsert [silent_intros]: "silent (getsS (prepareInsert fresh v pending))"
  by (rule silent_gets) (simp add: prepareInsert_def has_document_def cong: doc_value.case_cong)

lemma put_document_journal: "put_document k bs (journal_set j C) = journal_set j (put_document k bs C)"
  by (simp add: put_document_def has_document_def Let_def split: option.splits)

lemma put_all_journal: "put_all ps (journal_set j C) = journal_set j (put_all ps C)"
  by (induction ps arbitrary: C) (auto simp: put_all_def put_document_journal)

lemma remove_document_journal: "remove_document k (journal_set j C) = journal_set j (remove_document k C)"
  by (simp add: remove_document_def)

lemma remove_all_journal: "remove_all ks (journal_set j C) = journal_set j (remove_all ks C)"
  by (induction ks arbitrary: C) (auto simp: remove_all_def remove_document_journal)

lemma removeIndex_journal: "removeIndex n (journal_set j C) = journal_set j (removeIndex n C)"
  by (simp add: removeIndex_def Let_def)

lemma once_commit_changes:
  assumes "\<And>C j. f (journal_set j C) = journal_set j (f C)"
  shows "commits_once (\<lambda>jc. commit_changes jc undo ops f)"
proof (cases "ops = []")
  case True
  then show ?thesis unfolding commit_changes_def using assms by (simp add: once_silent silent_bind silent_return silent_modify)
next
  case False
  then show ?thesis unfolding commit_changes_def commit_or_rollback_def run_rollback_def
    using assms by (simp add: once_bind[OF once_commit] silent_modify)
qed

lemma once_insertOne: "commits_once (\<lambda>jc. insertOne jc fresh v)"
  unfolding insertOne_def
  by (intro once_bind_silent once_bind silent_intros once_commit_changes put_document_journal)

lemma silent_insert_loop: "silent (insert_loop fresh n vs accepted rollbacks :: ('j collection, _) operation)"
proof (induction vs arbitrary: n accepted rollbacks)
  case Nil
  have "(insert_loop fresh n [] accepted rollbacks :: ('j collection, _) operation) = returnS (accepted, rollbacks, None)" by (rule ext) (simp add: returnS_def)
  then show ?case by (simp only: silent_return)
next
  case (Cons v vs)
  let ?m = "bindS (getsS (prepareInsert (fresh n) v (map pi_key accepted))) (\<lambda>p. bindS (trackInsert p) (\<lambda>undo. returnS (p, undo)))"
  have "silent ?m" by (intro silent_intros)
  show ?case unfolding silent_def
  proof
    fix C :: "'j collection"
    obtain r C1 where m: "\<forall>j. ?m (journal_set j C) = (r, journal_set j C1)" using \<open>silent ?m\<close> unfolding silent_def by blast
    show "\<exists>r C1. \<forall>j. insert_loop fresh n (v # vs) accepted rollbacks (journal_set j C) = (r, journal_set j C1)"
    proof (cases r)
      case (Inl e)
      then show ?thesis using m
        by (intro exI[of _ "if is_storage_error e then Inr (accepted, rollbacks, Some (n, e)) else Inl e"] exI[of _ C1]) simp
    next
      case (Inr x)
      then show ?thesis using m Cons.IH[of "n + 1" "accepted @ [fst x]" "rollbacks @ [snd x]"] unfolding silent_def by (cases x) auto
    qed
  qed
qed

lemma once_insertMany: "commits_once (\<lambda>jc :: 'j journal_commit. insertMany jc fresh vs)"
proof (cases "vs = []")
  case True
  then show ?thesis by (simp add: insertMany_def once_silent silent_throw)
next
  case False
  have fin: "silent ((case failed of Some (index, e) \<Rightarrow> throwS (StorageInsertManyError (failure_code e) index ids) | None \<Rightarrow> returnS ids) :: ('j collection, _) operation)" for failed ids
    by (auto simp: silent_return silent_throw split: option.splits prod.splits)
  have body: "commits_once (\<lambda>jc :: 'j journal_commit. case x of (accepted, rollbacks, failed) \<Rightarrow>
        bindS (if accepted = [] then returnS ()
               else bindS (catchS (commit jc (map (\<lambda>p. JPut (pi_key p) (pi_encoded p)) accepted))
                      (\<lambda>e. bindS (run_rollbacks rollbacks) (\<lambda>_. throwS e))) (\<lambda>_.
                    modifyS (put_all (map (\<lambda>p. (pi_key p, pi_encoded p)) accepted)))) (\<lambda>_.
        case failed of
          Some (index, e) \<Rightarrow> throwS (StorageInsertManyError (failure_code e) index (map pi_id accepted))
        | None \<Rightarrow> returnS (map pi_id accepted)))" for x
    unfolding run_rollbacks_def
    by (cases x, simp only: prod.case)
       (intro once_bind once_if once_commit once_silent silent_return silent_modify fin put_all_journal; simp)
  show ?thesis unfolding insertMany_def if_not_P[OF False] by (rule once_bind_silent[OF silent_insert_loop]) (rule body)
qed

lemma candidates_journal: "candidates f (journal_set j C) = candidates f C"
  by (simp add: candidates_def plan_def sequence_of_def[abs_def] has_document_def documentCount_def cong: option.case_cong)

lemma locate_journal: "locate f m (journal_set j C) = locate f m C"
  by (simp add: locate_def candidates_journal cong: option.case_cong)

lemma once_option:
  "commits_once (\<lambda>jc. n jc) \<Longrightarrow> (\<And>x. commits_once (\<lambda>jc. s jc x)) \<Longrightarrow> commits_once (\<lambda>jc. case y of None \<Rightarrow> n jc | Some x \<Rightarrow> s jc x)"
  by (cases y) simp_all

lemma once_deleteOne: "commits_once (\<lambda>jc. deleteOne jc f)"
  unfolding deleteOne_def
  by (intro once_bind_silent silent_gets once_option once_bind once_commit_changes once_silent silent_intros remove_document_journal)
     (simp add: locate_journal)

lemma once_deleteMany: "commits_once (\<lambda>jc :: 'j journal_commit. deleteMany jc f)"
proof -
  have "commits_once (\<lambda>jc :: 'j journal_commit. case x of (keys, changes) \<Rightarrow>
     bindS (trackChanges changes) (\<lambda>undo. bindS (commit_changes jc undo (map JDelete keys) (remove_all keys)) (\<lambda>_. returnS (length keys))))" for x
    by (cases x, simp only: prod.case)
       (intro once_bind_silent once_bind once_commit_changes silent_intros remove_all_journal)
  then show ?thesis unfolding deleteMany_def by (intro once_bind_silent silent_gets) (simp_all add: candidates_journal)
qed

lemma once_upsert: "commits_once (\<lambda>jc. upsertFromUpdate jc fresh f a upsert)"
  unfolding upsertFromUpdate_def by (intro once_if once_silent once_bind_silent once_bind once_insertOne silent_intros)

lemma once_store: "commits_once (\<lambda>jc. store_update jc key before encoded)"
  unfolding store_update_def by (intro once_bind_silent once_commit_changes silent_intros put_document_journal)

lemma once_replaceOne: "commits_once (\<lambda>jc :: 'j journal_commit. replaceOne jc fresh f r up)"
  unfolding replaceOne_def
proof (intro once_bind_silent silent_gets)
  fix x :: "bool \<times> document \<times> located_document option"
  show "commits_once (\<lambda>jc :: 'j journal_commit. case x of (upsert, replacement, located) \<Rightarrow>
       case located of
         None \<Rightarrow>
           if \<not> upsert then returnS no_match
           else
             bindS (fromR (upsert_replacement (filter_document f) replacement)) (\<lambda>d.
             bindS (insertOne jc fresh (DDocument d)) (\<lambda>docId. returnS (no_match\<lparr>ur_upsertedId := Some docId\<rparr>)))
       | Some l \<Rightarrow>
           (let existing = map_of (ld_document l) (js ''_id'') in
            if hasOwn replacement (js ''_id'') \<and> \<not> same_id (map_of replacement (js ''_id'')) existing
            then throwS (StorageError ImmutableId)
            else
              bindS (fromR (encodeStoredDocument (obj_set (js ''_id'') (case existing of Some v \<Rightarrow> v | None \<Rightarrow> DOther) replacement))) (\<lambda>encoded.
                if encoded = ld_encoded l then returnS \<lparr>ur_matchedCount = 1, ur_modifiedCount = 0, ur_upsertedId = None\<rparr>
                else bindS (store_update jc (ld_key l) (Some (ld_document l)) encoded) (\<lambda>_.
                  returnS \<lparr>ur_matchedCount = 1, ur_modifiedCount = 1, ur_upsertedId = None\<rparr>))))"
    by (cases x, simp only: prod.case Let_def)
       (intro once_option once_if once_bind_silent once_bind once_insertOne once_store once_silent silent_intros)
qed (simp add: locate_journal)

lemma once_updateOne: "commits_once (\<lambda>jc :: 'j journal_commit. updateOne jc fresh f u up)"
  unfolding updateOne_def
proof (intro once_bind_silent silent_gets)
  fix x :: "compiled_update \<times> bool \<times> located_document option"
  show "commits_once (\<lambda>jc :: 'j journal_commit. case x of (apply_update, upsert, located) \<Rightarrow>
       case located of
         None \<Rightarrow> upsertFromUpdate jc fresh (filter_document f) apply_update upsert
       | Some l \<Rightarrow>
           bindS (getsS (\<lambda>C. if set_isEmpty (co_indexes C) then Inr None
                     else bindR (decode_stored (ld_encoded l)) (\<lambda>d. Inr (Some d)))) (\<lambda>before.
           bindS (fromR (prepareUpdate l apply_update)) (\<lambda>pending.
             case pending of
               None \<Rightarrow> returnS \<lparr>ur_matchedCount = 1, ur_modifiedCount = 0, ur_upsertedId = None\<rparr>
             | Some encoded \<Rightarrow>
                 bindS (store_update jc (ld_key l) before encoded) (\<lambda>_.
                   returnS \<lparr>ur_matchedCount = 1, ur_modifiedCount = 1, ur_upsertedId = None\<rparr>))))"
    by (cases x, simp only: prod.case)
       (intro once_option once_upsert once_bind_silent once_bind once_store once_silent silent_intros silent_gets; simp)
qed (simp add: locate_journal)

lemma once_updateMany: "commits_once (\<lambda>jc :: 'j journal_commit. updateMany jc fresh f u up)"
  unfolding updateMany_def
proof (intro once_bind_silent silent_gets)
  fix x :: "compiled_update \<times> bool \<times> nat \<times> (doc_key \<times> bytes) list \<times> document_change list"
  show "commits_once (\<lambda>jc :: 'j journal_commit. case x of (apply_update, upsert, matched, pending, changes) \<Rightarrow>
       if matched = 0 then upsertFromUpdate jc fresh (filter_document f) apply_update upsert
       else
         bindS (trackChanges changes) (\<lambda>undo.
         bindS (commit_changes jc undo (map (\<lambda>(key, encoded). JPut key encoded) pending) (put_all pending)) (\<lambda>_.
         returnS \<lparr>ur_matchedCount = matched, ur_modifiedCount = length pending, ur_upsertedId = None\<rparr>)))"
    by (cases x, simp only: prod.case)
       (intro once_if once_upsert once_bind_silent once_bind once_commit_changes silent_intros put_all_journal)
qed (simp add: candidates_journal)

lemma silent_buildIndex [silent_intros]: "silent (buildIndex spec :: ('j collection, bool) operation)"
  unfolding silent_def
proof
  fix C :: "'j collection"
  have n: "number_documents (journal_set j D) = journal_set j (number_documents D)" for j and D :: "'j collection"
  proof -
    let ?f = "\<lambda>(C :: 'j collection) key. C\<lparr>co_sequence := map_option (AList.update key (co_nextSequence C)) (co_sequence C),
        co_nextSequence := co_nextSequence C + 1\<rparr>"
    have "foldl ?f (journal_set j D) ks = journal_set j (foldl ?f D ks)" for ks D
    proof (induction ks arbitrary: D)
      case (Cons k ks)
      have "?f (journal_set j D) k = journal_set j (?f D k)" by simp
      then show ?case using Cons.IH[of "?f D k"] by (simp only: foldl.simps)
    qed simp
    moreover have "(journal_set j D)\<lparr>co_sequence := Some []\<rparr> = journal_set j (D\<lparr>co_sequence := Some []\<rparr>)"
      "co_documents (journal_set j D) = co_documents D" by simp_all
    ultimately show ?thesis unfolding number_documents_def by (simp only:)
  qed
  have "buildIndex spec (journal_set j C) = (fst (buildIndex spec C), journal_set j (snd (buildIndex spec C)))" for j
  proof -
    have n': "number_documents ((journal_set j C)\<lparr>co_indexes := S\<rparr>) = journal_set j (number_documents (C\<lparr>co_indexes := S\<rparr>))" for S
    proof -
      have "(journal_set j C)\<lparr>co_indexes := S\<rparr> = journal_set j (C\<lparr>co_indexes := S\<rparr>)" by simp
      then show ?thesis using n by metis
    qed
    show ?thesis by (auto simp: n' buildIndex_def Let_def split: prod.splits sum.splits option.splits create_result.splits)
  qed
  then show "\<exists>r C1. \<forall>j. buildIndex spec (journal_set j C) = (r, journal_set j C1)" by blast
qed

lemma once_createIndex: "commits_once (\<lambda>jc. createIndex jc input)"
  unfolding createIndex_def
  by (intro once_bind_silent once_bind once_if once_commit once_silent silent_intros removeIndex_journal) simp

lemma once_dropIndex: "commits_once (\<lambda>jc. dropIndex jc name)"
  unfolding dropIndex_def
  by (intro once_if once_bind_silent silent_gets once_bind once_plain_commit once_silent silent_intros silent_modify removeIndex_journal) simp_all

lemma once_ignore: "commits_once m \<Longrightarrow> commits_once (\<lambda>jc C. ignore_result (m jc C))"
proof -
  assume "commits_once m"
  moreover have "(\<lambda>jc C. ignore_result (m jc C)) = (\<lambda>jc. bindS (m jc) (\<lambda>_. returnS ()))"
    by (intro ext) (auto simp: ignore_result_def bindS_def returnS_def split: sum.splits prod.splits)
  ultimately show ?thesis using once_bind[of m "\<lambda>_. returnS ()"] silent_return by metis
qed

lemmas command_eta = run_command.simps[abs_def]

lemma once_command: "commits_once (\<lambda>jc. run_command jc fresh cmd)"
  by (cases cmd; simp only: command_eta)
     (rule once_ignore, rule once_insertOne once_insertMany once_deleteOne once_deleteMany once_replaceOne once_updateOne once_updateMany
          once_createIndex once_dropIndex)+

section \<open>What a command does, whatever its journal\<close>

lemma command_ok_journal: "command_ok (journal_set j C) cmd = command_ok C cmd"
  by (cases cmd) (simp_all add: update_inputs_ok_def matching_def)

lemma durable_journal [simp]: "durable_of (journal_set j C) = durable_of C"
  by (simp add: durable_of_def)

definition refusing :: "'j journal_commit" where
  "refusing ops j = (Inl TypeFailure, j)"

lemma refusing_commits: "commits refusing ops (Some j) j' \<Longrightarrow> ops = []"
  by (auto simp: commits_def refusing_def split: if_splits)

lemma sound_refusing:
  assumes "sound_step A refusing C (r, C1)" "co_journal C = Some j"
  shows "coll_inv C1 \<and> durable_of C1 = durable_of C"
proof -
  have "durable_of C1 = durable_of C" if jd: "journaled A refusing C C1"
  proof -
    obtain ops where o: "commits refusing ops (Some j) (co_journal C1)" "durable_of C1 = replay ops (durable_of C)"
      using jd assms(2) by (auto simp: journaled_def)
    then show ?thesis using refusing_commits[OF o(1)] by (simp add: replay_def)
  qed
  then show ?thesis using assms(1) by (auto simp: sound_step_def split: sum.splits)
qed

text \<open>
  Either the command does not commit, and then the documents and index definitions stay as they
  are; or it commits one list of operations, which fits the collection: when the journal refuses
  it they stay as well, and otherwise they change by just these operations.
\<close>

lemma command_plan:
  fixes C :: "'j collection"
  assumes "coll_inv C" "command_ok C cmd" "\<forall>n. length (fresh n) = 16" "j0 \<noteq> (j1 :: 'j)"
  obtains (none) r C1 where "\<And>jc j. run_command jc fresh cmd (journal_set j C) = (r, journal_set j C1)"
      "coll_inv C1" "durable_of C1 = durable_of C"
  | (one) ops C1 r C2 where "ops \<noteq> []" "ops_fit (specs_made cmd) (durable_of C) ops"
      "\<And>jc j. run_command jc fresh cmd (journal_set (Some j) C) =
        (case jc ops j of (Inl e, j') \<Rightarrow> (Inl e, journal_set (Some j') C1) | (Inr _, j') \<Rightarrow> (r, journal_set (Some j') C2))"
      "coll_inv C1" "durable_of C1 = durable_of C" "coll_inv C2" "durable_of C2 = replay ops (durable_of C)"
proof -
  let ?C = "journal_set (Some j0) C"
  have inv: "coll_inv ?C" "command_ok ?C cmd" "co_journal ?C = Some j0" using assms(1,2) by (simp_all add: coll_inv_journal command_ok_journal)
  note sound = run_command_sound[OF inv(1,2) assms(3)]
  consider (none) r C1 where "\<forall>jc j. run_command jc fresh cmd (journal_set j C) = (r, journal_set j C1)"
    | (one) ops C1 r C2 where "ops \<noteq> []" "\<forall>jc j. run_command jc fresh cmd (journal_set (Some j) C) =
        (case jc ops j of (Inl e, j') \<Rightarrow> (Inl e, journal_set (Some j') C1) | (Inr _, j') \<Rightarrow> (r, journal_set (Some j') C2))"
    using once_command[of fresh cmd, unfolded commits_once_def, rule_format, of C] by blast
  then show thesis
  proof cases
    case none
    have "coll_inv (journal_set (Some j0) C1) \<and> durable_of (journal_set (Some j0) C1) = durable_of ?C"
      by (rule sound_refusing[OF _ inv(3)]) (use sound[of refusing] none in simp_all)
    then show thesis using that(1)[of r C1] none by (simp add: coll_inv_journal)
  next
    case one
    have "coll_inv (journal_set (Some j0) C1) \<and> durable_of (journal_set (Some j0) C1) = durable_of ?C"
      by (rule sound_refusing[OF _ inv(3), of "specs_made cmd" "Inl TypeFailure"]) (use sound[of refusing] one(2) in \<open>simp_all add: refusing_def\<close>)
    then have C1: "coll_inv C1" "durable_of C1 = durable_of C" by (simp_all add: coll_inv_journal)
    define jc where "jc = (\<lambda>ops' (j :: 'j). if ops' = ops then (Inr (), j1) else (Inl TypeFailure, j))"
    have run: "run_command jc fresh cmd ?C = (r, journal_set (Some j1) C2)" using one(2) by (simp add: jc_def)
    have s: "sound_step (specs_made cmd) jc ?C (r, journal_set (Some j1) C2)" using sound[of jc] run by simp
    have "\<not> refused jc (Some j0) (Some j1)" using assms(4) by (auto simp: refused_def jc_def split: if_splits)
    then have "journaled (specs_made cmd) jc ?C (journal_set (Some j1) C2)" using s by (auto simp: sound_step_def split: sum.splits)
    then obtain ops' where o: "commits jc ops' (Some j0) (Some j1)" "durable_of C2 = replay ops' (durable_of C)" "ops_fit (specs_made cmd) (durable_of C) ops'"
      by (auto simp: journaled_def)
    have "ops' = ops" using o(1) assms(4) by (auto simp: commits_def jc_def split: if_splits)
    moreover have "coll_inv C2" using s by (simp add: sound_step_def coll_inv_journal)
    ultimately show thesis using that(2)[OF one(1) _ _ C1] one(2) o by simp
  qed
qed

end
