(* ===== verification/Wal_Files.thy ===== *)
theory Wal_Files
  imports Write_Ahead_Log "HOL-Library.Sublist"
begin

text \<open>
  What the file operations of the write-ahead log do to the files, under every script of failures,
  and what the scanner reads from a segment that holds the first bytes of a log.
\<close>

section \<open>Writing files\<close>

lemma append_nothing [simp]: "fi_synced f \<le> length (fi_data f) \<Longrightarrow> append_bytes [] f = f"
  by (simp add: append_bytes_def min_def)

lemma fi_data_append [simp]: "fi_data (append_bytes bs f) = fi_data f @ bs"
  by (simp add: append_bytes_def)

lemma only_changes_faults: "only_changes p st st' \<Longrightarrow> set (os_faults st') \<subseteq> set (os_faults st)"
  by (simp add: only_changes_def quiet_def)

lemma writeFully_run:
  assumes "writeFully fd bs (length (fi_data f)) st = (r, st')" "file_at fd st = Some f" "fi_synced f \<le> length (fi_data f)"
  shows "\<exists>n \<le> length bs. only_changes fd st st' \<and> file_at fd st' = Some (append_bytes (take n bs) f) \<and>
    (r = Inr () \<and> n = length bs \<or> (\<exists>c. r = Inl (OsFailure c) \<and> Fault c \<in> set (os_faults st)))"
  using assms
proof (induction "length bs" arbitrary: bs f st rule: less_induct)
  case less
  show ?case
  proof (cases "bs = []")
    case True
    then show ?thesis using less.prems by (simp add: writeFully.simps)
  next
    case False
    obtain r1 st1 where w: "writeSync fd bs (length (fi_data f)) st = (r1, st1)" by fastforce
    from w less.prems(2) show ?thesis
    proof (cases rule: writeSync_run)
      case (fails c)
      then have "r = Inl (OsFailure c)" "st' = st1" using less.prems(1) w False by (simp_all add: writeFully.simps)
      then show ?thesis using fails less.prems(2,3) by (intro exI[of _ 0]) simp
    next
      case (wrote n)
      let ?f = "append_bytes (take n bs) f"
      have len: "length (fi_data ?f) = length (fi_data f) + n" using wrote(2) by simp
      have "writeFully fd (drop n bs) (length (fi_data ?f)) st1 = (r, st')"
        using less.prems(1) w False wrote(1) unfolding len by (simp add: writeFully.simps[of fd bs])
      moreover have "length (drop n bs) < length bs" using False wrote(2,3) by simp
      moreover have "fi_synced ?f \<le> length (fi_data ?f)" by (simp add: append_bytes_def)
      ultimately obtain m where m: "m \<le> length (drop n bs)" "only_changes fd st1 st'"
          "file_at fd st' = Some (append_bytes (take m (drop n bs)) ?f)"
          "r = Inr () \<and> m = length (drop n bs) \<or> (\<exists>c. r = Inl (OsFailure c) \<and> Fault c \<in> set (os_faults st1))"
        using less.hyps[of "drop n bs" ?f st1] wrote(5) by blast
      have "append_bytes (take m (drop n bs)) ?f = append_bytes (take (n + m) bs) f"
        by (simp add: append_bytes_twice take_add)
      moreover have "only_changes fd st st'" using wrote(4) m(2) only_changes_trans by blast
      ultimately show ?thesis
        using m wrote(2) only_changes_faults[OF wrote(4)] by (intro exI[of _ "n + m"]) auto
    qed
  qed
qed

text \<open>
  Flushing a directory. A platform that cannot do it reports one of three codes, which the code
  tolerates; where these do not occur, success means the entries are durable.
\<close>

definition flushes_directories :: "'z os_scheme \<Rightarrow> bool" where
  "flushes_directories st \<longleftrightarrow> (\<forall>c \<in> {EISDIR, EPERM, EINVAL}. Fault c \<notin> set (os_faults st))"

definition relinked :: "disk_file \<Rightarrow> disk_file \<Rightarrow> bool" where
  "relinked f f' \<longleftrightarrow> f' = f \<or> f' = f\<lparr>fi_linked := True\<rparr>"

definition relinks :: "'z os_scheme \<Rightarrow> 'z os_scheme \<Rightarrow> bool" where
  "relinks st st' \<longleftrightarrow> quiet st st' \<and> (\<forall>p. case file_at p st of None \<Rightarrow> file_at p st' = None
     | Some f \<Rightarrow> (\<exists>f'. file_at p st' = Some f' \<and> relinked f f'))"

lemma relinked_refl [simp]: "relinked f f" by (simp add: relinked_def)

lemma relinked_trans: "relinked f g \<Longrightarrow> relinked g h \<Longrightarrow> relinked f h" by (auto simp: relinked_def)

lemma relinkedD:
  assumes "relinked f f'"
  shows "fi_data f' = fi_data f" "fi_synced f' = fi_synced f" "fi_linked f \<Longrightarrow> fi_linked f'"
  using assms by (auto simp: relinked_def)

lemma relinks_quiet: "relinks st st' \<Longrightarrow> quiet st st'" by (simp add: relinks_def)

lemma relinks_Some: "relinks st st' \<Longrightarrow> file_at p st = Some f \<Longrightarrow> \<exists>f'. file_at p st' = Some f' \<and> relinked f f'"
  unfolding relinks_def by (erule conjE, erule allE[where x = p]) simp

lemma relinks_None: "relinks st st' \<Longrightarrow> file_at p st = None \<Longrightarrow> file_at p st' = None"
  unfolding relinks_def by (erule conjE, erule allE[where x = p]) simp

lemma relinks_refl [simp]: "relinks st st"
  by (auto simp: relinks_def split: option.splits)

lemma relinks_trans:
  assumes "relinks a b" "relinks b c"
  shows "relinks a c"
proof -
  have "case file_at p a of None \<Rightarrow> file_at p c = None | Some f \<Rightarrow> (\<exists>f'. file_at p c = Some f' \<and> relinked f f')" for p
  proof (cases "file_at p a")
    case None
    then show ?thesis using relinks_None[OF assms(2) relinks_None[OF assms(1)]] by simp
  next
    case (Some f)
    obtain f1 where f1: "file_at p b = Some f1" "relinked f f1" using relinks_Some[OF assms(1) Some] by blast
    obtain f2 where "file_at p c = Some f2" "relinked f1 f2" using relinks_Some[OF assms(2) f1(1)] by blast
    then show ?thesis using Some f1(2) relinked_trans by auto
  qed
  then show ?thesis using assms quiet_trans unfolding relinks_def by blast
qed

lemma same_relinks: "(\<And>p. only_changes p st st') \<Longrightarrow> (\<And>q. file_at q st' = file_at q st) \<Longrightarrow> relinks st st'"
  by (auto simp: relinks_def only_changes_def split: option.splits)

lemma map_of_map_key: "map_of (map (\<lambda>(k, v). (k, g k v)) xs) k = map_option (g k) (map_of xs k)"
  by (induction xs) auto

lemma link_entries_file:
  "file_at p (link_entries dir st) = map_option (\<lambda>f. if fst p = dir then f\<lparr>fi_linked := True\<rparr> else f) (file_at p st)"
  by (simp add: file_at_def link_entries_def map_of_map_key)

lemma link_entries_relinks: "relinks st (link_entries dir st)"
proof -
  have "map fst (os_files (link_entries dir st)) = map fst (os_files st)" by (auto simp: link_entries_def)
  then have "quiet st (link_entries dir st)" by (simp add: quiet_def) (simp add: link_entries_def)
  then show ?thesis
    unfolding relinks_def link_entries_file by (auto simp: relinked_def split: option.splits)
qed

definition all_linked :: "js_string \<Rightarrow> 'z os_scheme \<Rightarrow> bool" where
  "all_linked dir st \<longleftrightarrow> (\<forall>p f. fst p = dir \<and> file_at p st = Some f \<longrightarrow> fi_linked f)"

lemma fsync_directory_run:
  assumes "fsync_directory dir st = (r, st')"
  shows "relinks st st'" "r = Inr () \<and> all_linked dir st' \<or> (\<exists>c. r = Inl (OsFailure c) \<and> Fault c \<in> set (os_faults st))"
proof -
  from assms[unfolded fsync_directory_def]
  have "relinks st st' \<and> (r = Inr () \<and> all_linked dir st' \<or> (\<exists>c. r = Inl (OsFailure c) \<and> Fault c \<in> set (os_faults st)))"
  proof (cases rule: syscall_run)
    case (fails c)
    then show ?thesis using same_relinks by blast
  next
    case (runs st1)
    have s: "st' = link_entries dir st1" "r = Inr ()" using runs(1) by (simp_all add: modifyS_def)
    have "relinks st st'" unfolding s by (rule relinks_trans[OF same_relinks[OF runs(2,3)] link_entries_relinks])
    then show ?thesis using s by (auto simp: all_linked_def link_entries_file)
  qed
  then show "relinks st st'" "r = Inr () \<and> all_linked dir st' \<or> (\<exists>c. r = Inl (OsFailure c) \<and> Fault c \<in> set (os_faults st))" by blast+
qed

lemma openSync_r_run:
  assumes "openSync_r dir st = (r, st')"
  shows "relinks st st'" "(\<exists>fd. r = Inr fd) \<or> (\<exists>c. r = Inl (OsFailure c) \<and> Fault c \<in> set (os_faults st))"
proof -
  from assms[unfolded openSync_r_def]
  have "relinks st st' \<and> ((\<exists>fd. r = Inr fd) \<or> (\<exists>c. r = Inl (OsFailure c) \<and> Fault c \<in> set (os_faults st)))"
    by (cases rule: syscall_run) (auto simp: returnS_def intro: same_relinks)
  then show "relinks st st'" "(\<exists>fd. r = Inr fd) \<or> (\<exists>c. r = Inl (OsFailure c) \<and> Fault c \<in> set (os_faults st))" by blast+
qed

lemma faults_mono: "quiet st st' \<Longrightarrow> Fault c \<in> set (os_faults st') \<Longrightarrow> Fault c \<in> set (os_faults st)"
  by (auto simp: quiet_def)

lemma flushes_mono: "quiet st st' \<Longrightarrow> flushes_directories st \<Longrightarrow> flushes_directories st'"
  by (auto simp: quiet_def flushes_directories_def)

lemma directory_failure_Inr: "directory_failure (OsFailure c) = Inr u \<Longrightarrow> c \<in> {EISDIR, EPERM, EINVAL}"
  by (auto simp: directory_failure_def errnoOf_def split: if_splits)

lemma syncDirectory_run:
  assumes "syncDirectory dir st = (r, st')"
  shows "relinks st st' \<and> (case r of Inr _ \<Rightarrow> flushes_directories st \<longrightarrow> all_linked dir st' | Inl e \<Rightarrow> os_faults st \<noteq> [])"
proof -
  obtain r1 st1 where o: "openSync_r dir st = (r1, st1)" by fastforce
  note O = openSync_r_run[OF o]
  show ?thesis
  proof (cases r1)
    case (Inl e)
    then obtain c where c: "e = OsFailure c" "Fault c \<in> set (os_faults st)" using O(2) by auto
    then have "r = directory_failure (OsFailure c)" "st' = st1" using assms o Inl by (simp_all add: syncDirectory_def)
    then show ?thesis using O(1) c(2) directory_failure_Inr[of c]
      by (auto simp: flushes_directories_def split: sum.splits)
  next
    case (Inr fd)
    obtain r2 st2 where f: "fsync_directory dir st1 = (r2, st2)" by fastforce
    obtain r3 st3 where c: "closeSync fd st2 = (r3, st3)" by fastforce
    note F = fsync_directory_run[OF f]
    have C: "relinks st2 st3" using closeSync_run(1,2)[OF c] same_relinks by blast
    have rel: "relinks st st3" using relinks_trans[OF relinks_trans[OF O(1) F(1)] C] .
    have linked: "all_linked dir st3" if "all_linked dir st2"
      using that closeSync_run(2)[OF c] by (simp add: all_linked_def)
    have st': "st' = st3" and r: "r = (case r3 of Inl e \<Rightarrow> Inl e | Inr _ \<Rightarrow> (case r2 of Inl e \<Rightarrow> directory_failure e | Inr _ \<Rightarrow> Inr ()))"
      using assms o Inr f c by (auto simp: syncDirectory_def split: sum.splits)
    have q: "quiet st st1" "quiet st st2" using O(1) F(1) relinks_trans relinks_quiet by blast+
    show ?thesis
    proof (cases r3)
      case (Inl e)
      then show ?thesis using r st' rel closeSync_run(3)[OF c] faults_mono[OF q(2)] by auto
    next
      case (Inr u)
      show ?thesis
      proof (cases r2)
        case (Inl e)
        then obtain x where x: "e = OsFailure x" "Fault x \<in> set (os_faults st)" using F(2) faults_mono[OF q(1)] by auto
        then show ?thesis using r Inr Inl st' rel directory_failure_Inr[of x]
          by (auto simp: flushes_directories_def split: sum.splits)
      next
        case (Inr v)
        then show ?thesis using r \<open>r3 = Inr u\<close> st' rel F(2) linked by auto
      qed
    qed
  qed
qed

section \<open>The bytes of a log\<close>

type_synonym log_entry = "int \<times> bytes"

definition entry_ok :: "log_entry \<Rightarrow> bool" where
  "entry_ok x \<longleftrightarrow> 0 \<le> fst x \<and> fst x \<le> 255 \<and> length (snd x) \<le> MAX_RECORD_PAYLOAD_SIZE"

definition entry_bytes :: "nat \<Rightarrow> log_entry \<Rightarrow> bytes" where
  "entry_bytes lsn x = (case encodeRecord lsn (fst x) (snd x) of Inr r \<Rightarrow> r | Inl _ \<Rightarrow> [])"

fun log_bytes :: "nat \<Rightarrow> log_entry list \<Rightarrow> bytes" where
  "log_bytes lsn [] = []"
| "log_bytes lsn (x # xs) = entry_bytes lsn x @ log_bytes (lsn + 1) xs"

fun numbered :: "nat \<Rightarrow> log_entry list \<Rightarrow> wal_record list" where
  "numbered lsn [] = []"
| "numbered lsn (x # xs) = \<lparr>wr_lsn = lsn, wr_type = fst x, wr_payload = snd x\<rparr> # numbered (lsn + 1) xs"

definition log_ok :: "nat \<Rightarrow> log_entry list \<Rightarrow> bool" where
  "log_ok lsn xs \<longleftrightarrow> 0 < lsn \<and> lsn + length xs \<le> 2 ^ 64 \<and> (\<forall>x \<in> set xs. entry_ok x)"

text \<open>How many whole records the first \<open>n\<close> bytes of a log hold.\<close>

fun whole :: "nat \<Rightarrow> log_entry list \<Rightarrow> nat" where
  "whole n [] = 0"
| "whole n (x # xs) =
     (if RECORD_HEADER_SIZE + length (snd x) \<le> n then Suc (whole (n - (RECORD_HEADER_SIZE + length (snd x))) xs) else 0)"

lemma encodeRecord_iff:
  "(\<exists>r. encodeRecord lsn type payload = Inr r) \<longleftrightarrow> entry_ok (type, payload) \<and> lsn < 2 ^ 64"
  by (auto simp: encodeRecord_Inr entry_ok_def Let_def)

lemma entry_bytes_encode:
  assumes "entry_ok x" "lsn < 2 ^ 64"
  shows "encodeRecord lsn (fst x) (snd x) = Inr (entry_bytes lsn x)"
proof -
  obtain r where "encodeRecord lsn (fst x) (snd x) = Inr r" using encodeRecord_iff assms by (metis prod.collapse)
  then show ?thesis by (simp add: entry_bytes_def)
qed

lemma length_entry_bytes: "entry_ok x \<Longrightarrow> lsn < 2 ^ 64 \<Longrightarrow> length (entry_bytes lsn x) = RECORD_HEADER_SIZE + length (snd x)"
  using encodeRecord_length[OF entry_bytes_encode] .

lemma log_bytes_append: "log_bytes lsn (xs @ ys) = log_bytes lsn xs @ log_bytes (lsn + length xs) ys"
  by (induction xs arbitrary: lsn) simp_all

lemma numbered_append: "numbered lsn (xs @ ys) = numbered lsn xs @ numbered (lsn + length xs) ys"
  by (induction xs arbitrary: lsn) simp_all

lemma length_numbered [simp]: "length (numbered lsn xs) = length xs"
  by (induction xs arbitrary: lsn) simp_all

lemma log_ok_append: "log_ok lsn (xs @ ys) \<longleftrightarrow> log_ok lsn xs \<and> log_ok (lsn + length xs) ys"
  by (auto simp: log_ok_def)

lemma log_ok_Cons: "log_ok lsn (x # xs) \<longleftrightarrow> 0 < lsn \<and> lsn < 2 ^ 64 \<and> entry_ok x \<and> log_ok (lsn + 1) xs"
  by (auto simp: log_ok_def)

lemma log_ok_take: "log_ok lsn xs \<Longrightarrow> log_ok lsn (take k xs)"
  using log_ok_append[of lsn "take k xs" "drop k xs"] by simp

lemma log_bytes_take: "log_bytes lsn xs = log_bytes lsn (take k xs) @ log_bytes (lsn + min k (length xs)) (drop k xs)"
  using log_bytes_append[of lsn "take k xs" "drop k xs"] by (simp add: min.commute)

lemma whole_le: "whole n xs \<le> length xs"
  by (induction n xs rule: whole.induct) simp_all

lemma whole_fits: "log_ok lsn xs \<Longrightarrow> length (log_bytes lsn (take (whole n xs) xs)) \<le> n"
proof (induction n xs arbitrary: lsn rule: whole.induct)
  case (2 n x xs)
  then have "entry_ok x" "lsn < 2 ^ 64" "log_ok (lsn + 1) xs" by (simp_all add: log_ok_Cons)
  then show ?case using "2.IH"[of "lsn + 1"]
    by (cases "RECORD_HEADER_SIZE + length (snd x) \<le> n") (auto simp: length_entry_bytes)
qed simp

lemma whole_greatest:
  "log_ok lsn xs \<Longrightarrow> length (log_bytes lsn (take k xs)) \<le> n \<Longrightarrow> k \<le> length xs \<Longrightarrow> k \<le> whole n xs"
proof (induction n xs arbitrary: lsn k rule: whole.induct)
  case (2 n x xs)
  show ?case
  proof (cases k)
    case (Suc j)
    have "entry_ok x" "lsn < 2 ^ 64" "log_ok (lsn + 1) xs" using "2.prems"(1) by (simp_all add: log_ok_Cons)
    then show ?thesis using "2.IH"[of "lsn + 1" j] "2.prems"(2,3) Suc by (simp add: length_entry_bytes)
  qed simp
qed simp

lemma scan_log:
  assumes "log_ok lsn xs" "n \<le> length (log_bytes lsn xs)"
  shows "scan_segment (pre @ take n (log_bytes lsn xs)) (length pre) lsn =
    (numbered lsn (take (whole n xs) xs), length pre + length (log_bytes lsn (take (whole n xs) xs)), lsn + whole n xs,
     if length (log_bytes lsn (take (whole n xs) xs)) = n then EndOfLog else Torn)"
  using assms
proof (induction xs arbitrary: pre n lsn)
  case Nil
  then show ?case by (simp add: scan_segment.simps scan_zeros[of pre 0, simplified])
next
  case (Cons x xs)
  have x: "0 < lsn" "lsn < 2 ^ 64" "entry_ok x" "log_ok (lsn + 1) xs" using Cons.prems(1) by (simp_all add: log_ok_Cons)
  let ?r = "entry_bytes lsn x"
  note r = entry_bytes_encode[OF x(3,2)] and len = length_entry_bytes[OF x(3,2)]
  show ?case
  proof (cases "length ?r \<le> n")
    case True
    let ?m = "n - length ?r"
    have t: "pre @ take n (log_bytes lsn (x # xs)) = pre @ ?r @ take ?m (log_bytes (lsn + 1) xs)" using True by simp
    have "?m \<le> length (log_bytes (lsn + 1) xs)" using Cons.prems(2) by simp
    note IH = Cons.IH[OF x(4) this, of "pre @ ?r"]
    have "scan_segment (pre @ take n (log_bytes lsn (x # xs))) (length pre) lsn =
        (case scan_segment ((pre @ ?r) @ take ?m (log_bytes (lsn + 1) xs)) (length (pre @ ?r)) (lsn + 1) of
           (rs, s) \<Rightarrow> (\<lparr>wr_lsn = lsn, wr_type = fst x, wr_payload = snd x\<rparr> # rs, s))"
      unfolding t by (subst scan_segment.simps) (simp add: scan_record[OF r x(1)])
    moreover have "whole n (x # xs) = Suc (whole ?m xs)" using True len by simp
    moreover have "length (log_bytes lsn (take (Suc (whole ?m xs)) (x # xs))) = n \<longleftrightarrow>
        length (log_bytes (lsn + 1) (take (whole ?m xs) xs)) = ?m" using True by auto
    ultimately show ?thesis unfolding IH by simp
  next
    case False
    then have t: "pre @ take n (log_bytes lsn (x # xs)) = pre @ take n ?r" by simp
    have "scanRecord (pre @ take n ?r) (length pre) lsn = (if n = 0 then EndOfLog else Torn)"
      using scan_torn[OF r x(1), of n pre] False by simp
    then show ?thesis unfolding t using False len by (simp add: scan_segment.simps)
  qed
qed

section \<open>Creating a segment\<close>

definition header_bytes :: "nat \<Rightarrow> bytes" where
  "header_bytes lsn = (case encodeSegmentHeader lsn of Inr h \<Rightarrow> h | Inl _ \<Rightarrow> [])"

lemma encode_header: "lsn < 2 ^ 64 \<Longrightarrow> encodeSegmentHeader lsn = Inr (header_bytes lsn)"
  by (simp add: header_bytes_def encodeSegmentHeader_def writeBigUInt64BE_def Let_def)

lemma encode_header_error: "\<not> lsn < 2 ^ 64 \<Longrightarrow> encodeSegmentHeader lsn = Inl OutOfRange"
  by (simp add: encodeSegmentHeader_def writeBigUInt64BE_def)

lemma length_header: "lsn < 2 ^ 64 \<Longrightarrow> length (header_bytes lsn) = SEGMENT_HEADER_SIZE"
  using decode_encode_header(1)[OF encode_header] .

lemma decode_header: "lsn < 2 ^ 64 \<Longrightarrow> decodeSegmentHeader (header_bytes lsn @ rest) = Some lsn"
  using decode_encode_header(2)[OF encode_header] .

text \<open>Everything but \<open>p\<close> stays, except that directory entries may become durable.\<close>

definition relinks_but :: "path \<Rightarrow> 'z os_scheme \<Rightarrow> 'z os_scheme \<Rightarrow> bool" where
  "relinks_but p st st' \<longleftrightarrow> quiet st st' \<and> (\<forall>q. q \<noteq> p \<longrightarrow> (case file_at q st of None \<Rightarrow> file_at q st' = None
     | Some f \<Rightarrow> (\<exists>f'. file_at q st' = Some f' \<and> relinked f f')))"

lemma relinks_but_quiet: "relinks_but p st st' \<Longrightarrow> quiet st st'" by (simp add: relinks_but_def)

lemma relinks_but_Some: "relinks_but p st st' \<Longrightarrow> q \<noteq> p \<Longrightarrow> file_at q st = Some f \<Longrightarrow> \<exists>f'. file_at q st' = Some f' \<and> relinked f f'"
  unfolding relinks_but_def by (erule conjE, erule allE[where x = q]) simp

lemma relinks_but_None: "relinks_but p st st' \<Longrightarrow> q \<noteq> p \<Longrightarrow> file_at q st = None \<Longrightarrow> file_at q st' = None"
  unfolding relinks_but_def by (erule conjE, erule allE[where x = q]) simp

lemma relinks_but_trans:
  assumes "relinks_but p a b" "relinks_but p b c"
  shows "relinks_but p a c"
proof -
  have "case file_at q a of None \<Rightarrow> file_at q c = None | Some f \<Rightarrow> (\<exists>f'. file_at q c = Some f' \<and> relinked f f')" if neq: "q \<noteq> p" for q
  proof (cases "file_at q a")
    case None
    then show ?thesis using relinks_but_None[OF assms(2) neq relinks_but_None[OF assms(1) neq]] by simp
  next
    case (Some f)
    obtain f1 where f1: "file_at q b = Some f1" "relinked f f1" using relinks_but_Some[OF assms(1) neq Some] by blast
    obtain f2 where "file_at q c = Some f2" "relinked f1 f2" using relinks_but_Some[OF assms(2) neq f1(1)] by blast
    then show ?thesis using Some f1(2) relinked_trans by auto
  qed
  then show ?thesis using assms quiet_trans unfolding relinks_but_def by blast
qed

lemma relinks_relinks_but: "relinks st st' \<Longrightarrow> relinks_but p st st'"
  by (simp add: relinks_but_def relinks_def)

lemma only_changes_relinks_but: "only_changes p st st' \<Longrightarrow> relinks_but p st st'"
  by (auto simp: relinks_but_def only_changes_def split: option.splits)

definition synced_file :: "disk_file \<Rightarrow> bool" where
  "synced_file f \<longleftrightarrow> fi_synced f = length (fi_data f)"

lemma fill_segment_run:
  assumes "fill_segment dir lsn durable p st = (r, st')" "file_at p st = Some new_file" "fst p = dir"
  shows "relinks_but p st st' \<and> (\<exists>f n. file_at p st' = Some f \<and> fi_data f = take n (header_bytes lsn) \<and> fi_synced f \<le> length (fi_data f) \<and>
    (case r of
       Inr _ \<Rightarrow> lsn < 2 ^ 64 \<and> fi_data f = header_bytes lsn \<and> (durable \<longrightarrow> synced_file f \<and> (flushes_directories st \<longrightarrow> fi_linked f))
     | Inl e \<Rightarrow> os_faults st \<noteq> [] \<or> \<not> lsn < 2 ^ 64))"
proof (cases "lsn < 2 ^ 64")
  case False
  then have "r = Inl OutOfRange" "st' = st" using assms(1) by (simp_all add: fill_segment_def bindS_def fromR_def encode_header_error)
  then show ?thesis using assms(2) False by (simp add: relinks_but_def new_file_def split: option.splits)
next
  case True
  let ?h = "header_bytes lsn"
  obtain r1 st1 where w: "writeFully p ?h 0 st = (r1, st1)" by fastforce
  then have "writeFully p ?h (length (fi_data new_file)) st = (r1, st1)" by (simp add: new_file_def)
  from writeFully_run[OF this assms(2)] obtain n where n: "n \<le> length ?h" "only_changes p st st1"
      "file_at p st1 = Some (append_bytes (take n ?h) new_file)"
      "r1 = Inr () \<and> n = length ?h \<or> (\<exists>c. r1 = Inl (OsFailure c) \<and> Fault c \<in> set (os_faults st))"
    by (auto simp: new_file_def)
  let ?f = "append_bytes (take n ?h) new_file"
  have f: "fi_data ?f = take n ?h" "fi_synced ?f \<le> length (fi_data ?f)" by (simp_all add: append_bytes_def new_file_def)
  note rb = only_changes_relinks_but[OF n(2)]
  show ?thesis
  proof (cases r1)
    case (Inl e)
    then have "r = Inl e" "st' = st1" using assms(1) True w by (simp_all add: fill_segment_def bindS_def fromR_def encode_header)
    then show ?thesis using rb n(3) f n(4) Inl by (intro conjI exI[of _ ?f] exI[of _ n]) auto
  next
    case (Inr u)
    then have nh: "n = length ?h" using n(4) by simp
    show ?thesis
    proof (cases durable)
      case False
      then have "r = Inr ()" "st' = st1" using assms(1) True w Inr by (simp_all add: fill_segment_def bindS_def fromR_def encode_header returnS_def)
      then show ?thesis using rb n(3) f nh True False by (intro conjI exI[of _ ?f] exI[of _ n]) auto
    next
      case d: True
      obtain r2 st2 where y: "fsyncSync p st1 = (r2, st2)" by fastforce
      have body: "(r, st') = (case (r2, st2) of (Inl e, s) \<Rightarrow> (Inl e, s) | (Inr x, s) \<Rightarrow> syncDirectory dir s)"
        using assms(1) True w Inr d y by (simp add: fill_segment_def bindS_def fromR_def encode_header)
      from y n(3) show ?thesis
      proof (cases rule: fsyncSync_run)
        case (fails c)
        then have "r = Inl (OsFailure c)" "st' = st2" using body by simp_all
        moreover have "os_faults st \<noteq> []" using fails(2) only_changes_faults[OF n(2)] by auto
        ultimately show ?thesis
          using relinks_but_trans[OF rb only_changes_relinks_but[OF fails(3)]] fails(4) n(3) f
          by (intro conjI exI[of _ ?f] exI[of _ n]) auto
      next
        case synced
        obtain r3 st3 where z: "syncDirectory dir st2 = (r3, st3)" by fastforce
        have r: "r = r3" "st' = st3" using body synced(1) z by simp_all
        note Z = syncDirectory_run[OF z]
        let ?g = "?f\<lparr>fi_synced := length (fi_data ?f)\<rparr>"
        obtain g where g: "file_at p st3 = Some g" "relinked ?g g" using relinks_Some[of st2 st3 p ?g] Z synced(3) by blast
        have q: "quiet st st2" using n(2) synced(2) by (meson only_changes_def quiet_trans)
        have "fi_data g = take n ?h" "synced_file g" using relinkedD(1,2)[OF g(2)] f(1) by (simp_all add: synced_file_def)
        moreover have "relinks_but p st st3"
          using relinks_but_trans[OF relinks_but_trans[OF rb only_changes_relinks_but[OF synced(2)]] relinks_relinks_but] Z by blast
        moreover have "os_faults st \<noteq> []" if "r3 = Inl e" for e using Z that q by (auto simp: quiet_def)
        moreover have "flushes_directories st \<longrightarrow> fi_linked g" if "r3 = Inr v" for v
          using Z that flushes_mono[OF q] g(1) assms(3) by (cases p) (auto simp: all_linked_def)
        ultimately show ?thesis
          unfolding r using True g(1) nh by (intro conjI exI[of _ g] exI[of _ n]) (auto simp: synced_file_def split: sum.splits)
      qed
    qed
  qed
qed

lemma discard_segment_run:
  assumes "discard_segment p st = (r, st')" "file_at p st = Some f"
  shows "r = Inr () \<and> only_changes p st st' \<and> (file_at p st' = None \<or> file_at p st' = Some f)"
proof -
  obtain r1 st1 where c: "closeSync p st = (r1, st1)" by fastforce
  note C = closeSync_run[OF c]
  show ?thesis
  proof (cases r1)
    case (Inl e)
    then have "r = Inr ()" "st' = st1" using assms(1) c by (simp_all add: discard_segment_def catchS_def bindS_def returnS_def)
    then show ?thesis using C(1,2) assms(2) by simp
  next
    case (Inr u)
    obtain r2 st2 where u: "unlinkSync p st1 = (r2, st2)" by fastforce
    have r: "r = Inr ()" "st' = st2"
      using assms(1) c Inr u by (auto simp: discard_segment_def catchS_def bindS_def returnS_def split: sum.splits)
    have f: "file_at p st1 = Some f" using C(2) assms(2) by simp
    then have "file_at p st1 \<noteq> None" by simp
    from u this show ?thesis
    proof (cases rule: unlinkSync_run)
      case (fails c)
      then show ?thesis using r only_changes_trans[OF C(1) fails(3)] f by simp
    next
      case removed
      then show ?thesis using r only_changes_trans[OF C(1) removed(2)] by simp
    qed
  qed
qed

definition segment_at :: "js_string \<Rightarrow> nat \<Rightarrow> segment_info" where
  "segment_at dir lsn = \<lparr>sg_path = segment_path dir lsn, sg_firstLsn = lsn\<rparr>"

text \<open>
  A created segment holds its header. A failed creation leaves nothing, or a file with the
  beginning of the header.
\<close>

lemma createSegment_run:
  assumes "createSegment dir lsn durable st = (r, st')"
  shows "relinks_but (segment_path dir lsn) st st' \<and>
    (case r of
       Inr (info, fd) \<Rightarrow> info = segment_at dir lsn \<and> fd = segment_path dir lsn \<and> file_at (segment_path dir lsn) st = None \<and> lsn < 2 ^ 64 \<and>
         (\<exists>f. file_at (segment_path dir lsn) st' = Some f \<and> fi_data f = header_bytes lsn \<and> fi_synced f \<le> length (fi_data f) \<and>
           (durable \<longrightarrow> synced_file f \<and> (flushes_directories st \<longrightarrow> fi_linked f)))
     | Inl e \<Rightarrow> (os_faults st \<noteq> [] \<or> file_at (segment_path dir lsn) st \<noteq> None \<or> \<not> lsn < 2 ^ 64) \<and>
         (if file_at (segment_path dir lsn) st = None
          then \<forall>f. file_at (segment_path dir lsn) st' = Some f \<longrightarrow> (\<exists>n. fi_data f = take n (header_bytes lsn)) \<and> fi_synced f \<le> length (fi_data f)
          else file_at (segment_path dir lsn) st' = file_at (segment_path dir lsn) st))"
proof -
  let ?p = "segment_path dir lsn"
  obtain r1 st1 where o: "openSync_wx ?p st = (r1, st1)" by fastforce
  from o show ?thesis
  proof (cases rule: openSync_wx_run)
    case (fails c)
    then have "r = Inl (translateIo (OsFailure c))" "st' = st1"
      using assms o by (simp_all add: createSegment_def Let_def bindS_def catchS_def throwS_def)
    then show ?thesis using fails(2,4) only_changes_relinks_but[OF fails(3)] by auto
  next
    case created
    obtain r2 st2 where b: "fill_segment dir lsn durable ?p st1 = (r2, st2)" by fastforce
    from fill_segment_run[OF b created(4)] obtain f n where B: "relinks_but ?p st1 st2" "file_at ?p st2 = Some f"
        "fi_data f = take n (header_bytes lsn)" "fi_synced f \<le> length (fi_data f)"
        "case r2 of Inr _ \<Rightarrow> lsn < 2 ^ 64 \<and> fi_data f = header_bytes lsn \<and> (durable \<longrightarrow> synced_file f \<and> (flushes_directories st1 \<longrightarrow> fi_linked f))
          | Inl e \<Rightarrow> os_faults st1 \<noteq> [] \<or> \<not> lsn < 2 ^ 64"
      by (auto simp: segment_path_def)
    note rb = relinks_but_trans[OF only_changes_relinks_but[OF created(3)] B(1)]
    have q: "quiet st st1" using created(3) by (simp add: only_changes_def)
    show ?thesis
    proof (cases r2)
      case (Inr u)
      then have "r = Inr (segment_at dir lsn, ?p)" "st' = st2"
        using assms o created(1) b by (simp_all add: createSegment_def Let_def bindS_def catchS_def returnS_def segment_at_def)
      then show ?thesis using rb created(2) B Inr flushes_mono[OF q] by auto
    next
      case (Inl e)
      obtain r3 st3 where d: "discard_segment ?p st2 = (r3, st3)" by fastforce
      note D = discard_segment_run[OF d B(2)]
      have r: "r = Inl (translateIo e)" "st' = st3"
        using assms o created(1) b Inl d D by (simp_all add: createSegment_def Let_def bindS_def catchS_def throwS_def)
      have "os_faults st \<noteq> [] \<or> \<not> lsn < 2 ^ 64" using B(5) Inl q by (auto simp: quiet_def)
      moreover have "relinks_but ?p st st3" using relinks_but_trans[OF rb only_changes_relinks_but] D by blast
      ultimately show ?thesis unfolding r using D B(3,4) created(2) by auto
    qed
  qed
qed

end
