(* ===== verification/Wal_Recovery.thy ===== *)
theory Wal_Recovery
  imports Wal_Files
begin

text \<open>
  Opening the files a crash left behind. \<open>disk_log\<close> says what the directory of a log may look like:
  whole segments, then a segment cut anywhere after what is stable, and at most the beginning of
  the next segment, left by a rotation that did not finish.
\<close>

section \<open>Segments on disk\<close>

fun starts :: "nat \<Rightarrow> log_entry list list \<Rightarrow> nat list" where
  "starts n [] = []"
| "starts n (g # gs) = n # starts (n + length g) gs"

fun sealed :: "'z os_scheme \<Rightarrow> js_string \<Rightarrow> bool \<Rightarrow> nat \<Rightarrow> log_entry list list \<Rightarrow> bool" where
  "sealed st dir durable n [] = True"
| "sealed st dir durable n (g # gs) = (g \<noteq> [] \<and>
     (\<exists>f. file_at (segment_path dir n) st = Some f \<and> fi_data f = header_bytes n @ log_bytes n g \<and> fi_synced f \<le> length (fi_data f) \<and>
        (durable \<longrightarrow> synced_file f \<and> fi_linked f)) \<and>
     sealed st dir durable (n + length g) gs)"

text \<open>The last segment: \<open>n\<close> bytes of its records are in the file, the first \<open>s\<close> of them stable.\<close>

definition tail_segment :: "'z os_scheme \<Rightarrow> js_string \<Rightarrow> bool \<Rightarrow> nat \<Rightarrow> log_entry list \<Rightarrow> nat \<Rightarrow> nat \<Rightarrow> bool" where
  "tail_segment st dir durable l ys n s \<longleftrightarrow> (\<exists>f. file_at (segment_path dir l) st = Some f \<and>
     fi_data f = header_bytes l @ take n (log_bytes l ys) \<and> fi_synced f \<le> length (fi_data f) \<and>
     (durable \<longrightarrow> fi_linked f \<and> SEGMENT_HEADER_SIZE + s \<le> fi_synced f))"

text \<open>The beginning of a segment that was never used.\<close>

definition leftover :: "'z os_scheme \<Rightarrow> js_string \<Rightarrow> bool \<Rightarrow> nat \<Rightarrow> bool" where
  "leftover st dir durable m \<longleftrightarrow> (\<exists>f k. file_at (segment_path dir m) st = Some f \<and> fi_data f = take k (header_bytes m) \<and>
     fi_synced f \<le> length (fi_data f) \<and> (durable \<longrightarrow> synced_file f \<and> fi_linked f))"

definition known_names :: "'z os_scheme \<Rightarrow> js_string \<Rightarrow> nat set \<Rightarrow> bool" where
  "known_names st dir ls \<longleftrightarrow> (\<forall>l < 10 ^ 20. file_at (segment_path dir l) st \<noteq> None \<longrightarrow> l \<in> ls)"

text \<open>After a crash (\<open>settled\<close>) what is left of an unfinished rotation is on stable storage too.\<close>

definition disk_log :: "bool \<Rightarrow> 'z os_scheme \<Rightarrow> js_string \<Rightarrow> bool \<Rightarrow> nat \<Rightarrow> log_entry list list \<Rightarrow> log_entry list \<Rightarrow> nat \<Rightarrow> nat \<Rightarrow> bool" where
  "disk_log settled st dir durable n0 gs ys n s \<longleftrightarrow>
     (let l = n0 + length (concat gs); m = l + length ys in
      distinct (map fst (os_files st)) \<and> log_ok n0 (concat gs @ ys) \<and> l < 2 ^ 64 \<and> sealed st dir durable n0 gs \<and>
      s \<le> n \<and> n \<le> length (log_bytes l ys) \<and> tail_segment st dir durable l ys n s \<and>
      (known_names st dir (set (starts n0 gs) \<union> {l}) \<or>
       known_names st dir (set (starts n0 gs) \<union> {l, m}) \<and> leftover st dir (durable \<and> settled) m \<and> ys \<noteq> [] \<and> m < 2 ^ 64 \<and>
         n = length (log_bytes l ys) \<and> s = n))"

lemma length_starts [simp]: "length (starts n gs) = length gs"
  by (induction gs arbitrary: n) simp_all

lemma starts_append: "starts n (gs @ hs) = starts n gs @ starts (n + length (concat gs)) hs"
  by (induction gs arbitrary: n) (simp_all add: add.assoc)

lemma starts_bounds: "x \<in> set (starts n gs) \<Longrightarrow> n \<le> x \<and> x \<le> n + length (concat gs)"
  by (induction gs arbitrary: n) (auto, fastforce+)

lemma starts_less: "x \<in> set (starts n gs) \<Longrightarrow> [] \<notin> set gs \<Longrightarrow> x < n + length (concat gs)"
proof (induction gs arbitrary: n)
  case (Cons g gs)
  then show ?case by (cases "x = n") (auto, fastforce)
qed simp

lemma starts_sorted: "[] \<notin> set gs \<Longrightarrow> sorted_wrt (<) (starts n gs @ [n + length (concat gs)])"
proof (induction gs arbitrary: n)
  case (Cons g gs)
  then have "0 < length g" by auto
  moreover have "sorted_wrt (<) (starts (n + length g) gs @ [n + length g + length (concat gs)])" using Cons by simp
  moreover have "n < x" if "x \<in> set (starts (n + length g) gs)" for x
    using starts_bounds[OF that] \<open>0 < length g\<close> by linarith
  ultimately show ?case by (simp add: add.assoc)
qed simp

lemma sealed_nonempty: "sealed st dir durable n gs \<Longrightarrow> [] \<notin> set gs"
  by (induction gs arbitrary: n) auto

section \<open>Files that stay as they are\<close>

definition unchanged :: "'z os_scheme \<Rightarrow> 'z os_scheme \<Rightarrow> bool" where
  "unchanged st st' \<longleftrightarrow> quiet st st' \<and> (\<forall>q. file_at q st' = file_at q st)"

lemma unchanged_refl [simp]: "unchanged st st" by (simp add: unchanged_def)

lemma unchanged_trans [trans]: "unchanged a b \<Longrightarrow> unchanged b c \<Longrightarrow> unchanged a c"
  by (auto simp: unchanged_def intro: quiet_trans)

lemma unchangedI: "(\<And>p. only_changes p st st') \<Longrightarrow> (\<And>q. file_at q st' = file_at q st) \<Longrightarrow> unchanged st st'"
  by (simp add: unchanged_def only_changes_def)

lemma unchanged_file: "unchanged st st' \<Longrightarrow> file_at q st' = file_at q st" by (cases q) (simp add: unchanged_def)

lemma unchanged_quiet: "unchanged st st' \<Longrightarrow> quiet st st'" by (simp add: unchanged_def)

lemma quiet_faults: "quiet st st' \<Longrightarrow> os_faults st = [] \<Longrightarrow> os_faults st' = []" by (simp add: quiet_def)

lemma sealed_cong:
  assumes "\<And>l. file_at (segment_path dir l) st' = file_at (segment_path dir l) st"
  shows "sealed st' dir durable n gs = sealed st dir durable n gs"
  using assms by (induction gs arbitrary: n) simp_all

lemma readSegment_run:
  assumes "readSegment p st = (r, st')" "file_at p st = Some f"
  shows "unchanged st st' \<and> (r = Inr (fi_data f) \<or> (\<exists>e. r = Inl e \<and> os_faults st \<noteq> []))"
proof -
  obtain r1 st1 where f: "readFileSync p st = (r1, st1)" by fastforce
  have "st' = st1" "r = (case r1 of Inl e \<Rightarrow> Inl (ioError e True) | Inr x \<Rightarrow> Inr x)"
    using assms(1) f by (auto simp: readSegment_def catchS_def throwS_def split: sum.splits)
  then show ?thesis using readFileSync_run[OF f assms(2)] unchangedI[of st st1] by auto
qed

lemma segment_name_parse: "l < 2 ^ 64 \<Longrightarrow> parse_lsn_name segment_suffix (lsn_name segment_suffix l) = Some l"
  by (rule parse_lsn_name) simp

text \<open>Whole segments are read one after the other.\<close>

lemma recover_sealed:
  assumes "sealed st dir durable n gs" "log_ok n (concat gs)" "names \<noteq> []" "n + length (concat gs) < 2 ^ 64"
    and "rv_segments acc = [] \<or> n = rv_lastLsn acc + 1"
    and "recover_loop dir (map (lsn_name segment_suffix) (starts n gs) @ names) acc st = (r, st')"
  shows "(\<exists>e. r = Inl e \<and> os_faults st \<noteq> [] \<and> unchanged st st') \<or>
    (\<exists>st1 acc'. unchanged st st1 \<and> recover_loop dir names acc' st1 = (r, st') \<and>
       rv_segments acc' = rv_segments acc @ map (segment_at dir) (starts n gs) \<and>
       (rv_segments acc' = [] \<or> n + length (concat gs) = rv_lastLsn acc' + 1))"
  using assms
proof (induction gs arbitrary: n acc st)
  case Nil
  then show ?case by (intro disjI2 exI[of _ st] exI[of _ acc]) simp
next
  case (Cons g gs)
  obtain f where f: "file_at (segment_path dir n) st = Some f" "fi_data f = header_bytes n @ log_bytes n g" "g \<noteq> []"
    using Cons.prems(1) by auto
  have ok: "log_ok n g" "log_ok (n + length g) (concat gs)" using Cons.prems(2) by (simp_all add: log_ok_append)
  have n: "n < 2 ^ 64" "0 < n" using Cons.prems(4) ok by (simp_all add: log_ok_def)
  obtain r1 st1 where rd: "readSegment (segment_path dir n) st = (r1, st1)" by fastforce
  note R = readSegment_run[OF rd f(1)]
  have whole: "whole (length (log_bytes n g)) g = length g"
    using whole_greatest[OF ok(1), of "length g" "length (log_bytes n g)"] whole_le[of "length (log_bytes n g)" g] by simp
  have scan: "scan_segment (fi_data f) SEGMENT_HEADER_SIZE n =
      (numbered n g, SEGMENT_HEADER_SIZE + length (log_bytes n g), n + length g, EndOfLog)"
    using scan_log[OF ok(1), of "length (log_bytes n g)" "header_bytes n"] n(1)
    by (simp add: f(2) length_header whole)
  let ?acc = "\<lparr>rv_segments = rv_segments acc @ [segment_at dir n],
      rv_validEnd = SEGMENT_HEADER_SIZE + length (log_bytes n g), rv_lastLsn = n + length g - 1\<rparr>"
  show ?case
  proof (cases r1)
    case (Inl e)
    then have "r = Inl e" "st' = st1" using Cons.prems(6) rd by (simp_all add: bindS_def segment_path_def)
    then show ?thesis using R Inl by auto
  next
    case (Inr bytes)
    then have b: "bytes = fi_data f" using R by auto
    have "recover_loop dir (map (lsn_name segment_suffix) (starts (n + length g) gs) @ names) ?acc st1 = (r, st')"
      using Cons.prems(3,5,6) rd Inr b scan decode_header[OF n(1), of "log_bytes n g"] segment_name_parse[OF n(1)]
      by (simp add: bindS_def segment_path_def f(2) segment_at_def split: if_splits)
    moreover have "sealed st1 dir durable (n + length g) gs" using Cons.prems(1) sealed_cong[of dir st1 st, OF unchanged_file] R by simp
    moreover have "n + length g = rv_lastLsn ?acc + 1" using n by simp
    ultimately have "(\<exists>e. r = Inl e \<and> os_faults st1 \<noteq> [] \<and> unchanged st1 st') \<or>
      (\<exists>st2 acc'. unchanged st1 st2 \<and> recover_loop dir names acc' st2 = (r, st') \<and>
         rv_segments acc' = rv_segments ?acc @ map (segment_at dir) (starts (n + length g) gs) \<and>
         (rv_segments acc' = [] \<or> n + length g + length (concat gs) = rv_lastLsn acc' + 1))"
      using Cons.IH[of st1 "n + length g" ?acc] ok(2) Cons.prems(3,4) by (simp add: add.assoc)
    then show ?thesis
    proof
      assume "\<exists>e. r = Inl e \<and> os_faults st1 \<noteq> [] \<and> unchanged st1 st'"
      then show ?thesis using R unchanged_trans quiet_faults unchanged_quiet by blast
    next
      assume "\<exists>st2 acc'. unchanged st1 st2 \<and> recover_loop dir names acc' st2 = (r, st') \<and>
         rv_segments acc' = rv_segments ?acc @ map (segment_at dir) (starts (n + length g) gs) \<and>
         (rv_segments acc' = [] \<or> n + length g + length (concat gs) = rv_lastLsn acc' + 1)"
      then obtain st2 acc' where "unchanged st1 st2" "recover_loop dir names acc' st2 = (r, st')"
        "rv_segments acc' = rv_segments ?acc @ map (segment_at dir) (starts (n + length g) gs)"
        "rv_segments acc' = [] \<or> n + length g + length (concat gs) = rv_lastLsn acc' + 1" by blast
      then show ?thesis using R unchanged_trans by (intro disjI2 exI[of _ st2] exI[of _ acc']) (auto simp: add.assoc)
    qed
  qed
qed

text \<open>The last segment is read up to its last whole record.\<close>

definition recovered_tail :: "js_string \<Rightarrow> recovered_segments \<Rightarrow> nat \<Rightarrow> log_entry list \<Rightarrow> nat \<Rightarrow> recovered_segments" where
  "recovered_tail dir acc l ys n = \<lparr>rv_segments = rv_segments acc @ [segment_at dir l],
     rv_validEnd = SEGMENT_HEADER_SIZE + length (log_bytes l (take (whole n ys) ys)), rv_lastLsn = l + whole n ys - 1\<rparr>"

lemma recover_tail:
  assumes "tail_segment st dir durable l ys n s" "log_ok l ys" "n \<le> length (log_bytes l ys)" "l < 2 ^ 64"
    and "names \<noteq> [] \<Longrightarrow> n = length (log_bytes l ys)" "rv_segments acc = [] \<or> l = rv_lastLsn acc + 1"
    and "recover_loop dir (lsn_name segment_suffix l # names) acc st = (r, st')"
  shows "(\<exists>e. r = Inl e \<and> os_faults st \<noteq> [] \<and> unchanged st st') \<or>
    (\<exists>st1. unchanged st st1 \<and> recover_loop dir names (recovered_tail dir acc l ys n) st1 = (r, st'))"
proof -
  obtain f where f: "file_at (segment_path dir l) st = Some f" "fi_data f = header_bytes l @ take n (log_bytes l ys)"
    using assms(1) by (auto simp: tail_segment_def)
  obtain r1 st1 where rd: "readSegment (segment_path dir l) st = (r1, st1)" by fastforce
  note R = readSegment_run[OF rd f(1)]
  let ?k = "whole n ys"
  have scan: "scan_segment (fi_data f) SEGMENT_HEADER_SIZE l = (numbered l (take ?k ys),
      SEGMENT_HEADER_SIZE + length (log_bytes l (take ?k ys)), l + ?k, if length (log_bytes l (take ?k ys)) = n then EndOfLog else Torn)"
    using scan_log[OF assms(2,3), of "header_bytes l"] assms(4) by (simp add: f(2) length_header)
  have stop: "length (log_bytes l (take ?k ys)) = n" if "names \<noteq> []"
    using assms(5)[OF that] whole_greatest[OF assms(2), of "length ys" n] whole_le[of n ys] by simp
  show ?thesis
  proof (cases r1)
    case (Inl e)
    then have "r = Inl e" "st' = st1" using assms(7) rd by (simp_all add: bindS_def segment_path_def)
    then show ?thesis using R Inl by auto
  next
    case (Inr bytes)
    then have b: "bytes = fi_data f" using R by auto
    have "recover_loop dir names (recovered_tail dir acc l ys n) st1 = (r, st')"
      using assms(6,7) rd Inr b scan stop decode_header[OF assms(4), of "take n (log_bytes l ys)"] segment_name_parse[OF assms(4)]
      by (auto simp: bindS_def segment_path_def f(2) segment_at_def recovered_tail_def split: if_splits)
    then show ?thesis using R by blast
  qed
qed

text \<open>The beginning of a header is removed.\<close>

lemma recover_incomplete:
  assumes "file_at (segment_path dir m) st = Some f" "fi_data f = take k (header_bytes m)" "length (fi_data f) < SEGMENT_HEADER_SIZE"
    and "recover_loop dir [lsn_name segment_suffix m] acc st = (r, st')"
  shows "relinks_but (segment_path dir m) st st' \<and>
    ((\<exists>e. r = Inl e \<and> os_faults st \<noteq> []) \<or> r = Inr acc \<and> file_at (segment_path dir m) st' = None)"
proof -
  let ?p = "segment_path dir m"
  obtain r1 st1 where rd: "readSegment ?p st = (r1, st1)" by fastforce
  note R = readSegment_run[OF rd assms(1)]
  have rb1: "relinks_but ?p st st1" using R by (simp add: unchanged_def only_changes_relinks_but only_changes_def)
  show ?thesis
  proof (cases r1)
    case (Inl e)
    then have "r = Inl e" "st' = st1" using assms(4) rd by (simp_all add: bindS_def segment_path_def)
    then show ?thesis using R Inl rb1 by auto
  next
    case (Inr bytes)
    then have b: "bytes = fi_data f" using R by auto
    have "decodeSegmentHeader bytes = None" "isIncompleteHeader bytes"
      using assms(3) by (simp_all add: b decodeSegmentHeader_def isIncompleteHeader_def)
    then have body: "bindS (unlinkSync ?p) (\<lambda>_. bindS (syncDirectory dir) (\<lambda>_. returnS acc)) st1 = (r, st')"
      using assms(4) rd Inr by (simp add: bindS_def segment_path_def)
    obtain r2 st2 where u: "unlinkSync ?p st1 = (r2, st2)" by fastforce
    have "file_at ?p st1 \<noteq> None" using unchanged_file[of st st1 ?p] R assms(1) by simp
    from u this show ?thesis
    proof (cases rule: unlinkSync_run)
      case (fails c)
      then have "r = Inl (OsFailure c)" "st' = st2" using body u by (simp_all add: bindS_def)
      moreover have "os_faults st \<noteq> []" using fails(2) R quiet_faults[of st st1] unchanged_quiet by fastforce
      ultimately show ?thesis using relinks_but_trans[OF rb1 only_changes_relinks_but[OF fails(3)]] by auto
    next
      case removed
      obtain r3 st3 where d: "syncDirectory dir st2 = (r3, st3)" by fastforce
      note D = syncDirectory_run[OF d]
      have r: "st' = st3" "r = (case r3 of Inl e \<Rightarrow> Inl e | Inr _ \<Rightarrow> Inr acc)"
        using body u removed(1) d by (auto simp: bindS_def returnS_def split: sum.splits)
      have rb: "relinks_but ?p st st3"
        using relinks_but_trans[OF relinks_but_trans[OF rb1 only_changes_relinks_but[OF removed(2)]] relinks_relinks_but] D by blast
      have "os_faults st \<noteq> []" if "r3 = Inl e" for e
      proof -
        have "quiet st st2" using R removed(2) by (meson unchanged_quiet only_changes_def quiet_trans)
        then show ?thesis using D that quiet_faults[of st st2] by auto
      qed
      moreover have "file_at ?p st3 = None" using relinks_None[of st2 st3] D removed(3) by blast
      ultimately show ?thesis using r rb by (auto split: sum.splits)
    qed
  qed
qed

section \<open>Recovery\<close>

lemma segment_path_inj: "a < 2 ^ 64 \<Longrightarrow> b < 2 ^ 64 \<Longrightarrow> segment_path dir a = segment_path dir b \<Longrightarrow> a = b"
  unfolding segment_path_def by (metis Pair_inject option.inject segment_name_parse)

lemma sealed_mono:
  assumes "sealed st dir durable n gs"
    and "\<And>x f. x \<in> set (starts n gs) \<Longrightarrow> file_at (segment_path dir x) st = Some f \<Longrightarrow>
      \<exists>f'. file_at (segment_path dir x) st' = Some f' \<and> relinked f f'"
  shows "sealed st' dir durable n gs"
  using assms
proof (induction gs arbitrary: n)
  case (Cons g gs)
  obtain f where f: "file_at (segment_path dir n) st = Some f" "fi_data f = header_bytes n @ log_bytes n g"
      "fi_synced f \<le> length (fi_data f)" "durable \<longrightarrow> synced_file f \<and> fi_linked f" "g \<noteq> []"
    using Cons.prems(1) by auto
  obtain f' where f': "file_at (segment_path dir n) st' = Some f'" "relinked f f'" using Cons.prems(2)[OF _ f(1)] by auto
  have "sealed st' dir durable (n + length g) gs" using Cons by simp
  then show ?case using f f' relinkedD[OF f'(2)] by (simp add: synced_file_def)
qed simp

lemma tail_mono:
  assumes "tail_segment st dir durable l ys n s"
    and "\<And>f. file_at (segment_path dir l) st = Some f \<Longrightarrow> \<exists>f'. file_at (segment_path dir l) st' = Some f' \<and> relinked f f'"
  shows "tail_segment st' dir durable l ys n s"
proof -
  obtain f where f: "file_at (segment_path dir l) st = Some f" "fi_data f = header_bytes l @ take n (log_bytes l ys)"
     "fi_synced f \<le> length (fi_data f)" "durable \<longrightarrow> fi_linked f \<and> SEGMENT_HEADER_SIZE + s \<le> fi_synced f"
    using assms(1) by (auto simp: tail_segment_def)
  obtain f' where f': "file_at (segment_path dir l) st' = Some f'" "relinked f f'" using assms(2)[OF f(1)] by auto
  show ?thesis unfolding tail_segment_def using f f'(1) relinkedD[OF f'(2)] by auto
qed

lemma sealed_unchanged: "unchanged st st' \<Longrightarrow> sealed st dir durable n gs \<Longrightarrow> sealed st' dir durable n gs"
  by (erule sealed_mono) (auto simp: unchanged_file)

lemma tail_unchanged: "unchanged st st' \<Longrightarrow> tail_segment st dir durable l ys n s \<Longrightarrow> tail_segment st' dir durable l ys n s"
  by (erule tail_mono) (auto simp: unchanged_file)

lemma sealed_files: "sealed st dir durable n gs \<Longrightarrow> x \<in> set (starts n gs) \<Longrightarrow> file_at (segment_path dir x) st \<noteq> None"
  by (induction gs arbitrary: n) auto

lemma listed_segments:
  assumes "distinct names" "\<And>x. x \<in> set names \<longleftrightarrow> file_at (dir, x) st \<noteq> None"
    and "known_names st dir (set lsns)" "\<forall>x \<in> set lsns. x < 2 ^ 64 \<and> file_at (segment_path dir x) st \<noteq> None" "sorted_wrt (<) lsns"
  shows "sort_by compare_names (filter (\<lambda>x. parse_lsn_name segment_suffix x \<noteq> None) names) = map (lsn_name segment_suffix) lsns"
proof (rule sort_lsn_names)
  show "set (filter (\<lambda>x. parse_lsn_name segment_suffix x \<noteq> None) names) = lsn_name segment_suffix ` set lsns"
  proof (intro set_eqI iffI)
    fix x
    assume "x \<in> set (filter (\<lambda>x. parse_lsn_name segment_suffix x \<noteq> None) names)"
    then obtain y where y: "parse_lsn_name segment_suffix x = Some y" "file_at (dir, x) st \<noteq> None" using assms(2) by auto
    then show "x \<in> lsn_name segment_suffix ` set lsns"
      using parse_lsn_name_Some[OF y(1)] assms(3) by (auto simp: known_names_def segment_path_def)
  next
    fix x
    assume "x \<in> lsn_name segment_suffix ` set lsns"
    then obtain y where y: "x = lsn_name segment_suffix y" "y \<in> set lsns" by blast
    then have "parse_lsn_name segment_suffix x = Some y" "file_at (dir, x) st \<noteq> None"
      using assms(4) segment_name_parse by (auto simp: segment_path_def)
    then show "x \<in> set (filter (\<lambda>x. parse_lsn_name segment_suffix x \<noteq> None) names)" using assms(2) by simp
  qed
qed (use assms in \<open>auto intro: less_trans\<close>)

lemma readdir_names:
  assumes "recoverSegments dir st = (r, st')" "distinct (map fst (os_files st))"
    and "known_names st dir (set lsns)" "\<forall>x \<in> set lsns. x < 2 ^ 64 \<and> file_at (segment_path dir x) st \<noteq> None" "sorted_wrt (<) lsns"
  shows "(\<exists>e. r = Inl e \<and> os_faults st \<noteq> []) \<or>
    (\<exists>st1. unchanged st st1 \<and> recover_loop dir (map (lsn_name segment_suffix) lsns) nothing_recovered st1 = (r, st'))"
proof -
  obtain r1 st1 where rd: "readdirSync dir st = (r1, st1)" by fastforce
  note R = readdirSync_run[OF rd assms(2)]
  have u: "unchanged st st1" using unchangedI R(1,2) by blast
  show ?thesis
  proof (cases r1)
    case (Inl e)
    then have "r = Inl (ioError e True)" using assms(1) rd by (simp add: recoverSegments_def bindS_def catchS_def throwS_def)
    then show ?thesis using R(3) Inl by auto
  next
    case (Inr names)
    then have n: "distinct names" "\<And>x. x \<in> set names \<longleftrightarrow> file_at (dir, x) st \<noteq> None" using R(3) by auto
    have "recover_loop dir (map (lsn_name segment_suffix) lsns) nothing_recovered st1 = (r, st')"
      using assms(1) rd Inr listed_segments[OF n assms(3-5)] by (simp add: recoverSegments_def bindS_def catchS_def)
    then show ?thesis using u by blast
  qed
qed

definition log_end :: "nat \<Rightarrow> log_entry list list \<Rightarrow> nat" where
  "log_end n gs = n + length (concat gs)"

text \<open>The disk without an unfinished rotation.\<close>

definition clean_log :: "'z os_scheme \<Rightarrow> js_string \<Rightarrow> bool \<Rightarrow> nat \<Rightarrow> log_entry list list \<Rightarrow> log_entry list \<Rightarrow> nat \<Rightarrow> nat \<Rightarrow> bool" where
  "clean_log st dir durable n0 gs ys n s \<longleftrightarrow>
     distinct (map fst (os_files st)) \<and> log_ok n0 (concat gs @ ys) \<and> log_end n0 gs < 2 ^ 64 \<and> sealed st dir durable n0 gs \<and>
     s \<le> n \<and> n \<le> length (log_bytes (log_end n0 gs) ys) \<and> tail_segment st dir durable (log_end n0 gs) ys n s \<and>
     known_names st dir (set (starts n0 gs) \<union> {log_end n0 gs})"

lemma disk_log_cases:
  "disk_log settled st dir durable n0 gs ys n s \<longleftrightarrow> clean_log st dir durable n0 gs ys n s \<or>
     (distinct (map fst (os_files st)) \<and> log_ok n0 (concat gs @ ys) \<and> sealed st dir durable n0 gs \<and>
      n = length (log_bytes (log_end n0 gs) ys) \<and> s = n \<and> tail_segment st dir durable (log_end n0 gs) ys n n \<and>
      known_names st dir (set (starts n0 gs) \<union> {log_end n0 gs, log_end n0 gs + length ys}) \<and>
      leftover st dir (durable \<and> settled) (log_end n0 gs + length ys) \<and> ys \<noteq> [] \<and> log_end n0 gs + length ys < 2 ^ 64)"
  unfolding disk_log_def clean_log_def log_end_def Let_def by auto

lemma clean_log_relinks:
  assumes "clean_log st dir durable n0 gs ys n s" "quiet st st'"
    and "\<And>x f. x \<in> set (starts n0 gs) \<union> {log_end n0 gs} \<Longrightarrow> file_at (segment_path dir x) st = Some f \<Longrightarrow>
      \<exists>f'. file_at (segment_path dir x) st' = Some f' \<and> relinked f f'"
    and "known_names st' dir (set (starts n0 gs) \<union> {log_end n0 gs})"
  shows "clean_log st' dir durable n0 gs ys n s"
  using assms unfolding clean_log_def
  by (auto simp: quiet_def intro: sealed_mono tail_mono)

lemma known_names_unchanged: "unchanged st st' \<Longrightarrow> known_names st' dir ls = known_names st dir ls"
  by (simp add: known_names_def unchanged_file)

lemma clean_log_unchanged:
  assumes "unchanged st st'" "clean_log st dir durable n0 gs ys n s"
  shows "clean_log st' dir durable n0 gs ys n s"
proof (rule clean_log_relinks[OF assms(2)])
  show "known_names st' dir (set (starts n0 gs) \<union> {log_end n0 gs})"
    using assms by (simp add: clean_log_def known_names_unchanged)
qed (auto simp: unchanged_file[OF assms(1)] unchanged_quiet[OF assms(1)])

lemma segments_below:
  assumes "sealed st dir durable n0 gs" "x \<in> set (starts n0 gs) \<union> {log_end n0 gs}"
  shows "x \<le> log_end n0 gs"
  using assms starts_less[of x n0 gs] sealed_nonempty[OF assms(1)] by (auto simp: log_end_def)

text \<open>The result of a scan that ends with the segment starting at \<open>log_end n0 gs\<close>.\<close>

definition recovered_at :: "js_string \<Rightarrow> nat \<Rightarrow> log_entry list list \<Rightarrow> log_entry list \<Rightarrow> nat \<Rightarrow> recovered_segments" where
  "recovered_at dir n0 gs ys n = recovered_tail dir
     \<lparr>rv_segments = map (segment_at dir) (starts n0 gs), rv_validEnd = 0, rv_lastLsn = 0\<rparr> (log_end n0 gs) ys n"

lemma recovered_at_eq:
  "rv_segments acc = map (segment_at dir) (starts n0 gs) \<Longrightarrow> recovered_tail dir acc (log_end n0 gs) ys n = recovered_at dir n0 gs ys n"
  by (simp add: recovered_at_def recovered_tail_def)

text \<open>All segments up to the last one with records.\<close>

lemma recover_segments:
  assumes "sealed st dir durable n0 gs" "log_ok n0 (concat gs @ ys)" "log_end n0 gs < 2 ^ 64"
    and "tail_segment st dir durable (log_end n0 gs) ys n s" "n \<le> length (log_bytes (log_end n0 gs) ys)"
    and "names \<noteq> [] \<Longrightarrow> n = length (log_bytes (log_end n0 gs) ys)"
    and "recover_loop dir (map (lsn_name segment_suffix) (starts n0 gs) @ lsn_name segment_suffix (log_end n0 gs) # names)
      nothing_recovered st = (r, st')"
  shows "(\<exists>e. r = Inl e \<and> os_faults st \<noteq> []) \<or>
    (\<exists>st1. unchanged st st1 \<and> recover_loop dir names (recovered_at dir n0 gs ys n) st1 = (r, st'))"
proof -
  have ok: "log_ok n0 (concat gs)" "log_ok (log_end n0 gs) ys" using assms(2) by (simp_all add: log_ok_append log_end_def)
  have "rv_segments nothing_recovered = []" by (simp add: nothing_recovered_def)
  then consider e where "r = Inl e" "os_faults st \<noteq> []"
    | st1 acc where "unchanged st st1" "recover_loop dir (lsn_name segment_suffix (log_end n0 gs) # names) acc st1 = (r, st')"
        "rv_segments acc = map (segment_at dir) (starts n0 gs)" "rv_segments acc = [] \<or> log_end n0 gs = rv_lastLsn acc + 1"
    using recover_sealed[OF assms(1) ok(1) _ _ _ assms(7)] assms(3) by (auto simp: log_end_def)
  then show ?thesis
  proof cases
    case 2
    have "tail_segment st1 dir durable (log_end n0 gs) ys n s"
      by (rule tail_unchanged[OF 2(1) assms(4)])
    from recover_tail[OF this ok(2) assms(5,3,6) 2(4,2)] show ?thesis
      using recovered_at_eq[OF 2(3)] quiet_faults[OF unchanged_quiet[OF 2(1)]] unchanged_trans[OF 2(1)] by auto
  qed blast
qed

lemma recover_clean:
  assumes "clean_log st dir durable n0 gs ys n s" "recoverSegments dir st = (r, st')"
  shows "(\<exists>e. r = Inl e \<and> os_faults st \<noteq> []) \<or> r = Inr (recovered_at dir n0 gs ys n) \<and> unchanged st st'"
proof -
  let ?lsns = "starts n0 gs @ [log_end n0 gs]"
  have c: "distinct (map fst (os_files st))" "log_ok n0 (concat gs @ ys)" "log_end n0 gs < 2 ^ 64" "sealed st dir durable n0 gs"
      "n \<le> length (log_bytes (log_end n0 gs) ys)" "tail_segment st dir durable (log_end n0 gs) ys n s"
      "known_names st dir (set ?lsns)"
    using assms(1) by (simp_all add: clean_log_def)
  have "\<forall>x \<in> set ?lsns. x < 2 ^ 64 \<and> file_at (segment_path dir x) st \<noteq> None"
    using segments_below[OF c(4)] sealed_files[OF c(4)] c(3,6) by (fastforce simp: tail_segment_def)
  moreover have "sorted_wrt (<) ?lsns" using starts_sorted[of gs n0] sealed_nonempty[OF c(4)] by (simp add: log_end_def)
  ultimately consider e where "r = Inl e" "os_faults st \<noteq> []"
    | st1 where "unchanged st st1" "recover_loop dir (map (lsn_name segment_suffix) ?lsns) nothing_recovered st1 = (r, st')"
    using readdir_names[OF assms(2) c(1,7)] by blast
  then show ?thesis
  proof cases
    case 2
    have s: "sealed st1 dir durable n0 gs" "tail_segment st1 dir durable (log_end n0 gs) ys n s"
      using sealed_unchanged[OF 2(1) c(4)] tail_unchanged[OF 2(1) c(6)] by simp_all
    have "recover_loop dir (map (lsn_name segment_suffix) (starts n0 gs) @ [lsn_name segment_suffix (log_end n0 gs)])
        nothing_recovered st1 = (r, st')" using 2(2) by simp
    from recover_segments[OF s(1) c(2,3) s(2) c(5) _ this] show ?thesis
      using quiet_faults[OF unchanged_quiet[OF 2(1)]] unchanged_trans[OF 2(1)] by (auto simp: returnS_def)
  qed blast
qed

lemma sealed_snoc:
  "sealed st dir durable n (gs @ [g]) \<longleftrightarrow> sealed st dir durable n gs \<and> sealed st dir durable (log_end n gs) [g]"
  by (induction gs arbitrary: n) (auto simp: log_end_def add.assoc)

lemma log_end_snoc: "log_end n (gs @ [g]) = log_end n gs + length g"
  by (simp add: log_end_def)

text \<open>A tail that is all there and stable is a whole segment.\<close>

lemma sealed_tail:
  assumes "tail_segment st dir durable l ys (length (log_bytes l ys)) (length (log_bytes l ys))" "ys \<noteq> []" "l < 2 ^ 64"
  shows "sealed st dir durable l [ys]"
  using assms by (auto simp: tail_segment_def synced_file_def length_header)

lemma recover_unfinished:
  assumes "distinct (map fst (os_files st))" "log_ok n0 (concat gs @ ys)" "sealed st dir durable n0 gs"
    and "n = length (log_bytes (log_end n0 gs) ys)" "tail_segment st dir durable (log_end n0 gs) ys n n"
    and "known_names st dir (set (starts n0 gs) \<union> {log_end n0 gs, log_end n0 gs + length ys})"
    and "leftover st dir durable (log_end n0 gs + length ys)" "ys \<noteq> []" "log_end n0 gs + length ys < 2 ^ 64"
    and "recoverSegments dir st = (r, st')"
  shows "(\<exists>e. r = Inl e \<and> os_faults st \<noteq> []) \<or>
    r = Inr (recovered_at dir n0 gs ys n) \<and> quiet st st' \<and> clean_log st' dir durable n0 gs ys n n \<or>
    r = Inr (recovered_at dir n0 (gs @ [ys]) [] 0) \<and> quiet st st' \<and> clean_log st' dir durable n0 (gs @ [ys]) [] 0 0"
proof -
  let ?l = "log_end n0 gs" and ?m = "log_end n0 gs + length ys"
  let ?lsns = "starts n0 gs @ [?l, ?m]"
  have l: "?l < 2 ^ 64" using assms(9) by simp
  have below: "x \<le> ?l" if "x \<in> set (starts n0 gs) \<union> {?l}" for x using segments_below[OF assms(3) that] .
  have neq: "segment_path dir x \<noteq> segment_path dir ?m" if "x \<in> set (starts n0 gs) \<union> {?l}" for x
    using segment_path_inj[of x ?m dir] below[OF that] l assms(8,9) by (auto simp: not_le)
  obtain f k where f: "file_at (segment_path dir ?m) st = Some f" "fi_data f = take k (header_bytes ?m)"
      "fi_synced f \<le> length (fi_data f)" "durable \<longrightarrow> synced_file f \<and> fi_linked f"
    using assms(7) by (auto simp: leftover_def)
  have "\<forall>x \<in> set ?lsns. x < 2 ^ 64 \<and> file_at (segment_path dir x) st \<noteq> None"
    using below sealed_files[OF assms(3)] l assms(5,9) f(1) by (fastforce simp: tail_segment_def)
  moreover have "sorted_wrt (<) ?lsns"
    using starts_sorted[of "gs @ [ys]" n0] sealed_nonempty[OF assms(3)] assms(8) by (simp add: starts_append log_end_def add.assoc)
  moreover have "known_names st dir (set ?lsns)" using assms(6) by (simp add: insert_commute)
  ultimately consider e where "r = Inl e" "os_faults st \<noteq> []"
    | st1 where "unchanged st st1" "recover_loop dir (map (lsn_name segment_suffix) ?lsns) nothing_recovered st1 = (r, st')"
    using readdir_names[OF assms(10,1)] by blast
  then show ?thesis
  proof cases
    case 2
    have "recover_loop dir (map (lsn_name segment_suffix) (starts n0 gs) @ lsn_name segment_suffix ?l # [lsn_name segment_suffix ?m])
        nothing_recovered st1 = (r, st')" using 2(2) by simp
    from recover_segments[OF sealed_unchanged[OF 2(1) assms(3)] assms(2) l tail_unchanged[OF 2(1) assms(5)] _ _ this]
    consider e where "r = Inl e" "os_faults st \<noteq> []"
      | st2 where "unchanged st st2" "recover_loop dir [lsn_name segment_suffix ?m] (recovered_at dir n0 gs ys n) st2 = (r, st')"
      using assms(4) quiet_faults[OF unchanged_quiet[OF 2(1)]] unchanged_trans[OF 2(1)] by blast
    then show ?thesis
    proof cases
      case 2
      have f2: "file_at (segment_path dir ?m) st2 = Some f" using f(1) unchanged_file[OF 2(1)] by simp
      have d2: "distinct (map fst (os_files st2))" using unchanged_quiet[OF 2(1)] assms(1) by (simp add: quiet_def)
      have s2: "sealed st2 dir durable n0 gs" "tail_segment st2 dir durable ?l ys n n"
        using sealed_unchanged[OF 2(1) assms(3)] tail_unchanged[OF 2(1) assms(5)] .
      show ?thesis
      proof (cases "length (fi_data f) < SEGMENT_HEADER_SIZE")
        case True
        note R = recover_incomplete[OF f2 f(2) True 2(2)]
        have q: "quiet st st'" using quiet_trans[OF unchanged_quiet[OF 2(1)] relinks_but_quiet] R by blast
        show ?thesis
        proof (cases "r = Inr (recovered_at dir n0 gs ys n)")
          case r: True
          have keep: "\<exists>f'. file_at (segment_path dir x) st' = Some f' \<and> relinked g f'"
            if "x \<in> set (starts n0 gs) \<union> {?l}" "file_at (segment_path dir x) st2 = Some g" for x g
            using relinks_but_Some[OF _ neq[OF that(1)] that(2)] R by blast
          have gone: "file_at (segment_path dir ?m) st' = None" using R r by auto
          have "known_names st' dir (set (starts n0 gs) \<union> {?l})"
            unfolding known_names_def
          proof (intro allI impI)
            fix x :: nat
            assume x: "x < 10 ^ 20" "file_at (segment_path dir x) st' \<noteq> None"
            then have "segment_path dir x \<noteq> segment_path dir ?m" using gone by auto
            then have "x \<noteq> ?m" by auto
            moreover have "file_at (segment_path dir x) st \<noteq> None"
              using x(2) relinks_but_None[OF _ \<open>segment_path dir x \<noteq> segment_path dir ?m\<close>] R unchanged_file[OF 2(1)] by metis
            ultimately show "x \<in> set (starts n0 gs) \<union> {?l}" using assms(6) x(1) by (auto simp: known_names_def)
          qed
          moreover have "sealed st' dir durable n0 gs" by (rule sealed_mono[OF s2(1)]) (rule keep, auto)
          moreover have "tail_segment st' dir durable ?l ys n n" by (rule tail_mono[OF s2(2)]) (rule keep, auto)
          ultimately have "clean_log st' dir durable n0 gs ys n n"
            using q assms(1,2,4) l by (simp add: clean_log_def quiet_def)
          then show ?thesis using r q by blast
        next
          case False
          then show ?thesis using R quiet_faults[OF unchanged_quiet[OF 2(1)]] by auto
        qed
      next
        case False
        then have h: "fi_data f = header_bytes ?m" using f(2) length_header[OF assms(9)] by simp
        have t: "tail_segment st2 dir durable (log_end n0 (gs @ [ys])) [] 0 0"
          using f2 f(3,4) h length_header[OF assms(9)] by (simp add: tail_segment_def log_end_snoc synced_file_def)
        have ok: "log_ok ?m []" using assms(2,9) by (simp add: log_ok_def log_end_def)
        have "rv_segments (recovered_at dir n0 gs ys n) = map (segment_at dir) (starts n0 (gs @ [ys]))"
          by (simp add: recovered_at_def recovered_tail_def starts_append log_end_def)
        moreover have "?m = rv_lastLsn (recovered_at dir n0 gs ys n) + 1"
          using whole_greatest[of ?l ys "length ys" n] whole_le[of n ys] assms(2,4) 
          by (simp add: recovered_at_def recovered_tail_def log_ok_append log_end_def) (simp add: log_ok_def)
        ultimately consider e where "r = Inl e" "os_faults st2 \<noteq> []"
          | "unchanged st2 st'" "r = Inr (recovered_at dir n0 (gs @ [ys]) [] 0)"
          using recover_tail[OF t[unfolded log_end_snoc] ok _ assms(9), of "[]", OF _ _ _ 2(2)] recovered_at_eq[of _ dir n0 "gs @ [ys]" "[]" 0]
          by (auto simp: returnS_def log_end_snoc)
        then show ?thesis
        proof cases
          case 1
          then show ?thesis using quiet_faults[OF unchanged_quiet[OF 2(1)]] by blast
        next
          case r: 2
          note u = unchanged_trans[OF 2(1) r(1)]
          have "sealed st' dir durable n0 (gs @ [ys])"
            using sealed_unchanged[OF r(1) s2(1)] sealed_tail[OF tail_unchanged[OF r(1) s2(2)[unfolded assms(4)]] assms(8) l]
            by (simp add: sealed_snoc)
          moreover have "known_names st' dir (set (starts n0 (gs @ [ys])) \<union> {log_end n0 (gs @ [ys])})"
            using assms(6) by (simp add: known_names_unchanged[OF u] starts_append log_end_def insert_commute add.assoc)
          ultimately have "clean_log st' dir durable n0 (gs @ [ys]) [] 0 0"
            using unchanged_quiet[OF u] assms(1,2,9) tail_unchanged[OF r(1) t] by (simp add: clean_log_def quiet_def log_end_snoc)
          then show ?thesis using r(2) unchanged_quiet[OF u] by blast
        qed
      qed
    qed blast
  qed blast
qed

end
