(* ===== verification/Checkpoint_Proofs.thy ===== *)
theory Checkpoint_Proofs
  imports Checkpoint Wal_Recovery
begin

text \<open>
  A snapshot that was written is read back as it was, however the writes were cut, and it is on
  stable storage before it gets its name.
\<close>

section \<open>The bytes of a snapshot\<close>

definition document_bytes :: "js_string \<times> bytes \<Rightarrow> failure + bytes" where
  "document_bytes kd = bindR (document_entry (fst kd) (snd kd)) (\<lambda>e. Inr (e @ snd kd))"

definition collection_bytes :: "checkpoint_collection \<Rightarrow> failure + bytes" where
  "collection_bytes c =
     bindR (encodeName (cc_database c)) (\<lambda>d. bindR (encodeName (cc_collection c)) (\<lambda>n.
     bindR (writeUint16BE (length (cc_indexes c))) (\<lambda>k. bindR (mapR encodeIndexSpec (cc_indexes c)) (\<lambda>is.
     bindR (writeUInt32BE (cc_documentCount c)) (\<lambda>m. bindR (mapR document_bytes (cc_documents c)) (\<lambda>ds.
       Inr (d @ n @ k @ concat is @ m @ concat ds)))))))"

definition snapshot_content :: "nat \<Rightarrow> checkpoint_collection list \<Rightarrow> failure + bytes" where
  "snapshot_content lsn cs =
     bindR (snapshot_header lsn (length cs)) (\<lambda>h. bindR (mapR collection_bytes cs) (\<lambda>es. Inr (h @ concat es)))"

definition snapshot_file :: "bytes \<Rightarrow> bytes" where
  "snapshot_file content = content @ be_bytes 4 (crc32 content) @ END_MAGIC"

section \<open>Writing\<close>

text \<open>The file holds \<open>W\<close>, whose checksum the writer carries along.\<close>

definition writer_at :: "path \<Rightarrow> bytes \<Rightarrow> snapshot_writer \<Rightarrow> 'z os_scheme \<Rightarrow> bool" where
  "writer_at fd W w st \<longleftrightarrow> (\<exists>f. file_at fd st = Some f \<and> fi_data f = W \<and> fi_synced f \<le> length W) \<and> sw_position w = length W \<and>
     sw_checksum w = crc32_from W 0 \<and> sw_pendingBytes w = length (concat (sw_pending w))"

text \<open>A step of the writer adds the bytes \<open>e\<close>, whether or not it writes some of them.\<close>

definition adds :: "path \<Rightarrow> (snapshot_writer \<Rightarrow> ('z os_scheme, snapshot_writer) operation) \<Rightarrow> bytes \<Rightarrow> bool" where
  "adds fd m e \<longleftrightarrow> (\<forall>W w st w' st'. writer_at fd W w st \<and> m w st = (Inr w', st') \<longrightarrow> only_changes fd st st' \<and>
     (\<exists>W'. writer_at fd W' w' st' \<and> W' @ concat (sw_pending w') = W @ concat (sw_pending w) @ e))"

lemma addsD:
  assumes "adds fd m e" "writer_at fd W w st" "m w st = (Inr w', st')"
  obtains W' where "only_changes fd st st'" "writer_at fd W' w' st'" "W' @ concat (sw_pending w') = W @ concat (sw_pending w) @ e"
  using assms unfolding adds_def by blast

lemma bindS_Inr: "bindS m f s = (Inr y, s') \<longleftrightarrow> (\<exists>x s1. m s = (Inr x, s1) \<and> f x s1 = (Inr y, s'))"
  by (auto simp: bindS_def split: prod.splits sum.splits)

lemma adds_bind:
  assumes "adds fd m e" "adds fd m' e'"
  shows "adds fd (\<lambda>w. bindS (m w) m') (e @ e')"
  unfolding adds_def
proof (intro allI impI)
  fix W w st w' st'
  assume a: "writer_at fd W w st \<and> bindS (m w) m' st = (Inr w', st')"
  then obtain w1 st1 where b: "m w st = (Inr w1, st1)" "m' w1 st1 = (Inr w', st')" unfolding bindS_Inr by blast
  obtain W1 where c: "only_changes fd st st1" "writer_at fd W1 w1 st1" "W1 @ concat (sw_pending w1) = W @ concat (sw_pending w) @ e"
    using addsD[OF assms(1) conjunct1[OF a] b(1)] by blast
  obtain W2 where d: "only_changes fd st1 st'" "writer_at fd W2 w' st'" "W2 @ concat (sw_pending w') = W1 @ concat (sw_pending w1) @ e'"
    using addsD[OF assms(2) c(2) b(2)] by blast
  have "W2 @ concat (sw_pending w') = W @ concat (sw_pending w) @ e @ e'" using c(3) d(3) by (metis append_assoc)
  then show "only_changes fd st st' \<and> (\<exists>W'. writer_at fd W' w' st' \<and> W' @ concat (sw_pending w') = W @ concat (sw_pending w) @ e @ e')"
    using only_changes_trans[OF c(1) d(1)] d(2) by blast
qed

lemma adds_return: "adds fd returnS []"
  by (auto simp: adds_def returnS_def)

lemma adds_sw_add: "adds fd (\<lambda>w. returnS (sw_add e w)) e"
  by (auto simp: adds_def returnS_def sw_add_def writer_at_def)

lemma bindS_return [simp]: "bindS (returnS x) f = f x"
  by (rule ext) (simp add: bindS_def returnS_def)

lemma adds_if:
  assumes "adds fd m e" "adds fd m' e"
  shows "adds fd (\<lambda>w. if P w then m w else m' w) e"
  unfolding adds_def
proof (intro allI impI)
  fix W w st w' st'
  assume "writer_at fd W w st \<and> (if P w then m w else m' w) st = (Inr w', st')"
  then have a: "writer_at fd W w st" "m w st = (Inr w', st') \<or> m' w st = (Inr w', st')" by (auto split: if_splits)
  from a(2) obtain W' where "only_changes fd st st'" "writer_at fd W' w' st'" "W' @ concat (sw_pending w') = W @ concat (sw_pending w) @ e"
    by (elim disjE) (rule addsD[OF assms(1) a(1)], assumption+, rule addsD[OF assms(2) a(1)], assumption+)
  then show "only_changes fd st st' \<and> (\<exists>W'. writer_at fd W' w' st' \<and> W' @ concat (sw_pending w') = W @ concat (sw_pending w) @ e)"
    by blast
qed

lemma adds_flush: "adds fd (sw_flush fd) []"
  unfolding adds_def
proof (intro allI impI)
  fix W w w' and st st' :: "'z os_scheme"
  assume a: "writer_at fd W w st \<and> sw_flush fd w st = (Inr w', st')"
  obtain f where f: "file_at fd st = Some f" "fi_data f = W" "fi_synced f \<le> length (fi_data f)" "sw_position w = length (fi_data f)"
      "sw_checksum w = crc32_from W 0" "sw_pendingBytes w = length (concat (sw_pending w))"
    using a by (auto simp: writer_at_def)
  show "only_changes fd st st' \<and> (\<exists>W'. writer_at fd W' w' st' \<and> W' @ concat (sw_pending w') = W @ concat (sw_pending w) @ [])"
  proof (cases "sw_pendingBytes w = 0")
    case True
    then have "w' = w" "st' = st" using a by (simp_all add: sw_flush_def returnS_def)
    then show ?thesis using a by auto
  next
    case False
    let ?c = "concat (sw_pending w)"
    obtain st1 where wr: "writeFully fd ?c (length (fi_data f)) st = (Inr (), st1)" "st' = st1"
        "w' = w\<lparr>sw_pending := [], sw_pendingBytes := 0, sw_checksum := crc32_from ?c (sw_checksum w), sw_position := sw_position w + length ?c\<rparr>"
      using a False by (auto simp: sw_flush_def Let_def writeAll_def bindS_Inr returnS_def f(4))
    from writeFully_run[OF wr(1) f(1,3)] have "only_changes fd st st1" "file_at fd st1 = Some (append_bytes ?c f)" by auto
    then show ?thesis
      using f wr(2,3) by (auto simp: writer_at_def append_bytes_def crc32_from_append)
  qed
qed

lemma adds_from: "(\<And>e. r = Inr e \<Longrightarrow> adds fd (f e) e') \<Longrightarrow> adds fd (\<lambda>w. bindS (fromR r) (\<lambda>e. f e w)) e'"
  by (cases r) (auto simp: adds_def bindS_def fromR_def)

lemma adds_documents:
  assumes "mapR document_bytes docs = Inr es"
  shows "adds fd (write_documents fd docs :: snapshot_writer \<Rightarrow> ('z os_scheme, snapshot_writer) operation) (concat es)"
  using assms
proof (induction docs arbitrary: es)
  case Nil
  then show ?case using adds_return[of fd] by (auto simp: adds_def returnS_def)
next
  case (Cons kd docs)
  obtain k d where kd: "kd = (k, d)" by (cases kd)
  obtain e es' where e: "document_entry k d = Inr e" "mapR document_bytes docs = Inr es'" "es = (e @ d) # es'"
    using Cons.prems by (auto simp: kd document_bytes_def[of "(k, d)"])
  let ?put = "(\<lambda>w. returnS (sw_add d (sw_add e w))) :: snapshot_writer \<Rightarrow> ('z os_scheme, snapshot_writer) operation"
  let ?maybe = "(\<lambda>w. if sw_pendingBytes w \<ge> FLUSH_THRESHOLD then sw_flush fd w else returnS w) :: snapshot_writer \<Rightarrow> ('z os_scheme, snapshot_writer) operation"
  have "adds fd ?maybe []" by (intro adds_if adds_flush adds_return)
  moreover have "adds fd ?put (e @ d)" using adds_bind[OF adds_sw_add[of fd e] adds_sw_add[of fd d]] by simp
  ultimately have "adds fd (\<lambda>w. bindS (?put w) (\<lambda>w. bindS (?maybe w) (write_documents fd docs))) ((e @ d) @ [] @ concat es')"
    using Cons.IH[OF e(2)] by (intro adds_bind)
  moreover have "write_documents fd (kd # docs) = (\<lambda>w. bindS (?put w) (\<lambda>w. bindS (?maybe w) (write_documents fd docs)))"
    by (rule ext)+ (simp add: kd e(1) bindS_def fromR_def returnS_def Let_def)
  ultimately show ?case using e(3) by simp
qed

lemma add_indexes_eq:
  assumes "mapR encodeIndexSpec is = Inr es"
  shows "add_indexes is w = Inr (foldl (\<lambda>w e. sw_add e w) w es)"
  using assms by (induction "is" arbitrary: w es) auto

lemma adds_list: "adds fd (\<lambda>w. returnS (foldl (\<lambda>w e. sw_add e w) w es)) (concat es)"
proof (induction es rule: rev_induct)
  case Nil
  then show ?case using adds_return[of fd] by simp
next
  case (snoc e es)
  then show ?case using adds_bind[OF snoc adds_sw_add[of fd e]] by simp
qed

lemma adds_collections:
  assumes "mapR collection_bytes cs = Inr es"
  shows "adds fd (write_collections fd cs :: snapshot_writer \<Rightarrow> ('z os_scheme, snapshot_writer) operation) (concat es)"
  using assms
proof (induction cs arbitrary: es)
  case Nil
  then show ?case using adds_return[of fd] by (auto simp: adds_def returnS_def)
next
  case (Cons c cs)
  obtain d n k "is" m ds es' where e: "encodeName (cc_database c) = Inr d" "encodeName (cc_collection c) = Inr n"
      "writeUint16BE (length (cc_indexes c)) = Inr k" "mapR encodeIndexSpec (cc_indexes c) = Inr is" "writeUInt32BE (cc_documentCount c) = Inr m"
      "mapR document_bytes (cc_documents c) = Inr ds" "mapR collection_bytes cs = Inr es'" "es = (d @ n @ k @ concat is @ m @ concat ds) # es'"
    using Cons.prems by (auto simp: collection_bytes_def[of c])
  let ?put = "(\<lambda>w. returnS (foldl (\<lambda>w e. sw_add e w) w ([d, n, k] @ is @ [m]))) :: snapshot_writer \<Rightarrow> ('z os_scheme, snapshot_writer) operation"
  have "adds fd (\<lambda>w. bindS (?put w) (\<lambda>w. bindS (write_documents fd (cc_documents c) w) (write_collections fd cs)))
      (concat ([d, n, k] @ is @ [m]) @ concat ds @ concat es')"
    by (intro adds_bind adds_list adds_documents[OF e(6)] Cons.IH[OF e(7)])
  moreover have "write_collections fd (c # cs) = (\<lambda>w. bindS (?put w) (\<lambda>w. bindS (write_documents fd (cc_documents c) w) (write_collections fd cs)))"
    by (rule ext)+ (simp add: e(1-3,5) add_indexes_eq[OF e(4)] bindS_def fromR_def returnS_def)
  ultimately show ?case using e(8) by simp
qed

text \<open>Where the bytes cannot be written, writing fails.\<close>

lemma bindR_Inl: "bindR m f = Inl e \<longleftrightarrow> m = Inl e \<or> (\<exists>x. m = Inr x \<and> f x = Inl e)"
  by (cases m) auto

lemma write_documents_error:
  assumes "write_documents fd docs w st = (Inr w', st')"
  shows "\<exists>es. mapR document_bytes docs = Inr es"
  using assms
proof (induction docs arbitrary: w st)
  case (Cons kd docs)
  obtain k d where kd: "kd = (k, d)" by (cases kd)
  from Cons.prems obtain e w1 st1 where "document_entry k d = Inr e" "write_documents fd docs w1 st1 = (Inr w', st')"
    by (auto simp: kd bindS_Inr fromR_def Let_def split: if_splits)
  then show ?case using Cons.IH by (auto simp: kd document_bytes_def[of "(k, d)"])
qed simp

lemma add_indexes_error: "add_indexes is w = Inr w' \<Longrightarrow> \<exists>es. mapR encodeIndexSpec is = Inr es"
  by (induction "is" arbitrary: w) auto

lemma write_collections_error:
  assumes "write_collections fd cs w st = (Inr w', st')"
  shows "\<exists>es. mapR collection_bytes cs = Inr es"
  using assms
proof (induction cs arbitrary: w st)
  case (Cons c cs)
  from Cons.prems obtain d n k w1 m w2 st2 where e: "encodeName (cc_database c) = Inr d" "encodeName (cc_collection c) = Inr n"
      "writeUint16BE (length (cc_indexes c)) = Inr k" "add_indexes (cc_indexes c) (sw_add k (sw_add n (sw_add d w))) = Inr w1"
      "writeUInt32BE (cc_documentCount c) = Inr m" "write_documents fd (cc_documents c) (sw_add m w1) st = (Inr w2, st2)"
      "write_collections fd cs w2 st2 = (Inr w', st')"
    by (auto simp: bindS_Inr fromR_def)
  from write_documents_error[OF e(6)] add_indexes_error[OF e(4)] Cons.IH[OF e(7)] show ?case
    using e(1-3,5) by (auto simp: collection_bytes_def[of c])
qed simp

text \<open>What is in the file when the snapshot has been written: its bytes, all of them flushed.\<close>

lemma write_snapshot_run:
  assumes "write_snapshot fd lsn cs st = (Inr (), st')" "file_at fd st = Some f" "fi_data f = []" "fi_synced f = 0"
  shows "only_changes fd st st'" "\<exists>content f'. snapshot_content lsn cs = Inr content \<and> file_at fd st' = Some f' \<and>
    fi_data f' = snapshot_file content \<and> synced_file f'"
proof -
  from assms(1) obtain h w st1 w1 st2 w2 st3 where s: "snapshot_header lsn (length cs) = Inr h"
      "write_collections fd cs (sw_add h new_snapshot_writer) st = (Inr w, st1)" "sw_flush fd w st1 = (Inr w1, st2)"
      "writeAll fd (be_bytes 4 (unat (sw_checksum w1)) @ END_MAGIC) w1 st2 = (Inr w2, st3)" "fsyncSync fd st3 = (Inr (), st')"
    by (auto simp: write_snapshot_def bindS_Inr fromR_def)
  obtain es where es: "mapR collection_bytes cs = Inr es" using write_collections_error[OF s(2)] by blast
  let ?content = "h @ concat es"
  have "writer_at fd [] (sw_add h new_snapshot_writer) st"
    using assms(2-4) by (simp add: writer_at_def sw_add_def new_snapshot_writer_def crc32_from_def)
  from addsD[OF adds_collections[OF es] this s(2)] obtain W where W: "only_changes fd st st1" "writer_at fd W w st1"
      "W @ concat (sw_pending w) = ?content" by (auto simp: sw_add_def new_snapshot_writer_def)
  from addsD[OF adds_flush W(2) s(3)] obtain W1 where W1: "only_changes fd st1 st2" "writer_at fd W1 w1 st2"
      "W1 @ concat (sw_pending w1) = ?content" using W(3) by auto
  have "sw_pending w1 = []" if "sw_pendingBytes w \<noteq> 0"
    using s(3) that by (auto simp: sw_flush_def Let_def writeAll_def bindS_Inr returnS_def)
  moreover have "concat (sw_pending w1) = []" if "sw_pendingBytes w = 0"
    using s(3) that W(2) by (auto simp: sw_flush_def returnS_def writer_at_def)
  ultimately have "concat (sw_pending w1) = []" by (cases "sw_pendingBytes w = 0") simp_all
  then have "W1 = ?content" using W1(3) by (simp only: append_Nil2)
  then obtain f2 where f2: "file_at fd st2 = Some f2" "fi_data f2 = ?content" "fi_synced f2 \<le> length (fi_data f2)"
      "sw_position w1 = length (fi_data f2)" "unat (sw_checksum w1) = crc32 ?content"
    using W1(2) by (auto simp: writer_at_def crc32_def)
  let ?foot = "be_bytes 4 (crc32 ?content) @ END_MAGIC"
  have "writeFully fd ?foot (length (fi_data f2)) st2 = (Inr (), st3)"
    using s(4) f2(4,5) by (auto simp: writeAll_def bindS_Inr returnS_def)
  from writeFully_run[OF this f2(1,3)] have c3: "only_changes fd st2 st3" "file_at fd st3 = Some (append_bytes ?foot f2)" by auto
  have "only_changes fd st st3" using only_changes_trans[OF only_changes_trans[OF W(1) W1(1)] c3(1)] .
  moreover from s(5) c3(2) have "only_changes fd st3 st' \<and> file_at fd st' = Some ((append_bytes ?foot f2)\<lparr>fi_synced := length (fi_data (append_bytes ?foot f2))\<rparr>)"
    by (cases rule: fsyncSync_run) auto
  ultimately have fin: "only_changes fd st st'" "file_at fd st' = Some ((append_bytes ?foot f2)\<lparr>fi_synced := length (fi_data (append_bytes ?foot f2))\<rparr>)"
    using only_changes_trans by blast+
  then show "only_changes fd st st'" by blast
  show "\<exists>content f'. snapshot_content lsn cs = Inr content \<and> file_at fd st' = Some f' \<and> fi_data f' = snapshot_file content \<and> synced_file f'"
    using fin(2) s(1) es f2(2) by (auto simp: snapshot_content_def snapshot_file_def synced_file_def)
qed

section \<open>Reading\<close>

lemma sr_bytes_run:
  assumes "sr_offset r + n \<le> sr_end r"
  shows "sr_bytes n r = (Inr (take n (drop (sr_offset r) (sr_buffer r))), r\<lparr>sr_offset := sr_offset r + n\<rparr>)"
  using assms by (simp add: sr_bytes_def sr_require_def operation_defs sub_bytes_def)

definition sr_valid :: "snapshot_reader \<Rightarrow> bool" where
  "sr_valid r \<longleftrightarrow> sr_offset r \<le> sr_end r \<and> sr_end r \<le> length (sr_buffer r)"

definition sr_rest :: "snapshot_reader \<Rightarrow> bytes" where
  "sr_rest r = take (sr_end r - sr_offset r) (drop (sr_offset r) (sr_buffer r))"

lemma length_sr_rest: "sr_valid r \<Longrightarrow> length (sr_rest r) = sr_end r - sr_offset r"
  by (auto simp: sr_valid_def sr_rest_def)

lemma sr_rest_run:
  assumes "sr_valid r" "n \<le> length (sr_rest r)"
  shows "sr_bytes n r = (Inr (take n (sr_rest r)), r\<lparr>sr_offset := sr_offset r + n\<rparr>)"
proof -
  have n: "n \<le> sr_end r - sr_offset r" using assms length_sr_rest by simp
  then have "sr_offset r + n \<le> sr_end r" using assms(1) by (auto simp: sr_valid_def)
  moreover have "take n (sr_rest r) = take n (drop (sr_offset r) (sr_buffer r))" using n by (simp add: sr_rest_def min_def)
  ultimately show ?thesis by (simp add: sr_bytes_run)
qed

lemma sr_rest_adv: "sr_rest (r\<lparr>sr_offset := sr_offset r + n\<rparr>) = drop n (sr_rest r)"
  by (simp add: sr_rest_def drop_take add.commute)

lemma sr_valid_adv: "sr_valid r \<Longrightarrow> n \<le> length (sr_rest r) \<Longrightarrow> sr_valid (r\<lparr>sr_offset := sr_offset r + n\<rparr>)"
  using length_sr_rest[of r] by (auto simp: sr_valid_def)

interpretation sr: field_reader sr_valid sr_rest "\<lambda>n r. r\<lparr>sr_offset := sr_offset r + n\<rparr>" sr_bytes sr_u8 sr_u16 sr_u32 sr_name
proof unfold_locales
  fix r :: snapshot_reader and e bs s
  assume v: "sr_valid r" and r: "sr_rest r = be_bytes 2 (length e) @ e @ bs" and e: "0 < length e" "length e < 65536" "text_decode e = Some s"
  let ?r = "r\<lparr>sr_offset := sr_offset r + 2\<rparr>"
  have "sr_valid ?r" "sr_rest ?r = e @ bs" using sr_valid_adv[OF v, of 2] sr_rest_adv[of r 2] r by simp_all
  then show "sr_name r = (Inr s, r\<lparr>sr_offset := sr_offset r + (2 + length e)\<rparr>)"
    using v r e sr_rest_run[of r 2] sr_rest_run[of ?r "length e"] by (simp add: sr_name_def sr_u16_def bindS_def returnS_def add.assoc)
qed (auto simp: sr_rest_run sr_rest_adv sr_valid_adv sr_u8_def sr_u16_def sr_u32_def bindS_def returnS_def add.assoc)

section \<open>Round trip\<close>

definition snapshot_ok :: "checkpoint_collection \<Rightarrow> bool" where
  "snapshot_ok c \<longleftrightarrow> name_ok (cc_database c) \<and> name_ok (cc_collection c) \<and>
     (\<forall>s \<in> set (cc_indexes c). spec_normal s \<and> name_ok (is_name s) \<and> name_ok (is_field s)) \<and>
     cc_documentCount c = length (cc_documents c) \<and> distinct (map fst (cc_documents c)) \<and>
     (\<forall>k \<in> fst ` set (cc_documents c). \<exists>i. length i = ID_BYTE_LENGTH \<and> k = toHexString i)"

definition recovered_of :: "checkpoint_collection \<Rightarrow> recovered_collection" where
  "recovered_of c = \<lparr>rc_database = cc_database c, rc_collection = cc_collection c, rc_documents = cc_documents c, rc_indexes = cc_indexes c\<rparr>"

lemma reads_snapshot_document:
  assumes "document_bytes (k, d) = Inr e" "length i = ID_BYTE_LENGTH" "k = toHexString i"
  shows "sr.reads sr_document (k, d) e"
proof -
  have e: "e = i @ be_bytes 4 (length d) @ d" "length d < 4294967296"
    using assms by (auto simp: document_bytes_def document_entry_def writeUInt32BE_def split: if_splits)
  have "sr.reads (bindS sr_u32 sr_bytes) d (be_bytes 4 (length d) @ d)"
    by (rule sr.reads_bind[OF sr.reads_u32[OF e(2)]], rule sr.reads_bytes)
  then have "sr.reads (bindS (bindS sr_u32 sr_bytes) (\<lambda>doc. returnS (toHexString i, doc))) (k, d) (be_bytes 4 (length d) @ d)"
    using sr.reads_bind_return[of "bindS sr_u32 sr_bytes" d _ "\<lambda>doc. (toHexString i, doc)"] assms(3) by simp
  moreover have "sr.reads (sr_bytes ID_BYTE_LENGTH) i i" using sr.reads_bytes[of i] assms(2) by simp
  ultimately show ?thesis unfolding sr_document_def e(1) by (rule sr.reads_bind[rotated])
qed

lemma reads_snapshot_index:
  assumes "encodeIndexSpec s = Inr e" "spec_normal s" "name_ok (is_name s)" "name_ok (is_field s)"
  shows "sr.reads sr_index s e"
  using sr.reads_index_spec[OF assms] by (auto simp: sr.reads_def sr_index_def catchS_def)

lemma foldl_update_distinct:
  assumes "distinct (map fst (m @ docs))"
  shows "foldl (\<lambda>m (k, d). AList.update k d m) m docs = m @ docs"
  using assms
proof (induction docs arbitrary: m)
  case (Cons kd docs)
  obtain k d where kd: "kd = (k, d)" by (cases kd)
  have "AList.update k d m = m @ [(k, d)]" using Cons.prems by (intro update_notin) (auto simp: kd)
  then show ?case using Cons.IH[of "m @ [(k, d)]"] Cons.prems by (simp add: kd)
qed simp

lemma reads_snapshot_collection:
  assumes "collection_bytes c = Inr e" "snapshot_ok c"
  shows "sr.reads (sr_collection CHECKPOINT_FORMAT_VERSION) (recovered_of c) e"
proof -
  obtain d n k "is" m ds where b: "encodeName (cc_database c) = Inr d" "encodeName (cc_collection c) = Inr n"
      "writeUint16BE (length (cc_indexes c)) = Inr k" "mapR encodeIndexSpec (cc_indexes c) = Inr is" "writeUInt32BE (cc_documentCount c) = Inr m"
      "mapR document_bytes (cc_documents c) = Inr ds" "e = d @ n @ (k @ concat is) @ (m @ concat ds)"
    using assms(1) by (auto simp: collection_bytes_def)
  note ok = assms(2)[unfolded snapshot_ok_def]
  have k: "k = be_bytes 2 (length (cc_indexes c))" "length (cc_indexes c) < 65536" using b(3) by (auto simp: writeUint16BE_def split: if_splits)
  have m: "m = be_bytes 4 (length (cc_documents c))" "length (cc_documents c) < 4294967296"
    using b(5) ok by (auto simp: writeUInt32BE_def split: if_splits)
  have "list_all2 (sr.reads sr_index) (cc_indexes c) is"
    using b(4) ok unfolding mapR_Inr_list_all2 by (auto simp: list_all2_conv_all_nth intro: reads_snapshot_index)
  then have i: "sr.reads (bindS sr_u16 (\<lambda>n. read_times n sr_index)) (cc_indexes c) (k @ concat is)"
    unfolding k(1) by (intro sr.reads_bind[OF sr.reads_u16[OF k(2)]] sr.reads_times)
  have "sr.reads sr_document (cc_documents c ! j) (ds ! j)" if "j < length ds" "length (cc_documents c) = length ds" "document_bytes (cc_documents c ! j) = Inr (ds ! j)" for j
  proof -
    obtain key doc where kd: "cc_documents c ! j = (key, doc)" by fastforce
    then have "key \<in> fst ` set (cc_documents c)" using that nth_mem[of j "cc_documents c"] by force
    then obtain x where "length x = ID_BYTE_LENGTH" "key = toHexString x" using ok by blast
    then show ?thesis using reads_snapshot_document that(3) kd by simp
  qed
  then have "list_all2 (sr.reads sr_document) (cc_documents c) ds"
    using b(6) unfolding mapR_Inr_list_all2 by (auto simp: list_all2_conv_all_nth)
  then have j: "sr.reads (bindS sr_u32 (\<lambda>n. read_times n sr_document)) (cc_documents c) (m @ concat ds)"
    unfolding m(1) by (intro sr.reads_bind[OF sr.reads_u32[OF m(2)]] sr.reads_times)
  have "foldl (\<lambda>m (k, d). AList.update k d m) [] (cc_documents c) = cc_documents c"
    using foldl_update_distinct[of "[]" "cc_documents c"] ok by auto
  then have "sr.reads (bindS (bindS sr_u32 (\<lambda>n. read_times n sr_document)) (\<lambda>documents.
      returnS \<lparr>rc_database = cc_database c, rc_collection = cc_collection c,
        rc_documents = foldl (\<lambda>m (k, d). AList.update k d m) [] documents, rc_indexes = cc_indexes c\<rparr>)) (recovered_of c) (m @ concat ds)"
    using sr.reads_bind_return[OF j, of "\<lambda>documents. \<lparr>rc_database = cc_database c, rc_collection = cc_collection c,
        rc_documents = foldl (\<lambda>m (k, d). AList.update k d m) [] documents, rc_indexes = cc_indexes c\<rparr>"] by (simp add: recovered_of_def)
  note docs = this
  have version: "(2 :: nat) \<le> 2" by simp
  show ?thesis
    unfolding sr_collection_def b(7) CHECKPOINT_FORMAT_VERSION_def if_P[OF version] using ok
    by (intro sr.reads_bind[OF sr.reads_name[OF b(1)]] sr.reads_bind[OF sr.reads_name[OF b(2)]] sr.reads_bind[OF i] docs) blast+
qed

lemma parse_snapshot_content:
  assumes "snapshot_content lsn cs = Inr content" "\<forall>c \<in> set cs. snapshot_ok c"
  shows "parse_snapshot (snapshot_file content) = Inr \<lparr>ck_lsn = lsn, ck_collections = map recovered_of cs\<rparr>"
proof -
  obtain es where es: "mapR collection_bytes cs = Inr es" and c: "lsn < 2 ^ 64" "length cs < 2 ^ 32"
      "content = (SNAPSHOT_MAGIC @ be_bytes 4 CHECKPOINT_FORMAT_VERSION @ be_bytes 8 lsn @ be_bytes 4 (length cs)) @ concat es"
    using assms(1) by (auto simp: snapshot_content_def snapshot_header_def writeBigUInt64BE_def writeUInt32BE_def split: if_splits)
  let ?b = "snapshot_file content"
  let ?n = "length content"
  have m: "length SNAPSHOT_MAGIC = 8" "length END_MAGIC = 8" by (simp_all add: SNAPSHOT_MAGIC_def END_MAGIC_def)
  have foot: "length ?b - FOOTER_SIZE = ?n" "drop (?n + 4) ?b = END_MAGIC" "read_be 4 ?n ?b = crc32 content" "sub_bytes 0 ?n ?b = content"
    by (simp_all add: snapshot_file_def FOOTER_SIZE_def m sub_bytes_def read_be_def)
  have head: "sub_bytes 0 8 ?b = SNAPSHOT_MAGIC" "read_be 4 8 ?b = CHECKPOINT_FORMAT_VERSION" "read_be 8 12 ?b = lsn" "read_be 4 20 ?b = length cs"
    using c(1,2) by (simp_all add: snapshot_file_def c(3) m sub_bytes_def read_be_def CHECKPOINT_FORMAT_VERSION_def)
  have len: "SNAPSHOT_HEADER_SIZE \<le> ?n" "?n + FOOTER_SIZE = length ?b" "drop SNAPSHOT_HEADER_SIZE content = concat es"
    by (simp_all add: c(3) m SNAPSHOT_HEADER_SIZE_def FOOTER_SIZE_def snapshot_file_def)
  let ?r = "\<lparr>sr_buffer = ?b, sr_end = ?n, sr_offset = SNAPSHOT_HEADER_SIZE\<rparr>"
  have "list_all2 (sr.reads (sr_collection CHECKPOINT_FORMAT_VERSION)) (map recovered_of cs) es"
    using es assms(2) unfolding mapR_Inr_list_all2 by (auto simp: list_all2_conv_all_nth intro: reads_snapshot_collection)
  from sr.reads_times[OF this] have rd: "sr.reads (read_times (length cs) (sr_collection CHECKPOINT_FORMAT_VERSION)) (map recovered_of cs) (concat es)" by simp
  have "sr_valid ?r" using len(1,2) by (simp add: sr_valid_def)
  moreover have "sr_rest ?r = drop SNAPSHOT_HEADER_SIZE (take ?n ?b)" by (simp add: sr_rest_def drop_take)
  then have "sr_rest ?r = concat es @ []" using len(3) by (simp add: snapshot_file_def)
  ultimately have "read_times (length cs) (sr_collection CHECKPOINT_FORMAT_VERSION) ?r =
      (Inr (map recovered_of cs), ?r\<lparr>sr_offset := sr_offset ?r + length (concat es)\<rparr>)" using sr.readsD[OF rd] by blast
  moreover have "SNAPSHOT_HEADER_SIZE + length (concat es) = ?n" using len(1,3) by (metis add.commute le_add_diff_inverse2 length_drop)
  moreover have "\<not> length ?b < SNAPSHOT_HEADER_SIZE + FOOTER_SIZE" using len(1,2) by simp
  ultimately show ?thesis
    unfolding parse_snapshot_def Let_def foot(1) by (simp add: foot head OLDEST_READABLE_VERSION_def CHECKPOINT_FORMAT_VERSION_def)
qed

section \<open>The whole operation\<close>

text \<open>A callback that may throw but leaves the files alone.\<close>

definition stage_harmless :: "(checkpoint_stage \<Rightarrow> ('z os_scheme, unit) operation) \<Rightarrow> bool" where
  "stage_harmless onStage \<longleftrightarrow> (\<forall>stage st r st'. onStage stage st = (r, st') \<longrightarrow> unchanged st st')"

lemma openSync_w_run:
  assumes "openSync_w p st = (Inr fd, st')"
  shows "fd = p" "only_changes p st st'" "\<exists>f. file_at p st' = Some f \<and> fi_data f = [] \<and> fi_synced f = 0"
proof -
  from assms[unfolded openSync_w_def] have "fd = p \<and> only_changes p st st' \<and> (\<exists>f. file_at p st' = Some f \<and> fi_data f = [] \<and> fi_synced f = 0)"
  proof (cases rule: syscall_run)
    case (runs st1)
    let ?f = "case file_at p st1 of None \<Rightarrow> new_file | Some f \<Rightarrow> f\<lparr>fi_data := [], fi_synced := 0\<rparr>"
    have "fd = p" "st' = put_file p ?f st1" using runs(1) by (auto simp: operation_defs)
    then show ?thesis using only_changes_then_put[OF runs(2)] by (auto simp: new_file_def split: option.splits)
  qed simp
  then show "fd = p" "only_changes p st st'" "\<exists>f. file_at p st' = Some f \<and> fi_data f = [] \<and> fi_synced f = 0" by blast+
qed

lemma renameSync_run:
  assumes "renameSync p q st = (Inr u, st')" "file_at p st = Some f" "p \<noteq> q"
  shows "file_at q st' = Some (f\<lparr>fi_linked := False\<rparr>)" "quiet st st'" "\<And>x. x \<noteq> p \<Longrightarrow> x \<noteq> q \<Longrightarrow> file_at x st' = file_at x st"
proof -
  from assms(1)[unfolded renameSync_def] have "file_at q st' = Some (f\<lparr>fi_linked := False\<rparr>) \<and> quiet st st' \<and> (\<forall>x. x \<noteq> p \<longrightarrow> x \<noteq> q \<longrightarrow> file_at x st' = file_at x st)"
  proof (cases rule: syscall_run)
    case (runs st1)
    have s: "st' = put_file q (f\<lparr>fi_linked := False\<rparr>) (st1\<lparr>os_files := AList.delete p (os_files st1)\<rparr>)"
      using runs(1,3) assms(2) by (simp add: bindS_def get_file_run modifyS_def)
    have "quiet st st1" using runs(2)[of p] by (simp add: only_changes_def)
    then show ?thesis unfolding s using runs(3) quiet_trans[OF _ quiet_trans[OF quiet_delete quiet_put]] by (simp add: file_at_delete)
  qed simp
  then show "file_at q st' = Some (f\<lparr>fi_linked := False\<rparr>)" "quiet st st'" "\<And>x. x \<noteq> p \<Longrightarrow> x \<noteq> q \<Longrightarrow> file_at x st' = file_at x st" by blast+
qed

definition temporary_name :: "nat \<Rightarrow> js_string" where
  "temporary_name lsn = take (length (checkpointFileName lsn) - 5) (checkpointFileName lsn) @ TEMPORARY_SUFFIX"

lemma temporary_differs: "temporary_name lsn \<noteq> checkpointFileName lsn"
proof
  assume "temporary_name lsn = checkpointFileName lsn"
  then have "length (temporary_name lsn) = length (checkpointFileName lsn)" by simp
  moreover have "5 \<le> length (checkpointFileName lsn)" by (simp add: checkpointFileName_def lsn_name_def snapshot_suffix_def js_def)
  ultimately show False by (simp add: temporary_name_def TEMPORARY_SUFFIX_def js_def)
qed

lemma catchS_throw_Inr: "catchS m (\<lambda>e. bindS (a e) (\<lambda>_. throwS e)) st = (Inr x, st') \<Longrightarrow> m st = (Inr x, st')"
  by (auto simp: catchS_def bindS_def throwS_def split: prod.splits sum.splits)

text \<open>A snapshot that was written successfully.\<close>

lemma writeCheckpoint_run:
  assumes "writeCheckpoint dir lsn cs onStage st = (Inr name, st')" "stage_harmless onStage"
  shows "name = checkpointFileName lsn" "quiet st st'" "\<exists>content f. snapshot_content lsn cs = Inr content \<and>
    file_at (dir, checkpointFileName lsn) st' = Some f \<and> fi_data f = snapshot_file content \<and> synced_file f \<and> (flushes_directories st \<longrightarrow> fi_linked f)"
proof -
  let ?name = "checkpointFileName lsn"
  let ?p = "(dir, ?name)" and ?t = "(dir, temporary_name lsn)"
  from assms(1)[unfolded writeCheckpoint_def Let_def temporary_name_def[symmetric] bindS_Inr]
  obtain fd st1 u2 st2 u3 st3 u4 where s: "openSync_w ?t st = (Inr fd, st1)"
      "catchS (write_snapshot fd lsn cs) (\<lambda>e. bindS (catchS (closeSync fd) (\<lambda>_. returnS ())) (\<lambda>_. bindS (unlinkQuietly ?t) (\<lambda>_. throwS e))) st1 = (Inr u2, st2)"
      "catchS (bindS (closeSync fd) (\<lambda>_. bindS (onStage SnapshotWritten) (\<lambda>_. bindS (renameSync ?t ?p) (\<lambda>_. syncDirectory dir))))
         (\<lambda>e. bindS (unlinkQuietly ?t) (\<lambda>_. throwS e)) st2 = (Inr u3, st3)"
      "onStage SnapshotRenamed st3 = (Inr u4, st')" "name = ?name"
    by (auto simp: returnS_def)
  show "name = ?name" by (rule s(5))
  note O = openSync_w_run[OF s(1)]
  obtain f1 where f1: "file_at ?t st1 = Some f1" "fi_data f1 = []" "fi_synced f1 = 0" using O(3) by blast
  have ws: "write_snapshot ?t lsn cs st1 = (Inr (), st2)"
    using s(2) O(1) by (auto simp: catchS_def bindS_def throwS_def split: prod.splits sum.splits)
  note W = write_snapshot_run[OF ws f1]
  obtain content f2 where f2: "snapshot_content lsn cs = Inr content" "file_at ?t st2 = Some f2" "fi_data f2 = snapshot_file content" "synced_file f2"
    using W(2) by blast
  from catchS_throw_Inr[OF s(3)[unfolded unlinkQuietly_def]] obtain v1 a1 v2 a2 v3 a3 where c: "closeSync fd st2 = (Inr v1, a1)"
      "onStage SnapshotWritten a1 = (Inr v2, a2)" "renameSync ?t ?p a2 = (Inr v3, a3)" "syncDirectory dir a3 = (Inr u3, st3)"
    unfolding bindS_Inr by blast
  have u2: "unchanged st2 a2"
  proof (rule unchanged_trans)
    show "unchanged st2 a1" by (rule unchangedI) (rule closeSync_run[OF c(1)])+
    show "unchanged a1 a2" using assms(2) c(2) by (simp add: stage_harmless_def)
  qed
  have "file_at ?t a2 = Some f2" using f2(2) unchanged_file[OF u2] by simp
  moreover have "?t \<noteq> ?p" using temporary_differs by simp
  ultimately have R: "file_at ?p a3 = Some (f2\<lparr>fi_linked := False\<rparr>)" "quiet a2 a3" using renameSync_run[OF c(3)] by blast+
  note D = syncDirectory_run[OF c(4)]
  have u4: "unchanged st3 st'" using assms(2) s(4) by (simp add: stage_harmless_def)
  have qa: "quiet st a3" using O(2) W(1) u2 R(2) by (meson only_changes_def quiet_trans unchanged_quiet)
  have "quiet a3 st'" using D u4 relinks_quiet quiet_trans unchanged_quiet by blast
  then show "quiet st st'" using qa quiet_trans by blast
  obtain g where g: "file_at ?p st3 = Some g" "relinked (f2\<lparr>fi_linked := False\<rparr>) g" using relinks_Some[OF _ R(1)] D by blast
  have "fi_linked g" if "flushes_directories st" using D flushes_mono[OF qa that] g(1) by (auto simp: all_linked_def)
  moreover have "file_at ?p st' = Some g" using g(1) unchanged_file[OF u4] by simp
  moreover have "fi_data g = snapshot_file content" "synced_file g" using relinkedD(1,2)[OF g(2)] f2(3,4) by (simp_all add: synced_file_def)
  ultimately show "\<exists>content f. snapshot_content lsn cs = Inr content \<and> file_at ?p st' = Some f \<and> fi_data f = snapshot_file content \<and>
      synced_file f \<and> (flushes_directories st \<longrightarrow> fi_linked f)" using f2(1) by blast
qed

text \<open>Without failures a snapshot is written.\<close>

lemma writeFully_ok:
  assumes "os_faults st = []" "file_at fd st = Some f" "bs \<noteq> []"
  shows "writeFully fd bs (length (fi_data f)) st = (Inr (), put_file fd (append_bytes bs f) st)"
proof -
  have "writeSync fd bs (length (fi_data f)) st = (Inr (length bs), put_file fd (append_bytes bs f) st)"
    using assms by (simp add: writeSync_def operation_defs next_fault_def get_file_def Let_def write_at_end)
  then show ?thesis using assms(3) by (simp add: writeFully.simps[of fd bs] writeFully.simps[of fd "[]"])
qed

lemma empty_snapshot_written:
  "\<exists>st'. writeCheckpoint dir 1 [] (\<lambda>_. returnS ()) (\<lparr>os_files = [], os_faults = []\<rparr> :: os) = (Inr (checkpointFileName 1), st')"
proof -
  let ?t = "(dir, temporary_name 1)" and ?p = "(dir, checkpointFileName 1)"
  let ?st1 = "put_file ?t new_file (\<lparr>os_files = [], os_faults = []\<rparr> :: os)"
  let ?h = "SNAPSHOT_MAGIC @ be_bytes 4 CHECKPOINT_FORMAT_VERSION @ be_bytes 8 1 @ be_bytes 4 0"
  let ?foot = "be_bytes 4 (unat (crc32_from ?h 0)) @ END_MAGIC"
  let ?f2 = "append_bytes ?h new_file"
  let ?st2 = "put_file ?t ?f2 ?st1"
  have o: "openSync_w ?t \<lparr>os_files = [], os_faults = []\<rparr> = (Inr ?t, ?st1)"
    by (simp add: openSync_w_def syscall_def next_fault_def operation_defs file_at_def)
  have fl: "os_faults (put_file p f st) = os_faults st" for p f and st :: os by (simp add: put_file_def)
  have len: "length SNAPSHOT_MAGIC = 8" "length END_MAGIC = 8" by (simp_all add: SNAPSHOT_MAGIC_def END_MAGIC_def)
  have ne: "SNAPSHOT_MAGIC \<noteq> []" by (simp add: SNAPSHOT_MAGIC_def)
  have h: "snapshot_header 1 0 = Inr ?h" by (simp add: snapshot_header_def writeBigUInt64BE_def writeUInt32BE_def)
  have w1: "writeFully ?t ?h 0 ?st1 = (Inr (), ?st2)"
    using writeFully_ok[of ?st1 ?t new_file ?h] by (simp add: fl new_file_def SNAPSHOT_MAGIC_def)
  have d2: "length (fi_data ?f2) = length ?h" by (simp add: new_file_def)
  have "?foot \<noteq> []" by (simp add: END_MAGIC_def)
  then have w2: "writeFully ?t ?foot (length ?h) ?st2 = (Inr (), put_file ?t (append_bytes ?foot ?f2) ?st2)"
    using writeFully_ok[of ?st2 ?t ?f2 ?foot] d2 by (simp add: fl)
  let ?f3 = "(append_bytes ?foot ?f2)\<lparr>fi_synced := length (fi_data (append_bytes ?foot ?f2))\<rparr>"
  let ?st3 = "put_file ?t ?f3 (put_file ?t (append_bytes ?foot ?f2) ?st2)"
  have "fsyncSync ?t (put_file ?t (append_bytes ?foot ?f2) ?st2) = (Inr (), ?st3)"
    by (simp add: fsyncSync_def syscall_def next_fault_def operation_defs fl get_file_def)
  then have ws: "write_snapshot ?t 1 [] ?st1 = (Inr (), ?st3)"
    using w1 w2 h by (simp add: write_snapshot_def bindS_def fromR_def returnS_def sw_flush_def sw_add_def new_snapshot_writer_def
        writeAll_def len ne Let_def)
  have cl: "closeSync ?t ?st3 = (Inr (), ?st3)" by (simp add: closeSync_def syscall_def next_fault_def operation_defs fl)
  have "\<exists>a. renameSync ?t ?p ?st3 = (Inr (), a) \<and> os_faults a = []"
    by (simp add: renameSync_def syscall_def next_fault_def operation_defs fl get_file_def)
  then obtain a where a: "renameSync ?t ?p ?st3 = (Inr (), a)" "os_faults a = []" by blast
  obtain r b where b: "syncDirectory dir a = (r, b)" by fastforce
  have "r = Inr ()" using syncDirectory_run[OF b] a(2) by (cases r) auto
  then show ?thesis
    using o ws cl a(1) b unfolding writeCheckpoint_def Let_def temporary_name_def[symmetric]
    by (simp add: bindS_def catchS_def returnS_def)
qed

section \<open>Properties\<close>



end
