(* ===== verification/Engine_State.thy ===== *)
theory Engine_State
  imports Storage_Engine Collection_Journal Checkpoint_Proofs
begin

text \<open>
  The contents of an engine as recovery sees them: a catalog of documents and index definitions,
  which is what the replay of the journaled operations yields. Every operation a collection journals
  has, when it is applied to the recovered catalog, the effect it had on the collection; the
  collections rebuilt from the catalog have the documents and indexes they were rebuilt from.
\<close>

section \<open>Catalogs\<close>

definition catalog_map :: "('a \<Rightarrow> 'b) \<Rightarrow> 'a catalog \<Rightarrow> 'b catalog" where
  "catalog_map f m = map (\<lambda>(d, byName). (d, map (\<lambda>(c, x). (c, f x)) byName)) m"

definition catalog_ok :: "'a catalog \<Rightarrow> bool" where
  "catalog_ok m \<longleftrightarrow> distinct (map fst m) \<and> (\<forall>(d, byName) \<in> set m. byName \<noteq> [] \<and> distinct (map fst byName))"

lemma map_of_map_values: "map_of (map (\<lambda>(k, x). (k, f x)) xs) k = map_option f (map_of xs k)"
  by (induction xs) auto

lemma catalog_find_map: "catalog_find d c (catalog_map f m) = map_option f (catalog_find d c m)"
  by (simp add: catalog_find_def catalog_map_def map_of_map_values split: option.splits)

lemma update_map_values: "AList.update k (f x) (map (\<lambda>(k, x). (k, f x)) xs) = map (\<lambda>(k, x). (k, f x)) (AList.update k x xs)"
  by (induction xs) auto

lemma catalog_map_put: "catalog_map f (catalog_put d c x m) = catalog_put d c (f x) (catalog_map f m)"
proof -
  have "(case map_of (catalog_map f m) d of None \<Rightarrow> [] | Some byName \<Rightarrow> byName) =
      map (\<lambda>(c, x). (c, f x)) (case map_of m d of None \<Rightarrow> [] | Some byName \<Rightarrow> byName)"
    by (simp add: catalog_map_def map_of_map_values split: option.splits)
  then show ?thesis unfolding catalog_put_def by (simp add: update_map_values catalog_map_def)
qed

lemma catalog_find_put: "catalog_find d c (catalog_put d' c' x m) = (if d = d' \<and> c = c' then Some x else catalog_find d c m)"
  by (auto simp: catalog_find_def catalog_put_def update_conv' split: option.splits)

lemma catalog_put_put: "catalog_put d c y (catalog_put d c x m) = catalog_put d c y m"
  by (simp add: catalog_put_def update_conv')

lemma catalog_put_same: "catalog_find d c m = Some x \<Longrightarrow> catalog_put d c x m = m"
  by (auto simp: catalog_find_def catalog_put_def alist_update_same split: option.splits)

lemma catalog_ok_map [simp]: "catalog_ok (catalog_map f m) = catalog_ok m"
  by (auto simp: catalog_ok_def catalog_map_def comp_def split_def)

lemma set_update_values: "v \<in> snd ` set (AList.update k x xs) \<Longrightarrow> v = x \<or> v \<in> snd ` set xs"
  by (induction xs) (auto split: if_splits)

lemma catalog_ok_put:
  assumes "catalog_ok m"
  shows "catalog_ok (catalog_put d c x m)"
proof -
  let ?b = "case map_of m d of None \<Rightarrow> [] | Some byName \<Rightarrow> byName"
  have "distinct (map fst ?b)" using assms by (auto simp: catalog_ok_def split: option.splits dest!: map_of_SomeD)
  then have b: "AList.update c x ?b \<noteq> []" "distinct (map fst (AList.update c x ?b))"
    by (simp_all add: distinct_update update_nonempty)
  have "byName \<noteq> [] \<and> distinct (map fst byName)" if "(d', byName) \<in> set (AList.update d (AList.update c x ?b) m)" for d' byName
  proof -
    have "byName = AList.update c x ?b \<or> byName \<in> snd ` set m" using set_update_values that by force
    then show ?thesis using b assms by (auto simp: catalog_ok_def)
  qed
  then show ?thesis using assms by (auto simp: catalog_ok_def catalog_put_def distinct_update)
qed

text \<open>Putting the entries of a catalog one after the other gives the catalog again.\<close>

definition put_entry :: "'a catalog \<Rightarrow> js_string \<times> js_string \<times> 'a \<Rightarrow> 'a catalog" where
  "put_entry m e = (case e of (d, c, x) \<Rightarrow> catalog_put d c x m)"

lemma update_last: "k \<notin> fst ` set m \<Longrightarrow> AList.update k y (m @ [(k, x)]) = m @ [(k, y)]"
  by (induction m) auto

lemma put_database:
  assumes "d \<notin> fst ` set m" "distinct (map fst (old @ byName))" "old \<noteq> []"
  shows "foldl put_entry (m @ [(d, old)]) (map (\<lambda>(c, x). (d, c, x)) byName) = m @ [(d, old @ byName)]"
  using assms
proof (induction byName arbitrary: old)
  case (Cons e byName)
  obtain c x where e: "e = (c, x)" by fastforce
  have "map_of (m @ [(d, old)]) d = Some old" using Cons.prems(1) by (simp add: map_add_def map_of_eq_None_iff[THEN iffD2] split: option.splits)
  moreover have "map_of old c = None" using Cons.prems(2) e by (auto simp: map_of_eq_None_iff)
  ultimately have "put_entry (m @ [(d, old)]) (d, c, x) = m @ [(d, old @ [(c, x)])]"
    by (simp add: put_entry_def catalog_put_def alist_update_new update_last[OF Cons.prems(1)])
  then show ?case using Cons.IH[of "old @ [e]"] Cons.prems e by simp
qed simp

lemma catalog_entries_Cons:
  "catalog_entries ((d, byName) # m) = map (\<lambda>(c, x). (d, c, x)) byName @ catalog_entries m"
  by (simp add: catalog_entries_def)

lemma put_entries:
  assumes "catalog_ok (m @ m')"
  shows "foldl put_entry m (catalog_entries m') = m @ m'"
  using assms
proof (induction m' arbitrary: m)
  case Nil
  then show ?case by (simp add: catalog_entries_def)
next
  case (Cons e m')
  obtain d byName where e: "e = (d, byName)" by fastforce
  obtain c x rest where b: "byName = (c, x) # rest" using Cons.prems e by (cases byName) (auto simp: catalog_ok_def)
  have d: "d \<notin> fst ` set m" "distinct (map fst ([(c, x)] @ rest))" using Cons.prems e b by (auto simp: catalog_ok_def)
  have "map_of m d = None" using d(1) by (simp add: map_of_eq_None_iff)
  then have "put_entry m (d, c, x) = m @ [(d, [(c, x)])]"
    by (simp add: put_entry_def catalog_put_def alist_update_new)
  then have "foldl put_entry m (catalog_entries [e]) = m @ [e]"
    using put_database[OF d] e b by (simp add: catalog_entries_def)
  then show ?case using Cons.IH[of "m @ [e]"] Cons.prems e by (simp add: catalog_entries_Cons catalog_entries_def)
qed

lemmas put_all_entries = put_entries[of "[]", simplified]

lemma catalog_entries_map: "catalog_entries (catalog_map f m) = map (\<lambda>(d, c, x). (d, c, f x)) (catalog_entries m)"
  by (simp add: catalog_entries_def catalog_map_def map_concat comp_def split_def)

lemma catalog_entries_find:
  assumes "catalog_ok m" "(d, c, x) \<in> set (catalog_entries m)"
  shows "catalog_find d c m = Some x"
proof -
  obtain byName where "(d, byName) \<in> set m" "(c, x) \<in> set byName" using assms(2) by (auto simp: catalog_entries_def)
  moreover from this assms(1) have "map_of m d = Some byName" "map_of byName c = Some x" by (auto simp: catalog_ok_def)
  ultimately show ?thesis by (simp add: catalog_find_def)
qed

lemma catalog_find_entries: "catalog_find d c m = Some x \<Longrightarrow> (d, c, x) \<in> set (catalog_entries m)"
  by (fastforce simp: catalog_find_def catalog_entries_def split: option.splits dest!: map_of_SomeD)

section \<open>The contents of an engine\<close>

definition durable_state :: "durable \<Rightarrow> recovered_state" where
  "durable_state st = \<lparr>rs_documents = fst st, rs_indexes = map snd (snd st)\<rparr>"

definition db_state :: "engine \<Rightarrow> recovered_state catalog" where
  "db_state E = catalog_map (\<lambda>C. durable_state (durable_of C)) (en_databases E)"

text \<open>Index definitions are filed under their names, of which there are no two alike, nor two on one field.\<close>

definition specs_ok :: "(js_string \<times> index_spec) list \<Rightarrow> bool" where
  "specs_ok specs \<longleftrightarrow> distinct (map fst specs) \<and> (\<forall>(n, spec) \<in> set specs. n = is_name spec) \<and>
     distinct (map (\<lambda>(n, spec). is_field spec) specs) \<and> length specs \<le> MAX_INDEXES_PER_COLLECTION"

lemma hex_key_parse: "hex_key k \<Longrightarrow> toHexString (parse_hex k) = k"
  by (auto simp: hex_key_def)

lemma apply_document_ops:
  assumes "catalog_find d c m = Some (durable_state st)" "\<forall>op \<in> set ops. \<exists>k. hex_key k \<and> (op = JDelete k \<or> (\<exists>bs. op = JPut k bs))"
  shows "apply_all (map (toOperation d c) ops) m = Inr (catalog_put d c (durable_state (replay ops st)) m)"
  using assms
proof (induction ops arbitrary: m st)
  case Nil
  then show ?case by (simp add: replay_def catalog_put_same)
next
  case (Cons op ops)
  let ?m = "catalog_put d c (durable_state (apply_op st op)) m"
  obtain k where "hex_key k" "op = JDelete k \<or> (\<exists>bs. op = JPut k bs)" using Cons.prems(2) by auto
  then have "applyRecovered (toOperation d c op) m = Inr ?m"
    using Cons.prems(1) hex_key_parse by (auto simp: applyRecovered_def durable_state_def)
  moreover have "apply_all (map (toOperation d c) ops) ?m = Inr (catalog_put d c (durable_state (replay ops (apply_op st op))) ?m)"
    using Cons.prems(2) by (intro Cons.IH) (simp_all add: catalog_find_put)
  ultimately show ?case by (simp add: catalog_put_put replay_def)
qed

lemma specs_values:
  assumes "specs_ok specs"
  shows "map snd (AList.delete n specs) = filter (\<lambda>spec. is_name spec \<noteq> n) (map snd specs)"
proof -
  have "\<forall>p \<in> set specs. fst p = is_name (snd p)" using assms by (auto simp: specs_ok_def)
  then show ?thesis
  proof (induction specs)
    case (Cons p specs)
    then show ?case by (cases p) simp
  qed simp
qed

lemma extract_other:
  assumes "List.extract (\<lambda>x. f x = n) xs = Some (ys, x, zs)" "distinct (map f xs)"
  shows "ys @ zs = filter (\<lambda>x. f x \<noteq> n) xs"
proof -
  have e: "xs = ys @ x # zs" "f x = n" "\<forall>y \<in> set ys. f y \<noteq> n" using assms(1) by (auto simp: extract_Some_iff)
  have "f x \<notin> f ` set zs" using assms(2) unfolding e(1) by simp
  then have "filter (\<lambda>x. f x \<noteq> n) zs = zs" unfolding filter_id_conv e(2) by blast
  moreover have "filter (\<lambda>x. f x \<noteq> n) ys = ys" unfolding filter_id_conv by (rule e(3))
  ultimately show ?thesis using e(1,2) by simp
qed

lemma ops_fit_cases:
  assumes "ops_fit A st ops"
  obtains (documents) "\<forall>op \<in> set ops. \<exists>k. hex_key k \<and> (op = JDelete k \<or> (\<exists>bs. op = JPut k bs))"
    | (create) spec where "ops = [JCreateIndex spec]" "spec_fits spec (snd st)" "spec \<in> A"
    | (drop) name where "ops = [JDropIndex name]" "name \<in> fst ` set (snd st)"
proof (cases "\<forall>op \<in> set ops. \<exists>k. hex_key k \<and> (op = JDelete k \<or> (\<exists>bs. op = JPut k bs))")
  case False
  then obtain op where op: "op \<in> set ops" "\<nexists>k. hex_key k \<and> (op = JDelete k \<or> (\<exists>bs. op = JPut k bs))" by blast
  have "case op of JPut k bs \<Rightarrow> hex_key k | JDelete k \<Rightarrow> hex_key k
     | JCreateIndex spec \<Rightarrow> ops = [op] \<and> spec_fits spec (snd st) \<and> spec \<in> A | JDropIndex name \<Rightarrow> ops = [op] \<and> name \<in> fst ` set (snd st)"
    using bspec[OF assms[unfolded ops_fit_def] op(1)] .
  then show thesis using create drop op(2) by (cases op) auto
qed (rule documents)

text \<open>Replaying what a collection committed.\<close>

lemma apply_ops:
  assumes "catalog_find d c m = Some (durable_state st)" "specs_ok (snd st)" "ops_fit A st ops"
  shows "apply_all (map (toOperation d c) ops) m = Inr (catalog_put d c (durable_state (replay ops st)) m)"
proof -
  from assms(3) show ?thesis
  proof (cases rule: ops_fit_cases)
    case documents
    then show ?thesis by (rule apply_document_ops[OF assms(1)])
  next
    case (create spec)
    have names: "map is_name (map snd (snd st)) = map fst (snd st)"
      using assms(2) by (auto simp: specs_ok_def)
    have "find (\<lambda>index. is_name index = is_name spec) (map snd (snd st)) = None"
      using create(2) names unfolding spec_fits_def map_of_eq_None_iff find_None_iff by (metis (mono_tags, lifting) image_eqI list.set_map)
    then show ?thesis using create(1) assms(1) by (simp add: applyRecovered_def durable_state_def replay_def)
  next
    case (drop name)
    have names: "map is_name (map snd (snd st)) = map fst (snd st)"
      using assms(2) by (auto simp: specs_ok_def)
    then have "distinct (map is_name (map snd (snd st)))" using assms(2) by (simp only: specs_ok_def)
    moreover have "List.extract (\<lambda>index. is_name index = name) (map snd (snd st)) \<noteq> None"
      using drop(2) names unfolding extract_None_iff by (metis (mono_tags, lifting) imageE list.set_map)
    then obtain ys x zs where x: "List.extract (\<lambda>index. is_name index = name) (map snd (snd st)) = Some (ys, x, zs)" by auto
    ultimately have "ys @ zs = map snd (AList.delete name (snd st))" using extract_other specs_values[OF assms(2)] by metis
    then show ?thesis using drop(1) assms(1) x by (simp add: applyRecovered_def durable_state_def replay_def)
  qed
qed

lemma specs_ok_replay:
  assumes "specs_ok (snd st)" "ops_fit A st ops"
  shows "specs_ok (snd (replay ops st))"
proof -
  have doc: "snd (replay ops st) = snd st" if "\<forall>op \<in> set ops. \<exists>k bs. op = JDelete k \<or> op = JPut k bs" for ops st
    using that by (induction ops arbitrary: st) (auto simp: replay_def)
  from assms(2) show ?thesis
  proof (cases rule: ops_fit_cases)
    case documents
    then have "snd (replay ops st) = snd st" by (intro doc) blast
    then show ?thesis using assms(1) by simp
  next
    case (create spec)
    then show ?thesis using assms(1)
      by (auto simp: replay_def specs_ok_def spec_fits_def map_of_eq_None_iff image_iff split_def)
  next
    case (drop name)
    then show ?thesis using assms(1)
      by (auto simp: replay_def specs_ok_def AList.delete_eq distinct_map_filter intro: le_trans[OF length_filter_le])
  qed
qed

section \<open>Rebuilding collections\<close>

lemma buildIndex_rebuilds:
  assumes "coll_inv C" "spec_fits spec (specs_of (co_indexes C))" "unique_in spec (map_of (view C))"
  shows "\<exists>C'. buildIndex spec C = (Inr True, C')"
proof -
  have inv: "docs_inv (co_documents C)" "set_repr (co_indexes C) (map_of (view C))" "all_unique (co_indexes C) (map_of (view C))"
    using assms(1) by (simp_all add: coll_inv_def)
  have "is_name spec \<notin> fst ` set (co_indexes C)"
    using assms(2) unfolding spec_fits_def map_of_eq_None_iff by (metis list.set_map names_specs_of)
  then have new: "map_of (co_indexes C) (is_name spec) = None" by (simp add: map_of_eq_None_iff)
  moreover have "\<not> list_ex (\<lambda>other. is_field (fx_spec other) = is_field spec) (all_indexes (co_indexes C))"
    "\<not> MAX_INDEXES_PER_COLLECTION \<le> length (co_indexes C)"
    using assms(2) by (auto simp: spec_fits_def specs_of_def all_indexes_def list_ex_iff image_iff split_def)
  moreover have "create_index spec (view C) (co_indexes C) \<noteq> Inl (StorageError DuplicateKey)"
    using create_index_spec[OF inv(2) docs_inv_view(1)[OF inv(1)] inv(3), of spec] assms(3) by auto
  ultimately obtain S where "create_index spec (view C) (co_indexes C) = Inr (Created, S)"
    by (auto simp: create_index_def split: option.splits)
  then show ?thesis using decodedEntries_ok[OF inv(1)] by (simp add: buildIndex_def Let_def)
qed

lemma specs_ok_fits:
  assumes "specs_ok (specs @ (n, spec) # rest)"
  shows "spec_fits spec specs" "n = is_name spec"
proof -
  show n: "n = is_name spec" using assms by (simp add: specs_ok_def)
  have "n \<notin> fst ` set specs" "length specs < MAX_INDEXES_PER_COLLECTION" using assms by (auto simp: specs_ok_def)
  moreover have "is_field spec \<notin> (\<lambda>(n, spec). is_field spec) ` set specs" using assms by (simp add: specs_ok_def)
  ultimately show "spec_fits spec specs" using n by (simp add: spec_fits_def map_of_eq_None_iff image_image split_def)
qed

lemma build_indexes_rebuilds:
  assumes "coll_inv C" "specs_ok (specs_of (co_indexes C) @ rest)" "\<forall>(n, spec) \<in> set rest. unique_in spec (map_of (view C))"
  shows "\<exists>C'. build_indexes (map snd rest) C = (Inr (), C') \<and> coll_inv C' \<and> co_documents C' = co_documents C \<and>
    co_journal C' = co_journal C \<and> specs_of (co_indexes C') = specs_of (co_indexes C) @ rest"
  using assms
proof (induction rest arbitrary: C)
  case Nil
  then show ?case by (simp add: returnS_def)
next
  case (Cons p rest)
  obtain n spec where p: "p = (n, spec)" by fastforce
  note fits = specs_ok_fits[OF Cons.prems(2)[unfolded p]]
  obtain C1 where b: "buildIndex spec C = (Inr True, C1)" using buildIndex_rebuilds[OF Cons.prems(1) fits(1)] Cons.prems(3) p by auto
  have C1: "coll_inv C1" "co_documents C1 = co_documents C" "co_journal C1 = co_journal C"
      "specs_of (co_indexes C1) = specs_of (co_indexes C) @ [(n, spec)]"
    using buildIndex_spec[OF Cons.prems(1) b] fits(2) by simp_all
  have "\<exists>C'. build_indexes (map snd rest) C1 = (Inr (), C') \<and> coll_inv C' \<and> co_documents C' = co_documents C1 \<and>
      co_journal C' = co_journal C1 \<and> specs_of (co_indexes C') = specs_of (co_indexes C1) @ rest"
    using Cons.prems(2,3) C1 p by (intro Cons.IH) simp_all
  then show ?case using b C1 p by (simp add: bindS_def)
qed

lemma new_collection_rebuilds:
  assumes "coll_inv C" "specs_ok (specs_of (co_indexes C))"
  shows "\<exists>C'. new_collection None (co_documents C) (map snd (specs_of (co_indexes C))) = Inr C' \<and> coll_inv C' \<and> durable_of C' = durable_of C"
proof -
  let ?C = "empty_collection None (co_documents C) :: 'b collection"
  have e: "coll_inv ?C" "specs_of (co_indexes ?C) = []" "view ?C = view C"
    using assms(1) by (simp_all add: coll_inv_def empty_collection_def set_repr_def fam_repr_def all_unique_def specs_of_def)
  have "\<forall>(n, spec) \<in> set (specs_of (co_indexes C)). unique_in spec (map_of (view ?C))"
    using assms(1) e(3) by (auto simp: coll_inv_def all_unique_def)
  then obtain C' where "build_indexes (map snd (specs_of (co_indexes C))) ?C = (Inr (), C')" "coll_inv C'" "co_documents C' = co_documents ?C"
      "specs_of (co_indexes C') = specs_of (co_indexes C)"
    using build_indexes_rebuilds[OF e(1), of "specs_of (co_indexes C)"] assms(2) e(2) by auto
  then show ?thesis by (simp add: new_collection_def durable_of_def empty_collection_def)
qed

text \<open>Collections whose index definitions survive the log and snapshots.\<close>

definition spec_durable :: "index_spec \<Rightarrow> bool" where
  "spec_durable spec \<longleftrightarrow> spec_normal spec \<and> name_ok (is_name spec) \<and> name_ok (is_field spec)"

definition coll_good :: "'j collection \<Rightarrow> bool" where
  "coll_good C \<longleftrightarrow> coll_inv C \<and> specs_ok (specs_of (co_indexes C)) \<and> (\<forall>(n, spec) \<in> set (specs_of (co_indexes C)). spec_durable spec)"

definition state_good :: "recovered_state \<Rightarrow> bool" where
  "state_good s \<longleftrightarrow> (\<exists>C :: unit collection. coll_good C \<and> s = durable_state (durable_of C))"

definition entries_all :: "('a \<Rightarrow> bool) \<Rightarrow> 'a catalog \<Rightarrow> bool" where
  "entries_all P m \<longleftrightarrow> catalog_ok m \<and> (\<forall>(d, c, x) \<in> set (catalog_entries m). name_ok d \<and> name_ok c \<and> P x)"

lemma entries_all_find: "entries_all P m \<Longrightarrow> catalog_find d c m = Some x \<Longrightarrow> name_ok d \<and> name_ok c \<and> P x"
  using catalog_find_entries by (fastforce simp: entries_all_def)

lemma entries_all_put:
  assumes "entries_all P m" "name_ok d" "name_ok c" "P x"
  shows "entries_all P (catalog_put d c x m)"
proof -
  have ok: "catalog_ok (catalog_put d c x m)" using assms(1) catalog_ok_put by (auto simp: entries_all_def)
  have "name_ok d' \<and> name_ok c' \<and> P y" if "(d', c', y) \<in> set (catalog_entries (catalog_put d c x m))" for d' c' y
    using catalog_entries_find[OF ok that] entries_all_find[OF assms(1)] assms(2-4) by (auto simp: catalog_find_put split: if_splits)
  then show ?thesis using ok by (auto simp: entries_all_def)
qed

lemma entries_all_empty [simp]: "entries_all P []"
  by (simp add: entries_all_def catalog_ok_def catalog_entries_def)

definition engine_good :: "engine \<Rightarrow> bool" where
  "engine_good E \<longleftrightarrow> entries_all coll_good (en_databases E)"

lemma engine_good_state: "engine_good E \<Longrightarrow> entries_all state_good (db_state E)"
  by (fastforce simp: engine_good_def db_state_def entries_all_def catalog_entries_map state_good_def)

lemma store_collection_state:
  "db_state (store_collection d c C E) = catalog_put d c (durable_state (durable_of C)) (db_state E)"
  by (simp add: db_state_def store_collection_def catalog_map_put)

lemma register_rebuilds:
  assumes "state_good s"
  shows "\<exists>C'. register d c (rs_documents s) (rs_indexes s) E = (Inr (), store_collection d c C' E) \<and> coll_good C' \<and>
    durable_state (durable_of C') = s"
proof -
  obtain C :: "unit collection" where C: "coll_good C" "s = durable_state (durable_of C)" using assms by (auto simp: state_good_def)
  then obtain C' :: "unit collection" where C': "new_collection None (co_documents C) (map snd (specs_of (co_indexes C))) = Inr C'" "coll_inv C'" "durable_of C' = durable_of C"
    using new_collection_rebuilds[where 'b = unit, of C] by (auto simp: coll_good_def)
  moreover have "coll_good C'" using C(1) C'(2,3) by (simp add: coll_good_def durable_of_def)
  ultimately show ?thesis using C(2) by (auto simp: register_def fromR_def modifyS_def bindS_def durable_state_def durable_of_def)
qed

lemma register_all_rebuilds:
  assumes "\<forall>(d, c, s) \<in> set es. name_ok d \<and> name_ok c \<and> state_good s" "engine_good E"
  shows "\<exists>n M. register_all es E = (Inr n, E\<lparr>en_databases := M\<rparr>) \<and> engine_good (E\<lparr>en_databases := M\<rparr>) \<and>
    db_state (E\<lparr>en_databases := M\<rparr>) = foldl put_entry (db_state E) es"
  using assms
proof (induction es arbitrary: E)
  case Nil
  then show ?case by (intro exI[of _ 0] exI[of _ "en_databases E"]) (simp add: returnS_def)
next
  case (Cons e es)
  obtain d c s where e: "e = (d, c, s)" by (cases e) auto
  obtain C' where C': "register d c (rs_documents s) (rs_indexes s) E = (Inr (), store_collection d c C' E)" "coll_good C'" "durable_state (durable_of C') = s"
    using register_rebuilds[of s d c E] Cons.prems(1) e by auto
  let ?E = "store_collection d c C' E"
  have "engine_good ?E" using Cons.prems e C'(2) by (auto simp: engine_good_def store_collection_def intro!: entries_all_put)
  then obtain n M where M: "register_all es ?E = (Inr n, ?E\<lparr>en_databases := M\<rparr>)" "engine_good (?E\<lparr>en_databases := M\<rparr>)"
      "db_state (?E\<lparr>en_databases := M\<rparr>) = foldl put_entry (db_state ?E) es"
    using Cons.IH[of ?E] Cons.prems(1) by auto
  have "?E\<lparr>en_databases := M\<rparr> = E\<lparr>en_databases := M\<rparr>" by (simp add: store_collection_def)
  moreover have "db_state ?E = put_entry (db_state E) e" using C'(3) e by (simp add: store_collection_state put_entry_def)
  ultimately show ?case using M C'(1) e by (auto simp: bindS_def catchS_def returnS_def)
qed

section \<open>Snapshots\<close>

text \<open>A snapshot holds the contents of the engine.\<close>

lemma indexSpec_specs: "indexSpec C = map snd (specs_of (co_indexes C))"
  by (simp add: indexSpec_def index_specs_def specs_of_def all_indexes_def comp_def split_def)

lemma recovered_catalog_entries:
  "recovered_catalog (map recovered_of (map (\<lambda>(d, c, C). \<lparr>cc_database = d, cc_collection = c, cc_documents = co_documents C,
     cc_documentCount = n C, cc_indexes = indexSpec C\<rparr>) es)) =
   foldl put_entry [] (map (\<lambda>(d, c, C). (d, c, durable_state (durable_of C))) es)"
  unfolding recovered_catalog_def foldl_map
  by (rule foldl_cong) (auto simp: put_entry_def recovered_of_def durable_state_def durable_of_def indexSpec_specs)

lemma snapshot_state:
  assumes "catalog_ok (en_databases E)"
  shows "recovered_catalog (map recovered_of (snapshot_collections nothing_building E)) = db_state E"
proof -
  have "catalog_entries (db_state E) = map (\<lambda>(d, c, C). (d, c, durable_state (durable_of C))) (catalog_entries (en_databases E))"
    by (simp add: db_state_def catalog_entries_map)
  moreover have "foldl put_entry [] (catalog_entries (db_state E)) = db_state E"
    using assms by (intro put_all_entries) (simp add: db_state_def)
  ultimately show ?thesis
    unfolding snapshot_collections_def nothing_building_def append_Nil2 by (simp only: recovered_catalog_entries)
qed

lemma snapshot_good:
  assumes "engine_good E"
  shows "\<forall>c \<in> set (snapshot_collections nothing_building E). snapshot_ok c"
proof
  fix cc
  assume "cc \<in> set (snapshot_collections nothing_building E)"
  then obtain d c C where e: "(d, c, C) \<in> set (catalog_entries (en_databases E))"
      "cc = \<lparr>cc_database = d, cc_collection = c, cc_documents = co_documents C, cc_documentCount = documentCount C, cc_indexes = indexSpec C\<rparr>"
    by (auto simp: snapshot_collections_def nothing_building_def)
  then have "name_ok d" "name_ok c" "coll_good C" using assms by (auto simp: engine_good_def entries_all_def)
  moreover from this have "docs_inv (co_documents C)" by (simp add: coll_good_def coll_inv_def)
  moreover from this have "\<exists>i. length i = ID_BYTE_LENGTH \<and> k = toHexString i" if "k \<in> fst ` set (co_documents C)" for k
    using that stored_hex by (fastforce simp: docs_inv_def hex_key_def ID_BYTE_LENGTH_def)
  ultimately show "snapshot_ok cc"
    using e(2) by (auto simp: snapshot_ok_def indexSpec_specs coll_good_def spec_durable_def docs_inv_def documentCount_def)
qed

text \<open>Rebuilding the collections of an engine from its contents.\<close>

lemma contents_rebuilt:
  assumes "entries_all state_good m" "en_databases E = []"
  shows "\<exists>n M. register_all (catalog_entries m) E = (Inr n, E\<lparr>en_databases := M\<rparr>) \<and> engine_good (E\<lparr>en_databases := M\<rparr>) \<and>
    db_state (E\<lparr>en_databases := M\<rparr>) = m"
proof -
  have "engine_good E" "db_state E = []" using assms(2) by (simp_all add: engine_good_def db_state_def catalog_map_def)
  moreover have "foldl put_entry [] (catalog_entries m) = m" using assms(1) by (intro put_all_entries) (simp add: entries_all_def)
  ultimately show ?thesis using register_all_rebuilds[of "catalog_entries m" E] assms(1) by (simp add: entries_all_def)
qed

end
