(* ===== verification/Wal_Invariant.thy ===== *)
theory Wal_Invariant
  imports Wal_Recovery
begin

text \<open>
  The invariant of an open log. The records of the log are those of its segments; the last segment
  may still have records in memory (\<open>wl_pending\<close>), and a broken log may have written some bytes of
  one more record. Records below the number \<open>D\<close> are durable: their bytes are stable.
\<close>

section \<open>Changing the last segment\<close>

lemma clean_logD:
  assumes "clean_log st dir durable n0 gs ys n s"
  obtains f where "file_at (segment_path dir (log_end n0 gs)) st = Some f" "fi_data f = header_bytes (log_end n0 gs) @ take n (log_bytes (log_end n0 gs) ys)"
    "fi_synced f \<le> length (fi_data f)" "durable \<longrightarrow> fi_linked f \<and> SEGMENT_HEADER_SIZE + s \<le> fi_synced f"
    "length (fi_data f) = SEGMENT_HEADER_SIZE + n"
proof -
  from assms have "log_end n0 gs < 2 ^ 64" "n \<le> length (log_bytes (log_end n0 gs) ys)"
    "tail_segment st dir durable (log_end n0 gs) ys n s" by (simp_all add: clean_log_def)
  then show thesis using that unfolding tail_segment_def by (auto simp: length_header)
qed

text \<open>A new version of the file of the last segment.\<close>

lemma clean_log_replace:
  assumes "clean_log st dir durable n0 gs ys n s" "only_changes (segment_path dir (log_end n0 gs)) st st'"
    and "file_at (segment_path dir (log_end n0 gs)) st' = Some f'"
    and "fi_data f' = header_bytes (log_end n0 gs) @ take n' (log_bytes (log_end n0 gs) ys')" "fi_synced f' \<le> length (fi_data f')"
    and "durable \<longrightarrow> fi_linked f' \<and> SEGMENT_HEADER_SIZE + s' \<le> fi_synced f'"
    and "log_ok n0 (concat gs @ ys')" "s' \<le> n'" "n' \<le> length (log_bytes (log_end n0 gs) ys')"
  shows "clean_log st' dir durable n0 gs ys' n' s'"
proof -
  let ?p = "segment_path dir (log_end n0 gs)"
  have c: "log_end n0 gs < 2 ^ 64" "sealed st dir durable n0 gs" "known_names st dir (set (starts n0 gs) \<union> {log_end n0 gs})"
    using assms(1) by (simp_all add: clean_log_def)
  have same: "file_at q st' = file_at q st" if "q \<noteq> ?p" for q using assms(2) that by (cases q) (simp add: only_changes_def)
  have "sealed st' dir durable n0 gs"
  proof (rule sealed_mono[OF c(2)])
    fix x f
    assume x: "x \<in> set (starts n0 gs)" "file_at (segment_path dir x) st = Some f"
    have "x < log_end n0 gs" using starts_less[OF x(1) sealed_nonempty[OF c(2)]] by (simp add: log_end_def)
    then have "segment_path dir x \<noteq> ?p" using segment_path_inj[of x "log_end n0 gs" dir] c(1) by auto
    then show "\<exists>f'. file_at (segment_path dir x) st' = Some f' \<and> relinked f f'" using same x(2) by simp
  qed
  moreover have "known_names st' dir (set (starts n0 gs) \<union> {log_end n0 gs})"
    unfolding known_names_def
  proof (intro allI impI)
    fix x :: nat
    assume x: "x < 10 ^ 20" "file_at (segment_path dir x) st' \<noteq> None"
    show "x \<in> set (starts n0 gs) \<union> {log_end n0 gs}"
    proof (cases "segment_path dir x = ?p")
      case True
      then have "x = log_end n0 gs" using x(1) c(1) unfolding segment_path_def
        by (metis Pair_inject option.inject parse_lsn_name segment_name_parse)
      then show ?thesis by simp
    next
      case False
      then show ?thesis using c(3) x same by (auto simp: known_names_def)
    qed
  qed
  moreover have "tail_segment st' dir durable (log_end n0 gs) ys' n' s'"
    using assms(3-6) by (auto simp: tail_segment_def)
  ultimately show ?thesis
    using assms(1,2,7-9) by (simp add: clean_log_def only_changes_def quiet_def)
qed

lemma clean_log_grow:
  assumes "clean_log st dir durable n0 gs ks n s" "log_ok n0 (concat gs @ ks @ ps)"
  shows "clean_log st dir durable n0 gs (ks @ ps) n s"
proof -
  from assms(1) have "n \<le> length (log_bytes (log_end n0 gs) ks)" by (simp add: clean_log_def)
  then show ?thesis using assms by (auto simp: clean_log_def log_bytes_append tail_segment_def)
qed

lemma clean_log_shrink:
  assumes "clean_log st dir durable n0 gs (ks @ ps) n s" "n \<le> length (log_bytes (log_end n0 gs) ks)"
  shows "clean_log st dir durable n0 gs ks n s"
proof -
  have "log_ok n0 (concat gs @ ks)" using assms(1) by (auto simp: clean_log_def log_ok_def)
  then show ?thesis using assms by (auto simp: clean_log_def log_bytes_append tail_segment_def)
qed

lemma clean_log_write:
  assumes "clean_log st dir durable n0 gs ks (length (log_bytes (log_end n0 gs) ks)) s" "log_ok n0 (concat gs @ ks @ ps)"
    and "file_at (segment_path dir (log_end n0 gs)) st = Some f" "only_changes (segment_path dir (log_end n0 gs)) st st'"
    and "file_at (segment_path dir (log_end n0 gs)) st' = Some (append_bytes (take k (log_bytes (log_end n0 gs + length ks) ps)) f)"
    and "k \<le> length (log_bytes (log_end n0 gs + length ks) ps)"
  shows "clean_log st' dir durable n0 gs (ks @ ps) (length (log_bytes (log_end n0 gs) ks) + k) s"
proof -
  let ?l = "log_end n0 gs"
  obtain g where g: "file_at (segment_path dir ?l) st = Some g" "fi_data g = header_bytes ?l @ log_bytes ?l ks"
      "fi_synced g \<le> length (fi_data g)" "durable \<longrightarrow> fi_linked g \<and> SEGMENT_HEADER_SIZE + s \<le> fi_synced g"
    by (rule clean_logD[OF assms(1)]) simp
  have f: "g = f" using g(1) assms(3) by simp
  have s: "s \<le> length (log_bytes ?l ks)" using assms(1) by (simp add: clean_log_def)
  show ?thesis
    by (rule clean_log_replace[OF assms(1,4,5)]) (use g assms(2,6) s in \<open>auto simp: f append_bytes_def log_bytes_append\<close>)
qed

lemma clean_log_synced:
  assumes "clean_log st dir durable n0 gs ys n s" "file_at (segment_path dir (log_end n0 gs)) st = Some f"
    and "only_changes (segment_path dir (log_end n0 gs)) st st'"
    and "file_at (segment_path dir (log_end n0 gs)) st' = Some (f\<lparr>fi_synced := length (fi_data f)\<rparr>)"
  shows "clean_log st' dir durable n0 gs ys n n"
proof -
  obtain g where g: "file_at (segment_path dir (log_end n0 gs)) st = Some g"
      "fi_data g = header_bytes (log_end n0 gs) @ take n (log_bytes (log_end n0 gs) ys)"
      "durable \<longrightarrow> fi_linked g" "length (fi_data g) = SEGMENT_HEADER_SIZE + n"
    by (rule clean_logD[OF assms(1)]) simp
  then have "f = g" using assms(2) by simp
  moreover have "log_ok n0 (concat gs @ ys)" "n \<le> length (log_bytes (log_end n0 gs) ys)" using assms(1) by (simp_all add: clean_log_def)
  ultimately show ?thesis by (intro clean_log_replace[OF assms(1,3,4)]) (use g in auto)
qed

lemma clean_log_cut:
  assumes "clean_log st dir durable n0 gs ys n s" "file_at (segment_path dir (log_end n0 gs)) st = Some f"
    and "only_changes (segment_path dir (log_end n0 gs)) st st'" "s \<le> n'" "n' \<le> n"
    and "file_at (segment_path dir (log_end n0 gs)) st' =
      Some (f\<lparr>fi_data := take (SEGMENT_HEADER_SIZE + n') (fi_data f), fi_synced := min (fi_synced f) (SEGMENT_HEADER_SIZE + n')\<rparr>)"
  shows "clean_log st' dir durable n0 gs ys n' s"
proof -
  obtain g where g: "file_at (segment_path dir (log_end n0 gs)) st = Some g"
      "fi_data g = header_bytes (log_end n0 gs) @ take n (log_bytes (log_end n0 gs) ys)"
      "durable \<longrightarrow> fi_linked g \<and> SEGMENT_HEADER_SIZE + s \<le> fi_synced g" "length (fi_data g) = SEGMENT_HEADER_SIZE + n"
    by (rule clean_logD[OF assms(1)]) simp
  then have f: "f = g" using assms(2) by simp
  have c: "log_ok n0 (concat gs @ ys)" "n \<le> length (log_bytes (log_end n0 gs) ys)" "log_end n0 gs < 2 ^ 64"
    using assms(1) by (simp_all add: clean_log_def)
  show ?thesis
    by (rule clean_log_replace[OF assms(1,3,6)]) (use g f c assms(4,5) length_header[OF c(3)] in \<open>auto simp: min_def\<close>)
qed

section \<open>The invariant\<close>

fun entry_list :: "nat \<Rightarrow> log_entry list \<Rightarrow> bytes list" where
  "entry_list lsn [] = []"
| "entry_list lsn (x # xs) = entry_bytes lsn x # entry_list (lsn + 1) xs"

lemma concat_entry_list [simp]: "concat (entry_list lsn xs) = log_bytes lsn xs"
  by (induction xs arbitrary: lsn) simp_all

lemma entry_list_append: "entry_list lsn (xs @ ys) = entry_list lsn xs @ entry_list (lsn + length xs) ys"
  by (induction xs arbitrary: lsn) simp_all

text \<open>
  The fields of the log \<open>w\<close>, whose last segment has the records \<open>xs\<close>; of their bytes and those of \<open>ex\<close>,
  the record a broken log was writing, one of \<open>X\<close>, \<open>n\<close> are in the file.
\<close>

definition log_fields :: "log_entry set \<Rightarrow> wal \<Rightarrow> nat \<Rightarrow> log_entry list list \<Rightarrow> log_entry list \<Rightarrow> log_entry list \<Rightarrow> nat \<Rightarrow> bool" where
  "log_fields X w n0 gs xs ex n \<longleftrightarrow> (let l = log_end n0 gs in
     length ex \<le> 1 \<and> set ex \<subseteq> X \<and>
     wl_segments w = map (segment_at (wl_directory w)) (starts n0 gs @ [l]) \<and>
     (\<not> wl_closed w \<longrightarrow> wl_fd w = Some (segment_path (wl_directory w) l)) \<and>
     (wl_mode w = Flushed \<longrightarrow> flushes_directories w) \<and>
     (\<not> wl_broken w \<longrightarrow> ex = [] \<and> wl_nextLsn w = l + length xs \<and>
        wl_position w = SEGMENT_HEADER_SIZE + length (log_bytes l xs) \<and> wl_pendingBytes w = length (concat (wl_pending w)) \<and>
        (\<exists>ks ps. xs = ks @ ps \<and> n = length (log_bytes l ks) \<and> wl_pending w = entry_list (l + length ks) ps \<and>
          (wl_mode w \<noteq> Memory \<longrightarrow> ps = []))))"

definition stable_below :: "nat \<Rightarrow> nat \<Rightarrow> log_entry list \<Rightarrow> nat \<Rightarrow> bool" where
  "stable_below D l xs s \<longleftrightarrow> D \<le> l + length xs \<and> length (log_bytes l (take (D - l) xs)) \<le> s"

definition clean_inv :: "log_entry set \<Rightarrow> wal \<Rightarrow> nat \<Rightarrow> log_entry list list \<Rightarrow> log_entry list \<Rightarrow> nat \<Rightarrow> bool" where
  "clean_inv X w n0 gs xs D \<longleftrightarrow> (\<exists>ex n s. clean_log w (wl_directory w) (wl_mode w = Flushed) n0 gs (xs @ ex) n s \<and>
     log_fields X w n0 gs xs ex n \<and> stable_below D (log_end n0 gs) xs s)"

definition log_inv :: "log_entry set \<Rightarrow> wal \<Rightarrow> nat \<Rightarrow> log_entry list list \<Rightarrow> log_entry list \<Rightarrow> nat \<Rightarrow> bool" where
  "log_inv X w n0 gs xs D \<longleftrightarrow> (\<exists>ex n s. disk_log False w (wl_directory w) (wl_mode w = Flushed) n0 gs (xs @ ex) n s \<and>
     log_fields X w n0 gs xs ex n \<and> stable_below D (log_end n0 gs) xs s)"

lemma clean_log_inv: "clean_inv X w n0 gs xs D \<Longrightarrow> log_inv X w n0 gs xs D"
  unfolding clean_inv_def log_inv_def disk_log_cases by blast

lemma log_fields_mono: "log_fields X w n0 gs xs ex n \<Longrightarrow> X \<subseteq> Y \<Longrightarrow> log_fields Y w n0 gs xs ex n"
  by (auto simp: log_fields_def Let_def)

lemma log_fields_not_broken: "log_fields X w n0 gs xs ex n \<Longrightarrow> \<not> wl_broken w \<Longrightarrow> log_fields Y w n0 gs xs ex n"
  by (simp add: log_fields_def Let_def)

lemma log_inv_mono: "log_inv X w n0 gs xs D \<Longrightarrow> X \<subseteq> Y \<Longrightarrow> log_inv Y w n0 gs xs D"
  unfolding log_inv_def using log_fields_mono by blast

lemma clean_inv_not_broken: "clean_inv X w n0 gs xs D \<Longrightarrow> \<not> wl_broken w \<Longrightarrow> clean_inv Y w n0 gs xs D"
  unfolding clean_inv_def using log_fields_not_broken by blast

text \<open>No rotation has left a file behind.\<close>

definition no_leftover :: "wal \<Rightarrow> bool" where
  "no_leftover w \<longleftrightarrow> known_names w (wl_directory w) (set (map sg_firstLsn (wl_segments w)))"

lemma log_inv_clean:
  assumes "log_inv X w n0 gs xs D" "no_leftover w"
  shows "clean_inv X w n0 gs xs D"
proof -
  obtain ex n s where i: "disk_log False w (wl_directory w) (wl_mode w = Flushed) n0 gs (xs @ ex) n s"
      "log_fields X w n0 gs xs ex n" "stable_below D (log_end n0 gs) xs s" using assms(1) by (auto simp: log_inv_def)
  have names: "known_names w (wl_directory w) (set (starts n0 gs) \<union> {log_end n0 gs})"
    using assms(2) i(2) by (simp add: no_leftover_def log_fields_def Let_def segment_at_def comp_def image_image)
  have "clean_log w (wl_directory w) (wl_mode w = Flushed) n0 gs (xs @ ex) n s"
    using i(1) names unfolding disk_log_cases by (auto simp: clean_log_def)
  then show ?thesis using i(2,3) by (auto simp: clean_inv_def)
qed

text \<open>The fields survive what the file system does.\<close>

lemma quiet_fields:
  assumes "quiet w (w' :: wal)"
  shows "wl_directory w' = wl_directory w" "wl_mode w' = wl_mode w" "wl_groupCommit w' = wl_groupCommit w"
    "wl_segmentSizeBytes w' = wl_segmentSizeBytes w" "wl_segments w' = wl_segments w" "wl_fd w' = wl_fd w"
    "wl_position w' = wl_position w" "wl_nextLsn w' = wl_nextLsn w" "wl_pending w' = wl_pending w"
    "wl_pendingBytes w' = wl_pendingBytes w" "wl_unsynced w' = wl_unsynced w" "wl_broken w' = wl_broken w" "wl_closed w' = wl_closed w"
  using assms by (cases w; cases w'; simp add: quiet_def)+

lemma only_changes_quiet: "only_changes p st st' \<Longrightarrow> quiet st st'" by (simp add: only_changes_def)

lemma log_fields_quiet:
  assumes "quiet w w'" "log_fields X w n0 gs xs ex n"
  shows "log_fields X w' n0 gs xs ex n"
  using assms(2) flushes_mono[OF assms(1)] by (simp add: log_fields_def Let_def quiet_fields[OF assms(1)])

section \<open>Opening\<close>

lemma fault_nonempty: "Fault c \<in> set (os_faults st) \<Longrightarrow> os_faults st \<noteq> []"
  by auto

lemma open_active_run:
  assumes "open_active p validEnd st = (r, st')" "file_at p st = Some f" "validEnd \<le> length (fi_data f)" "fi_synced f \<le> length (fi_data f)"
  shows "(\<exists>e. r = Inl e \<and> os_faults st \<noteq> []) \<or>
    (r = Inr p \<and> only_changes p st st' \<and> (\<exists>f'. file_at p st' = Some f' \<and> fi_data f' = take validEnd (fi_data f) \<and>
      fi_linked f' = fi_linked f \<and> fi_synced f' = (if validEnd < length (fi_data f) then validEnd else fi_synced f)))"
proof -
  obtain r1 st1 where o: "openSync_rw p st = (r1, st1)" by fastforce
  have "file_at p st \<noteq> None" using assms(2) by simp
  note O = openSync_rw_run[OF o this]
  obtain r2 st2 where s: "statSize p st1 = (r2, st2)" by fastforce
  have f1: "file_at p st1 = Some f" using O(2) assms(2) by simp
  note S = statSize_run[OF s f1]
  have f2: "file_at p st2 = Some f" using S(2) f1 by simp
  have oc: "only_changes p st st2" using only_changes_trans[OF O(1) S(1)] .
  have q1: "os_faults st1 \<noteq> [] \<Longrightarrow> os_faults st \<noteq> []" and q2: "os_faults st2 \<noteq> [] \<Longrightarrow> os_faults st \<noteq> []"
    using quiet_faults only_changes_quiet[OF O(1)] only_changes_quiet[OF oc] by blast+
  show ?thesis
  proof (cases "r1 = Inr p \<and> r2 = Inr (length (fi_data f))")
    case False
    then have "\<exists>e. r = Inl e" using assms(1) o s O(3) S(3) by (auto simp: open_active_def catchS_def bindS_def throwS_def)
    moreover have "os_faults st \<noteq> []" using False O(3) S(3) q1 by (cases "os_faults st1") auto
    ultimately show ?thesis by blast
  next
    case opened: True
    show ?thesis
    proof (cases "validEnd < length (fi_data f)")
      case False
      then have "r = Inr p" "st' = st2" using assms(1) o s opened by (simp_all add: open_active_def catchS_def bindS_def returnS_def)
      then show ?thesis using oc f2 False assms(3) by auto
    next
      case True
      obtain r3 st3 where t: "ftruncateSync p validEnd st2 = (r3, st3)" by fastforce
      from t f2 assms(3) show ?thesis
      proof (cases rule: ftruncateSync_run)
        case (fails c)
        then have "\<exists>e. r = Inl e" using assms(1) o s opened True t by (auto simp: open_active_def catchS_def bindS_def throwS_def)
        then show ?thesis using q2[OF fault_nonempty[OF fails(2)]] by blast
      next
        case cut
        let ?g = "f\<lparr>fi_data := take validEnd (fi_data f), fi_synced := min (fi_synced f) validEnd\<rparr>"
        obtain r4 st4 where y: "fsyncSync p st3 = (r4, st4)" by fastforce
        have q3: "os_faults st3 \<noteq> [] \<Longrightarrow> os_faults st \<noteq> []"
          using quiet_faults quiet_trans[OF only_changes_quiet[OF oc] only_changes_quiet[OF cut(2)]] by blast
        from y cut(3) show ?thesis
        proof (cases rule: fsyncSync_run)
          case (fails c)
          then have "\<exists>e. r = Inl e" using assms(1) o s opened True t cut(1) y by (auto simp: open_active_def catchS_def bindS_def throwS_def)
          then show ?thesis using q3[OF fault_nonempty[OF fails(2)]] by blast
        next
          case synced
          then have "r = Inr p" "st' = st4"
            using assms(1) o s opened True t cut(1) y by (simp_all add: open_active_def catchS_def bindS_def returnS_def)
          then show ?thesis
            using synced(3) True only_changes_trans[OF only_changes_trans[OF oc cut(2)] synced(2)] by auto
        qed
      qed
    qed
  qed
qed

lemma file_at_files: "os_files st' = os_files st \<Longrightarrow> file_at p st' = file_at p st"
  by (simp add: file_at_def)

lemma sealed_files_eq: "os_files st' = os_files st \<Longrightarrow> sealed st' dir durable n gs = sealed st dir durable n gs"
  by (induction gs arbitrary: n) (simp_all add: file_at_files[of st' st])

lemma clean_log_files: "os_files st' = os_files st \<Longrightarrow> clean_log st' dir durable n0 gs ys n s = clean_log st dir durable n0 gs ys n s"
  by (simp add: clean_log_def tail_segment_def known_names_def file_at_files[of st' st] sealed_files_eq[of st' st])

lemma new_wal_fields [simp]:
  "os_files (new_wal options mode grp bytes segments fd position nextLsn st) = os_files st"
  "os_faults (new_wal options mode grp bytes segments fd position nextLsn st) = os_faults st"
  "wl_directory (new_wal options mode grp bytes segments fd position nextLsn st) = wo_directory options"
  "wl_mode (new_wal options mode grp bytes segments fd position nextLsn st) = mode"
  "wl_groupCommit (new_wal options mode grp bytes segments fd position nextLsn st) = grp"
  "wl_segments (new_wal options mode grp bytes segments fd position nextLsn st) = segments"
  "wl_fd (new_wal options mode grp bytes segments fd position nextLsn st) = Some fd"
  "wl_position (new_wal options mode grp bytes segments fd position nextLsn st) = position"
  "wl_nextLsn (new_wal options mode grp bytes segments fd position nextLsn st) = nextLsn"
  "wl_pending (new_wal options mode grp bytes segments fd position nextLsn st) = []"
  "wl_pendingBytes (new_wal options mode grp bytes segments fd position nextLsn st) = 0"
  "\<not> wl_unsynced (new_wal options mode grp bytes segments fd position nextLsn st)"
  "\<not> wl_broken (new_wal options mode grp bytes segments fd position nextLsn st)"
  "\<not> wl_closed (new_wal options mode grp bytes segments fd position nextLsn st)"
  by (simp_all add: new_wal_def os.defs)

text \<open>A log over a clean directory whose last segment ends with a whole record.\<close>

lemma new_wal_inv:
  assumes "clean_log st (wo_directory options) (mode = Flushed) n0 gs xs (length (log_bytes (log_end n0 gs) xs)) s"
    and "mode = Flushed \<longrightarrow> flushes_directories st" "stable_below D (log_end n0 gs) xs s"
  shows "clean_inv X (new_wal options mode grp bytes (map (segment_at (wo_directory options)) (starts n0 gs @ [log_end n0 gs]))
      (segment_path (wo_directory options) (log_end n0 gs)) (SEGMENT_HEADER_SIZE + length (log_bytes (log_end n0 gs) xs))
      (log_end n0 gs + length xs) st) n0 gs xs D"
proof -
  let ?w = "new_wal options mode grp bytes (map (segment_at (wo_directory options)) (starts n0 gs @ [log_end n0 gs]))
      (segment_path (wo_directory options) (log_end n0 gs)) (SEGMENT_HEADER_SIZE + length (log_bytes (log_end n0 gs) xs))
      (log_end n0 gs + length xs) st"
  have "clean_log ?w (wl_directory ?w) (wl_mode ?w = Flushed) n0 gs (xs @ []) (length (log_bytes (log_end n0 gs) xs)) s"
    using assms(1) clean_log_files[of ?w st] by simp
  moreover have "log_fields X ?w n0 gs xs [] (length (log_bytes (log_end n0 gs) xs))"
  proof -
    have "\<exists>ks ps. xs = ks @ ps \<and> length (log_bytes (log_end n0 gs) xs) = length (log_bytes (log_end n0 gs) ks) \<and>
        [] = entry_list (log_end n0 gs + length ks) ps \<and> (mode \<noteq> Memory \<longrightarrow> ps = [])"
      by (rule exI[of _ xs], rule exI[of _ "[]"]) simp
    then show ?thesis using assms(2) by (simp add: log_fields_def Let_def flushes_directories_def)
  qed
  ultimately show ?thesis using assms(3) unfolding clean_inv_def by blast
qed

lemma clean_log_recovered:
  assumes "clean_log st dir durable n0 gs ys n s" "stable_below D (log_end n0 gs) ys s"
  shows "D \<le> log_end n0 gs + whole n ys" "length (log_bytes (log_end n0 gs) (take (whole n ys) ys)) \<le> n"
    "length (log_bytes (log_end n0 gs) (take (D - log_end n0 gs) ys)) \<le> length (log_bytes (log_end n0 gs) (take (whole n ys) ys))"
proof -
  let ?l = "log_end n0 gs" and ?k = "whole n ys"
  have ok: "log_ok ?l ys" "s \<le> n" using assms(1) by (simp_all add: clean_log_def log_ok_append log_end_def)
  have D: "D - ?l \<le> length ys" "length (log_bytes ?l (take (D - ?l) ys)) \<le> n" using assms(2) ok(2) by (auto simp: stable_below_def)
  then have k: "D - ?l \<le> ?k" using whole_greatest[OF ok(1)] by blast
  then show "D \<le> ?l + ?k" by simp
  show "length (log_bytes ?l (take ?k ys)) \<le> n" by (rule whole_fits[OF ok(1)])
  have "take (D - ?l) (take ?k ys) = take (D - ?l) ys" using k by (simp add: min_def)
  then show "length (log_bytes ?l (take (D - ?l) ys)) \<le> length (log_bytes ?l (take ?k ys))"
    using log_bytes_take[of ?l "take ?k ys" "D - ?l"] by (metis le_add1 length_append)
qed

text \<open>The last step of opening: the torn bytes at the end of the last segment are cut off.\<close>

lemma open_active_inv:
  assumes "clean_log st (wo_directory options) (mode = Flushed) n0 gs ys n s" "mode = Flushed \<longrightarrow> flushes_directories st"
    and "stable_below D (log_end n0 gs) ys s"
    and "bindS (open_active (sg_path (last (rv_segments (recovered_at (wo_directory options) n0 gs ys n))))
             (rv_validEnd (recovered_at (wo_directory options) n0 gs ys n))) (\<lambda>fd.
           getsS (\<lambda>st. Inr (new_wal options mode grp bytes (rv_segments (recovered_at (wo_directory options) n0 gs ys n)) fd
             (rv_validEnd (recovered_at (wo_directory options) n0 gs ys n)) (rv_lastLsn (recovered_at (wo_directory options) n0 gs ys n) + 1) st)))
           st = (r, st')"
  shows "(\<exists>e. r = Inl e \<and> os_faults st \<noteq> []) \<or>
    (\<exists>w. r = Inr w \<and> clean_inv X w n0 gs (take (whole n ys) ys) D \<and> set (os_faults w) \<subseteq> set (os_faults st) \<and> wl_mode w = mode \<and> wl_groupCommit w = grp)"
proof -
  let ?dir = "wo_directory options" and ?l = "log_end n0 gs" and ?k = "whole n ys"
  let ?p = "segment_path ?dir ?l" and ?xs = "take (whole n ys) ys"
  let ?m = "length (log_bytes ?l ?xs)"
  note R = clean_log_recovered[OF assms(1,3)]
  obtain f where f: "file_at ?p st = Some f" "fi_data f = header_bytes ?l @ take n (log_bytes ?l ys)" "fi_synced f \<le> length (fi_data f)"
      "mode = Flushed \<longrightarrow> fi_linked f \<and> SEGMENT_HEADER_SIZE + s \<le> fi_synced f" "length (fi_data f) = SEGMENT_HEADER_SIZE + n"
    by (rule clean_logD[OF assms(1)])
  have l: "0 < ?l" using assms(1) by (simp add: clean_log_def log_ok_def log_end_def)
  have rv: "rv_segments (recovered_at ?dir n0 gs ys n) = map (segment_at ?dir) (starts n0 gs @ [?l])"
    "rv_validEnd (recovered_at ?dir n0 gs ys n) = SEGMENT_HEADER_SIZE + ?m"
    "rv_lastLsn (recovered_at ?dir n0 gs ys n) + 1 = ?l + length ?xs" "sg_path (last (map (segment_at ?dir) (starts n0 gs @ [?l]))) = ?p"
    using l whole_le[of n ys] by (simp_all add: recovered_at_def recovered_tail_def segment_at_def min_def)
  obtain r1 st1 where o: "open_active ?p (SEGMENT_HEADER_SIZE + ?m) st = (r1, st1)" by fastforce
  have "SEGMENT_HEADER_SIZE + ?m \<le> length (fi_data f)" using R(2) f(5) by simp
  note O = open_active_run[OF o f(1) this f(3)]
  show ?thesis
  proof (cases r1)
    case (Inl e)
    then have "r = Inl e" using assms(4) unfolding rv bindS_def o by simp
    then show ?thesis using O Inl by auto
  next
    case (Inr fd)
    then obtain f' where f': "fd = ?p" "only_changes ?p st st1" "file_at ?p st1 = Some f'" "fi_data f' = take (SEGMENT_HEADER_SIZE + ?m) (fi_data f)"
        "fi_linked f' = fi_linked f" "fi_synced f' = (if SEGMENT_HEADER_SIZE + ?m < length (fi_data f) then SEGMENT_HEADER_SIZE + ?m else fi_synced f)"
      using O by auto
    let ?w = "new_wal options mode grp bytes (map (segment_at ?dir) (starts n0 gs @ [?l])) ?p (SEGMENT_HEADER_SIZE + ?m) (?l + length ?xs) st1"
    have r: "r = Inr ?w" using assms(4) Inr f'(1) unfolding rv bindS_def o by (auto simp: getsS_def)
    have c: "log_ok n0 (concat gs @ ys)" "s \<le> n" "?l < 2 ^ 64" using assms(1) by (simp_all add: clean_log_def)
    have ok: "log_ok n0 (concat gs @ ?xs)" using c(1) log_ok_append log_ok_take by metis
    have "take n (log_bytes ?l ys) = take n (log_bytes ?l ?xs @ log_bytes (?l + min ?k (length ys)) (drop ?k ys))"
      using log_bytes_take[of ?l ys ?k] by simp
    then have data: "fi_data f' = header_bytes ?l @ log_bytes ?l ?xs"
      using f'(4) f(2) R(2) length_header[OF c(3)] by (simp add: min_def)
    let ?s = "length (log_bytes ?l (take (D - ?l) ys))"
    have "clean_log st1 ?dir (mode = Flushed) n0 gs ?xs ?m ?s"
    proof (rule clean_log_replace[OF assms(1) f'(2,3)])
      show "fi_data f' = header_bytes ?l @ take ?m (log_bytes ?l ?xs)" using data by simp
      show "fi_synced f' \<le> length (fi_data f')" using data f'(6) f(3,5) length_header[OF c(3)] R(2) by (auto split: if_splits)
      show "mode = Flushed \<longrightarrow> fi_linked f' \<and> SEGMENT_HEADER_SIZE + ?s \<le> fi_synced f'"
        using f(4) f'(5,6) R(3) assms(3) by (auto simp: stable_below_def)
    qed (use ok R(3) in auto)
    moreover have "take (D - ?l) ?xs = take (D - ?l) ys" using R(1) by (simp add: min_def) 
    then have "stable_below D ?l ?xs ?s" using R(1) whole_le[of n ys] by (simp add: stable_below_def min_def)
    moreover have "mode = Flushed \<longrightarrow> flushes_directories st1" using assms(2) flushes_mono[OF only_changes_quiet[OF f'(2)]] by blast
    ultimately have "clean_inv X ?w n0 gs ?xs D" by (intro new_wal_inv)
    then show ?thesis using r only_changes_faults[OF f'(2)] by simp
  qed
qed

end
