(* ===== verification/Wal_Crash.thy ===== *)
theory Wal_Crash
  imports Wal_Invariant
begin

text \<open>
  What a crash leaves on disk, and that opening a log recovers it: the records that were durable,
  and of the others a prefix.
\<close>

section \<open>Crashes\<close>

lemma power_loss_at:
  assumes "power_loss st st'"
  shows "case file_at p st of None \<Rightarrow> file_at p st' = None
    | Some f \<Rightarrow> (case file_at p st' of None \<Rightarrow> \<not> fi_linked f | Some f' \<Rightarrow> survives f f')"
  using assms unfolding power_loss_def by (elim conjE allE[where x = p])

lemma power_loss_linked: "power_loss st st' \<Longrightarrow> file_at p st = Some f \<Longrightarrow> fi_linked f \<Longrightarrow> \<exists>f'. file_at p st' = Some f' \<and> survives f f'"
  using power_loss_at[of st st' p] by (auto split: option.splits)

lemma power_loss_old: "power_loss st st' \<Longrightarrow> file_at p st' = Some f' \<Longrightarrow> \<exists>f. file_at p st = Some f \<and> survives f f'"
  using power_loss_at[of st st' p] by (auto split: option.splits)

lemma survives_synced: "survives f f' \<Longrightarrow> synced_file f \<Longrightarrow> fi_data f' = fi_data f \<and> synced_file f' \<and> fi_linked f'"
  by (auto simp: survives_def synced_file_def)

lemma known_names_power_loss:
  assumes "power_loss st st'" "known_names st dir ls"
  shows "known_names st' dir ls"
  using assms(2) power_loss_old[OF assms(1)] unfolding known_names_def by (metis not_None_eq)

lemma sealed_power_loss:
  assumes "power_loss st st'" "sealed st dir True n gs"
  shows "sealed st' dir True n gs"
  using assms(2)
proof (induction gs arbitrary: n)
  case (Cons g gs)
  obtain f where f: "file_at (segment_path dir n) st = Some f" "fi_data f = header_bytes n @ log_bytes n g" "synced_file f" "fi_linked f"
    using Cons.prems by auto
  obtain f' where "file_at (segment_path dir n) st' = Some f'" "survives f f'" using power_loss_linked[OF assms(1) f(1,4)] by blast
  then show ?case using f survives_synced[of f f'] Cons by (auto simp: synced_file_def)
qed simp

lemma tail_power_loss:
  assumes "power_loss st st'" "tail_segment st dir True l ys n s" "l < 2 ^ 64" "s \<le> n" "n \<le> length (log_bytes l ys)"
  shows "\<exists>n' \<le> n. s \<le> n' \<and> tail_segment st' dir True l ys n' s"
proof -
  obtain f where f: "file_at (segment_path dir l) st = Some f" "fi_data f = header_bytes l @ take n (log_bytes l ys)"
      "fi_linked f" "SEGMENT_HEADER_SIZE + s \<le> fi_synced f"
    using assms(2) by (auto simp: tail_segment_def)
  obtain f' where f': "file_at (segment_path dir l) st' = Some f'" "survives f f'" using power_loss_linked[OF assms(1) f(1,3)] by blast
  then obtain k where k: "fi_synced f \<le> k" "fi_data f' = take k (fi_data f)" "fi_synced f' = length (fi_data f')" "fi_linked f'"
    by (auto simp: survives_def)
  let ?n = "min n (k - SEGMENT_HEADER_SIZE)"
  have d: "fi_data f' = header_bytes l @ take ?n (log_bytes l ys)"
    using k(1,2) f(2,4) length_header[OF assms(3)] by (simp add: min.commute)
  moreover have n: "s \<le> ?n" using k(1) f(4) assms(4) by simp
  moreover have "SEGMENT_HEADER_SIZE + s \<le> length (fi_data f')"
    using n assms(5) length_header[OF assms(3)] unfolding d by simp
  ultimately show ?thesis using f'(1) k(3,4) by (intro exI[of _ ?n]) (auto simp: tail_segment_def)
qed

lemma leftover_power_loss:
  assumes "power_loss st st'" "leftover st dir durable m"
  shows "file_at (segment_path dir m) st' = None \<or> leftover st' dir True m"
proof (cases "file_at (segment_path dir m) st'")
  case (Some f')
  obtain f k where f: "file_at (segment_path dir m) st = Some f" "fi_data f = take k (header_bytes m)"
    using assms(2) by (auto simp: leftover_def)
  have "survives f f'" using power_loss_old[OF assms(1) Some] f(1) by simp
  then obtain j where "fi_data f' = take j (fi_data f)" "fi_synced f' = length (fi_data f')" "fi_linked f'" by (auto simp: survives_def)
  then have "fi_data f' = take (min j k) (header_bytes m)" "synced_file f'" "fi_linked f'" using f(2) by (simp_all add: synced_file_def)
  then show ?thesis using Some by (auto simp: leftover_def synced_file_def)
qed simp

lemma known_names_gone: "known_names st dir (insert m ls) \<Longrightarrow> file_at (segment_path dir m) st = None \<Longrightarrow> known_names st dir ls"
  by (auto simp: known_names_def)

text \<open>
  With the write concern \<open>Flushed\<close> the log is protected against a power loss; with the others only
  against the end of the process.
\<close>

definition log_crash :: "wal \<Rightarrow> os \<Rightarrow> bool" where
  "log_crash w st \<longleftrightarrow> (if wl_mode w = Flushed then power_loss w st \<and> flushes_directories st
     else same_files w st \<and> distinct (map fst (os_files st)))"

lemma disk_log_power_loss:
  assumes "disk_log False st dir True n0 gs ys n s" "power_loss st st'"
  shows "\<exists>n' \<le> n. disk_log True st' dir True n0 gs ys n' s"
proof -
  let ?l = "log_end n0 gs" and ?m = "log_end n0 gs + length ys"
  have d': "distinct (map fst (os_files st'))" using assms(2) by (simp add: power_loss_def)
  have c: "log_ok n0 (concat gs @ ys)" "?l < 2 ^ 64" "sealed st dir True n0 gs" "s \<le> n" "n \<le> length (log_bytes ?l ys)"
      "tail_segment st dir True ?l ys n s" using assms(1) by (auto simp: disk_log_def Let_def log_end_def)
  obtain n' where n': "n' \<le> n" "s \<le> n'" "tail_segment st' dir True ?l ys n' s"
    using tail_power_loss[OF assms(2) c(6,2,4,5)] by blast
  note keep = c(1,2,5) sealed_power_loss[OF assms(2) c(3)] d' n'
  show ?thesis
  proof (cases "clean_log st dir True n0 gs ys n s")
    case True
    then have "clean_log st' dir True n0 gs ys n' s"
      using keep known_names_power_loss[OF assms(2)] by (auto simp: clean_log_def)
    then show ?thesis using n'(1) unfolding disk_log_cases by blast
  next
    case False
    then have u: "n = length (log_bytes ?l ys)" "s = n" "known_names st dir (set (starts n0 gs) \<union> {?l, ?m})" "leftover st dir False ?m"
        "ys \<noteq> []" "?m < 2 ^ 64" using assms(1) unfolding disk_log_cases by auto
    then have "n' = n" using n'(1,2) by simp
    note k = known_names_power_loss[OF assms(2) u(3)]
    from leftover_power_loss[OF assms(2) u(4)] show ?thesis
    proof
      assume gone: "file_at (segment_path dir ?m) st' = None"
      have "known_names st' dir (insert ?m (set (starts n0 gs) \<union> {?l}))" using k by (simp add: insert_commute)
      then have "known_names st' dir (set (starts n0 gs) \<union> {?l})" using gone known_names_gone by blast
      then have "clean_log st' dir True n0 gs ys n' s" using keep by (auto simp: clean_log_def)
      then show ?thesis using n'(1) unfolding disk_log_cases by blast
    next
      assume "leftover st' dir True ?m"
      then have "disk_log True st' dir True n0 gs ys n s"
        unfolding disk_log_cases using keep u k \<open>n' = n\<close> by auto
      then show ?thesis by blast
    qed
  qed
qed

lemma disk_log_same_files:
  assumes "disk_log False st dir False n0 gs ys n s" "same_files st st'" "distinct (map fst (os_files st'))"
  shows "disk_log True st' dir False n0 gs ys n s"
proof -
  have f: "file_at (segment_path dir x) st' = file_at (segment_path dir x) st" for x
    using assms(2) by (simp add: same_files_def segment_path_def)
  have "sealed st' dir False n gs = sealed st dir False n gs" for n by (induction gs arbitrary: n) (simp_all add: f)
  moreover have "tail_segment st' dir False l ys n s = tail_segment st dir False l ys n s" for l by (simp add: tail_segment_def f)
  moreover have "known_names st' dir ls = known_names st dir ls" for ls by (simp add: known_names_def f)
  moreover have "leftover st' dir False l = leftover st dir False l" for l by (simp add: leftover_def f)
  ultimately show ?thesis using assms(1,3) by (simp add: disk_log_def Let_def)
qed

lemma crash_disk_log:
  assumes "log_inv X w n0 gs xs D" "log_crash w st"
  shows "\<exists>ex n s. length ex \<le> 1 \<and> set ex \<subseteq> X \<and> disk_log True st (wl_directory w) (wl_mode w = Flushed) n0 gs (xs @ ex) n s \<and>
    stable_below D (log_end n0 gs) (xs @ ex) s"
proof -
  obtain ex n s where i: "disk_log False w (wl_directory w) (wl_mode w = Flushed) n0 gs (xs @ ex) n s" "log_fields X w n0 gs xs ex n"
      "stable_below D (log_end n0 gs) xs s" using assms(1) by (auto simp: log_inv_def)
  have "length ex \<le> 1" "set ex \<subseteq> X" using i(2) by (simp_all add: log_fields_def Let_def)
  moreover have "stable_below D (log_end n0 gs) (xs @ ex) s" using i(3) by (auto simp: stable_below_def)
  moreover have "\<exists>n'. disk_log True st (wl_directory w) (wl_mode w = Flushed) n0 gs (xs @ ex) n' s"
  proof (cases "wl_mode w = Flushed")
    case True
    then show ?thesis using disk_log_power_loss[of w "wl_directory w" n0 gs "xs @ ex" n s st] i(1) assms(2) by (auto simp: log_crash_def)
  next
    case False
    then show ?thesis using disk_log_same_files[of w "wl_directory w" n0 gs "xs @ ex" n s st] i(1) assms(2) by (auto simp: log_crash_def)
  qed
  ultimately show ?thesis by blast
qed

section \<open>Opening\<close>

lemma known_names_insert:
  assumes "m < 2 ^ 64" "relinks_but (segment_path dir m) st st'" "known_names st dir ls"
  shows "known_names st' dir (insert m ls)"
  unfolding known_names_def
proof (intro allI impI)
  fix x :: nat
  assume x: "x < 10 ^ 20" "file_at (segment_path dir x) st' \<noteq> None"
  show "x \<in> insert m ls"
  proof (cases "segment_path dir x = segment_path dir m")
    case True
    then have "x = m" using x(1) assms(1) unfolding segment_path_def
      by (metis Pair_inject option.inject parse_lsn_name segment_name_parse)
    then show ?thesis by simp
  next
    case False
    then show ?thesis using relinks_but_None[OF assms(2) False] x assms(3) by (auto simp: known_names_def)
  qed
qed

abbreviation option_mode :: "wal_options \<Rightarrow> write_concern" where
  "option_mode options \<equiv> option_default (wo_writeConcern options) Flushed"

abbreviation option_size :: "wal_options \<Rightarrow> js_number" where
  "option_size options \<equiv> option_default (wo_segmentSizeBytes options) (num_of_int (int DEFAULT_SEGMENT_SIZE_BYTES))"

definition valid_options :: "wal_options \<Rightarrow> bool" where
  "valid_options options \<longleftrightarrow> (option_default (wo_groupCommit options) False \<longrightarrow> option_mode options = Flushed) \<and>
     isSafeInteger (option_size options) \<and> int (SEGMENT_HEADER_SIZE + 64) \<le> num_int (option_size options)"

definition opened_with :: "wal_options \<Rightarrow> wal \<Rightarrow> bool" where
  "opened_with options w \<longleftrightarrow> wl_directory w = wo_directory options \<and> wl_mode w = option_mode options \<and>
     wl_groupCommit w = option_default (wo_groupCommit options) False"

text \<open>Opening in two steps: recover the segments, then make or open the last one.\<close>

definition open_recovered :: "wal_options \<Rightarrow> recovered_segments \<Rightarrow> (os, wal) operation" where
  "open_recovered options recovered =
     (if rv_segments recovered = [] then
        bindS (createSegment (wo_directory options) 1 (option_mode options = Flushed)) (\<lambda>(info, fd).
        getsS (\<lambda>st. Inr (new_wal options (option_mode options) (option_default (wo_groupCommit options) False)
          (nat (num_int (option_size options))) [info] fd SEGMENT_HEADER_SIZE 1 st)))
      else
        bindS (open_active (sg_path (last (rv_segments recovered))) (rv_validEnd recovered)) (\<lambda>fd.
        getsS (\<lambda>st. Inr (new_wal options (option_mode options) (option_default (wo_groupCommit options) False)
          (nat (num_int (option_size options))) (rv_segments recovered) fd (rv_validEnd recovered) (rv_lastLsn recovered + 1) st))))"

lemma mkdirSync_run:
  assumes "mkdirSync dir st = (r, st')"
  shows "unchanged st st'" "r = Inr () \<or> (\<exists>c. r = Inl (OsFailure c) \<and> Fault c \<in> set (os_faults st))"
proof -
  from assms[unfolded mkdirSync_def]
  have "unchanged st st' \<and> (r = Inr () \<or> (\<exists>c. r = Inl (OsFailure c) \<and> Fault c \<in> set (os_faults st)))"
    by (cases rule: syscall_run) (auto simp: returnS_def intro: unchangedI)
  then show "unchanged st st'" "r = Inr () \<or> (\<exists>c. r = Inl (OsFailure c) \<and> Fault c \<in> set (os_faults st))" by blast+
qed

lemma open_wal_steps:
  assumes "open_wal options st = (r, st')"
  obtains (invalid) "\<not> valid_options options" "r = Inl TypeFailure"
  | (fails) e where "r = Inl e" "os_faults st \<noteq> []"
  | (recovers) st1 r1 st2 where "valid_options options" "unchanged st st1" "recoverSegments (wo_directory options) st1 = (r1, st2)"
      "case r1 of Inl e \<Rightarrow> r = Inl e | Inr rv \<Rightarrow> open_recovered options rv st2 = (r, st')"
proof (cases "valid_options options")
  case False
  then have "r = Inl TypeFailure"
    using assms unfolding open_wal_def valid_options_def Let_def by (auto simp: throwS_def split: if_splits)
  then show thesis using invalid False by blast
next
  case True
  let ?dir = "wo_directory options"
  obtain r1 st1 where m: "mkdirSync ?dir st = (r1, st1)" by fastforce
  obtain r2 st2 where rs: "recoverSegments ?dir st1 = (r2, st2)" by fastforce
  note M = mkdirSync_run[OF m]
  have body: "bindS (catchS (mkdirSync ?dir) (\<lambda>e. throwS (ioError e True))) (\<lambda>_.
      bindS (recoverSegments ?dir) (open_recovered options)) st = (r, st')"
    using assms True unfolding open_wal_def valid_options_def Let_def open_recovered_def by (auto split: if_splits)
  show thesis
  proof (cases r1)
    case (Inl e)
    then have "r = Inl (ioError e True)" "os_faults st \<noteq> []" using body m M(2) by (auto simp: bindS_def catchS_def throwS_def)
    then show thesis by (rule fails)
  next
    case (Inr u)
    then have "case r2 of Inl e \<Rightarrow> r = Inl e | Inr rv \<Rightarrow> open_recovered options rv st2 = (r, st')"
      using body m rs by (auto simp: bindS_def catchS_def split: sum.splits)
    then show thesis using recovers True M(1) rs by blast
  qed
qed

lemma disk_log_unchanged:
  assumes "unchanged st st'" "disk_log b st dir durable n0 gs ys n s"
  shows "disk_log b st' dir durable n0 gs ys n s"
proof -
  have "distinct (map fst (os_files st'))" if "distinct (map fst (os_files st))" using that assms(1) by (simp add: unchanged_def quiet_def)
  moreover have "leftover st' dir d m = leftover st dir d m" for d m by (simp add: leftover_def unchanged_file[OF assms(1)])
  ultimately show ?thesis
    using assms(2) sealed_unchanged[OF assms(1)] tail_unchanged[OF assms(1)] known_names_unchanged[OF assms(1)]
    by (auto simp: disk_log_def Let_def)
qed

lemma open_recovered_inv:
  assumes "clean_log st (wo_directory options) (option_mode options = Flushed) n0 gs ys n s"
    and "option_mode options = Flushed \<longrightarrow> flushes_directories st" "stable_below D (log_end n0 gs) ys s"
    and "open_recovered options (recovered_at (wo_directory options) n0 gs ys n) st = (r, st')"
  shows "(\<exists>e. r = Inl e \<and> os_faults st \<noteq> []) \<or>
    (\<exists>w. r = Inr w \<and> opened_with options w \<and> clean_inv X w n0 gs (take (whole n ys) ys) D \<and> set (os_faults w) \<subseteq> set (os_faults st))"
proof -
  let ?rv = "recovered_at (wo_directory options) n0 gs ys n"
  have "rv_segments ?rv \<noteq> []" by (simp add: recovered_at_def recovered_tail_def)
  then have "bindS (open_active (sg_path (last (rv_segments ?rv))) (rv_validEnd ?rv)) (\<lambda>fd.
      getsS (\<lambda>st. Inr (new_wal options (option_mode options) (option_default (wo_groupCommit options) False)
        (nat (num_int (option_size options))) (rv_segments ?rv) fd (rv_validEnd ?rv) (rv_lastLsn ?rv + 1) st))) st = (r, st')"
    using assms(4) unfolding open_recovered_def by simp
  note O = open_active_inv[where X = X, OF assms(1-3) this]
  have "wl_directory w = wo_directory options" if "r = Inr w" for w
    using assms(4) that \<open>rv_segments ?rv \<noteq> []\<close> by (auto simp: open_recovered_def bindS_def getsS_def split: prod.splits sum.splits)
  then show ?thesis using O by (auto simp: opened_with_def)
qed

lemma whole_all: "log_ok l ys \<Longrightarrow> whole (length (log_bytes l ys)) ys = length ys"
  using whole_greatest[of l ys "length ys" "length (log_bytes l ys)"] whole_le[of "length (log_bytes l ys)" ys] by simp

text \<open>
  Opening what a crash left behind succeeds unless the operating system fails, keeps every durable
  record, and of the others a prefix.
\<close>

lemma open_wal_recovers:
  assumes "disk_log True st (wo_directory options) (option_mode options = Flushed) n0 gs ys n s"
    and "option_mode options = Flushed \<longrightarrow> flushes_directories st" "stable_below D (log_end n0 gs) ys s"
    and "open_wal options st = (r, st')"
  shows "(\<exists>e. r = Inl e \<and> (os_faults st \<noteq> [] \<or> \<not> valid_options options)) \<or>
    (\<exists>w gs' xs'. r = Inr w \<and> opened_with options w \<and> concat gs' @ xs' = concat gs @ take (whole n ys) ys \<and>
       clean_inv X w n0 gs' xs' D \<and> set (os_faults w) \<subseteq> set (os_faults st))"
  using assms(4)
proof (cases rule: open_wal_steps)
  case (recovers st1 r1 st2)
  let ?dir = "wo_directory options" and ?F = "option_mode options = Flushed" and ?l = "log_end n0 gs"
  note q1 = unchanged_quiet[OF recovers(2)]
  have done_with: ?thesis if c: "clean_log st2 ?dir ?F n0 gs0 ys0 n' s0" "stable_below D (log_end n0 gs0) ys0 s0" "quiet st1 st2"
      "r1 = Inr (recovered_at ?dir n0 gs0 ys0 n')" "concat gs0 @ take (whole n' ys0) ys0 = concat gs @ take (whole n ys) ys" for gs0 ys0 n' s0
  proof -
    have q: "quiet st st2" using quiet_trans[OF q1 c(3)] .
    have "?F \<longrightarrow> flushes_directories st2" using assms(2) flushes_mono[OF q] by blast
    moreover have "open_recovered options (recovered_at ?dir n0 gs0 ys0 n') st2 = (r, st')" using recovers(4) c(4) by simp
    ultimately have "(\<exists>e. r = Inl e \<and> os_faults st2 \<noteq> []) \<or> (\<exists>w. r = Inr w \<and> opened_with options w \<and>
        clean_inv X w n0 gs0 (take (whole n' ys0) ys0) D \<and> set (os_faults w) \<subseteq> set (os_faults st2))"
      using open_recovered_inv[OF c(1) _ c(2)] by blast
    then show ?thesis using c(5) quiet_faults[OF q] q unfolding quiet_def by blast
  qed
  have failed: ?thesis if "r1 = Inl e" "os_faults st1 \<noteq> []" for e
    using recovers(4) that quiet_faults[OF q1] by auto
  from disk_log_unchanged[OF recovers(2) assms(1), unfolded disk_log_cases] show ?thesis
  proof (elim disjE conjE)
    assume c: "clean_log st1 ?dir ?F n0 gs ys n s"
    from recover_clean[OF c recovers(3)] show ?thesis
      using done_with[of gs ys n s] c clean_log_unchanged[of st1 st2] assms(3) unchanged_quiet failed by blast
  next
    assume u: "distinct (map fst (os_files st1))" "log_ok n0 (concat gs @ ys)" "sealed st1 ?dir ?F n0 gs" "n = length (log_bytes ?l ys)"
      "s = n" "tail_segment st1 ?dir ?F ?l ys n n" "known_names st1 ?dir (set (starts n0 gs) \<union> {?l, ?l + length ys})"
      "leftover st1 ?dir (?F \<and> True) (?l + length ys)" "ys \<noteq> []" "?l + length ys < 2 ^ 64"
    have "log_ok ?l ys" using u(2) by (simp add: log_ok_append log_end_def)
    then have w: "whole n ys = length ys" unfolding u(4) by (rule whole_all)
    have "stable_below D (log_end n0 (gs @ [ys])) [] 0" using assms(3) by (simp add: stable_below_def log_end_snoc)
    then show ?thesis
      using recover_unfinished[OF u(1-4,6,7) u(8)[simplified] u(9,10) recovers(3)] done_with[of gs ys n n]
        done_with[of "gs @ [ys]" "[]" 0 0] assms(3) u(5) w failed by auto
  qed
qed auto

text \<open>Opening an empty directory starts a log with the number 1.\<close>

lemma open_wal_fresh:
  assumes "known_names st (wo_directory options) {}" "distinct (map fst (os_files st))"
    and "option_mode options = Flushed \<longrightarrow> flushes_directories st" "open_wal options st = (r, st')"
  shows "(\<exists>e. r = Inl e \<and> (os_faults st \<noteq> [] \<or> \<not> valid_options options)) \<or>
    (\<exists>w. r = Inr w \<and> opened_with options w \<and> clean_inv X w 1 [] [] 1 \<and> set (os_faults w) \<subseteq> set (os_faults st))"
  using assms(4)
proof (cases rule: open_wal_steps)
  case (recovers st1 r1 st2)
  let ?dir = "wo_directory options" and ?F = "option_mode options = Flushed"
  let ?p = "segment_path ?dir 1"
  note q1 = unchanged_quiet[OF recovers(2)]
  have k1: "known_names st1 ?dir {}" "distinct (map fst (os_files st1))"
    using assms(1,2) known_names_unchanged[OF recovers(2)] q1 by (simp_all add: quiet_def)
  have "(\<exists>e. r1 = Inl e \<and> os_faults st1 \<noteq> []) \<or> (unchanged st1 st2 \<and> r1 = Inr nothing_recovered)"
    using readdir_names[OF recovers(3) k1(2), of "[]"] k1(1) by (auto simp: returnS_def)
  then show ?thesis
  proof
    assume "\<exists>e. r1 = Inl e \<and> os_faults st1 \<noteq> []"
    then show ?thesis using recovers(4) quiet_faults[OF q1] by auto
  next
    assume u: "unchanged st1 st2 \<and> r1 = Inr nothing_recovered"
    note u2 = unchanged_trans[OF recovers(2) conjunct1[OF u]]
    obtain r3 st3 where c: "createSegment ?dir 1 ?F st2 = (r3, st3)" by fastforce
    note C = createSegment_run[OF c]
    have none: "file_at ?p st2 = None" using assms(1) by (simp add: known_names_def unchanged_file[OF u2])
    have body: "open_recovered options nothing_recovered st2 = (r, st')" using recovers(4) u by simp
    show ?thesis
    proof (cases r3)
      case (Inl e)
      then have "r = Inl e" using body c by (simp add: open_recovered_def nothing_recovered_def bindS_def)
      then show ?thesis using C Inl none quiet_faults[OF unchanged_quiet[OF u2]] by auto
    next
      case (Inr p)
      then have p: "p = (segment_at ?dir 1, ?p)" using C by (cases p) auto
      obtain f where f: "file_at ?p st3 = Some f" "fi_data f = header_bytes 1" "fi_synced f \<le> length (fi_data f)"
          "?F \<longrightarrow> synced_file f \<and> (flushes_directories st2 \<longrightarrow> fi_linked f)"
        using C Inr p by auto
      have q: "quiet st2 st3" "quiet st st3" using C relinks_but_quiet quiet_trans[OF unchanged_quiet[OF u2]] by blast+
      have "known_names st2 ?dir {}" using assms(1) known_names_unchanged[OF u2] by simp
      then have "known_names st3 ?dir {1}" using C known_names_insert[of 1] by auto
      moreover have "?F \<longrightarrow> flushes_directories st2" "?F \<longrightarrow> flushes_directories st3"
        using assms(3) flushes_mono[OF unchanged_quiet[OF u2]] flushes_mono[OF q(2)] by blast+
      ultimately have "clean_log st3 ?dir ?F 1 [] [] (length (log_bytes (log_end 1 []) [])) 0"
        using f q(2) assms(2) by (auto simp: clean_log_def log_end_def log_ok_def tail_segment_def synced_file_def length_header quiet_def)
      moreover have "stable_below 1 (log_end 1 []) [] 0" by (simp add: stable_below_def log_end_def)
      ultimately have "clean_inv X (new_wal options (option_mode options) grp bytes [segment_at ?dir 1] ?p SEGMENT_HEADER_SIZE 1 st3) 1 [] [] 1" for grp bytes
        using new_wal_inv[of st3 options "option_mode options" 1 "[]" "[]" 0 1] \<open>?F \<longrightarrow> flushes_directories st3\<close> by (simp add: log_end_def)
      moreover have "r = Inr (new_wal options (option_mode options) (option_default (wo_groupCommit options) False)
          (nat (num_int (option_size options))) [segment_at ?dir 1] ?p SEGMENT_HEADER_SIZE 1 st3)"
        using body c Inr p by (auto simp: open_recovered_def nothing_recovered_def bindS_def getsS_def)
      ultimately show ?thesis using q(2) by (simp add: opened_with_def quiet_def)
    qed
  qed
qed auto

end
