(* ===== verification/Wal_Operations.thy ===== *)
theory Wal_Operations
  imports Wal_Crash
begin

text \<open>
  Every operation of an open log keeps the invariant, also when a call of the operating system
  fails: records appended successfully are in the log, and a failed operation changes none of them.
\<close>

section \<open>Writing and flushing\<close>

text \<open>Fields that no operation touches, and the change to a broken log.\<close>

definition same_log :: "wal \<Rightarrow> wal \<Rightarrow> bool" where
  "same_log w w' \<longleftrightarrow> wl_directory w' = wl_directory w \<and> wl_mode w' = wl_mode w \<and> wl_groupCommit w' = wl_groupCommit w \<and>
     set (os_faults w') \<subseteq> set (os_faults w)"

lemma same_log_refl [simp]: "same_log w w" by (simp add: same_log_def)

lemma same_log_trans [trans]: "same_log a b \<Longrightarrow> same_log b c \<Longrightarrow> same_log a c" by (auto simp: same_log_def)

lemma quiet_same_log: "quiet w (w' :: wal) \<Longrightarrow> same_log w w'"
  by (simp add: same_log_def quiet_fields) (simp add: quiet_def)

lemma clean_log_fields_irrelevant [simp]:
  "clean_log (w\<lparr>wl_broken := b\<rparr>) dir durable n0 gs ys n s = clean_log w dir durable n0 gs ys n s"
  "clean_log (w\<lparr>wl_unsynced := b\<rparr>) dir durable n0 gs ys n s = clean_log w dir durable n0 gs ys n s"
  "clean_log (w\<lparr>wl_pending := p, wl_pendingBytes := k\<rparr>) dir durable n0 gs ys n s = clean_log w dir durable n0 gs ys n s"
  "clean_log (w\<lparr>wl_position := k, wl_nextLsn := l\<rparr>) dir durable n0 gs ys n s = clean_log w dir durable n0 gs ys n s"
  "clean_log (w\<lparr>wl_closed := b, wl_fd := fd\<rparr>) dir durable n0 gs ys n s = clean_log w dir durable n0 gs ys n s"
  "clean_log (w\<lparr>wl_pending := p, wl_pendingBytes := k, wl_position := k', wl_nextLsn := l\<rparr>) dir durable n0 gs ys n s =
     clean_log w dir durable n0 gs ys n s"
  "clean_log (w\<lparr>wl_segments := sg, wl_fd := fd, wl_position := k\<rparr>) dir durable n0 gs ys n s = clean_log w dir durable n0 gs ys n s"
  by (rule clean_log_files, simp)+

text \<open>
  Appending the bytes of the records \<open>ps\<close> to the last segment: they are written, or the file is
  cut back to where it was, or the log is broken.
\<close>

definition wal_write :: "bytes \<Rightarrow> nat \<Rightarrow> (wal, unit) operation" where
  "wal_write bs pos = catchS (with_fd (\<lambda>fd. writeFully fd bs pos)) (\<lambda>e. abandonWrite e pos)"

lemma wal_write_run:
  assumes "wal_write (log_bytes (log_end n0 gs + length ks) ps) (SEGMENT_HEADER_SIZE + length (log_bytes (log_end n0 gs) ks)) w = (r, w')"
    and "clean_log w (wl_directory w) durable n0 gs ks (length (log_bytes (log_end n0 gs) ks)) s"
    and "log_ok n0 (concat gs @ ks @ ps)" "wl_fd w = Some (segment_path (wl_directory w) (log_end n0 gs))"
  obtains (written) "r = Inr ()" "quiet w w'"
      "clean_log w' (wl_directory w) durable n0 gs (ks @ ps) (length (log_bytes (log_end n0 gs) (ks @ ps))) s"
  | (cut) e where "r = Inl e" "os_faults w \<noteq> []" "quiet w w'"
      "clean_log w' (wl_directory w) durable n0 gs ks (length (log_bytes (log_end n0 gs) ks)) s"
  | (broken) e w1 k where "r = Inl e" "os_faults w \<noteq> []" "w' = w1\<lparr>wl_broken := True\<rparr>" "quiet w w1"
      "clean_log w1 (wl_directory w) durable n0 gs (ks @ ps) k s"
proof -
  let ?l = "log_end n0 gs" and ?p = "segment_path (wl_directory w) (log_end n0 gs)"
  let ?m = "length (log_bytes ?l ks)" and ?bs = "log_bytes (log_end n0 gs + length ks) ps"
  obtain f where f: "file_at ?p w = Some f" "fi_synced f \<le> length (fi_data f)" "length (fi_data f) = SEGMENT_HEADER_SIZE + ?m"
      "fi_data f = header_bytes ?l @ log_bytes ?l ks"
    by (rule clean_logD[OF assms(2)]) simp
  obtain r1 w1 where wr: "writeFully ?p ?bs (length (fi_data f)) w = (r1, w1)" by fastforce
  obtain k where k: "k \<le> length ?bs" "only_changes ?p w w1" "file_at ?p w1 = Some (append_bytes (take k ?bs) f)"
      "r1 = Inr () \<and> k = length ?bs \<or> (\<exists>c. r1 = Inl (OsFailure c) \<and> Fault c \<in> set (os_faults w))"
    using writeFully_run[OF wr f(1,2)] by blast
  note q1 = only_changes_quiet[OF k(2)]
  have fd1: "wl_fd w1 = Some ?p" using quiet_fields[OF q1] assms(4) by simp
  have c1: "clean_log w1 (wl_directory w) durable n0 gs (ks @ ps) (?m + k) s"
    by (rule clean_log_write[OF assms(2,3) f(1) k(2,3,1)])
  have run: "with_fd (\<lambda>fd. writeFully fd ?bs (SEGMENT_HEADER_SIZE + ?m)) w = (r1, w1)"
    using wr assms(4) unfolding f(3) by (simp add: with_fd_def bindS_def getsS_def)
  show thesis
  proof (cases r1)
    case (Inr u)
    then have "r = Inr ()" "w' = w1" using assms(1) run by (simp_all add: wal_write_def catchS_def)
    moreover have "k = length ?bs" using k(4) Inr by simp
    ultimately show thesis using written q1 c1 by (simp add: log_bytes_append)
  next
    case (Inl e)
    have flt: "os_faults w \<noteq> []" using k(4) Inl by auto
    have ab: "abandonWrite e (SEGMENT_HEADER_SIZE + ?m) w1 = (r, w')" using assms(1) run Inl by (simp add: wal_write_def catchS_def)
    obtain r2 w2 where t: "ftruncateSync ?p (SEGMENT_HEADER_SIZE + ?m) w1 = (r2, w2)" by fastforce
    have tr: "with_fd (\<lambda>fd. ftruncateSync fd (SEGMENT_HEADER_SIZE + ?m)) w1 = (r2, w2)"
      using t fd1 by (simp add: with_fd_def bindS_def getsS_def)
    show thesis
    proof (cases "isDiskFull e")
      case False
      then have "r = Inl (ioError e True)" "w' = w1\<lparr>wl_broken := True\<rparr>"
        using ab by (simp_all add: abandonWrite_def operation_defs mark_broken_def)
      then show thesis using broken flt q1 c1 by blast
    next
      case full: True
      have len: "SEGMENT_HEADER_SIZE + ?m \<le> length (fi_data (append_bytes (take k ?bs) f))" using f(3) by simp
      from t k(3) len show thesis
      proof (cases rule: ftruncateSync_run)
        case (fails c)
        then have "r = Inl (ioError e True)" "w' = w2\<lparr>wl_broken := True\<rparr>"
          using ab full tr by (simp_all add: abandonWrite_def operation_defs mark_broken_def)
        moreover have "unchanged w1 w2" using unchangedI fails(3,4) by blast
        ultimately show thesis
          using broken flt clean_log_unchanged[OF _ c1] quiet_trans[OF q1 unchanged_quiet] by blast
      next
        case cut2: cut
        then have "r = Inl (ioError e True)" "w' = w2"
          using ab full tr by (simp_all add: abandonWrite_def operation_defs)
        moreover have "s \<le> ?m" using assms(2) by (simp add: clean_log_def)
        then have "clean_log w2 (wl_directory w) durable n0 gs (ks @ ps) ?m s"
          using clean_log_cut[OF c1 k(3) cut2(2) _ _ cut2(3)] by simp
        ultimately show thesis
          using cut flt quiet_trans[OF q1 only_changes_quiet[OF cut2(2)]] clean_log_shrink[of w2] by blast
      qed
    qed
  qed
qed

lemma sync_or_break_run:
  assumes "sync_or_break w = (r, w')" "clean_log w (wl_directory w) durable n0 gs ys n s"
    and "wl_fd w = Some (segment_path (wl_directory w) (log_end n0 gs))"
  obtains (synced) "r = Inr ()" "quiet w w'" "clean_log w' (wl_directory w) durable n0 gs ys n n"
  | (broken) e w1 where "r = Inl e" "os_faults w \<noteq> []" "w' = w1\<lparr>wl_broken := True\<rparr>" "quiet w w1"
      "clean_log w1 (wl_directory w) durable n0 gs ys n s"
proof -
  let ?p = "segment_path (wl_directory w) (log_end n0 gs)"
  obtain f where f: "file_at ?p w = Some f" by (rule clean_logD[OF assms(2)]) simp
  obtain r1 w1 where y: "fsyncSync ?p w = (r1, w1)" by fastforce
  then have run: "with_fd fsyncSync w = (r1, w1)" using assms(3) by (simp add: with_fd_def bindS_def getsS_def)
  from y f show thesis
  proof (cases rule: fsyncSync_run)
    case (fails c)
    then have "r = Inl (ioError (OsFailure c) False)" "w' = w1\<lparr>wl_broken := True\<rparr>"
      using assms(1) run by (simp_all add: sync_or_break_def operation_defs mark_broken_def)
    moreover have "unchanged w w1" using unchangedI fails(3,4) by blast
    moreover have "os_faults w \<noteq> []" using fails(2) by auto
    ultimately show thesis using broken clean_log_unchanged[OF _ assms(2)] unchanged_quiet by blast
  next
    case s: synced
    then have "r = Inr ()" "w' = w1" using assms(1) run by (simp_all add: sync_or_break_def operation_defs)
    then show thesis using synced only_changes_quiet[OF s(2)] clean_log_synced[OF assms(2) f s(2,3)] by blast
  qed
qed

section \<open>Logs that can be written\<close>

text \<open>The records \<open>ks\<close> of the last segment are in its file, the records \<open>ps\<close> still in memory.\<close>

definition live_log :: "wal \<Rightarrow> nat \<Rightarrow> log_entry list list \<Rightarrow> log_entry list \<Rightarrow> log_entry list \<Rightarrow> nat \<Rightarrow> bool" where
  "live_log w n0 gs ks ps s \<longleftrightarrow> (let l = log_end n0 gs in
     \<not> wl_closed w \<and> \<not> wl_broken w \<and> wl_segments w = map (segment_at (wl_directory w)) (starts n0 gs @ [l]) \<and>
     wl_fd w = Some (segment_path (wl_directory w) l) \<and> (wl_mode w = Flushed \<longrightarrow> flushes_directories w) \<and>
     wl_nextLsn w = l + length ks + length ps \<and> wl_position w = SEGMENT_HEADER_SIZE + length (log_bytes l (ks @ ps)) \<and>
     wl_pendingBytes w = length (concat (wl_pending w)) \<and> wl_pending w = entry_list (l + length ks) ps \<and>
     (wl_mode w \<noteq> Memory \<longrightarrow> ps = []) \<and> log_ok n0 (concat gs @ ks @ ps) \<and>
     clean_log w (wl_directory w) (wl_mode w = Flushed) n0 gs ks (length (log_bytes l ks)) s)"

lemma live_fields: "live_log w n0 gs ks ps s \<Longrightarrow> log_fields X w n0 gs (ks @ ps) [] (length (log_bytes (log_end n0 gs) ks))"
  unfolding log_fields_def live_log_def Let_def by auto

lemma live_clean:
  assumes "live_log w n0 gs ks ps s" "stable_below D (log_end n0 gs) (ks @ ps) s"
  shows "clean_inv X w n0 gs (ks @ ps) D"
proof -
  have "clean_log w (wl_directory w) (wl_mode w = Flushed) n0 gs ((ks @ ps) @ []) (length (log_bytes (log_end n0 gs) ks)) s"
    using assms(1) clean_log_grow[of w "wl_directory w" "wl_mode w = Flushed" n0 gs ks _ s ps] by (simp add: live_log_def Let_def)
  then show ?thesis using live_fields[OF assms(1)] assms(2) unfolding clean_inv_def by blast
qed

lemma clean_live:
  assumes "clean_inv X w n0 gs xs D" "\<not> wl_closed w" "\<not> wl_broken w"
  obtains ks ps s where "xs = ks @ ps" "live_log w n0 gs ks ps s" "stable_below D (log_end n0 gs) (ks @ ps) s"
proof -
  obtain ex n s where i: "clean_log w (wl_directory w) (wl_mode w = Flushed) n0 gs (xs @ ex) n s" "log_fields X w n0 gs xs ex n"
      "stable_below D (log_end n0 gs) xs s" using assms(1) by (auto simp: clean_inv_def)
  obtain ks ps where k: "xs = ks @ ps" "n = length (log_bytes (log_end n0 gs) ks)" "wl_pending w = entry_list (log_end n0 gs + length ks) ps"
      "wl_mode w \<noteq> Memory \<longrightarrow> ps = []" "ex = []"
    using i(2) assms(3) by (auto simp: log_fields_def Let_def)
  have "clean_log w (wl_directory w) (wl_mode w = Flushed) n0 gs ks n s"
    using clean_log_shrink[of w _ _ n0 gs ks ps n s] i(1) k by simp
  moreover have "log_ok n0 (concat gs @ ks @ ps)" using i(1) k(1,5) by (simp add: clean_log_def)
  ultimately have "live_log w n0 gs ks ps s"
    using i(2) k assms(2,3) unfolding live_log_def log_fields_def Let_def by auto
  then show thesis using that k(1) i(3) by blast
qed

lemma live_quiet:
  assumes "live_log w n0 gs ks ps s" "quiet w w'"
    and "clean_log w' (wl_directory w) (wl_mode w = Flushed) n0 gs ks (length (log_bytes (log_end n0 gs) ks)) s'"
  shows "live_log w' n0 gs ks ps s'"
  using assms(1,3) flushes_mono[OF assms(2)] unfolding live_log_def Let_def by (simp add: quiet_fields[OF assms(2)])

text \<open>A broken log.\<close>

lemma broken_clean:
  assumes "live_log w n0 gs ks ps s" "quiet w w1" "length ex \<le> 1" "set ex \<subseteq> X"
    and "clean_log w1 (wl_directory w) (wl_mode w = Flushed) n0 gs (ks @ ps @ ex) n s'" "stable_below D (log_end n0 gs) (ks @ ps) s'"
  shows "clean_inv X (w1\<lparr>wl_broken := True\<rparr>) n0 gs (ks @ ps) D"
proof -
  let ?w = "w1\<lparr>wl_broken := True\<rparr>"
  have "clean_log ?w (wl_directory ?w) (wl_mode ?w = Flushed) n0 gs ((ks @ ps) @ ex) n s'"
    using assms(5) by (simp add: quiet_fields[OF assms(2)])
  moreover have "flushes_directories ?w = flushes_directories w1" by (simp add: flushes_directories_def)
  then have "log_fields X ?w n0 gs (ks @ ps) ex n"
    using assms(1,3,4) flushes_mono[OF assms(2)] unfolding log_fields_def live_log_def Let_def by (simp add: quiet_fields[OF assms(2)])
  ultimately show ?thesis using assms(6) unfolding clean_inv_def by blast
qed

lemma same_log_broken [simp]: "same_log w (w1\<lparr>wl_broken := b\<rparr>) = same_log w w1"
  by (simp add: same_log_def)

section \<open>Flushing, committing, syncing\<close>

lemma entry_list_empty: "log_ok l ps \<Longrightarrow> length (log_bytes l ps) = 0 \<longleftrightarrow> ps = []"
  by (cases ps) (auto simp: log_ok_Cons length_entry_bytes RECORD_HEADER_SIZE_def)

lemma wal_flush_run:
  assumes "wal_flush w = (r, w')" "live_log w n0 gs ks ps s"
  obtains (flushed) "r = Inr ()" "same_log w w'" "live_log w' n0 gs (ks @ ps) [] s" "wl_nextLsn w' = wl_nextLsn w"
  | (cut) e where "r = Inl e" "os_faults w \<noteq> []" "quiet w w'" "live_log w' n0 gs ks ps s"
  | (broken) e w1 k where "r = Inl e" "os_faults w \<noteq> []" "w' = w1\<lparr>wl_broken := True\<rparr>" "quiet w w1"
      "clean_log w1 (wl_directory w) (wl_mode w = Flushed) n0 gs (ks @ ps) k s"
proof -
  let ?l = "log_end n0 gs"
  have L: "\<not> wl_closed w" "\<not> wl_broken w" "wl_fd w = Some (segment_path (wl_directory w) ?l)"
      "wl_position w = SEGMENT_HEADER_SIZE + length (log_bytes ?l (ks @ ps))" "wl_pending w = entry_list (?l + length ks) ps"
      "wl_pendingBytes w = length (log_bytes (?l + length ks) ps)" "log_ok n0 (concat gs @ ks @ ps)"
      "clean_log w (wl_directory w) (wl_mode w = Flushed) n0 gs ks (length (log_bytes ?l ks)) s"
    using assms(2) by (simp_all add: live_log_def Let_def)
  have writable: "assertWritable w = (Inr (), w)" using L(1,2) by (simp add: assertWritable_def assertOpen_def operation_defs)
  have "log_ok (?l + length ks) ps" using L(7) by (simp add: log_ok_append log_end_def add.assoc)
  then have empty: "wl_pendingBytes w = 0 \<longleftrightarrow> ps = []" unfolding L(6) by (rule entry_list_empty)
  show thesis
  proof (cases "ps = []")
    case True
    then have "r = Inr ()" "w' = w" using assms(1) writable empty by (simp_all add: wal_flush_def bindS_def getsS_def returnS_def)
    then show thesis using flushed assms(2) True by simp
  next
    case False
    have pos: "wl_position w - wl_pendingBytes w = SEGMENT_HEADER_SIZE + length (log_bytes ?l ks)" by (simp add: L(4,6) log_bytes_append)
    obtain r1 w1 where wr: "wal_write (log_bytes (?l + length ks) ps) (SEGMENT_HEADER_SIZE + length (log_bytes ?l ks)) w = (r1, w1)" by fastforce
    have body: "(r, w') = (case r1 of Inl e \<Rightarrow> (Inl e, w1) | Inr _ \<Rightarrow> (Inr (), w1\<lparr>wl_pending := [], wl_pendingBytes := 0\<rparr>))"
      using assms(1) writable empty False wr
      unfolding wal_flush_def wal_write_def[symmetric] bindS_def getsS_def by (cases r1) (auto simp: pos L(5) modifyS_def)
    from wr L(8,7,3) show thesis
    proof (cases rule: wal_write_run)
      case written
      let ?w = "w1\<lparr>wl_pending := [], wl_pendingBytes := 0\<rparr>"
      have "flushes_directories ?w = flushes_directories w1" by (simp add: flushes_directories_def)
      then have "live_log ?w n0 gs (ks @ ps) [] s"
        using assms(2) written(3) flushes_mono[OF written(2)] unfolding live_log_def Let_def
        by (simp add: quiet_fields[OF written(2)])
      moreover have "same_log w ?w" using quiet_same_log[OF written(2)] by (simp add: same_log_def)
      ultimately show thesis using flushed body written(1) quiet_fields(8)[OF written(2)] by simp
    next
      case c: (cut e)
      then show thesis using cut body live_quiet[OF assms(2) c(3,4)] by simp
    next
      case (broken e w2 k)
      then show thesis using that(3) body by simp
    qed
  qed
qed

lemma flush_not_writable: "wl_closed w \<or> wl_broken w \<Longrightarrow> \<exists>e. wal_flush w = (Inl e, w)"
  by (auto simp: wal_flush_def assertWritable_def assertOpen_def operation_defs)

text \<open>Without a power loss to survive, what is in the file is stable.\<close>

lemma clean_log_raise: "clean_log st dir False n0 gs ys n s \<Longrightarrow> clean_log st dir False n0 gs ys n n"
  by (auto simp: clean_log_def tail_segment_def)

lemma live_raise:
  assumes "live_log w n0 gs ks [] s" "wl_mode w \<noteq> Flushed"
  shows "clean_inv X w n0 gs ks (log_end n0 gs + length ks)"
proof -
  have "live_log w n0 gs ks [] (length (log_bytes (log_end n0 gs) ks))"
    using assms clean_log_raise unfolding live_log_def Let_def by auto
  then show ?thesis using live_clean[of w n0 gs ks "[]"] by (simp add: stable_below_def)
qed

lemma live_synced: "live_log w n0 gs ks [] (length (log_bytes (log_end n0 gs) ks)) \<Longrightarrow> clean_inv X w n0 gs ks (log_end n0 gs + length ks)"
  using live_clean[of w n0 gs ks "[]"] by (simp add: stable_below_def)

lemma flush_keeps:
  assumes "clean_inv X w n0 gs xs D" "wal_flush w = (r, w')"
  shows "clean_inv X w' n0 gs xs D \<and> same_log w w' \<and> (r = Inr () \<and> wl_mode w \<noteq> Flushed \<longrightarrow> clean_inv X w' n0 gs xs (log_end n0 gs + length xs))"
proof (cases "wl_closed w \<or> wl_broken w")
  case True
  then show ?thesis using flush_not_writable[OF True] assms by auto
next
  case False
  obtain ks ps s where l: "xs = ks @ ps" "live_log w n0 gs ks ps s" "stable_below D (log_end n0 gs) (ks @ ps) s"
    using clean_live[OF assms(1)] False by blast
  from assms(2) l(2) show ?thesis
  proof (cases rule: wal_flush_run)
    case flushed
    then show ?thesis using live_clean[of w' n0 gs "ks @ ps" "[]" s D] live_raise[OF flushed(3)] l(1,3) by (simp add: same_log_def)
  next
    case (cut e)
    then show ?thesis using live_clean[OF cut(4) l(3)] l(1) quiet_same_log by simp
  next
    case (broken e w1 k)
    then show ?thesis using broken_clean[OF l(2) broken(4), of "[]" X k s D] l(1,3) quiet_same_log by simp
  qed
qed

lemma live_sync_run:
  assumes "sync_or_break w = (r, w')" "live_log w n0 gs ks ps s"
  obtains (synced) "r = Inr ()" "quiet w w'" "live_log w' n0 gs ks ps (length (log_bytes (log_end n0 gs) ks))"
  | (broken) e w1 where "r = Inl e" "os_faults w \<noteq> []" "w' = w1\<lparr>wl_broken := True\<rparr>" "quiet w w1"
      "clean_log w1 (wl_directory w) (wl_mode w = Flushed) n0 gs (ks @ ps) (length (log_bytes (log_end n0 gs) ks)) s"
proof -
  have L: "clean_log w (wl_directory w) (wl_mode w = Flushed) n0 gs ks (length (log_bytes (log_end n0 gs) ks)) s"
      "wl_fd w = Some (segment_path (wl_directory w) (log_end n0 gs))" "log_ok n0 (concat gs @ ks @ ps)"
    using assms(2) by (simp_all add: live_log_def Let_def)
  from assms(1) L(1,2) show thesis
  proof (cases rule: sync_or_break_run)
    case s: synced
    then show thesis using synced live_quiet[OF assms(2) s(2,3)] by blast
  next
    case (broken e w1)
    then show thesis using that(2) clean_log_grow[OF broken(5) L(3)] by blast
  qed
qed

lemma live_unsynced [simp]: "live_log (w\<lparr>wl_unsynced := b\<rparr>) n0 gs ks ps s = live_log w n0 gs ks ps s"
  by (simp add: live_log_def Let_def flushes_directories_def)

lemma same_log_unsynced [simp]: "same_log w (w1\<lparr>wl_unsynced := b\<rparr>) = same_log w w1"
  by (simp add: same_log_def)

lemma stable_more: "stable_below D l (ks @ ps) s \<Longrightarrow> s \<le> length (log_bytes l ks) \<Longrightarrow> stable_below D l (ks @ ps) (length (log_bytes l ks))"
  by (simp add: stable_below_def)

lemma live_stable: "live_log w n0 gs ks ps s \<Longrightarrow> s \<le> length (log_bytes (log_end n0 gs) ks)"
  by (simp add: live_log_def Let_def clean_log_def)

lemma commit_keeps:
  assumes "clean_inv X w n0 gs xs D" "wal_commit w = (r, w')"
  shows "clean_inv X w' n0 gs xs D \<and> same_log w w' \<and>
    (r = Inr () \<and> wl_unsynced w \<and> \<not> wl_closed w \<and> wl_mode w \<noteq> Memory \<longrightarrow> clean_inv X w' n0 gs xs (log_end n0 gs + length xs))"
proof (cases "\<not> wl_unsynced w \<or> wl_closed w \<or> wl_broken w")
  case True
  then have "w' = w" "r \<noteq> Inr () \<or> \<not> wl_unsynced w \<or> wl_closed w"
    using assms(2) by (auto simp: wal_commit_def assertWritable_def assertOpen_def operation_defs split: if_splits)
  then show ?thesis using assms(1) by auto
next
  case False
  obtain ks ps s where l: "xs = ks @ ps" "live_log w n0 gs ks ps s" "stable_below D (log_end n0 gs) (ks @ ps) s"
    using clean_live[OF assms(1)] False by blast
  obtain r1 w1 where y: "sync_or_break w = (r1, w1)" by fastforce
  have body: "(r, w') = (case r1 of Inl e \<Rightarrow> (Inl e, w1) | Inr _ \<Rightarrow> (Inr (), w1\<lparr>wl_unsynced := False\<rparr>))"
    using assms(2) False y by (cases r1) (auto simp: wal_commit_def assertWritable_def assertOpen_def operation_defs)
  from y l(2) show ?thesis
  proof (cases rule: live_sync_run)
    case synced
    have "ps = []" if "wl_mode w \<noteq> Memory" using that l(2) by (simp add: live_log_def Let_def)
    then show ?thesis
      using body synced live_clean[OF _ stable_more[OF l(3) live_stable[OF l(2)]], of w'] live_synced[of w' n0 gs ks] l(1) quiet_same_log by auto
  next
    case (broken e w2)
    then show ?thesis
      using body broken_clean[OF l(2) broken(4), of "[]" X _ s D] l(1,3) quiet_same_log by simp
  qed
qed

lemma sync_keeps:
  assumes "clean_inv X w n0 gs xs D" "wal_sync w = (r, w')"
  shows "clean_inv X w' n0 gs xs D \<and> same_log w w' \<and> (r = Inr () \<longrightarrow> clean_inv X w' n0 gs xs (log_end n0 gs + length xs))"
proof -
  obtain r1 w1 where f: "wal_flush w = (r1, w1)" by fastforce
  note F = flush_keeps[OF assms(1) f]
  show ?thesis
  proof (cases r1)
    case (Inl e)
    then show ?thesis using assms(2) f F by (auto simp: wal_sync_def bindS_def)
  next
    case (Inr u)
    then have "\<not> wl_closed w" "\<not> wl_broken w" using flush_not_writable[of w] f by auto
    then obtain ks ps s where l: "xs = ks @ ps" "live_log w n0 gs ks ps s" "stable_below D (log_end n0 gs) (ks @ ps) s"
      using clean_live[OF assms(1)] by blast
    from f l(2) have l1: "live_log w1 n0 gs xs [] s" using Inr l(1) by (cases rule: wal_flush_run) auto
    obtain r2 w2 where y: "sync_or_break w1 = (r2, w2)" by fastforce
    have body: "(r, w') = (case r2 of Inl e \<Rightarrow> (Inl e, w2) | Inr _ \<Rightarrow> (Inr (), w2\<lparr>wl_unsynced := False\<rparr>))"
      using assms(2) f Inr y by (cases r2) (auto simp: wal_sync_def bindS_def modifyS_def)
    have st: "stable_below D (log_end n0 gs) (xs @ []) s" using l(1,3) by simp
    from y l1 show ?thesis
    proof (cases rule: live_sync_run)
      case synced
      then have "same_log w w2" using F same_log_trans quiet_same_log by blast
      then show ?thesis
        using body synced live_clean[OF _ stable_more[OF st live_stable[OF l1]], of w'] live_synced[of w' n0 gs xs] by simp
    next
      case (broken e w3)
      then have "same_log w w3" using F same_log_trans quiet_same_log by blast
      then show ?thesis
        using body broken broken_clean[OF l1 broken(4), of "[]" X _ s D] st by simp
    qed
  qed
qed

section \<open>Rotation\<close>

lemma clean_log_next:
  assumes "clean_log st dir durable n0 gs xs n s" "relinks_but (segment_path dir m) st st'" "log_end n0 gs < m" "m < 2 ^ 64"
  shows "sealed st' dir durable n0 gs" "tail_segment st' dir durable (log_end n0 gs) xs n s"
    "known_names st' dir (insert m (set (starts n0 gs) \<union> {log_end n0 gs}))" "distinct (map fst (os_files st'))"
proof -
  have c: "sealed st dir durable n0 gs" "tail_segment st dir durable (log_end n0 gs) xs n s"
      "known_names st dir (set (starts n0 gs) \<union> {log_end n0 gs})" "distinct (map fst (os_files st))"
    using assms(1) by (simp_all add: clean_log_def)
  have keep: "\<exists>f'. file_at (segment_path dir x) st' = Some f' \<and> relinked f f'"
    if "x \<in> set (starts n0 gs) \<union> {log_end n0 gs}" "file_at (segment_path dir x) st = Some f" for x f
  proof -
    have "x < m" using segments_below[OF c(1) that(1)] assms(3) by simp
    then have "segment_path dir x \<noteq> segment_path dir m" using segment_path_inj[of x m dir] assms(4) by auto
    then show ?thesis using relinks_but_Some[OF assms(2) _ that(2)] by blast
  qed
  show "sealed st' dir durable n0 gs" by (rule sealed_mono[OF c(1)]) (rule keep, auto)
  show "tail_segment st' dir durable (log_end n0 gs) xs n s" by (rule tail_mono[OF c(2)]) (rule keep, auto)
  show "known_names st' dir (insert m (set (starts n0 gs) \<union> {log_end n0 gs}))" by (rule known_names_insert[OF assms(4,2) c(3)])
  show "distinct (map fst (os_files st'))" using relinks_but_quiet[OF assms(2)] c(4) by (simp add: quiet_def)
qed

text \<open>A failed attempt to create the next segment.\<close>

lemma create_failed:
  assumes "live_log w n0 gs xs [] (length (log_bytes (log_end n0 gs) xs))" "xs \<noteq> []" "wl_nextLsn w < 2 ^ 64"
    and "createSegment (wl_directory w) (wl_nextLsn w) d w = (Inl e, w')" "D \<le> log_end n0 gs + length xs"
  shows "os_faults w \<noteq> []" "quiet w w'" "log_inv X w' n0 gs xs D"
proof -
  let ?l = "log_end n0 gs" and ?dir = "wl_directory w" and ?F = "wl_mode w = Flushed" and ?n = "length (log_bytes (log_end n0 gs) xs)"
  let ?m = "?l + length xs"
  have c: "clean_log w ?dir ?F n0 gs xs ?n ?n" and m: "wl_nextLsn w = ?m" using assms(1) by (simp_all add: live_log_def Let_def)
  note C = createSegment_run[OF assms(4), unfolded m]
  have rb: "relinks_but (segment_path ?dir ?m) w w'" using C by blast
  have lt: "?l < ?m" "?m < 2 ^ 64" using assms(2,3) m by auto
  note N = clean_log_next[OF c rb lt]
  have none: "file_at (segment_path ?dir ?m) w = None"
  proof (rule ccontr)
    assume "file_at (segment_path ?dir ?m) w \<noteq> None"
    moreover have "?m < 10 ^ 20" using lt(2) by simp
    ultimately have "?m \<in> set (starts n0 gs) \<union> {?l}" using c unfolding clean_log_def known_names_def by blast
    moreover have "sealed w ?dir ?F n0 gs" using c by (simp add: clean_log_def)
    ultimately show False using segments_below lt(1) by fastforce
  qed
  show "os_faults w \<noteq> []" using C none lt(2) by auto
  show q: "quiet w w'" using relinks_but_quiet[OF rb] .
  have ok: "log_ok n0 (concat gs @ xs)" "?l < 2 ^ 64" using c by (simp_all add: clean_log_def)
  have "disk_log False w' ?dir ?F n0 gs (xs @ []) ?n ?n"
  proof (cases "file_at (segment_path ?dir ?m) w'")
    case None
    then have "clean_log w' ?dir ?F n0 gs xs ?n ?n"
      using N ok known_names_gone[OF N(3)] by (simp add: clean_log_def)
    then show ?thesis by (simp add: disk_log_cases)
  next
    case (Some f)
    then have "leftover w' ?dir False ?m" using C none by (auto simp: leftover_def)
    then show ?thesis using N ok assms(2) lt(2) by (simp add: disk_log_cases insert_commute)
  qed
  moreover have "log_fields X w' n0 gs xs [] ?n"
    using log_fields_quiet[OF q] live_fields[OF assms(1)] by simp
  moreover have "stable_below D ?l xs ?n"
    using assms(5) log_bytes_take[of ?l xs "D - ?l"] by (simp add: stable_below_def)
  ultimately show "log_inv X w' n0 gs xs D" unfolding log_inv_def quiet_fields[OF q] by blast
qed

text \<open>The new segment becomes the last one.\<close>

definition next_segment :: "wal \<Rightarrow> wal" where
  "next_segment w = w\<lparr>wl_segments := wl_segments w @ [segment_at (wl_directory w) (wl_nextLsn w)],
     wl_fd := Some (segment_path (wl_directory w) (wl_nextLsn w)), wl_position := SEGMENT_HEADER_SIZE\<rparr>"

lemma create_next:
  assumes "live_log w n0 gs xs [] (length (log_bytes (log_end n0 gs) xs))" "xs \<noteq> []"
    and "createSegment (wl_directory w) (wl_nextLsn w) (wl_mode w = Flushed) w = (Inr (info, fd), w')"
  shows "info = segment_at (wl_directory w) (wl_nextLsn w)" "fd = segment_path (wl_directory w) (wl_nextLsn w)" "quiet w w'"
    "live_log (next_segment w') n0 (gs @ [xs]) [] [] 0"
proof -
  let ?l = "log_end n0 gs" and ?dir = "wl_directory w" and ?F = "wl_mode w = Flushed" and ?n = "length (log_bytes (log_end n0 gs) xs)"
  let ?m = "?l + length xs"
  have c: "clean_log w ?dir ?F n0 gs xs ?n ?n" and m: "wl_nextLsn w = ?m" and fl: "?F \<longrightarrow> flushes_directories w"
    using assms(1) by (simp_all add: live_log_def Let_def)
  note C = createSegment_run[OF assms(3), unfolded m]
  show "info = segment_at (wl_directory w) (wl_nextLsn w)" "fd = segment_path (wl_directory w) (wl_nextLsn w)" using C m by simp_all
  obtain f where f: "?m < 2 ^ 64" "file_at (segment_path ?dir ?m) w' = Some f" "fi_data f = header_bytes ?m" "fi_synced f \<le> length (fi_data f)"
      "?F \<longrightarrow> synced_file f \<and> fi_linked f" using C fl by auto
  have rb: "relinks_but (segment_path ?dir ?m) w w'" using C by blast
  show q: "quiet w w'" using relinks_but_quiet[OF rb] .
  have lt: "?l < ?m" "?m < 2 ^ 64" using assms(2) f(1) by auto
  note N = clean_log_next[OF c rb lt]
  have "sealed w' ?dir ?F n0 (gs @ [xs])" using N(1) sealed_tail[OF N(2) assms(2)] lt by (simp add: sealed_snoc)
  moreover have "log_ok n0 (concat gs @ xs)" using c by (simp add: clean_log_def)
  moreover have "tail_segment w' ?dir ?F ?m [] 0 0"
    using f length_header[OF f(1)] by (auto simp: tail_segment_def synced_file_def)
  moreover have "known_names w' ?dir (set (starts n0 (gs @ [xs])) \<union> {?m})"
    using N(3) by (simp add: starts_append log_end_def insert_commute)
  ultimately have "clean_log w' ?dir ?F n0 (gs @ [xs]) [] 0 0"
    using N(4) lt(2) by (simp add: clean_log_def log_end_snoc)
  moreover have "flushes_directories (next_segment w') = flushes_directories w'" by (simp add: flushes_directories_def next_segment_def)
  ultimately show "live_log (next_segment w') n0 (gs @ [xs]) [] [] 0"
    using assms(1) flushes_mono[OF q] \<open>log_ok n0 (concat gs @ xs)\<close> unfolding live_log_def Let_def
    by (simp add: quiet_fields[OF q] next_segment_def log_end_snoc starts_append log_end_def add.assoc)
qed

text \<open>The part of \<open>rotate_log\<close> after the flush.\<close>

lemma rotate_sync:
  assumes "live_log w n0 gs xs [] s"
    and "(if wl_mode w = Flushed then bindS sync_or_break (\<lambda>_. modifyS (\<lambda>w. w\<lparr>wl_unsynced := False\<rparr>)) else returnS ()) w = (r, w')"
  obtains (ready) "r = Inr ()" "same_log w w'" "live_log w' n0 gs xs [] (length (log_bytes (log_end n0 gs) xs))"
      "wl_nextLsn w' = wl_nextLsn w" "wl_fd w' = wl_fd w" "wl_segments w' = wl_segments w"
  | (broken) e w1 where "r = Inl e" "os_faults w \<noteq> []" "w' = w1\<lparr>wl_broken := True\<rparr>" "quiet w w1"
      "clean_log w1 (wl_directory w) (wl_mode w = Flushed) n0 gs xs (length (log_bytes (log_end n0 gs) xs)) s"
proof (cases "wl_mode w = Flushed")
  case False
  then have "r = Inr ()" "w' = w" using assms(2) by (simp_all add: returnS_def)
  moreover have "live_log w n0 gs xs [] (length (log_bytes (log_end n0 gs) xs))"
    using assms(1) False clean_log_raise unfolding live_log_def Let_def by auto
  ultimately show thesis using ready by simp
next
  case True
  obtain r1 w1 where y: "sync_or_break w = (r1, w1)" by fastforce
  have body: "(r, w') = (case r1 of Inl e \<Rightarrow> (Inl e, w1) | Inr _ \<Rightarrow> (Inr (), w1\<lparr>wl_unsynced := False\<rparr>))"
    using assms(2) True y by (cases r1) (auto simp: bindS_def modifyS_def)
  from y assms(1) show thesis
  proof (cases rule: live_sync_run)
    case synced
    then show thesis using ready body quiet_same_log[OF synced(2)] quiet_fields[OF synced(2)] by simp
  next
    case b: (broken e w2)
    then show thesis using broken[of e w2] body by simp
  qed
qed

lemma rotate_run:
  assumes "rotate_log w = (r, w')" "live_log w n0 gs ks ps s" "ks @ ps \<noteq> []" "wl_nextLsn w < 2 ^ 64"
    and "stable_below D (log_end n0 gs) (ks @ ps) s"
  obtains (rotated) "r = Inr ()" "same_log w w'" "live_log w' n0 (gs @ [ks @ ps]) [] [] 0"
  | (failed) e gs' xs' where "r = Inl e" "os_faults w \<noteq> []" "same_log w w'" "concat gs' @ xs' = concat gs @ ks @ ps" "log_inv X w' n0 gs' xs' D"
proof -
  let ?xs = "ks @ ps" and ?l = "log_end n0 gs"
  obtain r1 w1 where f: "wal_flush w = (r1, w1)" by fastforce
  from f assms(2) show thesis
  proof (cases rule: wal_flush_run)
    case (cut e)
    then have "r = Inl e" "w' = w1" using assms(1) f by (simp_all add: rotate_log_def bindS_def)
    then show thesis using failed[of e gs ?xs] cut clean_log_inv[OF live_clean[OF cut(4) assms(5)]] quiet_same_log by blast
  next
    case (broken e w2 k)
    then have "r = Inl e" "w' = w1" using assms(1) f by (simp_all add: rotate_log_def bindS_def)
    then show thesis
      using failed[of e gs ?xs] broken clean_log_inv[OF broken_clean[OF assms(2) broken(4), of "[]" X k s D]] assms(5) quiet_same_log by simp
  next
    case flushed
    obtain r2 w2 where y: "(if wl_mode w1 = Flushed then bindS sync_or_break (\<lambda>_. modifyS (\<lambda>w. w\<lparr>wl_unsynced := False\<rparr>)) else returnS ()) w1 = (r2, w2)"
      by fastforce
    have st: "stable_below D ?l (?xs @ []) s" using assms(5) by simp
    have fl: "os_faults w \<noteq> []" if "os_faults w1 \<noteq> []" using that flushed(2) by (auto simp: same_log_def)
    from flushed(3) y show thesis
    proof (cases rule: rotate_sync)
      case (broken e w3)
      then have "r = Inl e" "w' = w2" using assms(1) f flushed(1) y unfolding rotate_log_def by (simp_all add: bindS_def getsS_def)
      moreover have "same_log w w3" using same_log_trans[OF flushed(2) quiet_same_log[OF broken(4)]] .
      ultimately show thesis
        using failed[of e gs ?xs] broken fl clean_log_inv[OF broken_clean[OF flushed(3) broken(4), of "[]" X _ s D]] st by simp
    next
      case ready
      let ?n = "length (log_bytes ?l ?xs)"
      obtain r3 w3 where c: "createSegment (wl_directory w1) (wl_nextLsn w1) (wl_mode w1 = Flushed) w2 = (r3, w3)" by fastforce
      have eqs: "wl_directory w2 = wl_directory w1" "wl_mode w2 = wl_mode w1" using ready(2) by (simp_all add: same_log_def)
      have c2: "createSegment (wl_directory w2) (wl_nextLsn w2) (wl_mode w2 = Flushed) w2 = (r3, w3)" using c ready(4) eqs by simp
      have lsn: "wl_nextLsn w2 < 2 ^ 64" using assms(4) flushed(4) ready(4) by simp
      have sl: "same_log w w2" using same_log_trans[OF flushed(2) ready(2)] .
      show thesis
      proof (cases r3)
        case (Inl e)
        then have r: "r = Inl e" "w' = w3"
          using assms(1) f flushed(1) y ready(1) c unfolding rotate_log_def by (simp_all add: bindS_def getsS_def)
        have "D \<le> ?l + length ?xs" using assms(5) by (simp add: stable_below_def)
        note F = create_failed[OF ready(3) assms(3) lsn c2[unfolded Inl] this]
        have "os_faults w \<noteq> []" using F(1) sl by (auto simp: same_log_def)
        then show thesis using failed[of e gs ?xs] r F(3) same_log_trans[OF sl quiet_same_log[OF F(2)]] by simp
      next
        case (Inr q)
        obtain info fd where q: "q = (info, fd)" by (cases q)
        note N = create_next[OF ready(3) assms(3) c2[unfolded Inr q]]
        have w4: "w3\<lparr>wl_segments := wl_segments w3 @ [info], wl_fd := Some fd, wl_position := SEGMENT_HEADER_SIZE\<rparr> = next_segment w3"
          using N(1,2) quiet_fields[OF N(3)] by (simp add: next_segment_def)
        have fd1: "wl_fd w1 = Some (segment_path (wl_directory w1) ?l)" using flushed(3) by (simp add: live_log_def Let_def)
        obtain r5 w5 where cl: "closeSync (segment_path (wl_directory w1) ?l) (next_segment w3) = (r5, w5)" by fastforce
        note CL = closeSync_run[OF cl]
        have u: "unchanged (next_segment w3) w5" using unchangedI CL(1,2) by blast
        have q5: "quiet (next_segment w3) w5" using unchanged_quiet[OF u] .
        have body: "(r, w') = (case r5 of Inl e \<Rightarrow> (Inl (ioError e False), w5\<lparr>wl_broken := True\<rparr>) | Inr _ \<Rightarrow> (Inr (), w5))"
          using assms(1) f flushed(1) y ready(1) c Inr q cl w4 fd1 unfolding rotate_log_def
          by (cases r5) (auto simp: operation_defs mark_broken_def)
        have c4: "clean_log (next_segment w3) (wl_directory (next_segment w3)) (wl_mode (next_segment w3) = Flushed) n0 (gs @ [?xs]) []
            (length (log_bytes (log_end n0 (gs @ [?xs])) [])) 0"
          using N(4) by (simp add: live_log_def Let_def)
        have "same_log w2 (next_segment w3)" using quiet_same_log[OF N(3)] by (simp add: same_log_def next_segment_def)
        then have sl5: "same_log w w5" using same_log_trans[OF same_log_trans[OF sl] quiet_same_log[OF q5]] by blast
        show thesis
        proof (cases r5)
          case (Inr v)
          then show thesis using rotated body sl5 live_quiet[OF N(4) q5 clean_log_unchanged[OF u c4]] by simp
        next
          case (Inl e)
          have "stable_below D (log_end n0 (gs @ [?xs])) [] 0" using assms(5) by (simp add: stable_below_def log_end_snoc)
          then have "clean_inv X (w5\<lparr>wl_broken := True\<rparr>) n0 (gs @ [?xs]) [] D"
            using broken_clean[OF N(4) q5, of "[]" X] clean_log_unchanged[OF u c4] by simp
          moreover have "os_faults w5 \<noteq> [] \<or> os_faults (next_segment w3) \<noteq> []" using CL(3) Inl by auto
          then have "os_faults w \<noteq> []" using sl5 \<open>same_log w2 (next_segment w3)\<close> sl by (auto simp: same_log_def)
          ultimately show thesis using failed[of _ "gs @ [?xs]" "[]"] body Inl sl5 clean_log_inv by simp
        qed
      qed
    qed
  qed
qed

section \<open>Appending\<close>

text \<open>Which records are durable when an append returns.\<close>

definition append_durable :: "wal \<Rightarrow> bool" where
  "append_durable w \<longleftrightarrow> wl_mode w = Journaled \<or> wl_mode w = Flushed \<and> \<not> wl_groupCommit w"

text \<open>Why an append may fail.\<close>

definition refuses :: "wal \<Rightarrow> nat \<Rightarrow> log_entry \<Rightarrow> bool" where
  "refuses w lsn x \<longleftrightarrow> os_faults w \<noteq> [] \<or> wl_closed w \<or> wl_broken w \<or> \<not> entry_ok x \<or> \<not> lsn < 2 ^ 64"

definition appended :: "log_entry set \<Rightarrow> wal \<Rightarrow> wal \<Rightarrow> failure + nat \<Rightarrow> nat \<Rightarrow> log_entry list \<Rightarrow> log_entry \<Rightarrow> nat \<Rightarrow> bool" where
  "appended X w w' r n0 es x D \<longleftrightarrow> same_log w w' \<and> (\<exists>gs xs. case r of
     Inl e \<Rightarrow> refuses w (n0 + length es) x \<and> concat gs @ xs = es \<and> log_inv (insert x X) w' n0 gs xs D
   | Inr lsn \<Rightarrow> lsn = n0 + length es \<and> concat gs @ xs = es @ [x] \<and> \<not> wl_closed w' \<and> \<not> wl_broken w' \<and>
       clean_inv X w' n0 gs xs (if append_durable w then n0 + length es + 1 else D))"

lemma appended_fails:
  "refuses w (n0 + length es) x \<Longrightarrow> same_log w w' \<Longrightarrow> concat gs @ xs = es \<Longrightarrow> log_inv (insert x X) w' n0 gs xs D \<Longrightarrow> appended X w w' (Inl e) n0 es x D"
  by (auto simp: appended_def)

lemma appended_succeeds:
  assumes "same_log w w'" "concat gs @ xs = es @ [x]" "clean_inv X w' n0 gs xs (if append_durable w then n0 + length es + 1 else D)"
    and "\<not> wl_closed w'" "\<not> wl_broken w'"
  shows "appended X w w' (Inr (n0 + length es)) n0 es x D"
  unfolding appended_def using assms by (intro conjI exI[of _ gs] exI[of _ xs]) auto

lemma appended_after:
  assumes "same_log w w1" "appended X w1 w' r n0 es x D" "\<not> wl_closed w1" "\<not> wl_broken w1"
  shows "appended X w w' r n0 es x D"
proof -
  have f: "refuses w1 l x \<Longrightarrow> refuses w l x" for l using assms(1,3,4) by (auto simp: refuses_def same_log_def)
  have d: "append_durable w1 = append_durable w" using assms(1) by (simp add: append_durable_def same_log_def)
  show ?thesis
  proof (cases r)
    case (Inl e)
    show ?thesis using assms(2) same_log_trans[OF assms(1)] f unfolding appended_def Inl sum.case by blast
  next
    case (Inr lsn)
    show ?thesis using assms(2) same_log_trans[OF assms(1)] unfolding appended_def Inr d sum.case by blast
  qed
qed

lemma live_append:
  assumes "live_log w n0 gs ks [] s" "clean_log w1 (wl_directory w) (wl_mode w = Flushed) n0 gs (ks @ [x]) (length (log_bytes (log_end n0 gs) (ks @ [x]))) s'"
    and "quiet w w1" "p = length (entry_bytes (log_end n0 gs + length ks) x)"
  shows "live_log (w1\<lparr>wl_position := wl_position w1 + p, wl_nextLsn := wl_nextLsn w + 1\<rparr>) n0 gs (ks @ [x]) [] s'"
proof -
  let ?w = "w1\<lparr>wl_position := wl_position w1 + p, wl_nextLsn := wl_nextLsn w + 1\<rparr>"
  have "log_ok n0 (concat gs @ ks @ [x])" using assms(2) by (simp add: clean_log_def)
  moreover have "flushes_directories ?w = flushes_directories w1" by (simp add: flushes_directories_def)
  ultimately show ?thesis
    using assms(1,2,4) flushes_mono[OF assms(3)] unfolding live_log_def Let_def
    by (simp add: quiet_fields[OF assms(3)] log_bytes_append)
qed

lemma same_log_position [simp]: "same_log w (w1\<lparr>wl_position := k, wl_nextLsn := l\<rparr>) = same_log w w1"
  by (simp add: same_log_def)

lemma next_count: "live_log w n0 gs ks ps s \<Longrightarrow> wl_nextLsn w = n0 + length (concat gs @ ks @ ps)"
  by (simp add: live_log_def Let_def log_end_def)

lemma append_file_run:
  assumes "append_file (wl_nextLsn w) (entry_bytes (wl_nextLsn w) x) w = (r, w')" "live_log w n0 gs ks [] s" "wl_mode w \<noteq> Memory"
    and "entry_ok x" "wl_nextLsn w < 2 ^ 64" "stable_below D (log_end n0 gs) ks s"
  shows "appended X w w' r n0 (concat gs @ ks) x D"
proof -
  let ?l = "log_end n0 gs" and ?r = "entry_bytes (wl_nextLsn w) x" and ?F = "wl_mode w = Flushed"
  have L: "wl_nextLsn w = ?l + length ks" "wl_position w = SEGMENT_HEADER_SIZE + length (log_bytes ?l ks)"
      "wl_fd w = Some (segment_path (wl_directory w) ?l)" "log_ok n0 (concat gs @ ks)"
      "clean_log w (wl_directory w) ?F n0 gs ks (length (log_bytes ?l ks)) s"
    using assms(2) by (simp_all add: live_log_def Let_def)
  have ok: "log_ok n0 (concat gs @ ks @ [x])" using L(1,4) assms(4,5) by (auto simp: log_ok_def log_end_def)
  have n: "wl_nextLsn w = n0 + length (concat gs @ ks)" using next_count[OF assms(2)] by simp
  have bytes: "?r = log_bytes (?l + length ks) [x]" by (simp add: L(1))
  obtain r1 w1 where wr: "wal_write (log_bytes (?l + length ks) [x]) (SEGMENT_HEADER_SIZE + length (log_bytes ?l ks)) w = (r1, w1)" by fastforce
  have st: "stable_below D ?l (ks @ []) s" using assms(6) by simp
  have unf: "append_file (wl_nextLsn w) ?r w =
      (case r1 of Inl e \<Rightarrow> (Inl e, w1) | Inr _ \<Rightarrow>
        bindS (if ?F then (if wl_groupCommit w then modifyS (\<lambda>w. w\<lparr>wl_unsynced := True\<rparr>) else sync_or_break) else returnS ()) (\<lambda>_.
        bindS (modifyS (\<lambda>v. v\<lparr>wl_position := wl_position v + length ?r, wl_nextLsn := wl_nextLsn w + 1\<rparr>)) (\<lambda>_. returnS (wl_nextLsn w))) w1)"
    unfolding append_file_def wal_write_def[symmetric] bytes[symmetric] L(2)[symmetric]
    using wr[folded bytes L(2)] by (subst bindS_def, subst bindS_def) (simp add: getsS_def split: sum.splits)
  from wr L(5) ok L(3) show ?thesis
  proof (cases rule: wal_write_run)
    case (cut e)
    then have "r = Inl e" "w' = w1" using assms(1) unf by simp_all
    then show ?thesis
      using appended_fails[of w n0 _ x w' gs ks] clean_log_inv[OF live_clean[OF live_quiet[OF assms(2) cut(3,4)] st]] quiet_same_log[OF cut(3)]
      by (simp add: refuses_def cut(2))
  next
    case (broken e w2 k)
    then have "r = Inl e" "w' = w2\<lparr>wl_broken := True\<rparr>" using assms(1) unf by simp_all
    moreover have "clean_inv (insert x X) (w2\<lparr>wl_broken := True\<rparr>) n0 gs (ks @ []) D"
      using broken_clean[OF assms(2) broken(4), of "[x]" "insert x X" k s D] broken(5) st by simp
    ultimately show ?thesis using appended_fails[of w n0 _ x w' gs ks] clean_log_inv quiet_same_log[OF broken(4)] by (simp add: refuses_def broken(2))
  next
    case written
    let ?xs = "ks @ [x]"
    let ?adv = "\<lambda>v. v\<lparr>wl_position := wl_position v + length ?r, wl_nextLsn := wl_nextLsn w + 1\<rparr>"
    have len: "length ?r = length (entry_bytes (?l + length ks) x)" by (simp add: L(1))
    have st1: "stable_below D ?l (?xs @ []) s" using assms(6) by (auto simp: stable_below_def)
    note A = live_append[OF assms(2) written(3,2) len]
    have fin: "appended X w w' r n0 (concat gs @ ks) x D"
      if "r = Inr (wl_nextLsn w)" "same_log w w'" "live_log w' n0 gs ?xs [] s'" "clean_inv X w' n0 gs ?xs D'"
        "D' = (if append_durable w then n0 + length (concat gs @ ks) + 1 else D)" for D' s'
      unfolding that(1) n using that by (intro appended_succeeds[where gs = gs and xs = ?xs]) (simp_all add: live_log_def Let_def)
    have D': "n0 + length (concat gs @ ks) + 1 = ?l + length ?xs" by (simp add: log_end_def)
    show ?thesis
    proof (cases "?F \<and> \<not> wl_groupCommit w")
      case False
      let ?w = "if ?F then ?adv (w1\<lparr>wl_unsynced := True\<rparr>) else ?adv w1"
      have r: "r = Inr (wl_nextLsn w)" "w' = ?w"
        using assms(1) unf written(1) False by (auto simp: bindS_def modifyS_def returnS_def split: if_splits)
      have "live_log (?adv (w1\<lparr>wl_unsynced := True\<rparr>)) n0 gs ?xs [] s = live_log (?adv w1) n0 gs ?xs [] s"
        by (simp add: live_log_def Let_def flushes_directories_def)
      then have l: "live_log w' n0 gs ?xs [] s" using A r(2) by simp
      have sl: "same_log w w'" using r(2) quiet_same_log[OF written(2)] by (auto simp: same_log_def)
      show ?thesis
      proof (cases "append_durable w")
        case True
        then have "wl_mode w' \<noteq> Flushed" using False sl by (auto simp: append_durable_def same_log_def)
        then show ?thesis using fin[OF r(1) sl l live_raise[OF l]] True D' by simp
      next
        case False
        then show ?thesis using fin[OF r(1) sl l] live_clean[OF l st1] by simp
      qed
    next
      case True
      obtain r2 w2 where y: "sync_or_break w1 = (r2, w2)" by fastforce
      have body: "(r, w') = (case r2 of Inl e \<Rightarrow> (Inl e, w2) | Inr _ \<Rightarrow> (Inr (wl_nextLsn w), ?adv w2))"
        using assms(1) unf written(1) True y by (cases r2) (auto simp: bindS_def modifyS_def returnS_def)
      have fd1: "wl_fd w1 = Some (segment_path (wl_directory w1) ?l)" "clean_log w1 (wl_directory w1) ?F n0 gs ?xs (length (log_bytes ?l ?xs)) s"
        using L(3) written(3) by (simp_all add: quiet_fields[OF written(2)])
      from y fd1(2,1) show ?thesis
      proof (cases rule: sync_or_break_run)
        case synced
        have q2: "quiet w w2" using quiet_trans[OF written(2) synced(2)] .
        have "live_log (?adv w2) n0 gs ?xs [] (length (log_bytes ?l ?xs))"
          using live_append[OF assms(2) _ q2 len] synced(3) by (simp add: quiet_fields[OF written(2)])
        note lv = this
        have i: "clean_inv X (?adv w2) n0 gs ?xs (?l + length ?xs)" by (rule live_synced[OF lv])
        have r: "r = Inr (wl_nextLsn w)" "w' = ?adv w2" using body synced(1) by simp_all
        have "same_log w w'" using r(2) quiet_same_log[OF q2] by simp
        moreover have "append_durable w" using True by (simp add: append_durable_def)
        ultimately show ?thesis by (intro fin[OF r(1) _ lv[folded r(2)] i[folded r(2)]]) (simp_all only: D' if_True)
      next
        case (broken e w3)
        have q3: "quiet w w3" using quiet_trans[OF written(2) broken(4)] .
        have "clean_inv (insert x X) (w3\<lparr>wl_broken := True\<rparr>) n0 gs (ks @ []) D"
          using broken_clean[OF assms(2) q3, of "[x]" "insert x X" _ s D] broken(5) st by (simp add: quiet_fields[OF written(2)])
        moreover have "os_faults w \<noteq> []" using broken(2) written(2) by (auto simp: quiet_def)
        ultimately show ?thesis
          using body broken(1,3) appended_fails[of w n0 _ x w' gs ks] clean_log_inv quiet_same_log[OF q3] by (simp add: refuses_def)
      qed
    qed
  qed
qed

definition remember :: "nat \<Rightarrow> bytes \<Rightarrow> wal \<Rightarrow> wal" where
  "remember lsn r w = w\<lparr>wl_pending := wl_pending w @ [r], wl_pendingBytes := wl_pendingBytes w + length r,
     wl_position := wl_position w + length r, wl_nextLsn := lsn + 1\<rparr>"

definition forget :: "nat \<Rightarrow> bytes \<Rightarrow> wal \<Rightarrow> wal" where
  "forget lsn r w = w\<lparr>wl_pending := butlast (wl_pending w), wl_pendingBytes := wl_pendingBytes w - length r,
     wl_position := wl_position w - length r, wl_nextLsn := lsn\<rparr>"

lemma live_remember:
  assumes "live_log w n0 gs ks ps s" "wl_mode w = Memory" "entry_ok x" "wl_nextLsn w < 2 ^ 64"
  shows "live_log (remember (wl_nextLsn w) (entry_bytes (wl_nextLsn w) x) w) n0 gs ks (ps @ [x]) s"
proof -
  have "log_ok n0 (concat gs @ ks @ ps @ [x])" using assms by (auto simp: live_log_def Let_def log_ok_def log_end_def)
  moreover have "flushes_directories (remember l r w) = flushes_directories w" for l r by (simp add: flushes_directories_def remember_def)
  ultimately show ?thesis using assms(1,2) unfolding live_log_def Let_def
    by (simp add: remember_def entry_list_append log_bytes_append add.assoc)
qed

lemma live_forget:
  assumes "live_log w n0 gs ks (ps @ [x]) s" "l = log_end n0 gs + length ks + length ps"
  shows "live_log (forget l (entry_bytes l x) w) n0 gs ks ps s"
proof -
  have "log_ok n0 (concat gs @ ks @ ps)"
    using assms(1) log_ok_append[of n0 "concat gs @ ks @ ps" "[x]"] by (simp add: live_log_def Let_def)
  moreover have "flushes_directories (forget l r w) = flushes_directories w" for r by (simp add: flushes_directories_def forget_def)
  ultimately show ?thesis using assms unfolding live_log_def Let_def
    by (auto simp: forget_def entry_list_append log_bytes_append butlast_append add.assoc)
qed

lemma append_memory_run:
  assumes "append_memory (wl_nextLsn w) (entry_bytes (wl_nextLsn w) x) w = (r, w')" "live_log w n0 gs ks ps s" "wl_mode w = Memory"
    and "entry_ok x" "wl_nextLsn w < 2 ^ 64" "stable_below D (log_end n0 gs) (ks @ ps) s"
  shows "appended X w w' r n0 (concat gs @ ks @ ps) x D"
proof -
  let ?l = "wl_nextLsn w" and ?r = "entry_bytes (wl_nextLsn w) x"
  let ?w = "remember ?l ?r w"
  note L = live_remember[OF assms(2-5)]
  have n: "?l = n0 + length (concat gs @ ks @ ps)" "?l = log_end n0 gs + length ks + length ps"
    using next_count[OF assms(2)] by (simp_all add: log_end_def)
  have st: "stable_below D (log_end n0 gs) (ks @ ps @ [x]) s" using assms(6) by (auto simp: stable_below_def)
  have sl: "same_log w ?w" by (simp add: same_log_def remember_def)
  have fin: "appended X w v (Inr ?l) n0 (concat gs @ ks @ ps) x D" 
      if "same_log w v" "clean_inv X v n0 gs (ks @ ps @ [x]) D" "live_log v n0 gs ks1 ps1 s1" for v ks1 ps1 s1
    unfolding n(1) using that assms(3)
    by (intro appended_succeeds[where gs = gs and xs = "ks @ ps @ [x]"]) (simp_all add: append_durable_def live_log_def Let_def)
  show ?thesis
  proof (cases "wl_pendingBytes ?w \<ge> MEMORY_FLUSH_BYTES")
    case False
    then have "r = Inr ?l" "w' = ?w"
      using assms(1) unfolding append_memory_def remember_def[symmetric] by (simp_all add: operation_defs)
    then show ?thesis using fin[OF sl live_clean[OF L st] L] by simp
  next
    case True
    obtain r1 w1 where f: "wal_flush ?w = (r1, w1)" by fastforce
    have body: "(r, w') = (case r1 of Inl e \<Rightarrow> (Inl e, if wl_broken w1 then w1 else forget ?l ?r w1) | Inr _ \<Rightarrow> (Inr ?l, w1))"
      using assms(1) True f unfolding append_memory_def remember_def[symmetric] forget_def[symmetric]
      by (cases r1) (auto simp: operation_defs)
    from f L show ?thesis
    proof (cases rule: wal_flush_run)
      case flushed
      then show ?thesis using fin[OF same_log_trans[OF sl flushed(2)] _ flushed(3)] live_clean[OF flushed(3)] st body by simp
    next
      case (cut e)
      then have "\<not> wl_broken w1" by (simp add: live_log_def Let_def)
      then have r: "r = Inl e" "w' = forget ?l ?r w1" using body cut(1) by simp_all
      have "live_log w' n0 gs ks ps s" unfolding r(2) by (rule live_forget[OF cut(4) n(2)])
      moreover have "same_log w1 w'" by (simp add: r(2) same_log_def forget_def)
      ultimately show ?thesis
        using appended_fails[of w n0 _ x w' gs "ks @ ps"] clean_log_inv[OF live_clean] assms(6) r(1) cut(2)
          same_log_trans[OF same_log_trans[OF sl quiet_same_log[OF cut(3)]]] by (simp add: refuses_def remember_def)
    next
      case (broken e w2 k)
      then have r: "r = Inl e" "w' = w2\<lparr>wl_broken := True\<rparr>" using body by simp_all
      let ?u = "w2\<lparr>wl_broken := True\<rparr>"
      have "clean_log ?u (wl_directory ?u) (wl_mode ?u = Flushed) n0 gs ((ks @ ps) @ [x]) k s"
        using broken(5) by (simp add: quiet_fields[OF broken(4)])
      moreover have "wl_segments w2 = map (segment_at (wl_directory w2)) (starts n0 gs @ [log_end n0 gs])"
          "wl_fd w2 = Some (segment_path (wl_directory w2) (log_end n0 gs))" "wl_mode w2 = Memory"
        using L assms(3) by (simp_all add: live_log_def Let_def quiet_fields[OF broken(4)] remember_def)
      then have "log_fields (insert x X) ?u n0 gs (ks @ ps) [x] k" by (simp add: log_fields_def Let_def)
      ultimately have "clean_inv (insert x X) w' n0 gs (ks @ ps) D" using assms(6) unfolding clean_inv_def r(2) by blast
      then show ?thesis
        using appended_fails[of w n0 _ x w' gs "ks @ ps"] clean_log_inv r broken(2) same_log_trans[OF sl quiet_same_log[OF broken(4)]]
        by (simp add: refuses_def remember_def)
    qed
  qed
qed

lemma append_not_writable: "wl_closed w \<or> wl_broken w \<Longrightarrow> \<exists>e. wal_append type payload w = (Inl e, w)"
  by (auto simp: wal_append_def assertWritable_def assertOpen_def operation_defs)

lemma append_keeps:
  assumes "clean_inv X w n0 gs xs D" "wal_append (fst x) (snd x) w = (r, w')"
  shows "appended X w w' r n0 (concat gs @ xs) x D"
proof (cases "wl_closed w \<or> wl_broken w")
  case True
  then obtain e where "r = Inl e" "w' = w" using append_not_writable[of w "fst x" "snd x"] assms(2) by auto
  then show ?thesis using appended_fails[of w n0 _ x w gs xs] log_inv_mono[OF clean_log_inv[OF assms(1)] subset_insertI, of x] True by (auto simp: refuses_def)
next
  case False
  obtain ks ps s where l: "xs = ks @ ps" "live_log w n0 gs ks ps s" "stable_below D (log_end n0 gs) (ks @ ps) s"
    using clean_live[OF assms(1)] False by blast
  let ?l = "wl_nextLsn w"
  have writable: "assertWritable w = (Inr (), w)" using False by (simp add: assertWritable_def assertOpen_def operation_defs)
  show ?thesis
  proof (cases "entry_ok x \<and> ?l < 2 ^ 64")
    case False
    then have "\<nexists>b. encodeRecord ?l (fst x) (snd x) = Inr b" using encodeRecord_iff[of ?l "fst x" "snd x"] by simp
    then obtain e where "encodeRecord ?l (fst x) (snd x) = Inl e" by (metis sum.exhaust)
    then have "r = Inl e" "w' = w" using assms(2) writable by (simp_all add: wal_append_def bindS_def getsS_def fromR_def)
    then show ?thesis
      using appended_fails[of w n0 _ x w gs xs] log_inv_mono[OF clean_log_inv[OF assms(1)] subset_insertI, of x] False next_count[OF l(2)] l(1) by (simp add: refuses_def)
  next
    case True
    let ?b = "entry_bytes ?l x"
    have enc: "encodeRecord ?l (fst x) (snd x) = Inr ?b" using entry_bytes_encode True by blast
    let ?full = "wl_position w > SEGMENT_HEADER_SIZE \<and> wl_position w + length ?b > wl_segmentSizeBytes w"
    have body: "bindS (if ?full then rotate_log else returnS ()) (\<lambda>_.
        if wl_mode w = Memory then append_memory ?l ?b else append_file ?l ?b) w = (r, w')"
      using assms(2) writable enc unfolding wal_append_def by (simp add: bindS_def getsS_def fromR_def)
    have put: "appended X v w' r n0 (concat gs1 @ ks1 @ ps1) x D"
      if v: "(if wl_mode w = Memory then append_memory ?l ?b else append_file ?l ?b) v = (r, w')" "live_log v n0 gs1 ks1 ps1 s1"
        "stable_below D (log_end n0 gs1) (ks1 @ ps1) s1" "wl_nextLsn v = ?l" "wl_mode v = wl_mode w" for v gs1 ks1 ps1 s1
    proof (cases "wl_mode w = Memory")
      case m: True
      then show ?thesis using append_memory_run[OF _ v(2) _ _ _ v(3), of x r w'] v(1,4,5) True by simp
    next
      case m: False
      then have "ps1 = []" using v(2,5) by (simp add: live_log_def Let_def)
      then show ?thesis using append_file_run[of v x r w' n0 gs1 ks1 s1 D] v m True by simp
    qed
    show ?thesis
    proof (cases ?full)
      case False
      then have "(if wl_mode w = Memory then append_memory ?l ?b else append_file ?l ?b) w = (r, w')"
        using body by (simp add: bindS_def returnS_def split: if_splits)
      then show ?thesis using put[OF _ l(2,3)] l(1) by simp
    next
      case full: True
      have ne: "ks @ ps \<noteq> []" "?l < 2 ^ 64" using l(2) full True by (auto simp: live_log_def Let_def)
      obtain r1 w1 where ro: "rotate_log w = (r1, w1)" by fastforce
      from ro l(2) ne l(3) show ?thesis
      proof (cases rule: rotate_run[where X = "insert x X"])
        case rotated
        have "(if wl_mode w = Memory then append_memory ?l ?b else append_file ?l ?b) w1 = (r, w')"
          using body full ro rotated(1) by (simp add: bindS_def split: if_splits)
        moreover have "stable_below D (log_end n0 (gs @ [ks @ ps])) ([] @ []) 0" using l(3) by (simp add: stable_below_def log_end_snoc)
        moreover have "wl_nextLsn w1 = ?l" using next_count[OF rotated(3)] next_count[OF l(2)] by simp
        ultimately have "appended X w1 w' r n0 (concat (gs @ [ks @ ps]) @ [] @ []) x D"
          using put[OF _ rotated(3)] rotated(2) by (simp add: same_log_def)
        then show ?thesis using appended_after[OF rotated(2)] l(1) rotated(3) by (simp add: live_log_def Let_def)
      next
        case (failed e gs' xs')
        then have "r = Inl e" "w' = w1" using body full ro by (simp_all add: bindS_def)
        then show ?thesis using appended_fails[of w n0 _ x w' gs' xs'] failed l(1) by (simp add: refuses_def)
      qed
    qed
  qed
qed

end
