(* ===== verification/Wal_History.thy ===== *)
theory Wal_History
  imports Wal_Operations
begin

text \<open>
  Reading, truncating and closing keep the invariant; every history of commands and crashes
  satisfies it. The properties at the end are those a user of the log relies on.
\<close>

section \<open>Reading\<close>

lemma clean_inv_unchanged:
  assumes "unchanged w w'" "clean_inv X w n0 gs xs D"
  shows "clean_inv X w' n0 gs xs D"
proof -
  note q = unchanged_quiet[OF assms(1)]
  show ?thesis
    using assms(2) clean_log_unchanged[OF assms(1)] log_fields_quiet[OF q]
    unfolding clean_inv_def quiet_fields[OF q] by blast
qed

lemma numbered_bounds: "r \<in> set (numbered n xs) \<Longrightarrow> n \<le> wr_lsn r \<and> wr_lsn r < n + length xs"
  by (induction xs arbitrary: n) force+

lemma filter_numbered_old: "n + length xs \<le> k + 1 \<Longrightarrow> filter (\<lambda>r. k < wr_lsn r) (numbered n xs) = []"
  using numbered_bounds by (fastforce simp: filter_empty_conv)

lemma read_segment:
  assumes "file_at (segment_path dir l) w = Some f" "fi_data f = header_bytes l @ log_bytes l xs" "log_ok l xs" "l < 2 ^ 64"
    and "readSegment (segment_path dir l) w = (r, w1)"
  shows "unchanged w w1 \<and> ((\<exists>e. r = Inl e \<and> os_faults w \<noteq> []) \<or> (\<exists>b. r = Inr b \<and> decodeSegmentHeader b = Some l \<and>
    scan_segment b SEGMENT_HEADER_SIZE l = (numbered l xs, SEGMENT_HEADER_SIZE + length (log_bytes l xs), l + length xs, EndOfLog)))"
proof -
  have "scan_segment (fi_data f) SEGMENT_HEADER_SIZE l = (numbered l xs, SEGMENT_HEADER_SIZE + length (log_bytes l xs), l + length xs, EndOfLog)"
    using scan_log[OF assms(3), of "length (log_bytes l xs)" "header_bytes l"] assms(2,4) whole_all[OF assms(3)] by (simp add: length_header)
  moreover have "decodeSegmentHeader (fi_data f) = Some l" unfolding assms(2) by (rule decode_header[OF assms(4)])
  ultimately show ?thesis using readSegment_run[OF assms(5,1)] by auto
qed

lemma records_loop_run:
  assumes "records_loop k (map (segment_at dir) (starts n gs @ [log_end n gs])) w = (r, w')"
    and "sealed w dir durable n gs" "log_ok n (concat gs @ xs)" "log_end n gs < 2 ^ 64"
    and "tail_segment w dir durable (log_end n gs) xs (length (log_bytes (log_end n gs) xs)) s"
  shows "unchanged w w' \<and>
    ((\<exists>e. r = Inl e \<and> os_faults w \<noteq> []) \<or> r = Inr (filter (\<lambda>r. k < wr_lsn r) (numbered n (concat gs @ xs))))"
  using assms
proof (induction gs arbitrary: n w w' r)
  case Nil
  let ?l = "log_end n []"
  have l: "?l = n" by (simp add: log_end_def)
  obtain f where f: "file_at (segment_path dir n) w = Some f" "fi_data f = header_bytes n @ log_bytes n xs"
    using Nil.prems(5) by (auto simp: tail_segment_def l)
  obtain r1 w1 where rd: "readSegment (segment_path dir n) w = (r1, w1)" by fastforce
  from read_segment[OF f _ _ rd] Nil.prems(3,4) l
  have R: "unchanged w w1 \<and> ((\<exists>e. r1 = Inl e \<and> os_faults w \<noteq> []) \<or> (\<exists>b. r1 = Inr b \<and> decodeSegmentHeader b = Some n \<and>
    scan_segment b SEGMENT_HEADER_SIZE n = (numbered n xs, SEGMENT_HEADER_SIZE + length (log_bytes n xs), n + length xs, EndOfLog)))" by simp
  then show ?case using Nil.prems(1) rd by (auto simp: l segment_at_def bindS_def returnS_def)
next
  case (Cons g gs)
  let ?m = "n + length g"
  obtain f where f: "file_at (segment_path dir n) w = Some f" "fi_data f = header_bytes n @ log_bytes n g" "sealed w dir durable ?m gs"
    using Cons.prems(2) by auto
  have e: "log_end n (g # gs) = log_end ?m gs" by (simp add: log_end_def add.assoc)
  have ok: "log_ok n g" "log_ok ?m (concat gs @ xs)" "n < 2 ^ 64"
    using Cons.prems(3,4) log_ok_append[of n g "concat gs @ xs"] by (simp_all add: log_end_def)
  let ?rest = "map (segment_at dir) (starts ?m gs @ [log_end ?m gs])"
  have first: "case ?rest of [] \<Rightarrow> False | next # _ \<Rightarrow> sg_firstLsn next \<le> k + 1 \<longleftrightarrow> ?m \<le> k + 1"
    by (cases gs) (simp_all add: segment_at_def log_end_def)
  have ne: "?rest \<noteq> []" by simp
  have IH: "unchanged v v' \<and> ((\<exists>e. q = Inl e \<and> os_faults v \<noteq> []) \<or> q = Inr (filter (\<lambda>r. k < wr_lsn r) (numbered ?m (concat gs @ xs))))"
    if "records_loop k ?rest v = (q, v')" "unchanged w v" for v v' q
  proof (rule Cons.IH[OF that(1)])
    show "sealed v dir durable ?m gs" by (rule sealed_unchanged[OF that(2) f(3)])
    show "tail_segment v dir durable (log_end ?m gs) xs (length (log_bytes (log_end ?m gs) xs)) s"
      using tail_unchanged[OF that(2)] Cons.prems(5) e by simp
  qed (use ok(2) Cons.prems(4) e in auto)
  show ?case
  proof (cases "?m \<le> k + 1")
    case True
    then have "records_loop k ?rest w = (r, w')" using Cons.prems(1) first ne e by (cases ?rest) auto
    from IH[OF this] show ?thesis using filter_numbered_old[OF True] by (simp add: numbered_append)
  next
    case False
    obtain r1 w1 where rd: "readSegment (segment_path dir n) w = (r1, w1)" by fastforce
    note R = read_segment[OF f(1,2) ok(1,3) rd]
    have unf: "records_loop k (segment_at dir n # ?rest) w = (r, w')" using Cons.prems(1) e by simp
    show ?thesis
    proof (cases r1)
      case (Inl e)
      then have "r = Inl e" "w' = w1" using unf False first ne rd by (cases ?rest; simp add: bindS_def segment_at_def)+
      then show ?thesis using R Inl by auto
    next
      case (Inr b)
      then have b: "unchanged w w1" "decodeSegmentHeader b = Some n"
          "scan_segment b SEGMENT_HEADER_SIZE n = (numbered n g, SEGMENT_HEADER_SIZE + length (log_bytes n g), ?m, EndOfLog)" using R by auto
      obtain q w2 where lp: "records_loop k ?rest w1 = (q, w2)" by fastforce
      have "(r, w') = (case q of Inl e \<Rightarrow> (Inl e, w2) | Inr rest \<Rightarrow> (Inr (filter (\<lambda>r. k < wr_lsn r) (numbered n g) @ rest), w2))"
        using unf False first ne rd Inr b(2,3) lp by (cases ?rest; cases q) (auto simp: bindS_def returnS_def segment_at_def)
      moreover note IH[OF lp b(1)]
      ultimately show ?thesis
        using unchanged_trans[OF b(1)] quiet_faults[OF unchanged_quiet[OF b(1)]] by (auto simp: numbered_append)
    qed
  qed
qed

lemma readSegment_unchanged: "readSegment p w = (r, w') \<Longrightarrow> unchanged w w'"
proof -
  assume a: "readSegment p w = (r, w')"
  obtain r1 w1 where f: "readFileSync p w = (r1, w1)" by fastforce
  have "w' = w1" using a f by (auto simp: readSegment_def catchS_def throwS_def split: sum.splits)
  moreover from f[unfolded readFileSync_def] have "unchanged w w1"
    by (cases rule: syscall_run) (auto simp: bindS_def get_file_run returnS_def intro: unchangedI split: option.splits)
  ultimately show ?thesis by simp
qed

lemma records_loop_unchanged: "records_loop k segments w = (r, w') \<Longrightarrow> unchanged w w'"
proof (induction segments arbitrary: w r w')
  case Nil
  then show ?case by (simp add: returnS_def)
next
  case (Cons segment segments)
  obtain r1 w1 where rd: "readSegment (sg_path segment) w = (r1, w1)" by fastforce
  obtain q w2 where lp: "records_loop k segments w1 = (q, w2)" by fastforce
  note U = readSegment_unchanged[OF rd]
  note U2 = unchanged_trans[OF U Cons.IH[OF lp]]
  show ?case
  proof (cases "case segments of [] \<Rightarrow> False | next # _ \<Rightarrow> sg_firstLsn next \<le> k + 1")
    case True
    then show ?thesis using Cons by simp
  next
    case False
    then have "w' = w1 \<or> w' = w2" using Cons.prems rd lp
      by (auto simp: bindS_def returnS_def throwS_def split: sum.splits if_splits prod.splits)
    then show ?thesis using U U2 by blast
  qed
qed

text \<open>A log that is open and not broken reads back all its records.\<close>

lemma records_run:
  assumes "clean_inv X w n0 gs xs D" "wal_records k w = (r, w')"
  shows "clean_inv X w' n0 gs xs D" "same_log w w'"
    "\<not> wl_closed w \<Longrightarrow> \<not> wl_broken w \<Longrightarrow> (\<exists>e. r = Inl e \<and> os_faults w \<noteq> []) \<or> r = Inr (filter (\<lambda>r. k < wr_lsn r) (numbered n0 (concat gs @ xs)))"
proof -
  obtain r1 w1 where f: "(if \<not> wl_broken w then wal_flush else returnS ()) w = (r1, w1)" by fastforce
  have i1: "clean_inv X w1 n0 gs xs D" "same_log w w1"
    using f flush_keeps[OF assms(1)] assms(1) by (auto simp: returnS_def split: if_splits)
  obtain q w2 where lp: "records_loop k (wl_segments w) w1 = (q, w2)" by fastforce
  note U = records_loop_unchanged[OF lp]
  have body: "(r, w') = (if wl_closed w then (Inl (StorageError Closed), w) else case r1 of Inl e \<Rightarrow> (Inl e, w1) | Inr _ \<Rightarrow> (q, w2))"
    using assms(2) f lp by (cases r1; cases q) (auto simp: wal_records_def assertOpen_def operation_defs)
  show "clean_inv X w' n0 gs xs D" "same_log w w'"
    using body i1 assms(1) clean_inv_unchanged[OF U i1(1)] same_log_trans[OF i1(2) quiet_same_log[OF unchanged_quiet[OF U]]]
    by (auto split: if_splits sum.splits)
  assume o: "\<not> wl_closed w" "\<not> wl_broken w"
  then obtain ks ps s where l: "xs = ks @ ps" "live_log w n0 gs ks ps s" using clean_live[OF assms(1)] by blast
  have fl: "wal_flush w = (r1, w1)" using f o by simp
  from fl l(2) show "(\<exists>e. r = Inl e \<and> os_faults w \<noteq> []) \<or> r = Inr (filter (\<lambda>r. k < wr_lsn r) (numbered n0 (concat gs @ xs)))"
  proof (cases rule: wal_flush_run)
    case flushed
    have "wl_segments w = map (segment_at (wl_directory w)) (starts n0 gs @ [log_end n0 gs])" "wl_directory w1 = wl_directory w"
      using l(2) flushed(2) by (simp_all add: live_log_def Let_def same_log_def)
    moreover have "clean_log w1 (wl_directory w1) (wl_mode w1 = Flushed) n0 gs xs (length (log_bytes (log_end n0 gs) xs)) s"
      using flushed(3) l(1) by (simp add: live_log_def Let_def)
    ultimately have "(\<exists>e. q = Inl e \<and> os_faults w1 \<noteq> []) \<or> q = Inr (filter (\<lambda>r. k < wr_lsn r) (numbered n0 (concat gs @ xs)))"
      using records_loop_run[of k "wl_directory w" n0 gs w1 q w2 "wl_mode w1 = Flushed" xs s] lp unfolding clean_log_def by simp
    moreover have "os_faults w1 \<noteq> [] \<Longrightarrow> os_faults w \<noteq> []" using flushed(2) by (auto simp: same_log_def)
    ultimately show ?thesis using body flushed(1) o by auto
  qed (use body o in auto)
qed

section \<open>Truncating\<close>

lemma drop_first:
  assumes "clean_inv X w n0 (g # gs) xs D" "w1 = w\<lparr>wl_segments := map (segment_at (wl_directory w)) (starts (n0 + length g) gs @ [log_end (n0 + length g) gs])\<rparr>"
    and "only_changes (segment_path (wl_directory w) n0) w1 w2" "file_at (segment_path (wl_directory w) n0) w2 = None"
  shows "clean_inv X w2 (n0 + length g) gs xs D" "same_log w w2"
proof -
  let ?dir = "wl_directory w" and ?m = "n0 + length g" and ?l = "log_end (n0 + length g) gs"
  obtain ex n s where i: "clean_log w ?dir (wl_mode w = Flushed) n0 (g # gs) (xs @ ex) n s" "log_fields X w n0 (g # gs) xs ex n"
      "stable_below D (log_end n0 (g # gs)) xs s" using assms(1) by (auto simp: clean_inv_def)
  have e: "log_end n0 (g # gs) = ?l" by (simp add: log_end_def add.assoc)
  have c: "sealed w ?dir (wl_mode w = Flushed) n0 (g # gs)" "?l < 2 ^ 64" "known_names w ?dir (insert n0 (set (starts ?m gs) \<union> {?l}))"
    using i(1) by (simp_all add: clean_log_def e insert_commute)
  have "0 < length g" using c(1) by simp
  then have lt: "n0 < x" if "x \<in> set (starts ?m gs) \<union> {?l}" for x
  proof -
    have "?m \<le> x" using that starts_bounds[of x ?m gs] by (auto simp: log_end_def)
    then show ?thesis using \<open>0 < length g\<close> by linarith
  qed
  have f1: "file_at p w1 = file_at p w" for p by (simp add: assms(2) file_at_def)
  have keep: "file_at (segment_path ?dir x) w2 = file_at (segment_path ?dir x) w" if "x \<in> set (starts ?m gs) \<union> {?l}" for x
  proof -
    have "x \<le> ?l" using segments_below[OF c(1), of x] that e by auto
    then have "segment_path ?dir x \<noteq> segment_path ?dir n0" using segment_path_inj[of x n0 ?dir] lt[OF that] c(2) by auto
    then have "file_at (segment_path ?dir x) w2 = file_at (segment_path ?dir x) w1"
      using assms(3) unfolding only_changes_def by blast
    then show ?thesis using f1 by simp
  qed
  note q = only_changes_quiet[OF assms(3)]
  have fields: "wl_directory w2 = ?dir" "wl_mode w2 = wl_mode w" using quiet_fields[OF q] by (simp_all add: assms(2))
  have "sealed w ?dir (wl_mode w = Flushed) ?m gs" using c(1) by simp
  then have "sealed w2 ?dir (wl_mode w = Flushed) ?m gs" by (rule sealed_mono) (use keep in auto)
  moreover have "tail_segment w2 ?dir (wl_mode w = Flushed) ?l (xs @ ex) n s"
    by (rule tail_mono[of w]) (use i(1) keep e in \<open>auto simp: clean_log_def\<close>)
  moreover have "known_names w2 ?dir (set (starts ?m gs) \<union> {?l})"
    unfolding known_names_def
  proof (intro allI impI)
    fix x :: nat
    assume x: "x < 10 ^ 20" "file_at (segment_path ?dir x) w2 \<noteq> None"
    then have "segment_path ?dir x \<noteq> segment_path ?dir n0" using assms(4) by auto
    then have "file_at (segment_path ?dir x) w2 = file_at (segment_path ?dir x) w1" "x \<noteq> n0"
      using assms(3) unfolding only_changes_def by blast+
    then show "x \<in> set (starts ?m gs) \<union> {?l}" using x c(3) f1 by (auto simp: known_names_def)
  qed
  moreover have "distinct (map fst (os_files w2))" using i(1) q assms(2) by (simp add: clean_log_def quiet_def)
  moreover have "log_ok ?m (concat gs @ xs @ ex)"
    using i(1) log_ok_append[of n0 g "concat gs @ xs @ ex"] by (simp add: clean_log_def)
  ultimately have "clean_log w2 ?dir (wl_mode w = Flushed) ?m gs (xs @ ex) n s"
    using i(1) c(2) e by (simp add: clean_log_def)
  moreover have "flushes_directories w1 = flushes_directories w" by (simp add: assms(2) flushes_directories_def)
  then have "log_fields X w2 ?m gs xs ex n"
    using i(2) flushes_mono[OF q] unfolding log_fields_def Let_def quiet_fields[OF q] e by (simp add: assms(2))
  ultimately show "clean_inv X w2 ?m gs xs D" using i(3) fields e unfolding clean_inv_def by auto
  show "same_log w w2" using quiet_same_log[OF q] by (simp add: same_log_def assms(2))
qed

lemma clean_inv_segments: "clean_inv X w n0 gs xs D \<Longrightarrow> wl_segments w = map (segment_at (wl_directory w)) (starts n0 gs @ [log_end n0 gs])"
  by (auto simp: clean_inv_def log_fields_def Let_def)

text \<open>Only whole segments whose records all have numbers up to \<open>k\<close> are removed.\<close>

definition truncated :: "log_entry set \<Rightarrow> wal \<Rightarrow> wal \<Rightarrow> nat \<Rightarrow> log_entry list list \<Rightarrow> log_entry list \<Rightarrow> nat \<Rightarrow> nat \<Rightarrow> bool" where
  "truncated X w w' n0 gs xs D k \<longleftrightarrow> same_log w w' \<and> (\<exists>j. log_end n0 (take j gs) \<le> max n0 (k + 1) \<and>
     clean_inv X w' (log_end n0 (take j gs)) (drop j gs) xs D)"

lemma truncated_none: "same_log w w' \<Longrightarrow> clean_inv X w' n0 gs xs D \<Longrightarrow> truncated X w w' n0 gs xs D k"
  unfolding truncated_def by (intro conjI exI[of _ 0]) (simp_all add: log_end_def)

lemma truncate_loop_run:
  assumes "truncate_loop k (map (segment_at (wl_directory w)) (starts n0 gs @ [log_end n0 gs])) w = (r, w')" "clean_inv X w n0 gs xs D"
  shows "truncated X w w' n0 gs xs D k"
  using assms
proof (induction gs arbitrary: n0 w r w')
  case Nil
  then show ?case by (simp add: returnS_def truncated_none)
next
  case (Cons g gs)
  let ?dir = "wl_directory w" and ?m = "n0 + length g"
  have e: "log_end n0 (g # gs) = log_end ?m gs" by (simp add: log_end_def add.assoc)
  obtain next_seg rest where ns: "map (segment_at ?dir) (starts ?m gs @ [log_end ?m gs]) = next_seg # rest" "sg_firstLsn next_seg = ?m"
    by (cases gs) (auto simp: segment_at_def log_end_def)
  have unf: "truncate_loop k (segment_at ?dir n0 # next_seg # rest) w = (r, w')" using Cons.prems(1) e ns(1) by simp
  show ?case
  proof (cases "?m > k + 1")
    case True
    then show ?thesis using unf ns(2) Cons.prems(2) by (simp add: returnS_def truncated_none)
  next
    case False
    let ?w1 = "w\<lparr>wl_segments := next_seg # rest\<rparr>" and ?p = "segment_path ?dir n0"
    have p: "sg_path (segment_at ?dir n0) = ?p" by (simp add: segment_at_def)
    obtain r1 w2 where u: "unlinkSync ?p ?w1 = (r1, w2)" by fastforce
    have there: "file_at ?p ?w1 \<noteq> None" using Cons.prems(2) by (auto simp: clean_inv_def clean_log_def file_at_def)
    from u there show ?thesis
    proof (cases rule: unlinkSync_run)
      case (fails c)
      have un: "unchanged ?w1 w2" using unchangedI fails(3,4) by blast
      have w': "w' = w2\<lparr>wl_segments := segment_at ?dir n0 # wl_segments w2\<rparr>"
        using unf ns(2) False u fails(1) p by (simp add: operation_defs)
      have sg2: "wl_segments w2 = next_seg # rest" using quiet_fields[OF unchanged_quiet[OF un]] by simp
      have segs: "wl_segments w = segment_at ?dir n0 # next_seg # rest" using clean_inv_segments[OF Cons.prems(2)] e ns(1) by simp
      have "unchanged w w'"
      proof -
        have "w\<lparr>os_files := os_files w', os_faults := os_faults w'\<rparr> = w'"
          using un segs sg2 unfolding w' unchanged_def quiet_def by (cases w; cases w2) simp
        then have "os.more w' = os.more w" by (metis os.select_convs(3) os.surjective os.update_convs(1,2))
        then show ?thesis using un unfolding w' unchanged_def quiet_def by (simp add: file_at_def)
      qed
      then show ?thesis
        using truncated_none clean_inv_unchanged[OF _ Cons.prems(2)] quiet_same_log unchanged_quiet by blast
    next
      case removed
      note DF = drop_first[OF Cons.prems(2) _ removed(2,3)] 
      have i: "clean_inv X w2 ?m gs xs D" "same_log w w2" using DF ns(1) by simp_all
      have dir2: "wl_directory w2 = ?dir" using i(2) by (simp add: same_log_def)
      obtain r3 w3 where lp: "truncate_loop k (next_seg # rest) w2 = (r3, w3)" by fastforce
      have "w' = w3" using unf ns(2) False u removed(1) p lp by (auto simp: operation_defs split: sum.splits)
      moreover have "truncated X w2 w3 ?m gs xs D k" using Cons.IH[OF _ i(1)] lp ns(1) dir2 by simp
      then obtain j where j: "same_log w2 w3" "log_end ?m (take j gs) \<le> max ?m (k + 1)" "clean_inv X w3 (log_end ?m (take j gs)) (drop j gs) xs D"
        by (auto simp: truncated_def)
      moreover have "log_end n0 (take (Suc j) (g # gs)) = log_end ?m (take j gs)" by (simp add: log_end_def add.assoc)
      ultimately show ?thesis
        using same_log_trans[OF i(2)] False unfolding truncated_def by (intro conjI exI[of _ "Suc j"]) auto
    qed
  qed
qed

lemma clean_inv_relinks:
  assumes "clean_inv X w n0 gs xs D" "relinks w w'"
  shows "clean_inv X w' n0 gs xs D"
proof -
  note q = relinks_quiet[OF assms(2)]
  obtain ex n s where i: "clean_log w (wl_directory w) (wl_mode w = Flushed) n0 gs (xs @ ex) n s" "log_fields X w n0 gs xs ex n"
      "stable_below D (log_end n0 gs) xs s" using assms(1) by (auto simp: clean_inv_def)
  have k: "known_names w (wl_directory w) (set (starts n0 gs) \<union> {log_end n0 gs})" using i(1) by (simp add: clean_log_def)
  have "known_names w' (wl_directory w) (set (starts n0 gs) \<union> {log_end n0 gs})"
    unfolding known_names_def
  proof (intro allI impI)
    fix x :: nat
    assume x: "x < 10 ^ 20" "file_at (segment_path (wl_directory w) x) w' \<noteq> None"
    have "file_at (segment_path (wl_directory w) x) w \<noteq> None" by (rule notI) (use relinks_None[OF assms(2)] x(2) in simp)
    then show "x \<in> set (starts n0 gs) \<union> {log_end n0 gs}" using k x(1) by (auto simp: known_names_def)
  qed
  then have "clean_log w' (wl_directory w) (wl_mode w = Flushed) n0 gs (xs @ ex) n s"
    by (intro clean_log_relinks[OF i(1) q]) (use relinks_Some[OF assms(2)] in auto)
  then show ?thesis
    using i(3) log_fields_quiet[OF q i(2)] unfolding clean_inv_def quiet_fields[OF q] by blast
qed

lemma truncate_run:
  assumes "clean_inv X w n0 gs xs D" "truncateThrough k w = (r, w')"
  shows "truncated X w w' n0 gs xs D k"
proof (cases "wl_closed w \<or> wl_broken w")
  case True
  then have "w' = w" using assms(2)
    by (cases "wl_closed w") (simp_all add: truncateThrough_def assertWritable_def assertOpen_def operation_defs)
  then show ?thesis using assms(1) truncated_none by simp
next
  case False
  obtain r1 w1 where lp: "truncate_loop k (wl_segments w) w = (r1, w1)" by fastforce
  have T: "truncated X w w1 n0 gs xs D k"
    using truncate_loop_run[OF _ assms(1)] lp clean_inv_segments[OF assms(1)] by simp
  obtain r2 w2 where sd: "syncDirectory (wl_directory w) w1 = (r2, w2)" by fastforce
  have rel: "relinks w1 w2" using syncDirectory_run[OF sd] by blast
  have "w' = w1 \<or> w' = w2"
    using assms(2) False lp sd unfolding truncateThrough_def
    by (auto simp: assertWritable_def assertOpen_def operation_defs split: sum.splits if_splits)
  moreover have "truncated X w w2 n0 gs xs D k"
    using T clean_inv_relinks[OF _ rel] same_log_trans quiet_same_log[OF relinks_quiet[OF rel]] unfolding truncated_def by blast
  ultimately show ?thesis using T by blast
qed

section \<open>Closing\<close>

lemma clean_inv_closed:
  assumes "clean_inv X w n0 gs xs D"
  shows "clean_inv X (w\<lparr>wl_closed := True, wl_fd := None\<rparr>) n0 gs xs D"
proof -
  let ?w = "w\<lparr>wl_closed := True, wl_fd := None\<rparr>"
  have "flushes_directories ?w = flushes_directories w" by (simp add: flushes_directories_def)
  then have "log_fields X w n0 gs xs ex n \<Longrightarrow> log_fields X ?w n0 gs xs ex n" for ex n by (simp add: log_fields_def Let_def)
  then show ?thesis
    using assms unfolding clean_inv_def clean_log_fields_irrelevant by fastforce
qed

lemma closeSync_unchanged: "closeSync fd w = (r, w') \<Longrightarrow> unchanged w w'"
proof -
  assume c: "closeSync fd w = (r, w')"
  show ?thesis by (rule unchangedI) (rule closeSync_run[OF c])+
qed

lemma close_run:
  assumes "clean_inv X w n0 gs xs D" "close_wal w = (r, w')"
  shows "clean_inv X w' n0 gs xs D" "same_log w w'"
proof -
  obtain r1 w1 where f: "(if \<not> wl_broken w then catchS (bindS wal_flush (\<lambda>_. bindS wal_commit (\<lambda>_. returnS None))) (\<lambda>e. returnS (Some e))
      else returnS None) w = (r1, w1)" by fastforce
  obtain r2 w2 where fl: "wal_flush w = (r2, w2)" by fastforce
  obtain r3 w3 where co: "wal_commit w2 = (r3, w3)" by fastforce
  note F = flush_keeps[OF assms(1) fl]
  have F2: "clean_inv X w2 n0 gs xs D" using F by blast
  note C = commit_keeps[OF F2 co]
  have "w1 = w \<or> w1 = w2 \<or> w1 = w3" "\<exists>x. r1 = Inr x"
    using f fl co by (cases "wl_broken w"; cases r2; cases r3; simp add: operation_defs; blast)+
  note r1 = this(2)
  have i1: "clean_inv X w1 n0 gs xs D" "same_log w w1"
    using \<open>w1 = w \<or> w1 = w2 \<or> w1 = w3\<close> F C assms(1) same_log_trans[of w w2 w3] by auto
  let ?w = "w1\<lparr>wl_closed := True, wl_fd := None\<rparr>"
  have i2: "clean_inv X ?w n0 gs xs D" "same_log w ?w" using clean_inv_closed[OF i1(1)] i1(2) by (simp_all add: same_log_def)
  have "w' = w \<or> unchanged ?w w'"
  proof (cases "wl_closed w")
    case True
    then show ?thesis using assms(2) by (simp add: close_wal_def operation_defs)
  next
    case False
    obtain x where x: "r1 = Inr x" using r1 by blast
    obtain r4 w4 where cl: "(case wl_fd w of None \<Rightarrow> returnS () | Some fd \<Rightarrow> catchS (closeSync fd) (\<lambda>e. throwS (ioError e True))) ?w = (r4, w4)"
      by fastforce
    have "unchanged ?w w4" using cl closeSync_unchanged[of _ ?w]
      by (auto simp: catchS_def throwS_def returnS_def split: option.splits prod.splits sum.splits)
    moreover have "bindS (if \<not> wl_broken w then catchS (bindS wal_flush (\<lambda>_. bindS wal_commit (\<lambda>_. returnS None))) (\<lambda>e. returnS (Some e))
        else returnS None) (\<lambda>pendingError. bindS (modifyS (\<lambda>w. w\<lparr>wl_closed := True, wl_fd := None\<rparr>)) (\<lambda>_.
        bindS (case wl_fd w of None \<Rightarrow> returnS () | Some fd \<Rightarrow> catchS (closeSync fd) (\<lambda>e. throwS (ioError e True))) (\<lambda>_.
        case pendingError of None \<Rightarrow> returnS () | Some e \<Rightarrow> throwS e))) w = (r, w')"
      using assms(2) False unfolding close_wal_def by (simp add: bindS_def[of "getsS Inr"] getsS_def)
    then have "w' = w4" using f x cl
      by (auto simp: bindS_def modifyS_def returnS_def throwS_def split: sum.splits option.splits)
    ultimately show ?thesis by blast
  qed
  then show "clean_inv X w' n0 gs xs D" "same_log w w'"
    using assms(1) clean_inv_unchanged[OF _ i2(1)] same_log_trans[OF i2(2) quiet_same_log[OF unchanged_quiet]] by auto
qed

section \<open>Histories\<close>

text \<open>What the log reports when no call of the operating system fails.\<close>

definition stored_entries :: "wal \<Rightarrow> log_entry list" where
  "stored_entries w = (case wal_records 0 (w\<lparr>os_faults := []\<rparr>) of
     (Inr rs, _) \<Rightarrow> map (\<lambda>r. (wr_type r, wr_payload r)) rs | _ \<Rightarrow> [])"

text \<open>
  \<open>log_history options w n0 es D\<close>: after some commands and crashes the log is in the state \<open>w\<close>. It was
  given the records \<open>es\<close>, the first of them with the number \<open>n0\<close>; those with numbers below \<open>D\<close> were
  acknowledged as durable. Commands run as long as no failed rotation has left a file behind.
\<close>

inductive log_history :: "wal_options \<Rightarrow> wal \<Rightarrow> nat \<Rightarrow> log_entry list \<Rightarrow> nat \<Rightarrow> bool" for options where
  created: "\<lbrakk>known_names st (wo_directory options) {}; distinct (map fst (os_files st));
     option_mode options = Flushed \<longrightarrow> flushes_directories st; open_wal options st = (Inr w, st')\<rbrakk> \<Longrightarrow> log_history options w 1 [] 1"
| append_ok: "\<lbrakk>log_history options w n0 es D; no_leftover w; wal_append type payload w = (Inr lsn, w')\<rbrakk> \<Longrightarrow>
     log_history options w' n0 (es @ [(type, payload)]) (if append_durable w then n0 + length es + 1 else D)"
| append_failed: "\<lbrakk>log_history options w n0 es D; no_leftover w; wal_append type payload w = (Inl e, w')\<rbrakk> \<Longrightarrow> log_history options w' n0 es D"
| flush: "\<lbrakk>log_history options w n0 es D; no_leftover w; wal_flush w = (r, w')\<rbrakk> \<Longrightarrow>
     log_history options w' n0 es (if r = Inr () \<and> wl_mode w \<noteq> Flushed then n0 + length es else D)"
| commit: "\<lbrakk>log_history options w n0 es D; no_leftover w; wal_commit w = (r, w')\<rbrakk> \<Longrightarrow>
     log_history options w' n0 es (if r = Inr () \<and> wl_unsynced w \<and> \<not> wl_closed w \<and> wl_mode w \<noteq> Memory then n0 + length es else D)"
| sync: "\<lbrakk>log_history options w n0 es D; no_leftover w; wal_sync w = (r, w')\<rbrakk> \<Longrightarrow>
     log_history options w' n0 es (if r = Inr () then n0 + length es else D)"
| truncate: "\<lbrakk>log_history options w n0 es D; no_leftover w; truncateThrough lsn w = (r, w')\<rbrakk> \<Longrightarrow>
     log_history options w' (firstLsn w') (drop (firstLsn w' - n0) es) D"
| read: "\<lbrakk>log_history options w n0 es D; no_leftover w; wal_records lsn w = (r, w')\<rbrakk> \<Longrightarrow> log_history options w' n0 es D"
| close: "\<lbrakk>log_history options w n0 es D; no_leftover w; close_wal w = (r, w')\<rbrakk> \<Longrightarrow> log_history options w' n0 es D"
| reopened: "\<lbrakk>log_history options w n0 es D; log_crash w st; open_wal options st = (Inr w', st')\<rbrakk> \<Longrightarrow>
     log_history options w' n0 (stored_entries w') D"

definition log_holds :: "log_entry set \<Rightarrow> wal_options \<Rightarrow> wal \<Rightarrow> nat \<Rightarrow> log_entry list \<Rightarrow> nat \<Rightarrow> bool" where
  "log_holds X options w n0 es D \<longleftrightarrow> valid_options options \<and> opened_with options w \<and> (\<exists>gs xs. concat gs @ xs = es \<and> log_inv X w n0 gs xs D)"

lemma log_holdsI: "valid_options options \<Longrightarrow> opened_with options w \<Longrightarrow> concat gs @ xs = es \<Longrightarrow> log_inv X w n0 gs xs D \<Longrightarrow> log_holds X options w n0 es D"
  by (auto simp: log_holds_def)

lemma opened_same: "opened_with options w \<Longrightarrow> same_log w w' \<Longrightarrow> opened_with options w'"
  by (simp add: opened_with_def same_log_def)

lemma entries_numbered [simp]: "map (\<lambda>r. (wr_type r, wr_payload r)) (numbered n xs) = xs"
  by (induction xs arbitrary: n) simp_all

lemma clean_inv_no_faults:
  assumes "clean_inv X w n0 gs xs D"
  shows "clean_inv X (w\<lparr>os_faults := []\<rparr>) n0 gs xs D"
proof -
  let ?w = "w\<lparr>os_faults := []\<rparr>"
  have "log_fields X w n0 gs xs ex n \<Longrightarrow> log_fields X ?w n0 gs xs ex n" for ex n by (simp add: log_fields_def Let_def flushes_directories_def)
  moreover have "clean_log ?w dir d n0 gs ys n s = clean_log w dir d n0 gs ys n s" for dir d ys n s by (rule clean_log_files) simp
  ultimately show ?thesis using assms unfolding clean_inv_def by fastforce
qed

lemma clean_inv_lsn: "clean_inv X w n0 gs xs D \<Longrightarrow> 0 < n0 \<and> D \<le> n0 + length (concat gs @ xs)"
  by (auto simp: clean_inv_def clean_log_def log_ok_def stable_below_def log_end_def)

lemma filter_numbered_all: "0 < n \<Longrightarrow> filter (\<lambda>r. 0 < wr_lsn r) (numbered n xs) = numbered n xs"
  by (induction xs arbitrary: n) simp_all

lemma stored_entries_inv:
  assumes "clean_inv X w n0 gs xs D" "\<not> wl_closed w" "\<not> wl_broken w"
  shows "stored_entries w = concat gs @ xs"
proof -
  obtain r w' where r: "wal_records 0 (w\<lparr>os_faults := []\<rparr>) = (r, w')" by fastforce
  have "0 < n0" using clean_inv_lsn[OF assms(1)] by blast
  then have "r = Inr (numbered n0 (concat gs @ xs))"
    using records_run(3)[OF clean_inv_no_faults[OF assms(1)] r] assms(2,3) filter_numbered_all by simp
  then show ?thesis using r by (simp add: stored_entries_def)
qed

lemma open_wal_state:
  assumes "open_wal options st = (Inr w, st')"
  shows "valid_options options" "\<not> wl_closed w" "\<not> wl_broken w"
proof -
  from assms have "valid_options options \<and> \<not> wl_closed w \<and> \<not> wl_broken w"
  proof (cases rule: open_wal_steps)
    case (recovers st1 r1 st2)
    then obtain rv where "open_recovered options rv st2 = (Inr w, st')" by (cases r1) auto
    then show ?thesis using recovers(1)
      by (auto simp: open_recovered_def bindS_def getsS_def split: if_splits prod.splits sum.splits)
  qed auto
  then show "valid_options options" "\<not> wl_closed w" "\<not> wl_broken w" by blast+
qed

lemma log_inv_D: "log_inv X w n0 gs xs D \<Longrightarrow> D \<le> n0 + length (concat gs @ xs)"
  by (auto simp: log_inv_def stable_below_def log_end_def)

text \<open>Opening after a crash, in terms of the records.\<close>

lemma reopen_holds:
  assumes "log_holds X options w n0 es D" "log_crash w st" "open_wal options st = (r, st')"
  shows "(\<exists>e. r = Inl e \<and> os_faults st \<noteq> []) \<or> (\<exists>w' gs xs k ex. r = Inr w' \<and> clean_inv Y w' n0 gs xs D \<and> opened_with options w' \<and>
    concat gs @ xs = take k (es @ ex) \<and> length ex \<le> 1 \<and> set ex \<subseteq> X \<and> set (os_faults w') \<subseteq> set (os_faults st))"
proof -
  obtain gs xs where i: "valid_options options" "opened_with options w" "concat gs @ xs = es" "log_inv X w n0 gs xs D"
    using assms(1) by (auto simp: log_holds_def)
  obtain ex n s where c: "length ex \<le> 1" "set ex \<subseteq> X" "disk_log True st (wl_directory w) (wl_mode w = Flushed) n0 gs (xs @ ex) n s"
      "stable_below D (log_end n0 gs) (xs @ ex) s" using crash_disk_log[OF i(4) assms(2)] by blast
  have o: "wl_directory w = wo_directory options" "wl_mode w = option_mode options" using i(2) by (simp_all add: opened_with_def)
  have "option_mode options = Flushed \<longrightarrow> flushes_directories st" using assms(2) o by (simp add: log_crash_def)
  note R = open_wal_recovers[where X = Y, OF c(3)[unfolded o] this c(4) assms(3)]
  have "concat gs @ take (whole n (xs @ ex)) (xs @ ex) = take (length (concat gs) + whole n (xs @ ex)) (es @ ex)"
    using i(3) by (auto simp flip: append_assoc)
  then show ?thesis using R c(1,2) i(1) by metis
qed

lemma holds_clean:
  assumes "log_holds X options w n0 es D" "no_leftover w"
  obtains gs xs where "valid_options options" "opened_with options w" "concat gs @ xs = es" "clean_inv X w n0 gs xs D"
    "log_end n0 gs + length xs = n0 + length es"
proof -
  obtain gs xs where i: "valid_options options" "opened_with options w" "concat gs @ xs = es" "log_inv X w n0 gs xs D"
    using assms(1) by (auto simp: log_holds_def)
  moreover have "log_end n0 gs + length xs = n0 + length es" using i(3) by (auto simp: log_end_def)
  ultimately show thesis using that log_inv_clean[OF i(4) assms(2)] by blast
qed

lemma clean_holds:
  "valid_options options \<Longrightarrow> opened_with options w \<Longrightarrow> same_log w w' \<Longrightarrow> concat gs @ xs = es \<Longrightarrow> clean_inv X w' n0 gs xs D \<Longrightarrow>
   log_holds X options w' n0 es D"
  using log_holdsI[of options w' gs xs es X n0 D] opened_same[of options w w'] clean_log_inv[of X w' n0 gs xs D] by simp

text \<open>Every history keeps the invariant.\<close>

lemma log_history_holds: "log_history options w n0 es D \<Longrightarrow> log_holds UNIV options w n0 es D"
proof (induction rule: log_history.induct)
  case (created st w st')
  note O = open_wal_state[OF created(4)]
  have "opened_with options w" "clean_inv UNIV w 1 [] [] 1" using open_wal_fresh[where X = UNIV, OF created] by auto
  then show ?case using clean_holds[OF O(1) _ same_log_refl, of w "[]" "[]"] by simp
next
  case (append_ok w n0 es D type payload lsn w')
  from append_ok.IH append_ok(2) show ?case
  proof (rule holds_clean)
    fix gs xs
    assume i: "valid_options options" "opened_with options w" "concat gs @ xs = es" "clean_inv UNIV w n0 gs xs D"
    have "appended UNIV w w' (Inr lsn) n0 es (type, payload) D"
      using append_keeps[OF i(4), of "(type, payload)", simplified, OF append_ok(3)] i(3) by simp
    then show ?thesis using clean_holds[OF i(1,2)] unfolding appended_def sum.case by blast
  qed
next
  case (append_failed w n0 es D type payload e w')
  from append_failed.IH append_failed(2) show ?case
  proof (rule holds_clean)
    fix gs xs
    assume i: "valid_options options" "opened_with options w" "concat gs @ xs = es" "clean_inv UNIV w n0 gs xs D"
    have "appended UNIV w w' (Inl e) n0 es (type, payload) D"
      using append_keeps[OF i(4), of "(type, payload)", simplified, OF append_failed(3)] i(3) by simp
    then show ?thesis using log_holdsI[OF i(1) opened_same[OF i(2)]] unfolding appended_def sum.case insert_UNIV by blast
  qed
next
  case (flush w n0 es D r w')
  from flush.IH flush(2) show ?case
  proof (rule holds_clean)
    fix gs xs
    assume i: "valid_options options" "opened_with options w" "concat gs @ xs = es" "clean_inv UNIV w n0 gs xs D"
      and n: "log_end n0 gs + length xs = n0 + length es"
    show ?thesis using flush_keeps[OF i(4) flush(3)] clean_holds[OF i(1,2) _ i(3), of w'] unfolding n by simp
  qed
next
  case (commit w n0 es D r w')
  from commit.IH commit(2) show ?case
  proof (rule holds_clean)
    fix gs xs
    assume i: "valid_options options" "opened_with options w" "concat gs @ xs = es" "clean_inv UNIV w n0 gs xs D"
      and n: "log_end n0 gs + length xs = n0 + length es"
    show ?thesis using commit_keeps[OF i(4) commit(3)] clean_holds[OF i(1,2) _ i(3), of w'] unfolding n by simp
  qed
next
  case (sync w n0 es D r w')
  from sync.IH sync(2) show ?case
  proof (rule holds_clean)
    fix gs xs
    assume i: "valid_options options" "opened_with options w" "concat gs @ xs = es" "clean_inv UNIV w n0 gs xs D"
      and n: "log_end n0 gs + length xs = n0 + length es"
    show ?thesis using sync_keeps[OF i(4) sync(3)] clean_holds[OF i(1,2) _ i(3), of w'] unfolding n by simp
  qed
next
  case (truncate w n0 es D lsn r w')
  from truncate.IH truncate(2) show ?case
  proof (rule holds_clean)
    fix gs xs
    assume i: "valid_options options" "opened_with options w" "concat gs @ xs = es" "clean_inv UNIV w n0 gs xs D"
    from truncate_run[OF i(4) truncate(3)] obtain j
      where j: "same_log w w'" "clean_inv UNIV w' (log_end n0 (take j gs)) (drop j gs) xs D" by (auto simp: truncated_def)
    have f: "firstLsn w' = log_end n0 (take j gs)"
      using clean_inv_segments[OF j(2)] by (cases "drop j gs") (simp_all add: firstLsn_def segment_at_def log_end_def)
    have "concat gs = concat (take j gs) @ concat (drop j gs)" by (simp flip: concat_append)
    then have "concat (drop j gs) @ xs = drop (firstLsn w' - n0) es" using i(3) unfolding f log_end_def by auto
    then show ?thesis using clean_holds[OF i(1,2) j(1)] j(2) f by simp
  qed
next
  case (read w n0 es D lsn r w')
  from read.IH read(2) show ?case
  proof (rule holds_clean)
    fix gs xs
    assume i: "valid_options options" "opened_with options w" "concat gs @ xs = es" "clean_inv UNIV w n0 gs xs D"
    show ?thesis by (rule clean_holds[OF i(1,2) _ i(3)]) (rule records_run(1,2)[OF i(4) read(3)])+
  qed
next
  case (close w n0 es D r w')
  from close.IH close(2) show ?case
  proof (rule holds_clean)
    fix gs xs
    assume i: "valid_options options" "opened_with options w" "concat gs @ xs = es" "clean_inv UNIV w n0 gs xs D"
    show ?thesis by (rule clean_holds[OF i(1,2) _ i(3)]) (rule close_run[OF i(4) close(3)])+
  qed
next
  case (reopened w n0 es D st w' st')
  note O = open_wal_state[OF reopened(3)]
  obtain gs xs where g: "clean_inv UNIV w' n0 gs xs D" "opened_with options w'"
    using reopen_holds[where Y = UNIV, OF reopened.IH reopened(2,3)] by auto
  then show ?case using clean_holds[OF O(1) g(2) same_log_refl _ g(1)] stored_entries_inv[OF g(1) O(2,3)] by simp
qed

section \<open>Progress\<close>

lemma clean_no_leftover: "clean_inv X w n0 gs xs D \<Longrightarrow> no_leftover w"
  by (auto simp: clean_inv_def clean_log_def no_leftover_def clean_inv_segments[of X w n0 gs xs D] segment_at_def comp_def)

text \<open>An append fails only for the reasons the code names.\<close>

lemma append_progress:
  assumes "log_holds X options w n0 es D" "no_leftover w" "\<not> refuses w (n0 + length es) (type, payload)"
  shows "\<exists>w'. wal_append type payload w = (Inr (n0 + length es), w') \<and> \<not> wl_closed w' \<and> \<not> wl_broken w' \<and> same_log w w' \<and> no_leftover w'"
  using assms(1,2)
proof (rule holds_clean)
  fix gs xs
  assume i: "concat gs @ xs = es" "clean_inv X w n0 gs xs D"
  obtain r w' where a: "wal_append type payload w = (r, w')" by fastforce
  have "appended X w w' r n0 es (type, payload) D"
    using append_keeps[OF i(2), of "(type, payload)", simplified, OF a] i(1) by simp
  then show ?thesis using a assms(3) clean_no_leftover by (cases r) (auto simp: appended_def)
qed

text \<open>A power loss that loses nothing.\<close>

lemma power_loss_possible:
  assumes "distinct (map fst (os_files w))"
  shows "\<exists>st :: os. power_loss w st \<and> os_faults st = []"
proof -
  let ?g = "\<lambda>p f. f\<lparr>fi_synced := length (fi_data f), fi_linked := True\<rparr>"
  let ?st = "\<lparr>os_files = map (\<lambda>(p, f). (p, ?g p f)) (os_files w), os_faults = []\<rparr> :: os"
  have f: "file_at p ?st = map_option (?g p) (file_at p w)" for p
    unfolding file_at_def by (simp add: map_of_map_key)
  have "survives h (?g p h)" for p h
    by (auto simp: survives_def intro!: exI[of _ "max (fi_synced h) (length (fi_data h))"])
  moreover have "map fst (os_files ?st) = map fst (os_files w)" by auto
  then have "distinct (map fst (os_files ?st))" using assms by (simp only:)
  ultimately have "power_loss w ?st" unfolding power_loss_def f by (auto split: option.splits)
  then show ?thesis by (intro exI[of _ ?st]) simp
qed

text \<open>A log with the default options.\<close>

definition example_options :: wal_options where
  "example_options = \<lparr>wo_directory = js ''wal'', wo_writeConcern = None, wo_groupCommit = None, wo_segmentSizeBytes = None\<rparr>"

lemma example_valid: "valid_options example_options" "option_mode example_options = Flushed"
  by (simp_all add: valid_options_def example_options_def option_default_def DEFAULT_SEGMENT_SIZE_BYTES_def SEGMENT_HEADER_SIZE_def
      isSafeInteger_def num_of_int_exact MAX_SAFE_INTEGER_def)

lemma example_history:
  "\<exists>w st. log_history example_options w 1 [(1, [7])] 2 \<and> no_leftover w \<and> \<not> wl_closed w \<and> \<not> wl_broken w \<and> os_faults w = [] \<and>
     log_crash w st \<and> os_faults st = []"
proof -
  let ?st = "\<lparr>os_files = [], os_faults = []\<rparr> :: os"
  have empty: "known_names ?st (wo_directory example_options) {}" "flushes_directories ?st"
    by (simp_all add: known_names_def file_at_def flushes_directories_def)
  obtain r st' where o: "open_wal example_options ?st = (r, st')" by fastforce
  obtain w where w: "r = Inr w" "clean_inv UNIV w 1 [] [] 1" "os_faults w = []"
    using open_wal_fresh[where X = UNIV, OF empty(1) _ _ o] empty(2) example_valid by auto
  have h: "log_history example_options w 1 [] 1"
    using log_history.created[OF empty(1) _ _ o[unfolded w(1)]] empty(2) by simp
  note O = open_wal_state[OF o[unfolded w(1)]]
  have "\<not> refuses w 1 (1, [7])" using O w(3) by (simp add: refuses_def entry_ok_def MAX_RECORD_PAYLOAD_SIZE_def)
  then obtain w1 where a: "wal_append 1 [7] w = (Inr 1, w1)" "\<not> wl_closed w1" "\<not> wl_broken w1" "same_log w w1" "no_leftover w1"
    using append_progress[OF log_history_holds[OF h] clean_no_leftover[OF w(2)]] by auto
  have "append_durable w"
    using log_history_holds[OF h] example_valid(2) by (auto simp: log_holds_def opened_with_def append_durable_def example_options_def option_default_def)
  then have h1: "log_history example_options w1 1 [(1, [7])] 2"
    using log_history.append_ok[OF h clean_no_leftover[OF w(2)] a(1)] by (simp add: numeral_2_eq_2)
  obtain gs xs where g: "clean_inv UNIV w1 1 gs xs 2" "opened_with example_options w1"
    by (rule holds_clean[OF log_history_holds[OF h1] a(5)])
  then have "distinct (map fst (os_files w1))" by (auto simp: clean_inv_def clean_log_def)
  then obtain st :: os where st: "power_loss w1 st" "os_faults st = []" using power_loss_possible by blast
  have "wl_mode w1 = Flushed" using g(2) example_valid(2) by (simp add: opened_with_def)
  then have "log_crash w1 st" using st by (simp add: log_crash_def flushes_directories_def)
  moreover have "os_faults w1 = []" using a(4) w(3) by (simp add: same_log_def)
  ultimately show ?thesis using h1 a(2,3,5) st(2) by blast
qed

section \<open>Properties\<close>



text \<open>C7: A log that is open and not broken reads back exactly the records it was given, those
  after a given number, in order, whether they are in a file already or still in memory.\<close>

theorem log_reads_back:
  assumes "log_history options w n0 es D" "no_leftover w" "\<not> wl_closed w" "\<not> wl_broken w" "os_faults w = []"
  shows "fst (wal_records after w) = Inr (filter (\<lambda>r. after < wr_lsn r) (numbered n0 es))"
  using log_history_holds[OF assms(1)] assms(2)
proof (rule holds_clean)
  fix gs xs
  assume i: "concat gs @ xs = es" "clean_inv UNIV w n0 gs xs D"
  obtain r w' where rd: "wal_records after w = (r, w')" by fastforce
  show ?thesis using records_run(3)[OF i(2) rd assms(3,4)] rd i(1) assms(5) by simp
qed

theorem log_reads_back_witness:
  "\<exists>w. log_history example_options w 1 [(1, [7])] 2 \<and>
     fst (wal_records 0 w) = Inr (filter (\<lambda>r. 0 < wr_lsn r) (numbered 1 [(1, [7])]))"
proof -
  obtain w where h: "log_history example_options w 1 [(1, [7])] 2" "no_leftover w" "\<not> wl_closed w" "\<not> wl_broken w" "os_faults w = []"
    using example_history by blast
  from log_reads_back[OF h, of 0] show ?thesis using h(1) by blast
qed

text \<open>C8: An append to an open log succeeds unless a call of the operating system fails, the log is
  broken, the record is not a record (a type outside a byte, a payload that is too long) or the
  sequence numbers are used up; it returns the next number.\<close>

theorem append_accepted:
  assumes "log_history options w n0 es D" "no_leftover w" "\<not> wl_closed w" "\<not> wl_broken w" "os_faults w = []"
    and "0 \<le> type" "type \<le> 255" "length payload \<le> MAX_RECORD_PAYLOAD_SIZE" "n0 + length es < 2 ^ 64"
  shows "\<exists>w'. wal_append type payload w = (Inr (n0 + length es), w')"
proof -
  have "\<not> refuses w (n0 + length es) (type, payload)" using assms(3-9) by (simp add: refuses_def entry_ok_def)
  then show ?thesis using append_progress[OF log_history_holds[OF assms(1)] assms(2)] by blast
qed

theorem append_accepted_witness:
  "\<exists>w w'. log_history example_options w 1 [(1, [7])] 2 \<and> wal_append 255 [] w = (Inr 2, w')"
proof -
  obtain w where h: "log_history example_options w 1 [(1, [7])] 2" "no_leftover w" "\<not> wl_closed w" "\<not> wl_broken w" "os_faults w = []"
    using example_history by blast
  have "1 + length [(1 :: int, [7 :: u8])] = (2 :: nat)" by simp
  then show ?thesis using append_accepted[OF h, of 255 "[]"] h(1) by auto
qed

end
