(* ===== verification/Frames.thy ===== *)
theory Frames
  imports Wal_History Checkpoint_Proofs
begin

text \<open>
  What an operation leaves alone. The log touches files of its own directory only, and so does
  everything that handles snapshots; so neither disturbs the other.
\<close>

section \<open>Operations that respect a relation of states\<close>

definition keeps :: "('s \<Rightarrow> 's \<Rightarrow> bool) \<Rightarrow> ('s, 'a) operation \<Rightarrow> bool" where
  "keeps R m \<longleftrightarrow> (\<forall>s r s'. m s = (r, s') \<longrightarrow> R s s')"

locale frame =
  fixes R :: "'s \<Rightarrow> 's \<Rightarrow> bool"
  assumes related_refl: "R s s"
    and related_trans: "R a b \<Longrightarrow> R b c \<Longrightarrow> R a c"
begin

lemma keepsI: "(\<And>s r s'. m s = (r, s') \<Longrightarrow> R s s') \<Longrightarrow> keeps R m"
  by (simp add: keeps_def)

lemma keepsD: "keeps R m \<Longrightarrow> m s = (r, s') \<Longrightarrow> R s s'"
  by (simp add: keeps_def)

lemma keeps_return: "keeps R (returnS x)"
  and keeps_throw: "keeps R (throwS e)"
  and keeps_from: "keeps R (fromR r)"
  and keeps_gets: "keeps R (getsS f)"
  by (auto simp: keeps_def operation_defs related_refl)

lemma keeps_modify: "(\<And>s. R s (f s)) \<Longrightarrow> keeps R (modifyS f)"
  by (auto simp: keeps_def modifyS_def)

lemma keeps_bind_result:
  assumes "keeps R m" "\<And>s x s'. m s = (Inr x, s') \<Longrightarrow> keeps R (f x)"
  shows "keeps R (bindS m f)"
proof (rule keepsI)
  fix s r s'
  assume "bindS m f s = (r, s')"
  then consider e where "m s = (Inl e, s')" | x s1 where "m s = (Inr x, s1)" "f x s1 = (r, s')"
    by (auto simp: bindS_def split: prod.splits sum.splits)
  then show "R s s'"
  proof cases
    case 1
    then show ?thesis using keepsD[OF assms(1)] by simp
  next
    case 2
    then show ?thesis using keepsD[OF assms(1) 2(1)] keepsD[OF assms(2)[OF 2(1)] 2(2)] related_trans by blast
  qed
qed

lemma keeps_bind: "keeps R m \<Longrightarrow> (\<And>x. keeps R (f x)) \<Longrightarrow> keeps R (bindS m f)"
  by (rule keeps_bind_result)

lemma keeps_catch:
  assumes "keeps R m" "\<And>e. keeps R (h e)"
  shows "keeps R (catchS m h)"
proof (rule keepsI)
  fix s r s'
  assume "catchS m h s = (r, s')"
  then consider x where "m s = (Inr x, s')" | e s1 where "m s = (Inl e, s1)" "h e s1 = (r, s')"
    by (auto simp: catchS_def split: prod.splits sum.splits)
  then show "R s s'"
  proof cases
    case 1
    then show ?thesis using keepsD[OF assms(1)] by simp
  next
    case 2
    then show ?thesis using keepsD[OF assms(1) 2(1)] keepsD[OF assms(2) 2(2)] related_trans by blast
  qed
qed

lemma keeps_if: "(b \<Longrightarrow> keeps R m) \<Longrightarrow> (\<not> b \<Longrightarrow> keeps R m') \<Longrightarrow> keeps R (if b then m else m')"
  by simp

lemma keeps_option: "(x = None \<Longrightarrow> keeps R m) \<Longrightarrow> (\<And>y. x = Some y \<Longrightarrow> keeps R (f y)) \<Longrightarrow> keeps R (case x of None \<Rightarrow> m | Some y \<Rightarrow> f y)"
  by (cases x) auto

lemma keeps_pair: "(\<And>a b. p = (a, b) \<Longrightarrow> keeps R (f a b)) \<Longrightarrow> keeps R (case p of (a, b) \<Rightarrow> f a b)"
  by (cases p) auto

lemmas keeps_rules = keeps_return keeps_throw keeps_from keeps_gets keeps_catch keeps_if keeps_option

end

section \<open>Sets of files\<close>

abbreviation files_of :: "js_string \<Rightarrow> path set" where
  "files_of d \<equiv> {p. fst p = d}"

definition outside :: "path set \<Rightarrow> 'z os_scheme \<Rightarrow> 'y os_scheme \<Rightarrow> bool" where
  "outside A st st' \<longleftrightarrow> (\<forall>p. p \<notin> A \<longrightarrow> file_at p st' = file_at p st)"

lemma outsideD: "outside A st st' \<Longrightarrow> p \<notin> A \<Longrightarrow> file_at p st' = file_at p st"
  unfolding outside_def by blast

lemma outside_refl [simp]: "outside A st st" by (simp add: outside_def)

lemma outside_trans: "outside A a b \<Longrightarrow> outside A b c \<Longrightarrow> outside A a c" by (simp add: outside_def)

definition touched :: "path set \<Rightarrow> 'z os_scheme \<Rightarrow> 'z os_scheme \<Rightarrow> bool" where
  "touched A st st' \<longleftrightarrow> quiet st st' \<and> outside A st st'"

interpretation tch: frame "touched A"
  by unfold_locales (auto simp: touched_def outside_def intro: quiet_trans)

lemma only_changes_touched: "only_changes p st st' \<Longrightarrow> p \<in> A \<Longrightarrow> touched A st st'"
  unfolding only_changes_def touched_def outside_def by metis

lemma unchanged_touched: "unchanged st st' \<Longrightarrow> touched A st st'"
  by (auto simp: unchanged_def touched_def outside_def)

named_theorems touching

lemmas [touching] = tch.keeps_rules

lemma touches_syscall [touching]:
  assumes "keeps (touched A) m"
  shows "keeps (touched A) (syscall m)"
proof (rule tch.keepsI)
  fix st :: "'a os_scheme" and r st'
  assume "syscall m st = (r, st')"
  then show "touched A st st'"
  proof (cases rule: syscall_run)
    case (fails c)
    then show ?thesis using unchangedI unchanged_touched by blast
  next
    case (runs st1)
    have "touched A st st1" using runs unchangedI unchanged_touched by blast
    then show ?thesis using tch.keepsD[OF assms runs(1)] tch.related_trans by blast
  qed
qed

lemma touches_put [touching]: "p \<in> A \<Longrightarrow> keeps (touched A) (modifyS (put_file p f))"
  by (rule tch.keeps_modify) (rule only_changes_touched[OF only_changes_put])

lemma touches_get_file [touching]: "keeps (touched A) (get_file p)"
  unfolding get_file_def by (rule tch.keeps_gets)

lemma touches_link [touching]: "files_of d \<subseteq> A \<Longrightarrow> keeps (touched A) (modifyS (link_entries d))"
proof (rule tch.keeps_modify)
  assume A: "files_of d \<subseteq> A"
  fix st :: "'a os_scheme"
  have "quiet st (link_entries d st)" using link_entries_relinks by (rule relinks_quiet)
  moreover have "file_at p (link_entries d st) = file_at p st" if "p \<notin> A" for p
    using that A by (cases "file_at p st") (auto simp: link_entries_file)
  ultimately show "touched A st (link_entries d st)" by (simp add: touched_def outside_def)
qed

lemma touches_delete [touching]: "p \<in> A \<Longrightarrow> keeps (touched A) (modifyS (\<lambda>st. st\<lparr>os_files := AList.delete p (os_files st)\<rparr>))"
  by (rule tch.keeps_modify) (auto simp: touched_def outside_def quiet_delete file_at_delete)

lemma touches_replace [touching]:
  "p \<in> A \<Longrightarrow> q \<in> A \<Longrightarrow> keeps (touched A) (modifyS (\<lambda>st. put_file q f (st\<lparr>os_files := AList.delete p (os_files st)\<rparr>)))"
  by (rule tch.keeps_modify) (auto simp: touched_def outside_def file_at_delete intro: quiet_trans[OF quiet_delete quiet_put])

lemma touches_next [touching]: "keeps (touched A) next_fault"
  by (rule tch.keepsI) (metis next_fault_run(2,3) unchangedI unchanged_touched)

lemma touches_files [touching]:
  "p \<in> A \<Longrightarrow> keeps (touched A) (openSync_wx p)"
  "p \<in> A \<Longrightarrow> keeps (touched A) (openSync_w p)"
  "keeps (touched A) (openSync_rw p)" "keeps (touched A) (openSync_r dir)"
  "p \<in> A \<Longrightarrow> keeps (touched A) (fsyncSync p)"
  "p \<in> A \<Longrightarrow> keeps (touched A) (ftruncateSync p len)"
  "keeps (touched A) (closeSync p)"
  "p \<in> A \<Longrightarrow> keeps (touched A) (unlinkSync p)"
  "p \<in> A \<Longrightarrow> q \<in> A \<Longrightarrow> keeps (touched A) (renameSync p q)"
  "keeps (touched A) (readdirSync dir)" "keeps (touched A) (readFileSync p)" "keeps (touched A) (statSize p)" "keeps (touched A) (mkdirSync dir)"
  "files_of d \<subseteq> A \<Longrightarrow> keeps (touched A) (fsync_directory d)"
  unfolding openSync_wx_def openSync_w_def openSync_rw_def openSync_r_def fsyncSync_def ftruncateSync_def closeSync_def unlinkSync_def
    renameSync_def readdirSync_def readFileSync_def statSize_def mkdirSync_def fsync_directory_def
  by (intro touching tch.keeps_bind; simp)+

lemma touches_writeSync [touching]: "p \<in> A \<Longrightarrow> keeps (touched A) (writeSync p bs pos)"
  unfolding writeSync_def Let_def
  by (intro touching tch.keeps_bind; simp split: fault.split add: touching tch.keeps_bind)

lemma touches_writeFully [touching]: "p \<in> A \<Longrightarrow> keeps (touched A) (writeFully p bs pos)"
proof (rule tch.keepsI)
  fix st :: "'a os_scheme" and r st'
  assume "p \<in> A" "writeFully p bs pos st = (r, st')"
  then show "touched A st st'"
  proof (induction p bs pos st rule: writeFully.induct)
    case (1 fd bs pos st)
    obtain r1 st1 where w: "writeSync fd bs pos st = (r1, st1)" by fastforce
    have t: "touched A st st1" using tch.keepsD[OF touches_writeSync[OF 1(2)] w] .
    show ?case
    proof (cases "bs = []")
      case True
      then show ?thesis using 1(3) tch.related_refl by (simp add: writeFully.simps)
    next
      case False
      show ?thesis
      proof (cases r1)
        case (Inl e)
        then show ?thesis using 1(3) w t False by (simp add: writeFully.simps[of fd bs])
      next
        case (Inr n)
        then have "writeFully fd (drop n bs) (pos + n) st1 = (r, st')" using 1(3) w False by (simp add: writeFully.simps[of fd bs])
        then have "touched A st1 st'" using 1(1)[OF False w[symmetric] Inr 1(2)] by simp
        then show ?thesis using t tch.related_trans by blast
      qed
    qed
  qed
qed

lemma touches_syncDirectory [touching]: "files_of d \<subseteq> A \<Longrightarrow> keeps (touched A) (syncDirectory d)"
proof (rule tch.keepsI)
  assume A: "files_of d \<subseteq> A"
  fix st :: "'a os_scheme" and r st'
  assume s: "syncDirectory d st = (r, st')"
  obtain r1 st1 where o: "openSync_r d st = (r1, st1)" by fastforce
  obtain r2 st2 where f: "fsync_directory d st1 = (r2, st2)" by fastforce
  have t: "touched A st st1" "touched A st1 st2" using tch.keepsD[OF touches_files(4) o] tch.keepsD[OF touches_files(14)[OF A] f] by blast+
  show "touched A st st'"
  proof (cases r1)
    case (Inl e)
    then show ?thesis using s o t(1) by (simp add: syncDirectory_def)
  next
    case (Inr fd)
    obtain r3 st3 where c: "closeSync fd st2 = (r3, st3)" by fastforce
    have "touched A st2 st3" using tch.keepsD[OF touches_files(7) c] .
    moreover have "st' = st3" using s o f c Inr by (simp add: syncDirectory_def split: sum.splits)
    ultimately show ?thesis using t tch.related_trans by blast
  qed
qed

section \<open>Snapshots\<close>

lemma touches_stage: "stage_harmless onStage \<Longrightarrow> keeps (touched A) (onStage stage)"
  by (rule tch.keepsI) (auto simp: stage_harmless_def intro: unchanged_touched)

lemma touches_writer [touching]:
  "fd \<in> A \<Longrightarrow> keeps (touched A) (writeAll fd bs w)"
  "fd \<in> A \<Longrightarrow> keeps (touched A) (sw_flush fd w)"
  unfolding writeAll_def sw_flush_def Let_def by (intro touching tch.keeps_bind; simp)+

lemma touches_documents [touching]: "fd \<in> A \<Longrightarrow> keeps (touched A) (write_documents fd docs w)"
  by (induction docs arbitrary: w) (auto simp: Let_def intro!: touching tch.keeps_bind)

lemma touches_collections [touching]: "fd \<in> A \<Longrightarrow> keeps (touched A) (write_collections fd cs w)"
  by (induction cs arbitrary: w) (auto intro!: touching tch.keeps_bind)

lemma touches_snapshot [touching]: "fd \<in> A \<Longrightarrow> keeps (touched A) (write_snapshot fd lsn cs)"
  unfolding write_snapshot_def by (intro touching tch.keeps_bind; simp)

lemma openSync_w_path: "openSync_w p st = (Inr fd, st') \<Longrightarrow> fd = p"
  by (rule openSync_w_run)

lemma touches_writeCheckpoint:
  assumes "stage_harmless onStage"
  shows "keeps (touched (files_of d)) (writeCheckpoint d lsn cs onStage)"
  unfolding writeCheckpoint_def Let_def unlinkQuietly_def
  by (rule tch.keeps_bind_result; (drule openSync_w_path)?)
    (auto intro!: touching tch.keeps_bind touches_stage[OF assms])

lemma touches_list [touching]: "keeps (touched A) (listCheckpoints dir)"
  unfolding listCheckpoints_def by (intro touching tch.keeps_bind)

lemma touches_remove_temporary [touching]: "keeps (touched (files_of d)) (remove_temporary d names)"
  by (induction names) (auto intro!: touching tch.keeps_bind)

lemma touches_removeTemporary [touching]: "keeps (touched (files_of d)) (removeTemporaryCheckpoints d)"
  unfolding removeTemporaryCheckpoints_def by (intro touching tch.keeps_bind subset_refl)

lemma touches_readCheckpoint [touching]: "keeps (touched A) (readCheckpoint p)"
  unfolding readCheckpoint_def by (intro touching tch.keeps_bind)

section \<open>The log\<close>

text \<open>A log keeps its files in its directory.\<close>

definition in_dir :: "js_string \<Rightarrow> wal \<Rightarrow> bool" where
  "in_dir d w \<longleftrightarrow> wl_directory w = d \<and> (\<forall>fd. wl_fd w = Some fd \<longrightarrow> fst fd = d) \<and> (\<forall>s \<in> set (wl_segments w). fst (sg_path s) = d)"

definition stayed :: "js_string \<Rightarrow> wal \<Rightarrow> wal \<Rightarrow> bool" where
  "stayed d w w' \<longleftrightarrow> (in_dir d w \<longrightarrow> in_dir d w' \<and> outside (files_of d) w w')"

interpretation sty: frame "stayed d"
  by unfold_locales (auto simp: stayed_def intro: outside_trans)

named_theorems staying

lemmas [staying] = sty.keeps_rules

lemma touched_stayed: "touched (files_of d) w (w' :: wal) \<Longrightarrow> stayed d w w'"
  by (auto simp: touched_def stayed_def in_dir_def quiet_fields)

lemma touches_stays: "keeps (touched (files_of d)) (m :: (wal, 'a) operation) \<Longrightarrow> keeps (stayed d) m"
  using touched_stayed unfolding keeps_def by blast

lemmas [staying] = touches_files[THEN touches_stays] touches_writeFully[THEN touches_stays] touches_syncDirectory[OF subset_refl, THEN touches_stays]

lemma stays_state [staying]: "(\<And>w. in_dir d w \<Longrightarrow> keeps (stayed d) (f w)) \<Longrightarrow> keeps (stayed d) (bindS (getsS Inr) f)"
  by (auto simp: keeps_def stayed_def bindS_def getsS_def)

lemma stays_with_fd [staying]:
  assumes "\<And>fd. fst fd = d \<Longrightarrow> keeps (stayed d) (f fd)"
  shows "keeps (stayed d) (with_fd f)"
proof (rule sty.keepsI)
  fix w r w'
  assume r: "with_fd f w = (r, w')"
  show "stayed d w w'"
  proof (cases "wl_fd w")
    case None
    then have "w' = w" using r by (simp add: with_fd_def bindS_def getsS_def)
    then show ?thesis by (simp add: sty.related_refl)
  next
    case (Some fd)
    then have "f fd w = (r, w')" using r by (simp add: with_fd_def bindS_def getsS_def)
    then show ?thesis using assms Some unfolding keeps_def stayed_def in_dir_def by blast
  qed
qed

lemma stays_modify: "(\<And>w. in_dir d w \<Longrightarrow> in_dir d (g w)) \<Longrightarrow> (\<And>w. os_files (g w) = os_files w) \<Longrightarrow> keeps (stayed d) (modifyS g)"
  by (rule sty.keeps_modify) (simp add: stayed_def outside_def file_at_def)

lemma stays_writing [staying]:
  "keeps (stayed d) mark_broken" "keeps (stayed d) assertOpen" "keeps (stayed d) assertWritable"
  "keeps (stayed d) (abandonWrite e n)" "keeps (stayed d) sync_or_break"
  unfolding mark_broken_def assertOpen_def assertWritable_def abandonWrite_def sync_or_break_def
  by (intro staying sty.keeps_bind stays_modify; simp add: in_dir_def)+

lemma stays_flush [staying]: "keeps (stayed d) wal_flush"
  unfolding wal_flush_def by (intro staying sty.keeps_bind stays_modify; simp add: in_dir_def)

lemma stays_commit [staying]: "keeps (stayed d) wal_commit"
  unfolding wal_commit_def by (intro staying sty.keeps_bind stays_modify; simp add: in_dir_def)

lemma stays_sync [staying]: "keeps (stayed d) wal_sync"
  unfolding wal_sync_def by (intro staying sty.keeps_bind stays_modify; simp add: in_dir_def)

lemma openSync_rw_path: "openSync_rw p st = (Inr fd, st') \<Longrightarrow> fd = p"
  by (auto simp: openSync_rw_def bindS_Inr returnS_def elim!: syscall_run)

lemma openSync_wx_path: "openSync_wx p st = (Inr fd, st') \<Longrightarrow> fd = p"
  using openSync_wx_run[of p st "Inr fd" st'] by auto

lemma createSegment_paths:
  assumes "createSegment dir n durable st = (Inr p, st')"
  shows "p = (segment_at dir n, segment_path dir n)"
  using createSegment_run[OF assms] by (cases p) auto

lemma touches_createSegment [touching]: "keeps (touched (files_of d)) (createSegment d n durable)"
proof -
  have p: "fst (segment_path d n) = d" by (simp add: segment_path_def)
  have c: "fd = segment_path d n" if "catchS (openSync_wx (segment_path d n)) (\<lambda>e. throwS (translateIo e)) st = (Inr fd, st')" for fd st st'
    using that by (auto simp: catchS_def throwS_def split: prod.splits sum.splits dest!: openSync_wx_path)
  show ?thesis
    unfolding createSegment_def Let_def
    by (rule tch.keeps_bind_result; (drule c)?)
      (auto simp: fill_segment_def discard_segment_def p intro!: touching tch.keeps_bind)
qed

lemma stays_rotate [staying]: "keeps (stayed d) rotate_log"
proof -
  have *: "keeps (stayed d) (bindS (createSegment d n durable) (\<lambda>(info, fd).
     bindS (modifyS (\<lambda>w. w\<lparr>wl_segments := wl_segments w @ [info], wl_fd := Some fd, wl_position := SEGMENT_HEADER_SIZE\<rparr>)) (\<lambda>_. m)))"
    if "keeps (stayed d) m" for n durable and m :: "(wal, unit) operation"
  proof (rule sty.keeps_bind_result[OF touches_stays[OF touches_createSegment]])
    fix w x w'
    assume "createSegment d n durable w = (Inr x, (w' :: wal))"
    then have "x = (segment_at d n, segment_path d n)" by (rule createSegment_paths)
    then show "keeps (stayed d) (case x of (info, fd) \<Rightarrow>
       bindS (modifyS (\<lambda>w. w\<lparr>wl_segments := wl_segments w @ [info], wl_fd := Some fd, wl_position := SEGMENT_HEADER_SIZE\<rparr>)) (\<lambda>_. m))"
      using that by (auto simp: in_dir_def segment_at_def segment_path_def intro!: sty.keeps_bind stays_modify)
  qed
  show ?thesis
    unfolding rotate_log_def
    by (rule sty.keeps_bind[OF stays_flush], rule stays_state, rule sty.keeps_bind)
      (auto simp: in_dir_def intro!: staying sty.keeps_bind stays_modify *)
qed

lemma stays_append_memory [staying]: "keeps (stayed d) (append_memory n bs)"
  unfolding append_memory_def by (intro staying sty.keeps_bind stays_modify; simp add: in_dir_def)

lemma stays_append_file [staying]: "keeps (stayed d) (append_file n bs)"
  unfolding append_file_def by (intro staying sty.keeps_bind stays_modify; simp add: in_dir_def)

lemma stays_append [staying]: "keeps (stayed d) (wal_append type payload)"
  unfolding wal_append_def by (intro staying sty.keeps_bind stays_modify; simp add: in_dir_def)

lemma stays_records_loop [staying]: "keeps (stayed d) (records_loop k segments)"
  by (rule sty.keepsI) (rule touched_stayed[OF unchanged_touched[OF records_loop_unchanged]])

lemma stays_records [staying]: "keeps (stayed d) (wal_records k)"
  unfolding wal_records_def by (intro staying sty.keeps_bind stays_modify; simp add: in_dir_def)

lemma stays_truncate_loop:
  "(\<And>s. s \<in> set segments \<Longrightarrow> fst (sg_path s) = d) \<Longrightarrow> keeps (stayed d) (truncate_loop k segments)"
  by (induction k segments rule: truncate_loop.induct)
    (auto simp: in_dir_def intro!: staying sty.keeps_bind stays_modify)

lemma stays_truncate [staying]: "keeps (stayed d) (truncateThrough k)"
  unfolding truncateThrough_def
  by (rule sty.keeps_bind[OF stays_writing(3)], rule stays_state, rule sty.keeps_bind[OF stays_truncate_loop])
    (auto simp: in_dir_def intro!: staying sty.keeps_bind)

lemma stays_close [staying]: "keeps (stayed d) close_wal"
  unfolding close_wal_def by (intro staying sty.keeps_bind stays_modify; simp add: in_dir_def)

lemma touches_recover [touching]: "keeps (touched (files_of d)) (recover_loop d names acc)"
  by (induction names arbitrary: acc) (auto simp: readSegment_def split: option.splits prod.splits intro!: touching tch.keeps_bind)

lemma recover_loop_paths:
  assumes "recover_loop d names acc st = (Inr rv, st')" "\<forall>s \<in> set (rv_segments acc). fst (sg_path s) = d"
  shows "\<forall>s \<in> set (rv_segments rv). fst (sg_path s) = d"
  using assms
proof (induction names arbitrary: acc st)
  case (Cons name names)
  have next_acc: "\<forall>s \<in> set (rv_segments rv). fst (sg_path s) = d"
    if "recover_loop d names (acc\<lparr>rv_segments := rv_segments acc @ [\<lparr>sg_path = (d, name), sg_firstLsn = n\<rparr>], rv_validEnd := a, rv_lastLsn := b\<rparr>) st1 = (Inr rv, st')"
    for n a b st1 using Cons.IH[OF that] Cons.prems(2) by auto
  obtain bytes st1 where rd: "readSegment (d, name) st = (Inr bytes, st1)" using Cons.prems(1) by (auto simp: bindS_Inr)
  show ?case
  proof (cases "decodeSegmentHeader bytes")
    case None
    then have "rv = acc" using Cons.prems(1) rd by (auto simp: bindS_def throwS_def returnS_def split: if_splits prod.splits sum.splits)
    then show ?thesis using Cons.prems(2) by simp
  next
    case (Some n)
    obtain rs a b stop where "scan_segment bytes SEGMENT_HEADER_SIZE n = (rs, a, b, stop)" using prod_cases4 by blast
    then have "recover_loop d names (acc\<lparr>rv_segments := rv_segments acc @ [\<lparr>sg_path = (d, name), sg_firstLsn = n\<rparr>], rv_validEnd := a, rv_lastLsn := b - 1\<rparr>) st1 = (Inr rv, st')"
      using Cons.prems(1) rd Some by (cases acc) (auto simp: bindS_def throwS_def split: if_splits)
    then show ?thesis by (rule next_acc)
  qed
qed (simp add: returnS_def)

lemma touches_open_active: "fst p = d \<Longrightarrow> keeps (touched (files_of d)) (open_active p n)"
  unfolding open_active_def
  by (rule tch.keeps_catch, rule tch.keeps_bind_result, rule touches_files, drule openSync_rw_path)
    (auto intro!: touching tch.keeps_bind)

lemma open_wal_frame:
  assumes "open_wal options st = (Inr w, st')"
  shows "outside (files_of (wo_directory options)) st w" "in_dir (wo_directory options) w"
proof -
  let ?d = "wo_directory options"
  from assms have "outside (files_of ?d) st w \<and> in_dir ?d w"
  proof (cases rule: open_wal_steps)
    case (recovers st1 r1 st2)
    then obtain rv where r: "recoverSegments ?d st1 = (Inr rv, st2)" "open_recovered options rv st2 = (Inr w, st')"
      by (cases r1) auto
    have "keeps (touched (files_of ?d)) (recoverSegments ?d)"
      unfolding recoverSegments_def by (intro touching tch.keeps_bind)
    then have t: "touched (files_of ?d) st st2" using tch.keepsD r(1) unchanged_touched[OF recovers(2)] tch.related_trans by blast
    have segs: "\<forall>s \<in> set (rv_segments rv). fst (sg_path s) = ?d"
      using r(1) unfolding recoverSegments_def bindS_Inr by (elim exE conjE) (erule recover_loop_paths, simp add: nothing_recovered_def)
    show ?thesis
    proof (cases "rv_segments rv = []")
      case True
      then obtain info fd st3 where c: "createSegment ?d 1 (option_mode options = Flushed) st2 = (Inr (info, fd), st3)"
          "w = new_wal options (option_mode options) (option_default (wo_groupCommit options) False)
            (nat (num_int (option_size options))) [info] fd SEGMENT_HEADER_SIZE 1 st3"
        using r(2) by (auto simp: open_recovered_def bindS_Inr getsS_def)
      have "touched (files_of ?d) st2 st3" using tch.keepsD[OF touches_createSegment c(1)] .
      then have "touched (files_of ?d) st st3" using t tch.related_trans by blast
      then show ?thesis using c(2) createSegment_paths[OF c(1)]
        by (auto simp: new_wal_def os.defs in_dir_def segment_at_def segment_path_def touched_def outside_def file_at_def)
    next
      case False
      let ?p = "sg_path (last (rv_segments rv))"
      have p: "fst ?p = ?d" using segs False by simp
      obtain fd st3 where c: "open_active ?p (rv_validEnd rv) st2 = (Inr fd, st3)"
          "w = new_wal options (option_mode options) (option_default (wo_groupCommit options) False)
            (nat (num_int (option_size options))) (rv_segments rv) fd (rv_validEnd rv) (rv_lastLsn rv + 1) st3"
        using r(2) False by (auto simp: open_recovered_def bindS_Inr getsS_def)
      have "fd = ?p"
        using c(1) by (auto simp: open_active_def catchS_def throwS_def bindS_Inr returnS_def split: prod.splits sum.splits dest: openSync_rw_path)
      moreover have "touched (files_of ?d) st st3" using tch.keepsD[OF touches_open_active[OF p] c(1)] t tch.related_trans by blast
      ultimately show ?thesis using c(2) segs p
        by (auto simp: new_wal_def os.defs in_dir_def touched_def outside_def file_at_def)
    qed
  qed simp_all
  then show "outside (files_of ?d) st w" "in_dir ?d w" by blast+
qed

section \<open>Changes in other directories\<close>

lemma clean_log_outside:
  assumes "quiet st st'" "outside (files_of c) st st'" "dir \<noteq> c" "clean_log st dir durable n0 gs ys n s"
  shows "clean_log st' dir durable n0 gs ys n s"
proof -
  have f: "file_at (segment_path dir l) st' = file_at (segment_path dir l) st" for l
    using assms(2,3) by (simp add: outside_def segment_path_def)
  show ?thesis using assms(1,4) sealed_cong[of dir st' st] f by (simp add: clean_log_def tail_segment_def known_names_def quiet_def)
qed

lemma disk_log_outside:
  assumes "quiet st st'" "outside (files_of c) st st'" "dir \<noteq> c" "disk_log b st dir durable n0 gs ys n s"
  shows "disk_log b st' dir durable n0 gs ys n s"
proof -
  have f: "file_at (segment_path dir l) st' = file_at (segment_path dir l) st" for l
    using assms(2,3) by (simp add: outside_def segment_path_def)
  show ?thesis using assms(1,4) sealed_cong[of dir st' st] f
    by (simp add: disk_log_def tail_segment_def known_names_def leftover_def quiet_def Let_def)
qed

lemma clean_inv_touched:
  assumes "touched (files_of c) w w'" "wl_directory w \<noteq> c" "clean_inv X w n0 gs xs D"
  shows "clean_inv X w' n0 gs xs D"
proof -
  have q: "quiet w w'" "outside (files_of c) w w'" using assms(1) by (simp_all add: touched_def)
  show ?thesis using assms(3) clean_log_outside[OF q assms(2)] log_fields_quiet[OF q(1)]
    unfolding clean_inv_def quiet_fields[OF q(1)] by blast
qed

end
