(* ===== verification/Snapshot_Store.thy ===== *)
theory Snapshot_Store
  imports Frames Storage_Engine
begin

text \<open>
  The directory of the snapshots. Every file in it that has the name of a snapshot is a whole
  snapshot, flushed, of the collections there were at its number; writing another one, removing old
  ones, failures of the operating system and crashes keep it that way.
\<close>

section \<open>The invariant\<close>

text \<open>\<open>G lsn cs\<close>: \<open>cs\<close> are the collections after the record with the number \<open>lsn\<close>.\<close>

definition snapshot_data :: "(nat \<Rightarrow> checkpoint_collection list \<Rightarrow> bool) \<Rightarrow> nat \<Rightarrow> bytes \<Rightarrow> bool" where
  "snapshot_data G lsn data \<longleftrightarrow> (\<exists>cs content. G lsn cs \<and> (\<forall>c \<in> set cs. snapshot_ok c) \<and> snapshot_content lsn cs = Inr content \<and>
     data = snapshot_file content)"

definition snapshots_ok :: "(nat \<Rightarrow> checkpoint_collection list \<Rightarrow> bool) \<Rightarrow> js_string \<Rightarrow> 'z os_scheme \<Rightarrow> bool" where
  "snapshots_ok G dir st \<longleftrightarrow> (\<forall>name f lsn. file_at (dir, name) st = Some f \<longrightarrow> parse_lsn_name snapshot_suffix name = Some lsn \<longrightarrow>
     synced_file f \<and> snapshot_data G lsn (fi_data f))"

definition snapshot_path :: "js_string \<Rightarrow> nat \<Rightarrow> path" where
  "snapshot_path dir lsn = (dir, checkpointFileName lsn)"

definition has_snapshot :: "js_string \<Rightarrow> bool \<Rightarrow> nat \<Rightarrow> 'z os_scheme \<Rightarrow> bool" where
  "has_snapshot dir durable lsn st \<longleftrightarrow> (\<exists>f. file_at (snapshot_path dir lsn) st = Some f \<and> (durable \<longrightarrow> fi_linked f))"

lemma snapshots_okD:
  assumes "snapshots_ok G dir st" "file_at (snapshot_path dir lsn) st = Some f" "lsn < 10 ^ 20"
  shows "synced_file f" "snapshot_data G lsn (fi_data f)"
  using assms parse_lsn_name[of lsn snapshot_suffix] unfolding snapshots_ok_def snapshot_path_def checkpointFileName_def by blast+

lemma snapshots_ok_mono:
  assumes "snapshots_ok G dir st" "\<And>lsn cs. lsn < 10 ^ 20 \<Longrightarrow> G lsn cs \<Longrightarrow> G' lsn cs"
  shows "snapshots_ok G' dir st"
  using assms parse_lsn_name_Some(1) unfolding snapshots_ok_def snapshot_data_def by metis

text \<open>Files that are gone, or relinked, or without the name of a snapshot.\<close>

lemma snapshots_ok_files:
  assumes "snapshots_ok G dir st"
    and "\<And>name f lsn. file_at (dir, name) st' = Some f \<Longrightarrow> parse_lsn_name snapshot_suffix name = Some lsn \<Longrightarrow>
      \<exists>g. file_at (dir, name) st = Some g \<and> fi_data f = fi_data g \<and> fi_synced f = fi_synced g"
  shows "snapshots_ok G dir st'"
  unfolding snapshots_ok_def
proof (intro allI impI)
  fix name f lsn
  assume f: "file_at (dir, name) st' = Some f" "parse_lsn_name snapshot_suffix name = Some lsn"
  then obtain g where "file_at (dir, name) st = Some g" "fi_data f = fi_data g" "fi_synced f = fi_synced g" using assms(2) by blast
  then show "synced_file f \<and> snapshot_data G lsn (fi_data f)" using assms(1) f(2) by (auto simp: snapshots_ok_def synced_file_def)
qed

lemma relinks_snapshots:
  assumes "relinks st st'"
  shows "snapshots_ok G dir st \<Longrightarrow> snapshots_ok G dir st'" "has_snapshot dir F lsn st \<Longrightarrow> has_snapshot dir F lsn st'"
proof -
  have "\<exists>g. file_at p st = Some g \<and> fi_data f = fi_data g \<and> fi_synced f = fi_synced g" if f: "file_at p st' = Some f" for p f
  proof (cases "file_at p st")
    case None
    then show ?thesis using relinks_None[OF assms] f by simp
  next
    case (Some g)
    then obtain f' where "file_at p st' = Some f'" "relinked g f'" using relinks_Some[OF assms] by blast
    then show ?thesis using f Some relinkedD by auto
  qed
  then show "snapshots_ok G dir st \<Longrightarrow> snapshots_ok G dir st'" using snapshots_ok_files by blast
  show "has_snapshot dir F lsn st \<Longrightarrow> has_snapshot dir F lsn st'"
    using relinks_Some[OF assms] relinkedD(3) unfolding has_snapshot_def by blast
qed

lemma outside_snapshots:
  assumes "outside A st st'" "\<And>name lsn. (dir, name) \<in> A \<Longrightarrow> parse_lsn_name snapshot_suffix name = Some lsn \<Longrightarrow> file_at (dir, name) st' = None"
    and "snapshots_ok G dir st"
  shows "snapshots_ok G dir st'"
proof (rule snapshots_ok_files[OF assms(3)])
  fix name f lsn
  assume f: "file_at (dir, name) st' = Some f" "parse_lsn_name snapshot_suffix name = Some lsn"
  then have "(dir, name) \<notin> A" using assms(2)[OF _ f(2)] by force
  then show "\<exists>g. file_at (dir, name) st = Some g \<and> fi_data f = fi_data g \<and> fi_synced f = fi_synced g" using outsideD[OF assms(1)] f(1) by simp
qed

lemma outside_has_snapshot: "outside A st st' \<Longrightarrow> snapshot_path dir lsn \<notin> A \<Longrightarrow> has_snapshot dir F lsn st' = has_snapshot dir F lsn st"
  using outsideD[of A st st' "snapshot_path dir lsn"] by (simp add: has_snapshot_def)

lemma has_snapshot_weaken: "has_snapshot dir F lsn st \<Longrightarrow> (F' \<Longrightarrow> F) \<Longrightarrow> has_snapshot dir F' lsn st"
  by (auto simp: has_snapshot_def)

lemma snapshot_path_inj: "a < 10 ^ 20 \<Longrightarrow> b < 10 ^ 20 \<Longrightarrow> snapshot_path dir a = snapshot_path dir b \<Longrightarrow> a = b"
  by (metis Pair_inject checkpointFileName_def option.inject parse_lsn_name snapshot_path_def)

section \<open>Temporary files\<close>

lemma ends_not_snapshot:
  assumes "ends_with TEMPORARY_SUFFIX name"
  shows "parse_lsn_name snapshot_suffix name = None"
proof (rule ccontr)
  assume "parse_lsn_name snapshot_suffix name \<noteq> None"
  then have n: "length name = 25" "drop 20 name = snapshot_suffix" by (auto simp: parse_lsn_name_def snapshot_suffix_def js_def split: if_splits)
  have "drop 16 name = TEMPORARY_SUFFIX" using assms n(1) by (simp add: ends_with_def TEMPORARY_SUFFIX_def js_def)
  moreover have "drop 20 name = drop 4 (drop 16 name)" by simp
  ultimately have "drop 4 TEMPORARY_SUFFIX = snapshot_suffix" using n(2) by simp
  then show False by (simp add: snapshot_suffix_def TEMPORARY_SUFFIX_def js_def of_char_def)
qed

lemma temporary_ends: "ends_with TEMPORARY_SUFFIX (temporary_name lsn)"
  by (simp add: ends_with_def temporary_name_def)

section \<open>Writing\<close>

text \<open>
  However writing a snapshot ends: either nothing but the temporary file was touched, or the whole
  snapshot was written, flushed and renamed.
\<close>

definition renamed :: "path \<Rightarrow> path \<Rightarrow> disk_file \<Rightarrow> 'z os_scheme \<Rightarrow> 'z os_scheme \<Rightarrow> bool" where
  "renamed t p f st st' \<longleftrightarrow> (\<exists>a b. touched {t} st a \<and> quiet a b \<and> outside {t, p} a b \<and> file_at p b = Some (f\<lparr>fi_linked := False\<rparr>) \<and>
     (\<exists>c. relinks b c \<and> touched {t} c st'))"

lemma renameSync_fails: "renameSync p q st = (Inl e, st') \<Longrightarrow> unchanged st st'"
proof -
  assume a: "renameSync p q st = (Inl e, st')"
  from a[unfolded renameSync_def] show ?thesis
    by (cases rule: syscall_run) (auto simp: bindS_def get_file_run modifyS_def intro: unchangedI split: option.splits)
qed

lemma touched_unchanged: "touched A st st1 \<Longrightarrow> unchanged st1 st2 \<Longrightarrow> touched A st st2"
  using unchanged_touched tch.related_trans by blast

lemma publish_run:
  assumes "catchS (bindS (closeSync fd) (\<lambda>_. bindS (onStage SnapshotWritten) (\<lambda>_. bindS (renameSync t p) (\<lambda>_. syncDirectory dir))))
      (\<lambda>e. bindS (unlinkQuietly t) (\<lambda>_. throwS e)) st = (r, st')"
    and "stage_harmless onStage" "file_at t st = Some f" "t \<noteq> p" "fst p = dir"
  shows "(\<exists>e. r = Inl e) \<and> touched {t} st st' \<or> renamed t p f st st' \<and> (r = Inr () \<longrightarrow> flushes_directories st \<longrightarrow> all_linked dir st')"
proof -
  obtain r1 s1 where c: "closeSync fd st = (r1, s1)" by fastforce
  obtain r2 s2 where o: "onStage SnapshotWritten s1 = (r2, s2)" by fastforce
  obtain r3 s3 where n: "renameSync t p s2 = (r3, s3)" by fastforce
  obtain r4 s4 where d: "syncDirectory dir s3 = (r4, s4)" by fastforce
  have cleanup: "touched {t} s s'" if "bindS (unlinkQuietly t) (\<lambda>_. throwS e) s = (q, s')" for s s' e and q :: "failure + unit"
    using that by (elim tch.keepsD[rotated]) (auto simp: unlinkQuietly_def intro!: touching tch.keeps_bind)
  have fails: "\<exists>e. q = Inl e" if "bindS (unlinkQuietly t) (\<lambda>_. throwS e) s = (q, s')" for s s' e and q :: "failure + unit"
    using that by (auto simp: bindS_def throwS_def split: prod.splits sum.splits)
  have u1: "unchanged st s1" using closeSync_run(1,2)[OF c] by (rule unchangedI)
  have u2: "unchanged st s2" using unchanged_trans[OF u1] assms(2) o by (simp add: stage_harmless_def)
  show ?thesis
  proof (cases "r1 = Inr () \<and> r2 = Inr () \<and> r3 = Inr ()")
    case False
    then obtain e s where e: "bindS (unlinkQuietly t) (\<lambda>_. throwS e) s = (r, st')" "unchanged st s"
      using assms(1) c o n u1 u2 unchanged_trans[OF u2 renameSync_fails]
      by (cases r1; cases r2; cases r3) (auto simp: catchS_def bindS_def)
    have "touched {t} st st'" using tch.related_trans[OF unchanged_touched[OF e(2)] cleanup[OF e(1)]] .
    then show ?thesis using fails[OF e(1)] by blast
  next
    case True
    have f2: "file_at t s2 = Some f" using assms(3) unchanged_file[OF u2] by simp
    note R = renameSync_run[OF _ f2 assms(4), of "()" s3]
    have R: "file_at p s3 = Some (f\<lparr>fi_linked := False\<rparr>)" "quiet s2 s3" "outside {t, p} s2 s3" using R n True by (auto simp: outside_def)
    note D = syncDirectory_run[OF d]
    have ren: "renamed t p f st s'" if "touched {t} s4 s'" for s'
      using unchanged_touched[OF u2] R D that unfolding renamed_def by blast
    show ?thesis
    proof (cases r4)
      case (Inl e)
      then have b: "bindS (unlinkQuietly t) (\<lambda>_. throwS e) s4 = (r, st')" using assms(1) c o n d True by (auto simp: catchS_def bindS_def)
      then show ?thesis using ren[OF cleanup[OF b]] fails[OF b] by auto
    next
      case (Inr u)
      then have r: "r = Inr ()" "st' = s4" using assms(1) c o n d True by (auto simp: catchS_def bindS_def)
      have "flushes_directories s3" if "flushes_directories st"
        using flushes_mono[OF quiet_trans[OF unchanged_quiet[OF u2] R(2)] that] .
      then show ?thesis using ren[OF tch.related_refl] r D Inr by auto
    qed
  qed
qed

lemma openSync_w_empty: "openSync_w p st = (Inr fd, st') \<Longrightarrow> \<exists>f. file_at p st' = Some f \<and> fi_data f = [] \<and> fi_synced f = 0"
  by (rule openSync_w_run(3))

lemma writeCheckpoint_cases:
  assumes "writeCheckpoint dir lsn cs onStage st = (r, st')" "stage_harmless onStage"
  defines "t \<equiv> (dir, temporary_name lsn)"
  obtains (untouched) e where "r = Inl e" "touched {t} st st'"
  | (published) content f where "snapshot_content lsn cs = Inr content" "fi_data f = snapshot_file content" "synced_file f"
      "renamed t (snapshot_path dir lsn) f st st'" "\<And>name. r = Inr name \<Longrightarrow> flushes_directories st \<Longrightarrow> all_linked dir st'"
proof -
  let ?p = "snapshot_path dir lsn"
  obtain r1 s1 where o: "openSync_w t st = (r1, s1)" by fastforce
  have t1: "touched {t} st s1" using o by (elim tch.keepsD[rotated]) (auto intro!: touching)
  show thesis
  proof (cases r1)
    case (Inl e)
    then have "r = Inl e" "st' = s1" using assms(1) o by (simp_all add: writeCheckpoint_def Let_def temporary_name_def[symmetric] t_def bindS_def)
    then show thesis using untouched t1 by blast
  next
    case (Inr fd)
    have fd: "fd = t" using openSync_w_path o Inr by blast
    obtain f1 where f1: "file_at t s1 = Some f1" "fi_data f1 = []" "fi_synced f1 = 0" using openSync_w_empty o Inr by blast
    obtain r2 s2 where w: "catchS (write_snapshot t lsn cs)
        (\<lambda>e. bindS (catchS (closeSync t) (\<lambda>_. returnS ())) (\<lambda>_. bindS (unlinkQuietly t) (\<lambda>_. throwS e))) s1 = (r2, s2)" by fastforce
    have "touched {t} s1 s2" using w by (elim tch.keepsD[rotated]) (auto simp: unlinkQuietly_def intro!: touching tch.keeps_bind)
    then have t2: "touched {t} st s2" using t1 tch.related_trans by blast
    show thesis
    proof (cases r2)
      case (Inl e)
      then have "r = Inl e" "st' = s2" using assms(1) o Inr w fd by (simp_all add: writeCheckpoint_def Let_def temporary_name_def[symmetric] t_def bindS_def)
      then show thesis using untouched t2 by blast
    next
      case (Inr u)
      then have "write_snapshot t lsn cs s1 = (Inr (), s2)" using w by (auto simp: catchS_def bindS_def throwS_def split: prod.splits sum.splits)
      from write_snapshot_run(2)[OF this f1] obtain content f where
        f: "snapshot_content lsn cs = Inr content" "file_at t s2 = Some f" "fi_data f = snapshot_file content" "synced_file f" by blast
      obtain r3 s3 where pb: "catchS (bindS (closeSync t) (\<lambda>_. bindS (onStage SnapshotWritten) (\<lambda>_. bindS (renameSync t ?p) (\<lambda>_. syncDirectory dir))))
          (\<lambda>e. bindS (unlinkQuietly t) (\<lambda>_. throwS e)) s2 = (r3, s3)" by fastforce
      have ne: "t \<noteq> ?p" "fst ?p = dir" using temporary_differs by (simp_all add: t_def snapshot_path_def)
      note P = publish_run[OF pb assms(2) f(2) ne]
      obtain r4 s4 where og: "onStage SnapshotRenamed s3 = (r4, s4)" by fastforce
      have u4: "unchanged s3 s4" using assms(2) og by (simp add: stage_harmless_def)
      have body: "(r, st') = (case r3 of Inl e \<Rightarrow> (Inl e, s3) | Inr _ \<Rightarrow> (case r4 of Inl e \<Rightarrow> Inl e | Inr _ \<Rightarrow> Inr (checkpointFileName lsn), s4))"
        using assms(1) o \<open>r1 = Inr fd\<close> w Inr fd pb og
        by (auto simp: writeCheckpoint_def Let_def temporary_name_def[symmetric] t_def snapshot_path_def bindS_def returnS_def split: sum.splits)
      have u: "unchanged s3 st'" using body u4 by (cases r3) auto
      have fl: "flushes_directories st \<Longrightarrow> flushes_directories s2" using flushes_mono t2 by (auto simp: touched_def)
      from P show thesis
      proof (elim disjE conjE exE)
        fix e
        assume "r3 = Inl e" "touched {t} s2 s3"
        then show thesis using untouched[of e] body tch.related_trans[OF t2] by simp
      next
        assume R: "renamed t ?p f s2 s3" "r3 = Inr () \<longrightarrow> flushes_directories s2 \<longrightarrow> all_linked dir s3"
        have "renamed t ?p f st st'"
          using R(1) tch.related_trans[OF t2] touched_unchanged[OF _ u] unfolding renamed_def by blast
        moreover have "all_linked dir st'" if "r = Inr name" "flushes_directories st" for name
          using R(2) body fl that unchanged_file[OF u4] by (cases r3) (auto simp: all_linked_def)
        ultimately show thesis using published f by blast
      qed
    qed
  qed
qed

lemma renamed_effect:
  assumes "renamed t p f st st'" "t \<noteq> p"
  shows "\<exists>g. file_at p st' = Some g \<and> fi_data g = fi_data f \<and> fi_synced g = fi_synced f"
    "\<And>q. q \<noteq> t \<Longrightarrow> q \<noteq> p \<Longrightarrow> (case file_at q st of None \<Rightarrow> file_at q st' = None | Some g \<Rightarrow> \<exists>g'. file_at q st' = Some g' \<and> relinked g g')"
proof -
  obtain a b c where r: "touched {t} st a" "outside {t, p} a b" "file_at p b = Some (f\<lparr>fi_linked := False\<rparr>)" "relinks b c" "touched {t} c st'"
    using assms(1) by (auto simp: renamed_def)
  have o: "outside {t} st a" "outside {t} c st'" using r(1,5) by (simp_all add: touched_def)
  show "\<exists>g. file_at p st' = Some g \<and> fi_data g = fi_data f \<and> fi_synced g = fi_synced f"
    using relinks_Some[OF r(4,3)] relinkedD(1,2) outsideD[OF o(2), of p] assms(2) by fastforce
  fix q
  assume q: "q \<noteq> t" "q \<noteq> p"
  have "file_at q b = file_at q st" "file_at q st' = file_at q c" using outsideD[OF o(1)] outsideD[OF r(2)] outsideD[OF o(2)] q by simp_all
  then show "case file_at q st of None \<Rightarrow> file_at q st' = None | Some g \<Rightarrow> \<exists>g'. file_at q st' = Some g' \<and> relinked g g'"
    using relinks_Some[OF r(4), of q] relinks_None[OF r(4), of q] by (cases "file_at q st") auto
qed

lemma temporary_not_snapshot: "parse_lsn_name snapshot_suffix (temporary_name lsn) = None"
  by (rule ends_not_snapshot[OF temporary_ends])

lemma snapshot_name_parse: "lsn < 10 ^ 20 \<Longrightarrow> parse_lsn_name snapshot_suffix (checkpointFileName lsn) = Some lsn"
  by (simp add: checkpointFileName_def parse_lsn_name)

lemma snapshot_not_temporary: "lsn < 10 ^ 20 \<Longrightarrow> snapshot_path dir lsn \<noteq> (dir, temporary_name lsn')"
  using temporary_not_snapshot[of lsn'] snapshot_name_parse[of lsn] by (auto simp: snapshot_path_def)

lemma writeCheckpoint_keeps:
  assumes "writeCheckpoint dir lsn cs onStage st = (r, st')" "stage_harmless onStage" "snapshots_ok G dir st"
    and "G lsn cs" "\<forall>c \<in> set cs. snapshot_ok c" "lsn < 10 ^ 20"
  shows "snapshots_ok G dir st'"
    "\<And>l F. l < 10 ^ 20 \<Longrightarrow> l \<noteq> lsn \<Longrightarrow> has_snapshot dir F l st \<Longrightarrow> has_snapshot dir F l st'"
    "\<And>name. r = Inr name \<Longrightarrow> has_snapshot dir False lsn st' \<and> (flushes_directories st \<longrightarrow> all_linked dir st')"
proof -
  let ?t = "(dir, temporary_name lsn)" and ?p = "snapshot_path dir lsn"
  have ne: "?t \<noteq> ?p" using snapshot_not_temporary[OF assms(6)] by metis
  have "snapshots_ok G dir st' \<and> (\<forall>l F. l < 10 ^ 20 \<longrightarrow> l \<noteq> lsn \<longrightarrow> has_snapshot dir F l st \<longrightarrow> has_snapshot dir F l st') \<and>
      (\<forall>name. r = Inr name \<longrightarrow> has_snapshot dir False lsn st' \<and> (flushes_directories st \<longrightarrow> all_linked dir st'))"
    using assms(1,2)
  proof (cases rule: writeCheckpoint_cases)
    case (untouched e)
    then have o: "outside {?t} st st'" by (simp add: touched_def)
    have "snapshots_ok G dir st'" using temporary_not_snapshot by (intro outside_snapshots[OF o _ assms(3)]) auto
    then show ?thesis using untouched(1) outside_has_snapshot[OF o, of dir] snapshot_not_temporary by auto
  next
    case (published content f)
    note E = renamed_effect[OF published(4) ne]
    obtain g where g: "file_at ?p st' = Some g" "fi_data g = snapshot_file content" "fi_synced g = fi_synced f" using E(1) published(2) by auto
    have "snapshots_ok G dir st'"
      unfolding snapshots_ok_def
    proof (intro allI impI)
      fix name h l
      assume h: "file_at (dir, name) st' = Some h" "parse_lsn_name snapshot_suffix name = Some l"
      show "synced_file h \<and> snapshot_data G l (fi_data h)"
      proof (cases "(dir, name) = ?p")
        case True
        then have "l = lsn" "h = g" using h g(1) snapshot_name_parse[OF assms(6)] by (auto simp: snapshot_path_def)
        then show ?thesis using g published(1,2,3) assms(4,5) by (auto simp: synced_file_def snapshot_data_def)
      next
        case False
        have "(dir, name) \<noteq> ?t" using h(2) temporary_not_snapshot by auto
        then obtain k where "file_at (dir, name) st = Some k" "relinked k h"
          using E(2)[OF _ False] h(1) by (auto split: option.splits)
        then show ?thesis using assms(3) h(2) relinkedD by (auto simp: snapshots_ok_def synced_file_def)
      qed
    qed
    moreover have "has_snapshot dir F l st'" if l: "l < 10 ^ 20" "l \<noteq> lsn" "has_snapshot dir F l st" for l F
    proof -
      have "snapshot_path dir l \<noteq> ?t" "snapshot_path dir l \<noteq> ?p"
        using snapshot_not_temporary[OF l(1)] snapshot_path_inj[OF l(1) assms(6)] l(2) by blast+
      moreover obtain h where "file_at (snapshot_path dir l) st = Some h" "F \<longrightarrow> fi_linked h" using l(3) by (auto simp: has_snapshot_def)
      ultimately obtain h' where "file_at (snapshot_path dir l) st' = Some h'" "relinked h h'" "F \<longrightarrow> fi_linked h" using E(2)[of "snapshot_path dir l"] by auto
      then show ?thesis using relinkedD(3) unfolding has_snapshot_def by blast
    qed
    ultimately show ?thesis using g(1) published(5) by (auto simp: has_snapshot_def)
  qed
  then show "snapshots_ok G dir st'"
    "\<And>l F. l < 10 ^ 20 \<Longrightarrow> l \<noteq> lsn \<Longrightarrow> has_snapshot dir F l st \<Longrightarrow> has_snapshot dir F l st'"
    "\<And>name. r = Inr name \<Longrightarrow> has_snapshot dir False lsn st' \<and> (flushes_directories st \<longrightarrow> all_linked dir st')" by blast+
qed

section \<open>Listing and removing\<close>

interpretation newest: comparator compare_newest "\<lambda>_. True"
  by unfold_locales (auto simp: compare_newest_def split: if_splits)

definition snapshot_listed :: "js_string \<Rightarrow> nat \<Rightarrow> checkpoint_file" where
  "snapshot_listed dir lsn = \<lparr>cf_lsn = lsn, cf_file = checkpointFileName lsn, cf_path = snapshot_path dir lsn\<rparr>"

lemma snapshot_listed_simps [simp]: "cf_lsn (snapshot_listed dir l) = l" "cf_path (snapshot_listed dir l) = snapshot_path dir l"
  by (simp_all add: snapshot_listed_def)

lemma sorted_distinct_strict: "sorted_wrt (\<ge>) xs \<Longrightarrow> distinct xs \<Longrightarrow> sorted_wrt (>) xs" for xs :: "'a :: linorder list"
  by (induction xs) (auto simp: order.strict_iff_order)

lemma listCheckpoints_run:
  assumes "listCheckpoints dir st = (r, st')" "distinct (map fst (os_files st))"
  shows "unchanged st st'" "(\<exists>e. r = Inl e \<and> os_faults st \<noteq> []) \<or> (\<exists>ls. r = Inr (map (snapshot_listed dir) ls) \<and> sorted_wrt (>) ls \<and>
    (\<forall>l. l \<in> set ls \<longleftrightarrow> l < 10 ^ 20 \<and> has_snapshot dir False l st))"
proof -
  obtain r1 st1 where d: "readdirSync dir st = (r1, st1)" by fastforce
  note R = readdirSync_run[OF d assms(2)]
  have "st' = st1" using assms(1) d by (cases r1) (simp_all add: listCheckpoints_def bindS_def returnS_def)
  then show "unchanged st st'" using R(1,2) unchangedI by blast
  show "(\<exists>e. r = Inl e \<and> os_faults st \<noteq> []) \<or> (\<exists>ls. r = Inr (map (snapshot_listed dir) ls) \<and> sorted_wrt (>) ls \<and>
    (\<forall>l. l \<in> set ls \<longleftrightarrow> l < 10 ^ 20 \<and> has_snapshot dir False l st))"
  proof (cases r1)
    case (Inl e)
    then show ?thesis using assms(1) d R(3) by (auto simp: listCheckpoints_def bindS_def)
  next
    case (Inr names)
    let ?lsn = "\<lambda>name. the (parse_lsn_name snapshot_suffix name)"
    let ?entry = "\<lambda>name. \<lparr>cf_lsn = ?lsn name, cf_file = name, cf_path = (dir, name)\<rparr>"
    let ?ns = "filter (\<lambda>name. parse_lsn_name snapshot_suffix name \<noteq> None) names"
    let ?xs = "sort_by compare_newest (map ?entry ?ns)"
    let ?ls = "map cf_lsn ?xs"
    have n: "distinct names" "\<And>x. x \<in> set names \<longleftrightarrow> file_at (dir, x) st \<noteq> None" using R(3) Inr by auto
    have r: "r = Inr ?xs" using assms(1) d Inr by (simp add: listCheckpoints_def bindS_def returnS_def)
    have name: "name = checkpointFileName (?lsn name)" "?lsn name < 10 ^ 20" if "name \<in> set ?ns" for name
      using that parse_lsn_name_Some[of snapshot_suffix name "?lsn name"] unfolding checkpointFileName_def by auto
    have "snapshot_listed dir (cf_lsn x) = x" if x: "x \<in> set ?xs" for x
    proof -
      obtain name where "name \<in> set ?ns" "x = ?entry name" using x by auto
      then show ?thesis using name(1)[of name] by (simp add: snapshot_listed_def snapshot_path_def)
    qed
    then have A: "map (snapshot_listed dir) ?ls = ?xs" unfolding map_map comp_def by (rule map_idI)
    have "distinct ?ls"
    proof -
      have "inj_on ?lsn (set ?ns)" 
      proof (rule inj_onI)
        fix a b
        assume n: "a \<in> set ?ns" "b \<in> set ?ns" "?lsn a = ?lsn b"
        have "a = checkpointFileName (?lsn a)" by (rule name(1)[OF n(1)])
        also have "\<dots> = checkpointFileName (?lsn b)" by (simp only: n(3))
        also have "\<dots> = b" by (rule name(1)[OF n(2), symmetric])
        finally show "a = b" .
      qed
      then have "distinct (map ?lsn ?ns)" using n(1) distinct_filter by (simp add: distinct_map)
      moreover have "mset ?ls = mset (map ?lsn ?ns)" by (simp add: image_mset.compositionality comp_def)
      then have "distinct ?ls = distinct (map ?lsn ?ns)" by (rule mset_eq_imp_distinct_iff)
      ultimately show ?thesis by (simp only:)
    qed
    then have B: "sorted_wrt (>) ?ls"
    proof -
      have "sorted_wrt (\<lambda>a b. cf_lsn b \<le> cf_lsn a) ?xs"
        using newest.sorted_sort_by[of "map ?entry ?ns"] by (auto simp: compare_newest_def elim!: sorted_wrt_mono_rel[rotated] split: if_splits)
      then have "sorted_wrt (\<ge>) ?ls" by (simp add: sorted_wrt_map)
      then show ?thesis using \<open>distinct ?ls\<close> by (rule sorted_distinct_strict)
    qed
    have C: "l \<in> set ?ls \<longleftrightarrow> l < 10 ^ 20 \<and> has_snapshot dir False l st" for l
    proof
      assume "l \<in> set ?ls"
      then have "l \<in> ?lsn ` set ?ns" by (simp add: image_image)
      then obtain name where m: "name \<in> set ?ns" "l = ?lsn name" by blast
      then show "l < 10 ^ 20 \<and> has_snapshot dir False l st" using name[OF m(1)] n(2)[of name] unfolding has_snapshot_def snapshot_path_def by auto
    next
      assume l: "l < 10 ^ 20 \<and> has_snapshot dir False l st"
      then have p: "parse_lsn_name snapshot_suffix (checkpointFileName l) = Some l" using snapshot_name_parse by blast
      then have "checkpointFileName l \<in> set ?ns" using l n(2) by (auto simp: has_snapshot_def snapshot_path_def)
      then have "?lsn (checkpointFileName l) \<in> ?lsn ` set ?ns" by (rule imageI)
      then show "l \<in> set ?ls" using p by (simp add: image_image)
    qed
    show ?thesis by (rule disjI2, rule exI[of _ ?ls], intro conjI allI) (simp only: r A, rule B, rule C)
  qed
qed

text \<open>Removing snapshots removes those that are given, or the first of them.\<close>

lemma unlinkSync_cases:
  assumes "unlinkSync p st = (r, st')"
  shows "quiet st st' \<and> outside {p} st st' \<and> (r = Inr () \<and> file_at p st' = None \<or> (\<exists>e. r = Inl e) \<and> file_at p st' = file_at p st)"
proof (cases "file_at p st")
  case None
  from assms[unfolded unlinkSync_def] show ?thesis
    by (cases rule: syscall_run) (use None in \<open>auto simp: bindS_def get_file_run only_changes_def outside_def\<close>)
next
  case (Some f)
  then have "file_at p st \<noteq> None" by simp
  with assms show ?thesis
    by (cases rule: unlinkSync_run) (auto simp: only_changes_def outside_def)
qed

lemma remove_snapshots_run:
  assumes "remove_snapshots (map (snapshot_listed dir) ls) w = (r, w')" "snapshots_ok G dir w"
  shows "touched (snapshot_path dir ` set ls) w w'" "snapshots_ok G dir w'"
proof -
  have "touched (snapshot_path dir ` set ls) w w' \<and> snapshots_ok G dir w'"
    using assms
  proof (induction ls arbitrary: w r w')
    case Nil
    then show ?case by (simp add: returnS_def tch.related_refl)
  next
    case (Cons l ls)
    let ?p = "snapshot_path dir l"
    obtain r1 w1 where u: "unlinkSync ?p w = (r1, w1)" by fastforce
    note U = unlinkSync_cases[OF u]
    have ok: "snapshots_ok G dir w1"
    proof (rule snapshots_ok_files[OF Cons.prems(2)])
      fix name f lsn
      assume f: "file_at (dir, name) w1 = Some f"
      then have "file_at (dir, name) w = Some f" using U outsideD[of "{?p}" w w1 "(dir, name)"] by (cases "(dir, name) = ?p") auto
      then show "\<exists>g. file_at (dir, name) w = Some g \<and> fi_data f = fi_data g \<and> fi_synced f = fi_synced g" by blast
    qed
    have t: "touched (snapshot_path dir ` set (l # ls)) w w1" using U by (auto simp: touched_def outside_def)
    show ?case
    proof (cases r1)
      case (Inl e)
      then have "w' = w1" using Cons.prems(1) u by (simp add: bindS_def catchS_def throwS_def)
      then show ?thesis using t ok by simp
    next
      case (Inr x)
      obtain r2 w2 where v: "remove_snapshots (map (snapshot_listed dir) ls) w1 = (r2, w2)" by fastforce
      have "w' = w2" using Cons.prems(1) u Inr v by (cases r2) (simp_all add: bindS_def catchS_def returnS_def)
      moreover have "touched (snapshot_path dir ` set ls) w1 w2 \<and> snapshots_ok G dir w2" using Cons.IH[OF v ok] .
      ultimately show ?thesis using t tch.related_trans[OF t] by (auto simp: touched_def outside_def)
    qed
  qed
  then show "touched (snapshot_path dir ` set ls) w w'" "snapshots_ok G dir w'" by blast+
qed

text \<open>Removing what interrupted writers left.\<close>

lemma remove_temporary_run:
  assumes "remove_temporary dir names st = (r, st')" "set names \<subseteq> {n. file_at (dir, n) st \<noteq> None}" "distinct names"
  shows "touched {p. fst p = dir \<and> ends_with TEMPORARY_SUFFIX (snd p)} st st'" "os_faults st = [] \<Longrightarrow> \<exists>n. r = Inr n"
proof -
  let ?A = "{p. fst p = dir \<and> ends_with TEMPORARY_SUFFIX (snd p)}"
  have "touched ?A st st' \<and> (os_faults st = [] \<longrightarrow> (\<exists>n. r = Inr n))"
    using assms
  proof (induction names arbitrary: st r st')
    case Nil
    then show ?case by (auto simp: returnS_def tch.related_refl)
  next
    case (Cons name names)
    show ?case
    proof (cases "ends_with TEMPORARY_SUFFIX name")
      case False
      then show ?thesis using Cons by simp
    next
      case True
      obtain r1 st1 where u: "unlinkSync (dir, name) st = (r1, st1)" by fastforce
      note U = unlinkSync_cases[OF u]
      have t: "touched ?A st st1" using U True by (auto simp: touched_def outside_def)
      have f: "os_faults st = [] \<longrightarrow> r1 = Inr () \<and> os_faults st1 = []"
      proof -
        have "file_at (dir, name) st \<noteq> None" using Cons.prems(2) by simp
        with u show ?thesis using quiet_faults[of st st1] U by (cases rule: unlinkSync_run) auto
      qed
      show ?thesis
      proof (cases r1)
        case (Inl e)
        then show ?thesis using Cons.prems(1) u True t f by (auto simp: bindS_def)
      next
        case (Inr x)
        obtain r2 st2 where v: "remove_temporary dir names st1 = (r2, st2)" by fastforce
        have "set names \<subseteq> {n. file_at (dir, n) st1 \<noteq> None}" 
        proof
          fix x
          assume x: "x \<in> set names"
          then have "file_at (dir, x) st1 = file_at (dir, x) st" using Cons.prems(3) U by (intro outsideD[of "{(dir, name)}"]) auto
          then show "x \<in> {n. file_at (dir, n) st1 \<noteq> None}" using Cons.prems(2) x by auto
        qed
        then have IH: "touched ?A st1 st2 \<and> (os_faults st1 = [] \<longrightarrow> (\<exists>n. r2 = Inr n))" using Cons.IH[OF v] Cons.prems(3) by auto
        moreover have "(r, st') = (case r2 of Inl e \<Rightarrow> (Inl e, st2) | Inr n \<Rightarrow> (Inr (n + 1), st2))"
          using Cons.prems(1) u True Inr v by (cases r2) (auto simp: bindS_def returnS_def)
        then have "st' = st2" "\<And>n. r2 = Inr n \<Longrightarrow> r = Inr (n + 1)" by (cases r2; simp)+
        ultimately show ?thesis using tch.related_trans[OF t] f by auto
      qed
    qed
  qed
  then show "touched ?A st st'" "os_faults st = [] \<Longrightarrow> \<exists>n. r = Inr n" by blast+
qed

lemma removeTemporary_run:
  assumes "removeTemporaryCheckpoints dir st = (r, st')" "distinct (map fst (os_files st))"
  shows "touched (files_of dir) st st'" "snapshots_ok G dir st \<Longrightarrow> snapshots_ok G dir st'" "l < 10 ^ 20 \<Longrightarrow> has_snapshot dir F l st \<Longrightarrow> has_snapshot dir F l st'"
    "os_faults st = [] \<Longrightarrow> \<exists>n. r = Inr n"
proof -
  show "touched (files_of dir) st st'" using tch.keepsD[OF touches_removeTemporary assms(1)] .
  obtain r1 s1 where d: "readdirSync dir st = (r1, s1)" by fastforce
  note R = readdirSync_run[OF d assms(2)]
  have u1: "unchanged st s1" using R(1,2) unchangedI by blast
  have "\<exists>s2. outside {p. fst p = dir \<and> ends_with TEMPORARY_SUFFIX (snd p)} st s2 \<and> relinks s2 st' \<and> (os_faults st = [] \<longrightarrow> (\<exists>n. r = Inr n))"
  proof (cases r1)
    case (Inl e)
    then have "st' = s1" "os_faults st \<noteq> []" using assms(1) d R(3) by (auto simp: removeTemporaryCheckpoints_def bindS_def)
    then show ?thesis using u1 by (intro exI[of _ s1]) (auto simp: outside_def unchanged_file)
  next
    case (Inr names)
    obtain r2 s2 where t: "remove_temporary dir names s1 = (r2, s2)" by fastforce
    have n: "set names \<subseteq> {n. file_at (dir, n) s1 \<noteq> None}" "distinct names" using R Inr unchanged_file[OF u1] by auto
    note T = remove_temporary_run[OF t n]
    have o: "outside {p. fst p = dir \<and> ends_with TEMPORARY_SUFFIX (snd p)} st s2" using T(1) unchanged_file[OF u1] by (simp add: touched_def outside_def)
    have f: "os_faults st = [] \<Longrightarrow> os_faults s2 = [] \<and> (\<exists>n. r2 = Inr n)"
      using quiet_faults[OF unchanged_quiet[OF u1]] T quiet_faults[of s1 s2] by (auto simp: touched_def)
    show ?thesis
    proof (cases r2)
      case (Inl e)
      then have "st' = s2" using assms(1) d Inr t by (auto simp: removeTemporaryCheckpoints_def bindS_def)
      then show ?thesis using o f Inl by auto
    next
      case (Inr n)
      obtain r3 s3 where sy: "syncDirectory dir s2 = (r3, s3)" by fastforce
      note S = syncDirectory_run[OF sy]
      have "(r, st') = (if n > 0 then (case r3 of Inl e \<Rightarrow> (Inl e, s3) | Inr _ \<Rightarrow> (Inr n, s3)) else (Inr n, s2))"
        using assms(1)[unfolded removeTemporaryCheckpoints_def] d \<open>r1 = Inr names\<close> t Inr sy
        by (cases "n > 0"; cases r3) (simp_all add: bindS_def returnS_def)
      then have "relinks s2 st'" "os_faults st = [] \<longrightarrow> (\<exists>n. r = Inr n)" using f S by (cases r3; auto split: if_splits)+
      then show ?thesis using o by blast
    qed
  qed
  then obtain s2 where s2: "outside {p. fst p = dir \<and> ends_with TEMPORARY_SUFFIX (snd p)} st s2" "relinks s2 st'" "os_faults st = [] \<longrightarrow> (\<exists>n. r = Inr n)" by blast
  show "snapshots_ok G dir st'" if "snapshots_ok G dir st"
  proof (rule relinks_snapshots(1)[OF s2(2) outside_snapshots[OF s2(1) _ that]])
    fix name lsn
    assume "(dir, name) \<in> {p. fst p = dir \<and> ends_with TEMPORARY_SUFFIX (snd p)}" "parse_lsn_name snapshot_suffix name = Some lsn"
    then show "file_at (dir, name) s2 = None" using ends_not_snapshot[of name] by simp
  qed
  show "has_snapshot dir F l st'" if "l < 10 ^ 20" "has_snapshot dir F l st"
  proof -
    have "\<not> ends_with TEMPORARY_SUFFIX (checkpointFileName l)" using snapshot_name_parse[OF that(1)] ends_not_snapshot by force
    then have "snapshot_path dir l \<notin> {p. fst p = dir \<and> ends_with TEMPORARY_SUFFIX (snd p)}" by (simp add: snapshot_path_def)
    from outside_has_snapshot[OF s2(1) this, of F] show ?thesis using relinks_snapshots(2)[OF s2(2)] that(2) by blast
  qed
  show "os_faults st = [] \<Longrightarrow> \<exists>n. r = Inr n" using s2(3) by blast
qed

section \<open>Reading\<close>

lemma readCheckpoint_run:
  assumes "readCheckpoint (snapshot_path dir l) st = (r, st')" "snapshots_ok G dir st" "l < 10 ^ 20" "has_snapshot dir False l st"
  shows "unchanged st st'" "(\<exists>e. r = Inl e \<and> os_faults st \<noteq> []) \<or> (\<exists>cs. r = Inr \<lparr>ck_lsn = l, ck_collections = map recovered_of cs\<rparr> \<and> G l cs)"
proof -
  obtain f where f: "file_at (snapshot_path dir l) st = Some f" using assms(4) by (auto simp: has_snapshot_def)
  obtain cs content where c: "G l cs" "\<forall>c \<in> set cs. snapshot_ok c" "snapshot_content l cs = Inr content" "fi_data f = snapshot_file content"
    using snapshots_okD(2)[OF assms(2) f assms(3)] by (auto simp: snapshot_data_def)
  obtain r1 st1 where rd: "readFileSync (snapshot_path dir l) st = (r1, st1)" by fastforce
  note R = readFileSync_run[OF rd f]
  have "st' = st1" using assms(1) rd by (cases r1) (simp_all add: readCheckpoint_def bindS_def fromR_def)
  then show "unchanged st st'" using R(1,2) unchangedI by blast
  show "(\<exists>e. r = Inl e \<and> os_faults st \<noteq> []) \<or> (\<exists>cs. r = Inr \<lparr>ck_lsn = l, ck_collections = map recovered_of cs\<rparr> \<and> G l cs)"
    using R(3) assms(1) rd parse_snapshot_content[OF c(3,2)] c(1,4)
    by (auto simp: readCheckpoint_def bindS_def fromR_def)
qed

definition base_ok :: "(nat \<Rightarrow> checkpoint_collection list \<Rightarrow> bool) \<Rightarrow> nat set \<Rightarrow> (read_checkpoint \<times> js_string) option \<Rightarrow> bool" where
  "base_ok G L base \<longleftrightarrow> (case base of None \<Rightarrow> True
     | Some (b, _) \<Rightarrow> \<exists>l \<in> L. \<exists>cs. b = \<lparr>ck_lsn = l, ck_collections = map recovered_of cs\<rparr> \<and> G l cs)"

lemma choose_base_run:
  assumes "choose_base (map (snapshot_listed dir) ls) skipped w = (r, w')" "snapshots_ok G dir w"
    and "\<forall>l \<in> set ls. l < 10 ^ 20 \<and> has_snapshot dir False l w"
  shows "unchanged w w' \<and> (\<exists>base sk. r = Inr (base, sk) \<and> base_ok G (set ls) base \<and>
    (os_faults w = [] \<longrightarrow> ls \<noteq> [] \<longrightarrow> (\<exists>b file. base = Some (b, file) \<and> ck_lsn b = hd ls)))"
  using assms
proof (induction ls arbitrary: w skipped)
  case Nil
  then show ?case by (auto simp: base_ok_def)
next
  case (Cons l ls)
  have l: "l < 10 ^ 20" "has_snapshot dir False l w" using Cons.prems(3) by simp_all
  obtain r1 w1 where rd: "readCheckpoint (snapshot_path dir l) w = (r1, w1)" by fastforce
  note R = readCheckpoint_run[OF rd Cons.prems(2) l]
  from R(2) show ?case
  proof (elim disjE exE conjE)
    fix cs
    assume "r1 = Inr \<lparr>ck_lsn = l, ck_collections = map recovered_of cs\<rparr>" "G l cs"
    then show ?thesis using Cons.prems(1) rd R(1) by (auto simp: bindS_def returnS_def base_ok_def)
  next
    fix e
    assume e: "r1 = Inl e" "os_faults w \<noteq> []"
    then have n: "choose_base (map (snapshot_listed dir) ls) (skipped @ [cf_file (snapshot_listed dir l)]) w1 = (r, w')"
      using Cons.prems(1) rd by (simp add: bindS_def)
    have ok: "snapshots_ok G dir w1" "has_snapshot dir False x w1 = has_snapshot dir False x w" for x
      using R(1) Cons.prems(2) unchanged_file[OF R(1)] by (simp_all add: snapshots_ok_def has_snapshot_def)
    have "unchanged w1 w' \<and> (\<exists>base sk. r = Inr (base, sk) \<and> base_ok G (set ls) base \<and>
      (os_faults w1 = [] \<longrightarrow> ls \<noteq> [] \<longrightarrow> (\<exists>b file. base = Some (b, file) \<and> ck_lsn b = hd ls)))"
      using Cons.prems(3) ok by (intro Cons.IH[OF n]) simp_all
    then obtain base sk where b: "unchanged w1 w'" "r = Inr (base, sk)" "base_ok G (set ls) base" by blast
    moreover have "base_ok G (set (l # ls)) base" using b(3) by (auto simp: base_ok_def split: option.splits)
    ultimately show ?thesis using unchanged_trans[OF R(1) b(1)] e(2) by blast
  qed
qed

section \<open>Crashes\<close>

lemma power_loss_file: "power_loss st st' \<Longrightarrow> file_at p st' = Some f' \<Longrightarrow> \<exists>f. file_at p st = Some f \<and> survives f f'"
  unfolding power_loss_def by (drule conjunct2, drule spec[of _ p]) (auto split: option.splits)

lemma power_loss_kept: "power_loss st st' \<Longrightarrow> file_at p st = Some f \<Longrightarrow> fi_linked f \<Longrightarrow> \<exists>f'. file_at p st' = Some f' \<and> survives f f'"
  unfolding power_loss_def by (drule conjunct2, drule spec[of _ p]) (auto split: option.splits)

lemma crash_snapshots:
  assumes "log_crash w st"
  shows "snapshots_ok G dir w \<Longrightarrow> snapshots_ok G dir st" "has_snapshot dir (wl_mode w = Flushed) l w \<Longrightarrow> has_snapshot dir (wl_mode w = Flushed) l st"
proof -
  show "snapshots_ok G dir st" if ok: "snapshots_ok G dir w"
  proof (cases "wl_mode w = Flushed")
    case True
    then have p: "power_loss w st" using assms by (simp add: log_crash_def)
    show ?thesis
    proof (rule snapshots_ok_files[OF ok])
      fix name f lsn
      assume f: "file_at (dir, name) st = Some f" "parse_lsn_name snapshot_suffix name = Some lsn"
      then obtain g where g: "file_at (dir, name) w = Some g" "survives g f" using power_loss_file[OF p] by blast
      then have "fi_synced g = length (fi_data g)" using ok f(2) by (auto simp: snapshots_ok_def synced_file_def)
      then show "\<exists>g. file_at (dir, name) w = Some g \<and> fi_data f = fi_data g \<and> fi_synced f = fi_synced g"
        using g by (auto simp: survives_def)
    qed
  next
    case False
    then show ?thesis using assms ok by (simp add: log_crash_def same_files_def snapshots_ok_def)
  qed
  show "has_snapshot dir (wl_mode w = Flushed) l st" if h: "has_snapshot dir (wl_mode w = Flushed) l w"
  proof (cases "wl_mode w = Flushed")
    case True
    then have p: "power_loss w st" using assms by (simp add: log_crash_def)
    obtain f where f: "file_at (snapshot_path dir l) w = Some f" "fi_linked f" using h True by (auto simp: has_snapshot_def)
    from power_loss_kept[OF p f] show ?thesis by (auto simp: has_snapshot_def survives_def)
  next
    case False
    then show ?thesis using assms h by (cases "snapshot_path dir l") (auto simp: log_crash_def same_files_def has_snapshot_def)
  qed
qed

end
