(* ===== verification/Engine_Store.thy ===== *)
theory Engine_Store
  imports Engine_State Snapshot_Store
begin

text \<open>
  What the engine has on disk. The log and the snapshots belong to the states the engine has gone
  through: the list \<open>S\<close> holds the contents after each record of the log, from the empty contents
  on, whether or not the record is still in the log. Every record leads from one state to the next,
  every snapshot holds the state at its number, and what the log no longer has is covered by a
  snapshot that a crash does not take.
\<close>

section \<open>Records and states\<close>

definition logs :: "log_operation list \<Rightarrow> log_entry \<Rightarrow> bool" where
  "logs ops x \<longleftrightarrow> fst x = RecordTransaction \<and> encodeOperations ops = Inr (snd x) \<and> (\<forall>op \<in> set ops. log_operation_ok op)"

definition leads :: "recovered_state catalog \<Rightarrow> log_entry \<Rightarrow> recovered_state catalog \<Rightarrow> bool" where
  "leads m x m' \<longleftrightarrow> (\<exists>ops. logs ops x \<and> apply_all ops m = Inr m') \<and> entries_all state_good m'"

text \<open>The states from the empty contents on, and the records \<open>es\<close>, the first of which has the number \<open>n0\<close>.\<close>

definition chain :: "recovered_state catalog list \<Rightarrow> nat \<Rightarrow> log_entry list \<Rightarrow> bool" where
  "chain S n0 es \<longleftrightarrow> 0 < n0 \<and> length S = n0 + length es \<and> hd S = [] \<and> (\<forall>m \<in> set S. entries_all state_good m) \<and>
     (\<forall>i < length es. leads (S ! (n0 + i - 1)) (es ! i) (S ! (n0 + i)))"

lemma chain_start: "chain [[]] 1 []"
  by (simp add: chain_def)

lemma chain_nonempty: "chain S n0 es \<Longrightarrow> S \<noteq> []"
  by (auto simp: chain_def)

lemma chain_snoc:
  assumes "chain S n0 es" "leads (last S) x m"
  shows "chain (S @ [m]) n0 (es @ [x])"
proof -
  have S: "S \<noteq> []" "length S = n0 + length es" "0 < n0" using assms(1) by (auto simp: chain_def)
  have "leads ((S @ [m]) ! (n0 + i - 1)) ((es @ [x]) ! i) ((S @ [m]) ! (n0 + i))" if "i < length (es @ [x])" for i
  proof (cases "i < length es")
    case True
    then have "leads (S ! (n0 + i - 1)) (es ! i) (S ! (n0 + i))" using assms(1) by (simp add: chain_def)
    moreover have "n0 + i - 1 < length S" "n0 + i < length S" using True S by simp_all
    ultimately show ?thesis using True by (simp add: nth_append)
  next
    case False
    then have i: "i = length es" using that by simp
    then have "S ! (n0 + i - 1) = last S" using S by (simp add: last_conv_nth)
    then show ?thesis using assms(2) S i by (simp add: nth_append)
  qed
  moreover have "entries_all state_good m" using assms(2) by (simp add: leads_def)
  ultimately show ?thesis using assms(1) S by (simp add: chain_def)
qed

lemma chain_drop:
  assumes "chain S n0 es" "k \<le> length es"
  shows "chain S (n0 + k) (drop k es)"
proof -
  have "leads (S ! (n0 + k + i - 1)) (drop k es ! i) (S ! (n0 + k + i))" if "i < length (drop k es)" for i
  proof -
    have "k + i < length es" using that by simp
    then have "leads (S ! (n0 + (k + i) - 1)) (es ! (k + i)) (S ! (n0 + (k + i)))" using assms unfolding chain_def by blast
    then show ?thesis using assms(2) by (simp add: add.assoc)
  qed
  then show ?thesis using assms by (simp add: chain_def)
qed

lemma chain_take:
  assumes "chain S n0 es" "k \<le> length es"
  shows "chain (take (n0 + k) S) n0 (take k es)"
proof -
  have "0 < n0" "length S = n0 + length es" using assms(1) by (simp_all add: chain_def)
  then show ?thesis using assms by (auto simp: chain_def dest: in_set_takeD)
qed

text \<open>Replaying the records of a log.\<close>

lemma logs_decode: "logs ops x \<Longrightarrow> decodeOperations (snd x) = Inr ops"
  using decode_encode_operations by (auto simp: logs_def)

lemma replay_records_run:
  assumes "chain S n0 es"
  shows "\<exists>n. replay_records (numbered n0 es) (S ! (n0 - 1)) E = (Inr (last S), E\<lparr>en_bytesSinceCheckpoint := n\<rparr>)"
  using assms
proof (induction es arbitrary: n0 E)
  case Nil
  then have "S ! (n0 - 1) = last S" by (auto simp: chain_def last_conv_nth)
  then show ?case by (intro exI[of _ "en_bytesSinceCheckpoint E"]) (simp add: returnS_def)
next
  case (Cons x es)
  have "leads (S ! (n0 - 1)) x (S ! n0)" using Cons.prems unfolding chain_def by (metis add.right_neutral length_greater_0_conv list.distinct(1) nth_Cons_0)
  then obtain ops where ops: "logs ops x" "apply_all ops (S ! (n0 - 1)) = Inr (S ! n0)" by (auto simp: leads_def)
  obtain t p where x: "x = (t, p)" by fastforce
  have t: "t = RecordTransaction" "decodeOperations p = Inr ops" using ops(1) logs_decode[OF ops(1)] x by (simp_all add: logs_def)
  let ?E = "E\<lparr>en_bytesSinceCheckpoint := en_bytesSinceCheckpoint E + (RECORD_HEADER_SIZE + length p)\<rparr>"
  have "chain S (n0 + 1) es" using chain_drop[OF Cons.prems, of 1] by simp
  from Cons.IH[OF this, of ?E] obtain n where
    "replay_records (numbered (n0 + 1) es) (S ! n0) ?E = (Inr (last S), E\<lparr>en_bytesSinceCheckpoint := n\<rparr>)" by auto
  then show ?case using t ops(2) x by (intro exI[of _ n]) (simp add: bindS_def modifyS_def fromR_def)
qed

section \<open>The invariant of the disk\<close>

definition faithful :: "recovered_state catalog list \<Rightarrow> nat \<Rightarrow> nat \<Rightarrow> checkpoint_collection list \<Rightarrow> bool" where
  "faithful S D lsn cs \<longleftrightarrow> 0 < lsn \<and> lsn < D \<and> recovered_catalog (map recovered_of cs) = S ! lsn"

text \<open>
  What the log no longer has is in a snapshot older than the last durable record, so that no later
  snapshot replaces its file.
\<close>

definition covered :: "nat \<Rightarrow> nat \<Rightarrow> js_string \<Rightarrow> wal \<Rightarrow> bool" where
  "covered n0 D dir w \<longleftrightarrow> n0 = 1 \<or> (\<exists>l. n0 \<le> l + 1 \<and> l + 1 < D \<and> has_snapshot dir (wl_mode w = Flushed) l w)"

definition store_inv :: "log_entry set \<Rightarrow> wal_options \<Rightarrow> js_string \<Rightarrow> wal \<Rightarrow> recovered_state catalog list \<Rightarrow> nat \<Rightarrow> bool" where
  "store_inv X options dir w S D \<longleftrightarrow> (\<exists>n0 es. log_holds X options w n0 es D \<and> chain S n0 es \<and> in_dir (wo_directory options) w \<and>
     dir \<noteq> wo_directory options \<and> snapshots_ok (faithful S D) dir w \<and> covered n0 D dir w)"

lemma faithful_mono: "faithful S D lsn cs \<Longrightarrow> D \<le> D' \<Longrightarrow> faithful S D' lsn cs"
  by (simp add: faithful_def)

lemma covered_mono: "covered n0 D dir w \<Longrightarrow> D \<le> D' \<Longrightarrow> covered n0 D' dir w"
  unfolding covered_def by (meson less_le_trans)

lemma log_inv_lsn: "log_inv X w n0 gs xs D \<Longrightarrow> 0 < n0 \<and> D \<le> n0 + length (concat gs @ xs) \<and> n0 + length (concat gs @ xs) \<le> 2 ^ 64"
  by (auto simp: log_inv_def disk_log_def log_ok_def stable_below_def log_end_def Let_def)

lemma holds_lsn: "log_holds X options w n0 es D \<Longrightarrow> 0 < n0 \<and> D \<le> n0 + length es \<and> n0 + length es \<le> 2 ^ 64"
  using log_inv_lsn by (fastforce simp: log_holds_def)

lemma holds_mode: "log_holds X options w n0 es D \<Longrightarrow> wl_mode w = option_mode options \<and> wl_directory w = wo_directory options"
  by (auto simp: log_holds_def opened_with_def)

lemma small_lsn: "x \<le> 2 ^ 64 \<Longrightarrow> x < 10 ^ 20" for x :: nat
proof -
  assume "x \<le> 2 ^ 64"
  moreover have "(2 :: nat) ^ 64 < 10 ^ 20" by simp
  ultimately show ?thesis by (rule le_less_trans)
qed

text \<open>An operation on the log.\<close>

lemma store_log_step:
  assumes "log_holds X options w n0 es D" "chain S n0 es" "in_dir (wo_directory options) w" "dir \<noteq> wo_directory options"
    and "snapshots_ok (faithful S D) dir w" "covered n0 D dir w"
    and "keeps (stayed (wo_directory options)) m" "m w = (r, w')"
    and "log_holds X' options w' n1 es' D'" "chain S' n1 es'" "D \<le> D'" "\<And>l. l < D \<Longrightarrow> S' ! l = S ! l"
    and "n1 = n0 \<or> covered n1 D' dir w'"
  shows "store_inv X' options dir w' S' D'"
proof -
  have st: "in_dir (wo_directory options) w'" "outside (files_of (wo_directory options)) w w'"
    using sty.keepsD[OF assms(7,8)] assms(3) by (simp_all add: stayed_def)
  have mode: "wl_mode w' = wl_mode w" using holds_mode[OF assms(1)] holds_mode[OF assms(9)] by simp
  have "snapshots_ok (faithful S D) dir w'" using assms(4) by (intro outside_snapshots[OF st(2) _ assms(5)]) auto
  then have "snapshots_ok (faithful S' D') dir w'" by (rule snapshots_ok_mono) (use assms(11,12) in \<open>auto simp: faithful_def\<close>)
  moreover have "covered n1 D' dir w'"
  proof (cases "n1 = n0")
    case True
    have "has_snapshot dir F l w' = has_snapshot dir F l w" for F l
      using outside_has_snapshot[OF st(2)] assms(4) by (simp add: snapshot_path_def)
    then have "covered n0 D dir w'" using assms(6) mode by (simp add: covered_def)
    then show ?thesis using covered_mono assms(11) True by blast
  qed (use assms(13) in blast)
  ultimately show ?thesis unfolding store_inv_def using assms(4,9,10) st(1) by blast
qed

lemma store_invE:
  assumes "store_inv X options dir w S D" "no_leftover w"
  obtains n0 gs xs where "log_holds X options w n0 (concat gs @ xs) D" "chain S n0 (concat gs @ xs)" "in_dir (wo_directory options) w"
    "dir \<noteq> wo_directory options" "snapshots_ok (faithful S D) dir w" "covered n0 D dir w"
    "valid_options options" "opened_with options w" "clean_inv X w n0 gs xs D"
proof -
  obtain n0 es where i: "log_holds X options w n0 es D" "chain S n0 es" "in_dir (wo_directory options) w" "dir \<noteq> wo_directory options"
      "snapshots_ok (faithful S D) dir w" "covered n0 D dir w" using assms(1) by (auto simp: store_inv_def)
  obtain gs xs where g: "valid_options options" "opened_with options w" "concat gs @ xs = es" "clean_inv X w n0 gs xs D"
    by (rule holds_clean[OF i(1) assms(2)])
  show thesis by (rule that[of n0 gs xs]) (use i g in auto)
qed

text \<open>Operations that add no record: the log is as long as before, and more of it may be durable.\<close>

lemma store_keeps:
  assumes "store_inv X options dir w S D" "no_leftover w" "keeps (stayed (wo_directory options)) m" "m w = (r, w')"
    and "\<And>n0 gs xs. clean_inv X w n0 gs xs D \<Longrightarrow> same_log w w' \<and> clean_inv X w' n0 gs xs D \<and> (b \<longrightarrow> clean_inv X w' n0 gs xs (log_end n0 gs + length xs))"
  shows "store_inv X options dir w' S (if b then length S else D) \<and> no_leftover w' \<and> same_log w w'"
proof -
  obtain n0 gs xs where i: "log_holds X options w n0 (concat gs @ xs) D" "chain S n0 (concat gs @ xs)" "in_dir (wo_directory options) w"
    "dir \<noteq> wo_directory options" "snapshots_ok (faithful S D) dir w" "covered n0 D dir w" "valid_options options" "opened_with options w"
    "clean_inv X w n0 gs xs D" by (rule store_invE[OF assms(1,2)])
  let ?D = "if b then length S else D"
  note k = assms(5)[OF i(9)]
  have len: "length S = log_end n0 gs + length xs" using i(2) by (simp add: chain_def log_end_def)
  have c: "clean_inv X w' n0 gs xs ?D" using k len by auto
  have "log_holds X options w' n0 (concat gs @ xs) ?D" using clean_holds[OF i(7,8) _ refl c] k by blast
  moreover have "D \<le> ?D" using holds_lsn[OF i(1)] i(2) by (simp add: chain_def)
  ultimately have "store_inv X options dir w' S ?D"
    using store_log_step[OF i(1-6) assms(3,4), of X n0 "concat gs @ xs" ?D S] i(2) by simp
  then show ?thesis using clean_no_leftover[OF c] k by blast
qed

lemma store_sync:
  assumes "store_inv X options dir w S D" "no_leftover w" "wal_sync w = (r, w')"
  shows "store_inv X options dir w' S (if r = Inr () then length S else D) \<and> no_leftover w' \<and> same_log w w'"
  using assms(1,2) stays_sync assms(3) by (rule store_keeps) (use sync_keeps[OF _ assms(3)] in blast)

lemma store_flush:
  assumes "store_inv X options dir w S D" "no_leftover w" "wal_flush w = (r, w')"
  shows "store_inv X options dir w' S (if r = Inr () \<and> wl_mode w \<noteq> Flushed then length S else D) \<and> no_leftover w' \<and> same_log w w'"
  using assms(1,2) stays_flush assms(3) by (rule store_keeps) (use flush_keeps[OF _ assms(3)] in blast)

lemma store_commit:
  assumes "store_inv X options dir w S D" "no_leftover w" "wal_commit w = (r, w')"
  shows "store_inv X options dir w' S (if r = Inr () \<and> wl_unsynced w \<and> \<not> wl_closed w \<and> wl_mode w \<noteq> Memory then length S else D) \<and>
    no_leftover w' \<and> same_log w w'"
  using assms(1,2) stays_commit assms(3) by (rule store_keeps) (use commit_keeps[OF _ assms(3)] in blast)

lemma store_close:
  assumes "store_inv X options dir w S D" "no_leftover w" "close_wal w = (r, w')"
  shows "store_inv X options dir w' S D \<and> no_leftover w' \<and> same_log w w'"
  using store_keeps[OF assms(1,2) stays_close assms(3), of False] close_run[OF _ assms(3)] by auto

lemma store_records:
  assumes "store_inv X options dir w S D" "no_leftover w" "wal_records k w = (r, w')"
  shows "store_inv X options dir w' S D \<and> no_leftover w' \<and> same_log w w'"
  using store_keeps[OF assms(1,2) stays_records assms(3), of False] records_run(1,2)[OF _ assms(3)] by auto

text \<open>A change in the directory of the snapshots.\<close>

lemma log_inv_touched:
  assumes "touched (files_of c) w w'" "wl_directory w \<noteq> c" "log_inv X w n0 gs xs D"
  shows "log_inv X w' n0 gs xs D"
proof -
  have q: "quiet w w'" "outside (files_of c) w w'" using assms(1) by (simp_all add: touched_def)
  show ?thesis using assms(3) disk_log_outside[OF q assms(2)] log_fields_quiet[OF q(1)]
    unfolding log_inv_def quiet_fields[OF q(1)] by blast
qed

lemma holds_touched:
  assumes "touched (files_of c) w w'" "wo_directory options \<noteq> c" "log_holds X options w n0 es D"
  shows "log_holds X options w' n0 es D"
proof -
  have q: "quiet w w'" using assms(1) by (simp add: touched_def)
  obtain gs xs where i: "valid_options options" "opened_with options w" "concat gs @ xs = es" "log_inv X w n0 gs xs D" using assms(3) by (auto simp: log_holds_def)
  then have "log_inv X w' n0 gs xs D" using log_inv_touched[OF assms(1)] assms(2) by (simp add: opened_with_def)
  then show ?thesis using i opened_same[OF i(2) quiet_same_log[OF q]] by (auto simp: log_holds_def)
qed

lemma no_leftover_touched:
  assumes "touched (files_of c) w w'" "wl_directory w \<noteq> c" "no_leftover w"
  shows "no_leftover w'"
proof -
  have q: "quiet w w'" "outside (files_of c) w w'" using assms(1) by (simp_all add: touched_def)
  have "file_at (segment_path (wl_directory w) l) w' = file_at (segment_path (wl_directory w) l) w" for l
    using outsideD[OF q(2)] assms(2) by (simp add: segment_path_def)
  then show ?thesis using assms(3) by (simp add: no_leftover_def known_names_def quiet_fields[OF q(1)])
qed

lemma store_touched:
  assumes "store_inv X options dir w S D" "touched (files_of dir) w w'" "snapshots_ok (faithful S D') dir w'"
    and "D' = D" "\<And>n0. covered n0 D dir w \<Longrightarrow> n0 = 1 \<or> (\<exists>l. n0 \<le> l + 1 \<and> l + 1 < D \<and> has_snapshot dir (wl_mode w = Flushed) l w')"
  shows "store_inv X options dir w' S D" "no_leftover w \<Longrightarrow> no_leftover w'" "same_log w w'"
proof -
  obtain n0 es where i: "log_holds X options w n0 es D" "chain S n0 es" "in_dir (wo_directory options) w" "dir \<noteq> wo_directory options"
      "snapshots_ok (faithful S D) dir w" "covered n0 D dir w" using assms(1) by (auto simp: store_inv_def)
  have q: "quiet w w'" using assms(2) by (simp add: touched_def)
  have "in_dir (wo_directory options) w'" using i(3) by (simp add: in_dir_def quiet_fields[OF q])
  moreover have "covered n0 D dir w'" using assms(5)[OF i(6)] by (simp add: covered_def quiet_fields[OF q])
  ultimately show "store_inv X options dir w' S D"
    using holds_touched[OF assms(2) _ i(1)] i(2,4) assms(3,4) unfolding store_inv_def by metis
  show "no_leftover w'" if "no_leftover w" using no_leftover_touched[OF assms(2) _ that] holds_mode[OF i(1)] i(4) by auto
  show "same_log w w'" by (rule quiet_same_log[OF q])
qed

lemma store_unchanged:
  assumes "store_inv X options dir w S D" "unchanged w w'"
  shows "store_inv X options dir w' S D" "no_leftover w \<Longrightarrow> no_leftover w'" "same_log w w'"
proof -
  have f: "file_at p w' = file_at p w" for p by (rule unchanged_file[OF assms(2)])
  have h: "has_snapshot dir F l w' = has_snapshot dir F l w" "snapshots_ok G dir w' = snapshots_ok G dir w" for F l G
    by (simp_all add: has_snapshot_def snapshots_ok_def f)
  have "snapshots_ok (faithful S D) dir w" using assms(1) by (auto simp: store_inv_def)
  then have ok: "snapshots_ok (faithful S D) dir w'" using h by simp
  have cv: "\<And>n0. covered n0 D dir w \<Longrightarrow> n0 = 1 \<or> (\<exists>l. n0 \<le> l + 1 \<and> l + 1 < D \<and> has_snapshot dir (wl_mode w = Flushed) l w')"
    using h by (simp add: covered_def)
  note T = store_touched[OF assms(1) unchanged_touched[OF assms(2)] ok refl cv]
  show "store_inv X options dir w' S D" "no_leftover w \<Longrightarrow> no_leftover w'" "same_log w w'" using T by blast+
qed

text \<open>Removing segments up to a snapshot that stays.\<close>

lemma store_truncate:
  assumes "store_inv X options dir w S D" "no_leftover w" "truncateThrough k w = (r, w')"
    and "k + 1 < D" "has_snapshot dir (wl_mode w = Flushed) k w"
  shows "store_inv X options dir w' S D \<and> no_leftover w' \<and> same_log w w'"
proof -
  obtain n0 gs xs where i: "log_holds X options w n0 (concat gs @ xs) D" "chain S n0 (concat gs @ xs)" "in_dir (wo_directory options) w"
    "dir \<noteq> wo_directory options" "snapshots_ok (faithful S D) dir w" "covered n0 D dir w" "valid_options options" "opened_with options w"
    "clean_inv X w n0 gs xs D" by (rule store_invE[OF assms(1,2)])
  obtain j where j: "same_log w w'" "log_end n0 (take j gs) \<le> max n0 (k + 1)" "clean_inv X w' (log_end n0 (take j gs)) (drop j gs) xs D"
    using truncate_run[OF i(9) assms(3)] by (auto simp: truncated_def)
  let ?n = "log_end n0 (take j gs)"
  let ?d = "length (concat (take j gs))"
  have e: "concat (drop j gs) @ xs = drop ?d (concat gs @ xs)" "?d \<le> length (concat gs @ xs)"
  proof -
    have "concat gs = concat (take j gs) @ concat (drop j gs)" by (metis append_take_drop_id concat_append)
    then show "concat (drop j gs) @ xs = drop ?d (concat gs @ xs)" "?d \<le> length (concat gs @ xs)" by simp_all
  qed
  have h: "log_holds X options w' ?n (drop ?d (concat gs @ xs)) D" by (rule clean_holds[OF i(7,8) j(1) e(1) j(3)])
  have ch: "chain S ?n (drop ?d (concat gs @ xs))" unfolding log_end_def by (rule chain_drop[OF i(2) e(2)])
  have "outside (files_of (wo_directory options)) w w'"
    using sty.keepsD[OF stays_truncate assms(3)] i(3) by (simp add: stayed_def)
  then have "has_snapshot dir (wl_mode w' = Flushed) k w'"
    using outside_has_snapshot[of "files_of (wo_directory options)" w w' dir k] i(4) assms(5) j(1) by (simp add: snapshot_path_def same_log_def)
  then have "?n = n0 \<or> covered ?n D dir w'" using j(2) assms(4) by (auto simp: covered_def log_end_def max_def split: if_splits)
  then have "store_inv X options dir w' S D" using store_log_step[OF i(1-6) stays_truncate assms(3) h ch] by blast
  then show ?thesis using j(1) clean_no_leftover[OF j(3)] by blast
qed

text \<open>The numbers of the log.\<close>

lemma store_numbers:
  assumes "store_inv X options dir w S D"
  shows "\<not> wl_broken w \<Longrightarrow> wl_nextLsn w = length S" "0 < length S" "D \<le> length S" "length S \<le> 2 ^ 64"
proof -
  obtain n0 es where i: "log_holds X options w n0 es D" "chain S n0 es" using assms by (auto simp: store_inv_def)
  obtain gs xs where g: "concat gs @ xs = es" "log_inv X w n0 gs xs D" using i(1) by (auto simp: log_holds_def)
  have len: "length S = n0 + length es" "0 < n0" using i(2) by (simp_all add: chain_def)
  show "wl_nextLsn w = length S" if "\<not> wl_broken w"
    using g that len by (auto simp: log_inv_def log_fields_def Let_def log_end_def)
  show "0 < length S" "D \<le> length S" "length S \<le> 2 ^ 64" using holds_lsn[OF i(1)] len by simp_all
qed

lemma log_inv_not_broken: "log_inv X w n0 gs xs D \<Longrightarrow> \<not> wl_broken w \<Longrightarrow> log_inv Y w n0 gs xs D"
  unfolding log_inv_def using log_fields_not_broken by blast

lemma store_not_broken: "store_inv X options dir w S D \<Longrightarrow> \<not> wl_broken w \<Longrightarrow> store_inv Y options dir w S D"
  using log_inv_not_broken unfolding store_inv_def log_holds_def by blast

lemma holds_mono: "log_holds X options w n0 es D \<Longrightarrow> X \<subseteq> Y \<Longrightarrow> log_holds Y options w n0 es D"
  by (auto simp: log_holds_def intro: log_inv_mono)

lemma store_mono: "store_inv X options dir w S D \<Longrightarrow> X \<subseteq> Y \<Longrightarrow> store_inv Y options dir w S D"
  unfolding store_inv_def by (auto dest: holds_mono)

text \<open>Appending a record.\<close>

lemma store_append:
  assumes "store_inv X options dir w S D" "no_leftover w" "leads (last S) x m" "wal_append (fst x) (snd x) w = (r, w')"
  shows "same_log w w' \<and> (case r of
      Inl e \<Rightarrow> store_inv (if wl_broken w then X else {x}) options dir w' S D
    | Inr lsn \<Rightarrow> store_inv X options dir w' (S @ [m]) (if append_durable w then length S + 1 else D) \<and> no_leftover w' \<and> \<not> wl_broken w' \<and> \<not> wl_broken w)"
proof (cases "wl_closed w \<or> wl_broken w")
  case True
  then obtain e where r: "r = Inl e" "w' = w" using append_not_writable[of w "fst x" "snd x"] assms(4) by auto
  then show ?thesis using assms(1) store_not_broken[OF assms(1)] by auto
next
  case False
  obtain n0 gs xs where i: "log_holds {} options w n0 (concat gs @ xs) D" "chain S n0 (concat gs @ xs)" "in_dir (wo_directory options) w"
    "dir \<noteq> wo_directory options" "snapshots_ok (faithful S D) dir w" "covered n0 D dir w" "valid_options options" "opened_with options w"
    "clean_inv {} w n0 gs xs D" using store_invE[OF store_not_broken[OF assms(1)] assms(2)] False by metis
  have len: "length S = n0 + length (concat gs @ xs)" using i(2) by (simp add: chain_def)
  note step = store_log_step[OF i(1-6) stays_append assms(4)]
  have a: "appended {} w w' r n0 (concat gs @ xs) x D" by (rule append_keeps[OF i(9) assms(4)])
  then have sl: "same_log w w'" by (simp add: appended_def)
  show ?thesis
  proof (cases r)
    case (Inl e)
    then obtain gs' xs' where g: "concat gs' @ xs' = concat gs @ xs" "log_inv {x} w' n0 gs' xs' D" using a by (auto simp: appended_def)
    then have "log_holds {x} options w' n0 (concat gs @ xs) D" using i(7) opened_same[OF i(8) sl] by (auto simp: log_holds_def)
    then show ?thesis using step[OF _ i(2) order_refl] sl Inl False by auto
  next
    case (Inr lsn)
    let ?D = "if append_durable w then length S + 1 else D"
    obtain gs' xs' where g: "concat gs' @ xs' = concat gs @ xs @ [x]" "\<not> wl_closed w'" "\<not> wl_broken w'" "clean_inv {} w' n0 gs' xs' ?D"
      using a unfolding appended_def Inr sum.case len by auto
    then have "log_holds {} options w' n0 ((concat gs @ xs) @ [x]) ?D" using clean_holds[OF i(7,8) sl _ g(4)] by simp
    moreover have "D \<le> ?D" using store_numbers(3)[OF assms(1)] by simp
    moreover have "(S @ [m]) ! l = S ! l" if "l < D" for l using that store_numbers(3)[OF assms(1)] by (simp add: nth_append)
    ultimately have "store_inv {} options dir w' (S @ [m]) ?D" using step[OF _ chain_snoc[OF i(2) assms(3)]] by blast
    then show ?thesis using sl Inr g(3) False store_not_broken clean_no_leftover[OF g(4)] by auto
  qed
qed

end
