(* ===== verification/Engine_Checkpoint.thy ===== *)
theory Engine_Checkpoint
  imports Engine_Store
begin

text \<open>Taking a checkpoint keeps the invariant of the disk, wherever it fails.\<close>

definition engine_store :: "log_entry set \<Rightarrow> engine_options \<Rightarrow> engine \<Rightarrow> recovered_state catalog list \<Rightarrow> nat \<Rightarrow> bool" where
  "engine_store X options E S D \<longleftrightarrow> store_inv X (wal_options_of options) (checkpoints_directory E) (en_log E) S D \<and>
     en_root E = eo_directory options \<and> 2 \<le> st_checkpointRetention (en_settings E) \<and> stage_harmless (st_onCheckpointStage (en_settings E))"

text \<open>What commands of the log and checkpoints leave alone.\<close>

definition same_engine :: "engine \<Rightarrow> engine \<Rightarrow> bool" where
  "same_engine E E' \<longleftrightarrow> en_root E' = en_root E \<and> en_settings E' = en_settings E \<and> en_databases E' = en_databases E \<and>
     en_closed E' = en_closed E \<and> same_log (en_log E) (en_log E')"

lemma same_engine_refl [simp]: "same_engine E E" by (simp add: same_engine_def)

lemma same_engine_trans: "same_engine a b \<Longrightarrow> same_engine b c \<Longrightarrow> same_engine a c"
  by (auto simp: same_engine_def intro: same_log_trans)

lemma same_engine_state: "same_engine E E' \<Longrightarrow> db_state E' = db_state E" "same_engine E E' \<Longrightarrow> engine_good E' = engine_good E"
  by (simp_all add: same_engine_def db_state_def engine_good_def)

lemma same_engine_log: "same_log (en_log E) w \<Longrightarrow> same_engine E (E\<lparr>en_log := w\<rparr>)"
  by (simp add: same_engine_def)

definition kept :: "log_entry set \<Rightarrow> engine_options \<Rightarrow> engine \<Rightarrow> engine \<Rightarrow> recovered_state catalog list \<Rightarrow> nat \<Rightarrow> bool" where
  "kept X options E E' S D \<longleftrightarrow> engine_store X options E' S D \<and> no_leftover (en_log E') \<and> same_engine E E'"

lemma keptI:
  assumes "engine_store X options E S D" "store_inv X (wal_options_of options) (checkpoints_directory E) w S D'" "no_leftover w" "same_log (en_log E) w"
  shows "kept X options E (E\<lparr>en_log := w\<rparr>) S D'"
  using assms by (simp add: kept_def engine_store_def same_engine_def checkpoints_directory_def)

lemma kept_refl: "engine_store X options E S D \<Longrightarrow> no_leftover (en_log E) \<Longrightarrow> kept X options E E S D"
  by (simp add: kept_def)

lemma kept_trans: "kept X options a b S D \<Longrightarrow> kept X options b c S D' \<Longrightarrow> kept X options a c S D'"
  by (auto simp: kept_def intro: same_engine_trans)

text \<open>Fields the invariant does not mention.\<close>

lemma kept_fields [simp]:
  "kept X options E (E'\<lparr>en_checkpointFailure := x, en_nextCheckpointAt := n\<rparr>) S D = kept X options E E' S D"
  "kept X options E (E'\<lparr>en_checkpointFailure := x\<rparr>) S D = kept X options E E' S D"
  "kept X options E (E'\<lparr>en_bytesSinceCheckpoint := n\<rparr>) S D = kept X options E E' S D"
  "kept X options E (E'\<lparr>en_lastCheckpoint := l, en_bytesSinceCheckpoint := n, en_nextCheckpointAt := k, en_checkpointFailure := x\<rparr>) S D = kept X options E E' S D"
  by (simp_all add: kept_def engine_store_def same_engine_def checkpoints_directory_def)

lemma on_log_run: "on_log m E = (r, E') \<longleftrightarrow> (\<exists>w. m (en_log E) = (r, w) \<and> E' = E\<lparr>en_log := w\<rparr>)"
  by (auto simp: on_log_def split: prod.splits)

lemma on_log_Pair: "m (en_log E) = (r, w) \<Longrightarrow> on_log m E = (r, E\<lparr>en_log := w\<rparr>)"
  by (simp add: on_log_def)

lemma kept_stage:
  assumes "engine_store X options E S D" "no_leftover (en_log E)" "on_log (st_onCheckpointStage (en_settings E) stage) E = (r, E')"
  shows "kept X options E E' S D"
proof -
  obtain w where w: "st_onCheckpointStage (en_settings E) stage (en_log E) = (r, w)" "E' = E\<lparr>en_log := w\<rparr>"
    using assms(3) by (auto simp: on_log_run)
  have u: "unchanged (en_log E) w" using assms(1) w(1) by (auto simp: engine_store_def stage_harmless_def)
  have si: "store_inv X (wal_options_of options) (checkpoints_directory E) (en_log E) S D" using assms(1) by (simp add: engine_store_def)
  show ?thesis unfolding w(2) using keptI[OF assms(1)] store_unchanged[OF si u] assms(2) by blast
qed

lemma store_flushes: "store_inv X options dir w S D \<Longrightarrow> wl_mode w = Flushed \<Longrightarrow> flushes_directories w"
  by (auto simp: store_inv_def log_holds_def log_inv_def log_fields_def Let_def)

lemma sync_writable: "wal_sync w = (Inr x, w') \<Longrightarrow> \<not> wl_broken w"
  by (auto simp: wal_sync_def wal_flush_def assertWritable_def assertOpen_def operation_defs split: if_splits)

section \<open>Writing the snapshot\<close>

text \<open>The snapshot of the last state is written, and every snapshot can then be counted on.\<close>

definition all_durable :: "js_string \<Rightarrow> wal \<Rightarrow> bool" where
  "all_durable dir w \<longleftrightarrow> (\<forall>l. has_snapshot dir False l w \<longrightarrow> has_snapshot dir (wl_mode w = Flushed) l w)"

lemma write_step:
  assumes "engine_store X options E S (length S)" "no_leftover (en_log E)" "engine_good E" "db_state E = last S" "1 < length S"
    and "on_log (writeCheckpoint (checkpoints_directory E) (length S - 1) (snapshot_collections nothing_building E)
      (st_onCheckpointStage (en_settings E))) E = (r, E')"
  shows "kept X options E E' S (length S)"
    "r = Inr name \<Longrightarrow> has_snapshot (checkpoints_directory E) False (length S - 1) (en_log E') \<and> all_durable (checkpoints_directory E) (en_log E')"
proof -
  let ?dir = "checkpoints_directory E" and ?cs = "snapshot_collections nothing_building E" and ?l = "length S - 1"
  have si: "store_inv X (wal_options_of options) ?dir (en_log E) S (length S)" "stage_harmless (st_onCheckpointStage (en_settings E))"
    using assms(1) by (simp_all add: engine_store_def)
  obtain w where w: "writeCheckpoint ?dir ?l ?cs (st_onCheckpointStage (en_settings E)) (en_log E) = (r, w)" "E' = E\<lparr>en_log := w\<rparr>"
    using assms(6) by (auto simp: on_log_run)
  have small: "?l < 10 ^ 20" by (rule small_lsn) (use store_numbers(4)[OF si(1)] in linarith)
  have "catalog_ok (en_databases E)" using assms(3) by (simp add: engine_good_def entries_all_def)
  then have f: "faithful S (length S) ?l ?cs"
    using assms(4,5) snapshot_state[of E] last_conv_nth[of S] by (cases S) (simp_all add: faithful_def)
  have ok: "snapshots_ok (faithful S (length S)) ?dir (en_log E)" using si(1) by (auto simp: store_inv_def)
  note W = writeCheckpoint_keeps[OF w(1) si(2) ok f snapshot_good[OF assms(3)] small]
  have t: "touched (files_of ?dir) (en_log E) w" using tch.keepsD[OF touches_writeCheckpoint[OF si(2)] w(1)] .
  have cv: "n0 = 1 \<or> (\<exists>l. n0 \<le> l + 1 \<and> l + 1 < length S \<and> has_snapshot ?dir (wl_mode (en_log E) = Flushed) l w)"
    if "covered n0 (length S) ?dir (en_log E)" for n0
  proof -
    have "has_snapshot ?dir F l w" if "l + 1 < length S" "has_snapshot ?dir F l (en_log E)" for F l
      using W(2)[OF small_lsn _ that(2)] that(1) store_numbers(4)[OF si(1)] by linarith
    then show ?thesis using that unfolding covered_def by blast
  qed
  note T = store_touched[OF si(1) t W(1) refl cv]
  show "kept X options E E' S (length S)" unfolding w(2) using keptI[OF assms(1)] T assms(2) by blast
  have "wl_mode w = wl_mode (en_log E)" using T(3) by (simp add: same_log_def)
  then have "all_durable ?dir w" if "all_linked ?dir w \<or> wl_mode (en_log E) \<noteq> Flushed"
    using that by (auto simp: all_durable_def has_snapshot_def all_linked_def snapshot_path_def)
  then show "has_snapshot ?dir False ?l (en_log E') \<and> all_durable ?dir (en_log E')" if "r = Inr name"
    using W(3)[OF that] store_flushes[OF si(1)] w(2) by auto
qed

section \<open>Finishing\<close>

text \<open>Of snapshots listed newest first, the ones that are kept cover what the removed ones covered.\<close>

lemma sorted_gt_nth: "sorted_wrt (>) ls \<Longrightarrow> i < j \<Longrightarrow> j < length ls \<Longrightarrow> ls ! j < ls ! i" for ls :: "nat list"
  by (rule sorted_wrt_nth_less)

lemma drop_smaller:
  fixes ls :: "nat list"
  assumes "sorted_wrt (>) ls" "l \<in> set (drop n ls)" "0 < n"
  shows "n \<le> length ls" "l < ls ! (n - 1)"
proof -
  obtain i where i: "i < length ls - n" "l = ls ! (n + i)" using assms(2) by (auto simp: in_set_conv_nth)
  then show "n \<le> length ls" "l < ls ! (n - 1)" using sorted_gt_nth[OF assms(1), of "n - 1" "n + i"] assms(3) by auto
qed

lemma prune_step:
  assumes "engine_store X options E S (length S)" "no_leftover (en_log E)" "all_durable (checkpoints_directory E) (en_log E)"
    and "sorted_wrt (>) ls" "\<forall>l. l \<in> set ls \<longleftrightarrow> l < 10 ^ 20 \<and> has_snapshot (checkpoints_directory E) False l (en_log E)"
    and "ls \<noteq> []" "2 \<le> n" "on_log (remove_snapshots (map (snapshot_listed (checkpoints_directory E)) (drop n ls))) E = (r, E')"
  shows "kept X options E E' S (length S)"
    "n \<le> length ls \<Longrightarrow> ls ! (n - 1) + 1 < length S \<and> has_snapshot (checkpoints_directory E) (wl_mode (en_log E') = Flushed) (ls ! (n - 1)) (en_log E')"
proof -
  let ?dir = "checkpoints_directory E" and ?F = "wl_mode (en_log E) = Flushed" and ?k = "ls ! (n - 1)"
  have si: "store_inv X (wal_options_of options) ?dir (en_log E) S (length S)" using assms(1) by (simp add: engine_store_def)
  have ok: "snapshots_ok (faithful S (length S)) ?dir (en_log E)" using si by (auto simp: store_inv_def)
  obtain w where w: "remove_snapshots (map (snapshot_listed ?dir) (drop n ls)) (en_log E) = (r, w)" "E' = E\<lparr>en_log := w\<rparr>"
    using assms(8) by (auto simp: on_log_run)
  note R = remove_snapshots_run[OF w(1) ok]
  have t: "touched (files_of ?dir) (en_log E) w" using R(1) by (auto simp: touched_def outside_def snapshot_path_def)
  have o: "outside (snapshot_path ?dir ` set (drop n ls)) (en_log E) w" using R(1) by (simp add: touched_def)
  have small: "l < 10 ^ 20" "l + 1 \<le> length S" if "l \<in> set ls" for l
  proof -
    show "l < 10 ^ 20" using assms(5) that by blast
    then show "l + 1 \<le> length S"
      using snapshots_okD(2)[OF ok] assms(5) that by (fastforce simp: has_snapshot_def snapshot_data_def faithful_def)
  qed
  have still: "has_snapshot ?dir ?F l w" if l: "l \<in> set ls" "l \<notin> set (drop n ls)" for l
  proof -
    have "snapshot_path ?dir l \<notin> snapshot_path ?dir ` set (drop n ls)"
      using snapshot_path_inj[of l _ ?dir] small(1) l set_drop_subset[of n ls] by (metis imageE subsetD)
    moreover have "has_snapshot ?dir ?F l (en_log E)" using assms(3,5) l(1) by (auto simp: all_durable_def)
    ultimately show ?thesis using outside_has_snapshot[OF o] by blast
  qed
  have k: "?k + 1 < length S \<and> has_snapshot ?dir ?F ?k w" if "n \<le> length ls"
  proof -
    have "?k < ls ! 0" using sorted_gt_nth[OF assms(4), of 0 "n - 1"] assms(7) that by simp
    moreover have "ls ! 0 \<in> set ls" "?k \<in> set ls" using assms(6,7) that by simp_all
    moreover have "?k \<notin> set (drop n ls)" using drop_smaller(2)[OF assms(4), of ?k n] assms(7) by auto
    ultimately show ?thesis using small(2)[of "ls ! 0"] still by auto
  qed
  have cv: "n0 = 1 \<or> (\<exists>l. n0 \<le> l + 1 \<and> l + 1 < length S \<and> has_snapshot ?dir ?F l w)" if c: "covered n0 (length S) ?dir (en_log E)" for n0
  proof (cases "n0 = 1")
    case False
    then obtain l where l: "n0 \<le> l + 1" "l + 1 < length S" "has_snapshot ?dir ?F l (en_log E)" using c by (auto simp: covered_def)
    have "l < 10 ^ 20" by (rule small_lsn) (use l(2) store_numbers(4)[OF si] in linarith)
    then have "l \<in> set ls" using assms(5) l(3) has_snapshot_weaken by blast
    then show ?thesis
    proof (cases "l \<in> set (drop n ls)")
      case True
      then have "n \<le> length ls" "l < ?k" using drop_smaller[OF assms(4) True] assms(7) by simp_all
      then have "n0 \<le> ?k + 1" "?k + 1 < length S" "has_snapshot ?dir ?F ?k w" using k l(1) by auto
      then show ?thesis by blast
    qed (use l still in blast)
  qed blast
  note T = store_touched[OF si t R(2) refl cv]
  show "kept X options E E' S (length S)" unfolding w(2) using keptI[OF assms(1)] T assms(2) by blast
  show "?k + 1 < length S \<and> has_snapshot ?dir (wl_mode (en_log E') = Flushed) ?k (en_log E')" if "n \<le> length ls"
    using k[OF that] T(3) w(2) by (simp add: same_log_def)
qed

lemma truncate_step:
  assumes "engine_store X options E S D" "no_leftover (en_log E)" "on_log (truncateThrough k) E = (r, E')"
    and "k + 1 < D" "has_snapshot (checkpoints_directory E) (wl_mode (en_log E) = Flushed) k (en_log E)"
  shows "kept X options E E' S D"
proof -
  obtain w where w: "truncateThrough k (en_log E) = (r, w)" "E' = E\<lparr>en_log := w\<rparr>" using assms(3) by (auto simp: on_log_run)
  have si: "store_inv X (wal_options_of options) (checkpoints_directory E) (en_log E) S D" using assms(1) by (simp add: engine_store_def)
  show ?thesis unfolding w(2) using keptI[OF assms(1)] store_truncate[OF si assms(2) w(1) assms(4,5)] by blast
qed

text \<open>The steps of a sequence, each of which keeps the invariant.\<close>

lemma kept_store: "kept X options E E' S D \<Longrightarrow> engine_store X options E' S D" "kept X options E E' S D \<Longrightarrow> no_leftover (en_log E')"
    "kept X options E E' S D \<Longrightarrow> same_engine E E'"
  by (simp_all add: kept_def)

lemma kept_dir: "kept X options E E' S D \<Longrightarrow> checkpoints_directory E' = checkpoints_directory E"
    "kept X options E E' S D \<Longrightarrow> en_settings E' = en_settings E" "kept X options E E' S D \<Longrightarrow> en_closed E' = en_closed E"
  by (simp_all add: kept_def same_engine_def checkpoints_directory_def)

lemma bindS_cases:
  assumes "bindS m f s = (r, s')"
  obtains (fails) e where "m s = (Inl e, s')" "r = Inl e" | (continues) x s1 where "m s = (Inr x, s1)" "f x s1 = (r, s')"
  using assms by (auto simp: bindS_def split: prod.splits sum.splits)

lemma bindS_run: "m s = (Inr x, s1) \<Longrightarrow> bindS m f s = f x s1"
  by (simp add: bindS_def)

lemma kept_stage_from:
  assumes "kept X options E0 E S D" "on_log (st_onCheckpointStage (en_settings E0) stage) E = (r, E')"
  shows "kept X options E0 E' S D" "unchanged (en_log E) (en_log E')"
proof -
  have "on_log (st_onCheckpointStage (en_settings E) stage) E = (r, E')" using assms kept_dir(2) by auto
  then show "kept X options E0 E' S D" using kept_trans[OF assms(1) kept_stage[OF kept_store(1,2)[OF assms(1)]]] by blast
  show "unchanged (en_log E) (en_log E')"
    using assms kept_dir(2)[OF assms(1)] kept_store(1)[OF assms(1)] by (auto simp: on_log_run engine_store_def stage_harmless_def)
qed

lemma truncate_rest:
  assumes "kept X options E0 E S D" "b \<or> k + 1 < D \<and> has_snapshot (checkpoints_directory E0) (wl_mode (en_log E) = Flushed) k (en_log E)"
    and "\<And>E. kept X options E0 (g E) S D = kept X options E0 E S D"
    and "bindS (on_log (st_onCheckpointStage (en_settings E0) SnapshotsPruned)) (\<lambda>_.
      bindS (if b then returnS 0 else on_log (truncateThrough k)) (\<lambda>n. bindS (on_log (st_onCheckpointStage (en_settings E0) LogTruncated)) (\<lambda>_.
      bindS (modifyS g) (\<lambda>_. returnS (h n))))) E = (r, E')"
  shows "kept X options E0 E' S D"
  using assms(4)
proof (cases rule: bindS_cases)
  case (fails e)
  then show ?thesis using kept_stage_from(1)[OF assms(1)] by blast
next
  case (continues x E1)
  note S1 = kept_stage_from[OF assms(1) continues(1)]
  have k1: "b \<or> k + 1 < D \<and> has_snapshot (checkpoints_directory E0) (wl_mode (en_log E1) = Flushed) k (en_log E1)"
    using assms(2) unchanged_file[OF S1(2)] quiet_fields[OF unchanged_quiet[OF S1(2)]] by (simp add: has_snapshot_def)
  have trunc: "kept X options E0 E2 S D" if "(if b then returnS 0 else on_log (truncateThrough k)) E1 = (q, E2)" for q E2
  proof (cases b)
    case True
    then show ?thesis using that S1(1) by (simp add: returnS_def)
  next
    case False
    then show ?thesis
      using kept_trans[OF S1(1) truncate_step[OF kept_store(1,2)[OF S1(1)]]] that k1 kept_dir(1)[OF S1(1)] by auto
  qed
  from continues(2) show ?thesis
  proof (cases rule: bindS_cases)
    case (fails e)
    then show ?thesis using trunc by blast
  next
    case (continues n E2)
    note k2 = trunc[OF continues(1)]
    from continues(2) show ?thesis
    proof (cases rule: bindS_cases)
      case (fails e)
      then show ?thesis using kept_stage_from(1)[OF k2] by blast
    next
      case (continues y E3)
      then have "E' = g E3" by (simp add: bindS_def modifyS_def returnS_def)
      then show ?thesis using kept_stage_from(1)[OF k2 continues(1)] assms(3) by simp
    qed
  qed
qed

lemma finish_step:
  assumes "engine_store X options E S (length S)" "no_leftover (en_log E)" "all_durable (checkpoints_directory E) (en_log E)"
    and "has_snapshot (checkpoints_directory E) False (length S - 1) (en_log E)" "finishCheckpoint begun name E = (r, E')"
  shows "kept X options E E' S (length S)"
proof (cases "en_closed E")
  case True
  then have "E' = E" using assms(5) by (simp add: finishCheckpoint_def operation_defs)
  then show ?thesis using kept_refl[OF assms(1,2)] by simp
next
  case False
  let ?dir = "checkpoints_directory E" and ?n = "st_checkpointRetention (en_settings E)"
  have si: "store_inv X (wal_options_of options) ?dir (en_log E) S (length S)" using assms(1) by (simp add: engine_store_def)
  obtain r1 w1 where l: "listCheckpoints ?dir (en_log E) = (r1, w1)" by fastforce
  let ?E1 = "E\<lparr>en_log := w1\<rparr>"
  have "distinct (map fst (os_files (en_log E)))" using si by (auto simp: store_inv_def log_holds_def log_inv_def disk_log_def Let_def)
  note L = listCheckpoints_run[OF l this]
  have k1: "kept X options E ?E1 S (length S)" using keptI[OF assms(1)] store_unchanged[OF si L(1)] assms(2) by blast
  note b = assms(5)[unfolded finishCheckpoint_def]
  show ?thesis
  proof (cases r1)
    case (Inl e)
    then have "E' = ?E1" using b False on_log_Pair[of "listCheckpoints ?dir" E, OF l] by (simp add: bindS_def getsS_def Let_def)
    then show ?thesis using k1 by simp
  next
    case (Inr snapshots)
    then obtain ls where ls: "snapshots = map (snapshot_listed ?dir) ls" "sorted_wrt (>) ls"
        "\<forall>l. l \<in> set ls \<longleftrightarrow> l < 10 ^ 20 \<and> has_snapshot ?dir False l (en_log E)" using L(2) by auto
    have f: "has_snapshot ?dir F x w1 = has_snapshot ?dir F x (en_log E)" for F x
      using unchanged_file[OF L(1)] by (simp add: has_snapshot_def)
    have "length S - 1 < 10 ^ 20" by (rule small_lsn) (use store_numbers(4)[OF si] in linarith)
    then have "length S - 1 \<in> set ls" using ls(3) assms(4) by blast
    then have ne: "ls \<noteq> []" by auto
    have n: "2 \<le> ?n" using assms(1) by (simp add: engine_store_def)
    have mode: "wl_mode w1 = wl_mode (en_log E)" using kept_store(3)[OF k1] by (simp add: same_engine_def same_log_def)
    obtain r2 E2 where rm: "on_log (remove_snapshots (map (snapshot_listed ?dir) (drop ?n ls))) ?E1 = (r2, E2)" by fastforce
    have dir1: "checkpoints_directory ?E1 = ?dir" by (simp add: checkpoints_directory_def)
    have d1: "all_durable (checkpoints_directory ?E1) (en_log ?E1)" using assms(3) f mode dir1 by (simp add: all_durable_def)
    have ls1: "\<forall>l. l \<in> set ls \<longleftrightarrow> l < 10 ^ 20 \<and> has_snapshot (checkpoints_directory ?E1) False l (en_log ?E1)" using ls(3) f dir1 by simp
    note P = prune_step[OF kept_store(1,2)[OF k1] d1 ls(2) ls1 ne n rm[folded dir1]]
    have k2: "kept X options E E2 S (length S)" by (rule kept_trans[OF k1 P(1)])
    have gets: "getsS Inr E = (Inr E, E)" by (simp add: getsS_def)
    have list: "on_log (listCheckpoints ?dir) E = (Inr snapshots, ?E1)" using on_log_Pair[of "listCheckpoints ?dir" E, OF l] Inr by simp
    have rm': "on_log (remove_snapshots (drop ?n snapshots)) ?E1 = (r2, E2)" using rm ls(1) by (simp add: drop_map)
    show ?thesis
    proof (cases r2)
      case (Inl e)
      then have "E' = E2" using b False list rm' by (simp add: bindS_def getsS_def Let_def)
      then show ?thesis using k2 by simp
    next
      case (Inr removed)
      have "cf_lsn (snapshots ! (?n - 1)) = ls ! (?n - 1)" if "\<not> length snapshots < ?n" using that ls(1) n by simp
      then have "length snapshots < ?n \<or> cf_lsn (snapshots ! (?n - 1)) + 1 < length S \<and>
          has_snapshot ?dir (wl_mode (en_log E2) = Flushed) (cf_lsn (snapshots ! (?n - 1))) (en_log E2)"
        using P(2) ls(1) dir1 by (cases "length snapshots < ?n") simp_all
      moreover note kept_fields(4)
      moreover note b[unfolded bindS_run[of "getsS Inr" E, OF gets] if_not_P[OF False] Let_def bindS_run[of "on_log (listCheckpoints ?dir)" E, OF list] bindS_run[of "on_log (remove_snapshots (drop ?n snapshots))" ?E1, OF rm'[unfolded Inr]]]
      ultimately show ?thesis by (rule truncate_rest[OF k2])
    qed
  qed
qed

section \<open>Checkpoints\<close>

text \<open>The engine in memory belongs to the last state.\<close>

definition at_state :: "recovered_state catalog list \<Rightarrow> engine \<Rightarrow> bool" where
  "at_state S E \<longleftrightarrow> engine_good E \<and> db_state E = last S"

lemma at_state_same: "same_engine E E' \<Longrightarrow> at_state S E' = at_state S E"
  by (simp add: at_state_def same_engine_state)

lemma begin_step:
  assumes "engine_store X options E S D" "no_leftover (en_log E)" "beginCheckpoint nothing_building E = (r, E')"
  shows "\<exists>D' \<ge> D. kept X options E E' S D' \<and> (\<forall>b. r = Inr (Some b) \<longrightarrow> D' = length S \<and> 1 < length S \<and> bg_lsn b = length S - 1 \<and>
    bg_collections b = snapshot_collections nothing_building E')"
proof -
  let ?lsn = "lastLsn (en_log E)"
  have si: "store_inv X (wal_options_of options) (checkpoints_directory E) (en_log E) S D" using assms(1) by (simp add: engine_store_def)
  obtain q w where sy: "wal_sync (en_log E) = (q, w)" by fastforce
  let ?E = "E\<lparr>en_log := w\<rparr>"
  note Y = store_sync[OF si assms(2) sy]
  have k: "kept X options E ?E S (if q = Inr () then length S else D)" using keptI[OF assms(1)] Y by blast
  have le: "D \<le> length S" by (rule store_numbers(3)[OF si])
  show ?thesis
  proof (cases "?lsn = 0 \<or> ?lsn = en_lastCheckpoint E")
    case True
    then have "E' = E" "r = Inr None" using assms(3) by (simp_all add: beginCheckpoint_def operation_defs Let_def)
    then show ?thesis using kept_refl[OF assms(1,2)] by auto
  next
    case False
    show ?thesis
    proof (cases q)
      case (Inl e)
      then have "E' = ?E" "r = Inl e" using assms(3) False sy on_log_Pair[of wal_sync E q w] by (simp_all add: beginCheckpoint_def operation_defs Let_def)
      then show ?thesis using k Inl by auto
    next
      case (Inr u)
      have nb: "\<not> wl_broken (en_log E)" using sync_writable sy Inr by blast
      have lsn: "?lsn = length S - 1" using store_numbers(1)[OF si nb] by (simp add: lastLsn_def)
      have r: "E' = ?E" "r = Inr (Some \<lparr>bg_lsn = ?lsn, bg_collections = snapshot_collections nothing_building ?E,
          bg_documents = sum_list (map cc_documentCount (snapshot_collections nothing_building ?E)), bg_bytes = en_bytesSinceCheckpoint ?E\<rparr>)"
        using assms(3) False sy Inr on_log_Pair[of wal_sync E q w] by (auto simp: beginCheckpoint_def operation_defs Let_def)
      have "1 < length S" using False lsn by linarith
      then show ?thesis using k Inr le lsn r by (intro exI[of _ "length S"]) simp
    qed
  qed
qed

lemma checkpoint_step:
  assumes "engine_store X options E S D" "no_leftover (en_log E)" "at_state S E" "checkpoint_with nothing_building E = (r, E')"
  shows "\<exists>D' \<ge> D. kept X options E E' S D'"
  using assms(4)[unfolded checkpoint_with_def]
proof (cases rule: bindS_cases)
  case (fails e)
  then show ?thesis using kept_refl[OF assms(1,2)] by (auto simp: engine_assertOpen_def getsS_def)
next
  case (continues u E0)
  then have "E0 = E" by (simp add: engine_assertOpen_def getsS_def)
  with continues(2) have "bindS (beginCheckpoint nothing_building) (\<lambda>begun. case begun of None \<Rightarrow> returnS None | Some b \<Rightarrow>
     bindS (getsS Inr) (\<lambda>E. bindS (catchS (on_log (writeCheckpoint (checkpoints_directory E) (bg_lsn b) (bg_collections b)
        (st_onCheckpointStage (en_settings E)))) (\<lambda>e. throwS (translateIo e))) (\<lambda>name. finishCheckpoint b name))) E = (r, E')" by simp
  then show ?thesis
  proof (cases rule: bindS_cases)
    case (fails e)
    then show ?thesis using begin_step[OF assms(1,2)] by blast
  next
    case (continues begun E1)
    obtain D1 where D1: "D \<le> D1" "kept X options E E1 S D1" "\<And>b. begun = Some b \<Longrightarrow> D1 = length S \<and> 1 < length S \<and> bg_lsn b = length S - 1 \<and>
        bg_collections b = snapshot_collections nothing_building E1" using begin_step[OF assms(1,2) continues(1)] by auto
    show ?thesis
    proof (cases begun)
      case None
      then have "E' = E1" using continues(2) by (simp add: returnS_def)
      then show ?thesis using D1 by blast
    next
      case (Some b)
      note B = D1(3)[OF Some]
      have k1: "kept X options E E1 S (length S)" using D1(2) B by simp
      have a1: "engine_good E1" "db_state E1 = last S" using assms(3) at_state_same[OF kept_store(3)[OF k1], of S] by (simp_all add: at_state_def)
      obtain q E2 where w: "on_log (writeCheckpoint (checkpoints_directory E1) (length S - 1) (snapshot_collections nothing_building E1)
          (st_onCheckpointStage (en_settings E1))) E1 = (q, E2)" by fastforce
      have len: "1 < length S" using B by blast
      note W = write_step[OF kept_store(1,2)[OF k1] a1 len w]
      have k2: "kept X options E E2 S (length S)" by (rule kept_trans[OF k1 W(1)])
      show ?thesis
      proof (cases q)
        case (Inl e)
        then have "E' = E2" using continues(2) Some B w by (simp add: operation_defs)
        then show ?thesis using k2 D1(1) B by auto
      next
        case (Inr name)
        then have f: "finishCheckpoint b name E2 = (r, E')" using continues(2) Some B w by (simp add: operation_defs)
        have d: "checkpoints_directory E1 = checkpoints_directory E2" using kept_dir(1)[OF W(1)] by simp
        have "kept X options E2 E' S (length S)"
          using finish_step[OF kept_store(1,2)[OF k2] _ _ f] W(2)[OF Inr] d by simp
        then show ?thesis using kept_trans[OF k2] D1(1) B by auto
      qed
    qed
  qed
qed

lemma due_step:
  assumes "engine_store X options E S D" "no_leftover (en_log E)" "at_state S E" "runDueCheckpoint building E = (r, E')"
    and "building = nothing_building \<or> \<not> checkpoint_due E"
  shows "\<exists>D' \<ge> D. kept X options E E' S D'" "r = Inr ()"
proof -
  obtain q E1 where c: "checkpoint_with nothing_building E = (q, E1)" by fastforce
  obtain D1 where D1: "D \<le> D1" "kept X options E E1 S D1" using checkpoint_step[OF assms(1-3) c] by blast
  have "r = Inr () \<and> (\<exists>D' \<ge> D. kept X options E E' S D')"
  proof (cases "checkpoint_due E")
    case False
    then show ?thesis using assms(4) kept_refl[OF assms(1,2)] by (auto simp: runDueCheckpoint_def operation_defs)
  next
    case True
    then have b: "building = nothing_building" using assms(5) by simp
    have "r = Inr () \<and> (E' = E1 \<or> (\<exists>e n. E' = E1\<lparr>en_checkpointFailure := e, en_nextCheckpointAt := n\<rparr>))"
      using assms(4) True c b by (cases q) (auto simp: runDueCheckpoint_def runAutomaticCheckpoint_def operation_defs)
    then show ?thesis using D1 by auto
  qed
  then show "\<exists>D' \<ge> D. kept X options E E' S D'" "r = Inr ()" by blast+
qed

end
