(* ===== verification/Engine_Operations.thy ===== *)
theory Engine_Operations
  imports Engine_Checkpoint
begin

text \<open>
  Every operation of an open engine keeps the invariant of the disk and the contents in step: what
  is committed to the log is what changes in memory, and a failed commit changes nothing in memory.
\<close>

section \<open>Committing\<close>

text \<open>A broken log stays as it is.\<close>

lemma broken_checkpoint:
  assumes "wl_broken (en_log E)" "checkpoint_with building E = (r, E')"
  shows "E' = E"
proof -
  have s: "\<exists>e. wal_sync (en_log E) = (Inl e, en_log E)"
    using flush_not_writable[of "en_log E"] assms(1) by (auto simp: wal_sync_def bindS_def)
  have "E\<lparr>en_log := en_log E\<rparr> = E" by simp
  then show ?thesis using s assms(2)
    by (auto simp: checkpoint_with_def beginCheckpoint_def engine_assertOpen_def on_log_def operation_defs Let_def split: if_splits)
qed

lemma broken_due: "wl_broken (en_log E) \<Longrightarrow> runDueCheckpoint building E = (r, E') \<Longrightarrow> en_log E' = en_log E"
  using broken_checkpoint[of E building]
  by (cases "checkpoint_with building E") (auto simp: runDueCheckpoint_def runAutomaticCheckpoint_def operation_defs split: if_splits sum.splits)

definition append_body :: "log_operation list \<Rightarrow> (engine, unit) operation" where
  "append_body operations =
     catchS
       (bindS (fromR (encodeOperations operations)) (\<lambda>payload.
        bindS (on_log (wal_append RecordTransaction payload)) (\<lambda>_.
        modifyS (\<lambda>E. E\<lparr>en_bytesSinceCheckpoint := en_bytesSinceCheckpoint E + (RECORD_HEADER_SIZE + length payload)\<rparr>))))
       (\<lambda>e. throwS (if is_range_error e then StorageError InvalidBatch else e))"

lemma append_operations_body:
  "append_operations building ops = bindS engine_assertOpen (\<lambda>_. bindS (runDueCheckpoint building) (\<lambda>_. append_body ops))"
  by (simp add: append_operations_def append_body_def)

lemma broken_append:
  assumes "wl_broken (en_log E)" "append_operations building ops E = (r, E')"
  shows "en_log E' = en_log E"
proof -
  obtain q E1 where d: "runDueCheckpoint building E = (q, E1)" by fastforce
  have l: "en_log E1 = en_log E" using broken_due[OF assms(1) d] .
  obtain q2 E2 where b: "append_body ops E1 = (q2, E2)" by fastforce
  have "en_log E2 = en_log E1"
  proof (cases "encodeOperations ops")
    case (Inr payload)
    obtain e where "wal_append RecordTransaction payload (en_log E1) = (Inl e, en_log E1)"
      using append_not_writable[of "en_log E1" RecordTransaction payload] assms(1) l by auto
    then show ?thesis using b Inr by (auto simp: append_body_def on_log_def operation_defs)
  qed (use b in \<open>auto simp: append_body_def operation_defs\<close>)
  then show ?thesis using assms(2) d b l
    by (cases q) (auto simp: append_operations_body engine_assertOpen_def bindS_def getsS_def split: if_splits)
qed

lemma append_body_step:
  assumes "engine_store X options E S D" "no_leftover (en_log E)" "append_body ops E = (r, E')"
    and "\<forall>op \<in> set ops. log_operation_ok op" "apply_all ops (last S) = Inr m" "entries_all state_good m"
  shows "same_engine E E' \<and> (case r of
      Inl e \<Rightarrow> engine_store (if wl_broken (en_log E) then X else {x. leads (last S) x m}) options E' S D
    | Inr _ \<Rightarrow> engine_store X options E' (S @ [m]) (if append_durable (en_log E) then length S + 1 else D) \<and> no_leftover (en_log E') \<and>
        \<not> wl_broken (en_log E) \<and> \<not> wl_broken (en_log E'))"
proof (cases "encodeOperations ops")
  case (Inl e)
  then have r: "\<exists>e. r = Inl e" "E' = E" using assms(3) by (auto simp: append_body_def operation_defs)
  have "engine_store Y options E S D" if "\<not> wl_broken (en_log E)" for Y using assms(1) store_not_broken that by (auto simp: engine_store_def)
  then show ?thesis using r assms(1) by auto
next
  case (Inr payload)
  let ?x = "(RecordTransaction, payload)"
  have l: "leads (last S) ?x m" using Inr assms(4-6) by (auto simp: leads_def logs_def)
  obtain q w where a: "wal_append RecordTransaction payload (en_log E) = (q, w)" by fastforce
  have si: "store_inv X (wal_options_of options) (checkpoints_directory E) (en_log E) S D" using assms(1) by (simp add: engine_store_def)
  note A = store_append[OF si assms(2) l, simplified, OF a]
  have se: "same_engine E (E\<lparr>en_log := w\<rparr>)" using A same_engine_log by blast
  have es: "engine_store Y options (E\<lparr>en_log := w\<rparr>) S' D'" if "store_inv Y (wal_options_of options) (checkpoints_directory E) w S' D'" for Y S' D'
    using that assms(1) by (simp add: engine_store_def checkpoints_directory_def)
  show ?thesis
  proof (cases q)
    case (Inl e)
    then have r: "\<exists>e. r = Inl e" "E' = E\<lparr>en_log := w\<rparr>" using assms(3) Inr a by (auto simp: append_body_def on_log_def operation_defs)
    have "store_inv (if wl_broken (en_log E) then X else {x. leads (last S) x m}) (wal_options_of options) (checkpoints_directory E) w S D"
      using A Inl l by (auto elim: store_mono split: if_splits)
    then show ?thesis using r se es by auto
  next
    case (Inr lsn)
    then have r: "r = Inr ()" "E' = E\<lparr>en_log := w, en_bytesSinceCheckpoint := en_bytesSinceCheckpoint E + (RECORD_HEADER_SIZE + length payload)\<rparr>"
      using assms(3) \<open>encodeOperations ops = Inr payload\<close> a by (auto simp: append_body_def on_log_def operation_defs)
    show ?thesis using A Inr r se es by (auto simp: same_engine_def engine_store_def checkpoints_directory_def)
  qed
qed

lemma append_step:
  assumes "engine_store X options E S D" "no_leftover (en_log E)" "at_state S E" "append_operations building ops E = (r, E')"
    and "building = nothing_building \<or> \<not> checkpoint_due E"
    and "\<forall>op \<in> set ops. log_operation_ok op" "apply_all ops (last S) = Inr m" "entries_all state_good m"
  shows "same_engine E E' \<and> (\<exists>D' \<ge> D. case r of
      Inl e \<Rightarrow> engine_store (if wl_broken (en_log E) then X else {x. leads (last S) x m}) options E' S D'
    | Inr _ \<Rightarrow> engine_store X options E' (S @ [m]) D' \<and> (append_durable (en_log E) \<longrightarrow> D' = length S + 1) \<and> no_leftover (en_log E') \<and>
        \<not> wl_broken (en_log E) \<and> \<not> wl_broken (en_log E'))"
proof -
  define Y where "Y = (if wl_broken (en_log E) then X else {})"
  let ?L = "{x. leads (last S) x m}"
  have es: "engine_store Y options E S D"
    using assms(1) store_not_broken by (auto simp: engine_store_def Y_def)
  show ?thesis
  proof (cases "en_closed E")
    case True
    then have "E' = E" "\<exists>e. r = Inl e" using assms(4) by (auto simp: append_operations_def engine_assertOpen_def operation_defs)
    moreover have "engine_store (if wl_broken (en_log E) then X else ?L) options E S D"
      using assms(1) store_not_broken by (auto simp: engine_store_def)
    ultimately show ?thesis by auto
  next
    case False
    obtain q E1 where d: "runDueCheckpoint building E = (q, E1)" by fastforce
    note C = due_step[OF es assms(2,3) d assms(5)]
    obtain D1 where D1: "D \<le> D1" "kept Y options E E1 S D1" using C(1) by blast
    have b: "append_body ops E1 = (r, E')"
      using assms(4) False d C(2) by (auto simp: append_operations_def engine_assertOpen_def append_body_def operation_defs)
    note B = append_body_step[OF kept_store(1,2)[OF D1(2)] b assms(6-8)]
    have se: "same_engine E E'" using same_engine_trans[OF kept_store(3)[OF D1(2)]] B by blast
    have ad: "append_durable (en_log E1) = append_durable (en_log E)"
      using kept_store(3)[OF D1(2)] by (simp add: same_engine_def same_log_def append_durable_def)
    have le: "D1 \<le> length S" using store_numbers(3) kept_store(1)[OF D1(2)] by (auto simp: engine_store_def)
    have br: "wl_broken (en_log E) \<Longrightarrow> wl_broken (en_log E1)" using broken_due d by metis
    show ?thesis
    proof (cases r)
      case (Inl e)
      have "engine_store (if wl_broken (en_log E1) then Y else ?L) options E' S D1" using B Inl by simp
      moreover have "(if wl_broken (en_log E1) then Y else ?L) \<subseteq> (if wl_broken (en_log E) then X else ?L)" using br by (auto simp: Y_def)
      ultimately have "engine_store (if wl_broken (en_log E) then X else ?L) options E' S D1"
        using store_mono by (fastforce simp: engine_store_def)
      then show ?thesis using se Inl D1(1) by auto
    next
      case (Inr u)
      let ?D = "if append_durable (en_log E) then length S + 1 else D1"
      have i: "engine_store Y options E' (S @ [m]) ?D" "no_leftover (en_log E')" "\<not> wl_broken (en_log E)" "\<not> wl_broken (en_log E')"
        using B Inr ad br by auto
      have "engine_store X options E' (S @ [m]) ?D" using i(1,4) store_not_broken by (auto simp: engine_store_def)
      then show ?thesis using se Inr D1(1) le i by (intro conjI exI[of _ ?D]) auto
    qed
  qed
qed

section \<open>Commands on a collection\<close>

lemma with_journal_inv:
  "coll_inv (with_journal j C) = coll_inv C" "durable_of (with_journal j C) = durable_of C" "view (with_journal j C) = view C"
  "coll_good (with_journal j C) = coll_good C"
  by (simp_all add: with_journal_def coll_inv_def durable_of_def coll_good_def split: option.split)

lemma with_journal_ok: "command_ok (with_journal j C) cmd = command_ok C cmd"
  by (cases cmd) (simp_all add: update_inputs_ok_def matching_def with_journal_def)

lemma journal_with: "co_journal (with_journal j C) = j" "journal_set j' (with_journal j C) = with_journal j' C" "with_journal j' (with_journal j C) = with_journal j' C"
  by (simp_all add: with_journal_def)

lemma replay_good:
  assumes "coll_good C" "ops_fit A (durable_of C) ops" "coll_inv C2" "durable_of C2 = replay ops (durable_of C)" "\<forall>spec \<in> A. spec_durable spec"
  shows "coll_good C2"
proof -
  have specs: "specs_of (co_indexes C2) = snd (replay ops (durable_of C))" using assms(4) by (simp add: durable_of_def prod_eq_iff)
  have good: "specs_ok (snd (durable_of C))" "\<forall>(n, spec) \<in> set (snd (durable_of C)). spec_durable spec"
    using assms(1) by (simp_all add: coll_good_def durable_of_def)
  have "\<forall>(n, spec) \<in> set (snd (replay ops (durable_of C))). spec_durable spec"
    using assms(2)
  proof (cases rule: ops_fit_cases)
    case documents
    have "snd (replay ops st) = snd st" if "\<forall>op \<in> set ops. \<exists>k bs. op = JDelete k \<or> op = JPut k bs" for st
      using that by (induction ops arbitrary: st) (auto simp: replay_def)
    then show ?thesis using good(2) documents by metis
  next
    case (create spec)
    then show ?thesis using good(2) assms(5) by (auto simp: replay_def)
  next
    case (drop name)
    then show ?thesis using good(2) by (auto simp: replay_def AList.delete_eq)
  qed
  then show ?thesis using assms(3) specs specs_ok_replay[OF good(1) assms(2)] by (simp add: coll_good_def)
qed

lemma operations_loggable:
  assumes "name_ok d" "name_ok c" "coll_good C" "ops_fit A (durable_of C) ops" "\<forall>spec \<in> A. spec_durable spec"
  shows "\<forall>op \<in> set (map (toOperation d c) ops). log_operation_ok op"
  using assms(4)
proof (cases rule: ops_fit_cases)
  case documents
  then show ?thesis using assms(1,2) by fastforce
next
  case (create spec)
  then show ?thesis using assms(1,2,5) by (simp add: spec_durable_def)
next
  case (drop name)
  then have "name_ok name" using assms(3) by (fastforce simp: coll_good_def durable_of_def specs_ok_def spec_durable_def)
  then show ?thesis using assms(1,2) drop(1) by simp
qed

text \<open>The contents a command would lead to if its commit were accepted.\<close>

definition accepting :: "'j journal_commit" where
  "accepting ops j = (Inr (), j)"

definition attempted :: "js_string \<Rightarrow> js_string \<Rightarrow> (nat \<Rightarrow> bytes) \<Rightarrow> command \<Rightarrow> engine \<Rightarrow> recovered_state catalog" where
  "attempted d c fresh cmd E = (case getCollection d c E of
     None \<Rightarrow> db_state E
   | Some C \<Rightarrow> catalog_put d c (durable_state (durable_of (snd (run_command accepting fresh cmd (with_journal (Some E) C))))) (db_state E))"

definition run_hosted :: "js_string \<Rightarrow> js_string \<Rightarrow> (nat \<Rightarrow> bytes) \<Rightarrow> command \<Rightarrow> (engine, unit) operation" where
  "run_hosted d c fresh cmd = hosted d c (\<lambda>jc. run_command jc fresh cmd)"

text \<open>What an operation may do to the engine and its states.\<close>

definition advances :: "log_entry set \<Rightarrow> engine_options \<Rightarrow> recovered_state catalog list \<Rightarrow> nat \<Rightarrow> recovered_state catalog \<Rightarrow> engine \<Rightarrow> engine \<Rightarrow> bool" where
  "advances X options S D m E E' \<longleftrightarrow> same_log (en_log E) (en_log E') \<and> (\<exists>D' \<ge> D.
     engine_store (if wl_broken (en_log E) then X else {x. leads (last S) x m}) options E' S D' \<and> at_state S E' \<and>
       (\<not> wl_broken (en_log E') \<longrightarrow> lastLsn (en_log E') = lastLsn (en_log E)) \<or>
     engine_store X options E' (S @ [m]) D' \<and> at_state (S @ [m]) E' \<and> (append_durable (en_log E) \<longrightarrow> D' = length S + 1) \<and>
       \<not> wl_broken (en_log E') \<and> lastLsn (en_log E') \<noteq> lastLsn (en_log E))"

lemma engine_store_lsn:
  assumes "engine_store X options E S D" "\<not> wl_broken (en_log E)"
  shows "lastLsn (en_log E) = length S - 1" "0 < length S"
proof -
  have "store_inv X (wal_options_of options) (checkpoints_directory E) (en_log E) S D" using assms(1) by (simp add: engine_store_def)
  from store_numbers(1,2)[OF this] assms(2) show "lastLsn (en_log E) = length S - 1" "0 < length S" by (simp_all add: lastLsn_def)
qed

lemma engine_store_not_broken: "engine_store X options E S D \<Longrightarrow> \<not> wl_broken (en_log E) \<Longrightarrow> engine_store Y options E S D"
  using store_not_broken by (auto simp: engine_store_def)

lemma engine_store_same: "engine_store X options E S D \<Longrightarrow> en_log E' = en_log E \<Longrightarrow> en_root E' = en_root E \<Longrightarrow> en_settings E' = en_settings E \<Longrightarrow>
    engine_store X options E' S D"
  by (auto simp: engine_store_def checkpoints_directory_def)

lemma store_collection_fields [simp]: "en_log (store_collection d c C E) = en_log E" "en_root (store_collection d c C E) = en_root E"
    "en_settings (store_collection d c C E) = en_settings E" "en_closed (store_collection d c C E) = en_closed E"
  by (simp_all add: store_collection_def)

lemma engine_store_collection [simp]: "engine_store X options (store_collection d c C E) S D = engine_store X options E S D"
  by (simp add: engine_store_def checkpoints_directory_def)

lemma stored_at_state:
  assumes "at_state S E" "name_ok d" "name_ok c" "coll_good C"
  shows "engine_good (store_collection d c C E)" "db_state (store_collection d c C E) = catalog_put d c (durable_state (durable_of C)) (last S)"
proof -
  show "db_state (store_collection d c C E) = catalog_put d c (durable_state (durable_of C)) (last S)"
    using assms(1) by (simp add: at_state_def store_collection_state)
  show "engine_good (store_collection d c C E)"
    using assms entries_all_put by (fastforce simp: at_state_def engine_good_def store_collection_def)
qed

lemma at_state_find:
  assumes "at_state S E" "getCollection d c E = Some C"
  shows "name_ok d" "name_ok c" "coll_good C" "catalog_find d c (last S) = Some (durable_state (durable_of C))"
proof -
  have "entries_all coll_good (en_databases E)" "catalog_find d c (en_databases E) = Some C"
    using assms by (simp_all add: at_state_def engine_good_def getCollection_def)
  from entries_all_find[OF this] show "name_ok d" "name_ok c" "coll_good C" by blast+
  have "catalog_find d c (db_state E) = Some (durable_state (durable_of C))"
    using \<open>catalog_find d c (en_databases E) = Some C\<close> by (simp add: db_state_def catalog_find_map)
  then show "catalog_find d c (last S) = Some (durable_state (durable_of C))" using assms(1) by (simp add: at_state_def)
qed

lemma idle_advances:
  assumes "engine_store X options E S D" "at_state S E'" "en_log E' = en_log E" "en_root E' = en_root E" "en_settings E' = en_settings E"
  shows "advances X options S D m E E'"
proof -
  have "engine_store X options E' S D" using engine_store_same assms by blast
  then have "engine_store (if wl_broken (en_log E) then X else {x. leads (last S) x m}) options E' S D"
    using engine_store_not_broken[of X options E' S D] assms(3) by auto
  then show ?thesis using assms(2,3) by (auto simp: advances_def)
qed

text \<open>A commit to the log, and the collection as it is afterwards.\<close>

lemma commit_step:
  assumes "engine_store X options E S D" "no_leftover (en_log E)" "at_state S E" "append_operations building ops E = (q, E1)"
    and "building = nothing_building \<or> \<not> checkpoint_due E" "\<forall>op \<in> set ops. log_operation_ok op" "apply_all ops (last S) = Inr m" "entries_all state_good m"
    and "\<And>e. q = Inl e \<Longrightarrow> at_state S E'" "q = Inr () \<Longrightarrow> at_state (S @ [m]) E'"
    and "en_log E' = en_log E1" "en_root E' = en_root E1" "en_settings E' = en_settings E1"
  shows "advances X options S D m E E'"
proof -
  note A = append_step[OF assms(1-8)]
  have sl: "same_log (en_log E) (en_log E')" using A assms(11) by (simp add: same_engine_def)
  show ?thesis
  proof (cases q)
    case (Inl e)
    then obtain D' where D': "D \<le> D'" "engine_store (if wl_broken (en_log E) then X else {x. leads (last S) x m}) options E1 S D'" using A by auto
    have es: "engine_store (if wl_broken (en_log E) then X else {x. leads (last S) x m}) options E' S D'" using engine_store_same[OF D'(2) assms(11-13)] .
    have "lastLsn (en_log E') = lastLsn (en_log E)" if nb: "\<not> wl_broken (en_log E')"
    proof -
      have "\<not> wl_broken (en_log E)" using broken_append[OF _ assms(4)] nb assms(11) by metis
      then show ?thesis using engine_store_lsn[OF es] nb engine_store_lsn[OF assms(1)] by simp
    qed
    then show ?thesis using sl es D'(1) assms(9)[OF Inl] unfolding advances_def by blast
  next
    case (Inr u)
    then obtain D' where D': "D \<le> D'" "engine_store X options E1 (S @ [m]) D'" "append_durable (en_log E) \<longrightarrow> D' = length S + 1"
        "\<not> wl_broken (en_log E)" "\<not> wl_broken (en_log E1)" using A by auto
    have es: "engine_store X options E' (S @ [m]) D'" using engine_store_same[OF D'(2) assms(11-13)] .
    have "lastLsn (en_log E') \<noteq> lastLsn (en_log E)"
      using engine_store_lsn[OF es] engine_store_lsn[OF assms(1)] D'(4,5) assms(11) by (cases S) simp_all
    then show ?thesis using sl es D' assms(10,11) Inr unfolding advances_def by auto
  qed
qed

lemma building_nothing:
  assumes "\<forall>spec. JCreateIndex spec \<notin> set ops"
  shows "building_of d c ops = nothing_building"
proof -
  have "List.map_filter (\<lambda>operation. case operation of JCreateIndex spec \<Rightarrow> Some spec | _ \<Rightarrow> None) ops = []"
    using assms by (induction ops) (auto simp: List.map_filter_def split: journal_operation.splits)
  then show ?thesis by (intro ext) (simp add: building_of_def nothing_building_def)
qed

lemma hosted_step:
  assumes "engine_store X options E S D" "no_leftover (en_log E)" "at_state S E" "run_hosted d c fresh cmd E = (r, E')"
    and "getCollection d c E = Some C" "command_ok C cmd" "\<forall>n. length (fresh n) = 16" "\<forall>spec \<in> specs_made cmd. spec_durable spec"
    and "specs_made cmd = {} \<or> \<not> checkpoint_due E"
  shows "advances X options S D (attempted d c fresh cmd E) E E'"
proof -
  let ?C = "with_journal (Some E) C"
  note F = at_state_find[OF assms(3,5)]
  have inv: "coll_inv ?C" "command_ok ?C cmd" "E \<noteq> E\<lparr>en_closed := \<not> en_closed E\<rparr>" "coll_good C"
    using F(3) assms(6) by (auto simp: with_journal_inv with_journal_ok coll_good_def dest: arg_cong[of _ _ en_closed])
  have db: "db_state E = last S" using assms(3) by (simp add: at_state_def)
  have same: "at_state S (store_collection d c (with_journal None C1) E1)"
    if "coll_inv C1" "durable_of C1 = durable_of C" "at_state S E1" for C1 :: "engine collection" and E1
  proof -
    have "coll_good C1" using inv(4) that(1,2) by (simp add: coll_good_def durable_of_def)
    then have g: "coll_good (with_journal None C1 :: unit collection)" by (simp add: with_journal_inv)
    show ?thesis
      using stored_at_state[OF that(3) F(1,2) g] catalog_put_same[OF F(4)] that(2) by (simp add: at_state_def with_journal_inv)
  qed
  from inv(1,2) assms(7) inv(3) show ?thesis
  proof (cases rule: command_plan)
    case (none q C1)
    have "run_command (engine_commit d c) fresh cmd ?C = (q, journal_set (Some E) C1)"
      using none(1)[of "engine_commit d c" "Some E"] by (simp add: journal_with)
    then have "E' = store_collection d c (with_journal None C1) E"
      using assms(4,5) by (simp add: run_hosted_def hosted_def with_journal_def)
    then show ?thesis using idle_advances[OF assms(1)] same[OF none(2) _ assms(3)] none(3) by (simp add: with_journal_inv)
  next
    case (one ops C1 q C2)
    let ?m = "attempted d c fresh cmd E"
    have fit: "ops_fit (specs_made cmd) (durable_of C) ops" using one(2) by (simp add: with_journal_inv)
    have dur: "durable_of C1 = durable_of C" "durable_of C2 = replay ops (durable_of C)" using one(5,7) by (simp_all add: with_journal_inv)
    have "run_command accepting fresh cmd ?C = (q, journal_set (Some E) C2)"
      using one(3)[of accepting E] by (simp add: journal_with accepting_def)
    then have m: "?m = catalog_put d c (durable_state (replay ops (durable_of C))) (last S)"
      using assms(5) dur(2) db by (simp add: attempted_def)
    have good: "coll_good C2" by (rule replay_good[OF inv(4) fit one(6) dur(2) assms(8)])
    then have g2: "coll_good (with_journal None C2 :: unit collection)" by (simp add: with_journal_inv)
    then have "state_good (durable_state (durable_of C2))"
      unfolding state_good_def by (intro exI[of _ "with_journal None C2"]) (simp add: with_journal_inv)
    moreover have "entries_all state_good (last S)" using engine_good_state[of E] assms(3) by (simp add: at_state_def)
    ultimately have all: "entries_all state_good ?m" using entries_all_put F(1,2) dur(2) m by auto
    have specs: "specs_ok (snd (durable_of C))" using inv(4) by (simp add: coll_good_def durable_of_def)
    have ap: "apply_all (map (toOperation d c) ops) (last S) = Inr ?m" unfolding m by (rule apply_ops[OF F(4) specs fit])
    have b: "building_of d c ops = nothing_building \<or> \<not> checkpoint_due E"
    proof (cases "specs_made cmd = {}")
      case True
      then have "\<forall>spec. JCreateIndex spec \<notin> set ops" using fit by (force simp: ops_fit_def)
      then show ?thesis using building_nothing by blast
    qed (use assms(9) in blast)
    obtain a E1 where c: "append_operations (building_of d c ops) (map (toOperation d c) ops) E = (a, E1)" by fastforce
    have se: "at_state S E1" using append_step[OF assms(1-3) c b operations_loggable[OF F(1,2) inv(4) fit assms(8)] ap all] assms(3) at_state_same by blast
    have E': "E' = (case a of Inl e \<Rightarrow> store_collection d c (with_journal None C1) E1 | Inr _ \<Rightarrow> store_collection d c (with_journal None C2) E1)"
      using assms(4,5) one(3)[of "engine_commit d c" E] c
      by (cases a) (auto simp: run_hosted_def hosted_def engine_commit_def with_journal_def)
    show ?thesis
    proof (rule commit_step[OF assms(1-3) c b operations_loggable[OF F(1,2) inv(4) fit assms(8)] ap all])
      show "at_state S E'" if "a = Inl e" for e using same[OF one(4) dur(1) se] E' that by simp
      show "at_state (S @ [?m]) E'" if "a = Inr ()"
        using stored_at_state[OF se F(1,2) g2] E' that m dur(2) by (simp add: at_state_def with_journal_inv)
    qed (use E' in \<open>cases a; simp\<close>)+
  qed
qed

section \<open>Creating a collection\<close>

definition no_documents :: recovered_state where
  "no_documents = \<lparr>rs_documents = [], rs_indexes = []\<rparr>"

definition attempted_open :: "js_string \<Rightarrow> js_string \<Rightarrow> engine \<Rightarrow> recovered_state catalog" where
  "attempted_open d c E = catalog_put d c no_documents (db_state E)"

lemma no_documents_good: "state_good no_documents"
proof -
  let ?C = "empty_collection None [] :: unit collection"
  have "coll_good ?C"
    by (simp add: coll_good_def coll_inv_def docs_inv_def empty_collection_def set_repr_def fam_repr_def all_unique_def specs_of_def specs_ok_def)
  moreover have "no_documents = durable_state (durable_of ?C)"
    by (simp add: no_documents_def durable_state_def durable_of_def empty_collection_def specs_of_def)
  ultimately show ?thesis by (auto simp: state_good_def)
qed

lemma open_collection_step:
  assumes "engine_store X options E S D" "no_leftover (en_log E)" "at_state S E" "openCollection d c E = (r, E')" "name_ok d" "name_ok c"
  shows "advances X options S D (attempted_open d c E) E E'"
proof (cases "getCollection d c E")
  case (Some C)
  then have "E' = E" using assms(4) by (simp add: openCollection_def operation_defs)
  then show ?thesis using idle_advances[OF assms(1,3)] by simp
next
  case None
  let ?m = "attempted_open d c E" and ?ops = "[LCreateCollection d c]"
  have db: "db_state E = last S" "entries_all state_good (last S)" using assms(3) engine_good_state[of E] by (auto simp: at_state_def)
  have "catalog_find d c (last S) = None"
    using None db(1) by (simp add: getCollection_def db_state_def[symmetric] catalog_find_map flip: db(1)) (simp add: db_state_def catalog_find_map)
  then have ap: "apply_all ?ops (last S) = Inr ?m" by (simp add: applyRecovered_def attempted_open_def no_documents_def db(1))
  have all: "entries_all state_good ?m"
    unfolding attempted_open_def db(1) by (rule entries_all_put[OF db(2) assms(5,6) no_documents_good])
  have ok: "\<forall>op \<in> set ?ops. log_operation_ok op" using assms(5,6) by simp
  obtain a E1 where c: "append_operations nothing_building ?ops E = (a, E1)" by fastforce
  have se: "at_state S E1" using append_step[OF assms(1-3) c _ ok ap all] assms(3) at_state_same by blast
  obtain C' where C': "register d c [] [] E1 = (Inr (), store_collection d c C' E1)" "coll_good C'" "durable_state (durable_of C') = no_documents"
    using register_rebuilds[OF no_documents_good, of d c E1] by (auto simp: no_documents_def)
  have E': "E' = (case a of Inl e \<Rightarrow> E1 | Inr _ \<Rightarrow> store_collection d c C' E1)"
    using assms(4) None c C'(1) by (cases a) (auto simp: openCollection_def operation_defs)
  show ?thesis
  proof (rule commit_step[OF assms(1-3) c _ ok ap all])
    show "at_state S E'" if "a = Inl e" for e using se E' that by simp
    show "at_state (S @ [?m]) E'" if "a = Inr ()"
      using stored_at_state[OF se assms(5,6) C'(2)] E' that C'(3) db(1) by (simp add: at_state_def attempted_open_def)
  qed (use E' in \<open>cases a; simp\<close>)+
qed

section \<open>Operations without a commit\<close>

lemma commit_log_step:
  assumes "engine_store X options E S D" "no_leftover (en_log E)" "engine_commit_log E = (r, E')"
  shows "kept X options E E' S (if r = Inr () \<and> hasUncommittedWrites E \<and> \<not> wl_closed (en_log E) \<and> wl_mode (en_log E) \<noteq> Memory then length S else D)"
proof (cases "en_closed E")
  case True
  then have "E' = E" "\<not> hasUncommittedWrites E" using assms(3) by (simp_all add: engine_commit_log_def operation_defs hasUncommittedWrites_def)
  then show ?thesis using kept_refl[OF assms(1,2)] by simp
next
  case False
  obtain w where w: "wal_commit (en_log E) = (r, w)" "E' = E\<lparr>en_log := w\<rparr>"
    using assms(3) False by (auto simp: engine_commit_log_def operation_defs on_log_def split: prod.splits)
  have si: "store_inv X (wal_options_of options) (checkpoints_directory E) (en_log E) S D" using assms(1) by (simp add: engine_store_def)
  show ?thesis unfolding w(2) using keptI[OF assms(1)] store_commit[OF si assms(2) w(1)] False by (auto simp: hasUncommittedWrites_def)
qed

lemma flush_tick_step:
  assumes "engine_store X options E S D" "no_leftover (en_log E)" "flush_tick E = (r, E')"
  shows "\<exists>D' \<ge> D. kept X options E E' S D'"
proof -
  obtain q w where w: "wal_flush (en_log E) = (q, w)" by fastforce
  have E': "E' = E\<lparr>en_log := w\<rparr>" using assms(3) w by (cases q) (simp_all add: flush_tick_def on_log_def operation_defs)
  have si: "store_inv X (wal_options_of options) (checkpoints_directory E) (en_log E) S D" using assms(1) by (simp add: engine_store_def)
  then have "kept X options E E' S (if q = Inr () \<and> wl_mode (en_log E) \<noteq> Flushed then length S else D)"
    unfolding E' using keptI[OF assms(1)] store_flush[OF si assms(2) w] by blast
  then show ?thesis using store_numbers(3)[OF si] by (intro exI conjI) auto
qed

lemma tick_step:
  assumes "engine_store X options E S D" "no_leftover (en_log E)" "at_state S E" "checkpoint_tick E = (r, E')"
  shows "\<exists>D' \<ge> D. kept X options E E' S D'"
proof -
  obtain q E1 where c: "checkpoint E = (q, E1)" by fastforce
  obtain D1 where D1: "D \<le> D1" "kept X options E E1 S D1" using checkpoint_step[OF assms(1-3)] c by (auto simp: checkpoint_def)
  have "E' = E \<or> E' = E1 \<or> (\<exists>e. E' = E1\<lparr>en_checkpointFailure := Some e\<rparr>)"
    using assms(4) c by (cases q) (auto simp: checkpoint_tick_def operation_defs split: if_splits)
  then show ?thesis using D1 kept_refl[OF assms(1,2)] by auto
qed

lemma close_step:
  assumes "engine_store X options E S D" "no_leftover (en_log E)" "at_state S E" "close_engine E = (r, E')"
  shows "\<exists>D' \<ge> D. engine_store X options E' S D' \<and> at_state S E' \<and> same_log (en_log E) (en_log E')"
proof (cases "en_closed E")
  case True
  then have "E' = E" using assms(4) by (simp add: close_engine_def operation_defs)
  then show ?thesis using assms(1,3) by auto
next
  case False
  obtain q E1 where c: "checkpoint E = (q, E1)" by fastforce
  obtain D1 where D1: "D \<le> D1" "kept X options E E1 S D1" using checkpoint_step[OF assms(1-3)] c by (auto simp: checkpoint_def)
  let ?first = "if st_checkpointOnClose (en_settings E) \<and> en_lastCheckpoint E < lastLsn (en_log E)
      then catchS (bindS checkpoint (\<lambda>_. returnS None)) (\<lambda>e. returnS (Some e)) else returnS None"
  have "\<exists>f E2. ?first E = (Inr f, E2) \<and> (E2 = E \<or> E2 = E1)"
    using c by (cases q) (simp_all add: operation_defs)
  then obtain f E2 where f: "?first E = (Inr f, E2)" "E2 = E \<or> E2 = E1" by blast
  obtain D2 where D2: "D \<le> D2" "kept X options E E2 S D2" using f(2) D1 kept_refl[OF assms(1,2)] by blast
  obtain b w where w: "close_wal (en_log E2) = (b, w)" by fastforce
  have "store_inv X (wal_options_of options) (checkpoints_directory E2) (en_log E2) S D2" using kept_store(1)[OF D2(2)] by (simp add: engine_store_def)
  note C = store_close[OF this kept_store(2)[OF D2(2)] w]
  have E': "E' = E2\<lparr>en_closed := True, en_log := w, en_locked := False\<rparr>"
    using assms(4)[unfolded close_engine_def] False f(1) w
    by (cases b; cases f) (auto simp: operation_defs on_log_def)
  have "kept X options E2 (E2\<lparr>en_log := w\<rparr>) S D2" using keptI[OF kept_store(1)[OF D2(2)]] C by blast
  then have "kept X options E (E2\<lparr>en_log := w\<rparr>) S D2" using kept_trans[OF D2(2)] by blast
  then have "engine_store X options E' S D2" "at_state S E'" "same_log (en_log E) (en_log E')"
    using assms(3) unfolding E' by (auto simp: kept_def engine_store_def same_engine_def at_state_def engine_good_def db_state_def checkpoints_directory_def)
  then show ?thesis using D2(1) by blast
qed

end
