(* ===== verification/Engine_Recovery.thy ===== *)
theory Engine_Recovery
  imports Engine_Operations
begin

text \<open>
  Recovery: whatever snapshot it starts from, an engine that is opened on what a crash left behind
  has the contents of one of the states it went through.
\<close>

section \<open>Recovering\<close>

lemma filter_numbered:
  assumes "n \<le> k + 1" "k < n + length es"
  shows "filter (\<lambda>r. k < wr_lsn r) (numbered n es) = numbered (k + 1) (drop (k + 1 - n) es)"
proof -
  let ?d = "k + 1 - n"
  have "numbered n es = numbered n (take ?d es) @ numbered (k + 1) (drop ?d es)"
    using numbered_append[of n "take ?d es" "drop ?d es"] assms by simp
  moreover have "filter (\<lambda>r. k < wr_lsn r) (numbered n (take ?d es)) = []" by (rule filter_numbered_old) (use assms in simp)
  moreover have "filter (\<lambda>r. k < wr_lsn r) (numbered (k + 1) (drop ?d es)) = numbered (k + 1) (drop ?d es)"
    using numbered_bounds[of _ "k + 1" "drop ?d es"] by (fastforce simp: filter_id_conv)
  ultimately show ?thesis by simp
qed

lemma records_quiet:
  assumes "wal_records k w = (r, w')" "wl_pendingBytes w = 0" "\<not> wl_closed w" "\<not> wl_broken w"
  shows "unchanged w w'"
proof -
  have "wal_flush w = (Inr (), w)" using assms(2-4) by (simp add: wal_flush_def assertWritable_def assertOpen_def operation_defs)
  then have "records_loop k (wl_segments w) w = (r, w')"
    using assms(1,3,4) by (simp add: wal_records_def assertOpen_def operation_defs)
  then show ?thesis by (rule records_loop_unchanged)
qed

text \<open>The snapshot recovery starts from and the records after it.\<close>

lemma base_chain:
  assumes "chain S n0 es" "base_ok (faithful S D) L base" "D \<le> length S"
  defines "l \<equiv> (case base of None \<Rightarrow> 0 | Some (b, _) \<Rightarrow> ck_lsn b)"
  assumes "n0 \<le> l + 1"
  shows "recovered_catalog (case base of None \<Rightarrow> [] | Some (b, _) \<Rightarrow> ck_collections b) = S ! l" "l < length S"
    "chain S (l + 1) (drop (l + 1 - n0) es)"
proof -
  have S: "length S = n0 + length es" "hd S = []" "0 < n0" using assms(1) by (simp_all add: chain_def)
  have "recovered_catalog (case base of None \<Rightarrow> [] | Some (b, _) \<Rightarrow> ck_collections b) = S ! l \<and> l < length S"
  proof (cases base)
    case None
    then show ?thesis using S by (cases S) (simp_all add: l_def recovered_catalog_def)
  next
    case (Some p)
    then show ?thesis using assms(2,3) by (cases p) (auto simp: l_def base_ok_def faithful_def)
  qed
  then show "recovered_catalog (case base of None \<Rightarrow> [] | Some (b, _) \<Rightarrow> ck_collections b) = S ! l" and l: "l < length S" by blast+
  have "n0 + (l + 1 - n0) = l + 1" using assms(5) by simp
  then show "chain S (l + 1) (drop (l + 1 - n0) es)" using chain_drop[OF assms(1), of "l + 1 - n0"] l S(1) by simp
qed

lemma newest_covers:
  assumes "store_inv X options dir w S D" "covered n0 D dir w" "\<forall>l. l \<in> set ls \<longleftrightarrow> l < 10 ^ 20 \<and> has_snapshot dir False l w"
    and "sorted_wrt (>) ls" "ls \<noteq> [] \<longrightarrow> l = hd ls"
  shows "n0 \<le> l + 1"
proof (cases "n0 = 1")
  case False
  then obtain k where k: "n0 \<le> k + 1" "k + 1 < D" "has_snapshot dir (wl_mode w = Flushed) k w" using assms(2) by (auto simp: covered_def)
  have "k < 10 ^ 20" by (rule small_lsn) (use k(2) store_numbers(3,4)[OF assms(1)] in linarith)
  then have "k \<in> set ls" using assms(3) has_snapshot_weaken[OF k(3), of False] by blast
  then obtain a as where ls: "ls = a # as" by (cases ls) simp_all
  have "k \<le> a" using \<open>k \<in> set ls\<close> assms(4) unfolding ls by auto
  moreover have "l = a" using assms(5) ls by simp
  ultimately show ?thesis using k(1) by linarith
qed simp

lemma clean_inv_first: "clean_inv X w n0 gs xs D \<Longrightarrow> firstLsn w = n0"
  by (cases gs) (simp_all add: clean_inv_segments firstLsn_def segment_at_def log_end_def)

text \<open>Everything recovery does before it rebuilds the collections.\<close>

definition recover_log :: "js_string \<Rightarrow> (wal, (read_checkpoint \<times> js_string) option \<times> js_string list) operation" where
  "recover_log dir = bindS (removeTemporaryCheckpoints dir) (\<lambda>_. bindS (listCheckpoints dir) (\<lambda>listed. choose_base listed []))"

lemma store_distinct: "store_inv X options dir w S D \<Longrightarrow> distinct (map fst (os_files w))"
  by (auto simp: store_inv_def log_holds_def log_inv_def disk_log_def Let_def)

lemma recover_log_step:
  assumes "store_inv X options dir w S D" "no_leftover w" "recover_log dir w = (r, w')"
  shows "store_inv X options dir w' S D" "no_leftover w'" "quiet w w'"
    "(\<exists>e. r = Inl e \<and> os_faults w \<noteq> []) \<or> (\<exists>base skipped L. r = Inr (base, skipped) \<and> base_ok (faithful S D) L base \<and>
       (os_faults w = [] \<longrightarrow> (\<forall>n0. covered n0 D dir w' \<longrightarrow> n0 \<le> (case base of None \<Rightarrow> 0 | Some (b, _) \<Rightarrow> ck_lsn b) + 1)))"
proof -
  obtain r1 w1 where t: "removeTemporaryCheckpoints dir w = (r1, w1)" by fastforce
  note T = removeTemporary_run[OF t store_distinct[OF assms(1)]]
  have ok: "snapshots_ok (faithful S D) dir w" using assms(1) by (auto simp: store_inv_def)
  have cv: "n0 = 1 \<or> (\<exists>l. n0 \<le> l + 1 \<and> l + 1 < D \<and> has_snapshot dir (wl_mode w = Flushed) l w1)" if "covered n0 D dir w" for n0
  proof -
    have "has_snapshot dir F l w1" if "l + 1 < D" "has_snapshot dir F l w" for F l
      using T(3)[OF small_lsn that(2)] that(1) store_numbers(3,4)[OF assms(1)] by linarith
    then show ?thesis using that unfolding covered_def by blast
  qed
  have S1: "store_inv X options dir w1 S D" "no_leftover w1"
    using store_touched[OF assms(1) T(1) T(2)[OF ok] refl cv] assms(2) by blast+
  have q1: "quiet w w1" using T(1) by (simp add: touched_def)
  obtain r2 w2 where l: "listCheckpoints dir w1 = (r2, w2)" by fastforce
  note L = listCheckpoints_run[OF l store_distinct[OF S1(1)]]
  note S2 = store_unchanged[OF S1(1) L(1)]
  have q2: "quiet w w2" using quiet_trans[OF q1 unchanged_quiet[OF L(1)]] .
  have "store_inv X options dir w' S D \<and> no_leftover w' \<and> quiet w w' \<and> ((\<exists>e. r = Inl e \<and> os_faults w \<noteq> []) \<or> (\<exists>base skipped L. r = Inr (base, skipped) \<and> base_ok (faithful S D) L base \<and>
       (os_faults w = [] \<longrightarrow> (\<forall>n0. covered n0 D dir w' \<longrightarrow> n0 \<le> (case base of None \<Rightarrow> 0 | Some (b, _) \<Rightarrow> ck_lsn b) + 1))))"
  proof (cases r1)
    case (Inl e)
    then have "r = Inl e" "w' = w1" using assms(3) t by (simp_all add: recover_log_def bindS_def)
    then show ?thesis using S1 assms(2) q1 T(4) Inl by auto
  next
    case (Inr n)
    show ?thesis
    proof (cases r2)
      case (Inl e)
      then have "r = Inl e" "w' = w2" using assms(3) t Inr l by (simp_all add: recover_log_def bindS_def)
      then show ?thesis using S2(1) S2(2)[OF S1(2)] q2 L(2) Inl quiet_faults[OF q1] by auto
    next
      case (Inr listed)
      then obtain ls where ls: "listed = map (snapshot_listed dir) ls" "sorted_wrt (>) ls"
          "\<forall>l. l \<in> set ls \<longleftrightarrow> l < 10 ^ 20 \<and> has_snapshot dir False l w1" using L(2) by auto
      have c: "choose_base (map (snapshot_listed dir) ls) [] w2 = (r, w')"
        using assms(3) t \<open>r1 = Inr n\<close> l Inr ls(1) by (simp add: recover_log_def bindS_def)
      have h: "has_snapshot dir F x w2 = has_snapshot dir F x w1" for F x using unchanged_file[OF L(1)] by (simp add: has_snapshot_def)
      have ok2: "snapshots_ok (faithful S D) dir w2" using S2(1) by (auto simp: store_inv_def)
      have in2: "\<forall>l \<in> set ls. l < 10 ^ 20 \<and> has_snapshot dir False l w2" using ls(3) h by simp
      note C = choose_base_run[OF c ok2 in2]
      obtain base sk where b: "unchanged w2 w'" "r = Inr (base, sk)" "base_ok (faithful S D) (set ls) base"
          "os_faults w2 = [] \<longrightarrow> ls \<noteq> [] \<longrightarrow> (\<exists>b file. base = Some (b, file) \<and> ck_lsn b = hd ls)" using C by blast
      note S3 = store_unchanged[OF S2(1) b(1)]
      have h3: "has_snapshot dir F x w' = has_snapshot dir F x w1" for F x using unchanged_file[OF b(1)] h by (simp add: has_snapshot_def)
      let ?l = "case base of None \<Rightarrow> 0 | Some (b, _) \<Rightarrow> ck_lsn b"
      have "n0 \<le> ?l + 1" if f: "os_faults w = []" and cv: "covered n0 D dir w'" for n0
      proof (rule newest_covers[OF S3(1) cv _ ls(2)])
        show "\<forall>l. l \<in> set ls \<longleftrightarrow> l < 10 ^ 20 \<and> has_snapshot dir False l w'" using ls(3) h3 by simp
        show "ls \<noteq> [] \<longrightarrow> ?l = hd ls" using b(4) quiet_faults[OF q2 f] by auto
      qed
      then show ?thesis using S3(1) S3(2)[OF S2(2)[OF S1(2)]] quiet_trans[OF q2 unchanged_quiet[OF b(1)]] b(2,3) by blast
    qed
  qed
  then show "store_inv X options dir w' S D" "no_leftover w'" "quiet w w'"
    "(\<exists>e. r = Inl e \<and> os_faults w \<noteq> []) \<or> (\<exists>base skipped L. r = Inr (base, skipped) \<and> base_ok (faithful S D) L base \<and>
       (os_faults w = [] \<longrightarrow> (\<forall>n0. covered n0 D dir w' \<longrightarrow> n0 \<le> (case base of None \<Rightarrow> 0 | Some (b, _) \<Rightarrow> ck_lsn b) + 1)))" by blast+
qed

lemma on_log_bind: "on_log (bindS m f) = bindS (on_log m) (\<lambda>x. on_log (f x))"
  by (intro ext) (auto simp: on_log_def bindS_def split: prod.splits sum.splits)

lemma bindS_assoc: "bindS (bindS m f) g = bindS m (\<lambda>x. bindS (f x) g)"
  by (intro ext) (auto simp: bindS_def split: prod.splits sum.splits)

lemma recover_split:
  "recover E = bindS (on_log (recover_log (checkpoints_directory E))) (\<lambda>(base, skipped).
     let baseLsn = (case base of None \<Rightarrow> 0 | Some (b, _) \<Rightarrow> ck_lsn b);
         collections = (case base of None \<Rightarrow> [] | Some (b, _) \<Rightarrow> ck_collections b)
     in
     bindS (getsS (\<lambda>E. if firstLsn (en_log E) > baseLsn + 1 \<or> lastLsn (en_log E) < baseLsn then Inl corruption else Inr ())) (\<lambda>_.
     bindS (on_log (wal_records baseLsn)) (\<lambda>records.
     bindS (replay_records records (recovered_catalog collections)) (\<lambda>recovered.
     bindS (register_all (catalog_entries recovered)) (\<lambda>rebuilt.
     modifyS (\<lambda>E. E\<lparr>en_lastCheckpoint := baseLsn,
       en_report := \<lparr>rp_checkpointLsn = baseLsn, rp_checkpointFile = map_option snd base,
         rp_skippedCheckpoints = skipped, rp_replayedRecords = length records,
         rp_rebuiltIndexes = rebuilt, rp_lastLsn = lastLsn (en_log E)\<rparr>\<rparr>)))))) E"
  unfolding recover_def recover_log_def on_log_bind bindS_assoc
  by (simp only: bindS_def[of "getsS (\<lambda>E. Inr (checkpoints_directory E))"] getsS_def prod.case sum.case)

text \<open>An engine whose log has just been opened.\<close>

definition opened :: "engine \<Rightarrow> bool" where
  "opened E \<longleftrightarrow> \<not> wl_closed (en_log E) \<and> \<not> wl_broken (en_log E) \<and> wl_pendingBytes (en_log E) = 0 \<and> en_databases E = []"

lemma quiet_engine:
  assumes "engine_store X options E S D" "store_inv X (wal_options_of options) (checkpoints_directory E) w S D"
  shows "engine_store X options (E\<lparr>en_log := w, en_bytesSinceCheckpoint := n, en_databases := M, en_lastCheckpoint := l, en_report := p\<rparr>) S D"
  using assms by (simp add: engine_store_def checkpoints_directory_def)

text \<open>Replaying the records after the snapshot and rebuilding the collections.\<close>

lemma rebuild_run:
  assumes "chain S (l + 1) es" "en_databases E = []"
  shows "\<exists>k n M. bindS (replay_records (numbered (l + 1) es) (S ! l)) (\<lambda>recovered. register_all (catalog_entries recovered)) E =
      (Inr k, E\<lparr>en_bytesSinceCheckpoint := n, en_databases := M\<rparr>) \<and> engine_good (E\<lparr>en_bytesSinceCheckpoint := n, en_databases := M\<rparr>) \<and>
      db_state (E\<lparr>en_bytesSinceCheckpoint := n, en_databases := M\<rparr>) = last S"
proof -
  obtain n where n: "replay_records (numbered (l + 1) es) (S ! l) E = (Inr (last S), E\<lparr>en_bytesSinceCheckpoint := n\<rparr>)"
    using replay_records_run[OF assms(1), of E] by auto
  have "entries_all state_good (last S)" using assms(1) chain_nonempty[OF assms(1)] by (simp add: chain_def)
  then show ?thesis using contents_rebuilt[of "last S" "E\<lparr>en_bytesSinceCheckpoint := n\<rparr>"] assms(2) n by (auto simp: bindS_def)
qed

lemma recover_step:
  assumes "engine_store X options E S D" "no_leftover (en_log E)" "opened E" "recover E = (r, E')"
  shows "(\<exists>e. r = Inl e) \<and> os_faults (en_log E) \<noteq> [] \<or>
    r = Inr () \<and> engine_store X options E' S D \<and> at_state S E' \<and> no_leftover (en_log E') \<and> quiet (en_log E) (en_log E') \<and>
      en_closed E' = en_closed E"
proof -
  let ?dir = "checkpoints_directory E" and ?o = "wal_options_of options"
  have si: "store_inv X ?o ?dir (en_log E) S D" using assms(1) by (simp add: engine_store_def)
  obtain q w1 where rl: "recover_log ?dir (en_log E) = (q, w1)" by fastforce
  note R = recover_log_step[OF si assms(2) rl]
  note body = assms(4)[unfolded recover_split]
  have on: "on_log (recover_log ?dir) E = (q, E\<lparr>en_log := w1\<rparr>)" using on_log_Pair[of "recover_log ?dir" E, OF rl] .
  show ?thesis
  proof (cases q)
    case (Inl e)
    then show ?thesis using R(4) body on by (auto simp: bindS_def)
  next
    case (Inr p)
    then obtain base skipped L where b: "q = Inr (base, skipped)" "base_ok (faithful S D) L base"
        "os_faults (en_log E) = [] \<longrightarrow> (\<forall>n0. covered n0 D ?dir w1 \<longrightarrow> n0 \<le> (case base of None \<Rightarrow> 0 | Some (b, _) \<Rightarrow> ck_lsn b) + 1)"
      using R(4) by auto
    let ?l = "case base of None \<Rightarrow> 0 | Some (b, _) \<Rightarrow> ck_lsn b"
    let ?cs = "case base of None \<Rightarrow> [] | Some (b, _) \<Rightarrow> ck_collections b"
    let ?E1 = "E\<lparr>en_log := w1\<rparr>"
    note q1 = quiet_fields[OF R(3)]
    obtain n0 gs xs where i: "chain S n0 (concat gs @ xs)" "covered n0 D ?dir w1" "clean_inv X w1 n0 gs xs D"
      by (rule store_invE[OF R(1,2)]) blast
    have first: "firstLsn w1 = n0" by (rule clean_inv_first[OF i(3)])
    have nb: "\<not> wl_broken w1" "\<not> wl_closed w1" "wl_pendingBytes w1 = 0" using assms(3) q1 by (simp_all add: opened_def)
    have last: "lastLsn w1 = length S - 1" using store_numbers(1)[OF R(1) nb(1)] by (simp add: lastLsn_def)
    obtain s w2 where rec: "wal_records ?l w1 = (s, w2)" by fastforce
    have u2: "unchanged w1 w2" by (rule records_quiet[OF rec nb(3,2,1)])
    note S2 = store_unchanged[OF R(1) u2]
    have q2: "quiet (en_log E) w2" using quiet_trans[OF R(3) unchanged_quiet[OF u2]] .
    have D: "D \<le> length S" by (rule store_numbers(3)[OF R(1)])
    have D_l: "?l < length S" using b(2) D store_numbers(2)[OF R(1)] by (auto simp: base_ok_def faithful_def split: option.splits)
    show ?thesis
    proof (cases "n0 \<le> ?l + 1")
      case False
      then have "os_faults (en_log E) \<noteq> []" using b(3) i(2) by blast
      moreover have "\<exists>e. r = Inl e" using body on b(1) False first by (auto simp: bindS_def getsS_def Let_def)
      ultimately show ?thesis by blast
    next
      case True
      note B = base_chain[OF i(1) b(2) D True]
      have check: "getsS (\<lambda>E. if firstLsn (en_log E) > ?l + 1 \<or> lastLsn (en_log E) < ?l then Inl corruption else Inr ()) ?E1 = (Inr (), ?E1)"
        using True first last D_l by (simp add: getsS_def)
      have orec: "on_log (wal_records ?l) ?E1 = (s, E\<lparr>en_log := w2\<rparr>)" using rec by (simp add: on_log_def)
      have rest: "bindS (on_log (wal_records ?l)) (\<lambda>records. bindS (replay_records records (recovered_catalog ?cs)) (\<lambda>recovered.
           bindS (register_all (catalog_entries recovered)) (\<lambda>rebuilt. modifyS (\<lambda>E. E\<lparr>en_lastCheckpoint := ?l,
             en_report := \<lparr>rp_checkpointLsn = ?l, rp_checkpointFile = map_option snd base, rp_skippedCheckpoints = skipped,
               rp_replayedRecords = length records, rp_rebuiltIndexes = rebuilt, rp_lastLsn = lastLsn (en_log E)\<rparr>\<rparr>)))) ?E1 = (r, E')"
        using body on b(1) check by (simp add: bindS_def Let_def)
      from records_run(3)[OF i(3) rec nb(2,1)] show ?thesis
      proof
        assume "\<exists>e. s = Inl e \<and> os_faults w1 \<noteq> []"
        then show ?thesis using rest orec quiet_faults[OF R(3)] by (auto simp: bindS_def)
      next
        assume "s = Inr (filter (\<lambda>r. ?l < wr_lsn r) (numbered n0 (concat gs @ xs)))"
        then have s: "s = Inr (numbered (?l + 1) (drop (?l + 1 - n0) (concat gs @ xs)))"
          using filter_numbered[OF True] D_l i(1) by (simp add: chain_def)
        obtain k n M where M: "bindS (replay_records (numbered (?l + 1) (drop (?l + 1 - n0) (concat gs @ xs))) (recovered_catalog ?cs))
              (\<lambda>recovered. register_all (catalog_entries recovered)) (E\<lparr>en_log := w2\<rparr>) =
              (Inr k, E\<lparr>en_log := w2, en_bytesSinceCheckpoint := n, en_databases := M\<rparr>)"
            "engine_good (E\<lparr>en_log := w2, en_bytesSinceCheckpoint := n, en_databases := M\<rparr>)"
            "db_state (E\<lparr>en_log := w2, en_bytesSinceCheckpoint := n, en_databases := M\<rparr>) = last S"
          using rebuild_run[OF B(3), of "E\<lparr>en_log := w2\<rparr>"] B(1) assms(3) by (auto simp: opened_def)
        have "r = Inr ()" "\<exists>p. E' = E\<lparr>en_log := w2, en_bytesSinceCheckpoint := n, en_databases := M, en_lastCheckpoint := ?l, en_report := p\<rparr>"
          using rest orec s M(1) by (auto simp: bindS_def modifyS_def split: prod.splits sum.splits)
        then show ?thesis using quiet_engine[OF assms(1) S2(1)] S2(2)[OF R(2)] q2 M(2,3) by (auto simp: at_state_def engine_good_def db_state_def)
      qed
    qed
  qed
qed

section \<open>Reopening\<close>

text \<open>The states of which a reopened log is a prefix: those there were, and perhaps one more.\<close>

definition reopened_from :: "log_entry set \<Rightarrow> recovered_state catalog list \<Rightarrow> recovered_state catalog list \<Rightarrow> bool" where
  "reopened_from X S S' \<longleftrightarrow> S' = take (length S') S \<or> (\<exists>x \<in> X. \<exists>m. leads (last S) x m \<and> S' = S @ [m])"

lemma open_wal_pending: "open_wal options st = (Inr w, st') \<Longrightarrow> wl_pendingBytes w = 0"
proof -
  assume "open_wal options st = (Inr w, st')"
  then show ?thesis
  proof (cases rule: open_wal_steps)
    case (recovers st1 r1 st2)
    then obtain rv where "open_recovered options rv st2 = (Inr w, st')" by (cases r1) auto
    then show ?thesis by (auto simp: open_recovered_def bindS_def getsS_def new_wal_def os.defs split: if_splits prod.splits sum.splits)
  qed simp_all
qed

lemma chain_reopened:
  assumes "chain S n0 es" "length ex \<le> 1" "set ex \<subseteq> X" "\<forall>x \<in> X. \<exists>m. leads (last S) x m"
  shows "\<exists>S'. chain S' n0 (take k (es @ ex)) \<and> reopened_from X S S' \<and> (\<forall>l < length S. l < length S' \<longrightarrow> S' ! l = S ! l)"
proof (cases "ex = [] \<or> k \<le> length es")
  case True
  let ?k = "min k (length es)"
  have "take k (es @ ex) = take ?k es" using True by (auto simp: min_def)
  moreover have "chain (take (n0 + ?k) S) n0 (take ?k es)" by (rule chain_take[OF assms(1)]) simp
  moreover have "reopened_from X S (take (n0 + ?k) S)" by (simp add: reopened_from_def min_def)
  ultimately show ?thesis by (intro exI[of _ "take (n0 + ?k) S"]) auto
next
  case False
  then obtain x where x: "ex = [x]" "x \<in> X" using assms(2,3) by (cases ex) auto
  then obtain m where m: "leads (last S) x m" using assms(4) by blast
  have "take k (es @ ex) = es @ [x]" using False x(1) by simp
  then show ?thesis using chain_snoc[OF assms(1) m] m x(2) by (intro exI[of _ "S @ [m]"]) (auto simp: reopened_from_def nth_append)
qed

lemma reopen_store:
  assumes "store_inv X options dir w S D" "log_crash w st" "open_wal options st = (r, st')" "\<forall>x \<in> X. \<exists>m. leads (last S) x m"
  shows "(\<exists>e. r = Inl e) \<and> os_faults st \<noteq> [] \<or>
    (\<exists>w' S'. r = Inr w' \<and> reopened_from X S S' \<and> store_inv {} options dir w' S' D \<and> no_leftover w' \<and> \<not> wl_closed w' \<and> \<not> wl_broken w' \<and>
      wl_pendingBytes w' = 0 \<and> set (os_faults w') \<subseteq> set (os_faults st))"
proof -
  obtain n0 es where i: "log_holds X options w n0 es D" "chain S n0 es" "in_dir (wo_directory options) w" "dir \<noteq> wo_directory options"
      "snapshots_ok (faithful S D) dir w" "covered n0 D dir w" using assms(1) by (auto simp: store_inv_def)
  show ?thesis
  proof (cases r)
    case (Inl e)
    then show ?thesis using reopen_holds[OF i(1) assms(2,3)] by auto
  next
    case (Inr w')
    then obtain gs xs k ex where g: "clean_inv {} w' n0 gs xs D" "opened_with options w'" "concat gs @ xs = take k (es @ ex)" "length ex \<le> 1" "set ex \<subseteq> X"
        "set (os_faults w') \<subseteq> set (os_faults st)" using reopen_holds[where Y = "{}", OF i(1) assms(2,3)] by auto
    have op: "open_wal options st = (Inr w', st')" using assms(3) Inr by simp
    note O = open_wal_state[OF op] and F = open_wal_frame[OF op] and P = open_wal_pending[OF op]
    obtain S' where S': "chain S' n0 (concat gs @ xs)" "reopened_from X S S'" "\<forall>l < length S. l < length S' \<longrightarrow> S' ! l = S ! l"
      using chain_reopened[OF i(2) g(4,5) assms(4), of k] g(3) by auto
    have h: "log_holds {} options w' n0 (concat gs @ xs) D" using clean_holds[OF O(1) g(2) same_log_refl refl g(1)] .
    have D: "D \<le> length S" "D \<le> length S'" using store_numbers(3)[OF assms(1)] holds_lsn[OF h] S'(1) by (simp_all add: chain_def)
    have mode: "wl_mode w' = wl_mode w" using holds_mode[OF h] holds_mode[OF i(1)] by simp
    have "snapshots_ok (faithful S D) dir w'"
      using i(4) by (intro outside_snapshots[OF F(1) _ crash_snapshots(1)[OF assms(2) i(5)]]) auto
    then have "snapshots_ok (faithful S' D) dir w'"
      by (rule snapshots_ok_mono) (use S'(3) D in \<open>auto simp: faithful_def\<close>)
    moreover have "has_snapshot dir (wl_mode w' = Flushed) l w'" if "has_snapshot dir (wl_mode w = Flushed) l w" for l
      using crash_snapshots(2)[OF assms(2) that] outside_has_snapshot[OF F(1), of dir l] i(4) mode by (simp add: snapshot_path_def)
    then have "covered n0 D dir w'" using i(6) unfolding covered_def by blast
    ultimately have "store_inv {} options dir w' S' D" unfolding store_inv_def using h S'(1) F(2) i(4) by blast
    then show ?thesis using Inr S'(2) clean_no_leftover[OF g(1)] O(2,3) P g(6) by blast
  qed
qed

end
