(* ===== verification/Engine_History.thy ===== *)
theory Engine_History
  imports Engine_Recovery
begin

text \<open>
  The histories of an engine: it is created in an empty directory, its collections are created and
  changed, the log is committed and flushed, checkpoints are taken, it is closed, it crashes and is
  opened again, and any call of the operating system may fail. What it holds after a crash is one of
  the states it went through, no earlier than the last one acknowledged as durable.
\<close>

section \<open>Opening\<close>

definition retains :: "settings \<Rightarrow> bool" where
  "retains settings \<longleftrightarrow> 2 \<le> st_checkpointRetention settings \<and> stage_harmless (st_onCheckpointStage settings)"

lemma settings_retain: "engine_settings options = Inr settings \<Longrightarrow> stage_harmless (eo_onCheckpointStage options) \<Longrightarrow> retains settings"
  by (auto simp: engine_settings_def retains_def positive_setting_def Let_def nat_le_iff le_nat_iff split: if_splits)

lemma checkpoints_apart: "d @ js ''/checkpoints'' \<noteq> d @ js ''/wal''"
  by (simp add: js_def)

lemma new_engine_fields [simp]:
  "en_log (new_engine d w settings) = w" "en_root (new_engine d w settings) = d" "en_settings (new_engine d w settings) = settings"
  "checkpoints_directory (new_engine d w settings) = d @ js ''/checkpoints''" "en_databases (new_engine d w settings) = []"
  by (simp_all add: new_engine_def checkpoints_directory_def)

text \<open>An engine on a log in order: recovery succeeds, or a call of the operating system fails.\<close>

lemma open_engine_run:
  assumes "open_engine options settings st = (r, st')" "open_wal (wal_options_of options) st = (Inr w, st1)" "retains settings"
    and "store_inv {} (wal_options_of options) (eo_directory options @ js ''/checkpoints'') w S D"
    and "no_leftover w" "\<not> wl_closed w" "\<not> wl_broken w" "wl_pendingBytes w = 0"
  shows "(\<exists>e. r = Inl e) \<and> os_faults w \<noteq> [] \<or>
    (\<exists>E. r = Inr E \<and> engine_store {} options E S D \<and> at_state S E \<and> no_leftover (en_log E) \<and> quiet w (en_log E) \<and> lastLsn (en_log E) = length S - 1 \<and>
      \<not> en_closed E)"
proof -
  let ?E = "new_engine (eo_directory options) w settings"
  obtain q E where rc: "recover ?E = (q, E)" by fastforce
  have es: "engine_store {} options ?E S D" using assms(3,4) by (simp add: engine_store_def retains_def)
  have "opened ?E" using assms(6-8) by (simp add: opened_def)
  from recover_step[OF es _ this rc, unfolded new_engine_fields, OF assms(5)] show ?thesis
  proof (elim disjE conjE)
    assume "\<exists>e. q = Inl e" "os_faults w \<noteq> []"
    then show ?thesis using assms(1,2) rc by (auto simp: open_engine_def split: prod.splits sum.splits)
  next
    assume a: "q = Inr ()" "engine_store {} options E S D" "at_state S E" "no_leftover (en_log E)" "quiet w (en_log E)"
      "en_closed E = en_closed ?E"
    have "\<not> wl_broken (en_log E)" using a(5) assms(7) quiet_fields[OF a(5)] by simp
    then show ?thesis using a assms(1,2) rc engine_store_lsn[OF a(2)] by (auto simp: open_engine_def new_engine_def)
  qed
qed

lemma reopen_engine:
  assumes "engine_store X options E S D" "log_crash (en_log E) st" "retains settings" "open_engine options settings st = (r, st')"
    and "\<forall>x \<in> X. \<exists>m. leads (last S) x m"
  shows "(\<exists>e. r = Inl e) \<and> os_faults st \<noteq> [] \<or> (\<exists>E' S'. r = Inr E' \<and> reopened_from X S S' \<and> engine_store {} options E' S' D \<and> at_state S' E' \<and>
    no_leftover (en_log E') \<and> lastLsn (en_log E') = length S' - 1 \<and> set (os_faults (en_log E')) \<subseteq> set (os_faults st))"
proof -
  let ?dir = "eo_directory options @ js ''/checkpoints''"
  have si: "store_inv X (wal_options_of options) ?dir (en_log E) S D" using assms(1) by (auto simp: engine_store_def checkpoints_directory_def)
  obtain q st1 where o: "open_wal (wal_options_of options) st = (q, st1)" by fastforce
  from reopen_store[OF si assms(2) o assms(5)] show ?thesis
  proof (elim disjE conjE exE)
    fix e
    assume "q = Inl e" "os_faults st \<noteq> []"
    then show ?thesis using assms(4) o by (auto simp: open_engine_def)
  next
    fix w S'
    assume a: "q = Inr w" "reopened_from X S S'" "store_inv {} (wal_options_of options) ?dir w S' D" "no_leftover w" "\<not> wl_closed w"
      "\<not> wl_broken w" "wl_pendingBytes w = 0" "set (os_faults w) \<subseteq> set (os_faults st)"
    from open_engine_run[OF assms(4) o[unfolded a(1)] assms(3) a(3-7)] show ?thesis
    proof (elim disjE conjE exE)
      fix e
      assume "r = Inl e" "os_faults w \<noteq> []"
      then show ?thesis using a(8) by auto
    next
      fix E'
      assume b: "r = Inr E'" "engine_store {} options E' S' D" "at_state S' E'" "no_leftover (en_log E')" "quiet w (en_log E')"
        "lastLsn (en_log E') = length S' - 1"
      then show ?thesis using a(2,8) by (auto simp: quiet_def)
    qed
  qed
qed

text \<open>The directory of an engine before it is created: no segment and no snapshot.\<close>

definition empty_directory :: "engine_options \<Rightarrow> os \<Rightarrow> bool" where
  "empty_directory options st \<longleftrightarrow> distinct (map fst (os_files st)) \<and>
     (\<forall>name. file_at (eo_directory options @ js ''/wal'', name) st = None \<and> file_at (eo_directory options @ js ''/checkpoints'', name) st = None)"

lemma create_engine:
  assumes "empty_directory options st" "option_mode (wal_options_of options) = Flushed \<longrightarrow> flushes_directories st"
    and "retains settings" "valid_options (wal_options_of options)" "open_engine options settings st = (r, st')"
  shows "(\<exists>e. r = Inl e) \<and> os_faults st \<noteq> [] \<or>
    (\<exists>E. r = Inr E \<and> engine_store {} options E [[]] 1 \<and> at_state [[]] E \<and> no_leftover (en_log E) \<and> set (os_faults (en_log E)) \<subseteq> set (os_faults st) \<and>
      \<not> en_closed E \<and> \<not> wl_closed (en_log E) \<and> \<not> wl_broken (en_log E))"
proof -
  let ?o = "wal_options_of options" and ?dir = "eo_directory options @ js ''/checkpoints''"
  obtain q st1 where o: "open_wal ?o st = (q, st1)" by fastforce
  have "known_names st (wo_directory ?o) {}" using assms(1) by (simp add: empty_directory_def known_names_def wal_options_of_def segment_path_def)
  from open_wal_fresh[OF this _ assms(2) o, of "{}"] assms(1)
  consider (fails) "\<exists>e. q = Inl e" "os_faults st \<noteq> []"
    | (opens) w where "q = Inr w" "opened_with ?o w" "clean_inv {} w 1 [] [] 1" "set (os_faults w) \<subseteq> set (os_faults st)"
    using assms(4) by (auto simp: empty_directory_def)
  then show ?thesis
  proof cases
    case fails
    then show ?thesis using assms(5) o by (auto simp: open_engine_def)
  next
    case (opens w)
    have op: "open_wal ?o st = (Inr w, st1)" using o opens(1) by simp
    note O = open_wal_state[OF op] and F = open_wal_frame[OF op]
    have dir: "?dir \<noteq> wo_directory ?o" using checkpoints_apart by (simp add: wal_options_of_def)
    have "file_at (?dir, name) w = None" for name
      using outsideD[OF F(1), of "(?dir, name)"] dir assms(1) by (simp add: empty_directory_def)
    then have "snapshots_ok (faithful [[]] 1) ?dir w" by (simp add: snapshots_ok_def)
    moreover have "log_holds {} ?o w 1 [] 1" using clean_holds[OF O(1) opens(2) same_log_refl _ opens(3)] by simp
    ultimately have "store_inv {} ?o ?dir w [[]] 1" unfolding store_inv_def using chain_start F(2) dir by (auto simp: covered_def)
    from open_engine_run[OF assms(5) op assms(3) this clean_no_leftover[OF opens(3)] O(2,3) open_wal_pending[OF op]] show ?thesis
    proof (elim disjE conjE exE)
      fix E
      assume b: "r = Inr E" "engine_store {} options E [[]] 1" "at_state [[]] E" "no_leftover (en_log E)" "quiet w (en_log E)" "\<not> en_closed E"
      have "set (os_faults (en_log E)) \<subseteq> set (os_faults st)" using b(5) opens(4) by (auto simp: quiet_def)
      then show ?thesis using b(1-4,6) O(2,3) quiet_fields[OF b(5)] by simp
    qed (use opens(4) in auto)
  qed
qed

section \<open>Histories\<close>

text \<open>
  \<open>engine_history options settings E S D P\<close>: the engine \<open>E\<close> went through the contents \<open>S\<close>, one after
  each record of its log, from the empty contents on. The first \<open>D\<close> of them were acknowledged as
  durable under the write concern. \<open>P\<close> is what a command that broke the log would have led to.
\<close>

definition states_after :: "engine \<Rightarrow> engine \<Rightarrow> recovered_state catalog list \<Rightarrow> recovered_state catalog list" where
  "states_after E E' S = (if wl_broken (en_log E') \<or> lastLsn (en_log E') = lastLsn (en_log E) then S else S @ [db_state E'])"

definition acknowledged :: "engine \<Rightarrow> engine \<Rightarrow> recovered_state catalog list \<Rightarrow> nat \<Rightarrow> nat" where
  "acknowledged E E' S D = (if states_after E E' S \<noteq> S \<and> append_durable (en_log E) then length S + 1 else D)"

definition in_doubt :: "recovered_state catalog \<Rightarrow> engine \<Rightarrow> engine \<Rightarrow> recovered_state catalog option \<Rightarrow> recovered_state catalog option" where
  "in_doubt m E E' P = (if wl_broken (en_log E') \<and> \<not> wl_broken (en_log E) then Some m else P)"

inductive engine_history ::
  "engine_options \<Rightarrow> settings \<Rightarrow> engine \<Rightarrow> recovered_state catalog list \<Rightarrow> nat \<Rightarrow> recovered_state catalog option \<Rightarrow> bool"
  for options settings where
  created: "\<lbrakk>engine_settings options = Inr settings; stage_harmless (eo_onCheckpointStage options); empty_directory options st;
     option_mode (wal_options_of options) = Flushed \<longrightarrow> flushes_directories st; open_engine options settings st = (Inr E, st')\<rbrakk> \<Longrightarrow>
     engine_history options settings E [[]] 1 None"
| open_collection: "\<lbrakk>engine_history options settings E S D P; no_leftover (en_log E); name_ok d; name_ok c; openCollection d c E = (r, E')\<rbrakk> \<Longrightarrow>
     engine_history options settings E' (states_after E E' S) (acknowledged E E' S D) (in_doubt (attempted_open d c E) E E' P)"
| command: "\<lbrakk>engine_history options settings E S D P; no_leftover (en_log E); getCollection d c E = Some C; command_ok C cmd;
     \<forall>n. length (fresh n) = 16; \<forall>spec \<in> specs_made cmd. spec_durable spec; specs_made cmd = {} \<or> \<not> checkpoint_due E;
     run_hosted d c fresh cmd E = (r, E')\<rbrakk> \<Longrightarrow>
     engine_history options settings E' (states_after E E' S) (acknowledged E E' S D) (in_doubt (attempted d c fresh cmd E) E E' P)"
| commits: "\<lbrakk>engine_history options settings E S D P; no_leftover (en_log E); engine_commit_log E = (r, E')\<rbrakk> \<Longrightarrow>
     engine_history options settings E' S
       (if r = Inr () \<and> hasUncommittedWrites E \<and> \<not> wl_closed (en_log E) \<and> wl_mode (en_log E) \<noteq> Memory then length S else D) P"
| flushes: "\<lbrakk>engine_history options settings E S D P; no_leftover (en_log E); flush_tick E = (r, E')\<rbrakk> \<Longrightarrow>
     engine_history options settings E' S D P"
| checkpoints: "\<lbrakk>engine_history options settings E S D P; no_leftover (en_log E); checkpoint E = (r, E')\<rbrakk> \<Longrightarrow>
     engine_history options settings E' S D P"
| ticks: "\<lbrakk>engine_history options settings E S D P; no_leftover (en_log E); checkpoint_tick E = (r, E')\<rbrakk> \<Longrightarrow>
     engine_history options settings E' S D P"
| closes: "\<lbrakk>engine_history options settings E S D P; no_leftover (en_log E); close_engine E = (r, E')\<rbrakk> \<Longrightarrow>
     engine_history options settings E' S D P"
| reopened: "\<lbrakk>engine_history options settings E S D P; log_crash (en_log E) st; open_engine options settings st = (Inr E', st')\<rbrakk> \<Longrightarrow>
     engine_history options settings E' (take (lastLsn (en_log E') + 1) (S @ [db_state E'])) D None"

text \<open>The records that a broken log may have in addition to the acknowledged ones.\<close>

definition doubtful :: "recovered_state catalog option \<Rightarrow> recovered_state catalog list \<Rightarrow> log_entry set" where
  "doubtful P S = {x. \<exists>p. P = Some p \<and> leads (last S) x p}"

definition history_inv :: "engine_options \<Rightarrow> engine \<Rightarrow> recovered_state catalog list \<Rightarrow> nat \<Rightarrow> recovered_state catalog option \<Rightarrow> bool" where
  "history_inv options E S D P \<longleftrightarrow> (\<exists>D' \<ge> D. engine_store (doubtful P S) options E S D') \<and> at_state S E"

lemma leads_unique: "leads m x a \<Longrightarrow> leads m x b \<Longrightarrow> a = b"
  by (fastforce simp: leads_def dest: logs_decode)

lemma inv_advances:
  assumes "history_inv options E S D P" "\<And>D. engine_store (doubtful P S) options E S D \<Longrightarrow> advances (doubtful P S) options S D m E E'"
  shows "history_inv options E' (states_after E E' S) (acknowledged E E' S D) (in_doubt m E E' P)"
proof -
  let ?X = "doubtful P S"
  obtain D0 where D0: "D \<le> D0" "engine_store ?X options E S D0" using assms(1) by (auto simp: history_inv_def)
  obtain D1 where "D0 \<le> D1" and cases: "engine_store (if wl_broken (en_log E) then ?X else {x. leads (last S) x m}) options E' S D1 \<and> at_state S E' \<and>
       (\<not> wl_broken (en_log E') \<longrightarrow> lastLsn (en_log E') = lastLsn (en_log E)) \<or>
     engine_store ?X options E' (S @ [m]) D1 \<and> at_state (S @ [m]) E' \<and> (append_durable (en_log E) \<longrightarrow> D1 = length S + 1) \<and>
       \<not> wl_broken (en_log E') \<and> lastLsn (en_log E') \<noteq> lastLsn (en_log E)" using assms(2)[OF D0(2)] unfolding advances_def by blast
  with D0(1) have le: "D \<le> D1" by simp
  from cases show ?thesis
  proof (elim disjE conjE)
    assume a: "engine_store (if wl_broken (en_log E) then ?X else {x. leads (last S) x m}) options E' S D1" "at_state S E'"
      "\<not> wl_broken (en_log E') \<longrightarrow> lastLsn (en_log E') = lastLsn (en_log E)"
    have S: "states_after E E' S = S" "acknowledged E E' S D = D" using a(3) by (auto simp: states_after_def acknowledged_def)
    have "engine_store (doubtful (in_doubt m E E' P) S) options E' S D1"
    proof (cases "wl_broken (en_log E')")
      case True
      then have "doubtful (in_doubt m E E' P) S = (if wl_broken (en_log E) then ?X else {x. leads (last S) x m})"
        by (auto simp: doubtful_def in_doubt_def)
      then show ?thesis using a(1) by simp
    qed (use engine_store_not_broken[OF a(1)] in blast)
    then show ?thesis using a(2) le unfolding history_inv_def S by blast
  next
    assume b: "engine_store ?X options E' (S @ [m]) D1" "at_state (S @ [m]) E'" "append_durable (en_log E) \<longrightarrow> D1 = length S + 1"
      "\<not> wl_broken (en_log E')" "lastLsn (en_log E') \<noteq> lastLsn (en_log E)"
    have S: "states_after E E' S = S @ [m]" using b(2,4,5) by (simp add: states_after_def at_state_def)
    have "acknowledged E E' S D \<le> D1" using b(3) le by (auto simp: acknowledged_def)
    then show ?thesis using engine_store_not_broken[OF b(1,4)] b(2) unfolding history_inv_def S by blast
  qed
qed

lemma inv_kept:
  assumes "history_inv options E S D P" "\<And>D0. D \<le> D0 \<Longrightarrow> engine_store (doubtful P S) options E S D0 \<Longrightarrow> \<exists>D1 \<ge> D'. kept (doubtful P S) options E E' S D1"
  shows "history_inv options E' S D' P"
proof -
  obtain D0 where "D \<le> D0" "engine_store (doubtful P S) options E S D0" using assms(1) by (auto simp: history_inv_def)
  from assms(2)[OF this] obtain D1 where k: "D' \<le> D1" "kept (doubtful P S) options E E' S D1" by blast
  then show ?thesis using assms(1) kept_store(1)[OF k(2)] at_state_same[OF kept_store(3)[OF k(2)], of S] by (auto simp: history_inv_def)
qed

lemma reopened_states:
  assumes "reopened_from X S S'" "S' \<noteq> []" "at_state S' E'" "lastLsn (en_log E') = length S' - 1"
  shows "S' = take (lastLsn (en_log E') + 1) (S @ [db_state E'])"
  using assms(1) unfolding reopened_from_def
proof
  assume a: "S' = take (length S') S"
  then have "length S' \<le> length S" by (metis length_take min.cobounded1)
  then show ?thesis using a assms(2,4) by (simp add: Suc_leI)
qed (use assms(3,4) in \<open>auto simp: at_state_def\<close>)

lemma inv_reopened:
  assumes "history_inv options E S D P" "log_crash (en_log E) st" "retains settings" "open_engine options settings st = (r, st')"
  shows "(\<exists>e. r = Inl e) \<and> os_faults st \<noteq> [] \<or> (\<exists>E'. r = Inr E' \<and>
    history_inv options E' (take (lastLsn (en_log E') + 1) (S @ [db_state E'])) D None \<and> no_leftover (en_log E') \<and> set (os_faults (en_log E')) \<subseteq> set (os_faults st) \<and>
    ((\<exists>k < length S. D \<le> k + 1 \<and> db_state E' = S ! k) \<or> P = Some (db_state E')))"
proof -
  obtain D0 where D0: "D \<le> D0" "engine_store (doubtful P S) options E S D0" using assms(1) by (auto simp: history_inv_def)
  have "\<forall>x \<in> doubtful P S. \<exists>m. leads (last S) x m" by (auto simp: doubtful_def)
  from reopen_engine[OF D0(2) assms(2-4) this] show ?thesis
  proof (elim disjE exE conjE)
    fix E' S'
    assume a: "r = Inr E'" "reopened_from (doubtful P S) S S'" "engine_store {} options E' S' D0" "at_state S' E'" "no_leftover (en_log E')"
      "lastLsn (en_log E') = length S' - 1" "set (os_faults (en_log E')) \<subseteq> set (os_faults st)"
    have n: "S' \<noteq> []" "D0 \<le> length S'" using store_numbers(2,3) a(3) by (fastforce simp: engine_store_def)+
    have "history_inv options E' S' D None" using a(3,4) D0(1) by (auto simp: history_inv_def doubtful_def)
    moreover note reopened_states[OF a(2) n(1) a(4,6)]
    moreover have "(\<exists>k < length S. D \<le> k + 1 \<and> db_state E' = S ! k) \<or> P = Some (db_state E')"
      using a(2) unfolding reopened_from_def
    proof
      assume t: "S' = take (length S') S"
      then have l: "length S' \<le> length S" by (metis length_take min.cobounded1)
      have "db_state E' = S' ! (length S' - 1)" using a(4) n(1) by (simp add: at_state_def last_conv_nth)
      also have "\<dots> = S ! (length S' - 1)" using n(1) by (subst t) simp
      finally show ?thesis using l n D0(1) by (intro disjI1 exI[of _ "length S' - 1"]) (cases S'; simp)
    next
      assume "\<exists>x \<in> doubtful P S. \<exists>m. leads (last S) x m \<and> S' = S @ [m]"
      then show ?thesis using a(4) leads_unique by (fastforce simp: doubtful_def at_state_def)
    qed
    ultimately show ?thesis using a(1,5,7) by auto
  qed auto
qed

lemma history_settings:
  "engine_history options settings E S D P \<Longrightarrow> engine_settings options = Inr settings \<and> stage_harmless (eo_onCheckpointStage options)"
  by (induction rule: engine_history.induct) auto

lemma history_holds: "engine_history options settings E S D P \<Longrightarrow> history_inv options E S D P"
proof (induction rule: engine_history.induct)
  case (created st E st')
  have "retains settings" using settings_retain created(1,2) by blast
  moreover have "valid_options (wal_options_of options)"
    using created(5) open_wal_state(1) by (auto simp: open_engine_def split: prod.splits sum.splits)
  ultimately show ?case using create_engine[OF created(3,4) _ _ created(5)] by (auto simp: history_inv_def doubtful_def)
next
  case (open_collection E S D P d c r E')
  then show ?case using open_collection_step by (intro inv_advances) (auto simp: history_inv_def)
next
  case (command E S D P d c C cmd fresh r E')
  have "at_state S E" using command.IH by (simp add: history_inv_def)
  then show ?case using command.IH hosted_step[OF _ command(2) _ command(8,3,4,5,6,7)] by (intro inv_advances)
next
  case (commits E S D P r E')
  show ?case using commits.IH
  proof (rule inv_kept)
    fix D0
    assume "D \<le> D0" and es: "engine_store (doubtful P S) options E S D0"
    then show "\<exists>D1 \<ge> (if r = Inr () \<and> hasUncommittedWrites E \<and> \<not> wl_closed (en_log E) \<and> wl_mode (en_log E) \<noteq> Memory then length S else D).
        kept (doubtful P S) options E E' S D1"
      using commit_log_step[OF es commits(2,3)] by (intro exI conjI) auto
  qed
next
  case (flushes E S D P r E')
  show ?case using flushes.IH by (rule inv_kept) (use flush_tick_step[OF _ flushes(2,3)] in \<open>meson le_trans\<close>)
next
  case (checkpoints E S D P r E')
  have "at_state S E" using checkpoints.IH by (simp add: history_inv_def)
  note C = checkpoint_step[OF _ checkpoints(2) this checkpoints(3)[unfolded checkpoint_def]]
  show ?case using checkpoints.IH by (rule inv_kept) (use C in \<open>meson le_trans\<close>)
next
  case (ticks E S D P r E')
  have "at_state S E" using ticks.IH by (simp add: history_inv_def)
  note C = tick_step[OF _ ticks(2) this ticks(3)]
  show ?case using ticks.IH by (rule inv_kept) (use C in \<open>meson le_trans\<close>)
next
  case (closes E S D P r E')
  then obtain D0 where "D \<le> D0" "engine_store (doubtful P S) options E S D0" "at_state S E" by (auto simp: history_inv_def)
  then show ?case using close_step[OF _ closes(2) _ closes(3)] unfolding history_inv_def by (meson le_trans)
next
  case (reopened E S D P st E' st')
  have "retains settings" using settings_retain history_settings[OF reopened(1)] by blast
  then show ?case using inv_reopened[OF reopened.IH reopened(2) _ reopened(3)] by auto
qed

section \<open>An example\<close>

definition example_engine_options :: engine_options where
  "example_engine_options = \<lparr>eo_directory = js ''data'', eo_writeConcern = None, eo_groupCommit = None, eo_memoryFlushIntervalMs = None,
     eo_segmentSizeBytes = None, eo_checkpointThresholdBytes = None, eo_checkpointIntervalMs = None, eo_checkpointRetention = None,
     eo_checkpointOnClose = None, eo_onCheckpointStage = (\<lambda>_. returnS ())\<rparr>"

definition example_settings :: settings where
  "example_settings = \<lparr>st_checkpointThresholdBytes = DEFAULT_CHECKPOINT_THRESHOLD_BYTES, st_checkpointRetention = DEFAULT_CHECKPOINT_RETENTION,
     st_checkpointOnClose = True, st_onCheckpointStage = (\<lambda>_. returnS ())\<rparr>"

lemma example_engine:
  "engine_settings example_engine_options = Inr example_settings" "stage_harmless (eo_onCheckpointStage example_engine_options)"
  "valid_options (wal_options_of example_engine_options)" "option_mode (wal_options_of example_engine_options) = Flushed" "retains example_settings"
proof -
  show *: "engine_settings example_engine_options = Inr example_settings"
    by (simp add: engine_settings_def example_engine_options_def example_settings_def option_default_def positive_setting_def isSafeInteger_def
        num_of_int_exact MAX_SAFE_INTEGER_def DEFAULT_CHECKPOINT_THRESHOLD_BYTES_def DEFAULT_MEMORY_FLUSH_INTERVAL_MS_def DEFAULT_CHECKPOINT_RETENTION_def)
  show h: "stage_harmless (eo_onCheckpointStage example_engine_options)" by (simp add: stage_harmless_def example_engine_options_def returnS_def)
  show "retains example_settings" by (rule settings_retain[OF * h])
  show "valid_options (wal_options_of example_engine_options)" "option_mode (wal_options_of example_engine_options) = Flushed"
    using example_valid by (simp_all add: valid_options_def wal_options_of_def example_engine_options_def example_options_def)
qed

abbreviation example_contents :: "recovered_state catalog list" where
  "example_contents \<equiv> [[], catalog_put (js ''shop'') (js ''orders'') no_documents []]"

lemma first_collection:
  assumes "engine_store {} options E [[]] 1" "at_state [[]] E" "no_leftover (en_log E)" "os_faults (en_log E) = []"
    and "\<not> en_closed E" "\<not> wl_closed (en_log E)" "\<not> wl_broken (en_log E)" "name_ok d" "name_ok c"
    and "encodeOperations [LCreateCollection d c] = Inr payload" "length payload \<le> MAX_RECORD_PAYLOAD_SIZE"
  shows "\<exists>E'. openCollection d c E = (Inr (), E') \<and> \<not> wl_broken (en_log E') \<and> lastLsn (en_log E') = 1 \<and> lastLsn (en_log E) = 0 \<and>
    no_leftover (en_log E')"
proof -
  let ?ops = "[LCreateCollection d c]" and ?m = "catalog_put d c no_documents []"
  have zero: "lastLsn (en_log E) = 0" using engine_store_lsn(1)[OF assms(1,7)] by simp
  have due: "runDueCheckpoint nothing_building E = (Inr (), E)"
    using assms(5) zero by (simp add: runDueCheckpoint_def runAutomaticCheckpoint_def checkpoint_with_def engine_assertOpen_def beginCheckpoint_def operation_defs)
  obtain n0 es where l: "log_holds {} (wal_options_of options) (en_log E) n0 es 1" "n0 + length es = 1"
    using assms(1) by (auto simp: engine_store_def store_inv_def chain_def)
  have "\<not> refuses (en_log E) (n0 + length es) (RecordTransaction, payload)"
    using assms(4,6,7,11) l(2) by (simp add: refuses_def entry_ok_def RecordTransaction_def)
  then obtain w where w: "wal_append RecordTransaction payload (en_log E) = (Inr 1, w)"
    using append_progress[OF l(1) assms(3)] l(2) by auto
  then obtain E1 where a: "append_operations nothing_building ?ops E = (Inr (), E1)"
    using due assms(5,10) by (simp add: append_operations_body append_body_def engine_assertOpen_def on_log_def operation_defs)
  have "catalog_find d c ([] :: recovered_state catalog) = None" by (simp add: catalog_find_def)
  then have ap: "apply_all ?ops (last [[]]) = Inr ?m" by (simp add: applyRecovered_def no_documents_def)
  have all: "entries_all state_good ?m" using entries_all_put[of state_good "[]" d c no_documents] assms(8,9) no_documents_good by simp
  have ok: "\<forall>op \<in> set ?ops. log_operation_ok op" using assms(8,9) by simp
  obtain D where D: "engine_store {} options E1 ([[]] @ [?m]) D" "\<not> wl_broken (en_log E1)" "no_leftover (en_log E1)"
    using append_step[OF assms(1,3,2) a _ ok ap all] by auto
  obtain C' where C': "register d c [] [] E1 = (Inr (), store_collection d c C' E1)"
    using register_rebuilds[OF no_documents_good, of d c E1] by (auto simp: no_documents_def)
  have "getCollection d c E = None"
    using assms(2) by (auto simp: at_state_def db_state_def getCollection_def catalog_find_def catalog_map_def)
  then have "openCollection d c E = (Inr (), store_collection d c C' E1)" using a C' by (simp add: openCollection_def operation_defs)
  then show ?thesis using D(2,3) zero engine_store_lsn(1)[OF D(1,2)] by simp
qed

lemma example_engine_history:
  "\<exists>E st. engine_history example_engine_options example_settings E example_contents 2 None \<and> log_crash (en_log E) st \<and> os_faults st = []"
proof -
  let ?o = example_engine_options and ?st = "\<lparr>os_files = [], os_faults = []\<rparr> :: os" and ?d = "js ''shop''" and ?c = "js ''orders''"
  have empty: "empty_directory ?o ?st" "flushes_directories ?st"
    by (simp_all add: empty_directory_def file_at_def flushes_directories_def)
  obtain r st' where o: "open_engine ?o example_settings ?st = (r, st')" by fastforce
  obtain E where E: "r = Inr E" "engine_store {} ?o E [[]] 1" "at_state [[]] E" "no_leftover (en_log E)" "os_faults (en_log E) = []"
      "\<not> en_closed E" "\<not> wl_closed (en_log E)" "\<not> wl_broken (en_log E)"
    using create_engine[OF empty(1) _ example_engine(5,3) o] empty(2) by auto
  have h: "engine_history ?o example_settings E [[]] 1 None"
    using engine_history.created[OF example_engine(1,2) empty(1) _ o[unfolded E(1)]] empty(2) by simp
  have names: "name_ok ?d" "name_ok ?c"
    by (simp_all add: name_ok_def bom_free_string_def js_def of_char_def is_high_def is_low_def)
  have len: "length (text_encode ?d) = 4" "length (text_encode ?c) = 6"
    by (simp_all add: text_encode_def utf8_bytes_def js_def of_char_def is_high_def is_low_def)
  then have enc: "encodeName ?d = Inr (be_bytes 2 4 @ text_encode ?d)" "encodeName ?c = Inr (be_bytes 2 6 @ text_encode ?c)"
    unfolding encodeName_def Let_def by (simp_all add: MAX_NAME_BYTE_LENGTH_def)
  let ?p = "be_bytes 4 1 @ byte1 KindCreateCollection @ (be_bytes 2 4 @ text_encode ?d) @ be_bytes 2 6 @ text_encode ?c"
  have p: "encodeOperations [LCreateCollection ?d ?c] = Inr ?p" "length ?p \<le> MAX_RECORD_PAYLOAD_SIZE"
    using len enc by (simp_all add: encodeOperations_def writeUInt32BE_def MAX_RECORD_PAYLOAD_SIZE_def byte1_def)
  obtain E' where E': "openCollection ?d ?c E = (Inr (), E')" "\<not> wl_broken (en_log E')" "lastLsn (en_log E') = 1" "lastLsn (en_log E) = 0"
      "no_leftover (en_log E')"
    using first_collection[OF E(2-8) names p] by blast
  note h' = engine_history.open_collection[OF h E(4) names E'(1)]
  have mode: "wl_mode (en_log E) = Flushed" "append_durable (en_log E)"
    using E(2) example_engine(4) by (auto simp: engine_store_def store_inv_def log_holds_def opened_with_def append_durable_def wal_options_of_def
        example_engine_options_def option_default_def)
  have adv: "advances {} ?o [[]] 1 (attempted_open ?d ?c E) E E'" by (rule open_collection_step[OF E(2,4,3) E'(1) names])
  then have "db_state E' = attempted_open ?d ?c E" "same_log (en_log E) (en_log E')"
    using E'(2-4) by (auto simp: advances_def at_state_def)
  then have S: "states_after E E' [[]] = example_contents" using E'(2-4) E(3) by (simp add: states_after_def attempted_open_def at_state_def)
  moreover from S have "acknowledged E E' [[]] 1 = 2" using mode by (simp add: acknowledged_def)
  ultimately have H: "engine_history ?o example_settings E' example_contents 2 None" using h' E'(2) by (simp add: in_doubt_def)
  obtain D where "engine_store (doubtful None example_contents) ?o E' example_contents D" using history_holds[OF H] by (auto simp: history_inv_def)
  then have "distinct (map fst (os_files (en_log E')))" using store_distinct by (auto simp: engine_store_def)
  then obtain st :: os where st: "power_loss (en_log E') st" "os_faults st = []" using power_loss_possible by blast
  then have "log_crash (en_log E') st" using mode(1) \<open>same_log (en_log E) (en_log E')\<close> by (simp add: log_crash_def flushes_directories_def same_log_def)
  then show ?thesis using H st(2) by blast
qed

section \<open>Property\<close>



end
